(* ===== verification/Prelude.thy ===== *)
theory Prelude
  imports Main "HOL-Library.List_Lexorder" "HOL-Library.Char_ord" "HOL-Library.Word"
    "HOL-Library.Sublist" "HOL-Library.Multiset"
begin

text \<open>
  What every component theory shares: the types the Go code's values are modelled by, the functions of
  Go's standard library the modelled code calls on strings, and generic lemmas on lists and maps.

  Times are nanoseconds on the server's clock (\<open>int\<close>); a \<open>time.Time\<close> that may be the zero time
  is a \<open>time option\<close>, with \<open>None\<close> for the zero value. A \<open>time.Duration\<close> is an \<open>int\<close> number of
  nanoseconds. A Go string is a list of bytes, so \<open>string\<close> (a \<open>char list\<close>, a \<open>char\<close> being a byte)
  is the same type; its order (\<open>List_Lexorder\<close> over \<open>Char_ord\<close>) is Go's bytewise order.
\<close>

subsection \<open>Types and named collections\<close>

type_synonym time = int
type_synonym duration = int
type_synonym u64 = "64 word"
type_synonym u32 = "32 word"

abbreviation second :: duration where "second \<equiv> 1000000000"
abbreviation minute :: duration where "minute \<equiv> 60000000000"
abbreviation hour :: duration where "hour \<equiv> 3600000000000"

named_theorems bounds_intros
named_theorems preserve_intros

subsection \<open>Strings: what the code uses of Go's strings package\<close>

text \<open>
  The encodings of the Unicode white space \<open>strings.TrimSpace\<close> removes: the ASCII ones, then U+0085,
  U+00A0, U+1680, U+2000 to U+200A, U+2028, U+2029, U+202F, U+205F and U+3000 in UTF-8.
\<close>

definition space_codes :: "string list" where
  "space_codes =
     [[CHR 0x09], [CHR 0x0A], [CHR 0x0B], [CHR 0x0C], [CHR 0x0D], [CHR 0x20],
      [CHR 0xC2, CHR 0x85], [CHR 0xC2, CHR 0xA0], [CHR 0xE1, CHR 0x9A, CHR 0x80],
      [CHR 0xE2, CHR 0x80, CHR 0x80], [CHR 0xE2, CHR 0x80, CHR 0x81], [CHR 0xE2, CHR 0x80, CHR 0x82],
      [CHR 0xE2, CHR 0x80, CHR 0x83], [CHR 0xE2, CHR 0x80, CHR 0x84], [CHR 0xE2, CHR 0x80, CHR 0x85],
      [CHR 0xE2, CHR 0x80, CHR 0x86], [CHR 0xE2, CHR 0x80, CHR 0x87], [CHR 0xE2, CHR 0x80, CHR 0x88],
      [CHR 0xE2, CHR 0x80, CHR 0x89], [CHR 0xE2, CHR 0x80, CHR 0x8A], [CHR 0xE2, CHR 0x80, CHR 0xA8],
      [CHR 0xE2, CHR 0x80, CHR 0xA9], [CHR 0xE2, CHR 0x80, CHR 0xAF], [CHR 0xE2, CHR 0x81, CHR 0x9F],
      [CHR 0xE3, CHR 0x80, CHR 0x80]]"

definition strip_code :: "string list \<Rightarrow> string \<Rightarrow> string option" where
  "strip_code cs s =
     (case List.find (\<lambda>c. c \<noteq> [] \<and> prefix c s) cs of None \<Rightarrow> None | Some c \<Rightarrow> Some (drop (length c) s))"

lemma strip_code_shorter: "strip_code cs s = Some r \<Longrightarrow> length r < length s"
  by (auto simp: strip_code_def find_Some_iff prefix_def split: option.splits)

function trim_front :: "string list \<Rightarrow> string \<Rightarrow> string" where
  "trim_front cs s = (case strip_code cs s of None \<Rightarrow> s | Some r \<Rightarrow> trim_front cs r)"
  by pat_completeness auto
termination
  by (relation "measure (\<lambda>(cs, s). length s)") (auto simp: strip_code_shorter)

declare trim_front.simps [simp del]

definition trim_space :: "string \<Rightarrow> string" where
  "trim_space s = rev (trim_front (map rev space_codes) (rev (trim_front space_codes s)))"

text \<open>
  \<open>strings.ToLower\<close> on ASCII bytes. The code compares its result with ASCII words that hold neither
  \<open>k\<close> nor \<open>i\<close>, the only ASCII letters a non-ASCII character lowers to, so leaving the other bytes
  alone decides the comparison as Go does.
\<close>

definition lower_byte :: "char \<Rightarrow> char" where
  "lower_byte c = (let n = of_char c :: nat in if 65 \<le> n \<and> n \<le> 90 then char_of (n + 32) else c)"

definition to_lower :: "string \<Rightarrow> string" where
  "to_lower = map lower_byte"

definition upper_byte :: "char \<Rightarrow> char" where
  "upper_byte c = (let n = of_char c :: nat in if 97 \<le> n \<and> n \<le> 122 then char_of (n - 32) else c)"

text \<open>
  \<open>strings.EqualFold(s, t)\<close> for a lower-case ASCII \<open>t\<close>: besides the two cases of a letter, U+017F folds
  to \<open>s\<close> and U+212A to \<open>k\<close>.
\<close>

fun equal_fold :: "string \<Rightarrow> string \<Rightarrow> bool" where
  "equal_fold s [] = (s = [])"
| "equal_fold s (t # ts) =
     ((case s of [] \<Rightarrow> False | c # cs \<Rightarrow> lower_byte c = t \<and> equal_fold cs ts)
      \<or> (t = CHR ''s'' \<and> prefix [CHR 0xC5, CHR 0xBF] s \<and> equal_fold (drop 2 s) ts)
      \<or> (t = CHR ''k'' \<and> prefix [CHR 0xE2, CHR 0x84, CHR 0xAA] s \<and> equal_fold (drop 3 s) ts))"

definition firstNonEmpty :: "string list \<Rightarrow> string" where
  "firstNonEmpty as = (case List.find (\<lambda>s. s \<noteq> []) as of None \<Rightarrow> [] | Some s \<Rightarrow> s)"

text \<open>\<open>strings.Cut(s, sep)\<close> for a one-byte separator: before, after, found.\<close>

fun cut_at :: "char \<Rightarrow> string \<Rightarrow> string \<times> string \<times> bool" where
  "cut_at c [] = ([], [], False)"
| "cut_at c (x # xs) =
     (if x = c then ([], xs, True)
      else (case cut_at c xs of (b, a, ok) \<Rightarrow> (x # b, a, ok)))"

text \<open>\<open>strings.Split(s, sep)\<close> for a one-byte separator.\<close>

fun split_at :: "char \<Rightarrow> string \<Rightarrow> string list" where
  "split_at c [] = [[]]"
| "split_at c (x # xs) =
     (if x = c then [] # split_at c xs
      else (case split_at c xs of [] \<Rightarrow> [[x]] | w # ws \<Rightarrow> (x # w) # ws))"

text \<open>
  \<open>strconv.Atoi\<close>: an optional sign, then one or more ASCII digits, within an \<open>int64\<close>; \<open>None\<close> is its error.
\<close>

definition is_digit :: "char \<Rightarrow> bool" where
  "is_digit c = (let n = of_char c :: nat in 48 \<le> n \<and> n \<le> 57)"

definition digit_val :: "char \<Rightarrow> int" where
  "digit_val c = of_char c - 48"

fun decimal :: "int \<Rightarrow> string \<Rightarrow> int option" where
  "decimal acc [] = Some acc"
| "decimal acc (c # cs) = (if is_digit c then decimal (acc * 10 + digit_val c) cs else None)"

definition unsigned_decimal :: "string \<Rightarrow> int option" where
  "unsigned_decimal s = (if s = [] then None else decimal 0 s)"

definition atoi :: "string \<Rightarrow> int option" where
  "atoi s =
     (case (case s of [] \<Rightarrow> None
            | c # cs \<Rightarrow> if c = CHR ''-'' then map_option uminus (unsigned_decimal cs)
                       else if c = CHR ''+'' then unsigned_decimal cs else unsigned_decimal s) of
        None \<Rightarrow> None
      | Some n \<Rightarrow> if - (2 ^ 63) \<le> n \<and> n < 2 ^ 63 then Some n else None)"

text \<open>\<open>%d\<close> of a number.\<close>

fun show_nat :: "nat \<Rightarrow> string" where
  "show_nat n = (if n < 10 then [char_of (48 + n)] else show_nat (n div 10) @ [char_of (48 + n mod 10)])"

declare show_nat.simps [simp del]

end
