(* ===== verification/Advice.thy ===== *)
theory Advice
  imports Complex_Main Prelude
begin

text \<open>
  Placement advice (\<open>backend/internal/advice/advice.go\<close>): certainty classes and verdicts, facts and their
  ageing, the free capacity of a group of nodes as an interval (\<open>NewPool\<close>, \<open>Adjust\<close>, \<open>Scaled\<close>), the
  three-valued decision of one dimension (\<open>Fit\<close>) with what would change it, and the combination of
  dimensions and checks (\<open>Assess\<close>).

  A Go \<open>float64\<close> is an exact rational here: rounding is not modelled. The two special values the code itself
  handles are kept: a fact's value may be \<open>NaN\<close> (\<open>Known\<close> tests it) and a pool's upper end may be
  \<open>+Inf\<close>. The sentences shown to a person are values of a datatype with one constructor per sentence and the
  values the code formats into it; the formatting of numbers (\<open>trim\<close>, \<open>roundDur\<close>, \<open>pct\<close>) is left out.
\<close>

subsection \<open>Classes, verdicts and levels\<close>

datatype conf_class = Measured | Reported | Inferred | Guess | Unknown | OtherClass string

definition Factor :: "conf_class \<Rightarrow> rat option" where
  "Factor c = (case c of Measured \<Rightarrow> Some (5/100) | Reported \<Rightarrow> Some (15/100) | Inferred \<Rightarrow> Some (30/100)
     | Guess \<Rightarrow> Some (50/100) | _ \<Rightarrow> None)"

text \<open>\<open>f, _ := Factor(c)\<close>: a class without a factor gives 0.\<close>

definition factor0 :: "conf_class \<Rightarrow> rat" where
  "factor0 c = (case Factor c of Some f \<Rightarrow> f | None \<Rightarrow> 0)"

fun Rank :: "conf_class \<Rightarrow> nat" where
  "Rank Measured = 4"
| "Rank Reported = 3"
| "Rank Inferred = 2"
| "Rank Guess = 1"
| "Rank _ = 0"

definition norm_class :: "conf_class \<Rightarrow> conf_class" where
  "norm_class c = (if Rank c = 0 then Unknown else c)"

definition Worse :: "conf_class \<Rightarrow> conf_class \<Rightarrow> conf_class" where
  "Worse a b = (if Rank a \<le> Rank b then norm_class a else norm_class b)"

fun Demote :: "conf_class \<Rightarrow> conf_class" where
  "Demote Measured = Reported"
| "Demote Reported = Inferred"
| "Demote Inferred = Guess"
| "Demote Guess = Guess"
| "Demote _ = Unknown"

datatype verdict = Fits | CantTell | DoesNotFit

fun Combine_loop :: "verdict \<Rightarrow> verdict list \<Rightarrow> verdict" where
  "Combine_loop out [] = out"
| "Combine_loop out (DoesNotFit # vs) = DoesNotFit"
| "Combine_loop out (CantTell # vs) = Combine_loop CantTell vs"
| "Combine_loop out (Fits # vs) = Combine_loop out vs"

definition Combine :: "verdict list \<Rightarrow> verdict" where
  "Combine vs = Combine_loop Fits vs"

datatype level = High | Medium | Low | NoLevel

fun LevelOf :: "conf_class \<Rightarrow> level" where
  "LevelOf Measured = High"
| "LevelOf Reported = High"
| "LevelOf Inferred = Medium"
| "LevelOf Guess = Low"
| "LevelOf _ = NoLevel"

fun level_rank :: "level \<Rightarrow> nat" where
  "level_rank High = 3"
| "level_rank Medium = 2"
| "level_rank Low = 1"
| "level_rank NoLevel = 0"

definition WeakerLevel :: "level \<Rightarrow> level \<Rightarrow> level" where
  "WeakerLevel a b = (if level_rank a \<le> level_rank b then a else b)"

subsection \<open>Facts\<close>

datatype fval = Num rat | NaN

record fact =
  f_Attribute :: string
  f_Entity :: string
  f_EntityName :: string
  f_Unit :: string
  f_Value :: "fval option"
  f_Class :: conf_class
  f_Source :: string
  f_ObservedAt :: "time option"
  f_State :: string
  f_Evidence :: string

definition Known :: "fact \<Rightarrow> bool" where
  "Known f = (case f_Value f of None \<Rightarrow> False | Some NaN \<Rightarrow> False | Some (Num _) \<Rightarrow> Rank (f_Class f) > 0)"

definition Effective :: "fact \<Rightarrow> time \<Rightarrow> duration \<Rightarrow> conf_class \<times> bool" where
  "Effective f now window =
     (if \<not> Known f then (Unknown, False)
      else (case f_ObservedAt f of
              None \<Rightarrow> (f_Class f, False)
            | Some t \<Rightarrow> (if window > 0 \<and> now - t > window then (Demote (f_Class f), True)
                          else (f_Class f, False))))"

text \<open>\<open>*f.Value\<close> where the code has established \<open>Known\<close>.\<close>

definition fact_num :: "fact \<Rightarrow> rat" where
  "fact_num f = (case f_Value f of Some (Num v) \<Rightarrow> v | _ \<Rightarrow> 0)"

subsection \<open>Pools\<close>

record node =
  n_ID :: string
  n_Name :: string
  n_Allocatable :: fact
  n_Requested :: fact
  n_AllocatableAttr :: string
  n_RequestedAttr :: string
  n_RequestedMissing :: string

datatype pool_note = NoteNoNodes | NoteAged string duration | NoteNoAllocatable string
  | NoteRequestedUnknown string string | NoteMovedIn

datatype upper = Fin rat | PInf

fun up_add :: "upper \<Rightarrow> rat \<Rightarrow> upper" where
  "up_add (Fin a) b = Fin (a + b)"
| "up_add PInf b = PInf"

fun up_max0 :: "upper \<Rightarrow> upper" where
  "up_max0 (Fin a) = Fin (max 0 a)"
| "up_max0 PInf = PInf"

fun up_less :: "upper \<Rightarrow> rat \<Rightarrow> bool" where
  "up_less (Fin a) n = (a < n)"
| "up_less PInf n = False"

record pool =
  p_Lo :: rat
  p_Hi :: upper
  p_KnownFree :: rat
  p_KnownNodes :: nat
  p_NominalKnown :: bool
  p_Nodes :: nat
  p_Class :: conf_class
  p_LoClass :: conf_class
  p_HiClass :: conf_class
  p_Oldest :: "time option"
  p_Aged :: bool
  p_Notes :: "pool_note list"
  p_hiKnown :: rat

definition oldest_step :: "time option \<Rightarrow> fact \<Rightarrow> time option" where
  "oldest_step old f =
     (if Known f
      then (case f_ObservedAt f of None \<Rightarrow> old
            | Some t \<Rightarrow> (case old of None \<Rightarrow> Some t | Some o' \<Rightarrow> if t < o' then Some t else old))
      else old)"

text \<open>One round of the loop of \<open>NewPool\<close>.\<close>

definition pool_step :: "time \<Rightarrow> duration \<Rightarrow> pool \<Rightarrow> node \<Rightarrow> pool" where
  "pool_step now window p n =
     (let (ca, aa) = Effective (n_Allocatable n) now window;
          (cr, ar) = Effective (n_Requested n) now window;
          name = firstNonEmpty [n_Name n, n_ID n];
          p = p\<lparr>p_Aged := p_Aged p \<or> aa \<or> ar,
                p_Oldest := oldest_step (oldest_step (p_Oldest p) (n_Allocatable n)) (n_Requested n),
                p_Notes := p_Notes p @ (if aa \<or> ar then [NoteAged name window] else [])\<rparr>
      in if \<not> Known (n_Allocatable n) then
           p\<lparr>p_Hi := PInf, p_NominalKnown := False, p_Class := Unknown, p_HiClass := Unknown,
             p_Notes := p_Notes p @ [NoteNoAllocatable name]\<rparr>
         else if \<not> Known (n_Requested n) then
           p\<lparr>p_Hi := up_add (p_Hi p) (fact_num (n_Allocatable n) * (1 + factor0 ca)),
             p_NominalKnown := False, p_Class := Unknown, p_HiClass := Worse (p_HiClass p) ca,
             p_Notes := p_Notes p @
               [NoteRequestedUnknown name (if n_RequestedMissing n = [] then ''pods are not read there''
                                           else n_RequestedMissing n)]\<rparr>
         else
           (let free = max 0 (fact_num (n_Allocatable n) - fact_num (n_Requested n));
                c = Worse ca cr;
                f = factor0 c
            in p\<lparr>p_Lo := p_Lo p + free * (1 - f), p_hiKnown := p_hiKnown p + free * (1 + f),
                 p_Hi := up_add (p_Hi p) (free * (1 + f)), p_KnownFree := p_KnownFree p + free,
                 p_KnownNodes := p_KnownNodes p + 1, p_Class := Worse (p_Class p) c,
                 p_LoClass := Worse (p_LoClass p) c, p_HiClass := Worse (p_HiClass p) c\<rparr>))"

definition empty_pool :: pool where
  "empty_pool = \<lparr>p_Lo = 0, p_Hi = PInf, p_KnownFree = 0, p_KnownNodes = 0, p_NominalKnown = False,
     p_Nodes = 0, p_Class = Unknown, p_LoClass = Unknown, p_HiClass = Unknown, p_Oldest = None,
     p_Aged = False, p_Notes = [NoteNoNodes], p_hiKnown = 0\<rparr>"

definition start_pool :: "nat \<Rightarrow> pool" where
  "start_pool k = \<lparr>p_Lo = 0, p_Hi = Fin 0, p_KnownFree = 0, p_KnownNodes = 0, p_NominalKnown = True,
     p_Nodes = k, p_Class = Measured, p_LoClass = Measured, p_HiClass = Measured, p_Oldest = None,
     p_Aged = False, p_Notes = [], p_hiKnown = 0\<rparr>"

definition NewPool :: "node list \<Rightarrow> time \<Rightarrow> duration \<Rightarrow> pool" where
  "NewPool nodes now window =
     (if nodes = [] then empty_pool
      else let p = foldl (pool_step now window) (start_pool (length nodes)) nodes
           in if p_KnownNodes p = 0 then p\<lparr>p_LoClass := Unknown\<rparr> else p)"

definition Adjust :: "pool \<Rightarrow> rat option \<Rightarrow> pool" where
  "Adjust p delta =
     (case delta of
        None \<Rightarrow> p\<lparr>p_Lo := 0, p_KnownFree := 0, p_KnownNodes := 0, p_hiKnown := 0,
                   p_NominalKnown := False, p_Class := Unknown, p_LoClass := Unknown,
                   p_Notes := p_Notes p @ [NoteMovedIn]\<rparr>
      | Some d \<Rightarrow> p\<lparr>p_Lo := max 0 (p_Lo p + d), p_Hi := up_max0 (up_add (p_Hi p) d),
                    p_hiKnown := max 0 (p_hiKnown p + d), p_KnownFree := max 0 (p_KnownFree p + d)\<rparr>)"

definition Scaled :: "pool \<Rightarrow> rat \<Rightarrow> pool" where
  "Scaled p free =
     (if p_KnownNodes p > 0 \<and> p_KnownFree p > 0 then
        (let s = free / p_KnownFree p;
             extra = up_add (p_Hi p) (- p_hiKnown p);
             p = p\<lparr>p_Lo := p_Lo p * s, p_hiKnown := p_hiKnown p * s, p_KnownFree := free\<rparr>
         in p\<lparr>p_Hi := up_add extra (p_hiKnown p)\<rparr>)
      else
        (let c = (if Rank (p_LoClass p) = 0 then Reported else p_LoClass p);
             f = factor0 c;
             none = (p_KnownNodes p = 0);
             extra = (if none then Fin 0 else up_add (p_Hi p) (- p_hiKnown p));
             p = (if none then p\<lparr>p_NominalKnown := True, p_KnownNodes := 1\<rparr> else p);
             p = p\<lparr>p_Lo := free * (1 - f), p_hiKnown := free * (1 + f), p_KnownFree := free\<rparr>
         in p\<lparr>p_Hi := up_add extra (p_hiKnown p), p_Class := c, p_LoClass := c, p_HiClass := c\<rparr>))"

subsection \<open>One dimension\<close>

text \<open>The formatting function of a dimension (\<open>Fmt\<close>) is left out: sentences carry the numbers themselves.\<close>

record dimension =
  d_Name :: string
  d_Label :: string
  d_Unit :: string

definition CPU :: dimension where
  "CPU = \<lparr>d_Name = ''cpu'', d_Label = ''CPU'', d_Unit = ''cores''\<rparr>"

definition Memory :: dimension where
  "Memory = \<lparr>d_Name = ''memory'', d_Label = ''memory'', d_Unit = ''bytes''\<rparr>"

record need =
  nd_Value :: "rat option"
  nd_Class :: conf_class

datatype direction = AtLeast | Below

datatype change_text = NoLongerFits | FitIfReported | FitsIfAtLeast | NotIfBelow | NoLongerRuledOut | FitsIfReaches

record change =
  ch_Dimension :: string
  ch_Attribute :: string
  ch_Unit :: string
  ch_Direction :: direction
  ch_Threshold :: rat
  ch_Current :: "rat option"
  ch_Becomes :: verdict
  ch_Text :: change_text

datatype reason =
    NoRequest string
  | AsksForNone string
  | FitsAtLowEnd string string rat rat conf_class rat
  | NotAtHighEnd string string rat rat conf_class upper
  | StraddlesNeed string string conf_class rat rat rat upper rat
  | NotEvenAll string string rat upper "pool_note list"
  | FitsOnKnown string string rat rat "pool_note list"
  | FreeNotKnown string string "pool_note list" rat
  | CheckReason string

record fix_hint =
  fx_Action :: string
  fx_Text :: string
  fx_Link :: string

record dim_result =
  r_Dimension :: dimension
  r_Verdict :: verdict
  r_Need :: need
  r_Pool :: pool
  r_Class :: conf_class
  r_Reason :: "reason option"
  r_Margin :: "rat option"
  r_WouldChange :: "change list"
  r_Fix :: "fix_hint option"

definition orUnknown :: "need \<Rightarrow> conf_class" where
  "orUnknown n = (if nd_Value n = None then Unknown else if Rank (nd_Class n) = 0 then Reported else nd_Class n)"

definition thresholdFits :: "pool \<Rightarrow> rat \<Rightarrow> rat" where
  "thresholdFits p n =
     (if p_KnownNodes p > 0 \<and> p_KnownFree p > 0 \<and> p_Lo p > 0 then p_KnownFree p * n / p_Lo p
      else let f = factor0 (p_LoClass p); f = (if f = 0 then factor0 Reported else f) in n / (1 - f))"

definition thresholdDoesNot :: "pool \<Rightarrow> rat \<Rightarrow> rat option" where
  "thresholdDoesNot p n =
     (case up_add (p_Hi p) (- p_hiKnown p) of
        PInf \<Rightarrow> None
      | Fin extra \<Rightarrow>
          (if extra \<ge> n then None
           else if p_KnownNodes p > 0 \<and> p_KnownFree p > 0 \<and> p_hiKnown p > 0
           then Some (p_KnownFree p * (n - extra) / p_hiKnown p) else None))"

definition wouldChange :: "dimension \<Rightarrow> rat \<Rightarrow> pool \<Rightarrow> verdict \<Rightarrow> change list" where
  "wouldChange dm n p v =
     (let cur = (if p_KnownNodes p > 0 then Some (p_KnownFree p) else None);
          mk = (\<lambda>dir t becomes text. \<lparr>ch_Dimension = d_Name dm, ch_Attribute = d_Name dm @ ''Free'',
                  ch_Unit = d_Unit dm, ch_Direction = dir, ch_Threshold = t, ch_Current = cur,
                  ch_Becomes = becomes, ch_Text = text\<rparr>);
          fit = thresholdFits p n;
          dnf = thresholdDoesNot p n
      in case v of
           Fits \<Rightarrow> [mk Below fit CantTell NoLongerFits]
         | CantTell \<Rightarrow>
             (if p_KnownNodes p = 0 then [mk AtLeast fit Fits FitIfReported]
              else mk AtLeast fit Fits FitsIfAtLeast #
                   (case dnf of Some t \<Rightarrow> [mk Below t DoesNotFit NotIfBelow] | None \<Rightarrow> []))
         | DoesNotFit \<Rightarrow>
             (case dnf of None \<Rightarrow> []
              | Some t \<Rightarrow> [mk AtLeast t CantTell NoLongerRuledOut, mk AtLeast fit Fits FitsIfReaches]))"

definition reason_of :: "dimension \<Rightarrow> rat \<Rightarrow> pool \<Rightarrow> verdict \<Rightarrow> string \<Rightarrow> reason" where
  "reason_of dm n p v place =
     (let l = d_Label dm in
      if p_NominalKnown p then
        (case v of
           Fits \<Rightarrow> FitsAtLowEnd l place n (p_KnownFree p) (p_Class p) (p_Lo p)
         | DoesNotFit \<Rightarrow> NotAtHighEnd l place n (p_KnownFree p) (p_Class p) (p_Hi p)
         | CantTell \<Rightarrow> StraddlesNeed l place (p_Class p) n (p_KnownFree p) (p_Lo p) (p_Hi p) (thresholdFits p n))
      else
        (case v of
           DoesNotFit \<Rightarrow> NotEvenAll l place n (p_Hi p) (p_Notes p)
         | Fits \<Rightarrow> FitsOnKnown l place n (p_Lo p) (p_Notes p)
         | CantTell \<Rightarrow> FreeNotKnown l place (p_Notes p) n))"

definition Fit :: "dimension \<Rightarrow> need \<Rightarrow> pool \<Rightarrow> string \<Rightarrow> dim_result" where
  "Fit dm need pool place =
     (let r = \<lparr>r_Dimension = dm, r_Verdict = CantTell, r_Need = need, r_Pool = pool,
               r_Class = Worse (p_Class pool) (orUnknown need), r_Reason = None, r_Margin = None,
               r_WouldChange = [], r_Fix = None\<rparr>
      in case nd_Value need of
           None \<Rightarrow> r\<lparr>r_Reason := Some (NoRequest (d_Label dm)), r_Class := Unknown\<rparr>
         | Some n \<Rightarrow>
             if n \<le> 0 then r\<lparr>r_Verdict := Fits, r_Reason := Some (AsksForNone (d_Label dm)), r_Class := Reported\<rparr>
             else
               let r = (if up_less (p_Hi pool) n
                          then r\<lparr>r_Verdict := DoesNotFit, r_Class := Worse (p_HiClass pool) (orUnknown need)\<rparr>
                        else if p_Lo pool \<ge> n
                          then r\<lparr>r_Verdict := Fits, r_Class := Worse (p_LoClass pool) (orUnknown need)\<rparr>
                        else r\<lparr>r_Verdict := CantTell\<rparr>);
                   r = (if p_KnownNodes pool > 0 \<and> p_KnownFree pool > 0
                        then r\<lparr>r_Margin := Some (1 - n / p_KnownFree pool)\<rparr> else r);
                   r = r\<lparr>r_WouldChange := wouldChange dm n pool (r_Verdict r)\<rparr>
               in r\<lparr>r_Reason := Some (reason_of dm n pool (r_Verdict r) place)\<rparr>)"

definition Apply_change :: "dim_result \<Rightarrow> change \<Rightarrow> rat \<Rightarrow> verdict" where
  "Apply_change r c delta = r_Verdict (Fit (r_Dimension r) (r_Need r) (Scaled (r_Pool r) (ch_Threshold c + delta)) [])"

datatype sensitivity = NoText | StillFits string rat | WouldNeed rat string
  | FitsOnlyIf string rat rat | NeedsMore rat string rat

definition SensitivityText :: "dim_result \<Rightarrow> sensitivity" where
  "SensitivityText r =
     (case r_Margin r of
        None \<Rightarrow> NoText
      | Some m \<Rightarrow>
          (let l = d_Label (r_Dimension r); f = factor0 (p_Class (r_Pool r)) in
           case r_Verdict r of
             Fits \<Rightarrow> StillFits l (min m 1)
           | DoesNotFit \<Rightarrow> WouldNeed (- m) l
           | CantTell \<Rightarrow> if m > 0 then FitsOnlyIf l m f else NeedsMore (- m) l f))"

subsection \<open>Checks and the combined advice\<close>

record check =
  ck_Name :: string
  ck_Verdict :: verdict
  ck_Class :: conf_class
  ck_Reason :: string
  ck_Fix :: "fix_hint option"

record advice =
  a_Verdict :: verdict
  a_Class :: conf_class
  a_Confidence :: level
  a_Dims :: "dim_result list"
  a_Checks :: "check list"
  a_Reasons :: "reason option list"
  a_Fixes :: "fix_hint list"
  a_Changes :: "change list"

definition decides :: "verdict \<Rightarrow> verdict \<Rightarrow> bool" where
  "decides overall part = (overall = part)"

fun sev :: "verdict \<Rightarrow> int" where
  "sev DoesNotFit = 2"
| "sev CantTell = 1"
| "sev Fits = 0"

definition appendFix :: "fix_hint list \<Rightarrow> fix_hint \<Rightarrow> fix_hint list" where
  "appendFix fs f = (if \<exists>x \<in> set fs. fx_Action x = fx_Action f \<and> fx_Text x = fx_Text f then fs else fs @ [f])"

definition take_class :: "conf_class \<times> bool \<Rightarrow> conf_class \<Rightarrow> conf_class \<times> bool" where
  "take_class s c = (Worse (fst s) c, True)"

definition addFix :: "fix_hint list \<Rightarrow> verdict \<Rightarrow> fix_hint option \<Rightarrow> fix_hint list" where
  "addFix fs v f = (if v \<noteq> Fits then (case f of None \<Rightarrow> fs | Some x \<Rightarrow> appendFix fs x) else fs)"

definition Assess :: "dim_result list \<Rightarrow> check list \<Rightarrow> advice" where
  "Assess dims checks =
     (let v = Combine (map r_Verdict dims @ map ck_Verdict checks);
          s = foldl take_class (Reported, False) (map r_Class (filter (\<lambda>d. decides v (r_Verdict d)) dims));
          s = foldl take_class s (map ck_Class (filter (\<lambda>c. decides v (ck_Verdict c)) checks));
          cls = (if snd s then fst s else Reported);
          conf = LevelOf cls;
          conf = (if v = CantTell then WeakerLevel conf Low else conf);
          lines = map (\<lambda>d. (r_Verdict d, r_Reason d)) (filter (\<lambda>d. r_Verdict d \<noteq> Fits) dims)
                @ map (\<lambda>c. (ck_Verdict c, Some (CheckReason (ck_Reason c)))) (filter (\<lambda>c. ck_Verdict c \<noteq> Fits) checks);
          fixes1 = foldl (\<lambda>fs d. addFix fs (r_Verdict d) (r_Fix d)) [] dims;
          fixes2 = foldl (\<lambda>fs c. addFix fs (ck_Verdict c) (ck_Fix c)) fixes1 checks;
          changes = concat (map r_WouldChange (filter (\<lambda>d. decides v (r_Verdict d)) dims))
      in \<lparr>a_Verdict = v, a_Class = cls, a_Confidence = conf, a_Dims = dims, a_Checks = checks,
          a_Reasons = map snd (sort_key (\<lambda>l. - sev (fst l)) lines), a_Fixes = fixes2, a_Changes = changes\<rparr>)"

subsection \<open>Laws of classes and verdicts\<close>

lemma Rank_norm [simp]: "Rank (norm_class c) = Rank c"
  by (cases c) (auto simp: norm_class_def)

lemma Rank_Worse: "Rank (Worse a b) = min (Rank a) (Rank b)"
  by (auto simp: Worse_def)

lemma norm_class_norm [simp]: "norm_class (norm_class c) = norm_class c"
  by (auto simp: norm_class_def)

lemma Rank_le_4: "Rank c \<le> 4"
  by (cases c) auto

lemma norm_class_eq_iff: "norm_class a = norm_class b \<longleftrightarrow> Rank a = Rank b"
  by (cases a; cases b) (auto simp: norm_class_def)

lemma factor0_ge0 [simp]: "0 \<le> factor0 c"
  by (cases c) (auto simp: factor0_def Factor_def)

lemma factor0_le_half: "factor0 c \<le> 1/2"
  by (cases c) (auto simp: factor0_def Factor_def)

lemma factor0_lt1 [simp]: "factor0 c < 1"
  using factor0_le_half [of c] by simp

lemma factor0_antimono: "Rank a \<le> Rank b \<Longrightarrow> 0 < Rank a \<Longrightarrow> factor0 b \<le> factor0 a"
  by (cases a; cases b) (auto simp: factor0_def Factor_def)

lemma factor0_rank0: "Rank c = 0 \<Longrightarrow> factor0 c = 0"
  by (cases c) (auto simp: factor0_def Factor_def)

lemma factor0_pos_iff: "0 < factor0 c \<longleftrightarrow> 0 < Rank c"
  by (cases c) (auto simp: factor0_def Factor_def)

lemma Rank_Demote: "Rank (Demote c) \<le> Rank c"
  by (cases c) auto

lemma Rank_Demote_pos: "0 < Rank (Demote c) \<longleftrightarrow> 0 < Rank c"
  by (cases c) auto

lemma Combine_loop_eq:
  "Combine_loop out vs = (if DoesNotFit \<in> set vs then DoesNotFit else if CantTell \<in> set vs then CantTell else out)"
  by (induction out vs rule: Combine_loop.induct) auto

lemma Combine_eq:
  "Combine vs = (if DoesNotFit \<in> set vs then DoesNotFit else if CantTell \<in> set vs then CantTell else Fits)"
  by (simp add: Combine_def Combine_loop_eq)

subsection \<open>What a pool says about the nodes\<close>

text \<open>
  The abstract contract of a pool: the free amounts a group of nodes may really have, given what is known of
  each. A node whose figures are known has an amount within its class's relative error of the derived one; a
  node whose requests are unknown has between nothing and all it could offer; a node that reports no
  allocatable amount may have anything.
\<close>

definition node_known :: "node \<Rightarrow> bool" where
  "node_known n = (Known (n_Allocatable n) \<and> Known (n_Requested n))"

definition node_free :: "node \<Rightarrow> rat" where
  "node_free n = max 0 (fact_num (n_Allocatable n) - fact_num (n_Requested n))"

definition node_factor :: "time \<Rightarrow> duration \<Rightarrow> node \<Rightarrow> rat" where
  "node_factor now window n =
     factor0 (Worse (fst (Effective (n_Allocatable n) now window)) (fst (Effective (n_Requested n) now window)))"

definition alloc_factor :: "time \<Rightarrow> duration \<Rightarrow> node \<Rightarrow> rat" where
  "alloc_factor now window n = factor0 (fst (Effective (n_Allocatable n) now window))"

definition possible_free :: "time \<Rightarrow> duration \<Rightarrow> node \<Rightarrow> rat \<Rightarrow> bool" where
  "possible_free now window n a \<longleftrightarrow> 0 \<le> a \<and>
     (if node_known n then node_free n * (1 - node_factor now window n) \<le> a
                         \<and> a \<le> node_free n * (1 + node_factor now window n)
      else if Known (n_Allocatable n) then a \<le> fact_num (n_Allocatable n) * (1 + alloc_factor now window n)
      else True)"

definition node_sane :: "node \<Rightarrow> bool" where
  "node_sane n = (0 \<le> fact_num (n_Allocatable n))"

definition node_lo :: "time \<Rightarrow> duration \<Rightarrow> node \<Rightarrow> rat" where
  "node_lo now window n = (if node_known n then node_free n * (1 - node_factor now window n) else 0)"

definition node_hi :: "time \<Rightarrow> duration \<Rightarrow> node \<Rightarrow> rat" where
  "node_hi now window n =
     (if node_known n then node_free n * (1 + node_factor now window n)
      else fact_num (n_Allocatable n) * (1 + alloc_factor now window n))"

definition known_part :: "(node \<Rightarrow> rat) \<Rightarrow> node \<Rightarrow> rat" where
  "known_part f n = (if node_known n then f n else 0)"

definition up_node :: "time \<Rightarrow> duration \<Rightarrow> upper \<Rightarrow> node \<Rightarrow> upper" where
  "up_node now window u n = (if Known (n_Allocatable n) then up_add u (node_hi now window n) else PInf)"

lemma known_num: "Known f \<Longrightarrow> \<exists>v. f_Value f = Some (Num v) \<and> fact_num f = v"
  by (auto simp: Known_def fact_num_def split: option.splits fval.splits)

lemma Effective_rank_pos: "Known f \<Longrightarrow> 0 < Rank (fst (Effective f now window))"
  by (auto simp: Effective_def Known_def Rank_Demote_pos split: option.splits fval.splits)

lemma node_factor_range [simp]: "0 \<le> node_factor now window n" "node_factor now window n < 1"
  by (simp_all add: node_factor_def)

lemma node_free_ge0 [simp]: "0 \<le> node_free n"
  by (simp add: node_free_def)

lemmas pool_step_simps = pool_step_def Let_def node_lo_def node_hi_def node_known_def node_free_def
  node_factor_def alloc_factor_def known_part_def up_node_def

lemma pool_step_fields:
  "p_Lo (pool_step now window p n) = p_Lo p + node_lo now window n"
  "p_Hi (pool_step now window p n) = up_node now window (p_Hi p) n"
  "p_hiKnown (pool_step now window p n) = p_hiKnown p + known_part (node_hi now window) n"
  "p_KnownFree (pool_step now window p n) = p_KnownFree p + known_part node_free n"
  "p_KnownNodes (pool_step now window p n) = p_KnownNodes p + (if node_known n then 1 else 0)"
  by (simp_all add: pool_step_simps split: prod.splits)

lemma foldl_pool_fields:
  "p_Lo (foldl (pool_step now window) p ns) = p_Lo p + sum_list (map (node_lo now window) ns)"
  "p_Hi (foldl (pool_step now window) p ns) = foldl (up_node now window) (p_Hi p) ns"
  "p_hiKnown (foldl (pool_step now window) p ns) = p_hiKnown p + sum_list (map (known_part (node_hi now window)) ns)"
  "p_KnownFree (foldl (pool_step now window) p ns) = p_KnownFree p + sum_list (map (known_part node_free) ns)"
  "p_KnownNodes (foldl (pool_step now window) p ns) = p_KnownNodes p + length (filter node_known ns)"
  by (induction ns arbitrary: p) (simp_all add: pool_step_fields)

lemma NewPool_fields:
  assumes "ns \<noteq> []"
  shows "p_Lo (NewPool ns now window) = sum_list (map (node_lo now window) ns)"
    and "p_Hi (NewPool ns now window) = foldl (up_node now window) (Fin 0) ns"
    and "p_hiKnown (NewPool ns now window) = sum_list (map (known_part (node_hi now window)) ns)"
    and "p_KnownFree (NewPool ns now window) = sum_list (map (known_part node_free) ns)"
    and "p_KnownNodes (NewPool ns now window) = length (filter node_known ns)"
  using assms by (simp_all add: NewPool_def Let_def foldl_pool_fields start_pool_def)

lemma foldl_up_PInf: "foldl (up_node now window) PInf ns = PInf"
  by (induction ns) (simp_all add: up_node_def)

lemma foldl_up_node:
  "foldl (up_node now window) (Fin x) ns =
     (if \<forall>n \<in> set ns. Known (n_Allocatable n) then Fin (x + sum_list (map (node_hi now window) ns)) else PInf)"
  by (induction ns arbitrary: x) (auto simp: up_node_def foldl_up_PInf)

lemma NewPool_Hi:
  "ns \<noteq> [] \<Longrightarrow> p_Hi (NewPool ns now window) =
     (if \<forall>n \<in> set ns. Known (n_Allocatable n) then Fin (sum_list (map (node_hi now window) ns)) else PInf)"
  by (simp add: NewPool_fields foldl_up_node)

lemma node_lo_ge0: "0 \<le> node_lo now window n"
  by (auto simp: node_lo_def less_imp_le intro!: mult_nonneg_nonneg)

lemma node_lo_possible:
  assumes "node_sane n" shows "possible_free now window n (node_lo now window n)"
  using assms node_lo_ge0 [of now window n]
  by (auto simp: possible_free_def node_lo_def node_sane_def alloc_factor_def mult_left_mono algebra_simps
      intro: add_increasing2)

lemma node_hi_possible:
  assumes "node_sane n" "Known (n_Allocatable n)"
  shows "possible_free now window n (node_hi now window n)"
proof -
  have "node_free n * (1 - node_factor now window n) \<le> node_free n * (1 + node_factor now window n)"
    by (intro mult_left_mono) simp_all
  then show ?thesis
    using assms by (auto simp: possible_free_def node_hi_def node_sane_def alloc_factor_def)
qed

lemma possible_bounds:
  "possible_free now window n a \<Longrightarrow> node_lo now window n \<le> a"
  "possible_free now window n a \<Longrightarrow> Known (n_Allocatable n) \<Longrightarrow> a \<le> node_hi now window n"
  by (auto simp: possible_free_def node_lo_def node_hi_def split: if_splits)

definition possible :: "time \<Rightarrow> duration \<Rightarrow> node list \<Rightarrow> rat list \<Rightarrow> bool" where
  "possible now window ns as = list_all2 (possible_free now window) ns as"

lemma possible_sum_ge: "possible now window ns as \<Longrightarrow> sum_list (map (node_lo now window) ns) \<le> sum_list as"
  unfolding possible_def by (induction rule: list_all2_induct) (auto intro: add_mono possible_bounds)

lemma possible_sum_le:
  "possible now window ns as \<Longrightarrow> \<forall>n \<in> set ns. Known (n_Allocatable n) \<Longrightarrow>
     sum_list as \<le> sum_list (map (node_hi now window) ns)"
  unfolding possible_def by (induction rule: list_all2_induct) (auto intro: add_mono possible_bounds)

lemma possible_lo: "\<forall>n \<in> set ns. node_sane n \<Longrightarrow> possible now window ns (map (node_lo now window) ns)"
  by (simp add: possible_def list_all2_conv_all_nth node_lo_possible)

lemma possible_hi:
  "\<forall>n \<in> set ns. node_sane n \<and> Known (n_Allocatable n) \<Longrightarrow> possible now window ns (map (node_hi now window) ns)"
  by (simp add: possible_def list_all2_conv_all_nth node_hi_possible)

lemma possible_unbounded:
  assumes "\<forall>n \<in> set ns. node_sane n" "n \<in> set ns" "\<not> Known (n_Allocatable n)"
  shows "\<exists>as. possible now window ns as \<and> x \<le> sum_list as"
  using assms
proof (induction ns)
  case Nil
  then show ?case by simp
next
  case (Cons m ns)
  show ?case
  proof (cases "m = n")
    case True
    let ?as = "max 0 x # map (node_lo now window) ns"
    have "possible now window (m # ns) ?as"
      using Cons.prems True possible_lo [of ns now window]
      by (auto simp: possible_def possible_free_def node_known_def)
    moreover have "0 \<le> sum_list (map (node_lo now window) ns)"
      by (intro sum_list_nonneg) (auto simp: node_lo_ge0)
    ultimately show ?thesis by (intro exI [of _ ?as]) auto
  next
    case False
    with Cons obtain as where as: "possible now window ns as" "x \<le> sum_list as" by auto
    then have "possible now window (m # ns) (node_lo now window m # as)"
      using Cons.prems by (simp add: possible_def node_lo_possible)
    moreover have "x \<le> sum_list (node_lo now window m # as)"
      using as node_lo_ge0 [of now window m] by simp
    ultimately show ?thesis by blast
  qed
qed

subsection \<open>The decision of one dimension\<close>

lemma Fit_verdict:
  assumes "nd_Value need = Some n" "0 < n"
  shows "r_Verdict (Fit dm need p place) =
     (if up_less (p_Hi p) n then DoesNotFit else if n \<le> p_Lo p then Fits else CantTell)"
  using assms by (simp add: Fit_def Let_def)

lemma possible_reaches:
  assumes "ns \<noteq> []" "\<forall>m \<in> set ns. node_sane m" "\<not> up_less (p_Hi (NewPool ns now window)) n"
  shows "\<exists>as. possible now window ns as \<and> n \<le> sum_list as"
proof (cases "\<forall>m \<in> set ns. Known (n_Allocatable m)")
  case True
  then have "possible now window ns (map (node_hi now window) ns)"
    using assms(2) possible_hi by auto
  then show ?thesis using assms(1,3) True by (auto simp: NewPool_Hi not_less)
next
  case False
  then show ?thesis using assms(2) possible_unbounded by blast
qed

lemma fits_iff:
  assumes "ns \<noteq> []" "\<forall>m \<in> set ns. node_sane m" "nd_Value need = Some n" "0 < n"
  shows "r_Verdict (Fit dm need (NewPool ns now window) place) = Fits \<longleftrightarrow>
           (\<forall>as. possible now window ns as \<longrightarrow> n \<le> sum_list as)"
proof -
  let ?lo = "sum_list (map (node_lo now window) ns)"
  have lo: "possible now window ns (map (node_lo now window) ns)"
    using assms(2) by (rule possible_lo)
  have *: "(\<forall>as. possible now window ns as \<longrightarrow> n \<le> sum_list as) \<longleftrightarrow> n \<le> ?lo"
    using lo possible_sum_ge by (blast intro: order_trans)
  have "\<not> up_less (p_Hi (NewPool ns now window)) n" if "n \<le> ?lo"
    using that assms(1) lo possible_sum_le [OF lo] by (auto simp: NewPool_Hi)
  then show ?thesis
    using assms by (auto simp: Fit_verdict NewPool_fields(1) *)
qed

lemma does_not_fit_iff:
  assumes "ns \<noteq> []" "\<forall>m \<in> set ns. node_sane m" "nd_Value need = Some n" "0 < n"
  shows "r_Verdict (Fit dm need (NewPool ns now window) place) = DoesNotFit \<longleftrightarrow>
           (\<forall>as. possible now window ns as \<longrightarrow> sum_list as < n)"
proof -
  have "up_less (p_Hi (NewPool ns now window)) n \<longleftrightarrow> (\<forall>as. possible now window ns as \<longrightarrow> sum_list as < n)"
  proof
    assume "up_less (p_Hi (NewPool ns now window)) n"
    then show "\<forall>as. possible now window ns as \<longrightarrow> sum_list as < n"
      using assms(1) possible_sum_le by (fastforce simp: NewPool_Hi split: if_splits)
  next
    assume "\<forall>as. possible now window ns as \<longrightarrow> sum_list as < n"
    then show "up_less (p_Hi (NewPool ns now window)) n"
      using possible_reaches [OF assms(1,2)] by (meson not_less)
  qed
  then show ?thesis using assms by (auto simp: Fit_verdict)
qed

lemma Effective_later:
  "now \<le> now' \<Longrightarrow> Rank (fst (Effective f now' window)) \<le> Rank (fst (Effective f now window))"
  by (auto simp: Effective_def Rank_Demote split: option.splits)

lemma possible_later:
  assumes "now \<le> now'" "\<forall>n \<in> set ns. node_sane n" "possible now window ns as"
  shows "possible now' window ns as"
proof -
  have step: "possible_free now' window n a" if "node_sane n" "possible_free now window n a" for n a
  proof -
    have af: "alloc_factor now window n \<le> alloc_factor now' window n" if "Known (n_Allocatable n)"
      unfolding alloc_factor_def
      by (intro factor0_antimono Effective_later assms(1) Effective_rank_pos that)
    have nf: "node_factor now window n \<le> node_factor now' window n" if "node_known n"
      unfolding node_factor_def
      using that Effective_later [OF assms(1)]
      by (intro factor0_antimono) (auto simp: Rank_Worse node_known_def Effective_rank_pos min.coboundedI1 min.coboundedI2)
    have a1: "node_free n * (1 - node_factor now' window n) \<le> node_free n * (1 - node_factor now window n)"
      "node_free n * (1 + node_factor now window n) \<le> node_free n * (1 + node_factor now' window n)"
      if "node_known n"
      using nf [OF that] by (intro mult_left_mono; simp)+
    have a2: "fact_num (n_Allocatable n) * (1 + alloc_factor now window n)
                \<le> fact_num (n_Allocatable n) * (1 + alloc_factor now' window n)" if "Known (n_Allocatable n)"
      using af [OF that] \<open>node_sane n\<close> by (intro mult_left_mono) (simp_all add: node_sane_def)
    show ?thesis
      using that(2) a1 a2 by (fastforce simp: possible_free_def split: if_splits)
  qed
  from assms(3,2) show ?thesis
    unfolding possible_def by (induction rule: list_all2_induct) (auto intro: step)
qed

text \<open>
  C15. the three-valued answer is exact. For a group of nodes with sane figures and a positive need, \<open>Fits\<close>
  is answered precisely when every free amount the facts allow covers the need, and \<open>DoesNotFit\<close> precisely when
  none does; everything else is \<open>CantTell\<close>.
\<close>

theorem fit_decides:
  assumes "ns \<noteq> []" "\<forall>m \<in> set ns. node_sane m" "nd_Value need = Some n" "0 < n"
  shows "r_Verdict (Fit dm need (NewPool ns now window) place) =
           (if \<forall>as. possible now window ns as \<longrightarrow> n \<le> sum_list as then Fits
            else if \<forall>as. possible now window ns as \<longrightarrow> sum_list as < n then DoesNotFit
            else CantTell)"
  unfolding fits_iff [OF assms, of dm now window place, symmetric]
    does_not_fit_iff [OF assms, of dm now window place, symmetric]
  by (cases "r_Verdict (Fit dm need (NewPool ns now window) place)") simp_all

definition example_fact :: "rat \<Rightarrow> conf_class \<Rightarrow> fact" where
  "example_fact v c = \<lparr>f_Attribute = ''cpuAllocatable'', f_Entity = ''n1'', f_EntityName = ''n1'', f_Unit = ''cores'',
     f_Value = Some (Num v), f_Class = c, f_Source = ''agent'', f_ObservedAt = Some 0, f_State = ''live'', f_Evidence = []\<rparr>"

definition example_node :: node where
  "example_node = \<lparr>n_ID = ''n1'', n_Name = ''n1'', n_Allocatable = example_fact 8 Measured,
     n_Requested = example_fact 4 Measured, n_AllocatableAttr = ''cpuAllocatable'',
     n_RequestedAttr = ''cpuRequested'', n_RequestedMissing = []\<rparr>"

definition example_need :: need where
  "example_need = \<lparr>nd_Value = Some 3, nd_Class = Reported\<rparr>"

lemma example_sane [simp]: "node_sane example_node"
  by (simp add: node_sane_def example_node_def example_fact_def fact_num_def)

theorem fit_decides_witness:
  "r_Verdict (Fit CPU example_need (NewPool [example_node] 0 10) ''edge'') =
     (if \<forall>as. possible 0 10 [example_node] as \<longrightarrow> 3 \<le> sum_list as then Fits
      else if \<forall>as. possible 0 10 [example_node] as \<longrightarrow> sum_list as < 3 then DoesNotFit else CantTell)"
  by (rule fit_decides) (simp_all add: example_need_def)

text \<open>
  ageing never invents an answer. Judged later on the same facts, a verdict is what it was or \<open>CantTell\<close>.
\<close>

theorem fit_ages_to_cant_tell:
  assumes "ns \<noteq> []" "\<forall>m \<in> set ns. node_sane m" "now \<le> now'"
  shows "r_Verdict (Fit dm need (NewPool ns now' window) place) = r_Verdict (Fit dm need (NewPool ns now window) place)
         \<or> r_Verdict (Fit dm need (NewPool ns now' window) place) = CantTell"
proof (cases "\<exists>n > 0. nd_Value need = Some n")
  case True
  then obtain n where n: "nd_Value need = Some n" "0 < n" by blast
  note iffs = fits_iff [OF assms(1,2) n] does_not_fit_iff [OF assms(1,2) n]
  have mono: "possible now window ns as \<Longrightarrow> possible now' window ns as" for as
    using possible_later assms(2,3) by blast
  show ?thesis
  proof (cases "r_Verdict (Fit dm need (NewPool ns now' window) place)")
    case Fits
    then have "r_Verdict (Fit dm need (NewPool ns now window) place) = Fits" using iffs(1) mono by blast
    with Fits show ?thesis by simp
  next
    case DoesNotFit
    then have "r_Verdict (Fit dm need (NewPool ns now window) place) = DoesNotFit" using iffs(2) mono by blast
    with DoesNotFit show ?thesis by simp
  qed simp
next
  case False
  then show ?thesis by (cases "nd_Value need") (auto simp: Fit_def Let_def not_less)
qed

theorem fit_ages_to_cant_tell_witness:
  "r_Verdict (Fit CPU example_need (NewPool [example_node] 100 10) []) = r_Verdict (Fit CPU example_need (NewPool [example_node] 0 10) [])
   \<or> r_Verdict (Fit CPU example_need (NewPool [example_node] 100 10) []) = CantTell"
  by (rule fit_ages_to_cant_tell) simp_all

subsection \<open>What would change the answer\<close>

fun up_ge :: "upper \<Rightarrow> rat \<Rightarrow> bool" where
  "up_ge (Fin a) n = (n \<le> a)"
| "up_ge PInf n = True"

text \<open>The invariant of a pool as \<open>NewPool\<close> makes it.\<close>

definition pool_wf :: "pool \<Rightarrow> bool" where
  "pool_wf p \<longleftrightarrow> 0 \<le> p_Lo p \<and> 0 \<le> p_KnownFree p \<and> p_Lo p \<le> p_hiKnown p \<and> up_ge (p_Hi p) (p_hiKnown p)
     \<and> (p_KnownFree p > 0 \<longrightarrow> 0 < p_Lo p) \<and> (p_KnownNodes p = 0 \<longleftrightarrow> Rank (p_LoClass p) = 0)"

lemma pool_step_LoClass:
  "p_LoClass (pool_step now window p n) =
     (if node_known n then Worse (p_LoClass p)
        (Worse (fst (Effective (n_Allocatable n) now window)) (fst (Effective (n_Requested n) now window)))
      else p_LoClass p)"
  by (simp add: pool_step_def Let_def node_known_def split: prod.splits)

lemma foldl_LoClass_rank:
  "0 < Rank (p_LoClass p) \<Longrightarrow> 0 < Rank (p_LoClass (foldl (pool_step now window) p ns))"
  by (induction ns arbitrary: p) (auto simp: pool_step_LoClass Rank_Worse node_known_def Effective_rank_pos)

lemma NewPool_LoClass_rank:
  "ns \<noteq> [] \<Longrightarrow> p_KnownNodes (NewPool ns now window) = 0 \<longleftrightarrow> Rank (p_LoClass (NewPool ns now window)) = 0"
  using foldl_LoClass_rank [of "start_pool (length ns)" now window ns]
  by (auto simp: NewPool_def Let_def start_pool_def)

lemma node_lo_half: "known_part node_free n / 2 \<le> node_lo now window n"
proof (cases "node_known n")
  case True
  have "node_factor now window n \<le> 1/2" unfolding node_factor_def by (rule factor0_le_half)
  then have "node_free n * (1/2) \<le> node_free n * (1 - node_factor now window n)"
    by (intro mult_left_mono) simp_all
  then show ?thesis using True by (simp add: known_part_def node_lo_def)
qed (simp add: known_part_def node_lo_def)

lemma sum_list_half: "sum_list (map f ns) / 2 = sum_list (map (\<lambda>n. f n / 2) ns)" for f :: "'a \<Rightarrow> rat"
  by (induction ns) (simp_all add: add_divide_distrib)

lemma NewPool_wf [preserve_intros]:
  assumes "ns \<noteq> []" "\<forall>m \<in> set ns. node_sane m"
  shows "pool_wf (NewPool ns now window)"
proof -
  note f = NewPool_fields [OF assms(1), of now window]
  let ?p = "NewPool ns now window"
  have lo0: "0 \<le> p_Lo ?p" unfolding f by (intro sum_list_nonneg) (auto simp: node_lo_ge0)
  have kf0: "0 \<le> p_KnownFree ?p" unfolding f by (intro sum_list_nonneg) (auto simp: known_part_def)
  have "p_KnownFree ?p / 2 \<le> p_Lo ?p"
    unfolding f sum_list_half by (intro sum_list_mono node_lo_half)
  moreover have "p_Lo ?p \<le> p_hiKnown ?p"
    unfolding f by (intro sum_list_mono) (auto simp: node_lo_def known_part_def node_hi_def intro!: mult_left_mono)
  moreover have "known_part (node_hi now window) m \<le> node_hi now window m" if "m \<in> set ns" for m
    using that assms(2) by (auto simp: known_part_def node_hi_def node_sane_def alloc_factor_def)
  then have "up_ge (p_Hi ?p) (p_hiKnown ?p)"
    unfolding NewPool_Hi [OF assms(1)] f by (auto intro: sum_list_mono)
  ultimately show ?thesis
    using lo0 kf0 NewPool_LoClass_rank [OF assms(1)] by (auto simp: pool_wf_def)
qed

lemma up_extra:
  "up_ge h b \<Longrightarrow> 0 \<le> c \<Longrightarrow> n \<le> c \<Longrightarrow> \<not> up_less (up_add (up_add h (- b)) c) n"
  by (cases h) auto

lemma Scaled_known:
  "p_KnownNodes p > 0 \<Longrightarrow> p_KnownFree p > 0 \<Longrightarrow> p_Lo (Scaled p t) = p_Lo p * (t / p_KnownFree p)"
  "p_KnownNodes p > 0 \<Longrightarrow> p_KnownFree p > 0 \<Longrightarrow>
     p_Hi (Scaled p t) = up_add (up_add (p_Hi p) (- p_hiKnown p)) (p_hiKnown p * (t / p_KnownFree p))"
  by (simp_all add: Scaled_def Let_def)

lemma Scaled_other:
  assumes "\<not> (p_KnownNodes p > 0 \<and> p_KnownFree p > 0)"
  shows "p_Lo (Scaled p t) = t * (1 - factor0 (if Rank (p_LoClass p) = 0 then Reported else p_LoClass p))"
    and "p_Hi (Scaled p t) = up_add (if p_KnownNodes p = 0 then Fin 0 else up_add (p_Hi p) (- p_hiKnown p))
           (t * (1 + factor0 (if Rank (p_LoClass p) = 0 then Reported else p_LoClass p)))"
  using assms by (auto simp: Scaled_def Let_def)

lemma factor0_default:
  "(if factor0 c = 0 then factor0 Reported else factor0 c) = factor0 (if Rank c = 0 then Reported else c)"
  using factor0_pos_iff [of c] factor0_rank0 [of c] by auto

lemma scaled_fits_iff:
  assumes "pool_wf p" "nd_Value need = Some n" "0 < n" "0 \<le> t"
  shows "r_Verdict (Fit dm need (Scaled p t) place) = Fits \<longleftrightarrow> thresholdFits p n \<le> t"
proof (cases "p_KnownNodes p > 0 \<and> p_KnownFree p > 0")
  case True
  then have lo: "0 < p_Lo p" and le: "p_Lo p \<le> p_hiKnown p" and ge: "up_ge (p_Hi p) (p_hiKnown p)"
    using assms(1) by (auto simp: pool_wf_def)
  let ?s = "t / p_KnownFree p"
  have s0: "0 \<le> ?s" using True assms(4) by simp
  have ok: "\<not> up_less (p_Hi (Scaled p t)) n" if "n \<le> p_Lo p * ?s"
  proof -
    have "n \<le> p_hiKnown p * ?s" using that mult_right_mono [OF le s0] by (rule order_trans)
    moreover have "0 \<le> p_hiKnown p * ?s" using s0 lo le by (intro mult_nonneg_nonneg) simp_all
    ultimately show ?thesis
      using True up_extra [OF ge, of "p_hiKnown p * ?s" n] by (simp add: Scaled_known del: times_divide_eq_right)
  qed
  have "n \<le> p_Lo p * ?s \<longleftrightarrow> p_KnownFree p * n / p_Lo p \<le> t"
    using lo True by (simp add: field_simps)
  then show ?thesis
    using ok assms(2,3) True lo by (auto simp: Fit_verdict Scaled_known thresholdFits_def)
next
  case False
  let ?f = "factor0 (if Rank (p_LoClass p) = 0 then Reported else p_LoClass p)"
  have t1: "t * (1 - ?f) \<le> t * (1 + ?f)" using assms(4) by (intro mult_left_mono) simp_all
  have ok: "\<not> up_less (p_Hi (Scaled p t)) n" if "n \<le> t * (1 - ?f)"
  proof -
    have n: "n \<le> t * (1 + ?f)" using that t1 by (rule order_trans)
    have c: "0 \<le> t * (1 + ?f)" using assms(4) by (intro mult_nonneg_nonneg add_nonneg_nonneg) simp_all
    have "up_ge (p_Hi p) (p_hiKnown p)" using assms(1) by (simp add: pool_wf_def)
    then show ?thesis
      unfolding Scaled_other [OF False] using n c up_extra by auto
  qed
  have f1: "0 < 1 - ?f" by simp
  have "n \<le> t * (1 - ?f) \<longleftrightarrow> n / (1 - ?f) \<le> t"
    using f1 by (simp add: pos_divide_le_eq)
  moreover have "thresholdFits p n = n / (1 - ?f)"
    unfolding thresholdFits_def Let_def factor0_default using False by auto
  ultimately show ?thesis
    using ok assms(2,3) False by (auto simp: Fit_verdict Scaled_other)
qed

lemma scaled_does_not_iff:
  assumes "pool_wf p" "nd_Value need = Some n" "0 < n" "0 \<le> t" "thresholdDoesNot p n = Some d"
  shows "r_Verdict (Fit dm need (Scaled p t) place) = DoesNotFit \<longleftrightarrow> t < d"
proof -
  from assms(5) obtain h where h: "p_Hi p = Fin h" and kn: "p_KnownNodes p > 0" "p_KnownFree p > 0" "p_hiKnown p > 0"
    and d: "d = p_KnownFree p * (n - (h - p_hiKnown p)) / p_hiKnown p"
    by (cases "p_Hi p") (auto simp: thresholdDoesNot_def split: if_splits)
  have "h - p_hiKnown p + p_hiKnown p * (t / p_KnownFree p) < n \<longleftrightarrow> t < d"
    using kn by (simp add: d field_simps)
  then show ?thesis using assms(2,3) h kn by (simp add: Fit_verdict Scaled_known)
qed

text \<open>
  the thresholds a result suggests are exact. With the free capacity of the known nodes scaled to total \<open>t\<close>,
  the dimension fits exactly from \<open>thresholdFits\<close> on, and, where \<open>thresholdDoesNot\<close> gives an amount, it
  does not fit exactly below it.
\<close>

theorem thresholds_exact:
  assumes "ns \<noteq> []" "\<forall>m \<in> set ns. node_sane m" "nd_Value need = Some n" "0 < n" "0 \<le> t"
  shows "(r_Verdict (Fit dm need (Scaled (NewPool ns now window) t) place) = Fits
            \<longleftrightarrow> thresholdFits (NewPool ns now window) n \<le> t)
       \<and> (case thresholdDoesNot (NewPool ns now window) n of None \<Rightarrow> True
          | Some d \<Rightarrow> r_Verdict (Fit dm need (Scaled (NewPool ns now window) t) place) = DoesNotFit \<longleftrightarrow> t < d)"
  using assms NewPool_wf [OF assms(1,2)]
  by (auto simp: scaled_fits_iff scaled_does_not_iff split: option.splits)

theorem thresholds_exact_witness:
  "(r_Verdict (Fit CPU example_need (Scaled (NewPool [example_node] 0 10) 2) []) = Fits
      \<longleftrightarrow> thresholdFits (NewPool [example_node] 0 10) 3 \<le> 2)
   \<and> (case thresholdDoesNot (NewPool [example_node] 0 10) 3 of None \<Rightarrow> True
      | Some d \<Rightarrow> r_Verdict (Fit CPU example_need (Scaled (NewPool [example_node] 0 10) 2) []) = DoesNotFit \<longleftrightarrow> 2 < d)"
  by (rule thresholds_exact) (simp_all add: example_need_def)

subsection \<open>The combined advice\<close>

definition deciding :: "dim_result list \<Rightarrow> check list \<Rightarrow> conf_class list" where
  "deciding dims checks =
     (let v = Combine (map r_Verdict dims @ map ck_Verdict checks)
      in map r_Class (filter (\<lambda>d. r_Verdict d = v) dims) @ map ck_Class (filter (\<lambda>c. ck_Verdict c = v) checks))"

lemma take_class_fold:
  "foldl take_class s cs = (foldl Worse (fst s) cs, snd s \<or> cs \<noteq> [])"
  by (induction cs arbitrary: s) (auto simp: take_class_def)

lemma Min_insert_min: "finite S \<Longrightarrow> Min (insert (min a b) S) = Min (insert a (insert b S))" for a :: "'a::linorder"
  by (cases "S = {}") (simp_all add: min.assoc)

lemma Rank_foldl_Worse: "Rank (foldl Worse c cs) = Min (insert (Rank c) (Rank ` set cs))"
proof (induction cs arbitrary: c)
  case (Cons x cs)
  then show ?case by (simp add: Rank_Worse Min_insert_min del: Min_insert)
qed simp

lemma Assess_class:
  "a_Class (Assess dims checks) = foldl Worse Reported (deciding dims checks)"
  by (simp add: Assess_def Let_def take_class_fold decides_def deciding_def eq_commute)

lemma Assess_verdict: "a_Verdict (Assess dims checks) = Combine (map r_Verdict dims @ map ck_Verdict checks)"
  by (simp add: Assess_def Let_def)

lemma Assess_confidence:
  "a_Confidence (Assess dims checks) =
     (if a_Verdict (Assess dims checks) = CantTell then WeakerLevel (LevelOf (a_Class (Assess dims checks))) Low
      else LevelOf (a_Class (Assess dims checks)))"
  by (simp add: Assess_def Let_def)

lemma level_rank_WeakerLevel: "level_rank (WeakerLevel a b) = min (level_rank a) (level_rank b)"
  by (auto simp: WeakerLevel_def)

lemma level_rank_mono: "Rank a \<le> Rank b \<Longrightarrow> level_rank (LevelOf a) \<le> level_rank (LevelOf b)"
  by (cases a; cases b) auto

text \<open>
  how far the combined answer is trusted. The verdict is the severest among the parts; the class is the
  weakest among the parts that decide it, and never above \<open>Reported\<close>; no deciding part is told with more
  confidence than its own class allows; and a \<open>CantTell\<close> is never above \<open>Low\<close>.
\<close>

theorem assess_confidence:
  "a_Verdict (Assess dims checks) =
     (let vs = map r_Verdict dims @ map ck_Verdict checks in
      if DoesNotFit \<in> set vs then DoesNotFit else if CantTell \<in> set vs then CantTell else Fits)
   \<and> Rank (a_Class (Assess dims checks)) = Min (insert 3 (Rank ` set (deciding dims checks)))
   \<and> list_all (\<lambda>c. level_rank (a_Confidence (Assess dims checks)) \<le> level_rank (LevelOf c)) (deciding dims checks)
   \<and> (if a_Verdict (Assess dims checks) = CantTell then level_rank (a_Confidence (Assess dims checks)) \<le> level_rank Low
      else a_Confidence (Assess dims checks) = LevelOf (a_Class (Assess dims checks)))"
proof -
  have rank: "Rank (a_Class (Assess dims checks)) = Min (insert 3 (Rank ` set (deciding dims checks)))"
    unfolding Assess_class Rank_foldl_Worse by simp
  then have "level_rank (LevelOf (a_Class (Assess dims checks))) \<le> level_rank (LevelOf c)"
    if "c \<in> set (deciding dims checks)" for c
    using that by (intro level_rank_mono) simp
  then have "list_all (\<lambda>c. level_rank (a_Confidence (Assess dims checks)) \<le> level_rank (LevelOf c)) (deciding dims checks)"
    by (fastforce simp: list_all_iff Assess_confidence level_rank_WeakerLevel)
  then show ?thesis
    using rank by (simp add: Assess_verdict Combine_eq Let_def Assess_confidence level_rank_WeakerLevel)
qed

subsection \<open>The order of the reasons\<close>

definition lines_of :: "dim_result list \<Rightarrow> check list \<Rightarrow> verdict \<Rightarrow> reason option list" where
  "lines_of dims checks v = map r_Reason (filter (\<lambda>d. r_Verdict d = v) dims)
     @ map (\<lambda>c. Some (CheckReason (ck_Reason c))) (filter (\<lambda>c. ck_Verdict c = v) checks)"

lemma insort_front: "\<forall>y \<in> set xs. f x \<le> f y \<Longrightarrow> insort_key f x xs = x # xs"
  by (cases xs) auto

lemma insort_past: "\<forall>y \<in> set xs. f y < f x \<Longrightarrow> insort_key f x (xs @ ys) = xs @ insort_key f x ys"
  by (induction xs) auto

lemma sort_two_levels:
  fixes ls :: "(verdict \<times> 'a) list"
  assumes "\<forall>l \<in> set ls. fst l \<noteq> Fits"
  shows "sort_key (\<lambda>l. - sev (fst l)) ls = filter (\<lambda>l. fst l = DoesNotFit) ls @ filter (\<lambda>l. fst l = CantTell) ls"
  using assms
proof (induction ls)
  case (Cons l ls)
  let ?A = "filter (\<lambda>l. fst l = DoesNotFit) ls" and ?B = "filter (\<lambda>l. fst l = CantTell) ls"
  show ?case
  proof (cases "fst l")
    case DoesNotFit
    then have "insort_key (\<lambda>l. - sev (fst l)) l (?A @ ?B) = l # ?A @ ?B"
      by (intro insort_front) auto
    with Cons DoesNotFit show ?thesis by simp
  next
    case CantTell
    then have "insort_key (\<lambda>l. - sev (fst l)) l (?A @ ?B) = ?A @ insort_key (\<lambda>l. - sev (fst l)) l ?B"
      by (intro insort_past) auto
    also have "insort_key (\<lambda>l. - sev (fst l)) l ?B = l # ?B"
      using CantTell by (intro insort_front) auto
    finally show ?thesis using Cons CantTell by simp
  qed (use Cons in auto)
qed simp

lemma map_snd_filter_fst: "map snd (filter (\<lambda>l. fst l = v) (map (\<lambda>x. (g x, h x)) xs)) = map h (filter (\<lambda>x. g x = v) xs)"
  by (induction xs) auto

text \<open>
  the reasons come worst first. Every part that does not plainly pass gives exactly one line, those that fail
  before those that cannot be told, dimensions before checks, each in the order given.
\<close>

theorem assess_reasons_worst_first:
  "a_Reasons (Assess dims checks) = lines_of dims checks DoesNotFit @ lines_of dims checks CantTell"
proof -
  have filt: "(w \<noteq> Fits \<and> w = DoesNotFit) = (w = DoesNotFit)" "(w \<noteq> Fits \<and> w = CantTell) = (w = CantTell)" for w
    by (cases w; simp)+
  let ?ls = "map (\<lambda>d. (r_Verdict d, r_Reason d)) (filter (\<lambda>d. r_Verdict d \<noteq> Fits) dims)
    @ map (\<lambda>c. (ck_Verdict c, Some (CheckReason (ck_Reason c)))) (filter (\<lambda>c. ck_Verdict c \<noteq> Fits) checks)"
  have "\<forall>l \<in> set ?ls. fst l \<noteq> Fits" by auto
  note sorted = sort_two_levels [OF this]
  have "a_Reasons (Assess dims checks) = map snd (sort_key (\<lambda>l. - sev (fst l)) ?ls)"
    by (simp add: Assess_def Let_def)
  then show ?thesis
    unfolding sorted by (simp add: map_snd_filter_fst lines_of_def filt)
qed

end
