(* ===== verification/Wire.thy ===== *)
theory Wire
  imports Prelude
begin

text \<open>
  The messages of the agent protocol (\<open>backend/proto/ikhnos/v1/agent.proto\<close>) as the server's components see them:
  one record per message with the fields the modelled code reads or writes. The fields it only carries are kept
  together, undecoded, in a last field \<open>..._Rest\<close>, so that two messages are equal exactly when all their
  fields are. A repeated field is a list.
\<close>

record node_facts =
  nf_Key :: string
  nf_Name :: string
  nf_MachineId :: string
  nf_SystemUuid :: string
  nf_ProviderId :: string
  nf_OsImage :: string
  nf_KernelVersion :: string
  nf_ContainerRuntime :: string
  nf_KubeletVersion :: string
  nf_Architecture :: string
  nf_CpuRequestedMillis :: int
  nf_MemoryRequestedBytes :: int
  nf_PodCount :: "int option"
  nf_Rest :: string

record namespace_facts =
  ns_Key :: string
  ns_Name :: string
  ns_Rest :: string

record workload_facts =
  wl_Key :: string
  wl_Namespace :: string
  wl_Kind :: string
  wl_Name :: string
  wl_Rest :: string

record cluster_facts =
  cl_Uid :: string
  cl_StorageClasses :: "string list"
  cl_IngressClasses :: "string list"
  cl_Rest :: string

datatype module_state = ModOK | ModSkipped | ModError

record module_status =
  mod_Name :: string
  mod_State :: module_state
  mod_Reason :: string

record sync_msg =
  sy_Seq :: u64
  sy_Full :: bool
  sy_Cluster :: "cluster_facts option"
  sy_Nodes :: "node_facts list"
  sy_DeletedNodes :: "string list"
  sy_Namespaces :: "namespace_facts list"
  sy_DeletedNamespaces :: "string list"
  sy_Workloads :: "workload_facts list"
  sy_DeletedWorkloads :: "string list"
  sy_Modules :: "module_status list"

end
