(* ===== verification/Facts.thy ===== *)
theory Facts
  imports Wire "HOL-Library.AList"
begin

text \<open>
  What the server holds of one cluster (\<open>backend/internal/facts\<close>): the state an agent's messages accumulate in
  (\<open>state.go\<close>), the limits a message is checked against before it is merged and the cutting of over-large
  values (\<open>limits.go\<close>), and the readings of mesh markers (\<open>mesh.go\<close>).

  A Go map is an association list with distinct keys; its order stands for the order one traversal of the map
  happens to take. \<open>proto.Size\<close>, \<open>proto.Equal\<close> and \<open>proto.Marshal\<close> are not part of the
  repository: they are the fields of \<open>proto_ops\<close>, an argument of what calls them. Sizes are counted without
  wrapping: an \<open>int64\<close> of bytes does not overflow below \<open>2^63\<close> bytes of messages.
\<close>

record proto_ops =
  sz_node :: "node_facts \<Rightarrow> int"
  sz_ns :: "namespace_facts \<Rightarrow> int"
  sz_wl :: "workload_facts \<Rightarrow> int"
  sz_cluster :: "cluster_facts \<Rightarrow> int"
  sz_mod :: "module_status \<Rightarrow> int"
  eq_node :: "node_facts \<Rightarrow> node_facts \<Rightarrow> bool"
  eq_ns :: "namespace_facts \<Rightarrow> namespace_facts \<Rightarrow> bool"
  eq_wl :: "workload_facts \<Rightarrow> workload_facts \<Rightarrow> bool"

type_synonym 'v fact_map = "(string \<times> 'v) list"

record state =
  s_Cluster :: "cluster_facts option"
  s_Nodes :: "node_facts fact_map"
  s_Namespaces :: "namespace_facts fact_map"
  s_Workloads :: "workload_facts fact_map"
  s_Modules :: "module_status list"
  s_Seq :: u64
  s_nodeBytes :: int
  s_nsBytes :: int
  s_wlBytes :: int

definition New :: state where
  "New = \<lparr>s_Cluster = None, s_Nodes = [], s_Namespaces = [], s_Workloads = [], s_Modules = [], s_Seq = 0,
          s_nodeBytes = 0, s_nsBytes = 0, s_wlBytes = 0\<rparr>"

subsection \<open>Merging a message\<close>

definition put :: "('v \<Rightarrow> int) \<Rightarrow> 'v fact_map \<Rightarrow> string \<Rightarrow> 'v \<Rightarrow> 'v fact_map \<times> int" where
  "put sz m k v =
     (AList.update k v m, (case map_of m k of None \<Rightarrow> sz v | Some old \<Rightarrow> sz v - sz old))"

definition drop_key :: "('v \<Rightarrow> int) \<Rightarrow> 'v fact_map \<Rightarrow> string \<Rightarrow> 'v fact_map \<times> int" where
  "drop_key sz m k =
     (case map_of m k of None \<Rightarrow> (m, 0) | Some old \<Rightarrow> (AList.delete k m, sz old))"

text \<open>The two loops \<open>Apply\<close> runs for each kind of entity: store what came, then drop what was deleted.\<close>

fun put_all :: "('v \<Rightarrow> int) \<Rightarrow> ('v \<Rightarrow> string) \<Rightarrow> 'v fact_map \<times> int \<Rightarrow> 'v list \<Rightarrow> 'v fact_map \<times> int" where
  "put_all sz key (m, b) [] = (m, b)"
| "put_all sz key (m, b) (v # vs) = (case put sz m (key v) v of (m', d) \<Rightarrow> put_all sz key (m', b + d) vs)"

fun drop_all :: "('v \<Rightarrow> int) \<Rightarrow> 'v fact_map \<times> int \<Rightarrow> string list \<Rightarrow> 'v fact_map \<times> int" where
  "drop_all sz (m, b) [] = (m, b)"
| "drop_all sz (m, b) (k # ks) = (case drop_key sz m k of (m', d) \<Rightarrow> drop_all sz (m', b - d) ks)"

definition merge_kind ::
  "('v \<Rightarrow> int) \<Rightarrow> ('v \<Rightarrow> string) \<Rightarrow> bool \<Rightarrow> 'v fact_map \<times> int \<Rightarrow> 'v list \<Rightarrow> string list \<Rightarrow> 'v fact_map \<times> int" where
  "merge_kind sz key full cur add del =
     drop_all sz (put_all sz key (if full then ([], 0) else cur) add) del"

definition Apply :: "proto_ops \<Rightarrow> state \<Rightarrow> sync_msg \<Rightarrow> state" where
  "Apply ops s m =
     (let (ns, nb) = merge_kind (sz_node ops) nf_Key (sy_Full m) (s_Nodes s, s_nodeBytes s) (sy_Nodes m) (sy_DeletedNodes m);
          (ss, sb) = merge_kind (sz_ns ops) ns_Key (sy_Full m) (s_Namespaces s, s_nsBytes s)
                       (sy_Namespaces m) (sy_DeletedNamespaces m);
          (ws, wb) = merge_kind (sz_wl ops) wl_Key (sy_Full m) (s_Workloads s, s_wlBytes s)
                       (sy_Workloads m) (sy_DeletedWorkloads m)
      in s\<lparr>s_Cluster := (case sy_Cluster m of None \<Rightarrow> s_Cluster s | Some c \<Rightarrow> Some c),
           s_Nodes := ns, s_nodeBytes := nb, s_Namespaces := ss, s_nsBytes := sb,
           s_Workloads := ws, s_wlBytes := wb,
           s_Modules := (if sy_Modules m = [] then s_Modules s else sy_Modules m), s_Seq := sy_Seq m\<rparr>)"

definition Snapshot :: "state \<Rightarrow> sync_msg" where
  "Snapshot s = \<lparr>sy_Seq = s_Seq s, sy_Full = True, sy_Cluster = s_Cluster s,
     sy_Nodes = map snd (s_Nodes s), sy_DeletedNodes = [],
     sy_Namespaces = map snd (s_Namespaces s), sy_DeletedNamespaces = [],
     sy_Workloads = map snd (s_Workloads s), sy_DeletedWorkloads = [], sy_Modules = s_Modules s\<rparr>"

text \<open>\<open>enc\<close> and \<open>dec\<close> stand for \<open>proto.Marshal\<close> and \<open>proto.Unmarshal\<close> of a \<open>Sync\<close>.\<close>

definition Marshal :: "(sync_msg \<Rightarrow> 'b) \<Rightarrow> state \<Rightarrow> 'b" where
  "Marshal enc s = enc (Snapshot s)"

definition Unmarshal :: "proto_ops \<Rightarrow> ('b \<Rightarrow> sync_msg option) \<Rightarrow> 'b \<Rightarrow> state option" where
  "Unmarshal ops dec b = (case dec b of None \<Rightarrow> None | Some m \<Rightarrow> Some (Apply ops New m))"

definition ClusterUID :: "state \<Rightarrow> string" where
  "ClusterUID s = (case s_Cluster s of None \<Rightarrow> [] | Some c \<Rightarrow> cl_Uid c)"

subsection \<open>Limits\<close>

record limits =
  l_Nodes :: int
  l_Namespaces :: int
  l_Workloads :: int
  l_Bytes :: int

definition DefaultLimits :: limits where
  "DefaultLimits = \<lparr>l_Nodes = 5000, l_Namespaces = 5000, l_Workloads = 50000, l_Bytes = 32 * 2 ^ 20\<rparr>"

datatype limit_error = LimitError string int int

text \<open>The body of the first loop of \<open>project\<close>, for one added key and its size.\<close>

definition project_added ::
  "('v \<Rightarrow> int) \<Rightarrow> 'v fact_map \<Rightarrow> string list \<Rightarrow> int \<times> int \<Rightarrow> string \<times> int \<Rightarrow> int \<times> int" where
  "project_added sz cur del acc a =
     (case acc of (n, b) \<Rightarrow> case a of (k, s) \<Rightarrow>
        if k \<in> set del then (case map_of cur k of Some old \<Rightarrow> (n - 1, b - sz old) | None \<Rightarrow> (n, b))
        else (case map_of cur k of Some old \<Rightarrow> (n, b + (s - sz old)) | None \<Rightarrow> (n + 1, b + s)))"

definition project_deleted ::
  "('v \<Rightarrow> int) \<Rightarrow> 'v fact_map \<Rightarrow> (string \<times> int) list \<Rightarrow> int \<times> int \<Rightarrow> string \<Rightarrow> int \<times> int" where
  "project_deleted sz cur added acc k =
     (case acc of (n, b) \<Rightarrow>
        if map_of added k \<noteq> None then (n, b)
        else (case map_of cur k of Some old \<Rightarrow> (n - 1, b - sz old) | None \<Rightarrow> (n, b)))"

definition project ::
  "('v \<Rightarrow> int) \<Rightarrow> ('v \<Rightarrow> string) \<Rightarrow> 'v fact_map \<Rightarrow> int \<Rightarrow> bool \<Rightarrow> 'v list \<Rightarrow> string list \<Rightarrow> int \<times> int" where
  "project sz key cur curBytes full add del =
     (let cur = (if full then [] else cur);
          curBytes = (if full then 0 else curBytes);
          added = foldl (\<lambda>m a. AList.update (key a) (sz a) m) [] add;
          acc = foldl (project_added sz cur del) (int (length cur), curBytes) added
      in foldl (project_deleted sz cur added) acc (remdups del))"

definition modulesSize :: "proto_ops \<Rightarrow> module_status list \<Rightarrow> int" where
  "modulesSize ops ms = sum_list (map (sz_mod ops) ms)"

definition otherBytes :: "proto_ops \<Rightarrow> state \<Rightarrow> int \<times> int" where
  "otherBytes ops s =
     ((case s_Cluster s of None \<Rightarrow> 0 | Some c \<Rightarrow> sz_cluster ops c), modulesSize ops (s_Modules s))"

definition state_Bytes :: "proto_ops \<Rightarrow> state \<Rightarrow> int" where
  "state_Bytes ops s =
     (case otherBytes ops s of (c, m) \<Rightarrow> s_nodeBytes s + s_nsBytes s + s_wlBytes s + c + m)"

definition Check :: "proto_ops \<Rightarrow> state \<Rightarrow> sync_msg \<Rightarrow> limits \<Rightarrow> limit_error option" where
  "Check ops s m l =
     (let (nn, nb) = project (sz_node ops) nf_Key (s_Nodes s) (s_nodeBytes s) (sy_Full m) (sy_Nodes m) (sy_DeletedNodes m);
          (sn, sb) = project (sz_ns ops) ns_Key (s_Namespaces s) (s_nsBytes s) (sy_Full m)
                       (sy_Namespaces m) (sy_DeletedNamespaces m);
          (wn, wb) = project (sz_wl ops) wl_Key (s_Workloads s) (s_wlBytes s) (sy_Full m)
                       (sy_Workloads m) (sy_DeletedWorkloads m)
      in if nn > l_Nodes l then Some (LimitError ''nodes'' nn (l_Nodes l))
         else if sn > l_Namespaces l then Some (LimitError ''namespaces'' sn (l_Namespaces l))
         else if wn > l_Workloads l then Some (LimitError ''workloads'' wn (l_Workloads l))
         else
           let (cluster, modules) = otherBytes ops s;
               cluster = (case sy_Cluster m of None \<Rightarrow> cluster | Some c \<Rightarrow> sz_cluster ops c);
               modules = (if sy_Modules m = [] then modules else modulesSize ops (sy_Modules m));
               total = nb + sb + wb + cluster + modules
           in if total > l_Bytes l then Some (LimitError ''the total size of its facts (bytes)'' total (l_Bytes l))
              else None)"

definition CheckState :: "proto_ops \<Rightarrow> state \<Rightarrow> limits \<Rightarrow> limit_error option" where
  "CheckState ops s l =
     (if int (length (s_Nodes s)) > l_Nodes l then Some (LimitError ''nodes'' (int (length (s_Nodes s))) (l_Nodes l))
      else if int (length (s_Namespaces s)) > l_Namespaces l
        then Some (LimitError ''namespaces'' (int (length (s_Namespaces s))) (l_Namespaces l))
      else if int (length (s_Workloads s)) > l_Workloads l
        then Some (LimitError ''workloads'' (int (length (s_Workloads s))) (l_Workloads l))
      else if state_Bytes ops s > l_Bytes l
        then Some (LimitError ''the total size of its facts (bytes)'' (state_Bytes ops s) (l_Bytes l))
      else None)"

subsection \<open>Weights of a map\<close>

definition weigh :: "('v \<Rightarrow> int) \<Rightarrow> 'v option \<Rightarrow> int" where
  "weigh w x = (case x of None \<Rightarrow> 0 | Some v \<Rightarrow> w v)"

definition weight :: "('v \<Rightarrow> int) \<Rightarrow> (string \<rightharpoonup> 'v) \<Rightarrow> int" where
  "weight w f = (\<Sum>k\<in>dom f. weigh w (f k))"

lemma weigh_simps [simp]: "weigh w None = 0" "weigh w (Some v) = w v"
  by (simp_all add: weigh_def)

lemma weight_on: "finite U \<Longrightarrow> dom f \<subseteq> U \<Longrightarrow> weight w f = (\<Sum>k\<in>U. weigh w (f k))"
  unfolding weight_def by (rule sum.mono_neutral_left) (auto simp: weigh_def split: option.splits)

lemma weight_empty [simp]: "weight w Map.empty = 0"
  by (simp add: weight_def)

lemma weight_upd:
  assumes "finite (dom f)"
  shows "weight w (f(k \<mapsto> v)) = weight w f + w v - weigh w (f k)"
proof -
  have "weight w (f(k \<mapsto> v)) = (\<Sum>j\<in>insert k (dom f). weigh w ((f(k \<mapsto> v)) j))"
    using assms by (intro weight_on) auto
  also have "\<dots> = w v + (\<Sum>j\<in>dom f - {k}. weigh w (f j))"
    using assms by (subst sum.insert_remove) (auto intro!: sum.cong)
  also have "(\<Sum>j\<in>dom f - {k}. weigh w (f j)) = weight w f - weigh w (f k)"
    using assms by (auto simp: weight_def sum_diff1 dom_def)
  finally show ?thesis by (simp only: add.commute add_diff_eq)
qed

lemma weight_del:
  assumes "finite (dom f)"
  shows "weight w (f(k := None)) = weight w f - weigh w (f k)"
proof -
  have "weight w (f(k := None)) = (\<Sum>j\<in>dom f - {k}. weigh w ((f(k := None)) j))"
    using assms by (intro weight_on) auto
  also have "\<dots> = (\<Sum>j\<in>dom f - {k}. weigh w (f j))" by (intro sum.cong) auto
  also have "\<dots> = weight w f - weigh w (f k)"
    using assms by (auto simp: weight_def sum_diff1 dom_def)
  finally show ?thesis .
qed

lemma weight_one: "weight (\<lambda>_. 1) f = int (card (dom f))"
proof -
  have "weight (\<lambda>_. 1) f = (\<Sum>k\<in>dom f. 1)"
    unfolding weight_def by (intro sum.cong) auto
  then show ?thesis by simp
qed

subsection \<open>The interface of a counted store\<close>

text \<open>
  What the limits rely on of the stores \<open>put\<close> and \<open>drop\<close> change: looking up, counting and the growth each
  operation reports.
\<close>

locale sized_store =
  fixes inv :: "'m \<Rightarrow> bool" and find :: "'m \<Rightarrow> string \<Rightarrow> 'v option" and count :: "'m \<Rightarrow> int"
    and store :: "'m \<Rightarrow> string \<Rightarrow> 'v \<Rightarrow> 'm \<times> int" and remove :: "'m \<Rightarrow> string \<Rightarrow> 'm \<times> int"
    and weight_of :: "'v \<Rightarrow> int"
  assumes inv_store [preserve_intros]: "inv m \<Longrightarrow> inv (fst (store m k v))"
    and inv_remove [preserve_intros]: "inv m \<Longrightarrow> inv (fst (remove m k))"
    and find_store: "inv m \<Longrightarrow> find (fst (store m k v)) = (find m)(k \<mapsto> v)"
    and find_remove: "inv m \<Longrightarrow> find (fst (remove m k)) = (find m)(k := None)"
    and grown: "inv m \<Longrightarrow> snd (store m k v) = weight_of v - weigh weight_of (find m k)"
    and freed: "inv m \<Longrightarrow> snd (remove m k) = weigh weight_of (find m k)"
    and finite_find: "inv m \<Longrightarrow> finite (dom (find m))"
    and count_find: "inv m \<Longrightarrow> count m = weight (\<lambda>_. 1) (find m)"
begin

definition accounted :: "'m \<times> int \<Rightarrow> bool" where
  "accounted mb \<longleftrightarrow> inv (fst mb) \<and> snd mb = weight weight_of (find (fst mb))"

lemma accounted_store:
  "accounted (m, b) \<Longrightarrow> accounted (fst (store m k v), b + snd (store m k v))"
  by (simp add: accounted_def inv_store find_store grown weight_upd finite_find)

lemma accounted_remove:
  "accounted (m, b) \<Longrightarrow> accounted (fst (remove m k), b - snd (remove m k))"
  by (simp add: accounted_def inv_remove find_remove freed weight_del finite_find)

lemma accounted_stores:
  assumes "accounted mb"
  shows "accounted (foldl (\<lambda>(m, b) v. (fst (store m (key v) v), b + snd (store m (key v) v))) mb vs)
    \<and> find (fst (foldl (\<lambda>(m, b) v. (fst (store m (key v) v), b + snd (store m (key v) v))) mb vs))
        = foldl (\<lambda>f v. f(key v \<mapsto> v)) (find (fst mb)) vs"
  using assms
proof (induction vs arbitrary: mb)
  case (Cons v vs)
  obtain m b where mb: "mb = (m, b)" by (cases mb)
  have "inv m" using Cons.prems mb by (simp add: accounted_def)
  then show ?case
    using Cons.IH [OF accounted_store [of m b]] Cons.prems by (simp add: mb find_store)
qed simp

lemma accounted_removes:
  assumes "accounted mb"
  shows "accounted (foldl (\<lambda>(m, b) k. (fst (remove m k), b - snd (remove m k))) mb ks)
    \<and> find (fst (foldl (\<lambda>(m, b) k. (fst (remove m k), b - snd (remove m k))) mb ks))
        = (\<lambda>k. if k \<in> set ks then None else find (fst mb) k)"
  using assms
proof (induction ks arbitrary: mb)
  case (Cons k ks)
  obtain m b where mb: "mb = (m, b)" by (cases mb)
  have "inv m" using Cons.prems mb by (simp add: accounted_def)
  then show ?case
    using Cons.IH [OF accounted_remove [of m b]] Cons.prems by (auto simp: mb find_remove)
qed simp

end

lemma put_all_foldl:
  "put_all sz key mb vs = foldl (\<lambda>(m, b) v. (fst (put sz m (key v) v), b + snd (put sz m (key v) v))) mb vs"
  by (induction sz key mb vs rule: put_all.induct) (auto split: prod.splits)

lemma drop_all_foldl:
  "drop_all sz mb ks = foldl (\<lambda>(m, b) k. (fst (drop_key sz m k), b - snd (drop_key sz m k))) mb ks"
  by (induction sz mb ks rule: drop_all.induct) (auto split: prod.splits)

definition distinct_keys :: "'v fact_map \<Rightarrow> bool" where
  "distinct_keys m = distinct (map fst m)"

lemma length_weight: "distinct_keys m \<Longrightarrow> int (length m) = weight (\<lambda>_. 1) (map_of m)"
  unfolding weight_one distinct_keys_def
  by (metis card_distinct dom_map_of_conv_image_fst length_map list.set_map distinct_card)

interpretation fact_store: sized_store distinct_keys map_of "\<lambda>m. int (length m)" "put sz" "drop_key sz" sz for sz
proof unfold_locales
  fix m :: "'a fact_map" and k v
  assume inv: "distinct_keys m"
  show "distinct_keys (fst (put sz m k v))"
    using inv by (simp add: distinct_keys_def put_def distinct_update)
  show "distinct_keys (fst (drop_key sz m k))"
    using inv by (auto simp: distinct_keys_def drop_key_def distinct_delete split: option.splits)
  show "map_of (fst (put sz m k v)) = (map_of m)(k \<mapsto> v)"
    by (simp add: put_def update_conv')
  show "map_of (fst (drop_key sz m k)) = (map_of m)(k := None)"
    by (auto simp: drop_key_def delete_conv' fun_eq_iff split: option.splits)
  show "snd (put sz m k v) = sz v - weigh sz (map_of m k)"
    by (auto simp: put_def split: option.splits)
  show "snd (drop_key sz m k) = weigh sz (map_of m k)"
    by (auto simp: drop_key_def split: option.splits)
  show "finite (dom (map_of m))" by (rule finite_dom_map_of)
  show "int (length m) = weight (\<lambda>_. 1) (map_of m)" using inv by (rule length_weight)
qed

subsection \<open>A check predicts the merge\<close>

definition added_map :: "('v \<Rightarrow> string) \<Rightarrow> 'v list \<Rightarrow> string \<rightharpoonup> 'v" where
  "added_map key vs = foldl (\<lambda>f v. f(key v \<mapsto> v)) Map.empty vs"

definition merged :: "(string \<rightharpoonup> 'v) \<Rightarrow> (string \<rightharpoonup> 'v) \<Rightarrow> string set \<Rightarrow> string \<rightharpoonup> 'v" where
  "merged cur add del = (\<lambda>k. if k \<in> del then None else (cur ++ add) k)"

lemma stores_map_add: "foldl (\<lambda>f v. f(key v \<mapsto> v)) f vs = f ++ added_map key vs"
proof (induction vs rule: rev_induct)
  case (snoc v vs)
  then show ?case by (simp only: added_map_def foldl_append foldl.simps map_add_upd)
qed (simp add: added_map_def)

lemma finite_dom_upd: "finite (dom f) \<Longrightarrow> finite (dom (f(k \<mapsto> v)))"
  by simp

lemma finite_added_map: "finite (dom (added_map key vs))"
proof (induction vs rule: rev_induct)
  case (snoc v vs)
  then show ?case unfolding added_map_def foldl_append foldl.simps by (rule finite_dom_upd)
qed (simp add: added_map_def)

lemma merge_kind_merged:
  fixes full :: bool
  assumes "distinct_keys m" and "b = weight sz (map_of m)"
  defines "cur \<equiv> if full then [] else m"
  shows "distinct_keys (fst (merge_kind sz key full (m, b) add del))"
    and "snd (merge_kind sz key full (m, b) add del) = weight sz (map_of (fst (merge_kind sz key full (m, b) add del)))"
    and "map_of (fst (merge_kind sz key full (m, b) add del)) = merged (map_of cur) (added_map key add) (set del)"
proof -
  let ?mb = "if full then ([], 0) else (m, b)"
  have start: "fact_store.accounted sz ?mb"
    using assms by (simp add: fact_store.accounted_def distinct_keys_def)
  note puts = fact_store.accounted_stores [OF start, of key add, folded put_all_foldl]
  note drops = fact_store.accounted_removes [OF puts [THEN conjunct1], of del, folded drop_all_foldl]
  have acc: "fact_store.accounted sz (merge_kind sz key full (m, b) add del)"
    using drops by (simp add: merge_kind_def)
  then show "distinct_keys (fst (merge_kind sz key full (m, b) add del))"
    and "snd (merge_kind sz key full (m, b) add del) = weight sz (map_of (fst (merge_kind sz key full (m, b) add del)))"
    by (simp_all add: fact_store.accounted_def)
  show "map_of (fst (merge_kind sz key full (m, b) add del)) = merged (map_of cur) (added_map key add) (set del)"
    using puts drops by (auto simp: merge_kind_def merged_def stores_map_add cur_def fun_eq_iff)
qed

lemma added_sizes:
  fixes key :: "'v \<Rightarrow> string" and sz :: "'v \<Rightarrow> 's" and vs :: "'v list"
  defines "ad \<equiv> foldl (\<lambda>m a. AList.update (key a) (sz a) m) [] vs"
  shows "distinct (map fst ad)" and "map_of ad = (\<lambda>k. map_option sz (added_map key vs k))"
proof -
  have "distinct (map fst ad) \<and> map_of ad = (\<lambda>k. map_option sz (added_map key vs k))"
    unfolding ad_def added_map_def
    by (induction vs rule: rev_induct) (auto simp: distinct_update update_conv' fun_eq_iff)
  then show "distinct (map fst ad)" and "map_of ad = (\<lambda>k. map_option sz (added_map key vs k))" by auto
qed

lemma foldl_pair_sums:
  assumes "\<And>n b x. g (n, b) x = (n + (d1 x :: int), b + (d2 x :: int))"
  shows "foldl g (n, b) xs = (n + sum_list (map d1 xs), b + sum_list (map d2 xs))"
  by (induction xs arbitrary: n b) (simp_all add: assms add.assoc)

text \<open>The change each key brings, for any weight: the count weighs 1, the bytes \<open>sz\<close>.\<close>

definition added_change :: "(string \<rightharpoonup> 'v) \<Rightarrow> string set \<Rightarrow> ('v \<Rightarrow> int) \<Rightarrow> string \<Rightarrow> int \<Rightarrow> int" where
  "added_change cur del w k s = (if k \<in> del then - weigh w (cur k) else s - weigh w (cur k))"

lemma project_weights:
  fixes full :: bool and key :: "'v \<Rightarrow> string" and add :: "'v list" and del :: "string list"
  assumes dist: "distinct_keys m" and b: "b = weight sz (map_of m)"
  defines "F \<equiv> merged (map_of (if full then [] else m)) (added_map key add) (set del)"
  shows "project sz key m b full add del = (weight (\<lambda>_. 1) F, weight sz F)"
proof -
  define cur where "cur = (if full then [] else m)"
  define A where "A = added_map key add"
  define ad where "ad = foldl (\<lambda>m a. AList.update (key a) (sz a) m) [] add"
  have ad: "distinct (map fst ad)" "map_of ad = (\<lambda>k. map_option sz (A k))"
    unfolding ad_def A_def by (rule added_sizes)+
  have dc: "distinct_keys cur" using dist by (simp add: cur_def distinct_keys_def)
  have b': "(if full then 0 else b) = weight sz (map_of cur)" using b by (simp add: cur_def)
  let ?d1 = "\<lambda>(k, s). added_change (map_of cur) (set del) (\<lambda>_. 1) k 1"
  let ?d2 = "\<lambda>(k, s). added_change (map_of cur) (set del) sz k s"
  let ?e = "\<lambda>w k. if map_of ad k \<noteq> None then 0 else - weigh w (map_of cur k)"
  have proj: "project sz key m b full add del
      = (int (length cur) + sum_list (map ?d1 ad) + sum_list (map (?e (\<lambda>_. 1)) (remdups del)),
         weight sz (map_of cur) + sum_list (map ?d2 ad) + sum_list (map (?e sz) (remdups del)))"
  proof -
    have "foldl (project_added sz cur del) (n, c) ad
        = (n + sum_list (map ?d1 ad), c + sum_list (map ?d2 ad))" for n c
      by (rule foldl_pair_sums) (auto simp: project_added_def added_change_def split: option.splits)
    moreover have "foldl (project_deleted sz cur ad) (n, c) ks
        = (n + sum_list (map (?e (\<lambda>_. 1)) ks), c + sum_list (map (?e sz) ks))" for n c ks
      by (rule foldl_pair_sums) (auto simp: project_deleted_def split: option.splits)
    ultimately show ?thesis
      by (simp add: project_def Let_def b' flip: cur_def ad_def)
  qed
  have fin: "finite (dom A)" unfolding A_def by (rule finite_added_map)
  have ad_set: "set (map fst ad) = dom A"
    using dom_map_of_conv_image_fst [of ad] by (auto simp: ad(2) dom_def image_def) 
  have sum_ad: "sum_list (map (\<lambda>(k, s). f k s) ad) = (\<Sum>k\<in>dom A. f k (sz (the (A k))))" for f :: "string \<Rightarrow> int \<Rightarrow> int"
  proof -
    have "sum_list (map (\<lambda>(k, s). f k s) ad) = sum_list (map (\<lambda>k. f k (sz (the (A k)))) (map fst ad))"
      using ad unfolding map_map
      by (intro arg_cong [of _ _ sum_list] map_cong) (auto dest!: map_of_is_SomeI [OF ad(1)])
    also have "\<dots> = (\<Sum>k\<in>dom A. f k (sz (the (A k))))"
      by (simp only: sum_list_distinct_conv_sum_set [OF ad(1)] ad_set)
    finally show ?thesis .
  qed
  let ?U = "dom (map_of cur) \<union> dom A \<union> set del"
  have U: "finite ?U" using fin by (simp add: finite_dom_map_of)
  have total: "weight w (map_of cur) + (\<Sum>k\<in>dom A. added_change (map_of cur) (set del) w k (w (the (A k))))
      + (\<Sum>k\<in>set del. ?e w k) = weight w F" for w
  proof -
    have "weight w (map_of cur) = (\<Sum>k\<in>?U. weigh w (map_of cur k))" by (rule weight_on [OF U]) auto
    moreover have "weight w F = (\<Sum>k\<in>?U. weigh w (F k))"
      by (rule weight_on [OF U]) (auto simp: F_def merged_def cur_def A_def split: if_splits)
    moreover have "(\<Sum>k\<in>dom A. added_change (map_of cur) (set del) w k (w (the (A k))))
        = (\<Sum>k\<in>?U. if k \<in> dom A then added_change (map_of cur) (set del) w k (w (the (A k))) else 0)"
      using U by (intro sum.mono_neutral_cong_left) auto
    moreover have "(\<Sum>k\<in>set del. ?e w k) = (\<Sum>k\<in>?U. if k \<in> set del then ?e w k else 0)"
      using U by (intro sum.mono_neutral_cong_left) auto
    moreover have "weigh w (F k) = weigh w (map_of cur k)
        + (if k \<in> dom A then added_change (map_of cur) (set del) w k (w (the (A k))) else 0)
        + (if k \<in> set del then ?e w k else 0)" for k
      by (auto simp: F_def merged_def added_change_def ad(2) map_add_def dom_def
          simp flip: cur_def A_def split: option.splits)
    ultimately show ?thesis by (simp add: sum.distrib)
  qed
  show ?thesis
    using total [of "\<lambda>_. 1"] total [of sz] length_weight [OF dc]
    by (simp add: proj sum_ad sum_list_distinct_conv_sum_set)
qed

subsection \<open>The state's invariant\<close>

definition kind_wf :: "('v \<Rightarrow> int) \<Rightarrow> ('v \<Rightarrow> string) \<Rightarrow> 'v fact_map \<Rightarrow> int \<Rightarrow> bool" where
  "kind_wf sz key m b \<longleftrightarrow> distinct_keys m \<and> b = weight sz (map_of m) \<and> list_all (\<lambda>(k, v). key v = k) m"

definition state_wf :: "proto_ops \<Rightarrow> state \<Rightarrow> bool" where
  "state_wf ops s \<longleftrightarrow> kind_wf (sz_node ops) nf_Key (s_Nodes s) (s_nodeBytes s)
     \<and> kind_wf (sz_ns ops) ns_Key (s_Namespaces s) (s_nsBytes s)
     \<and> kind_wf (sz_wl ops) wl_Key (s_Workloads s) (s_wlBytes s)"

lemma list_all_update: "P (k, v) \<Longrightarrow> list_all P m \<Longrightarrow> list_all P (AList.update k v m)"
  by (induction m) auto

lemma put_all_keyed:
  "list_all (\<lambda>(k, v). key v = k) (fst mb) \<Longrightarrow> list_all (\<lambda>(k, v). key v = k) (fst (put_all sz key mb vs))"
  by (induction sz key mb vs rule: put_all.induct) (auto simp: put_def intro!: list_all_update)

lemma drop_all_keyed:
  "list_all P (fst mb) \<Longrightarrow> list_all P (fst (drop_all sz mb ks))"
  by (induction sz mb ks rule: drop_all.induct)
    (auto simp: drop_key_def AList.delete_eq list_all_iff split: option.splits)

lemma merge_kind_wf [preserve_intros]:
  assumes "kind_wf sz key m b"
  shows "kind_wf sz key (fst (merge_kind sz key full (m, b) add del)) (snd (merge_kind sz key full (m, b) add del))"
proof -
  have "list_all (\<lambda>(k, v). key v = k) (fst (merge_kind sz key full (m, b) add del))"
    using assms unfolding merge_kind_def kind_wf_def by (intro drop_all_keyed put_all_keyed) auto
  then show ?thesis
    using assms merge_kind_merged(1,2) [of m b sz key full add del] by (simp add: kind_wf_def)
qed

lemma New_wf [preserve_intros]: "state_wf ops New"
  by (simp add: state_wf_def New_def kind_wf_def distinct_keys_def)

lemma Apply_fields:
  "s_Nodes (Apply ops s m) = fst (merge_kind (sz_node ops) nf_Key (sy_Full m) (s_Nodes s, s_nodeBytes s) (sy_Nodes m) (sy_DeletedNodes m))"
  "s_Namespaces (Apply ops s m) = fst (merge_kind (sz_ns ops) ns_Key (sy_Full m) (s_Namespaces s, s_nsBytes s) (sy_Namespaces m) (sy_DeletedNamespaces m))"
  "s_Workloads (Apply ops s m) = fst (merge_kind (sz_wl ops) wl_Key (sy_Full m) (s_Workloads s, s_wlBytes s) (sy_Workloads m) (sy_DeletedWorkloads m))"
  "s_nodeBytes (Apply ops s m) = snd (merge_kind (sz_node ops) nf_Key (sy_Full m) (s_Nodes s, s_nodeBytes s) (sy_Nodes m) (sy_DeletedNodes m))"
  "s_nsBytes (Apply ops s m) = snd (merge_kind (sz_ns ops) ns_Key (sy_Full m) (s_Namespaces s, s_nsBytes s) (sy_Namespaces m) (sy_DeletedNamespaces m))"
  "s_wlBytes (Apply ops s m) = snd (merge_kind (sz_wl ops) wl_Key (sy_Full m) (s_Workloads s, s_wlBytes s) (sy_Workloads m) (sy_DeletedWorkloads m))"
  "s_Cluster (Apply ops s m) = (case sy_Cluster m of None \<Rightarrow> s_Cluster s | Some c \<Rightarrow> Some c)"
  "s_Modules (Apply ops s m) = (if sy_Modules m = [] then s_Modules s else sy_Modules m)"
  "s_Seq (Apply ops s m) = sy_Seq m"
  by (simp_all add: Apply_def Let_def split: prod.splits)

lemma Apply_wf [preserve_intros]: "state_wf ops s \<Longrightarrow> state_wf ops (Apply ops s m)"
  by (simp add: state_wf_def Apply_fields merge_kind_wf)

lemma project_merge:
  assumes "kind_wf sz key m b"
  shows "project sz key m b full add del =
    (int (length (fst (merge_kind sz key full (m, b) add del))), snd (merge_kind sz key full (m, b) add del))"
proof -
  have wf: "distinct_keys m" "b = weight sz (map_of m)" using assms by (simp_all add: kind_wf_def)
  note merged = merge_kind_merged [OF wf, of key full add del]
  show ?thesis
    unfolding project_weights [OF wf] merged(2) length_weight [OF merged(1)] merged(3) ..
qed

lemma Check_CheckState:
  assumes "state_wf ops s"
  shows "Check ops s m l = CheckState ops (Apply ops s m) l"
proof -
  have P: "project (sz_node ops) nf_Key (s_Nodes s) (s_nodeBytes s) (sy_Full m) (sy_Nodes m) (sy_DeletedNodes m)
      = (int (length (s_Nodes (Apply ops s m))), s_nodeBytes (Apply ops s m))"
    "project (sz_ns ops) ns_Key (s_Namespaces s) (s_nsBytes s) (sy_Full m) (sy_Namespaces m) (sy_DeletedNamespaces m)
      = (int (length (s_Namespaces (Apply ops s m))), s_nsBytes (Apply ops s m))"
    "project (sz_wl ops) wl_Key (s_Workloads s) (s_wlBytes s) (sy_Full m) (sy_Workloads m) (sy_DeletedWorkloads m)
      = (int (length (s_Workloads (Apply ops s m))), s_wlBytes (Apply ops s m))"
    using assms by (simp_all add: state_wf_def Apply_fields project_merge)
  have T: "(let (cluster, modules) = otherBytes ops s;
               cluster = (case sy_Cluster m of None \<Rightarrow> cluster | Some c \<Rightarrow> sz_cluster ops c);
               modules = (if sy_Modules m = [] then modules else modulesSize ops (sy_Modules m))
           in s_nodeBytes (Apply ops s m) + s_nsBytes (Apply ops s m) + s_wlBytes (Apply ops s m) + cluster + modules)
      = state_Bytes ops (Apply ops s m)"
    by (simp add: state_Bytes_def otherBytes_def Apply_fields(7,8) split: option.splits)
  obtain c d where cd: "otherBytes ops s = (c, d)" by (cases "otherBytes ops s")
  show ?thesis
    using T unfolding Check_def CheckState_def P Let_def prod.case cd by simp
qed

text \<open>
  C8. \<open>Check\<close> predicts the merge exactly: for a state whose keys are distinct and whose byte counters are the sums
  of the encoded sizes it holds, checking a message gives what \<open>CheckState\<close> gives for the state \<open>Apply\<close> makes of it,
  the same error with the same numbers included; so applying a message that passed never exceeds a limit.
\<close>

theorem check_predicts_apply:
  "state_wf ops s \<Longrightarrow> Check ops s m l = CheckState ops (Apply ops s m) l"
  by (rule Check_CheckState)

text \<open>
  C17. Whatever messages the server merges, starting from an empty state, the state keeps one entry per key, each
  entity under its own key, and the three cached byte counts equal the encoded size of what the maps hold.
\<close>

theorem apply_keeps_state_wf: "state_wf ops (foldl (Apply ops) New ms)"
  by (induction ms rule: rev_induct) (auto intro: preserve_intros)

lemma kind_wf_rebuild:
  assumes "kind_wf sz key m b"
  shows "merge_kind sz key True ([], 0) (map snd m) [] = (m, b)"
proof -
  have step: "put_all sz key (xs, c) (map snd ys) = (xs @ ys, c + weight sz (map_of ys))"
    if "distinct_keys (xs @ ys)" "list_all (\<lambda>(k, v). key v = k) ys" for xs ys c
    using that
  proof (induction ys arbitrary: xs c)
    case (Cons y ys)
    obtain k v where y: "y = (k, v)" by (cases y)
    have new: "k \<notin> fst ` set xs" "k \<notin> fst ` set ys" using Cons.prems by (auto simp: y distinct_keys_def)
    have nx: "map_of xs k = None" "map_of ys k = None" using new by (simp_all add: map_of_eq_None_iff)
    have up: "AList.update k v xs = xs @ [(k, v)]" using new(1) by (induction xs) auto
    have key: "key v = k" using Cons.prems(2) by (simp add: y)
    show ?case
      using Cons.IH [of "xs @ [(k, v)]" "c + sz v"] Cons.prems
      by (simp add: y key put_def nx up weight_upd finite_dom_map_of del: fun_upd_apply)
  qed simp
  show ?thesis
    using step [of "[]" m 0] assms by (simp add: merge_kind_def kind_wf_def)
qed

lemma Apply_Snapshot:
  assumes "state_wf ops s"
  shows "Apply ops New (Snapshot s) = s"
proof (rule state.equality)
  note rebuilt = assms [unfolded state_wf_def, THEN conjunct1, THEN kind_wf_rebuild]
    assms [unfolded state_wf_def, THEN conjunct2, THEN conjunct1, THEN kind_wf_rebuild]
    assms [unfolded state_wf_def, THEN conjunct2, THEN conjunct2, THEN kind_wf_rebuild]
  show "s_Nodes (Apply ops New (Snapshot s)) = s_Nodes s" "s_nodeBytes (Apply ops New (Snapshot s)) = s_nodeBytes s"
    "s_Namespaces (Apply ops New (Snapshot s)) = s_Namespaces s" "s_nsBytes (Apply ops New (Snapshot s)) = s_nsBytes s"
    "s_Workloads (Apply ops New (Snapshot s)) = s_Workloads s" "s_wlBytes (Apply ops New (Snapshot s)) = s_wlBytes s"
    by (simp_all add: Apply_fields Snapshot_def New_def rebuilt)
qed (simp_all add: Apply_fields Snapshot_def New_def split: option.splits)

text \<open>
  C30. Round trip of the stored picture: with a codec whose decoder undoes its encoder, loading what \<open>Marshal\<close> stored
  of any state reached by merging messages gives back that state: all entities, modules, sequence number and the
  byte counters, rebuilt by \<open>Unmarshal\<close> from an empty state.
\<close>

theorem unmarshal_marshal:
  assumes "\<And>m. dec (enc m) = Some m"
  shows "Unmarshal ops dec (Marshal enc (foldl (Apply ops) New ms)) = Some (foldl (Apply ops) New ms)"
proof -
  have "state_wf ops (foldl (Apply ops) New ms)"
    by (induction ms rule: rev_induct) (auto intro: preserve_intros)
  then show ?thesis by (simp add: Unmarshal_def Marshal_def assms Apply_Snapshot)
qed

definition demo_ops :: proto_ops where
  "demo_ops = \<lparr>sz_node = (\<lambda>n. int (length (nf_Key n))), sz_ns = (\<lambda>n. int (length (ns_Key n))),
     sz_wl = (\<lambda>w. int (length (wl_Key w))), sz_cluster = (\<lambda>c. int (length (cl_Uid c))),
     sz_mod = (\<lambda>x. int (length (mod_Name x))), eq_node = (=), eq_ns = (=), eq_wl = (=)\<rparr>"

definition demo_sync :: sync_msg where
  "demo_sync = \<lparr>sy_Seq = 7, sy_Full = True, sy_Cluster = None, sy_Nodes = [], sy_DeletedNodes = [],
     sy_Namespaces = [\<lparr>ns_Key = ''a'', ns_Name = ''a'', ns_Rest = []\<rparr>, \<lparr>ns_Key = ''bc'', ns_Name = ''bc'', ns_Rest = []\<rparr>],
     sy_DeletedNamespaces = [''a''], sy_Workloads = [], sy_DeletedWorkloads = [], sy_Modules = []\<rparr>"

lemma demo_state_bytes: "s_nsBytes (Apply demo_ops New demo_sync) = 2"
  by code_simp

theorem check_predicts_apply_witness:
  "Check demo_ops New demo_sync DefaultLimits = CheckState demo_ops (Apply demo_ops New demo_sync) DefaultLimits"
  by (rule check_predicts_apply [OF New_wf])

theorem unmarshal_marshal_witness:
  "Unmarshal demo_ops Some (Marshal id (foldl (Apply demo_ops) New [demo_sync]))
     = Some (foldl (Apply demo_ops) New [demo_sync])"
  by (rule unmarshal_marshal [of Some id]) simp

subsection \<open>Drift\<close>

record drift =
  d_Missing :: int
  d_Extra :: int
  d_Changed :: int
  d_Samples :: "string list"

definition drift_Total :: "drift \<Rightarrow> int" where
  "drift_Total d = d_Missing d + d_Extra d + d_Changed d"

definition drift_note :: "string \<Rightarrow> string \<Rightarrow> drift \<Rightarrow> drift" where
  "drift_note kind key d =
     (if length (d_Samples d) < 5 then d\<lparr>d_Samples := d_Samples d @ [kind @ '' '' @ key]\<rparr> else d)"

definition cmp_incoming :: "string \<Rightarrow> ('v \<Rightarrow> 'v \<Rightarrow> bool) \<Rightarrow> 'v fact_map \<Rightarrow> drift \<Rightarrow> string \<times> 'v \<Rightarrow> drift" where
  "cmp_incoming kind eq held d e =
     (case e of (k, m) \<Rightarrow>
        (case map_of held k of
           None \<Rightarrow> drift_note kind k (d\<lparr>d_Missing := d_Missing d + 1\<rparr>)
         | Some old \<Rightarrow> if \<not> eq old m then drift_note kind k (d\<lparr>d_Changed := d_Changed d + 1\<rparr>) else d))"

definition cmp_held :: "string \<Rightarrow> 'v fact_map \<Rightarrow> drift \<Rightarrow> string \<Rightarrow> drift" where
  "cmp_held kind incoming d k =
     (if map_of incoming k = None then drift_note kind k (d\<lparr>d_Extra := d_Extra d + 1\<rparr>) else d)"

definition cmp_kind ::
  "string \<Rightarrow> ('v \<Rightarrow> 'v \<Rightarrow> bool) \<Rightarrow> ('v \<Rightarrow> string) \<Rightarrow> 'v fact_map \<Rightarrow> 'v list \<Rightarrow> drift \<Rightarrow> drift" where
  "cmp_kind kind eq key held came d =
     (let incoming = foldl (\<lambda>m v. AList.update (key v) v m) [] came
      in foldl (cmp_held kind incoming) (foldl (cmp_incoming kind eq held) d incoming) (map fst held))"

definition CheckDrift :: "proto_ops \<Rightarrow> state \<Rightarrow> sync_msg \<Rightarrow> drift" where
  "CheckDrift ops s full =
     (let d = \<lparr>d_Missing = 0, d_Extra = 0, d_Changed = 0, d_Samples = []\<rparr>;
          d = cmp_kind ''node'' (eq_node ops) nf_Key (s_Nodes s) (sy_Nodes full) d;
          d = cmp_kind ''namespace'' (eq_ns ops) ns_Key (s_Namespaces s) (sy_Namespaces full) d
      in cmp_kind ''workload'' (eq_wl ops) wl_Key (s_Workloads s) (sy_Workloads full) d)"

definition drift_counts :: "drift \<Rightarrow> int \<times> int \<times> int" where
  "drift_counts d = (d_Missing d, d_Extra d, d_Changed d)"

text \<open>What one kind's drift is, over the two maps.\<close>

definition kind_drift :: "('v \<Rightarrow> 'v \<Rightarrow> bool) \<Rightarrow> (string \<rightharpoonup> 'v) \<Rightarrow> (string \<rightharpoonup> 'v) \<Rightarrow> int \<times> int \<times> int" where
  "kind_drift eq held came =
     (int (card (dom came - dom held)), int (card (dom held - dom came)),
      int (card {k \<in> dom came \<inter> dom held. \<not> eq (the (held k)) (the (came k))}))"

definition plus3 :: "int \<times> int \<times> int \<Rightarrow> int \<times> int \<times> int \<Rightarrow> int \<times> int \<times> int" where
  "plus3 a b = (fst a + fst b, fst (snd a) + fst (snd b), snd (snd a) + snd (snd b))"

lemma note_counts: "drift_counts (drift_note kind k d) = drift_counts d"
  by (simp add: drift_note_def drift_counts_def)

lemma note_samples: "length (d_Samples d) \<le> 5 \<Longrightarrow> length (d_Samples (drift_note kind k d)) \<le> 5"
  by (simp add: drift_note_def)

lemma cmp_incoming_counts:
  "drift_counts (foldl (cmp_incoming kind eq held) d es) =
     plus3 (drift_counts d)
       (int (length (filter (\<lambda>(k, v). map_of held k = None) es)), 0,
        int (length (filter (\<lambda>(k, v). \<exists>o'. map_of held k = Some o' \<and> \<not> eq o' v) es)))"
proof (induction es arbitrary: d)
  case (Cons e es)
  obtain k v where e: "e = (k, v)" by (cases e)
  have "drift_counts (cmp_incoming kind eq held d e) = plus3 (drift_counts d)
     (if map_of held k = None then 1 else 0, 0, if \<exists>o'. map_of held k = Some o' \<and> \<not> eq o' v then 1 else 0)"
    by (auto simp: e cmp_incoming_def note_counts plus3_def drift_counts_def drift_note_def split: option.splits)
  then show ?case by (auto simp: Cons.IH plus3_def e)
qed (simp add: plus3_def)

lemma cmp_held_counts:
  "drift_counts (foldl (cmp_held kind incoming) d ks) =
     plus3 (drift_counts d) (0, int (length (filter (\<lambda>k. map_of incoming k = None) ks)), 0)"
proof (induction ks arbitrary: d)
  case (Cons k ks)
  have "drift_counts (cmp_held kind incoming d k) = plus3 (drift_counts d) (0, if map_of incoming k = None then 1 else 0, 0)"
    by (auto simp: cmp_held_def note_counts plus3_def drift_counts_def drift_note_def)
  then show ?case by (auto simp: Cons.IH plus3_def)
qed (simp add: plus3_def)

lemma length_filter_keys: "distinct (map fst es) \<Longrightarrow> length (filter P es) = card (fst ` set (filter P es))"
  by (metis distinct_card distinct_map_filter length_map list.set_map)

lemma length_filter_entries:
  assumes "distinct (map fst es)"
  shows "length (filter (\<lambda>(k, v). P k v) es) = card {k \<in> dom (map_of es). P k (the (map_of es k))}"
proof -
  have "length (filter (\<lambda>(k, v). P k v) es) = card (fst ` set (filter (\<lambda>(k, v). P k v) es))"
    using assms by (rule length_filter_keys)
  also have "fst ` set (filter (\<lambda>(k, v). P k v) es) = {k \<in> dom (map_of es). P k (the (map_of es k))}"
    using assms by (force simp: image_iff dest: map_of_SomeD map_of_is_SomeI)
  finally show ?thesis .
qed

lemma cmp_kind_counts:
  assumes "distinct_keys held"
  shows "drift_counts (cmp_kind kind eq key held came d)
    = plus3 (drift_counts d) (kind_drift eq (map_of held) (added_map key came))"
proof -
  define inc where "inc = foldl (\<lambda>m v. AList.update (key v) v m) [] came"
  have inc: "distinct (map fst inc)" "map_of inc = added_map key came"
    using added_sizes [of key id came] by (simp_all add: inc_def option.map_id [unfolded id_def] id_def)
  have held: "distinct (map fst held)" using assms by (simp add: distinct_keys_def)
  have miss: "{k \<in> dom (map_of inc). map_of held k = None} = dom (map_of inc) - dom (map_of held)" by auto
  have chg: "{k \<in> dom (map_of inc). \<exists>o'. map_of held k = Some o' \<and> \<not> eq o' (the (map_of inc k))}
     = {k \<in> dom (map_of inc) \<inter> dom (map_of held). \<not> eq (the (map_of held k)) (the (map_of inc k))}" by auto
  have ext: "length (filter (\<lambda>k. map_of inc k = None) (map fst held)) = card (dom (map_of held) - dom (map_of inc))"
  proof -
    have "set (filter (\<lambda>k. map_of inc k = None) (map fst held)) = dom (map_of held) - dom (map_of inc)"
      unfolding dom_map_of_conv_image_fst by (auto simp: map_of_eq_None_iff)
    then show ?thesis using held by (metis distinct_card distinct_filter)
  qed
  then have ext': "length (filter ((\<lambda>k. map_of inc k = None) \<circ> fst) held) = card (dom (map_of held) - dom (map_of inc))"
    by (simp add: filter_map)
  show ?thesis
    unfolding cmp_kind_def Let_def inc_def [symmetric] cmp_held_counts cmp_incoming_counts
    by (simp add: length_filter_entries [OF inc(1), of "\<lambda>k v. map_of held k = None"] miss ext ext'
        length_filter_entries [OF inc(1), of "\<lambda>k v. \<exists>o'. map_of held k = Some o' \<and> \<not> eq o' v"] chg
        kind_drift_def plus3_def inc(2)[symmetric])
qed

lemma CheckDrift_counts:
  assumes "state_wf ops s"
  shows "drift_counts (CheckDrift ops s full) =
    plus3 (plus3 (kind_drift (eq_node ops) (map_of (s_Nodes s)) (added_map nf_Key (sy_Nodes full)))
      (kind_drift (eq_ns ops) (map_of (s_Namespaces s)) (added_map ns_Key (sy_Namespaces full))))
      (kind_drift (eq_wl ops) (map_of (s_Workloads s)) (added_map wl_Key (sy_Workloads full)))"
  using assms by (simp add: CheckDrift_def Let_def cmp_kind_counts state_wf_def kind_wf_def)
    (simp add: plus3_def drift_counts_def)

lemma kind_drift_self: "(\<And>v. eq v v) \<Longrightarrow> kind_drift eq f f = (0, 0, 0)"
  by (simp add: kind_drift_def)

lemma cmp_kind_samples: "length (d_Samples d) \<le> 5 \<Longrightarrow> length (d_Samples (cmp_kind kind eq key held came d)) \<le> 5"
proof -
  have inc: "length (d_Samples (foldl (cmp_incoming kind eq held) d es)) \<le> 5" if "length (d_Samples d) \<le> 5" for d es
    using that
  proof (induction es arbitrary: d)
    case (Cons e es)
    have "length (d_Samples (cmp_incoming kind eq held d e)) \<le> 5"
      using Cons.prems by (auto simp: cmp_incoming_def drift_note_def split: option.splits prod.splits)
    then show ?case by (simp add: Cons.IH)
  qed simp
  have held: "length (d_Samples (foldl (cmp_held kind i) d ks)) \<le> 5" if "length (d_Samples d) \<le> 5" for d i ks
    using that
  proof (induction ks arbitrary: d)
    case (Cons k ks)
    have "length (d_Samples (cmp_held kind i d k)) \<le> 5" using Cons.prems by (auto simp: cmp_held_def drift_note_def)
    then show ?case by (simp add: Cons.IH)
  qed simp
  assume "length (d_Samples d) \<le> 5"
  then show ?thesis by (simp add: cmp_kind_def Let_def inc held)
qed

text \<open>
  C29. \<open>CheckDrift\<close> counts exactly, over the three kinds together: what the agent's picture has and the state does
  not (missing), what the state has and the picture does not (extra), and the entities both hold in different forms
  (changed), with at most five samples; and once the full picture is applied (its deletions, none in a full message,
  aside) a second comparison finds nothing.
\<close>

theorem drift_exact_and_repaired:
  assumes "state_wf ops s"
  shows "drift_counts (CheckDrift ops s full) =
      plus3 (plus3 (kind_drift (eq_node ops) (map_of (s_Nodes s)) (added_map nf_Key (sy_Nodes full)))
        (kind_drift (eq_ns ops) (map_of (s_Namespaces s)) (added_map ns_Key (sy_Namespaces full))))
        (kind_drift (eq_wl ops) (map_of (s_Workloads s)) (added_map wl_Key (sy_Workloads full)))
    \<and> length (d_Samples (CheckDrift ops s full)) \<le> 5
    \<and> (sy_Full full \<longrightarrow> sy_DeletedNodes full = [] \<longrightarrow> sy_DeletedNamespaces full = [] \<longrightarrow> sy_DeletedWorkloads full = []
        \<longrightarrow> (\<forall>v. eq_node ops v v) \<longrightarrow> (\<forall>v. eq_ns ops v v) \<longrightarrow> (\<forall>v. eq_wl ops v v)
        \<longrightarrow> drift_Total (CheckDrift ops (Apply ops s full) full) = 0)"
proof (intro conjI impI)
  show "drift_counts (CheckDrift ops s full) =
      plus3 (plus3 (kind_drift (eq_node ops) (map_of (s_Nodes s)) (added_map nf_Key (sy_Nodes full)))
        (kind_drift (eq_ns ops) (map_of (s_Namespaces s)) (added_map ns_Key (sy_Namespaces full))))
        (kind_drift (eq_wl ops) (map_of (s_Workloads s)) (added_map wl_Key (sy_Workloads full)))"
    by (rule CheckDrift_counts [OF assms])
  show "length (d_Samples (CheckDrift ops s full)) \<le> 5"
    by (simp add: CheckDrift_def Let_def cmp_kind_samples)
  assume full: "sy_Full full" "sy_DeletedNodes full = []" "sy_DeletedNamespaces full = []" "sy_DeletedWorkloads full = []"
    and refl: "\<forall>v. eq_node ops v v" "\<forall>v. eq_ns ops v v" "\<forall>v. eq_wl ops v v"
  have wf: "state_wf ops (Apply ops s full)" using assms by (rule Apply_wf)
  have maps: "map_of (s_Nodes (Apply ops s full)) = added_map nf_Key (sy_Nodes full)"
    "map_of (s_Namespaces (Apply ops s full)) = added_map ns_Key (sy_Namespaces full)"
    "map_of (s_Workloads (Apply ops s full)) = added_map wl_Key (sy_Workloads full)"
    using assms by (simp_all add: Apply_fields full merge_kind_merged(3) merged_def state_wf_def kind_wf_def)
  have "drift_counts (CheckDrift ops (Apply ops s full) full) = (0, 0, 0)"
    unfolding CheckDrift_counts [OF wf] maps by (simp add: kind_drift_self refl plus3_def)
  then show "drift_Total (CheckDrift ops (Apply ops s full) full) = 0"
    by (simp add: drift_Total_def drift_counts_def)
qed

theorem drift_exact_and_repaired_witness:
  "length (d_Samples (CheckDrift demo_ops New demo_sync)) \<le> 5"
  using drift_exact_and_repaired [OF New_wf, of demo_ops demo_sync] by blast

subsection \<open>Cutting what is too large\<close>

abbreviation MaxString :: nat where "MaxString \<equiv> 1024"
abbreviation MaxMapValue :: nat where "MaxMapValue \<equiv> 1024"
abbreviation MaxMapEntries :: nat where "MaxMapEntries \<equiv> 1000"
abbreviation MaxRepeated :: nat where "MaxRepeated \<equiv> 5000"
abbreviation maxDepth :: nat where "maxDepth \<equiv> 8"

text \<open>\<open>utf8.RuneStart\<close>: a byte that is not a continuation byte.\<close>

definition RuneStart :: "char \<Rightarrow> bool" where
  "RuneStart c = (let n = of_char c :: nat in \<not> (128 \<le> n \<and> n < 192))"

fun cut_index :: "string \<Rightarrow> nat \<Rightarrow> nat" where
  "cut_index s 0 = 0"
| "cut_index s (Suc n) = (if RuneStart (s ! Suc n) then Suc n else cut_index s n)"

definition Cut :: "string \<Rightarrow> nat \<Rightarrow> string" where
  "Cut s n = (if length s \<le> n then s else take (cut_index s n) s)"

text \<open>
  A message as reflection shows it: its populated fields in the order \<open>Range\<close> visits them. A map field says
  whether its keys are strings; its entries' keys are given in their printed form. Scalars carry their text.
\<close>

datatype msg = Msg "(string \<times> field) list"
and field =
    FScalar string
  | FStr string
  | FMessage msg
  | FScalars "string list"
  | FStrings "string list"
  | FMessages "msg list"
  | FScalarMap bool "(string \<times> string) list"
  | FStrMap bool "(string \<times> string) list"
  | FMsgMap bool "(string \<times> msg) list"

definition keep_first :: "(string \<times> 'a) list \<Rightarrow> (string \<times> 'a) list" where
  "keep_first es =
     (if length es > MaxMapEntries
      then filter (\<lambda>(k, _). k \<in> set (take MaxMapEntries (sort (map fst es)))) es else es)"

definition long_key :: "bool \<Rightarrow> string \<Rightarrow> bool" where
  "long_key str_key k \<longleftrightarrow> str_key \<and> length k > MaxString"

definition drop_long_keys :: "bool \<Rightarrow> (string \<times> 'a) list \<Rightarrow> (string \<times> 'a) list" where
  "drop_long_keys str_key es = filter (\<lambda>(k, _). \<not> long_key str_key k) es"

fun walk :: "nat \<Rightarrow> msg \<Rightarrow> msg option"
and walk_fields :: "nat \<Rightarrow> (string \<times> field) list \<Rightarrow> (string \<times> field) list option"
and walk_field :: "nat \<Rightarrow> field \<Rightarrow> field option"
and walk_msgs :: "nat \<Rightarrow> nat \<Rightarrow> msg list \<Rightarrow> msg list option"
and walk_entries :: "nat \<Rightarrow> bool \<Rightarrow> (string \<times> msg) list \<Rightarrow> (string \<times> msg) list option" where
  "walk depth (Msg fs) = (if depth > maxDepth then None else map_option Msg (walk_fields depth fs))"
| "walk_fields depth [] = Some []"
| "walk_fields depth ((n, f) # fs) =
     (case walk_field depth f of None \<Rightarrow> None
      | Some f' \<Rightarrow> map_option (\<lambda>fs'. (n, f') # fs') (walk_fields depth fs))"
| "walk_field depth (FScalar s) = Some (FScalar s)"
| "walk_field depth (FStr s) = Some (FStr (if length s > MaxString then Cut s MaxString else s))"
| "walk_field depth (FMessage m) = map_option FMessage (walk (depth + 1) m)"
| "walk_field depth (FScalars ss) = Some (FScalars (take MaxRepeated ss))"
| "walk_field depth (FStrings ss) =
     Some (FStrings (map (\<lambda>s. if length s > MaxString then Cut s MaxString else s) (take MaxRepeated ss)))"
| "walk_field depth (FMessages ms) = map_option FMessages (walk_msgs depth MaxRepeated ms)"
| "walk_field depth (FScalarMap sk es) = Some (FScalarMap sk (keep_first (drop_long_keys sk es)))"
| "walk_field depth (FStrMap sk es) =
     Some (FStrMap sk (keep_first (map (\<lambda>(k, s). (k, if length s > MaxMapValue then Cut s MaxMapValue else s))
                                     (drop_long_keys sk es))))"
| "walk_field depth (FMsgMap sk es) = map_option (\<lambda>es'. FMsgMap sk (keep_first es')) (walk_entries depth sk es)"
| "walk_msgs depth n [] = Some []"
| "walk_msgs depth n (m # ms) =
     (if n = 0 then Some []
      else (case walk (depth + 1) m of None \<Rightarrow> None
            | Some m' \<Rightarrow> map_option (\<lambda>ms'. m' # ms') (walk_msgs depth (n - 1) ms)))"
| "walk_entries depth sk [] = Some []"
| "walk_entries depth sk ((k, m) # es) =
     (if long_key sk k then walk_entries depth sk es
      else (case walk (depth + 1) m of None \<Rightarrow> None
            | Some m' \<Rightarrow> map_option (\<lambda>es'. (k, m') # es') (walk_entries depth sk es)))"

definition Sanitize :: "msg \<Rightarrow> msg option" where
  "Sanitize m = walk 0 m"

record sync_tree =
  st_Cluster :: "msg option"
  st_Nodes :: "msg list"
  st_Namespaces :: "msg list"
  st_Workloads :: "msg list"
  st_Modules :: "msg list"
  st_DeletedNodes :: "string list"
  st_DeletedNamespaces :: "string list"
  st_DeletedWorkloads :: "string list"

fun sanitize_all :: "msg list \<Rightarrow> msg list option" where
  "sanitize_all [] = Some []"
| "sanitize_all (m # ms) =
     (case Sanitize m of None \<Rightarrow> None | Some m' \<Rightarrow> map_option (\<lambda>ms'. m' # ms') (sanitize_all ms))"

definition drop_long :: "string list \<Rightarrow> string list" where
  "drop_long ks = filter (\<lambda>k. \<not> length k > MaxString) ks"

definition SanitizeSync :: "sync_tree \<Rightarrow> sync_tree option" where
  "SanitizeSync t =
     (case sanitize_all (case st_Cluster t of None \<Rightarrow> [] | Some c \<Rightarrow> [c]) of None \<Rightarrow> None | Some c \<Rightarrow>
      case sanitize_all (st_Nodes t) of None \<Rightarrow> None | Some ns \<Rightarrow>
      case sanitize_all (st_Namespaces t) of None \<Rightarrow> None | Some ss \<Rightarrow>
      case sanitize_all (st_Workloads t) of None \<Rightarrow> None | Some ws \<Rightarrow>
      case sanitize_all (st_Modules t) of None \<Rightarrow> None | Some ms \<Rightarrow>
      Some \<lparr>st_Cluster = (case c of [] \<Rightarrow> None | x # _ \<Rightarrow> Some x), st_Nodes = ns, st_Namespaces = ss, st_Workloads = ws,
        st_Modules = ms, st_DeletedNodes = drop_long (st_DeletedNodes t),
        st_DeletedNamespaces = drop_long (st_DeletedNamespaces t),
        st_DeletedWorkloads = drop_long (st_DeletedWorkloads t)\<rparr>)"

text \<open>The bounds every part of a message has to keep, down to the depth allowed.\<close>

definition bounded_map :: "bool \<Rightarrow> (string \<times> 'a) list \<Rightarrow> bool" where
  "bounded_map sk es \<longleftrightarrow> length es \<le> MaxMapEntries \<and> list_all (\<lambda>(k, _). \<not> long_key sk k) es"

fun bounded :: "nat \<Rightarrow> msg \<Rightarrow> bool"
and bounded_fields :: "nat \<Rightarrow> (string \<times> field) list \<Rightarrow> bool"
and bounded_field :: "nat \<Rightarrow> field \<Rightarrow> bool"
and bounded_msgs :: "nat \<Rightarrow> msg list \<Rightarrow> bool"
and bounded_entries :: "nat \<Rightarrow> (string \<times> msg) list \<Rightarrow> bool" where
  "bounded depth (Msg fs) = (depth \<le> maxDepth \<and> bounded_fields depth fs)"
| "bounded_fields depth [] = True"
| "bounded_fields depth ((n, f) # fs) = (bounded_field depth f \<and> bounded_fields depth fs)"
| "bounded_field depth (FScalar s) = True"
| "bounded_field depth (FStr s) = (length s \<le> MaxString)"
| "bounded_field depth (FMessage m) = bounded (depth + 1) m"
| "bounded_field depth (FScalars ss) = (length ss \<le> MaxRepeated)"
| "bounded_field depth (FStrings ss) = (length ss \<le> MaxRepeated \<and> list_all (\<lambda>s. length s \<le> MaxString) ss)"
| "bounded_field depth (FMessages ms) = (length ms \<le> MaxRepeated \<and> bounded_msgs depth ms)"
| "bounded_field depth (FScalarMap sk es) = bounded_map sk es"
| "bounded_field depth (FStrMap sk es) = (bounded_map sk es \<and> list_all (\<lambda>(k, s). length s \<le> MaxMapValue) es)"
| "bounded_field depth (FMsgMap sk es) = (bounded_map sk es \<and> bounded_entries depth es)"
| "bounded_msgs depth [] = True"
| "bounded_msgs depth (m # ms) = (bounded (depth + 1) m \<and> bounded_msgs depth ms)"
| "bounded_entries depth [] = True"
| "bounded_entries depth ((k, m) # es) = (bounded (depth + 1) m \<and> bounded_entries depth es)"

fun map_keys_distinct :: "msg \<Rightarrow> bool"
and fields_distinct :: "(string \<times> field) list \<Rightarrow> bool"
and field_distinct :: "field \<Rightarrow> bool"
and msgs_distinct :: "msg list \<Rightarrow> bool"
and entries_distinct :: "(string \<times> msg) list \<Rightarrow> bool" where
  "map_keys_distinct (Msg fs) = fields_distinct fs"
| "fields_distinct [] = True"
| "fields_distinct ((n, f) # fs) = (field_distinct f \<and> fields_distinct fs)"
| "field_distinct (FMessage m) = map_keys_distinct m"
| "field_distinct (FMessages ms) = msgs_distinct ms"
| "field_distinct (FScalarMap sk es) = distinct (map fst es)"
| "field_distinct (FStrMap sk es) = distinct (map fst es)"
| "field_distinct (FMsgMap sk es) = (distinct (map fst es) \<and> entries_distinct es)"
| "field_distinct (FScalar s) = True"
| "field_distinct (FStr s) = True"
| "field_distinct (FScalars ss) = True"
| "field_distinct (FStrings ss) = True"
| "msgs_distinct [] = True"
| "msgs_distinct (m # ms) = (map_keys_distinct m \<and> msgs_distinct ms)"
| "entries_distinct [] = True"
| "entries_distinct ((k, m) # es) = (map_keys_distinct m \<and> entries_distinct es)"

lemma cut_index_le: "cut_index s n \<le> n"
  by (induction s n rule: cut_index.induct) auto

lemma cut_index_start: "cut_index s n \<noteq> 0 \<Longrightarrow> RuneStart (s ! cut_index s n)"
  by (induction s n rule: cut_index.induct) (auto split: if_splits)

lemma cut_index_last: "cut_index s n < j \<Longrightarrow> j \<le> n \<Longrightarrow> \<not> RuneStart (s ! j)"
  by (induction s n rule: cut_index.induct) (auto simp: le_Suc_eq split: if_splits)

lemma length_Cut: "length (Cut s n) \<le> n"
  using cut_index_le [of s n] by (simp add: Cut_def)

lemma length_cut_if [simp]: "length (if length s > n then Cut s n else s) \<le> n"
  using length_Cut by simp

lemma keep_first_small: "length es \<le> MaxMapEntries \<Longrightarrow> keep_first es = es"
  by (simp add: keep_first_def)

lemma keep_first_subset: "set (keep_first es) \<subseteq> set es"
  by (auto simp: keep_first_def)

lemma length_keep_first: "distinct (map fst es) \<Longrightarrow> length (keep_first es) \<le> MaxMapEntries"
proof (cases "length es > MaxMapEntries")
  case True
  assume d: "distinct (map fst es)"
  let ?K = "set (take MaxMapEntries (sort (map fst es)))"
  have "keep_first es = filter (\<lambda>(k, _). k \<in> ?K) es" using True by (simp add: keep_first_def)
  then have "length (keep_first es) = card (fst ` set (filter (\<lambda>(k, _). k \<in> ?K) es))"
    by (simp only: length_filter_keys [OF d])
  also have "\<dots> \<le> card ?K" by (intro card_mono) auto
  also have "\<dots> \<le> MaxMapEntries" using card_length [of "take MaxMapEntries (sort (map fst es))"] by simp
  finally show ?thesis .
qed (simp add: keep_first_def)

lemma distinct_drop_long_keys: "distinct (map fst es) \<Longrightarrow> distinct (map fst (drop_long_keys sk es))"
  by (simp add: drop_long_keys_def distinct_map_filter)

lemma keep_first_bounded:
  assumes "distinct (map fst es)" "list_all (\<lambda>(k, _). \<not> long_key sk k) es"
  shows "bounded_map sk (keep_first es)"
  using length_keep_first [OF assms(1)] assms(2) keep_first_subset [of es]
  by (auto simp: bounded_map_def list_all_iff)

lemma drop_long_keys_ok: "list_all (\<lambda>(k, _). \<not> long_key sk k) (drop_long_keys sk es)"
  by (simp add: drop_long_keys_def list_all_iff)

lemma bounded_msgs_iff: "bounded_msgs d ms = list_all (bounded (d + 1)) ms"
  by (induction ms) auto

lemma bounded_entries_iff: "bounded_entries d es = list_all (\<lambda>(k, m). bounded (d + 1) m) es"
  by (induction es) auto

lemma list_all_bounded: "list_all P xs \<Longrightarrow> list_all P (keep_first xs)"
  using keep_first_subset [of xs] by (auto simp: list_all_iff)

lemma walk_entries_keys:
  "walk_entries d sk es = Some es' \<Longrightarrow> map fst es' = map fst (drop_long_keys sk es)"
  by (induction es arbitrary: es')
    (auto simp: drop_long_keys_def split: if_splits option.splits)

lemma drop_long_keys_none: "list_all (\<lambda>(k, _). \<not> long_key sk k) es \<Longrightarrow> drop_long_keys sk es = es"
  by (simp add: drop_long_keys_def list_all_iff)

lemma walk_length_msgs: "walk_msgs d n ms = Some ms' \<Longrightarrow> length ms' \<le> n"
proof (induction ms arbitrary: n ms')
  case (Cons m ms)
  show ?case
  proof (cases n)
    case (Suc k)
    then show ?thesis using Cons by (auto split: option.splits)
  qed (use Cons.prems in simp)
qed simp

text \<open>What \<open>walk\<close> returns is within the bounds; what is within them it returns unchanged.\<close>

lemma walk_bounds:
  "walk d m = Some m' \<Longrightarrow> map_keys_distinct m \<Longrightarrow> bounded d m'"
  "walk_fields d fs = Some fs' \<Longrightarrow> fields_distinct fs \<Longrightarrow> bounded_fields d fs'"
  "walk_field d f = Some f' \<Longrightarrow> field_distinct f \<Longrightarrow> bounded_field d f'"
  "walk_msgs d n ms = Some ms' \<Longrightarrow> msgs_distinct ms \<Longrightarrow> bounded_msgs d ms'"
  "walk_entries d sk es = Some es' \<Longrightarrow> entries_distinct es \<Longrightarrow> bounded_entries d es'"
proof (induction d m and d fs and d f and d n ms and d sk es arbitrary: m' and fs' and f' and ms' and es'
    rule: walk_walk_fields_walk_field_walk_msgs_walk_entries.induct)
  case (9 depth ms)
  then show ?case by (auto dest: walk_length_msgs)
next
  case (11 depth sk es)
  let ?es = "map (\<lambda>(k, s). (k, if length s > MaxMapValue then Cut s MaxMapValue else s)) (drop_long_keys sk es)"
  have keys: "map fst ?es = map fst (drop_long_keys sk es)" by (simp add: case_prod_beta)
  have "list_all (\<lambda>(k, _). \<not> long_key sk k) ?es"
    using drop_long_keys_ok [of sk es] by (auto simp: list_all_iff)
  moreover have "distinct (map fst ?es)" using 11 unfolding keys by (simp add: distinct_drop_long_keys)
  ultimately have "bounded_map sk (keep_first ?es)" by (rule keep_first_bounded [rotated])
  moreover have "list_all (\<lambda>(k, s). length s \<le> MaxMapValue) (keep_first ?es)"
    using length_Cut by (intro list_all_bounded) (auto simp: list_all_iff)
  moreover have "f' = FStrMap sk (keep_first ?es)" using 11 by simp
  ultimately show ?case by simp
next
  case (12 depth sk es)
  then obtain es' where w: "walk_entries depth sk es = Some es'" and f': "f' = FMsgMap sk (keep_first es')" by auto
  note keys = walk_entries_keys [OF w]
  have "list_all (\<lambda>(k, _). \<not> long_key sk k) es'"
    using keys drop_long_keys_ok [of sk es] by (simp add: list_all_length case_prod_beta) (metis length_map nth_map)
  moreover have "distinct (map fst es')" using 12 unfolding keys by (simp add: distinct_drop_long_keys)
  moreover have "list_all (\<lambda>(k, m). bounded (depth + 1) m) es'"
    using 12 w by (simp add: bounded_entries_iff)
  ultimately show ?case
    by (auto simp: f' bounded_entries_iff intro: keep_first_bounded list_all_bounded)
qed (auto simp: list_all_iff length_Cut intro: keep_first_bounded [OF distinct_drop_long_keys drop_long_keys_ok]
    split: if_splits option.splits)

lemma walk_fixed:
  "bounded d m \<Longrightarrow> walk d m = Some m"
  "bounded_fields d fs \<Longrightarrow> walk_fields d fs = Some fs"
  "bounded_field d f \<Longrightarrow> walk_field d f = Some f"
  "length ms \<le> n \<Longrightarrow> bounded_msgs d ms \<Longrightarrow> walk_msgs d n ms = Some ms"
  "list_all (\<lambda>(k, _). \<not> long_key sk k) es \<Longrightarrow> bounded_entries d es \<Longrightarrow> walk_entries d sk es = Some es"
proof (induction d m and d fs and d f and d n ms and d sk es
    rule: walk_walk_fields_walk_field_walk_msgs_walk_entries.induct)
  case (11 depth sk es)
  have "map (\<lambda>(k, s). (k, if length s > MaxMapValue then Cut s MaxMapValue else s)) es = es"
    using 11 by (intro map_idI) (auto simp: list_all_iff)
  then show ?case using 11 by (simp add: bounded_map_def drop_long_keys_none keep_first_small)
next
  case (8 depth ss)
  have "map (\<lambda>s. if length s > MaxString then Cut s MaxString else s) ss = ss"
    using 8 by (intro map_idI) (auto simp: list_all_iff)
  then show ?case using 8 by simp
qed (auto simp: bounded_map_def drop_long_keys_none keep_first_small list_all_iff)


text \<open>
  C31. Sanitizing bounds a message and leaves a bounded one alone: whatever \<open>Sanitize\<close> returns (for a message whose
  maps have distinct keys, as maps do) has every string, map key and value, map and list within the limits at every
  depth; a message within them is returned unchanged, so sanitizing twice, on the agent and on the server, is
  sanitizing once.
\<close>

theorem sanitize_bounds:
  assumes "map_keys_distinct m"
  shows "(\<forall>m'. Sanitize m = Some m' \<longrightarrow> bounded 0 m' \<and> Sanitize m' = Some m') \<and> (bounded 0 m \<longrightarrow> Sanitize m = Some m)"
  using walk_bounds(1) [of 0 m, OF _ assms] walk_fixed(1) [of 0] by (auto simp: Sanitize_def)

theorem sanitize_bounds_witness:
  "\<exists>m'. Sanitize (Msg [(''uid'', FStr (replicate 2000 CHR ''a''))]) = Some m' \<and> bounded 0 m'"
proof -
  have "Sanitize (Msg [(''uid'', FStr (replicate 2000 CHR ''a''))])
      = Some (Msg [(''uid'', FStr (Cut (replicate 2000 CHR ''a'') MaxString))])"
    by (simp add: Sanitize_def)
  then show ?thesis
    using sanitize_bounds [of "Msg [(''uid'', FStr (replicate 2000 CHR ''a''))]"] by auto
qed

text \<open>
  \<open>Cut\<close> returns a prefix of at most \<open>n\<close> bytes: the whole string when it fits, otherwise one that ends where a
  character starts (or is empty), and the longest such prefix.
\<close>

theorem cut_longest_prefix:
  "prefix (Cut s n) s \<and> length (Cut s n) \<le> n \<and> (length s \<le> n \<longrightarrow> Cut s n = s) \<and>
   (n < length s \<longrightarrow>
      (Cut s n = [] \<or> RuneStart (s ! length (Cut s n))) \<and>
      (\<forall>j. length (Cut s n) < j \<and> j \<le> n \<longrightarrow> \<not> RuneStart (s ! j)))"
proof (cases "length s \<le> n")
  case False
  then have len: "length (Cut s n) = cut_index s n" using cut_index_le [of s n] by (simp add: Cut_def)
  moreover have "Cut s n = [] \<or> RuneStart (s ! cut_index s n)"
    using cut_index_start [of s n] len by (cases "cut_index s n = 0") auto
  ultimately show ?thesis
    using False cut_index_last [of s n] cut_index_le [of s n] by (auto simp: Cut_def take_is_prefix)
qed (simp add: Cut_def)

theorem cut_longest_prefix_witness:
  "length (Cut [CHR ''a'', CHR 0xC3, CHR 0xA9] 2) \<le> 2 \<and> Cut [CHR ''a'', CHR 0xC3, CHR 0xA9] 2 = ''a''"
proof
  show "length (Cut [CHR ''a'', CHR 0xC3, CHR 0xA9] 2) \<le> 2"
    using cut_longest_prefix [of "[CHR ''a'', CHR 0xC3, CHR 0xA9]" 2] by blast
  show "Cut [CHR ''a'', CHR 0xC3, CHR 0xA9] 2 = ''a''" by code_simp
qed

subsection \<open>Mesh markers\<close>

text \<open>\<open>PortExcluded\<close>: entries such as \<open>out:5432\<close> or \<open>in:8000-8100\<close>.\<close>

fun PortExcluded :: "string list \<Rightarrow> string \<Rightarrow> int \<Rightarrow> bool" where
  "PortExcluded [] dir port = False"
| "PortExcluded (e # es) dir port =
     (case cut_at CHR '':'' e of (d, spec, ok) \<Rightarrow>
        if \<not> ok \<or> d \<noteq> dir \<or> spec = [] then PortExcluded es dir port
        else (case cut_at CHR ''-'' spec of (lo, hi, ok) \<Rightarrow>
          case atoi lo of None \<Rightarrow> PortExcluded es dir port | Some a \<Rightarrow>
            if \<not> ok then (if port = a then True else PortExcluded es dir port)
            else (case atoi hi of None \<Rightarrow> PortExcluded es dir port | Some b \<Rightarrow>
              if port \<ge> a \<and> port \<le> b then True else PortExcluded es dir port)))"

lemma port_excluded_append: "PortExcluded (es @ fs) dir port = (PortExcluded es dir port \<or> PortExcluded fs dir port)"
  by (induction es) (auto split: prod.splits option.splits)

definition marker :: "(string \<rightharpoonup> string) \<Rightarrow> string \<Rightarrow> string" where
  "marker m k = (case m k of None \<Rightarrow> [] | Some v \<Rightarrow> v)"

definition NamespaceMesh :: "(string \<rightharpoonup> string) \<Rightarrow> (string \<rightharpoonup> string) \<Rightarrow> string \<times> string \<times> bool" where
  "NamespaceMesh labels annotations =
     (if equal_fold (marker labels ''istio.io/dataplane-mode'') ''ambient'' then (''istio'', ''ambient'', False)
      else if equal_fold (marker labels ''istio-injection'') ''enabled'' \<or> marker labels ''istio.io/rev'' \<noteq> []
        then (''istio'', ''sidecar'', False)
      else if equal_fold (marker labels ''istio-injection'') ''disabled'' then (''istio'', [], True)
      else if equal_fold (marker annotations ''linkerd.io/inject'') ''enabled''
           \<or> equal_fold (marker annotations ''linkerd.io/inject'') ''ingress'' then (''linkerd'', ''sidecar'', False)
      else if equal_fold (marker annotations ''linkerd.io/inject'') ''disabled'' then (''linkerd'', [], True)
      else if equal_fold (marker annotations ''consul.hashicorp.com/connect-inject'') ''true''
        then (''consul'', ''sidecar'', False)
      else if equal_fold (marker labels ''kuma.io/sidecar-injection'') ''enabled''
           \<or> equal_fold (marker annotations ''kuma.io/sidecar-injection'') ''enabled'' then (''kuma'', ''sidecar'', False)
      else ([], [], False))"

lemma namespace_mesh_off: "NamespaceMesh labels annotations = (mesh, proxy, True) \<Longrightarrow> mesh \<noteq> [] \<and> proxy = []"
  by (auto simp: NamespaceMesh_def split: if_splits)

end
