(* ===== verification/Consent.thy ===== *)
theory Consent
  imports Wire
begin

text \<open>
  What an agent may share and who may change that: the consent an administrator puts on an agent and the cutting of
  its picture to consent and tier (\<open>agents/consent.go\<close>), the limits on a tier (\<open>agents/tier.go\<close>), resolving a
  proposed change (\<open>agents/access_change.go\<close>), the conditions shown for an agent (\<open>agents/conditions.go\<close>) and
  the decision on a caller's standing (\<open>accounts/policy.go\<close>). Refusals carry what their sentences carry.
\<close>

subsection \<open>Consent\<close>

record consent =
  co_Paused :: "string list"
  co_Excluded :: "string list"

definition collectorNames :: "string list" where
  "collectorNames = [''probes'', ''flow'', ''measure'']"

definition Has :: "consent \<Rightarrow> string \<Rightarrow> bool" where
  "Has c name = list_ex (\<lambda>p. p = name) (co_Paused c)"

definition systemNS :: "string \<Rightarrow> bool" where
  "systemNS ns = (ns = ''kube-system'' \<or> ns = ''kube-public'' \<or> ns = ''kube-node-lease'')"

definition MaxExcluded :: nat where "MaxExcluded = 200"

text \<open>\<open>kernel.NsNameRe\<close>, \<open>^[a-z0-9]([-a-z0-9]{0,61}[a-z0-9])?$\<close>.\<close>

definition name_byte :: "char \<Rightarrow> bool" where
  "name_byte c = (let n = of_char c :: nat in (97 \<le> n \<and> n \<le> 122) \<or> (48 \<le> n \<and> n \<le> 57))"

definition NsName :: "string \<Rightarrow> bool" where
  "NsName s = (s \<noteq> [] \<and> length s \<le> 63 \<and> name_byte (hd s) \<and> name_byte (last s)
     \<and> list_all (\<lambda>c. name_byte c \<or> c = CHR ''-'') s)"

datatype consent_error = NotACollector string | BadNamespace string | SystemNamespace string | TooManyExcluded

text \<open>The two loops of \<open>CleanConsent\<close>; \<open>out\<close> holds what was appended so far, and is what \<open>seen\<close> holds too.\<close>

fun clean_paused :: "string list \<Rightarrow> string list \<Rightarrow> consent_error + string list" where
  "clean_paused out [] = Inr out"
| "clean_paused out (p # ps) =
     (let p = to_lower (trim_space p)
      in if p \<notin> set collectorNames then Inl (NotACollector p)
         else clean_paused (if p \<in> set out then out else out @ [p]) ps)"

fun clean_excluded :: "string list \<Rightarrow> string list \<Rightarrow> consent_error + string list" where
  "clean_excluded out [] = Inr out"
| "clean_excluded out (n # ns) =
     (let n = trim_space n
      in if n = [] then clean_excluded out ns
         else if \<not> NsName n then Inl (BadNamespace n)
         else if systemNS n then Inl (SystemNamespace n)
         else clean_excluded (if n \<in> set out then out else out @ [n]) ns)"

definition CleanConsent :: "consent \<Rightarrow> consent_error + consent" where
  "CleanConsent c =
     (case clean_paused [] (co_Paused c) of Inl e \<Rightarrow> Inl e | Inr ps \<Rightarrow>
      case clean_excluded [] (co_Excluded c) of Inl e \<Rightarrow> Inl e | Inr ns \<Rightarrow>
      if length ns > MaxExcluded then Inl TooManyExcluded
      else Inr \<lparr>co_Paused = sort ps, co_Excluded = sort ns\<rparr>)"

definition NoteNamespaces :: "string list option \<Rightarrow> string list \<Rightarrow> bool \<Rightarrow> string list option" where
  "NoteNamespaces known names full =
     (let start = (if full then [] else case known of None \<Rightarrow> [] | Some ks \<Rightarrow> ks)
      in Some (foldl (\<lambda>ks n. if n \<in> set ks then ks else ks @ [n]) start names))"

definition blank_probe :: "node_facts \<Rightarrow> node_facts" where
  "blank_probe n = n\<lparr>nf_MachineId := [], nf_SystemUuid := [], nf_ProviderId := [], nf_OsImage := [],
     nf_KernelVersion := [], nf_ContainerRuntime := [], nf_KubeletVersion := [], nf_Architecture := []\<rparr>"

definition ApplyConsent :: "consent \<Rightarrow> sync_msg \<Rightarrow> sync_msg" where
  "ApplyConsent c s =
     (let s = (if Has c ''probes'' then s\<lparr>sy_Nodes := map blank_probe (sy_Nodes s)\<rparr> else s)
      in if co_Excluded c = [] then s
         else s\<lparr>sy_Namespaces := filter (\<lambda>n. ns_Name n \<notin> set (co_Excluded c)) (sy_Namespaces s),
                sy_Workloads := filter (\<lambda>w. wl_Namespace w \<notin> set (co_Excluded c)) (sy_Workloads s)\<rparr>)"

definition blank_pods :: "node_facts \<Rightarrow> node_facts" where
  "blank_pods n = n\<lparr>nf_PodCount := None, nf_CpuRequestedMillis := 0, nf_MemoryRequestedBytes := 0\<rparr>"

definition blank_classes :: "cluster_facts \<Rightarrow> cluster_facts" where
  "blank_classes c = c\<lparr>cl_StorageClasses := [], cl_IngressClasses := []\<rparr>"

definition DropAboveTier :: "int \<Rightarrow> sync_msg \<Rightarrow> sync_msg" where
  "DropAboveTier tier s =
     (let s = (if tier < 1
               then s\<lparr>sy_Nodes := [], sy_DeletedNodes := [], sy_Cluster := map_option blank_classes (sy_Cluster s)\<rparr>
               else s)
      in if tier < 2
         then s\<lparr>sy_Namespaces := [], sy_DeletedNamespaces := [], sy_Workloads := [], sy_DeletedWorkloads := [],
                sy_Nodes := map blank_pods (sy_Nodes s)\<rparr>
         else s)"

definition ConsentNarrows :: "consent \<Rightarrow> consent \<Rightarrow> bool" where
  "ConsentNarrows cur nxt =
     (list_ex (\<lambda>p. \<not> Has cur p) (co_Paused nxt) \<or> list_ex (\<lambda>n. n \<notin> set (co_Excluded cur)) (co_Excluded nxt))"

text \<open>\<open>SameStrings\<close>: the counts go up over \<open>a\<close> and down over \<open>b\<close>, and all have to end at nought.\<close>

definition SameStrings :: "string list \<Rightarrow> string list \<Rightarrow> bool" where
  "SameStrings a b =
     (if length a \<noteq> length b then False
      else let seen = foldl (\<lambda>m x. m(x := m x + 1)) (\<lambda>_. 0 :: int) a;
               seen = foldl (\<lambda>m x. m(x := m x - 1)) seen b
           in list_all (\<lambda>x. seen x = 0) (a @ b))"

subsection \<open>Tiers\<close>

definition MaxTier :: int where "MaxTier = 4"
definition ImplementedTier :: int where "ImplementedTier = 2"

datatype tier_verdict = TierAllowed | TierBelowZero | TierNotImplemented | TierAboveInstall | TierAboveToken

definition CheckTier :: "int \<Rightarrow> int \<Rightarrow> int \<Rightarrow> tier_verdict" where
  "CheckTier tier installed tokenCap =
     (if tier < 0 then TierBelowZero
      else if tier > ImplementedTier then TierNotImplemented
      else if tier > installed then TierAboveInstall
      else if tier > tokenCap then TierAboveToken
      else TierAllowed)"

definition GrantableTier :: "int \<Rightarrow> bool" where
  "GrantableTier tier = (CheckTier tier ImplementedTier ImplementedTier = TierAllowed)"

definition ReportedTier :: "int \<Rightarrow> int \<times> bool" where
  "ReportedTier reported = (let tier = min (max reported 0) MaxTier in (tier, tier = reported))"

subsection \<open>Resolving a change\<close>

text \<open>The fields of \<open>store.Agent\<close> the modelled code reads.\<close>

record agent =
  ag_ID :: string
  ag_Name :: string
  ag_Status :: string
  ag_InstalledTier :: int
  ag_TierCap :: int
  ag_AccessTier :: int
  ag_ClusterID :: string
  ag_Version :: string
  ag_K8sVersion :: string
  ag_CreatedAt :: "time option"
  ag_ApprovedAt :: "time option"
  ag_ApprovedBy :: string
  ag_RevokedAt :: "time option"
  ag_Reason :: string
  ag_LastSeen :: "time option"

record access_change =
  ch_Tier :: "int option"
  ch_Pause :: "string list"
  ch_Resume :: "string list"
  ch_Exclude :: "string list"
  ch_Include :: "string list"

datatype change_error =
    TierAndOverrides | ChangesNothing | TierOutOfRange | SameTier int | OverInstall int | OverToken int int
  | Unclean consent_error | PausedAndResumed string | ExcludedAndIncluded string | AlreadyAsProposed

definition minusStrings :: "string list \<Rightarrow> string list \<Rightarrow> string list" where
  "minusStrings xs drp = filter (\<lambda>x. x \<notin> set drp) xs"

definition addNew :: "string list \<Rightarrow> string list \<Rightarrow> string list" where
  "addNew xs extra = foldl (\<lambda>out x. if x \<in> set out then out else out @ [x]) xs extra"

text \<open>\<open>strings.Join(xs, ",")\<close>.\<close>

fun join_comma :: "string list \<Rightarrow> string" where
  "join_comma [] = []"
| "join_comma [x] = x"
| "join_comma (x # y # ys) = x @ '','' @ join_comma (y # ys)"

definition resolve_overrides :: "agent \<Rightarrow> consent \<Rightarrow> access_change \<Rightarrow> change_error + int \<times> consent \<times> bool" where
  "resolve_overrides a cur ch =
     (case CleanConsent \<lparr>co_Paused = ch_Pause ch, co_Excluded = ch_Exclude ch\<rparr> of Inl e \<Rightarrow> Inl (Unclean e) | Inr pause \<Rightarrow>
      case CleanConsent \<lparr>co_Paused = ch_Resume ch, co_Excluded = ch_Include ch\<rparr> of Inl e \<Rightarrow> Inl (Unclean e) | Inr resume \<Rightarrow>
      case List.find (\<lambda>p. p \<in> set (co_Paused resume)) (co_Paused pause) of Some p \<Rightarrow> Inl (PausedAndResumed p) | None \<Rightarrow>
      case List.find (\<lambda>n. n \<in> set (co_Excluded resume)) (co_Excluded pause) of Some n \<Rightarrow> Inl (ExcludedAndIncluded n) | None \<Rightarrow>
      case CleanConsent \<lparr>co_Paused = addNew (minusStrings (co_Paused cur) (co_Paused resume)) (co_Paused pause),
             co_Excluded = addNew (minusStrings (co_Excluded cur) (co_Excluded resume)) (co_Excluded pause)\<rparr> of
        Inl e \<Rightarrow> Inl (Unclean e)
      | Inr nxt \<Rightarrow>
          if join_comma (co_Paused nxt) = join_comma (co_Paused cur)
             \<and> join_comma (co_Excluded nxt) = join_comma (co_Excluded cur) then Inl AlreadyAsProposed
          else Inr (ag_AccessTier a, nxt,
                 length (minusStrings (co_Paused cur) (co_Paused nxt)) > 0
                 \<or> length (minusStrings (co_Excluded cur) (co_Excluded nxt)) > 0))"

definition ResolveChange :: "agent \<Rightarrow> consent \<Rightarrow> access_change \<Rightarrow> change_error + int \<times> consent \<times> bool" where
  "ResolveChange a cur ch =
     (let consentFields = length (ch_Pause ch) + length (ch_Resume ch) + length (ch_Exclude ch) + length (ch_Include ch) > 0
      in case ch_Tier ch of
           Some t \<Rightarrow>
             if consentFields then Inl TierAndOverrides
             else (let v = CheckTier t (ag_InstalledTier a) (ag_TierCap a)
                   in if v = TierBelowZero \<or> v = TierNotImplemented then Inl TierOutOfRange
                      else if t = ag_AccessTier a then Inl (SameTier t)
                      else if v = TierAboveInstall then Inl (OverInstall (ag_InstalledTier a))
                      else if v = TierAboveToken then Inl (OverToken t (ag_TierCap a))
                      else Inr (t, cur, t > ag_AccessTier a))
         | None \<Rightarrow> if \<not> consentFields then Inl ChangesNothing else resolve_overrides a cur ch)"

subsection \<open>What the graph remembers of an agent\<close>

record agent_snapshot =
  as_Name :: string
  as_Status :: string
  as_ClusterID :: string
  as_InstalledTier :: int
  as_TierCap :: int
  as_AccessTier :: int
  as_Version :: string
  as_K8sVersion :: string
  as_CreatedAt :: string
  as_ApprovedAt :: string
  as_ApprovedBy :: string
  as_RevokedAt :: string
  as_Reason :: string
  as_LastSeen :: string
  as_PausedCollectors :: "string list"
  as_ExcludedNamespaces :: "string list"

text \<open>\<open>rfc\<close> is the formatting of a time in UTC as RFC 3339.\<close>

definition agentSnapshot :: "(time \<Rightarrow> string) \<Rightarrow> agent \<Rightarrow> consent \<Rightarrow> agent_snapshot" where
  "agentSnapshot rfc a c =
     (let f = (\<lambda>t. case t of None \<Rightarrow> [] | Some t \<Rightarrow> rfc t)
      in \<lparr>as_Name = ag_Name a, as_Status = ag_Status a, as_ClusterID = ag_ClusterID a,
          as_InstalledTier = ag_InstalledTier a, as_TierCap = ag_TierCap a, as_AccessTier = ag_AccessTier a,
          as_Version = ag_Version a, as_K8sVersion = ag_K8sVersion a, as_CreatedAt = f (ag_CreatedAt a),
          as_ApprovedAt = f (ag_ApprovedAt a), as_ApprovedBy = (if ag_ApprovedAt a = None then [] else ag_ApprovedBy a),
          as_RevokedAt = f (ag_RevokedAt a), as_Reason = ag_Reason a, as_LastSeen = f (ag_LastSeen a),
          as_PausedCollectors = co_Paused c, as_ExcludedNamespaces = co_Excluded c\<rparr>)"

subsection \<open>Conditions\<close>

datatype cond_status = CondTrue | CondFalse | CondUnknown

datatype age_text = UnknownAge | Seconds int | Minutes int | Hours int

datatype cond_message = Plain string | OlderConfig age_text | NeverNamed age_text | TooNew nat | TooOld nat | Speaks nat

record condition =
  cd_Type :: string
  cd_Status :: cond_status
  cd_Reason :: string
  cd_Message :: cond_message
  cd_Since :: "time option"

record cond_inputs =
  ci_Seen :: bool
  ci_Connected :: bool
  ci_ConnectedSince :: "time option"
  ci_Protocol :: nat
  ci_Caps :: "string list"
  ci_CfgSent :: string
  ci_CfgApplied :: string
  ci_CfgSentAt :: "time option"
  ci_CfgInForceAt :: "time option"

definition age :: "time \<Rightarrow> time option \<Rightarrow> age_text" where
  "age now thn =
     (case thn of None \<Rightarrow> UnknownAge
      | Some t \<Rightarrow>
          if now < t then UnknownAge
          else let d = now - t in
            if d < minute then Seconds (d div second)
            else if d < hour then Minutes (d div minute)
            else Hours (d div hour))"

definition connectedCondition :: "cond_inputs \<Rightarrow> condition" where
  "connectedCondition i =
     (if ci_Connected i
      then \<lparr>cd_Type = ''Connected'', cd_Status = CondTrue, cd_Reason = ''Open'',
            cd_Message = Plain ''a stream from the agent is open'', cd_Since = ci_ConnectedSince i\<rparr>
      else \<lparr>cd_Type = ''Connected'', cd_Status = CondFalse, cd_Reason = ''NoStream'',
            cd_Message = Plain (''no stream from the agent is open''
              @ (if \<not> ci_Seen i then '' (it has not connected since this server started)'' else [])), cd_Since = None\<rparr>)"

definition configInForceCondition :: "cond_inputs \<Rightarrow> time \<Rightarrow> condition" where
  "configInForceCondition i now =
     (let c = (\<lambda>st r m s. \<lparr>cd_Type = ''ConfigInForce'', cd_Status = st, cd_Reason = r, cd_Message = m, cd_Since = s\<rparr>)
      in if \<not> ci_Connected i
         then c CondUnknown ''NotConnected'' (Plain ''the agent is not connected, so what it has in force is not known'') None
         else if ci_CfgApplied i \<noteq> [] \<and> ci_CfgApplied i = ci_CfgSent i
         then c CondTrue ''Echoed'' (Plain ''the agent names the Config last sent as the one in force'') (ci_CfgInForceAt i)
         else if ci_CfgApplied i \<noteq> []
         then c CondFalse ''NotEchoed'' (OlderConfig (age now (ci_CfgSentAt i))) (ci_CfgSentAt i)
         else if ''config-digest'' \<in> set (ci_Caps i)
         then c CondFalse ''NotEchoed'' (NeverNamed (age now (ci_CfgSentAt i))) (ci_CfgSentAt i)
         else c CondUnknown ''AgentDoesNotEcho'' (Plain ''this agent does not say which Config it has in force'') None)"

definition ProtocolMin :: nat where "ProtocolMin = 0"
definition ProtocolMax :: nat where "ProtocolMax = 1"

definition compatibleCondition :: "cond_inputs \<Rightarrow> condition" where
  "compatibleCondition i =
     (let c = (\<lambda>st r m. \<lparr>cd_Type = ''Compatible'', cd_Status = st, cd_Reason = r, cd_Message = m, cd_Since = None\<rparr>)
      in if \<not> ci_Seen i
         then c CondUnknown ''NotSeenSinceStart''
           (Plain ''the agent has not connected since this server started, so the protocol it speaks is not known'')
         else if ci_Protocol i > ProtocolMax then c CondFalse ''ProtocolTooNew'' (TooNew (ci_Protocol i))
         else if ci_Protocol i < ProtocolMin then c CondFalse ''ProtocolTooOld'' (TooOld (ci_Protocol i))
         else if ci_Protocol i = 0
         then c CondTrue ''LegacyAgent'' (Plain ''the agent is from before protocol versions and is served as it always was'')
         else c CondTrue ''Current'' (Speaks (ci_Protocol i)))"

definition AgentConditions :: "cond_inputs \<Rightarrow> time \<Rightarrow> condition list" where
  "AgentConditions i now = [connectedCondition i, configInForceCondition i now, compatibleCondition i]"

subsection \<open>Who may do what\<close>

definition roleRank :: "string \<Rightarrow> nat" where
  "roleRank r = (if r = ''viewer'' then 1 else if r = ''editor'' then 2 else if r = ''admin'' then 3
                 else if r = ''owner'' then 4 else 0)"

definition validRole :: "string \<Rightarrow> bool" where "validRole r = (roleRank r > 0)"

datatype action = ActRead | ActEdit | ActAdminister | ActOwn | ActGrantRole | ActChangeAccess | OtherAction int

record resource =
  re_Role :: string
  re_Widening :: bool

record decision =
  de_Allowed :: bool
  de_Widens :: bool

definition levelRole :: "action \<Rightarrow> string" where
  "levelRole act = (case act of ActRead \<Rightarrow> ''viewer'' | ActEdit \<Rightarrow> ''editor'' | ActAdminister \<Rightarrow> ''admin''
                    | ActOwn \<Rightarrow> ''owner'' | _ \<Rightarrow> [])"

definition ranked :: "string \<Rightarrow> action \<Rightarrow> bool" where
  "ranked role act = (roleRank role \<ge> roleRank (levelRole act) \<and> roleRank role > 0)"

definition Decide :: "string \<Rightarrow> action \<Rightarrow> resource \<Rightarrow> decision" where
  "Decide role act res =
     (case act of
        ActGrantRole \<Rightarrow>
          \<lparr>de_Allowed = (if role = ''owner'' then validRole (re_Role res)
                         else if role = ''admin'' then re_Role res = ''editor'' \<or> re_Role res = ''viewer'' else False),
           de_Widens = False\<rparr>
      | ActChangeAccess \<Rightarrow>
          \<lparr>de_Allowed = (\<not> re_Widening res \<or> ranked role ActAdminister), de_Widens = re_Widening res\<rparr>
      | OtherAction _ \<Rightarrow> \<lparr>de_Allowed = False, de_Widens = False\<rparr>
      | _ \<Rightarrow> \<lparr>de_Allowed = ranked role act, de_Widens = False\<rparr>)"

definition Allows :: "string \<Rightarrow> action \<Rightarrow> bool" where
  "Allows role act = de_Allowed (Decide role act \<lparr>re_Role = [], re_Widening = False\<rparr>)"

subsection \<open>Canonical consents\<close>

text \<open>Keeping the first of each repeated string.\<close>

definition add_once :: "string list \<Rightarrow> string \<Rightarrow> string list" where
  "add_once out x = (if x \<in> set out then out else out @ [x])"

lemma add_once_props [simp]:
  "set (add_once out x) = insert x (set out)" "distinct out \<Longrightarrow> distinct (add_once out x)"
  by (auto simp: add_once_def)

lemma foldl_add_once: "set (foldl add_once out xs) = set out \<union> set xs" "distinct out \<Longrightarrow> distinct (foldl add_once out xs)"
  by (induction xs arbitrary: out) auto

lemma addNew_set: "set (addNew xs ys) = set xs \<union> set ys"
  using foldl_add_once(1) [of xs ys] by (simp add: addNew_def add_once_def [abs_def])

lemma minusStrings_set [simp]: "set (minusStrings xs ys) = set xs - set ys"
  by (auto simp: minusStrings_def)

lemma minusStrings_none: "(0 < length (minusStrings xs ys)) = (\<not> set xs \<subseteq> set ys)"
  by (auto simp: minusStrings_def filter_empty_conv)

lemma clean_paused_ok:
  "clean_paused out ps = Inr qs \<longleftrightarrow>
     (\<forall>p \<in> set ps. to_lower (trim_space p) \<in> set collectorNames)
     \<and> qs = foldl add_once out (map (\<lambda>p. to_lower (trim_space p)) ps)"
  by (induction ps arbitrary: out) (auto simp: Let_def add_once_def)

definition good_namespace :: "string \<Rightarrow> bool" where
  "good_namespace n \<longleftrightarrow> NsName n \<and> \<not> systemNS n"

lemma clean_excluded_ok:
  "clean_excluded out ns = Inr qs \<longleftrightarrow>
     (\<forall>n \<in> set ns. trim_space n = [] \<or> good_namespace (trim_space n))
     \<and> qs = foldl add_once out (filter (\<lambda>n. n \<noteq> []) (map trim_space ns))"
  by (induction ns arbitrary: out) (auto simp: Let_def add_once_def good_namespace_def)

text \<open>A string that starts and ends with a letter or digit has nothing to trim.\<close>

lemma name_byte_not_space:
  assumes "name_byte c"
  shows "strip_code space_codes (c # s) = None" "strip_code (map rev space_codes) (c # s) = None"
proof -
  have codes: "\<forall>k \<in> set space_codes. k \<noteq> [] \<and> \<not> name_byte (hd k) \<and> \<not> name_byte (last k)" by code_simp
  have start: "prefix k (c # s) \<Longrightarrow> k \<noteq> [] \<Longrightarrow> hd k = c" for k :: string
    by (cases k) auto
  have "\<forall>k \<in> set space_codes. \<not> (k \<noteq> [] \<and> prefix k (c # s))"
    using codes start assms by blast
  moreover have "\<forall>k \<in> set (map rev space_codes). \<not> (k \<noteq> [] \<and> prefix k (c # s))"
  proof
    fix k assume "k \<in> set (map rev space_codes)"
    then obtain j where "j \<in> set space_codes" "k = rev j" by auto
    then show "\<not> (k \<noteq> [] \<and> prefix k (c # s))"
      using codes start [of k] assms by (metis hd_rev)
  qed
  ultimately have "List.find (\<lambda>k. k \<noteq> [] \<and> prefix k (c # s)) space_codes = None"
    "List.find (\<lambda>k. k \<noteq> [] \<and> prefix k (c # s)) (map rev space_codes) = None"
    unfolding find_None_iff by blast+
  then show "strip_code space_codes (c # s) = None" "strip_code (map rev space_codes) (c # s) = None"
    by (simp_all add: strip_code_def)
qed

lemma trim_space_name: "s \<noteq> [] \<Longrightarrow> name_byte (hd s) \<Longrightarrow> name_byte (last s) \<Longrightarrow> trim_space s = s"
proof -
  assume s: "s \<noteq> []" "name_byte (hd s)" "name_byte (last s)"
  obtain c r where c: "s = c # r" using s(1) by (cases s) auto
  obtain d q where d: "rev s = d # q" using s(1) by (cases "rev s") auto
  have "d = last s" using d s(1) by (metis hd_rev list.sel(1))
  then have "strip_code (map rev space_codes) (rev s) = None" unfolding d using s(3) name_byte_not_space(2) by metis
  moreover have "strip_code space_codes s = None" using s(2) c by (simp add: name_byte_not_space)
  ultimately show ?thesis by (simp add: trim_space_def trim_front.simps [of _ s] trim_front.simps [of _ "rev s"])
qed

lemma trim_collector: "p \<in> set collectorNames \<Longrightarrow> to_lower (trim_space p) = p"
proof -
  have "\<forall>p \<in> set collectorNames. p \<noteq> [] \<and> name_byte (hd p) \<and> name_byte (last p) \<and> to_lower p = p" by code_simp
  then show "p \<in> set collectorNames \<Longrightarrow> to_lower (trim_space p) = p" by (simp add: trim_space_name)
qed

lemma trim_good: "good_namespace n \<Longrightarrow> trim_space n = n \<and> n \<noteq> []"
  by (simp add: good_namespace_def NsName_def trim_space_name)

lemma foldl_add_once_distinct: "distinct (out @ xs) \<Longrightarrow> foldl add_once out xs = out @ xs"
  by (induction xs arbitrary: out) (auto simp: add_once_def)

definition canonical :: "consent \<Rightarrow> bool" where
  "canonical c \<longleftrightarrow> sorted (co_Paused c) \<and> distinct (co_Paused c) \<and> set (co_Paused c) \<subseteq> set collectorNames
     \<and> sorted (co_Excluded c) \<and> distinct (co_Excluded c) \<and> (\<forall>n \<in> set (co_Excluded c). good_namespace n)
     \<and> length (co_Excluded c) \<le> MaxExcluded"

lemma CleanConsent_Inr:
  assumes "CleanConsent c = Inr d"
  shows "canonical d" "set (co_Paused d) = (\<lambda>p. to_lower (trim_space p)) ` set (co_Paused c)"
    "set (co_Excluded d) = trim_space ` set (co_Excluded c) - {[]}"
  using assms
  by (auto simp: CleanConsent_def canonical_def clean_paused_ok clean_excluded_ok foldl_add_once trim_good
      split: sum.splits if_splits)

lemma CleanConsent_canonical:
  assumes "canonical c"
  shows "CleanConsent c = Inr c"
proof -
  have "map (\<lambda>p. to_lower (trim_space p)) (co_Paused c) = co_Paused c"
    using assms by (intro map_idI) (auto simp: canonical_def trim_collector)
  then have p: "clean_paused [] (co_Paused c) = Inr (co_Paused c)"
    using assms by (auto simp: clean_paused_ok canonical_def foldl_add_once_distinct trim_collector)
  have "map trim_space (co_Excluded c) = co_Excluded c"
    using assms by (intro map_idI) (auto simp: canonical_def trim_good)
  moreover have "filter (\<lambda>n. n \<noteq> []) (co_Excluded c) = co_Excluded c"
    using assms trim_good by (auto simp: canonical_def filter_id_conv)
  ultimately have "clean_excluded [] (co_Excluded c) = Inr (co_Excluded c)"
    using assms by (auto simp: clean_excluded_ok canonical_def foldl_add_once_distinct trim_good)
  then show ?thesis using assms p by (simp add: CleanConsent_def canonical_def sorted_sort_id)
qed

text \<open>
  Cleaning a consent is canonical: what is accepted is sorted, without repeats, names only collectors an agent
  has, only valid namespaces that are not the system's, and at most 200 of them; it pauses and excludes exactly what was
  asked for, up to white space, letter case and empty entries; and cleaning it again changes nothing.
\<close>

theorem clean_consent_canonical:
  assumes "CleanConsent c = Inr d"
  shows "canonical d \<and> CleanConsent d = Inr d
    \<and> set (co_Paused d) = (\<lambda>p. to_lower (trim_space p)) ` set (co_Paused c)
    \<and> set (co_Excluded d) = trim_space ` set (co_Excluded c) - {[]}"
  using CleanConsent_Inr [OF assms] CleanConsent_canonical by blast

lemma trim_example: "trim_space ''shop'' = ''shop''"
  by (rule trim_space_name) (simp_all add: name_byte_def)

theorem clean_consent_canonical_witness:
  "CleanConsent \<lparr>co_Paused = [], co_Excluded = [''shop'', ''shop'']\<rparr> = Inr \<lparr>co_Paused = [], co_Excluded = [''shop'']\<rparr>
   \<and> canonical \<lparr>co_Paused = [], co_Excluded = [''shop'']\<rparr>"
proof -
  have ok: "NsName ''shop''" "\<not> systemNS ''shop''" by code_simp+
  have "CleanConsent \<lparr>co_Paused = [], co_Excluded = [''shop'', ''shop'']\<rparr> = Inr \<lparr>co_Paused = [], co_Excluded = [''shop'']\<rparr>"
    by (simp add: CleanConsent_def trim_example ok MaxExcluded_def)
  then show ?thesis using clean_consent_canonical by blast
qed

subsection \<open>What a change does\<close>

lemma CheckTier_allowed:
  "CheckTier t installed tokenCap = TierAllowed \<longleftrightarrow> 0 \<le> t \<and> t \<le> ImplementedTier \<and> t \<le> installed \<and> t \<le> tokenCap"
  by (auto simp: CheckTier_def)

text \<open>The overrides a change leaves: what it lifts taken away, what it adds put in, after cleaning both.\<close>

definition overrides_after :: "consent \<Rightarrow> access_change \<Rightarrow> consent \<Rightarrow> bool" where
  "overrides_after cur ch nxt \<longleftrightarrow>
     (\<exists>add rem. CleanConsent \<lparr>co_Paused = ch_Pause ch, co_Excluded = ch_Exclude ch\<rparr> = Inr add
       \<and> CleanConsent \<lparr>co_Paused = ch_Resume ch, co_Excluded = ch_Include ch\<rparr> = Inr rem
       \<and> set (co_Paused add) \<inter> set (co_Paused rem) = {} \<and> set (co_Excluded add) \<inter> set (co_Excluded rem) = {}
       \<and> set (co_Paused nxt) = set (co_Paused cur) - set (co_Paused rem) \<union> set (co_Paused add)
       \<and> set (co_Excluded nxt) = set (co_Excluded cur) - set (co_Excluded rem) \<union> set (co_Excluded add))"

lemma find_None_disjoint: "List.find (\<lambda>x. x \<in> S) xs = None \<longleftrightarrow> set xs \<inter> S = {}"
  by (auto simp: find_None_iff)

lemma clean_of_canonical_parts:
  assumes "CleanConsent \<lparr>co_Paused = ps, co_Excluded = ns\<rparr> = Inr d"
    and "set ps \<subseteq> set collectorNames" and "\<forall>n \<in> set ns. good_namespace n"
  shows "set (co_Paused d) = set ps" "set (co_Excluded d) = set ns"
proof -
  have "(\<lambda>p. to_lower (trim_space p)) ` set ps = set ps" "trim_space ` set ns - {[]} = set ns"
    using assms(2,3) trim_collector trim_good by (force simp: image_iff)+
  then show "set (co_Paused d) = set ps" "set (co_Excluded d) = set ns"
    using CleanConsent_Inr(2,3) [OF assms(1)] by simp_all
qed

lemma resolve_overrides_ok:
  assumes "canonical cur" "resolve_overrides a cur ch = Inr (t, nxt, widens)"
  shows "t = ag_AccessTier a \<and> canonical nxt \<and> overrides_after cur ch nxt \<and> nxt \<noteq> cur
    \<and> widens = (\<not> (set (co_Paused cur) \<subseteq> set (co_Paused nxt) \<and> set (co_Excluded cur) \<subseteq> set (co_Excluded nxt)))"
proof -
  obtain add rem where
    add: "CleanConsent \<lparr>co_Paused = ch_Pause ch, co_Excluded = ch_Exclude ch\<rparr> = Inr add" and
    rem: "CleanConsent \<lparr>co_Paused = ch_Resume ch, co_Excluded = ch_Include ch\<rparr> = Inr rem" and
    disj: "set (co_Paused add) \<inter> set (co_Paused rem) = {}" "set (co_Excluded add) \<inter> set (co_Excluded rem) = {}" and
    nxt: "CleanConsent \<lparr>co_Paused = addNew (minusStrings (co_Paused cur) (co_Paused rem)) (co_Paused add),
        co_Excluded = addNew (minusStrings (co_Excluded cur) (co_Excluded rem)) (co_Excluded add)\<rparr> = Inr nxt" and
    new: "\<not> (join_comma (co_Paused nxt) = join_comma (co_Paused cur) \<and> join_comma (co_Excluded nxt) = join_comma (co_Excluded cur))" and
    t: "t = ag_AccessTier a" and
    w: "widens = (length (minusStrings (co_Paused cur) (co_Paused nxt)) > 0 \<or> length (minusStrings (co_Excluded cur) (co_Excluded nxt)) > 0)"
    using assms(2) unfolding resolve_overrides_def
    by (auto simp: find_None_disjoint split: sum.splits option.splits if_splits)
  note can = CleanConsent_Inr(1) [OF add] CleanConsent_Inr(1) [OF rem] assms(1)
  have "set (co_Paused nxt) = set (addNew (minusStrings (co_Paused cur) (co_Paused rem)) (co_Paused add))"
    "set (co_Excluded nxt) = set (addNew (minusStrings (co_Excluded cur) (co_Excluded rem)) (co_Excluded add))"
    by (rule clean_of_canonical_parts [OF nxt]; use can in \<open>auto simp: canonical_def addNew_set\<close>)+
  then show ?thesis
    using add rem disj new t w CleanConsent_Inr(1) [OF nxt]
    by (auto simp: overrides_after_def addNew_set minusStrings_none simp del: length_greater_0_conv)
qed

text \<open>
  C27. A resolved change is within every limit and says truthfully whether it widens. A new tier is never negative, above
  what the release implements, above the install's ceiling or above the token's; overrides end up canonical and are the old
  ones less what was lifted plus what was added; the agent's access does change; and \<open>widens\<close> is true exactly when the
  tier rises or some pause or exclusion of before is gone.
\<close>

theorem resolve_change_exact:
  assumes "canonical cur" "ResolveChange a cur ch = Inr (t, nxt, widens)"
  shows "canonical nxt \<and> (t, nxt) \<noteq> (ag_AccessTier a, cur)
    \<and> (case ch_Tier ch of
         Some t' \<Rightarrow> t = t' \<and> nxt = cur \<and> 0 \<le> t \<and> t \<le> ImplementedTier \<and> t \<le> ag_InstalledTier a \<and> t \<le> ag_TierCap a
       | None \<Rightarrow> t = ag_AccessTier a \<and> overrides_after cur ch nxt)
    \<and> widens = (ag_AccessTier a < t \<or> \<not> (set (co_Paused cur) \<subseteq> set (co_Paused nxt) \<and> set (co_Excluded cur) \<subseteq> set (co_Excluded nxt)))"
proof (cases "ch_Tier ch")
  case None
  then have "resolve_overrides a cur ch = Inr (t, nxt, widens)"
    using assms(2) by (simp add: ResolveChange_def Let_def split: if_splits)
  from resolve_overrides_ok [OF assms(1) this] show ?thesis using None by auto
next
  case (Some t')
  then show ?thesis
    using assms by (auto simp: ResolveChange_def Let_def CheckTier_def split: if_splits)
qed

definition demo_agent :: agent where
  "demo_agent = \<lparr>ag_ID = ''a1'', ag_Name = ''east'', ag_Status = ''approved'', ag_InstalledTier = 2, ag_TierCap = 2,
     ag_AccessTier = 2, ag_ClusterID = [], ag_Version = [], ag_K8sVersion = [], ag_CreatedAt = None, ag_ApprovedAt = None,
     ag_ApprovedBy = [], ag_RevokedAt = None, ag_Reason = [], ag_LastSeen = None\<rparr>"

definition no_consent :: consent where "no_consent = \<lparr>co_Paused = [], co_Excluded = []\<rparr>"

lemma canonical_none: "canonical no_consent"
  by (simp add: canonical_def no_consent_def)

definition demo_change :: access_change where
  "demo_change = \<lparr>ch_Tier = Some 1, ch_Pause = [], ch_Resume = [], ch_Exclude = [], ch_Include = []\<rparr>"

lemma demo_resolves: "ResolveChange demo_agent no_consent demo_change = Inr (1, no_consent, False)"
  by code_simp

theorem resolve_change_exact_witness:
  "ResolveChange demo_agent no_consent demo_change = Inr (1, no_consent, False) \<and> (1::int) \<le> ImplementedTier"
  using resolve_change_exact [OF canonical_none demo_resolves] demo_resolves by (simp add: demo_change_def)

subsection \<open>What is left to see\<close>

text \<open>A picture cut to a tier and a consent, as the server cuts everything it takes in.\<close>

definition cut_to :: "int \<Rightarrow> consent \<Rightarrow> sync_msg \<Rightarrow> sync_msg" where
  "cut_to t c m = ApplyConsent c (DropAboveTier t m)"

definition no_wider :: "int \<times> consent \<Rightarrow> int \<times> consent \<Rightarrow> bool" where
  "no_wider tc tc' \<longleftrightarrow> fst tc \<le> fst tc' \<and> set (co_Paused (snd tc')) \<subseteq> set (co_Paused (snd tc))
     \<and> set (co_Excluded (snd tc')) \<subseteq> set (co_Excluded (snd tc))"

lemma Has_set: "Has c p \<longleftrightarrow> p \<in> set (co_Paused c)"
  by (auto simp: Has_def list_ex_iff)

lemma ApplyConsent_fields:
  "sy_Nodes (ApplyConsent c s) = (if Has c ''probes'' then map blank_probe (sy_Nodes s) else sy_Nodes s)"
  "sy_Namespaces (ApplyConsent c s) = filter (\<lambda>n. ns_Name n \<notin> set (co_Excluded c)) (sy_Namespaces s)"
  "sy_Workloads (ApplyConsent c s) = filter (\<lambda>w. wl_Namespace w \<notin> set (co_Excluded c)) (sy_Workloads s)"
  "sy_Seq (ApplyConsent c s) = sy_Seq s" "sy_Full (ApplyConsent c s) = sy_Full s"
  "sy_Cluster (ApplyConsent c s) = sy_Cluster s" "sy_Modules (ApplyConsent c s) = sy_Modules s"
  "sy_DeletedNodes (ApplyConsent c s) = sy_DeletedNodes s"
  "sy_DeletedNamespaces (ApplyConsent c s) = sy_DeletedNamespaces s"
  "sy_DeletedWorkloads (ApplyConsent c s) = sy_DeletedWorkloads s"
  by (simp_all add: ApplyConsent_def Let_def)

lemma DropAboveTier_fields:
  "sy_Nodes (DropAboveTier t s) = (if t < 1 then [] else if t < 2 then map blank_pods (sy_Nodes s) else sy_Nodes s)"
  "sy_Namespaces (DropAboveTier t s) = (if t < 2 then [] else sy_Namespaces s)"
  "sy_Workloads (DropAboveTier t s) = (if t < 2 then [] else sy_Workloads s)"
  "sy_Seq (DropAboveTier t s) = sy_Seq s" "sy_Full (DropAboveTier t s) = sy_Full s"
  "sy_Cluster (DropAboveTier t s) = (if t < 1 then map_option blank_classes (sy_Cluster s) else sy_Cluster s)"
  "sy_Modules (DropAboveTier t s) = sy_Modules s"
  "sy_DeletedNodes (DropAboveTier t s) = (if t < 1 then [] else sy_DeletedNodes s)"
  "sy_DeletedNamespaces (DropAboveTier t s) = (if t < 2 then [] else sy_DeletedNamespaces s)"
  "sy_DeletedWorkloads (DropAboveTier t s) = (if t < 2 then [] else sy_DeletedWorkloads s)"
  by (simp_all add: DropAboveTier_def Let_def)

lemma blank_absorb [simp]:
  "blank_probe (blank_probe n) = blank_probe n" "blank_pods (blank_pods n) = blank_pods n"
  "blank_probe (blank_pods (blank_probe n)) = blank_probe (blank_pods n)"
  "blank_pods (blank_probe (blank_pods n)) = blank_pods (blank_probe n)"
  "blank_pods (blank_probe n) = blank_probe (blank_pods n)"
  "blank_classes (blank_classes c) = blank_classes c"
  by (simp_all add: blank_probe_def blank_pods_def blank_classes_def)

lemma map_blank_absorb: "map_option blank_classes (map_option blank_classes x) = map_option blank_classes x"
  by (cases x) auto

lemma cut_to_absorb:
  assumes "no_wider (t, c) (t', c')"
  shows "cut_to t c (cut_to t' c' m) = cut_to t c m"
proof (rule sync_msg.equality)
  have t: "t \<le> t'" and ps: "Has c' ''probes'' \<Longrightarrow> Has c ''probes''"
    using assms by (auto simp: no_wider_def Has_set)
  have ex: "filter (\<lambda>x. f x \<notin> set (co_Excluded c)) (filter (\<lambda>x. f x \<notin> set (co_Excluded c')) xs)
      = filter (\<lambda>x. f x \<notin> set (co_Excluded c)) xs" for f and xs :: "'x list"
    using assms unfolding filter_filter no_wider_def by (intro filter_cong) auto
  show "sy_Nodes (cut_to t c (cut_to t' c' m)) = sy_Nodes (cut_to t c m)"
    using t ps by (auto simp: cut_to_def ApplyConsent_fields DropAboveTier_fields)
  show "sy_Namespaces (cut_to t c (cut_to t' c' m)) = sy_Namespaces (cut_to t c m)"
    "sy_Workloads (cut_to t c (cut_to t' c' m)) = sy_Workloads (cut_to t c m)"
    using t by (simp_all add: cut_to_def ApplyConsent_fields DropAboveTier_fields ex del: filter_filter)
qed (use assms in \<open>auto simp: cut_to_def ApplyConsent_fields DropAboveTier_fields map_blank_absorb no_wider_def\<close>)

text \<open>
  C20. A change that does not say it widens lets nothing more through: for every picture, what the new tier and overrides
  leave of it can be computed from what the old ones left, so no fact that was held back before can appear after.
\<close>

theorem unwidened_change_shows_no_more:
  assumes "canonical cur" "ResolveChange a cur ch = Inr (t, nxt, False)"
  shows "cut_to t nxt (cut_to (ag_AccessTier a) cur m) = cut_to t nxt m"
proof (rule cut_to_absorb)
  have ok: "(False = (ag_AccessTier a < t \<or> \<not> (set (co_Paused cur) \<subseteq> set (co_Paused nxt) \<and> set (co_Excluded cur) \<subseteq> set (co_Excluded nxt))))"
  proof (cases "ch_Tier ch")
    case None
    then have "resolve_overrides a cur ch = Inr (t, nxt, False)"
      using assms(2) by (simp add: ResolveChange_def Let_def split: if_splits)
    from resolve_overrides_ok [OF assms(1) this] show ?thesis by auto
  next
    case (Some t')
    then show ?thesis using assms by (auto simp: ResolveChange_def Let_def split: if_splits)
  qed
  then show "no_wider (t, nxt) (ag_AccessTier a, cur)" by (auto simp: no_wider_def)
qed

theorem unwidened_change_shows_no_more_witness:
  "\<forall>m. cut_to 1 no_consent (cut_to (ag_AccessTier demo_agent) no_consent m) = cut_to 1 no_consent m"
  by (intro allI unwidened_change_shows_no_more [OF canonical_none demo_resolves])

subsection \<open>Standing\<close>

lemma roleRank_cases: "0 < roleRank r \<Longrightarrow> r \<in> {''viewer'', ''editor'', ''admin'', ''owner''}"
  by (auto simp: roleRank_def split: if_splits)

text \<open>
  Standing grows with rank and gives nothing away: whatever a role may do, every role of equal or higher rank may do;
  a role can be given only by an owner, or by an administrator when it ranks below administrator; a caller without a
  known role may do nothing except narrow what an agent shares; and widening takes an administrator.
\<close>

theorem decide_standing:
  "(roleRank r \<le> roleRank r' \<and> de_Allowed (Decide r act res) \<longrightarrow> de_Allowed (Decide r' act res))
   \<and> (de_Allowed (Decide r ActGrantRole res) \<longleftrightarrow>
        validRole (re_Role res) \<and> (r = ''owner'' \<or> r = ''admin'' \<and> roleRank (re_Role res) < roleRank ''admin''))
   \<and> (roleRank r = 0 \<longrightarrow> (de_Allowed (Decide r act res) \<longleftrightarrow> act = ActChangeAccess \<and> \<not> re_Widening res))
   \<and> (de_Allowed (Decide r ActChangeAccess res) \<longleftrightarrow> (re_Widening res \<longrightarrow> roleRank ''admin'' \<le> roleRank r))"
proof -
  have grant: "de_Allowed (Decide r ActGrantRole res) \<longleftrightarrow>
        validRole (re_Role res) \<and> (r = ''owner'' \<or> r = ''admin'' \<and> roleRank (re_Role res) < roleRank ''admin'')" for r
    by (auto simp: Decide_def validRole_def roleRank_def split: if_splits)
  have change: "de_Allowed (Decide r ActChangeAccess res) \<longleftrightarrow> (re_Widening res \<longrightarrow> roleRank ''admin'' \<le> roleRank r)" for r
    by (auto simp: Decide_def ranked_def levelRole_def roleRank_def)
  have "de_Allowed (Decide r' act res)" if "roleRank r \<le> roleRank r'" "de_Allowed (Decide r act res)"
  proof (cases act)
    case ActGrantRole
    then have "r \<in> {''owner'', ''admin''}" "validRole (re_Role res)" using that(2) grant by auto
    moreover from this have "r' = ''owner'' \<or> r = ''admin'' \<and> r' = ''admin''"
      using that(1) by (auto simp: roleRank_def split: if_splits)
    ultimately show ?thesis using that(2) ActGrantRole grant by auto
  next
    case ActChangeAccess
    then show ?thesis using that change [of r] change [of r'] by auto
  qed (use that in \<open>auto simp: Decide_def ranked_def\<close>)
  moreover have "de_Allowed (Decide r act res) \<longleftrightarrow> act = ActChangeAccess \<and> \<not> re_Widening res" if "roleRank r = 0"
  proof (cases act)
    case ActGrantRole
    have "r \<noteq> ''owner''" "r \<noteq> ''admin''" using that by (auto simp: roleRank_def)
    then show ?thesis using ActGrantRole grant by auto
  qed (use that in \<open>auto simp: Decide_def ranked_def\<close>)
  ultimately show ?thesis using grant change by blast
qed

theorem decide_standing_witness: "de_Allowed (Decide ''owner'' ActGrantRole \<lparr>re_Role = ''owner'', re_Widening = False\<rparr>)"
proof -
  have "validRole ''owner''" by code_simp
  then show ?thesis using decide_standing [of "''owner''" "''owner''" ActGrantRole "\<lparr>re_Role = ''owner'', re_Widening = False\<rparr>"] by simp
qed

subsection \<open>Comparing lists\<close>

lemma count_up: "foldl (\<lambda>m x. m(x := m x + 1)) f a y = f y + int (count (mset a) y)"
  by (induction a arbitrary: f) auto

lemma count_down: "foldl (\<lambda>m x. m(x := m x - 1)) f b y = f y - int (count (mset b) y)"
  by (induction b arbitrary: f) auto

text \<open>
  \<open>SameStrings\<close> is equality up to order: two lists pass exactly when each string occurs the same number of times in both.
\<close>

theorem same_strings_permutation: "SameStrings a b \<longleftrightarrow> mset a = mset b"
proof -
  have "SameStrings a b \<longleftrightarrow> length a = length b \<and> (\<forall>x \<in> set a \<union> set b. count (mset a) x = count (mset b) x)"
    by (auto simp: SameStrings_def Let_def count_up count_down list_all_iff)
  also have "\<dots> \<longleftrightarrow> mset a = mset b"
  proof
    assume l: "length a = length b \<and> (\<forall>x \<in> set a \<union> set b. count (mset a) x = count (mset b) x)"
    have "count (mset a) x = count (mset b) x" for x
      using l by (cases "x \<in> set a \<union> set b") (blast, simp add: count_eq_zero_iff [THEN iffD2])
    then show "mset a = mset b" by (rule multiset_eqI)
  qed (auto dest: mset_eq_length)
  finally show ?thesis .
qed

lemma config_in_force_only_if_echoed:
  "cd_Status (configInForceCondition i now) = CondTrue \<longleftrightarrow>
     ci_Connected i \<and> ci_CfgApplied i \<noteq> [] \<and> ci_CfgApplied i = ci_CfgSent i"
  by (auto simp: configInForceCondition_def Let_def)

lemma protocol_never_too_old: "cd_Reason (compatibleCondition i) \<noteq> ''ProtocolTooOld''"
  by (simp add: compatibleCondition_def ProtocolMin_def Let_def)

end
