(* ===== verification/Hub.thy ===== *)
theory Hub
  imports Facts Consent
begin

text \<open>
  What the server holds of one agent and the operations that change it (\<open>estate/hub.go\<close>,
  \<open>estate/hub_consent.go\<close>): merging what the agent sends, the approved tier and its ceiling, the consent,
  the stored copy of the picture and its reload at a restart. A view is the agent's record in the store together with
  what the hub keeps in memory for it. The handlers hold the hub's lock only for parts of what they do: what they read
  before they take it, each write to the store and each critical section are operations of their own here
  (\<open>cut_sync\<close> and \<open>merge_sync\<close>, \<open>tier_asked\<close>, \<open>consent_asked\<close>, \<open>take_picture\<close>, the narrowings), from which
  the handlers are put together. A run (\<open>hub_run\<close>) takes these parts one at a time and in any order, so that calls
  overlap as they can in the server; a handler that nothing interrupts is one step of \<open>hub_do\<close>.

  Tombstones of what a message removes, the graph's record of a change, metrics and the pushing of a Config are left out:
  they do not change the view. \<open>he_sync_size\<close> is the encoded size of a message and \<open>he_valid\<close> is
  \<open>validateSync\<close>, neither of which this theory looks into.
\<close>

record hub_env =
  he_ops :: proto_ops
  he_limits :: limits
  he_sync_size :: "sync_msg \<Rightarrow> int"
  he_valid :: "sync_msg \<Rightarrow> bool"

record hub_view =
  hv_Agent :: agent
  hv_Consent :: consent
  hv_ConsentAt :: "time option"
  hv_Known :: "string list option"
  hv_Protocol :: nat
  hv_Caps :: "string list"
  hv_HasDiag :: bool
  hv_State :: state
  hv_LastSync :: "time option"
  hv_LastBeat :: "time option"
  hv_dirtyAt :: "time option"
  hv_savedAt :: "time option"
  hv_Refused :: bool
  hv_consAt :: "time option"
  hv_consDrift :: "drift option"
  hv_consCount :: nat
  hv_Stored :: "(sync_msg \<times> time) option"

definition NewView :: "agent \<Rightarrow> consent \<Rightarrow> hub_view" where
  "NewView a c = \<lparr>hv_Agent = a, hv_Consent = c, hv_ConsentAt = None, hv_Known = None, hv_Protocol = 0, hv_Caps = [],
     hv_HasDiag = False, hv_State = New, hv_LastSync = None, hv_LastBeat = None, hv_dirtyAt = None, hv_savedAt = None,
     hv_Refused = False, hv_consAt = None, hv_consDrift = None, hv_consCount = 0, hv_Stored = None\<rparr>"

subsection \<open>Taking in what an agent sends\<close>

text \<open>
  \<open>ApplySync\<close> in its two halves: cutting the message to the tier and the consent, which it does without the
  hub's lock, and checking and merging it under the lock.
\<close>

definition cut_sync :: "int \<Rightarrow> consent \<Rightarrow> sync_msg \<Rightarrow> sync_msg \<times> string list" where
  "cut_sync tier c s = (let s = DropAboveTier tier s in (ApplyConsent c s, map ns_Name (sy_Namespaces s)))"

definition merge_sync :: "hub_env \<Rightarrow> time \<Rightarrow> sync_msg \<times> string list \<Rightarrow> bool \<Rightarrow> hub_view \<Rightarrow> limit_error + hub_view" where
  "merge_sync env now piece fullSeen v =
     (case piece of (s, reportedNS) \<Rightarrow>
        case Check (he_ops env) (hv_State v) s (he_limits env) of Some e \<Rightarrow> Inl e | None \<Rightarrow>
          (let v = v\<lparr>hv_Known := NoteNamespaces (hv_Known v) reportedNS (sy_Full s)\<rparr>;
               v = (if sy_Full s \<and> fullSeen
                    then v\<lparr>hv_consAt := Some now, hv_consDrift := Some (CheckDrift (he_ops env) (hv_State v) s),
                           hv_consCount := hv_consCount v + 1\<rparr>
                    else v)
           in Inr (v\<lparr>hv_State := Apply (he_ops env) (hv_State v) s, hv_Refused := False, hv_LastSync := Some now,
                     hv_LastBeat := Some now, hv_dirtyAt := Some now\<rparr>)))"

definition ApplySync :: "hub_env \<Rightarrow> time \<Rightarrow> sync_msg \<Rightarrow> bool \<Rightarrow> hub_view \<Rightarrow> limit_error + hub_view" where
  "ApplySync env now s fullSeen v =
     merge_sync env now (cut_sync (ag_AccessTier (hv_Agent v)) (hv_Consent v) s) fullSeen v"

definition heartbeat_modules :: "time \<Rightarrow> module_status list \<Rightarrow> hub_view \<Rightarrow> hub_view" where
  "heartbeat_modules now ms v =
     v\<lparr>hv_LastBeat := Some now,
       hv_State := (if ms \<noteq> [] then (hv_State v)\<lparr>s_Modules := ms\<rparr> else hv_State v)\<rparr>"

subsection \<open>Narrowing what is held\<close>

text \<open>The picture \<open>narrowState\<close> and \<open>narrowConsent\<close> build: the state in full, without modules.\<close>

definition held_picture :: "state \<Rightarrow> sync_msg" where
  "held_picture st = (Snapshot st)\<lparr>sy_Modules := []\<rparr>"

definition narrowState :: "hub_env \<Rightarrow> time \<Rightarrow> int \<Rightarrow> hub_view \<Rightarrow> hub_view" where
  "narrowState env now tier v =
     (if hv_LastSync v = None then v
      else v\<lparr>hv_State := Apply (he_ops env) (hv_State v) (DropAboveTier tier (held_picture (hv_State v))),
             hv_dirtyAt := Some now\<rparr>)"

definition narrowConsent :: "hub_env \<Rightarrow> time \<Rightarrow> consent \<Rightarrow> hub_view \<Rightarrow> hub_view" where
  "narrowConsent env now c v =
     (if hv_LastSync v = None then v
      else v\<lparr>hv_State := Apply (he_ops env) (hv_State v) (ApplyConsent c (held_picture (hv_State v))),
             hv_dirtyAt := Some now\<rparr>)"

subsection \<open>Changing access\<close>

datatype hub_error =
    NotApproved string | HubUnclean consent_error | TakesAnAdministrator | NotSaved
  | TierNegative | TierUnavailable int | TierPastInstall int | TierPastToken int int

text \<open>
  What \<open>SetAgentTier\<close> and \<open>SetConsent\<close> decide from what they read (the agent's record, the overrides), before
  anything is written: a refusal, nothing to do, or what is to be written.
\<close>

definition tier_asked :: "string \<Rightarrow> int \<Rightarrow> agent \<Rightarrow> hub_error + bool" where
  "tier_asked role tier a =
     (let old = ag_AccessTier a; verdict = CheckTier tier (ag_InstalledTier a) (ag_TierCap a)
      in if ag_Status a \<noteq> ''approved'' then Inl (NotApproved (ag_Status a))
         else if verdict = TierBelowZero then Inl TierNegative
         else if tier = old then Inr False
         else if \<not> de_Allowed (Decide role ActChangeAccess \<lparr>re_Role = [], re_Widening = tier > old\<rparr>)
           then Inl TakesAnAdministrator
         else if verdict = TierNotImplemented then Inl (TierUnavailable tier)
         else if verdict = TierAboveInstall then Inl (TierPastInstall (ag_InstalledTier a))
         else if verdict = TierAboveToken then Inl (TierPastToken tier (ag_TierCap a))
         else Inr True)"

definition SetAgentTier :: "hub_env \<Rightarrow> time \<Rightarrow> string \<Rightarrow> int \<Rightarrow> bool \<Rightarrow> hub_view \<Rightarrow> hub_error + hub_view" where
  "SetAgentTier env now role tier saved v =
     (let a = hv_Agent v
      in case tier_asked role tier a of
           Inl e \<Rightarrow> Inl e
         | Inr write \<Rightarrow>
             if \<not> write then Inr v
             else if \<not> saved then Inl NotSaved
             else (let v = v\<lparr>hv_Agent := a\<lparr>ag_AccessTier := tier\<rparr>\<rparr>
                   in Inr (if tier < ag_AccessTier a then narrowState env now tier v else v)))"

definition consent_asked :: "string \<Rightarrow> consent \<Rightarrow> agent \<Rightarrow> consent \<Rightarrow> hub_error + consent option" where
  "consent_asked role c a cur =
     (if ag_Status a \<noteq> ''approved'' then Inl (NotApproved (ag_Status a))
      else case CleanConsent c of Inl e \<Rightarrow> Inl (HubUnclean e) | Inr nxt \<Rightarrow>
        if \<not> de_Allowed (Decide role ActChangeAccess \<lparr>re_Role = [], re_Widening = ConsentNarrows nxt cur\<rparr>)
          then Inl TakesAnAdministrator
        else if join_comma (co_Paused cur) = join_comma (co_Paused nxt)
                \<and> join_comma (co_Excluded cur) = join_comma (co_Excluded nxt) then Inr None
        else Inr (Some nxt))"

definition SetConsent :: "hub_env \<Rightarrow> time \<Rightarrow> string \<Rightarrow> consent \<Rightarrow> bool \<Rightarrow> hub_view \<Rightarrow> hub_error + hub_view" where
  "SetConsent env now role c saved v =
     (let cur = hv_Consent v
      in case consent_asked role c (hv_Agent v) cur of
           Inl e \<Rightarrow> Inl e
         | Inr None \<Rightarrow> Inr v
         | Inr (Some nxt) \<Rightarrow>
             if \<not> saved then Inl NotSaved
             else (let v = v\<lparr>hv_Consent := nxt, hv_ConsentAt := Some now\<rparr>
                   in Inr (if ConsentNarrows cur nxt then narrowConsent env now nxt v else v)))"

definition reportsCeiling :: "hub_view \<Rightarrow> bool" where
  "reportsCeiling v = (if hv_Protocol v \<ge> 1 then ''diagnostics'' \<in> set (hv_Caps v) else hv_HasDiag v)"

definition keeps_ceiling :: "int \<Rightarrow> agent \<Rightarrow> hub_view \<Rightarrow> bool" where
  "keeps_ceiling reported a v \<longleftrightarrow> reported \<le> 0 \<and> ag_InstalledTier a > 0 \<and> \<not> reportsCeiling v"

definition NoteCeiling :: "hub_env \<Rightarrow> time \<Rightarrow> int \<Rightarrow> bool \<Rightarrow> bool \<Rightarrow> hub_view \<Rightarrow> hub_view" where
  "NoteCeiling env now reported savedCeiling savedTier v =
     (let a = hv_Agent v
      in if keeps_ceiling reported a v then v
         else (let ceiling = fst (ReportedTier reported)
               in if ceiling \<noteq> ag_InstalledTier a \<and> \<not> savedCeiling then v
                  else (let v = v\<lparr>hv_Agent := a\<lparr>ag_InstalledTier := ceiling\<rparr>\<rparr>
                        in if ag_AccessTier a > ceiling \<and> savedTier
                           then narrowState env now ceiling (v\<lparr>hv_Agent := (hv_Agent v)\<lparr>ag_AccessTier := ceiling\<rparr>\<rparr>)
                           else v)))"

subsection \<open>The stored copy\<close>

definition snapshotEvery :: duration where "snapshotEvery = 30 * second"

definition snapshotCap :: "limits \<Rightarrow> int" where
  "snapshotCap l = l_Bytes l + 16 * (l_Nodes l + l_Namespaces l + l_Workloads l) + 4096"

definition since_saved :: "time \<Rightarrow> time option \<Rightarrow> duration option" where
  "since_saved now at0 = map_option (\<lambda>t. now - t) at0"

text \<open>\<open>persist\<close> in its two halves: the picture is taken under the lock, and encoded and saved after it.\<close>

definition take_picture :: "time \<Rightarrow> bool \<Rightarrow> hub_view \<Rightarrow> (sync_msg \<times> hub_view) option" where
  "take_picture now force v =
     (case hv_dirtyAt v of None \<Rightarrow> None | Some dirty \<Rightarrow>
        if \<not> force \<and> (case since_saved now (hv_savedAt v) of None \<Rightarrow> False | Some d \<Rightarrow> d < snapshotEvery) then None
        else if (case hv_savedAt v of None \<Rightarrow> False | Some t \<Rightarrow> dirty < t) then None
        else Some (Snapshot (hv_State v), v\<lparr>hv_savedAt := Some now\<rparr>))"

definition save_picture :: "hub_env \<Rightarrow> time \<Rightarrow> bool \<Rightarrow> sync_msg \<Rightarrow> hub_view \<Rightarrow> hub_view" where
  "save_picture env now saved snap v =
     (if he_sync_size env snap > snapshotCap (he_limits env) \<or> \<not> saved then v else v\<lparr>hv_Stored := Some (snap, now)\<rparr>)"

definition persist :: "hub_env \<Rightarrow> time \<Rightarrow> bool \<Rightarrow> bool \<Rightarrow> hub_view \<Rightarrow> hub_view" where
  "persist env now force saved v =
     (case take_picture now force v of None \<Rightarrow> v | Some (snap, v) \<Rightarrow> save_picture env now saved snap v)"

definition loadState :: "hub_env \<Rightarrow> sync_msg \<Rightarrow> state option" where
  "loadState env m =
     (if he_sync_size env m > snapshotCap (he_limits env) then None
      else if \<not> he_valid env m then None
      else if Check (he_ops env) New m (he_limits env) \<noteq> None then None
      else Some (Apply (he_ops env) New m))"

text \<open>A restart of the server: the record and the consent are in the store, the picture is the stored copy.\<close>

definition Restore :: "hub_env \<Rightarrow> hub_view \<Rightarrow> hub_view" where
  "Restore env v =
     (let fresh = (NewView (hv_Agent v) (hv_Consent v))\<lparr>hv_ConsentAt := hv_ConsentAt v, hv_Stored := hv_Stored v\<rparr>
      in case hv_Stored v of None \<Rightarrow> fresh
         | Some (m, t) \<Rightarrow> (case loadState env m of None \<Rightarrow> fresh
             | Some st \<Rightarrow> fresh\<lparr>hv_State := st, hv_LastSync := Some t, hv_LastBeat := Some t, hv_savedAt := Some t\<rparr>))"

subsection \<open>Runs\<close>

datatype hub_event =
    EvSync time sync_msg bool
  | EvHeartbeat time "module_status list"
  | EvHello nat "string list" bool
  | EvTier time string int bool
  | EvConsent time string consent bool
  | EvCeiling time int bool bool
  | EvPersist time bool bool

fun hub_do :: "hub_env \<Rightarrow> hub_event \<Rightarrow> hub_view \<Rightarrow> hub_view" where
  "hub_do env (EvSync now s fullSeen) v = (case ApplySync env now s fullSeen v of Inl _ \<Rightarrow> v\<lparr>hv_Refused := True\<rparr> | Inr w \<Rightarrow> w)"
| "hub_do env (EvHeartbeat now ms) v = heartbeat_modules now ms v"
| "hub_do env (EvHello protocol caps diag) v = v\<lparr>hv_Protocol := protocol, hv_Caps := caps, hv_HasDiag := diag\<rparr>"
| "hub_do env (EvTier now role tier saved) v = (case SetAgentTier env now role tier saved v of Inl _ \<Rightarrow> v | Inr w \<Rightarrow> w)"
| "hub_do env (EvConsent now role c saved) v = (case SetConsent env now role c saved v of Inl _ \<Rightarrow> v | Inr w \<Rightarrow> w)"
| "hub_do env (EvCeiling now reported a b) v = NoteCeiling env now reported a b v"
| "hub_do env (EvPersist now force saved) v = persist env now force saved v"

text \<open>
  Overlapping calls. Next to the view, a run keeps the records the agent has had in the store, the overrides that have
  been saved (latest first, so that the head is the row in the store) and the pictures taken to be saved. What a call
  has read is something that was there at an earlier moment: an element of these lists. The message a stream merges was
  cut to the tier of the record its handler read and to the overrides it read after that; a handler that changes the
  tier or the overrides decides on what it read, then writes, then sets what is in memory, then narrows, and anything
  may happen in between. A server that stops loses what its handlers had still to do; one that starts again loads the
  picture and the overrides. \<open>ensureConsent\<close> takes a row of overrides that cannot be read for no overrides: a run in which
  that happens (\<open>run_unread\<close>) has \<open>no_consent\<close> among the overrides that were in force. A run begins where nothing is held
  or stored yet, under any overrides.
\<close>

record hub_run =
  hr_View :: hub_view
  hr_Agents :: "agent list"
  hr_Given :: "consent list"
  hr_Taken :: "sync_msg list"

definition write_agent :: "agent \<Rightarrow> hub_run \<Rightarrow> hub_run" where
  "write_agent a r = r\<lparr>hr_View := (hr_View r)\<lparr>hv_Agent := a\<rparr>, hr_Agents := a # hr_Agents r\<rparr>"

inductive hub_runs :: "hub_env \<Rightarrow> hub_run \<Rightarrow> bool" for env :: hub_env where
  run_start: "canonical c \<Longrightarrow> hub_runs env \<lparr>hr_View = NewView a c, hr_Agents = [a], hr_Given = [c], hr_Taken = []\<rparr>"
| run_merge: "hub_runs env r \<Longrightarrow> a \<in> set (hr_Agents r) \<Longrightarrow> c \<in> set (hr_Given r)
    \<Longrightarrow> merge_sync env now (cut_sync (ag_AccessTier a) c s) fullSeen (hr_View r) = Inr w
    \<Longrightarrow> hub_runs env (r\<lparr>hr_View := w\<rparr>)"
| run_refuse: "hub_runs env r \<Longrightarrow> hub_runs env (r\<lparr>hr_View := (hr_View r)\<lparr>hv_Refused := True\<rparr>\<rparr>)"
| run_heartbeat: "hub_runs env r \<Longrightarrow> hub_runs env (r\<lparr>hr_View := heartbeat_modules now ms (hr_View r)\<rparr>)"
| run_diagnostics: "hub_runs env r \<Longrightarrow> hub_runs env (r\<lparr>hr_View := (hr_View r)\<lparr>hv_HasDiag := b\<rparr>\<rparr>)"
| run_hello: "hub_runs env r
    \<Longrightarrow> hub_runs env (r\<lparr>hr_View := (hr_View r)\<lparr>hv_Protocol := protocol, hv_Caps := caps\<rparr>\<rparr>)"
| run_set_tier: "hub_runs env r \<Longrightarrow> a \<in> set (hr_Agents r) \<Longrightarrow> tier_asked role tier a = Inr True
    \<Longrightarrow> ag_Status (hv_Agent (hr_View r)) = ''approved''
    \<Longrightarrow> hub_runs env (write_agent ((hv_Agent (hr_View r))\<lparr>ag_AccessTier := tier\<rparr>) r)"
| run_set_ceiling: "hub_runs env r \<Longrightarrow> a \<in> set (hr_Agents r) \<Longrightarrow> \<not> keeps_ceiling reported a (hr_View r)
    \<Longrightarrow> hub_runs env (write_agent ((hv_Agent (hr_View r))\<lparr>ag_InstalledTier := fst (ReportedTier reported)\<rparr>) r)"
| run_follow_ceiling: "hub_runs env r \<Longrightarrow> a \<in> set (hr_Agents r) \<Longrightarrow> fst (ReportedTier reported) < ag_AccessTier a
    \<Longrightarrow> ag_Status (hv_Agent (hr_View r)) = ''approved''
    \<Longrightarrow> hub_runs env (write_agent ((hv_Agent (hr_View r))\<lparr>ag_AccessTier := fst (ReportedTier reported)\<rparr>) r)"
| run_other_write: "hub_runs env r
    \<Longrightarrow> ag_AccessTier a = ag_AccessTier (hv_Agent (hr_View r)) \<or> ag_Status (hv_Agent (hr_View r)) \<noteq> ''approved''
    \<Longrightarrow> hub_runs env (write_agent a r)"
| run_narrow_tier: "hub_runs env r \<Longrightarrow> a \<in> set (hr_Agents r)
    \<Longrightarrow> hub_runs env (r\<lparr>hr_View := narrowState env now (ag_AccessTier a) (hr_View r)\<rparr>)"
| run_save_consent: "hub_runs env r \<Longrightarrow> a \<in> set (hr_Agents r) \<Longrightarrow> cur \<in> set (hr_Given r)
    \<Longrightarrow> consent_asked role c a cur = Inr (Some nxt) \<Longrightarrow> hub_runs env (r\<lparr>hr_Given := nxt # hr_Given r\<rparr>)"
| run_set_consent: "hub_runs env r \<Longrightarrow> c \<in> set (hr_Given r)
    \<Longrightarrow> hub_runs env (r\<lparr>hr_View := (hr_View r)\<lparr>hv_Consent := c, hv_ConsentAt := Some now\<rparr>\<rparr>)"
| run_narrow_consent: "hub_runs env r \<Longrightarrow> c \<in> set (hr_Given r)
    \<Longrightarrow> hub_runs env (r\<lparr>hr_View := narrowConsent env now c (hr_View r)\<rparr>)"
| run_take: "hub_runs env r \<Longrightarrow> take_picture now force (hr_View r) = Some (m, w)
    \<Longrightarrow> hub_runs env (r\<lparr>hr_View := w, hr_Taken := m # hr_Taken r\<rparr>)"
| run_save: "hub_runs env r \<Longrightarrow> m \<in> set (hr_Taken r)
    \<Longrightarrow> hub_runs env (r\<lparr>hr_View := save_picture env now saved m (hr_View r)\<rparr>)"
| run_restart: "hub_runs env r
    \<Longrightarrow> hub_runs env (r\<lparr>hr_View := Restore env ((hr_View r)\<lparr>hv_Consent := hd (hr_Given r), hv_ConsentAt := at0\<rparr>)\<rparr>)"
| run_restart_blind: "hub_runs env r
    \<Longrightarrow> hub_runs env (r\<lparr>hr_View := (NewView (hv_Agent (hr_View r)) (hd (hr_Given r)))\<lparr>hv_Stored := hv_Stored (hr_View r)\<rparr>\<rparr>)"
| run_unread: "hub_runs env r
    \<Longrightarrow> hub_runs env (r\<lparr>hr_View := (hr_View r)\<lparr>hv_Consent := no_consent, hv_ConsentAt := None\<rparr>, hr_Given := hr_Given r @ [no_consent]\<rparr>)"

definition hub_reach :: "hub_env \<Rightarrow> hub_view \<Rightarrow> bool" where
  "hub_reach env v \<longleftrightarrow> (\<exists>r. hub_runs env r \<and> hr_View r = v)"

lemma below_admin:
  "roleRank role < roleRank ''admin'' \<Longrightarrow> de_Allowed (Decide role ActChangeAccess \<lparr>re_Role = [], re_Widening = b\<rparr>) \<longleftrightarrow> \<not> b"
  by (auto simp: Decide_def ranked_def levelRole_def)

subsection \<open>Nothing beyond the grant is held\<close>

definition node_within :: "int \<Rightarrow> consent \<Rightarrow> node_facts \<Rightarrow> bool" where
  "node_within t c n \<longleftrightarrow> 1 \<le> t \<and> (t < 2 \<longrightarrow> blank_pods n = n) \<and> (Has c ''probes'' \<longrightarrow> blank_probe n = n)"

definition ns_within :: "int \<Rightarrow> consent \<Rightarrow> namespace_facts \<Rightarrow> bool" where
  "ns_within t c n \<longleftrightarrow> 2 \<le> t \<and> ns_Name n \<notin> set (co_Excluded c)"

definition wl_within :: "int \<Rightarrow> consent \<Rightarrow> workload_facts \<Rightarrow> bool" where
  "wl_within t c w \<longleftrightarrow> 2 \<le> t \<and> wl_Namespace w \<notin> set (co_Excluded c)"

definition cluster_within :: "int \<Rightarrow> cluster_facts option \<Rightarrow> bool" where
  "cluster_within t x \<longleftrightarrow> (t < 1 \<longrightarrow> (case x of None \<Rightarrow> True | Some k \<Rightarrow> blank_classes k = k))"

definition holds_only :: "int \<Rightarrow> consent \<Rightarrow> state \<Rightarrow> bool" where
  "holds_only t c st \<longleftrightarrow> (\<forall>n \<in> snd ` set (s_Nodes st). node_within t c n)
     \<and> (\<forall>n \<in> snd ` set (s_Namespaces st). ns_within t c n)
     \<and> (\<forall>w \<in> snd ` set (s_Workloads st). wl_within t c w)
     \<and> cluster_within t (s_Cluster st)"

definition message_within :: "int \<Rightarrow> consent \<Rightarrow> sync_msg \<Rightarrow> bool" where
  "message_within t c m \<longleftrightarrow> list_all (node_within t c) (sy_Nodes m) \<and> list_all (ns_within t c) (sy_Namespaces m)
     \<and> list_all (wl_within t c) (sy_Workloads m) \<and> cluster_within t (sy_Cluster m)"

lemma put_all_values: "snd ` set (fst (put_all sz key mb vs)) \<subseteq> snd ` set (fst mb) \<union> set vs"
proof (induction sz key mb vs rule: put_all.induct)
  case (2 sz key m b v vs)
  have "snd ` set (AList.update (key v) v m) \<subseteq> snd ` set m \<union> {v}"
    by (induction m) auto
  moreover have "snd ` set (fst (put_all sz key (m, b) (v # vs))) \<subseteq> snd ` set (AList.update (key v) v m) \<union> set vs"
    using 2 by (simp add: put_def)
  ultimately show ?case unfolding fst_conv list.set by blast
qed simp

lemma drop_all_values: "snd ` set (fst (drop_all sz mb ks)) \<subseteq> snd ` set (fst mb)"
proof (induction sz mb ks rule: drop_all.induct)
  case (2 sz m b k ks)
  have "snd ` set (AList.delete k m) \<subseteq> snd ` set m" by (auto simp: AList.delete_eq)
  then have sub: "snd ` set (fst (drop_key sz m k)) \<subseteq> snd ` set m"
    by (cases "map_of m k") (simp_all add: drop_key_def)
  have "snd ` set (fst (drop_all sz (m, b) (k # ks))) \<subseteq> snd ` set (fst (drop_key sz m k))"
    using 2 by (simp add: split_beta)
  then show ?case unfolding fst_conv using sub by (rule order_trans)
qed simp

lemma merge_kind_values:
  "snd ` set (fst (merge_kind sz key full mb add del)) \<subseteq> (if full then {} else snd ` set (fst mb)) \<union> set add"
proof -
  have "snd ` set (fst (merge_kind sz key full mb add del)) \<subseteq> snd ` set (fst (put_all sz key (if full then ([], 0) else mb) add))"
    unfolding merge_kind_def by (rule drop_all_values)
  also have "\<dots> \<subseteq> snd ` set (fst (if full then ([], 0) else mb)) \<union> set add" by (rule put_all_values)
  finally show ?thesis by (simp split: if_splits)
qed

text \<open>The same, for any conditions on the four kinds of entity: what a merge leaves keeps what both sides keep.\<close>

definition all_held :: "(node_facts \<Rightarrow> bool) \<Rightarrow> (namespace_facts \<Rightarrow> bool) \<Rightarrow> (workload_facts \<Rightarrow> bool)
    \<Rightarrow> (cluster_facts option \<Rightarrow> bool) \<Rightarrow> state \<Rightarrow> bool" where
  "all_held P Q R K st \<longleftrightarrow> (\<forall>n \<in> snd ` set (s_Nodes st). P n) \<and> (\<forall>n \<in> snd ` set (s_Namespaces st). Q n)
     \<and> (\<forall>w \<in> snd ` set (s_Workloads st). R w) \<and> K (s_Cluster st)"

definition all_sent :: "(node_facts \<Rightarrow> bool) \<Rightarrow> (namespace_facts \<Rightarrow> bool) \<Rightarrow> (workload_facts \<Rightarrow> bool)
    \<Rightarrow> (cluster_facts option \<Rightarrow> bool) \<Rightarrow> sync_msg \<Rightarrow> bool" where
  "all_sent P Q R K m \<longleftrightarrow> list_all P (sy_Nodes m) \<and> list_all Q (sy_Namespaces m) \<and> list_all R (sy_Workloads m) \<and> K (sy_Cluster m)"

lemma Apply_all_held:
  assumes "sy_Full m \<or> all_held P Q R K st" "all_sent P Q R K m" "sy_Cluster m = None \<Longrightarrow> K (s_Cluster st)"
  shows "all_held P Q R K (Apply ops st m)"
proof -
  have merge: "\<forall>x \<in> snd ` set (fst (merge_kind sz key (sy_Full m) mb add del)). P x"
    if "list_all P add" "sy_Full m \<or> (\<forall>x \<in> snd ` set (fst mb). P x)" for sz key mb add del and P :: "'v \<Rightarrow> bool"
  proof
    fix x assume "x \<in> snd ` set (fst (merge_kind sz key (sy_Full m) mb add del))"
    from subsetD [OF merge_kind_values this] show "P x" using that by (auto simp: list_all_iff split: if_splits)
  qed
  show ?thesis
    unfolding all_held_def Apply_fields using assms
    by (intro conjI merge) (auto simp: all_held_def all_sent_def split: option.splits)
qed

lemma holds_only_all: "holds_only t c = all_held (node_within t c) (ns_within t c) (wl_within t c) (cluster_within t)"
  by (rule ext) (simp add: holds_only_def all_held_def)

lemma message_within_all: "message_within t c = all_sent (node_within t c) (ns_within t c) (wl_within t c) (cluster_within t)"
  by (rule ext) (simp add: message_within_def all_sent_def)

lemma Apply_holds_only:
  assumes "sy_Full m \<or> holds_only t c st" "message_within t c m" "sy_Cluster m = None \<Longrightarrow> cluster_within t (s_Cluster st)"
  shows "holds_only t c (Apply ops st m)"
  using assms unfolding holds_only_all message_within_all by (rule Apply_all_held)

lemma cut_within: "message_within t c (fst (cut_sync t c m))"
  by (auto simp: cut_sync_def Let_def message_within_def ApplyConsent_fields DropAboveTier_fields list_all_iff
      node_within_def ns_within_def wl_within_def cluster_within_def split: option.splits)

lemma held_within: "holds_only t c st \<Longrightarrow> message_within t c (held_picture st)"
  by (auto simp: holds_only_def message_within_def held_picture_def Snapshot_def list_all_iff)

lemma blank_pods_keeps_probe: "blank_probe n = n \<Longrightarrow> blank_probe (blank_pods n) = blank_pods n"
  by (metis blank_absorb(5))

lemma drop_within:
  assumes "message_within t' c m" "t \<le> t'"
  shows "message_within t c (DropAboveTier t m)"
  using assms by (auto simp: message_within_def DropAboveTier_fields list_all_iff node_within_def ns_within_def
      wl_within_def cluster_within_def blank_pods_keeps_probe split: option.splits)

lemma consent_within:
  assumes "message_within t c m"
  shows "message_within t c' (ApplyConsent c' m)"
  using assms by (auto simp: message_within_def ApplyConsent_fields list_all_iff node_within_def ns_within_def
      wl_within_def cluster_within_def)

definition view_ok :: "hub_env \<Rightarrow> hub_view \<Rightarrow> bool" where
  "view_ok env v \<longleftrightarrow> state_wf (he_ops env) (hv_State v) \<and> canonical (hv_Consent v)
     \<and> holds_only (ag_AccessTier (hv_Agent v)) (hv_Consent v) (hv_State v)
     \<and> (hv_LastSync v = None \<longrightarrow> s_Cluster (hv_State v) = None \<and> s_Nodes (hv_State v) = []
          \<and> s_Namespaces (hv_State v) = [] \<and> s_Workloads (hv_State v) = [])"

lemma holds_only_wider:
  assumes "holds_only t c st" "no_wider (t, c) (t', c')"
  shows "holds_only t' c' st"
  using assms by (auto simp: holds_only_def no_wider_def node_within_def ns_within_def wl_within_def cluster_within_def
      Has_set subset_iff split: option.splits)

lemma holds_only_empty:
  "s_Cluster st = None \<Longrightarrow> s_Nodes st = [] \<Longrightarrow> s_Namespaces st = [] \<Longrightarrow> s_Workloads st = [] \<Longrightarrow> holds_only t c st"
  by (simp add: holds_only_def cluster_within_def)

lemma no_wider_refl: "t \<le> t' \<Longrightarrow> no_wider (t, c) (t', c)"
  by (simp add: no_wider_def)

lemma ApplySync_ok:
  assumes "view_ok env v" "ApplySync env now s fullSeen v = Inr w"
  shows "view_ok env w \<and> hv_Agent w = hv_Agent v \<and> hv_Consent w = hv_Consent v"
proof -
  let ?m = "fst (cut_sync (ag_AccessTier (hv_Agent v)) (hv_Consent v) s)"
  have w: "hv_State w = Apply (he_ops env) (hv_State v) ?m" "hv_Agent w = hv_Agent v" "hv_Consent w = hv_Consent v"
    "hv_LastSync w \<noteq> None"
    using assms(2) by (auto simp: ApplySync_def merge_sync_def Let_def split: prod.splits option.splits if_splits)
  have "holds_only (ag_AccessTier (hv_Agent v)) (hv_Consent v) (Apply (he_ops env) (hv_State v) ?m)"
    using assms(1) by (intro Apply_holds_only cut_within) (auto simp: view_ok_def holds_only_def)
  then show ?thesis using assms(1) w by (auto simp: view_ok_def Apply_wf)
qed

text \<open>Putting back a cut full picture leaves the state within what it was cut to.\<close>

lemma refill_ok:
  assumes "state_wf ops st" "message_within t c m" "sy_Full m" "sy_Cluster m = None \<Longrightarrow> cluster_within t (s_Cluster st)"
  shows "state_wf ops (Apply ops st m) \<and> holds_only t c (Apply ops st m)"
proof
  show "state_wf ops (Apply ops st m)" using assms(1) by (rule Apply_wf)
  show "holds_only t c (Apply ops st m)" using assms by (intro Apply_holds_only) auto
qed

lemma narrowState_ok:
  assumes "view_ok env v" "tier \<le> ag_AccessTier (hv_Agent v)"
  shows "view_ok env (narrowState env now tier (v\<lparr>hv_Agent := a\<lparr>ag_AccessTier := tier\<rparr>\<rparr>))"
proof (cases "hv_LastSync v")
  case None
  then show ?thesis using assms holds_only_empty by (auto simp: narrowState_def view_ok_def)
next
  case (Some ls)
  let ?m = "DropAboveTier tier (held_picture (hv_State v))"
  have "message_within tier (hv_Consent v) ?m"
    using assms by (intro drop_within held_within) (auto simp: view_ok_def)
  moreover have "sy_Full ?m" "sy_Cluster ?m = None \<longrightarrow> s_Cluster (hv_State v) = None"
    by (auto simp: DropAboveTier_fields held_picture_def Snapshot_def)
  ultimately have "state_wf (he_ops env) (Apply (he_ops env) (hv_State v) ?m)
      \<and> holds_only tier (hv_Consent v) (Apply (he_ops env) (hv_State v) ?m)"
    using assms by (intro refill_ok) (auto simp: view_ok_def cluster_within_def)
  then show ?thesis using Some assms by (simp add: narrowState_def view_ok_def)
qed

lemma narrowConsent_ok:
  assumes "view_ok env v" "canonical c"
  shows "view_ok env (narrowConsent env now c (v\<lparr>hv_Consent := c, hv_ConsentAt := at0\<rparr>))"
proof (cases "hv_LastSync v")
  case None
  then show ?thesis using assms holds_only_empty by (auto simp: narrowConsent_def view_ok_def)
next
  case (Some ls)
  let ?m = "ApplyConsent c (held_picture (hv_State v))" and ?t = "ag_AccessTier (hv_Agent v)"
  have "message_within ?t c ?m"
    using assms by (intro consent_within [OF held_within]) (auto simp: view_ok_def)
  moreover have "sy_Full ?m" "sy_Cluster ?m = None \<longrightarrow> s_Cluster (hv_State v) = None"
    by (auto simp: ApplyConsent_fields held_picture_def Snapshot_def)
  ultimately have "state_wf (he_ops env) (Apply (he_ops env) (hv_State v) ?m)
      \<and> holds_only ?t c (Apply (he_ops env) (hv_State v) ?m)"
    using assms by (intro refill_ok) (auto simp: view_ok_def cluster_within_def)
  then show ?thesis using Some assms by (simp add: narrowConsent_def view_ok_def)
qed

lemma ConsentNarrows_iff:
  "ConsentNarrows cur nxt \<longleftrightarrow>
     \<not> (set (co_Paused nxt) \<subseteq> set (co_Paused cur) \<and> set (co_Excluded nxt) \<subseteq> set (co_Excluded cur))"
  by (auto simp: ConsentNarrows_def list_ex_iff Has_set)

lemma SetAgentTier_ok:
  assumes "view_ok env v" "SetAgentTier env now role tier saved v = Inr w"
  shows "view_ok env w"
proof -
  have "w = v \<or> w = (if tier < ag_AccessTier (hv_Agent v)
      then narrowState env now tier (v\<lparr>hv_Agent := (hv_Agent v)\<lparr>ag_AccessTier := tier\<rparr>\<rparr>)
      else v\<lparr>hv_Agent := (hv_Agent v)\<lparr>ag_AccessTier := tier\<rparr>\<rparr>)"
    using assms(2) by (auto simp: SetAgentTier_def Let_def split: sum.splits if_splits)
  moreover have "view_ok env (v\<lparr>hv_Agent := (hv_Agent v)\<lparr>ag_AccessTier := tier\<rparr>\<rparr>)" if "\<not> tier < ag_AccessTier (hv_Agent v)"
    using assms(1) that holds_only_wider [OF _ no_wider_refl] by (auto simp: view_ok_def)
  ultimately show ?thesis using assms(1) narrowState_ok [OF assms(1)] by (auto split: if_splits)
qed

lemma tier_asked_write:
  assumes "tier_asked role tier a = Inr True"
  shows "CheckTier tier (ag_InstalledTier a) (ag_TierCap a) = TierAllowed
    \<and> de_Allowed (Decide role ActChangeAccess \<lparr>re_Role = [], re_Widening = tier > ag_AccessTier a\<rparr>)"
  using assms by (auto simp: tier_asked_def Let_def CheckTier_def split: if_splits)

lemma consent_asked_write:
  assumes "consent_asked role c a cur = Inr (Some nxt)"
  shows "CleanConsent c = Inr nxt \<and> de_Allowed (Decide role ActChangeAccess \<lparr>re_Role = [], re_Widening = ConsentNarrows nxt cur\<rparr>)"
  using assms by (auto simp: consent_asked_def split: if_splits sum.splits)

lemma SetConsent_result:
  assumes "SetConsent env now role c saved v = Inr w"
  shows "w = v \<or> (\<exists>nxt. CleanConsent c = Inr nxt \<and> de_Allowed (Decide role ActChangeAccess \<lparr>re_Role = [], re_Widening = ConsentNarrows nxt (hv_Consent v)\<rparr>)
     \<and> w = (if ConsentNarrows (hv_Consent v) nxt then narrowConsent env now nxt (v\<lparr>hv_Consent := nxt, hv_ConsentAt := Some now\<rparr>)
            else v\<lparr>hv_Consent := nxt, hv_ConsentAt := Some now\<rparr>))"
proof -
  consider "w = v" | nxt where "consent_asked role c (hv_Agent v) (hv_Consent v) = Inr (Some nxt)"
    "w = (if ConsentNarrows (hv_Consent v) nxt then narrowConsent env now nxt (v\<lparr>hv_Consent := nxt, hv_ConsentAt := Some now\<rparr>)
          else v\<lparr>hv_Consent := nxt, hv_ConsentAt := Some now\<rparr>)"
    using assms by (auto simp: SetConsent_def Let_def split: if_splits sum.splits option.splits)
  then show ?thesis using consent_asked_write by cases blast+
qed

lemma SetConsent_ok:
  assumes "view_ok env v" "SetConsent env now role c saved v = Inr w"
  shows "view_ok env w"
  using SetConsent_result [OF assms(2)]
proof (elim disjE exE conjE)
  fix nxt
  assume clean: "CleanConsent c = Inr nxt" and w: "w = (if ConsentNarrows (hv_Consent v) nxt
      then narrowConsent env now nxt (v\<lparr>hv_Consent := nxt, hv_ConsentAt := Some now\<rparr>)
      else v\<lparr>hv_Consent := nxt, hv_ConsentAt := Some now\<rparr>)"
  note can = CleanConsent_Inr(1) [OF clean]
  show ?thesis
  proof (cases "ConsentNarrows (hv_Consent v) nxt")
    case True
    then show ?thesis using w narrowConsent_ok [OF assms(1) can] by simp
  next
    case False
    then have "no_wider (ag_AccessTier (hv_Agent v), hv_Consent v) (ag_AccessTier (hv_Agent v), nxt)"
      by (auto simp: no_wider_def ConsentNarrows_iff)
    then show ?thesis using w False assms(1) can holds_only_wider by (auto simp: view_ok_def)
  qed
qed (use assms in simp)

lemma NoteCeiling_ok: "view_ok env v \<Longrightarrow> view_ok env (NoteCeiling env now reported a b v)"
proof -
  assume ok: "view_ok env v"
  have "narrowState env now t (v\<lparr>hv_Agent := (x\<lparr>ag_InstalledTier := y\<rparr>)\<lparr>ag_AccessTier := t\<rparr>\<rparr>)
      = narrowState env now t (v\<lparr>hv_Agent := (x\<lparr>ag_InstalledTier := y\<rparr>)\<lparr>ag_AccessTier := t\<rparr>\<rparr>)" for t x y ..
  then show ?thesis
    using ok narrowState_ok [OF ok]
    by (auto simp: NoteCeiling_def Let_def) (auto simp: view_ok_def)
qed

lemma persist_ok: "view_ok env v \<Longrightarrow> view_ok env (persist env now force saved v)"
  by (auto simp: persist_def take_picture_def save_picture_def view_ok_def split: option.splits)

lemma heartbeat_ok: "view_ok env v \<Longrightarrow> view_ok env (heartbeat_modules now ms v)"
  by (auto simp: heartbeat_modules_def view_ok_def state_wf_def holds_only_def)

lemma hub_do_ok:
  assumes "view_ok env v"
  shows "view_ok env (hub_do env ev v)"
proof (cases ev)
  case (EvSync now s fullSeen)
  have "view_ok env (v\<lparr>hv_Refused := True\<rparr>)" using assms by (simp add: view_ok_def)
  then show ?thesis using EvSync ApplySync_ok [OF assms] by (auto split: sum.splits)
next
  case (EvHello protocol caps diag)
  then show ?thesis using assms by (simp add: view_ok_def)
next
  case (EvTier now role tier saved)
  then show ?thesis using assms SetAgentTier_ok [OF assms] by (auto split: sum.splits)
next
  case (EvConsent now role c saved)
  then show ?thesis using assms SetConsent_ok [OF assms] by (auto split: sum.splits)
qed (simp_all add: heartbeat_ok [OF assms] NoteCeiling_ok [OF assms] persist_ok [OF assms])

lemma hub_evs_ok: "view_ok env v \<Longrightarrow> view_ok env (fold (hub_do env) evs v)"
  by (induction evs arbitrary: v) (simp_all add: hub_do_ok)

subsection \<open>What overlapping calls hold\<close>

definition granted_to :: "agent list \<Rightarrow> consent list \<Rightarrow> (int \<Rightarrow> consent \<Rightarrow> 'a \<Rightarrow> bool) \<Rightarrow> 'a \<Rightarrow> bool" where
  "granted_to rows cs P x \<longleftrightarrow> (\<exists>a \<in> set rows. \<exists>c \<in> set cs. P (ag_AccessTier a) c x)"

definition held_granted :: "agent list \<Rightarrow> consent list \<Rightarrow> state \<Rightarrow> bool" where
  "held_granted rows cs = all_held (granted_to rows cs node_within) (granted_to rows cs ns_within) (granted_to rows cs wl_within)
     (granted_to rows cs (\<lambda>t _. cluster_within t))"

definition sent_granted :: "agent list \<Rightarrow> consent list \<Rightarrow> sync_msg \<Rightarrow> bool" where
  "sent_granted rows cs = all_sent (granted_to rows cs node_within) (granted_to rows cs ns_within) (granted_to rows cs wl_within)
     (granted_to rows cs (\<lambda>t _. cluster_within t))"

lemma granted_to_mono: "granted_to rows cs P x \<Longrightarrow> set rows \<subseteq> set rows' \<Longrightarrow> set cs \<subseteq> set cs' \<Longrightarrow> granted_to rows' cs' P x"
  unfolding granted_to_def by blast

lemma held_granted_mono:
  "held_granted rows cs st \<Longrightarrow> set rows \<subseteq> set rows' \<Longrightarrow> set cs \<subseteq> set cs' \<Longrightarrow> held_granted rows' cs' st"
  by (auto simp: held_granted_def all_held_def intro: granted_to_mono)

lemma sent_granted_mono:
  "sent_granted rows cs m \<Longrightarrow> set rows \<subseteq> set rows' \<Longrightarrow> set cs \<subseteq> set cs' \<Longrightarrow> sent_granted rows' cs' m"
  by (auto simp: sent_granted_def all_sent_def list_all_iff intro: granted_to_mono)

lemma cut_granted: "a \<in> set rows \<Longrightarrow> c \<in> set cs \<Longrightarrow> sent_granted rows cs (fst (cut_sync (ag_AccessTier a) c s))"
  using cut_within [of "ag_AccessTier a" c s]
  unfolding message_within_def sent_granted_def all_sent_def granted_to_def list_all_iff by blast

lemma held_sent: "held_granted rows cs st \<Longrightarrow> sent_granted rows cs (held_picture st)" "held_granted rows cs st \<Longrightarrow> sent_granted rows cs (Snapshot st)"
  by (auto simp: held_granted_def all_held_def sent_granted_def all_sent_def held_picture_def Snapshot_def list_all_iff)

lemma node_within_blank: "node_within t c n \<Longrightarrow> node_within t c (blank_pods n)" "node_within t c n \<Longrightarrow> node_within t c (blank_probe n)"
  by (auto simp: node_within_def blank_pods_keeps_probe)

lemma granted_to_blank:
  "granted_to rows cs node_within n \<Longrightarrow> granted_to rows cs node_within (blank_pods n)"
  "granted_to rows cs node_within n \<Longrightarrow> granted_to rows cs node_within (blank_probe n)"
  "granted_to rows cs (\<lambda>t _. cluster_within t) x \<Longrightarrow> granted_to rows cs (\<lambda>t _. cluster_within t) (map_option blank_classes x)"
  unfolding granted_to_def using node_within_blank by (blast, blast) (auto simp: cluster_within_def split: option.splits)

lemma sent_granted_cuts:
  assumes "sent_granted rows cs m"
  shows "sent_granted rows cs (DropAboveTier t m)" "sent_granted rows cs (ApplyConsent c m)"
  using assms
  by (auto simp: sent_granted_def all_sent_def DropAboveTier_fields ApplyConsent_fields list_all_iff granted_to_blank)

lemma Apply_granted:
  assumes "held_granted rows cs st" "sent_granted rows cs m"
  shows "held_granted rows cs (Apply ops st m)"
  using assms unfolding held_granted_def sent_granted_def
  by (intro Apply_all_held) (auto simp: all_held_def)

lemma New_granted: "rows \<noteq> [] \<Longrightarrow> cs \<noteq> [] \<Longrightarrow> held_granted rows cs New"
  by (cases rows; cases cs) (auto simp: held_granted_def all_held_def New_def granted_to_def cluster_within_def)

text \<open>What every run keeps.\<close>

definition run_ok :: "hub_env \<Rightarrow> hub_run \<Rightarrow> bool" where
  "run_ok env r \<longleftrightarrow> state_wf (he_ops env) (hv_State (hr_View r))
     \<and> hv_Agent (hr_View r) \<in> set (hr_Agents r) \<and> hv_Consent (hr_View r) \<in> set (hr_Given r)
     \<and> (\<forall>c \<in> set (hr_Given r). canonical c) \<and> held_granted (hr_Agents r) (hr_Given r) (hv_State (hr_View r))
     \<and> (\<forall>m \<in> set (hr_Taken r) \<union> fst ` set_option (hv_Stored (hr_View r)). sent_granted (hr_Agents r) (hr_Given r) m)"

lemma run_okD:
  assumes "run_ok env r"
  shows "state_wf (he_ops env) (hv_State (hr_View r))" "held_granted (hr_Agents r) (hr_Given r) (hv_State (hr_View r))"
    "canonical (hv_Consent (hr_View r))" "hr_Agents r \<noteq> []" "hr_Given r \<noteq> []"
  using assms by (auto simp: run_ok_def)

lemma run_ok_view:
  assumes "run_ok env r" "hv_Agent w = hv_Agent (hr_View r)" "hv_Consent w \<in> set (hr_Given r)"
    "hv_State w = hv_State (hr_View r)
     \<or> (\<exists>m. hv_State w = Apply (he_ops env) (hv_State (hr_View r)) m \<and> sent_granted (hr_Agents r) (hr_Given r) m)"
    "hv_Stored w = hv_Stored (hr_View r)"
  shows "run_ok env (r\<lparr>hr_View := w\<rparr>)"
  using assms by (auto simp: run_ok_def Apply_wf Apply_granted)

lemma write_agent_ok: "run_ok env r \<Longrightarrow> run_ok env (write_agent a r)"
  unfolding run_ok_def write_agent_def
  by (auto intro: held_granted_mono sent_granted_mono)

lemma narrow_run_ok:
  assumes "run_ok env r"
  shows "run_ok env (r\<lparr>hr_View := narrowState env now t (hr_View r)\<rparr>)" "run_ok env (r\<lparr>hr_View := narrowConsent env now c (hr_View r)\<rparr>)"
proof -
  let ?m = "held_picture (hv_State (hr_View r))"
  have "sent_granted (hr_Agents r) (hr_Given r) (DropAboveTier t ?m)" "sent_granted (hr_Agents r) (hr_Given r) (ApplyConsent c ?m)"
    using run_okD(2) [OF assms] by (intro sent_granted_cuts held_sent, assumption)+
  then show "run_ok env (r\<lparr>hr_View := narrowState env now t (hr_View r)\<rparr>)" "run_ok env (r\<lparr>hr_View := narrowConsent env now c (hr_View r)\<rparr>)"
    using assms by (auto simp: run_ok_def Apply_wf Apply_granted narrowState_def narrowConsent_def)
qed

lemma heartbeat_granted: "held_granted rows cs st \<Longrightarrow> held_granted rows cs (st\<lparr>s_Modules := ms\<rparr>)"
  by (simp add: held_granted_def all_held_def)

lemma Restore_ok:
  assumes ok: "run_ok env r" and c: "c \<in> set (hr_Given r)"
  shows "run_ok env (r\<lparr>hr_View := Restore env ((hr_View r)\<lparr>hv_Consent := c, hv_ConsentAt := at0\<rparr>)\<rparr>)"
proof -
  let ?w = "Restore env ((hr_View r)\<lparr>hv_Consent := c, hv_ConsentAt := at0\<rparr>)"
  have f: "hv_Agent ?w = hv_Agent (hr_View r)" "hv_Consent ?w = c" "hv_Stored ?w = hv_Stored (hr_View r)"
    by (auto simp: Restore_def NewView_def Let_def split: option.splits prod.splits)
  have "hv_State ?w = New \<or> (\<exists>m t. hv_Stored (hr_View r) = Some (m, t) \<and> hv_State ?w = Apply (he_ops env) New m)"
    by (auto simp: Restore_def NewView_def loadState_def Let_def split: option.splits prod.splits if_splits)
  then have "state_wf (he_ops env) (hv_State ?w) \<and> held_granted (hr_Agents r) (hr_Given r) (hv_State ?w)"
    using ok run_okD(4,5) [OF ok]
    by (auto simp: New_wf New_granted run_ok_def intro!: Apply_wf Apply_granted)
  then show ?thesis using ok c f by (simp add: run_ok_def)
qed

lemma hub_runs_ok: "hub_runs env r \<Longrightarrow> run_ok env r"
proof (induction rule: hub_runs.induct)
  case (run_start c a)
  then show ?case by (simp add: run_ok_def NewView_def New_wf New_granted canonical_none)
next
  case (run_merge r a c now s fullSeen w)
  have w: "hv_State w = Apply (he_ops env) (hv_State (hr_View r)) (fst (cut_sync (ag_AccessTier a) c s))"
    "hv_Agent w = hv_Agent (hr_View r)" "hv_Consent w = hv_Consent (hr_View r)" "hv_Stored w = hv_Stored (hr_View r)"
    using run_merge.hyps(4) by (auto simp: merge_sync_def Let_def split: prod.splits option.splits)
  show ?case
    using run_merge cut_granted w by (intro run_ok_view) (auto simp: run_ok_def)
next
  case (run_heartbeat r now ms)
  then show ?case by (auto simp: run_ok_def heartbeat_modules_def heartbeat_granted state_wf_def)
next
  case (run_save_consent r a cur role c nxt)
  have "canonical nxt" using consent_asked_write [OF run_save_consent.hyps(4)] CleanConsent_Inr(1) by blast
  then show ?case using run_save_consent.IH
    by (auto simp: run_ok_def intro: held_granted_mono sent_granted_mono)
next
  case (run_take r now force m w)
  then have "m = Snapshot (hv_State (hr_View r))" "w = (hr_View r)\<lparr>hv_savedAt := Some now\<rparr>"
    by (auto simp: take_picture_def split: option.splits if_splits)
  then show ?case using run_take.IH by (auto simp: run_ok_def held_sent)
next
  case (run_save r m now saved)
  then show ?case by (auto simp: run_ok_def save_picture_def)
next
  case (run_restart r at0)
  then show ?case using Restore_ok run_okD(5) hd_in_set by blast
next
  case (run_restart_blind r)
  then show ?case using run_okD(4,5) [OF run_restart_blind.IH]
    by (simp add: run_ok_def NewView_def New_wf New_granted)
next
  case (run_unread r)
  then show ?case by (auto simp: run_ok_def canonical_none intro: held_granted_mono sent_granted_mono)
qed (simp_all add: write_agent_ok narrow_run_ok, simp_all add: run_ok_def)

lemma hub_reach_wf: "hub_reach env v \<Longrightarrow> state_wf (he_ops env) (hv_State v) \<and> canonical (hv_Consent v)"
  unfolding hub_reach_def using run_okD(1,3) [OF hub_runs_ok] by blast

lemma reach_start: "hub_reach env (NewView a no_consent)"
  using run_start [OF canonical_none] hub_reach_def by fastforce

text \<open>A message that nothing interrupts, and a picture taken and saved at once, are runs.\<close>

lemma run_sync:
  assumes "hub_runs env r"
  shows "hub_runs env (r\<lparr>hr_View := hub_do env (EvSync now s fullSeen) (hr_View r)\<rparr>)"
proof (cases "ApplySync env now s fullSeen (hr_View r)")
  case (Inl e)
  then show ?thesis using run_refuse [OF assms] by simp
next
  case (Inr w)
  have "hv_Agent (hr_View r) \<in> set (hr_Agents r)" "hv_Consent (hr_View r) \<in> set (hr_Given r)"
    using hub_runs_ok [OF assms] by (auto simp: run_ok_def)
  from run_merge [OF assms this] Inr show ?thesis by (simp add: ApplySync_def)
qed

lemma run_persist:
  assumes "hub_runs env r"
  shows "\<exists>r'. hub_runs env r' \<and> hr_View r' = persist env now force saved (hr_View r)"
proof (cases "take_picture now force (hr_View r)")
  case None
  then show ?thesis using assms by (auto simp: persist_def)
next
  case (Some mw)
  then obtain m w where t: "take_picture now force (hr_View r) = Some (m, w)" by (cases mw) auto
  let ?r = "r\<lparr>hr_View := w, hr_Taken := m # hr_Taken r\<rparr>"
  have "hub_runs env (?r\<lparr>hr_View := save_picture env now saved m (hr_View ?r)\<rparr>)"
    by (rule run_save [OF run_take [OF assms t]]) simp
  moreover have "hr_View (?r\<lparr>hr_View := save_picture env now saved m (hr_View ?r)\<rparr>) = persist env now force saved (hr_View r)"
    using t by (simp add: persist_def)
  ultimately show ?thesis by blast
qed

definition demo_env :: hub_env where
  "demo_env = \<lparr>he_ops = demo_ops, he_limits = DefaultLimits, he_sync_size = (\<lambda>_. 100), he_valid = (\<lambda>_. True)\<rparr>"

definition demo_held :: hub_view where
  "demo_held = hub_do demo_env (EvSync 1 demo_sync False) (NewView demo_agent no_consent)"

definition demo_run :: hub_run where
  "demo_run = \<lparr>hr_View = demo_held, hr_Agents = [demo_agent], hr_Given = [no_consent], hr_Taken = []\<rparr>"

lemma demo_run_runs: "hub_runs demo_env demo_run"
  using run_sync [OF run_start [OF canonical_none, of demo_env demo_agent], of 1 demo_sync False] by (simp add: demo_run_def demo_held_def)

lemma demo_held_reach: "hub_reach demo_env demo_held"
  using demo_run_runs unfolding hub_reach_def demo_run_def by force

definition exclude_bc :: consent where "exclude_bc = \<lparr>co_Paused = [], co_Excluded = [''bc'']\<rparr>"

lemma exclude_bc_canonical: "canonical exclude_bc"
  by (simp add: canonical_def exclude_bc_def MaxExcluded_def good_namespace_def) code_simp

lemmas exclude_bc_clean = CleanConsent_canonical [OF exclude_bc_canonical]

text \<open>The same sync for an agent whose overrides leave out one of the two namespaces it sends.\<close>

definition demo_two :: sync_msg where "demo_two = demo_sync\<lparr>sy_DeletedNamespaces := []\<rparr>"

definition demo_kept :: hub_view where
  "demo_kept = hub_do demo_env (EvSync 1 demo_two False) (NewView demo_agent exclude_bc)"

lemma demo_kept_runs: "hub_runs demo_env \<lparr>hr_View = demo_kept, hr_Agents = [demo_agent], hr_Given = [exclude_bc], hr_Taken = []\<rparr>"
  using run_sync [OF run_start [OF exclude_bc_canonical, of demo_env demo_agent], of 1 demo_two False] by (simp add: demo_kept_def)

text \<open>
  C1. The server never holds anything of a cluster that was not granted at some time. However the calls overlap - messages
  cut to a tier and overrides read earlier and merged later, tiers and overrides saved, set and narrowed in separate
  steps, ceilings that follow the install, pictures taken now and stored later, restarts that load the stored picture and
  the overrides or fail to read them - every node, namespace and workload held, and the cluster's own record, is within a tier the
  agent's record has had and overrides that were in force (none, once they could not be read): nothing above every tier
  that was ever approved, no namespace or workload that all of these overrides leave out, no machine-identifying field of a
  node if the node probe was paused in all of them.
\<close>

theorem hub_holds_only_granted:
  assumes "hub_runs env r"
  shows "held_granted (hr_Agents r) (hr_Given r) (hv_State (hr_View r))"
  using hub_runs_ok [OF assms] by (rule run_okD)

theorem hub_holds_only_granted_witness:
  "held_granted [demo_agent] [exclude_bc] (hv_State demo_kept)
   \<and> map fst (s_Namespaces (hv_State demo_kept)) = [''a''] \<and> map ns_Name (sy_Namespaces demo_two) = [''a'', ''bc'']"
proof (intro conjI)
  show "held_granted [demo_agent] [exclude_bc] (hv_State demo_kept)"
    using hub_holds_only_granted [OF demo_kept_runs] by simp
qed code_simp+

text \<open>
  A full picture brings what is held within the grant in force, and calls that do not overlap keep it there. Whatever
  a run of overlapping calls and restarts has left in the view, once a full picture is cut and merged with nothing in
  between, with the cluster's own record in it if one was held, every later sequence of complete calls - messages, heartbeats, tiers and overrides
  changed by anyone, ceilings lowered by the install, writes that fail - leaves no entity above the approved tier, no
  namespace or workload on the excluded list, no machine-identifying field while the node probe is paused, and no
  pod-derived figure below tier 2.
\<close>

theorem full_picture_settles:
  assumes "hub_reach env v" "sy_Full s" "sy_Cluster s \<noteq> None \<or> s_Cluster (hv_State v) = None" "ApplySync env now s fullSeen v = Inr w"
  shows "let u = fold (hub_do env) evs w in holds_only (ag_AccessTier (hv_Agent u)) (hv_Consent u) (hv_State u)"
proof -
  let ?m = "fst (cut_sync (ag_AccessTier (hv_Agent v)) (hv_Consent v) s)"
  have m: "sy_Full ?m" "sy_Cluster ?m \<noteq> None \<or> s_Cluster (hv_State v) = None"
    using assms(2,3) by (auto simp: cut_sync_def Let_def ApplyConsent_fields DropAboveTier_fields)
  have cl: "cluster_within (ag_AccessTier (hv_Agent v)) (s_Cluster (hv_State v))" if "sy_Cluster ?m = None"
    using m(2) that by (simp add: cluster_within_def)
  have w: "hv_State w = Apply (he_ops env) (hv_State v) ?m" "hv_Agent w = hv_Agent v" "hv_Consent w = hv_Consent v" "hv_LastSync w \<noteq> None"
    using assms(4) by (auto simp: ApplySync_def merge_sync_def Let_def split: prod.splits option.splits if_splits)
  have "view_ok env w"
    using refill_ok [OF conjunct1 [OF hub_reach_wf [OF assms(1)]] cut_within m(1) cl] hub_reach_wf [OF assms(1)] w
    by (auto simp: view_ok_def)
  from hub_evs_ok [OF this] show ?thesis by (simp add: Let_def view_ok_def)
qed

theorem full_picture_settles_witness:
  "let u = fold (hub_do demo_env) [EvPersist 2 True True, EvTier 3 ''editor'' 1 True] demo_held
   in holds_only (ag_AccessTier (hv_Agent u)) (hv_Consent u) (hv_State u)"
proof -
  let ?v = "NewView demo_agent no_consent"
  have "\<not> isl (ApplySync demo_env 1 demo_sync False ?v)" by code_simp
  then obtain w where w: "ApplySync demo_env 1 demo_sync False ?v = Inr w"
    by (cases "ApplySync demo_env 1 demo_sync False ?v") auto
  have "sy_Full demo_sync" "sy_Cluster demo_sync \<noteq> None \<or> s_Cluster (hv_State ?v) = None"
    by (simp_all add: demo_sync_def NewView_def New_def)
  note full_picture_settles [OF reach_start this w]
  moreover have "demo_held = w" using w by (simp add: demo_held_def)
  ultimately show ?thesis by (simp only:)
qed

text \<open>
  C28. A message is merged only within the limits: in every reachable view, \<open>ApplySync\<close> refuses with exactly the limit
  the merged state would break, and what it accepts leaves a state that passes \<open>CheckState\<close>; a refusal changes nothing
  of what is held.
\<close>

theorem sync_within_limits:
  assumes "hub_reach env v"
  shows "case ApplySync env now s fullSeen v of
      Inl e \<Rightarrow> CheckState (he_ops env) (Apply (he_ops env) (hv_State v)
          (fst (cut_sync (ag_AccessTier (hv_Agent v)) (hv_Consent v) s))) (he_limits env) = Some e
          \<and> hv_State (hub_do env (EvSync now s fullSeen) v) = hv_State v
    | Inr w \<Rightarrow> CheckState (he_ops env) (hv_State w) (he_limits env) = None"
proof -
  have "Check (he_ops env) (hv_State v) m (he_limits env) = CheckState (he_ops env) (Apply (he_ops env) (hv_State v) m) (he_limits env)" for m
    using hub_reach_wf [OF assms] by (intro Check_CheckState) simp
  then show ?thesis
    by (auto simp: ApplySync_def merge_sync_def Let_def split: sum.splits prod.splits option.splits)
qed

theorem sync_within_limits_witness:
  "CheckState demo_ops (hv_State demo_held) DefaultLimits = None"
proof -
  let ?v = "NewView demo_agent no_consent"
  have "\<not> isl (ApplySync demo_env 1 demo_sync False ?v)" by code_simp
  then obtain w where w: "ApplySync demo_env 1 demo_sync False ?v = Inr w"
    by (cases "ApplySync demo_env 1 demo_sync False ?v") auto
  then have "demo_held = w" by (simp add: demo_held_def)
  then show ?thesis
    using sync_within_limits [OF reach_start [of demo_env demo_agent], where now = 1 and s = demo_sync and fullSeen = False] w by (simp add: demo_env_def)
qed

text \<open>
  C16. Only an administrator widens. When a caller below administrator changes an agent's consent or tier, everything the
  new grant leaves of any picture was already left by the grant the call read; and whoever makes the change, administrators
  and owners too, a tier that changes is within the release, the install's ceiling and the token's.
\<close>

theorem only_admin_widens:
  assumes "SetConsent env now role c saved v = Inr w \<or> SetAgentTier env now role tier saved v = Inr w"
  shows "(roleRank role < roleRank ''admin'' \<longrightarrow>
      cut_to (ag_AccessTier (hv_Agent w)) (hv_Consent w) (cut_to (ag_AccessTier (hv_Agent v)) (hv_Consent v) m)
      = cut_to (ag_AccessTier (hv_Agent w)) (hv_Consent w) m)
    \<and> (ag_AccessTier (hv_Agent w) = ag_AccessTier (hv_Agent v)
       \<or> CheckTier (ag_AccessTier (hv_Agent w)) (ag_InstalledTier (hv_Agent v)) (ag_TierCap (hv_Agent v)) = TierAllowed)"
  using assms
proof
  assume "SetConsent env now role c saved v = Inr w"
  from SetConsent_result [OF this] have "ag_AccessTier (hv_Agent w) = ag_AccessTier (hv_Agent v)"
    "roleRank role < roleRank ''admin'' \<Longrightarrow>
      no_wider (ag_AccessTier (hv_Agent w), hv_Consent w) (ag_AccessTier (hv_Agent v), hv_Consent v)"
    by (auto simp: below_admin no_wider_def ConsentNarrows_iff narrowConsent_def)
  then show ?thesis using cut_to_absorb by blast
next
  assume "SetAgentTier env now role tier saved v = Inr w"
  then have w: "w = v \<or> tier_asked role tier (hv_Agent v) = Inr True \<and> ag_AccessTier (hv_Agent w) = tier \<and> hv_Consent w = hv_Consent v"
    by (auto simp: SetAgentTier_def Let_def narrowState_def split: sum.splits if_splits)
  then have "roleRank role < roleRank ''admin'' \<Longrightarrow>
      no_wider (ag_AccessTier (hv_Agent w), hv_Consent w) (ag_AccessTier (hv_Agent v), hv_Consent v)"
    using tier_asked_write by (fastforce simp: below_admin no_wider_def)
  then show ?thesis using cut_to_absorb w tier_asked_write by blast
qed

definition demo_narrowed :: hub_view where
  "demo_narrowed = narrowConsent demo_env 3 exclude_bc (demo_held\<lparr>hv_Consent := exclude_bc, hv_ConsentAt := Some 3\<rparr>)"

lemma demo_held_fields:
  "ag_Status (hv_Agent demo_held) = ''approved''" "hv_Consent demo_held = no_consent" "ag_AccessTier (hv_Agent demo_held) = 2"
  by code_simp+

lemma demo_set_consent: "SetConsent demo_env 3 ''editor'' exclude_bc True demo_held = Inr demo_narrowed"
proof -
  have "ConsentNarrows no_consent exclude_bc" "\<not> ConsentNarrows exclude_bc no_consent" by code_simp+
  moreover have "join_comma (co_Excluded no_consent) \<noteq> join_comma (co_Excluded exclude_bc)" by code_simp
  ultimately show ?thesis
    by (simp add: SetConsent_def consent_asked_def Let_def exclude_bc_clean demo_held_fields Decide_def demo_narrowed_def)
qed

theorem only_admin_widens_witness:
  "\<forall>m. cut_to 2 exclude_bc (cut_to 2 no_consent m) = cut_to 2 exclude_bc m"
proof
  fix m
  show "cut_to 2 exclude_bc (cut_to 2 no_consent m) = cut_to 2 exclude_bc m"
proof -
  have "ag_AccessTier (hv_Agent demo_narrowed) = 2" "hv_Consent demo_narrowed = exclude_bc"
    by (simp_all add: demo_narrowed_def narrowConsent_def demo_held_fields)
  moreover have "roleRank ''editor'' < roleRank ''admin''" by code_simp
    ultimately show ?thesis
      using only_admin_widens [where role = "''editor''" and env = demo_env and now = 3 and c = exclude_bc and saved = True and v = demo_held and w = demo_narrowed and m = m] demo_set_consent
    by (simp add: demo_held_fields)
  qed
qed

subsection \<open>Two ways round a narrowing\<close>

text \<open>
  The stored copy is not narrowed with the picture: a copy stored before a namespace was left out comes back with it when
  the server restarts, and stays until the agent sends a full picture.
\<close>

lemma restart_brings_back_excluded:
  "\<exists>v w. hub_reach demo_env v \<and> SetConsent demo_env 3 ''editor'' exclude_bc True v = Inr w
     \<and> s_Namespaces (hv_State w) = []
     \<and> \<not> holds_only (ag_AccessTier (hv_Agent w)) (hv_Consent w) (hv_State (Restore demo_env w))"
proof -
  define v where "v = persist demo_env 2 True True demo_held"
  have reach: "hub_reach demo_env v"
    using run_persist [OF demo_run_runs, of 2 True True] by (auto simp: hub_reach_def v_def demo_run_def)
  have f: "ag_Status (hv_Agent v) = ''approved''" "hv_Consent v = no_consent" "ag_AccessTier (hv_Agent v) = 2"
    unfolding v_def by code_simp+
  let ?w = "narrowConsent demo_env 3 exclude_bc (v\<lparr>hv_Consent := exclude_bc, hv_ConsentAt := Some 3\<rparr>)"
  have "ConsentNarrows no_consent exclude_bc" "\<not> ConsentNarrows exclude_bc no_consent"
    "join_comma (co_Excluded no_consent) \<noteq> join_comma (co_Excluded exclude_bc)" by code_simp+
  then have set: "SetConsent demo_env 3 ''editor'' exclude_bc True v = Inr ?w"
    by (simp add: SetConsent_def consent_asked_def Let_def exclude_bc_clean f Decide_def)
  have gone: "s_Namespaces (hv_State ?w) = []" unfolding v_def by code_simp
  have "list_ex (\<lambda>n. ns_Name n \<in> set (co_Excluded exclude_bc)) (map snd (s_Namespaces (hv_State (Restore demo_env ?w))))"
    unfolding v_def by code_simp
  moreover have "hv_Consent ?w = exclude_bc" by (simp add: narrowConsent_def)
  ultimately have "\<not> holds_only (ag_AccessTier (hv_Agent ?w)) (hv_Consent ?w) (hv_State (Restore demo_env ?w))"
    by (auto simp: holds_only_def ns_within_def list_ex_iff)
  then show ?thesis using reach set gone by blast
qed

text \<open>
  \<open>ApplySync\<close> reads the tier and the consent before it takes the lock: when a narrowing falls between its two halves,
  the message cut to the old grant is merged after it.
\<close>

lemma late_merge_escapes_narrowing:
  "\<exists>v w u. hub_reach demo_env v \<and> SetConsent demo_env 3 ''editor'' exclude_bc True v = Inr w
     \<and> merge_sync demo_env 4 (cut_sync (ag_AccessTier (hv_Agent v)) (hv_Consent v) demo_sync) True w = Inr u
     \<and> \<not> holds_only (ag_AccessTier (hv_Agent u)) (hv_Consent u) (hv_State u)"
proof -
  let ?p = "cut_sync 2 no_consent demo_sync"
  have "case merge_sync demo_env 4 ?p True demo_narrowed of Inl _ \<Rightarrow> False
     | Inr u \<Rightarrow> list_ex (\<lambda>n. ns_Name n \<in> set (co_Excluded (hv_Consent u))) (map snd (s_Namespaces (hv_State u)))" by code_simp
  then obtain u where u: "merge_sync demo_env 4 ?p True demo_narrowed = Inr u"
    "list_ex (\<lambda>n. ns_Name n \<in> set (co_Excluded (hv_Consent u))) (map snd (s_Namespaces (hv_State u)))"
    by (auto split: sum.splits)
  then have "\<not> holds_only (ag_AccessTier (hv_Agent u)) (hv_Consent u) (hv_State u)"
    by (auto simp: holds_only_def ns_within_def list_ex_iff)
  then show ?thesis using demo_held_reach demo_set_consent u(1) demo_held_fields by metis
qed

end
