(* ===== verification/Flow.thy ===== *)
theory Flow
  imports Facts
begin

text \<open>
  Observed traffic on its way from the node collectors to the server (\<open>flow/aggregate.go\<close>,
  \<open>flow/wire/wire.go\<close>): cutting and merging the reports of one edge, the aggregator that sums a window, and which
  edges go first when a table is full.

  A Go map is an association list with distinct keys, its order standing for one traversal. \<open>uint64\<close> and
  \<open>uint32\<close> counters are words, so adding wraps as in the code. The counter of touches is a natural number: it
  would wrap only after \<open>2^64\<close> additions. The heap of \<open>container/heap\<close> in \<open>Oldest\<close> is kept as a list
  with the latest first; \<open>sort.Slice\<close> is a stable sort, one of the orders it may give to equal elements.
\<close>

datatype ep_kind = EpUnspecified | EpWorkload | EpNode | EpExternal

record endpoint =
  ep_Kind :: ep_kind
  ep_Ref :: string
  ep_Ip :: string

datatype tls_outcome = TlsUnknown | TlsCompleted | TlsFailed

record flow =
  fl_Src :: endpoint
  fl_Dst :: endpoint
  fl_Port :: u32
  fl_Protocol :: string
  fl_Connections :: u64
  fl_BytesOut :: u64
  fl_BytesIn :: u64
  fl_Method :: string
  fl_BytesKnown :: bool
  fl_Noise :: string
  fl_Iface :: string
  fl_Retransmits :: u64
  fl_RttUs :: u32
  fl_FailedAttempts :: u64
  fl_SniHost :: string
  fl_DnsQueryNames :: "string list"
  fl_JitterUs :: u32
  fl_SegsOut :: u32
  fl_HandshakeUs :: u32
  fl_Cwnd :: u32
  fl_PacingBps :: u64
  fl_BufferDrops :: u32
  fl_DnsRttUs :: u32
  fl_SrcPod :: string
  fl_DstPod :: string
  fl_MeshBypassSyns :: u32
  fl_RtoRetransmits :: u32
  fl_MssBytes :: u32
  fl_RcvWndBytes :: "u32 option"
  fl_SndWndBytes :: "u32 option"
  fl_WmemQueuedBytes :: "u32 option"
  fl_SndbufBytes :: "u32 option"
  fl_TlsHandshake :: tls_outcome

subsection \<open>One edge\<close>

abbreviation MaxName :: nat where "MaxName \<equiv> 253"
abbreviation MaxIface :: nat where "MaxIface \<equiv> 64"
abbreviation MaxDNSNames :: nat where "MaxDNSNames \<equiv> 8"

definition Clip :: "flow \<Rightarrow> flow" where
  "Clip f = f\<lparr>fl_SniHost := Cut (fl_SniHost f) MaxName, fl_Iface := Cut (fl_Iface f) MaxIface,
     fl_DnsQueryNames := map (\<lambda>n. Cut n MaxName) (take MaxDNSNames (fl_DnsQueryNames f))\<rparr>"

definition MergeGauges :: "flow \<Rightarrow> flow \<Rightarrow> flow" where
  "MergeGauges dst src = dst\<lparr>
     fl_Method := (if fl_Method src = ''ebpf'' then ''ebpf'' else fl_Method dst),
     fl_Noise := fl_Noise src,
     fl_BytesKnown := fl_BytesKnown dst \<or> fl_BytesKnown src,
     fl_Iface := (if fl_Iface src \<noteq> [] then fl_Iface src else fl_Iface dst),
     fl_SniHost := (if fl_SniHost src \<noteq> [] then fl_SniHost src else fl_SniHost dst),
     fl_RttUs := (if fl_RttUs src \<noteq> 0 then fl_RttUs src else fl_RttUs dst),
     fl_JitterUs := (if fl_JitterUs src \<noteq> 0 then fl_JitterUs src else fl_JitterUs dst),
     fl_HandshakeUs := (if fl_HandshakeUs src \<noteq> 0 then fl_HandshakeUs src else fl_HandshakeUs dst),
     fl_Cwnd := (if fl_Cwnd src \<noteq> 0 then fl_Cwnd src else fl_Cwnd dst),
     fl_PacingBps := (if fl_PacingBps src \<noteq> 0 then fl_PacingBps src else fl_PacingBps dst),
     fl_DnsRttUs := (if fl_DnsRttUs src \<noteq> 0 then fl_DnsRttUs src else fl_DnsRttUs dst),
     fl_MssBytes := (if fl_MssBytes src \<noteq> 0 then fl_MssBytes src else fl_MssBytes dst),
     fl_RcvWndBytes := (if fl_RcvWndBytes src \<noteq> None then fl_RcvWndBytes src else fl_RcvWndBytes dst),
     fl_SndWndBytes := (if fl_SndWndBytes src \<noteq> None then fl_SndWndBytes src else fl_SndWndBytes dst),
     fl_WmemQueuedBytes := (if fl_WmemQueuedBytes src \<noteq> None then fl_WmemQueuedBytes src else fl_WmemQueuedBytes dst),
     fl_SndbufBytes := (if fl_SndbufBytes src \<noteq> None then fl_SndbufBytes src else fl_SndbufBytes dst),
     fl_TlsHandshake := (if fl_TlsHandshake src \<noteq> TlsUnknown then fl_TlsHandshake src else fl_TlsHandshake dst)\<rparr>"

definition dns_step :: "string list \<Rightarrow> string \<Rightarrow> string list" where
  "dns_step cur n = (if n = [] then cur else if n \<in> set cur then cur else n # cur)"

definition MergeDNSNames :: "string list \<Rightarrow> string list \<Rightarrow> string list" where
  "MergeDNSNames cur add = take MaxDNSNames (foldl dns_step cur add)"

definition mergeFlowCounters :: "flow \<Rightarrow> flow \<Rightarrow> flow" where
  "mergeFlowCounters cur add =
     (let cur = cur\<lparr>fl_Connections := fl_Connections cur + fl_Connections add,
                    fl_BytesOut := fl_BytesOut cur + fl_BytesOut add,
                    fl_BytesIn := fl_BytesIn cur + fl_BytesIn add,
                    fl_Retransmits := fl_Retransmits cur + fl_Retransmits add,
                    fl_RtoRetransmits := fl_RtoRetransmits cur + fl_RtoRetransmits add,
                    fl_SegsOut := fl_SegsOut cur + fl_SegsOut add,
                    fl_BufferDrops := fl_BufferDrops cur + fl_BufferDrops add,
                    fl_MeshBypassSyns := fl_MeshBypassSyns cur + fl_MeshBypassSyns add,
                    fl_FailedAttempts := fl_FailedAttempts cur + fl_FailedAttempts add\<rparr>;
          cur = MergeGauges cur add
      in cur\<lparr>fl_DnsQueryNames := MergeDNSNames (fl_DnsQueryNames cur) (fl_DnsQueryNames add)\<rparr>)"

subsection \<open>Which entries go first\<close>

text \<open>Pushing on the heap: after every kept entry that is later.\<close>

fun heap_push :: "'k \<times> nat \<Rightarrow> ('k \<times> nat) list \<Rightarrow> ('k \<times> nat) list" where
  "heap_push e [] = [e]"
| "heap_push e (x # xs) = (if snd x > snd e then x # heap_push e xs else e # x # xs)"

definition oldest_step :: "nat \<Rightarrow> ('k \<times> nat) list \<Rightarrow> 'k \<times> nat \<Rightarrow> ('k \<times> nat) list" where
  "oldest_step n h e =
     (if length h < n then heap_push e h
      else (case h of [] \<Rightarrow> h | x # xs \<Rightarrow> if snd e < snd x then heap_push e xs else h))"

definition Oldest :: "nat \<Rightarrow> ('k \<times> nat) list \<Rightarrow> 'k list" where
  "Oldest n seq = (if n = 0 then [] else map fst (foldl (oldest_step n) [] seq))"

definition delete_all :: "'k list \<Rightarrow> ('k \<times> 'v) list \<Rightarrow> ('k \<times> 'v) list" where
  "delete_all ks m = foldl (\<lambda>m k. AList.delete k m) m ks"

definition evictOldest ::
  "('k \<times> flow) list \<Rightarrow> ('k \<times> nat) list \<Rightarrow> int \<Rightarrow> ('k \<times> flow) list \<times> ('k \<times> nat) list \<times> nat" where
  "evictOldest flows touched max0 =
     (let old = Oldest (nat (max (max (int (length flows) - max0) (max0 div 10)) 1)) touched
      in (delete_all old flows, delete_all old touched, length old))"

subsection \<open>The aggregator\<close>

definition MaxFlowsPerBatch :: nat where "MaxFlowsPerBatch = 5000"
definition MaxHeldFlows :: int where "MaxHeldFlows = 20000"
definition MaxHeldPodFlows :: int where "MaxHeldPodFlows = 4000"
definition collectorTTL :: duration where "collectorTTL = 5 * minute"

datatype key = Key ep_kind ep_kind string string u32 string

type_synonym pod_key = "key \<times> string \<times> string"

record collector =
  cr_Node :: string
  cr_Method :: string
  cr_BytesKnown :: bool
  cr_LinkSaturation :: "string list"
  cr_SnatExhaustion :: u64
  cr_ThermalThrottle :: "string option"

record aggregator =
  ag_flows :: "(key \<times> flow) list"
  ag_touched :: "(key \<times> nat) list"
  ag_podFlows :: "(pod_key \<times> flow) list"
  ag_podTouched :: "(pod_key \<times> nat) list"
  ag_touches :: nat
  ag_since :: time
  ag_lost :: u64
  ag_dropped :: u64
  ag_seq :: u64
  ag_paused :: bool
  ag_max :: int
  ag_podMax :: int
  ag_collectors :: "(string \<times> collector \<times> time) list"

record flow_batch =
  fb_Seq :: u64
  fb_WindowSeconds :: int
  fb_Lost :: u64
  fb_Flows :: "flow list"
  fb_Collectors :: "collector list"
  fb_PodFlows :: "flow list"

definition NewAggregator :: "time \<Rightarrow> aggregator" where
  "NewAggregator now = \<lparr>ag_flows = [], ag_touched = [], ag_podFlows = [], ag_podTouched = [], ag_touches = 0,
     ag_since = now, ag_lost = 0, ag_dropped = 0, ag_seq = 0, ag_paused = False, ag_max = MaxHeldFlows,
     ag_podMax = MaxHeldPodFlows, ag_collectors = []\<rparr>"

definition ref :: "endpoint \<Rightarrow> string" where
  "ref e = (if ep_Kind e = EpExternal then ep_Ip e else ep_Ref e)"

definition key_of :: "flow \<Rightarrow> key" where
  "key_of f = Key (ep_Kind (fl_Src f)) (ep_Kind (fl_Dst f)) (ref (fl_Src f)) (ref (fl_Dst f)) (fl_Port f) (fl_Protocol f)"

definition evict :: "aggregator \<Rightarrow> aggregator" where
  "evict a = (case evictOldest (ag_flows a) (ag_touched a) (ag_max a) of (fs, ts, n) \<Rightarrow>
     a\<lparr>ag_flows := fs, ag_touched := ts, ag_dropped := ag_dropped a + of_nat n\<rparr>)"

definition evictPod :: "aggregator \<Rightarrow> aggregator" where
  "evictPod a = (case evictOldest (ag_podFlows a) (ag_podTouched a) (ag_podMax a) of (fs, ts, n) \<Rightarrow>
     a\<lparr>ag_podFlows := fs, ag_podTouched := ts\<rparr>)"

definition addPod :: "key \<Rightarrow> flow \<Rightarrow> aggregator \<Rightarrow> aggregator" where
  "addPod k f a =
     (if fl_SrcPod f = [] \<and> fl_DstPod f = [] then a
      else let pk = (k, fl_SrcPod f, fl_DstPod f);
               a = a\<lparr>ag_podTouched := AList.update pk (ag_touches a) (ag_podTouched a)\<rparr>
           in case map_of (ag_podFlows a) pk of
                Some cur \<Rightarrow> a\<lparr>ag_podFlows := AList.update pk (mergeFlowCounters cur f) (ag_podFlows a)\<rparr>
              | None \<Rightarrow>
                  (let a = a\<lparr>ag_podFlows := AList.update pk f (ag_podFlows a)\<rparr>
                   in if int (length (ag_podFlows a)) > ag_podMax a then evictPod a else a))"

definition addFlow :: "key \<Rightarrow> flow \<Rightarrow> aggregator \<Rightarrow> aggregator" where
  "addFlow k f a =
     (let a = a\<lparr>ag_touches := ag_touches a + 1\<rparr>;
          a = a\<lparr>ag_touched := AList.update k (ag_touches a) (ag_touched a)\<rparr>
      in case map_of (ag_flows a) k of
           Some cur \<Rightarrow> a\<lparr>ag_flows := AList.update k (mergeFlowCounters cur f) (ag_flows a)\<rparr>
         | None \<Rightarrow>
             (let a = a\<lparr>ag_flows := AList.update k f (ag_flows a)\<rparr>
              in if int (length (ag_flows a)) > ag_max a then evict a else a))"

definition Add :: "flow \<Rightarrow> aggregator \<Rightarrow> aggregator" where
  "Add f a =
     (let f = Clip f; k = key_of f
      in if ag_paused a then a else addPod k f (addFlow k f a))"

definition Dropped :: "aggregator \<Rightarrow> u64" where "Dropped a = ag_dropped a"
definition Held :: "aggregator \<Rightarrow> nat" where "Held a = length (ag_flows a)"
definition Paused :: "aggregator \<Rightarrow> bool" where "Paused a = ag_paused a"
definition SetMax :: "int \<Rightarrow> aggregator \<Rightarrow> aggregator" where "SetMax n a = a\<lparr>ag_max := max n 1\<rparr>"
definition SetPodMax :: "int \<Rightarrow> aggregator \<Rightarrow> aggregator" where "SetPodMax n a = a\<lparr>ag_podMax := max n 1\<rparr>"

definition SetPaused :: "time \<Rightarrow> bool \<Rightarrow> aggregator \<Rightarrow> aggregator" where
  "SetPaused now p a =
     (if ag_paused a = p then a
      else let a = a\<lparr>ag_paused := p\<rparr>
           in if p then a\<lparr>ag_flows := [], ag_touched := [], ag_collectors := [], ag_lost := 0,
                          ag_podFlows := [], ag_podTouched := []\<rparr>
              else a\<lparr>ag_since := now\<rparr>)"

definition Presence :: "time \<Rightarrow> aggregator \<Rightarrow> nat \<times> time option" where
  "Presence now a =
     (length (filter (\<lambda>(_, c, t). now - t \<le> collectorTTL) (ag_collectors a)),
      foldl (\<lambda>last (_, c, t). case last of None \<Rightarrow> Some t | Some l \<Rightarrow> if t > l then Some t else last) None (ag_collectors a))"

definition Seen :: "time \<Rightarrow> collector \<Rightarrow> aggregator \<Rightarrow> aggregator" where
  "Seen now c a =
     (if ag_paused a then a
      else a\<lparr>ag_collectors := AList.update (cr_Node c @ ''/'' @ cr_Method c) (c, now) (ag_collectors a)\<rparr>)"

definition AddLost :: "u64 \<Rightarrow> aggregator \<Rightarrow> aggregator" where
  "AddLost n a = (if ag_paused a then a else a\<lparr>ag_lost := ag_lost a + n\<rparr>)"

text \<open>\<open>Duration.Round(time.Second)\<close>: half away from zero.\<close>

definition round_seconds :: "duration \<Rightarrow> int" where
  "round_seconds d = (if d \<ge> 0 then (d + second div 2) div second else - ((second div 2 - d) div second))"

definition int32 :: "int \<Rightarrow> int" where "int32 n = sint (word_of_int n :: 32 word)"

text \<open>\<open>sort.Slice\<close> with a comparison.\<close>

fun insert_by :: "('a \<Rightarrow> 'a \<Rightarrow> bool) \<Rightarrow> 'a \<Rightarrow> 'a list \<Rightarrow> 'a list" where
  "insert_by lt x [] = [x]"
| "insert_by lt x (y # ys) = (if lt y x then y # insert_by lt x ys else x # y # ys)"

definition sort_by :: "('a \<Rightarrow> 'a \<Rightarrow> bool) \<Rightarrow> 'a list \<Rightarrow> 'a list" where
  "sort_by lt xs = foldr (insert_by lt) xs []"

definition busier :: "(flow \<Rightarrow> string) \<Rightarrow> flow \<Rightarrow> flow \<Rightarrow> bool" where
  "busier name f g =
     (if fl_Connections f \<noteq> fl_Connections g then fl_Connections f > fl_Connections g else name f < name g)"

definition edge_name :: "flow \<Rightarrow> string" where "edge_name f = ref (fl_Src f) @ ref (fl_Dst f)"
definition pod_name :: "flow \<Rightarrow> string" where "pod_name f = fl_SrcPod f @ fl_DstPod f"

definition Flush :: "time \<Rightarrow> aggregator \<Rightarrow> flow_batch option \<times> aggregator" where
  "Flush now a =
     (let window = int32 (round_seconds (now - ag_since a)); window = (if window < 1 then 1 else window)
      in if ag_paused a then (None, a)
         else
           (let flows = map snd (ag_flows a); podFlows = map snd (ag_podFlows a); lost = ag_lost a;
                a = a\<lparr>ag_flows := [], ag_touched := [], ag_since := now, ag_lost := 0, ag_podFlows := [], ag_podTouched := []\<rparr>;
                a = a\<lparr>ag_collectors := filter (\<lambda>(_, c, t). \<not> now - t > collectorTTL) (ag_collectors a)\<rparr>;
                collectors = sort_by (\<lambda>c d. cr_Node c @ cr_Method c < cr_Node d @ cr_Method d)
                               (map (\<lambda>(_, c, t). c) (ag_collectors a))
            in if flows = [] \<and> podFlows = [] \<and> lost = 0 \<and> collectors = [] then (None, a)
               else
                 (let sorted_flows = sort_by (busier edge_name) flows;
                      lost = (if length sorted_flows > MaxFlowsPerBatch
                              then lost + of_nat (length sorted_flows - MaxFlowsPerBatch) else lost);
                      kept = take MaxFlowsPerBatch sorted_flows;
                      pods = sort_by (busier pod_name) podFlows;
                      a = a\<lparr>ag_seq := ag_seq a + 1\<rparr>
                  in (Some \<lparr>fb_Seq = ag_seq a, fb_WindowSeconds = window, fb_Lost = lost, fb_Flows = kept,
                        fb_Collectors = collectors, fb_PodFlows = pods\<rparr>, a))))"

subsection \<open>The oldest are chosen\<close>

definition descending :: "('k \<times> nat) list \<Rightarrow> bool" where
  "descending h = sorted (rev (map snd h))"

lemma heap_push_mset [simp]: "mset (heap_push e h) = add_mset e (mset h)"
  by (induction e h rule: heap_push.induct) auto

lemma heap_push_set [simp]: "set (heap_push e h) = insert e (set h)"
  by (induction e h rule: heap_push.induct) auto

lemma heap_push_length [simp]: "length (heap_push e h) = Suc (length h)"
  by (induction e h rule: heap_push.induct) auto

lemma descending_Cons: "descending (x # h) \<longleftrightarrow> descending h \<and> (\<forall>y \<in> set h. snd y \<le> snd x)"
  by (auto simp: descending_def sorted_append)

lemma descending_Nil: "descending []"
  by (simp add: descending_def)

lemma heap_push_descending: "descending h \<Longrightarrow> descending (heap_push e h)"
  by (induction e h rule: heap_push.induct) (auto simp: descending_Cons descending_Nil)

text \<open>What the heap holds after a part of the table, and what it turned away.\<close>

definition oldest_split :: "nat \<Rightarrow> ('k \<times> nat) multiset \<Rightarrow> ('k \<times> nat) list \<Rightarrow> bool" where
  "oldest_split n seen h \<longleftrightarrow> descending h \<and>
     (\<exists>rest. seen = mset h + rest \<and> (rest \<noteq> {#} \<longrightarrow> length h = n) \<and> length h \<le> n
        \<and> (\<forall>x \<in> set h. \<forall>y \<in># rest. snd x \<le> snd y))"

lemma oldest_split_step:
  assumes "oldest_split n seen h" "0 < n"
  shows "oldest_split n (add_mset e seen) (oldest_step n h e)"
proof -
  obtain rest where d: "descending h" and r: "seen = mset h + rest" "rest \<noteq> {#} \<longrightarrow> length h = n" "length h \<le> n"
    "\<forall>x \<in> set h. \<forall>y \<in># rest. snd x \<le> snd y" using assms(1) by (auto simp: oldest_split_def)
  show ?thesis
  proof (cases "length h < n")
    case True
    then have "rest = {#}" using r by auto
    then show ?thesis using True d r heap_push_descending [OF d, of e]
      by (auto simp: oldest_split_def oldest_step_def intro!: exI [of _ "{#}"])
  next
    case False
    then obtain x xs where h: "h = x # xs" using assms(2) r(3) by (cases h) auto
    have dx: "descending xs" "\<forall>y \<in> set xs. snd y \<le> snd x" using d by (auto simp: h descending_Cons)
    show ?thesis
    proof (cases "snd e < snd x")
      case True
      have "\<forall>z \<in> set (heap_push e xs). \<forall>y \<in># add_mset x rest. snd z \<le> snd y"
      proof (intro ballI)
        fix z y assume z: "z \<in> set (heap_push e xs)" and y: "y \<in># add_mset x rest"
        have "snd z \<le> snd x" using z dx(2) True by auto
        moreover have "snd x \<le> snd y" using y r(4) by (auto simp: h)
        ultimately show "snd z \<le> snd y" by simp
      qed
      then show ?thesis
        using True False d r dx heap_push_descending [OF dx(1), of e]
        by (auto simp: oldest_split_def oldest_step_def h intro!: exI [of _ "add_mset x rest"])
    next
      case nlt: False
      have "\<forall>z \<in> set h. \<forall>y \<in># add_mset e rest. snd z \<le> snd y"
        using r(4) dx(2) nlt by (auto simp: h)
      then show ?thesis
        using nlt False d r by (auto simp: oldest_split_def oldest_step_def h intro!: exI [of _ "add_mset e rest"])
    qed
  qed
qed

lemma oldest_split_all: "0 < n \<Longrightarrow> oldest_split n (mset seq) (foldl (oldest_step n) [] seq)"
proof (induction seq rule: rev_induct)
  case Nil
  then show ?case by (simp add: oldest_split_def descending_def)
next
  case (snoc e seq)
  then show ?case using oldest_split_step by fastforce
qed

lemma Oldest_chosen:
  assumes "0 < n"
  shows "\<exists>h rest. mset seq = mset h + rest \<and> Oldest n seq = map fst h \<and> length h = min n (length seq)
     \<and> (\<forall>x \<in> set h. \<forall>y \<in># rest. snd x \<le> snd y)"
proof -
  let ?h = "foldl (oldest_step n) [] seq"
  obtain rest where r: "mset seq = mset ?h + rest" "rest \<noteq> {#} \<longrightarrow> length ?h = n" "length ?h \<le> n"
    "\<forall>x \<in> set ?h. \<forall>y \<in># rest. snd x \<le> snd y"
    using oldest_split_all [OF assms, of seq] by (auto simp: oldest_split_def)
  have "length seq = length ?h + size rest" using arg_cong [OF r(1), of size] by simp
  then have "length ?h = min n (length seq)" using r(2,3) by (cases "rest = {#}") auto
  then show ?thesis using r assms by (intro exI [of _ ?h] exI [of _ rest]) (auto simp: Oldest_def)
qed

text \<open>
  \<open>Oldest\<close> picks exactly the oldest: from a table in any order it returns \<open>n\<close> keys (all of them when there are
  fewer), each of an entry of the table, and no entry left out is older than one picked.
\<close>

theorem oldest_picks_oldest:
  "\<exists>h rest. mset seq = mset h + rest \<and> Oldest n seq = map fst h \<and> length h = min n (length seq)
     \<and> list_all (\<lambda>x. \<forall>y \<in># rest. snd x \<le> snd y) h"
proof (cases "n = 0")
  case True
  then show ?thesis by (intro exI [of _ "[]"] exI [of _ "mset seq"]) (simp add: Oldest_def)
next
  case False
  then show ?thesis using Oldest_chosen [of n seq] by (auto simp: list_all_iff)
qed

theorem oldest_picks_oldest_witness:
  "\<exists>h rest. mset [(''a'', 3 :: nat), (''b'', 1), (''c'', 2)] = mset h + rest
     \<and> Oldest 2 [(''a'', 3 :: nat), (''b'', 1), (''c'', 2)] = map fst h \<and> list_all (\<lambda>x. \<forall>y \<in># rest. snd x \<le> snd y) h"
  using oldest_picks_oldest [of "[(''a'', 3 :: nat), (''b'', 1), (''c'', 2)]" 2] by blast

subsection \<open>Domain-name lists\<close>

lemma dns_fold_set: "set (foldl dns_step cur add) = set cur \<union> (set add - {[]})"
  by (induction add arbitrary: cur) (auto simp: dns_step_def)

lemma dns_fold_distinct: "distinct cur \<Longrightarrow> distinct (foldl dns_step cur add)"
  by (induction add arbitrary: cur) (auto simp: dns_step_def)

text \<open>The list of a report that was itself merged newest first comes out reversed.\<close>

lemma merged_names_reverse: "MergeDNSNames [] [''newest'', ''oldest''] = [''oldest'', ''newest'']"
  by (simp add: MergeDNSNames_def dns_step_def)

subsection \<open>Eviction\<close>

text \<open>A table and the ages of its entries: the same keys, once each, and no age beyond the clock of touches.\<close>

definition paired :: "('k \<times> 'v) list \<Rightarrow> ('k \<times> nat) list \<Rightarrow> nat \<Rightarrow> bool" where
  "paired fs ts t \<longleftrightarrow> distinct (map fst fs) \<and> distinct (map fst ts) \<and> fst ` set fs = fst ` set ts \<and> (\<forall>e \<in> set ts. snd e \<le> t)"

lemma delete_all_props:
  fixes m :: "('k \<times> 'v) list"
  shows
  "fst ` set (delete_all ks m) = fst ` set m - set ks"
  "distinct (map fst m) \<Longrightarrow> distinct (map fst (delete_all ks m))"
  "set (delete_all ks m) \<subseteq> set m"
  "map_of (delete_all ks m) k = (if k \<in> set ks then None else map_of m k)"
proof (induction ks arbitrary: m)
  case (Cons j ks)
  have sub: "set (AList.delete j m) \<subseteq> set m" for m :: "('k \<times> 'v) list" by (auto simp: AList.delete_eq)
  { case 1 then show ?case using Cons(1)[of "AList.delete j m"] by (auto simp: delete_all_def AList.delete_eq) }
  { case 2 then show ?case using Cons(2)[of "AList.delete j m"] by (simp add: delete_all_def distinct_delete) }
  { case 3 show ?case using subset_trans [OF Cons(3)[of "AList.delete j m"] sub] by (simp add: delete_all_def) }
  { case 4 then show ?case using Cons(4)[of "AList.delete j m"] by (auto simp: delete_all_def delete_conv') }
qed (simp_all add: delete_all_def)

lemma length_keys: "distinct (map fst m) \<Longrightarrow> length m = card (fst ` set m)"
  by (metis distinct_card length_map list.set_map)

lemma Oldest_keys:
  assumes "distinct (map fst ts)" "0 < n"
  shows "distinct (Oldest n ts)" "set (Oldest n ts) \<subseteq> fst ` set ts" "length (Oldest n ts) = min n (length ts)"
    "n < length ts \<Longrightarrow> (k, t) \<in> set ts \<Longrightarrow> \<forall>e \<in> set ts. fst e \<noteq> k \<longrightarrow> snd e < t \<Longrightarrow> k \<notin> set (Oldest n ts)"
proof -
  obtain h rest where r: "mset ts = mset h + rest" "Oldest n ts = map fst h" "length h = min n (length ts)"
    "\<forall>x \<in> set h. \<forall>y \<in># rest. snd x \<le> snd y" using Oldest_chosen [OF assms(2), of ts] by auto
  obtain rs where rs: "mset rs = rest" using ex_mset by blast
  have perm: "mset ts = mset (h @ rs)" using r(1) rs by simp
  then have d: "distinct (map fst (h @ rs))" using assms(1) mset_eq_imp_distinct_iff [of "map fst ts" "map fst (h @ rs)"]
    by (simp add: mset_map)
  have s: "set ts = set h \<union> set rs" using mset_eq_setD [OF perm] by simp
  show "distinct (Oldest n ts)" "set (Oldest n ts) \<subseteq> fst ` set ts" "length (Oldest n ts) = min n (length ts)"
    using d s r(2,3) by auto
  assume n: "n < length ts" and k: "(k, t) \<in> set ts" "\<forall>e \<in> set ts. fst e \<noteq> k \<longrightarrow> snd e < t"
  show "k \<notin> set (Oldest n ts)"
  proof
    assume "k \<in> set (Oldest n ts)"
    then obtain u where u: "(k, u) \<in> set h" using r(2) by auto
    have "(k, u) = (k, t)" using u k(1) s assms(1) by (metis Un_iff eq_key_imp_eq_value)
    moreover have "length rs > 0" using n r(3) arg_cong [OF perm, of size] by simp
    then obtain e where e: "e \<in> set rs" by (cases rs) auto
    ultimately have "t \<le> snd e" using r(4) u e rs by auto
    moreover have "fst e \<noteq> k" using d u e by force
    ultimately show False using k(2) e s by fastforce
  qed
qed

lemma evict_amount:
  assumes "1 \<le> mx" "mx < int l"
  shows "0 < nat (max (max (int l - mx) (mx div 10)) 1)" "nat (max (max (int l - mx) (mx div 10)) 1) < l"
    "int l - int (nat (max (max (int l - mx) (mx div 10)) 1)) \<le> mx"
  using assms by linarith+

lemma evictOldest_props:
  fixes fs :: "('k \<times> flow) list"
  assumes "paired fs ts t" "1 \<le> mx" "mx < int (length fs)" "evictOldest fs ts mx = (fs', ts', n)"
  shows "paired fs' ts' t" "int (length fs') \<le> mx"
    "map_of fs' j = map_of fs j \<or> map_of fs' j = None"
    "map_of ts k = Some t \<Longrightarrow> \<forall>e \<in> set ts. fst e \<noteq> k \<longrightarrow> snd e < t \<Longrightarrow> map_of fs' k = map_of fs k"
proof -
  define N where "N = nat (max (max (int (length fs) - mx) (mx div 10)) 1)"
  let ?old = "Oldest N ts"
  have def: "fs' = delete_all ?old fs" "ts' = delete_all ?old ts"
    using assms(4) by (simp_all add: evictOldest_def Let_def N_def)
  have p: "distinct (map fst fs)" "distinct (map fst ts)" "fst ` set fs = fst ` set ts" "\<forall>e \<in> set ts. snd e \<le> t"
    using assms(1) by (simp_all add: paired_def)
  have len: "length ts = length fs" using p by (simp add: length_keys)
  note n = evict_amount [OF assms(2,3), folded N_def]
  note old = Oldest_keys [OF p(2) n(1)]
  show "paired fs' ts' t"
    using p delete_all_props(3) [of ?old ts] by (auto simp: paired_def def delete_all_props(1,2))
  have "length fs' = card (fst ` set fs - set ?old)"
    using p(1) by (simp add: def length_keys delete_all_props(1,2))
  also have "\<dots> = length fs - length ?old"
    using old(1,2) p by (simp add: card_Diff_subset length_keys distinct_card)
  also have "length ?old = N" using old(3) n(2) len by linarith
  finally show "int (length fs') \<le> mx" using n(2,3) by linarith
  show "map_of fs' j = map_of fs j \<or> map_of fs' j = None" by (simp add: def delete_all_props(4))
  assume "map_of ts k = Some t" "\<forall>e \<in> set ts. fst e \<noteq> k \<longrightarrow> snd e < t"
  then have "k \<notin> set ?old" using old(4) [of k t] n(2) len map_of_SomeD by metis
  then show "map_of fs' k = map_of fs k" by (simp add: def delete_all_props(4))
qed

lemma paired_touch:
  assumes "paired fs ts t" "t < t'"
  shows "paired (AList.update k f fs) (AList.update k t' ts) t'"
    "map_of (AList.update k t' ts) k = Some t'"
    "\<forall>e \<in> set (AList.update k t' ts). fst e \<noteq> k \<longrightarrow> snd e < t'"
proof -
  have ages: "e \<in> set (AList.update k t' ts) \<Longrightarrow> e \<in> set ts \<or> e = (k, t')" for e
    by (induction ts) (auto split: if_splits)
  show "paired (AList.update k f fs) (AList.update k t' ts) t'"
    using assms ages by (fastforce simp: paired_def distinct_update dom_update)
  show "map_of (AList.update k t' ts) k = Some t'" by (simp add: update_conv')
  show "\<forall>e \<in> set (AList.update k t' ts). fst e \<noteq> k \<longrightarrow> snd e < t'"
    using assms ages by (fastforce simp: paired_def)
qed

subsection \<open>The tables stay bounded\<close>

definition agg_ok :: "aggregator \<Rightarrow> bool" where
  "agg_ok a \<longleftrightarrow> 1 \<le> ag_max a \<and> 1 \<le> ag_podMax a
     \<and> paired (ag_flows a) (ag_touched a) (ag_touches a) \<and> int (length (ag_flows a)) \<le> ag_max a
     \<and> paired (ag_podFlows a) (ag_podTouched a) (ag_touches a) \<and> int (length (ag_podFlows a)) \<le> ag_podMax a
     \<and> (\<forall>e \<in> set (ag_podTouched a). snd e \<le> ag_touches a)"

text \<open>Putting one entry into a table: what \<open>addFlow\<close> and \<open>addPod\<close> do, each to its own.\<close>

definition enter :: "'k \<Rightarrow> flow \<Rightarrow> nat \<Rightarrow> int \<Rightarrow> ('k \<times> flow) list \<times> ('k \<times> nat) list \<Rightarrow> ('k \<times> flow) list \<times> ('k \<times> nat) list" where
  "enter k f t mx tab =
     (case tab of (fs, ts) \<Rightarrow>
        let ts = AList.update k t ts
        in case map_of fs k of
             Some cur \<Rightarrow> (AList.update k (mergeFlowCounters cur f) fs, ts)
           | None \<Rightarrow> (let fs = AList.update k f fs
                     in if int (length fs) > mx then (case evictOldest fs ts mx of (fs', ts', n) \<Rightarrow> (fs', ts')) else (fs, ts)))"

lemma length_update_present: "map_of fs k = Some x \<Longrightarrow> length (AList.update k v fs) = length fs"
  by (induction fs) (auto split: if_splits)

lemma enter_ok:
  assumes "paired fs ts t" "t < t'" "1 \<le> mx" "int (length fs) \<le> mx" "enter k f t' mx (fs, ts) = (fs', ts')"
  shows "paired fs' ts' t'" "int (length fs') \<le> mx"
    "map_of fs' k = Some (case map_of fs k of None \<Rightarrow> f | Some cur \<Rightarrow> mergeFlowCounters cur f)"
    "j \<noteq> k \<Longrightarrow> map_of fs' j = map_of fs j \<or> map_of fs' j = None"
    "map_of fs k \<noteq> None \<or> int (length fs) < mx \<Longrightarrow> j \<noteq> k \<Longrightarrow> map_of fs' j = map_of fs j"
proof -
  note touch = paired_touch [OF assms(1,2), of k]
  have "paired fs' ts' t' \<and> int (length fs') \<le> mx
    \<and> map_of fs' k = Some (case map_of fs k of None \<Rightarrow> f | Some cur \<Rightarrow> mergeFlowCounters cur f)
    \<and> (j \<noteq> k \<longrightarrow> map_of fs' j = map_of fs j \<or> map_of fs' j = None)
    \<and> ((map_of fs k \<noteq> None \<or> int (length fs) < mx) \<longrightarrow> j \<noteq> k \<longrightarrow> map_of fs' j = map_of fs j)"
  proof (cases "map_of fs k")
    case (Some cur)
    then have "fs' = AList.update k (mergeFlowCounters cur f) fs" "ts' = AList.update k t' ts"
      using assms(5) by (simp_all add: enter_def Let_def)
    then show ?thesis using touch(1) Some assms(4) by (simp add: length_update_present update_conv')
  next
    case None
    let ?fs = "AList.update k f fs" and ?ts = "AList.update k t' ts"
    have len: "length ?fs = Suc (length fs)" using None by (induction fs) (auto split: if_splits)
    show ?thesis
    proof (cases "int (length ?fs) > mx")
      case True
      obtain n where e: "evictOldest ?fs ?ts mx = (fs', ts', n)"
        using assms(5) None True by (cases "evictOldest ?fs ?ts mx") (simp add: enter_def Let_def)
      note ev = evictOldest_props [OF touch(1) assms(3) True e]
      have "map_of fs' j = map_of ?fs j \<or> map_of fs' j = None" by (rule ev(3))
      moreover have "map_of fs' k = map_of ?fs k" by (rule ev(4) [OF touch(2,3)])
      moreover have "\<not> int (length fs) < mx" using True len by simp
      ultimately show ?thesis using ev(1,2) None by (auto simp: update_conv')
    next
      case False
      then show ?thesis using assms(5) None touch(1) by (auto simp: enter_def Let_def update_conv')
    qed
  qed
  then show "paired fs' ts' t'" "int (length fs') \<le> mx"
    "map_of fs' k = Some (case map_of fs k of None \<Rightarrow> f | Some cur \<Rightarrow> mergeFlowCounters cur f)"
    "j \<noteq> k \<Longrightarrow> map_of fs' j = map_of fs j \<or> map_of fs' j = None"
    "map_of fs k \<noteq> None \<or> int (length fs) < mx \<Longrightarrow> j \<noteq> k \<Longrightarrow> map_of fs' j = map_of fs j" by simp_all
qed

lemma addFlow_enter:
  "(ag_flows (addFlow k f a), ag_touched (addFlow k f a)) = enter k f (ag_touches a + 1) (ag_max a) (ag_flows a, ag_touched a)"
  by (simp add: addFlow_def enter_def evict_def Let_def split: option.splits prod.splits)

lemma addFlow_rest:
  "ag_touches (addFlow k f a) = ag_touches a + 1" "ag_max (addFlow k f a) = ag_max a" "ag_podMax (addFlow k f a) = ag_podMax a"
  "ag_podFlows (addFlow k f a) = ag_podFlows a" "ag_podTouched (addFlow k f a) = ag_podTouched a"
  "ag_paused (addFlow k f a) = ag_paused a" "ag_lost (addFlow k f a) = ag_lost a" "ag_collectors (addFlow k f a) = ag_collectors a"
  by (simp_all add: addFlow_def evict_def Let_def split: option.splits prod.splits)

lemma addPod_enter:
  "(ag_podFlows (addPod k f a), ag_podTouched (addPod k f a)) =
     (if fl_SrcPod f = [] \<and> fl_DstPod f = [] then (ag_podFlows a, ag_podTouched a)
      else enter (k, fl_SrcPod f, fl_DstPod f) f (ag_touches a) (ag_podMax a) (ag_podFlows a, ag_podTouched a))"
  by (simp add: addPod_def enter_def evictPod_def Let_def split: option.splits prod.splits)

lemma addPod_rest:
  "ag_touches (addPod k f a) = ag_touches a" "ag_max (addPod k f a) = ag_max a" "ag_podMax (addPod k f a) = ag_podMax a"
  "ag_flows (addPod k f a) = ag_flows a" "ag_touched (addPod k f a) = ag_touched a"
  "ag_paused (addPod k f a) = ag_paused a" "ag_lost (addPod k f a) = ag_lost a" "ag_collectors (addPod k f a) = ag_collectors a"
  by (simp_all add: addPod_def evictPod_def Let_def split: option.splits prod.splits)

lemma paired_later: "paired fs ts t \<Longrightarrow> t \<le> t' \<Longrightarrow> paired fs ts t'"
  by (fastforce simp: paired_def)

lemma paired_empty: "paired [] [] t"
  by (simp add: paired_def)

lemma Add_ok [preserve_intros]:
  assumes "agg_ok a"
  shows "agg_ok (Add f a)"
proof (cases "ag_paused a")
  case False
  let ?f = "Clip f" and ?k = "key_of (Clip f)"
  let ?b = "addFlow ?k ?f a"
  have a: "1 \<le> ag_max a" "1 \<le> ag_podMax a" "paired (ag_flows a) (ag_touched a) (ag_touches a)" "int (length (ag_flows a)) \<le> ag_max a"
    "paired (ag_podFlows a) (ag_podTouched a) (ag_touches a)" "int (length (ag_podFlows a)) \<le> ag_podMax a"
    using assms by (simp_all add: agg_ok_def)
  note b = enter_ok [OF a(3) _ a(1,4) addFlow_enter [where k = "?k" and f = "?f", symmetric], simplified]
  have pods: "paired (ag_podFlows (addPod ?k ?f ?b)) (ag_podTouched (addPod ?k ?f ?b)) (ag_touches a + 1)
      \<and> int (length (ag_podFlows (addPod ?k ?f ?b))) \<le> ag_podMax a"
  proof (cases "fl_SrcPod ?f = [] \<and> fl_DstPod ?f = []")
    case True
    then show ?thesis using a addPod_enter [of ?k ?f ?b] paired_later [OF a(5)] by (simp add: addFlow_rest)
  next
    case False
    have e: "enter (?k, fl_SrcPod ?f, fl_DstPod ?f) ?f (ag_touches a + 1) (ag_podMax a) (ag_podFlows a, ag_podTouched a)
        = (ag_podFlows (addPod ?k ?f ?b), ag_podTouched (addPod ?k ?f ?b))"
      unfolding addPod_enter addFlow_rest using False by (simp only: if_False)
    show ?thesis using enter_ok(1,2) [OF a(5) _ a(2,6) e] by simp
  qed
  then show ?thesis
    using False a b(1,2) by (auto simp: agg_ok_def Add_def Let_def addPod_rest addFlow_rest paired_def)
qed (simp add: assms Add_def Let_def)

lemma empty_tables_ok: "1 \<le> ag_max a \<Longrightarrow> 1 \<le> ag_podMax a \<Longrightarrow> ag_flows a = [] \<Longrightarrow> ag_touched a = []
    \<Longrightarrow> ag_podFlows a = [] \<Longrightarrow> ag_podTouched a = [] \<Longrightarrow> agg_ok a"
  by (simp add: agg_ok_def paired_empty)

lemma SetPaused_ok [preserve_intros]: "agg_ok a \<Longrightarrow> agg_ok (SetPaused now p a)"
  by (simp add: SetPaused_def Let_def agg_ok_def paired_empty)

lemma Seen_ok [preserve_intros]: "agg_ok a \<Longrightarrow> agg_ok (Seen now c a)"
  by (simp add: Seen_def agg_ok_def)

lemma AddLost_ok [preserve_intros]: "agg_ok a \<Longrightarrow> agg_ok (AddLost n a)"
  by (simp add: AddLost_def agg_ok_def)

lemma Flush_ok [preserve_intros]: "agg_ok a \<Longrightarrow> agg_ok (snd (Flush now a))"
  by (simp add: Flush_def Let_def agg_ok_def paired_empty)

lemma NewAggregator_ok: "agg_ok (NewAggregator now)"
  by (simp add: agg_ok_def NewAggregator_def paired_empty MaxHeldFlows_def MaxHeldPodFlows_def)

datatype agg_event = AgAdd flow | AgPause time bool | AgSeen time collector | AgLost u64 | AgFlush time

fun agg_do :: "aggregator \<Rightarrow> agg_event \<Rightarrow> aggregator" where
  "agg_do a (AgAdd f) = Add f a"
| "agg_do a (AgPause now p) = SetPaused now p a"
| "agg_do a (AgSeen now c) = Seen now c a"
| "agg_do a (AgLost n) = AddLost n a"
| "agg_do a (AgFlush now) = snd (Flush now a)"

lemma agg_do_ok: "agg_ok a \<Longrightarrow> agg_ok (agg_do a e) \<and> ag_max (agg_do a e) = ag_max a \<and> ag_podMax (agg_do a e) = ag_podMax a"
  by (cases e) (simp_all add: preserve_intros, simp_all add: Add_def Let_def addPod_rest addFlow_rest SetPaused_def Seen_def AddLost_def Flush_def)

lemma agg_run_ok: "agg_ok (foldl agg_do (NewAggregator now) es)
    \<and> ag_max (foldl agg_do (NewAggregator now) es) = MaxHeldFlows \<and> ag_podMax (foldl agg_do (NewAggregator now) es) = MaxHeldPodFlows"
proof (induction es rule: rev_induct)
  case Nil
  then show ?case by (simp add: NewAggregator_ok) (simp add: NewAggregator_def)
next
  case (snoc e es)
  then show ?case using agg_do_ok [of "foldl agg_do (NewAggregator now) es" e] by simp
qed

text \<open>
  C33. Memory stays bounded whatever the collectors send: after any sequence of reports, pauses, lost counts and flushes
  the aggregator holds at most 20000 edges and 4000 pod pairs, each once, and the ages it evicts by are kept for exactly the
  edges it holds.
\<close>

theorem aggregator_bounded:
  "let a = foldl agg_do (NewAggregator now) es in
     length (ag_flows a) \<le> 20000 \<and> length (ag_podFlows a) \<le> 4000
     \<and> distinct (map fst (ag_flows a)) \<and> distinct (map fst (ag_podFlows a))
     \<and> fst ` set (ag_flows a) = fst ` set (ag_touched a) \<and> fst ` set (ag_podFlows a) = fst ` set (ag_podTouched a)"
  using agg_run_ok [of now es] by (simp add: agg_ok_def paired_def Let_def MaxHeldFlows_def MaxHeldPodFlows_def)

text \<open>
  Reporting an edge keeps it: after \<open>Add\<close> on a running aggregator the edge is held with the report merged into
  what it held before, however full the table was; every other edge is as it was or was evicted, and none is evicted while
  the edge was known or there was room.
\<close>

theorem add_keeps_edge:
  assumes "agg_ok a" "\<not> ag_paused a"
  shows "map_of (ag_flows (Add f a)) (key_of (Clip f)) =
      Some (case map_of (ag_flows a) (key_of (Clip f)) of None \<Rightarrow> Clip f | Some cur \<Rightarrow> mergeFlowCounters cur (Clip f))
    \<and> (\<forall>j. j \<noteq> key_of (Clip f) \<longrightarrow>
        (map_of (ag_flows (Add f a)) j = map_of (ag_flows a) j \<or> map_of (ag_flows (Add f a)) j = None)
        \<and> (map_of (ag_flows a) (key_of (Clip f)) \<noteq> None \<or> int (Held a) < ag_max a \<longrightarrow>
            map_of (ag_flows (Add f a)) j = map_of (ag_flows a) j))"
proof -
  have a: "paired (ag_flows a) (ag_touched a) (ag_touches a)" "1 \<le> ag_max a" "int (length (ag_flows a)) \<le> ag_max a"
    using assms(1) by (simp_all add: agg_ok_def)
  note e = enter_ok [OF a(1) _ a(2,3) addFlow_enter [where k = "key_of (Clip f)" and f = "Clip f", symmetric], simplified]
  have "ag_flows (Add f a) = ag_flows (addFlow (key_of (Clip f)) (Clip f) a)"
    using assms(2) by (simp add: Add_def Let_def addPod_rest)
  then show ?thesis using e(3-5) by (auto simp: Held_def)
qed

definition demo_flow :: "string \<Rightarrow> u64 \<Rightarrow> flow" where
  "demo_flow d n = \<lparr>fl_Src = \<lparr>ep_Kind = EpWorkload, ep_Ref = ''web'', ep_Ip = []\<rparr>,
     fl_Dst = \<lparr>ep_Kind = EpWorkload, ep_Ref = d, ep_Ip = []\<rparr>, fl_Port = 80, fl_Protocol = ''tcp'', fl_Connections = n,
     fl_BytesOut = 0, fl_BytesIn = 0, fl_Method = ''ebpf'', fl_BytesKnown = True, fl_Noise = [], fl_Iface = [],
     fl_Retransmits = 0, fl_RttUs = 0, fl_FailedAttempts = 0, fl_SniHost = [], fl_DnsQueryNames = [], fl_JitterUs = 0,
     fl_SegsOut = 0, fl_HandshakeUs = 0, fl_Cwnd = 0, fl_PacingBps = 0, fl_BufferDrops = 0, fl_DnsRttUs = 0,
     fl_SrcPod = [], fl_DstPod = [], fl_MeshBypassSyns = 0, fl_RtoRetransmits = 0, fl_MssBytes = 0, fl_RcvWndBytes = None,
     fl_SndWndBytes = None, fl_WmemQueuedBytes = None, fl_SndbufBytes = None, fl_TlsHandshake = TlsUnknown\<rparr>"

theorem add_keeps_edge_witness:
  "map_of (ag_flows (Add (demo_flow ''db'' 3) (NewAggregator 0))) (key_of (Clip (demo_flow ''db'' 3))) = Some (Clip (demo_flow ''db'' 3))"
  using add_keeps_edge [OF NewAggregator_ok, of 0 "demo_flow ''db'' 3"] by (simp add: NewAggregator_def)

subsection \<open>A window sums its reports\<close>

definition reports_of :: "key \<Rightarrow> flow list \<Rightarrow> flow list" where
  "reports_of k fs = filter (\<lambda>f. key_of f = k) (map Clip fs)"

definition merged_reports :: "key \<Rightarrow> flow list \<Rightarrow> flow option" where
  "merged_reports k fs = (case reports_of k fs of [] \<Rightarrow> None | g # gs \<Rightarrow> Some (foldl mergeFlowCounters g gs))"

lemma merged_reports_snoc:
  "merged_reports k (fs @ [f]) =
     (if key_of (Clip f) = k
      then Some (case merged_reports k fs of None \<Rightarrow> Clip f | Some cur \<Rightarrow> mergeFlowCounters cur (Clip f))
      else merged_reports k fs)"
  by (auto simp: merged_reports_def reports_of_def split: list.splits)

lemma merge_counters_add [simp]:
  "fl_Connections (mergeFlowCounters a b) = fl_Connections a + fl_Connections b"
  "fl_BytesOut (mergeFlowCounters a b) = fl_BytesOut a + fl_BytesOut b"
  "fl_BytesIn (mergeFlowCounters a b) = fl_BytesIn a + fl_BytesIn b"
  by (simp_all add: mergeFlowCounters_def MergeGauges_def Let_def)

lemma merged_counters:
  assumes "\<And>a b. c (mergeFlowCounters a b) = c a + (c b :: u64)" "merged_reports k fs = Some r"
  shows "c r = sum_list (map c (reports_of k fs))"
proof -
  have "c (foldl mergeFlowCounters g gs) = c g + sum_list (map c gs)" for g gs
    by (induction gs arbitrary: g) (simp_all add: assms(1) add.assoc)
  then show ?thesis using assms(2) by (auto simp: merged_reports_def split: list.splits)
qed

lemma merged_reports_known: "merged_reports k fs \<noteq> None \<longleftrightarrow> k \<in> (\<lambda>f. key_of (Clip f)) ` set fs"
proof -
  have "merged_reports k fs \<noteq> None \<longleftrightarrow> reports_of k fs \<noteq> []" by (simp add: merged_reports_def split: list.splits)
  also have "\<dots> \<longleftrightarrow> k \<in> (\<lambda>f. key_of (Clip f)) ` set fs" by (auto simp: reports_of_def filter_empty_conv)
  finally show ?thesis .
qed

lemma window_run:
  fixes now :: time
  assumes "int (card ((\<lambda>f. key_of (Clip f)) ` set fs)) \<le> MaxHeldFlows"
  defines "a \<equiv> foldl (\<lambda>a f. Add f a) (NewAggregator now) fs"
  shows "agg_ok a \<and> \<not> ag_paused a \<and> ag_max a = MaxHeldFlows \<and> map_of (ag_flows a) k = merged_reports k fs"
  using assms(1) unfolding a_def
proof (induction fs arbitrary: k rule: rev_induct)
  case Nil
  then show ?case by (simp add: NewAggregator_ok) (simp add: NewAggregator_def merged_reports_def reports_of_def)
next
  case (snoc f fs)
  let ?a = "foldl (\<lambda>a f. Add f a) (NewAggregator now) fs" and ?K = "(\<lambda>f. key_of (Clip f)) ` set fs"
  have sub: "int (card ?K) \<le> MaxHeldFlows"
    using snoc.prems card_mono [of "insert (key_of (Clip f)) ?K" ?K] by fastforce
  note IH = snoc.IH [OF sub]
  have dom: "fst ` set (ag_flows ?a) = ?K"
  proof -
    have "k \<in> dom (map_of (ag_flows ?a)) \<longleftrightarrow> k \<in> ?K" for k
      using IH merged_reports_known [of k fs] by (simp only: dom_def mem_Collect_eq)
    then show ?thesis unfolding dom_map_of_conv_image_fst [symmetric] by blast
  qed
  have "int (Held ?a) = int (card ?K)"
    using IH dom by (auto simp: Held_def agg_ok_def paired_def length_keys)
  moreover have "int (card ?K) < MaxHeldFlows" if "key_of (Clip f) \<notin> ?K"
    using snoc.prems that by simp
  ultimately have room: "map_of (ag_flows ?a) (key_of (Clip f)) \<noteq> None \<or> int (Held ?a) < ag_max ?a"
    using IH merged_reports_known [of "key_of (Clip f)" fs] by auto
  have ok: "agg_ok ?a" "\<not> ag_paused ?a" using IH by auto
  have E: "map_of (ag_flows (Add f ?a)) (key_of (Clip f)) =
      Some (case map_of (ag_flows ?a) (key_of (Clip f)) of None \<Rightarrow> Clip f | Some cur \<Rightarrow> mergeFlowCounters cur (Clip f))"
    "j \<noteq> key_of (Clip f) \<Longrightarrow> map_of (ag_flows (Add f ?a)) j = map_of (ag_flows ?a) j" for j
  proof -
    have p: "paired (ag_flows ?a) (ag_touched ?a) (ag_touches ?a)" "1 \<le> ag_max ?a" "int (length (ag_flows ?a)) \<le> ag_max ?a"
      using ok by (simp_all add: agg_ok_def)
    note e = enter_ok [OF p(1) _ p(2,3) addFlow_enter [where k = "key_of (Clip f)" and f = "Clip f", symmetric], simplified]
    have fl: "ag_flows (Add f ?a) = ag_flows (addFlow (key_of (Clip f)) (Clip f) ?a)"
      using ok by (simp add: Add_def Let_def addPod_rest)
    show "map_of (ag_flows (Add f ?a)) (key_of (Clip f)) =
      Some (case map_of (ag_flows ?a) (key_of (Clip f)) of None \<Rightarrow> Clip f | Some cur \<Rightarrow> mergeFlowCounters cur (Clip f))"
      unfolding fl by (rule e(3))
    show "j \<noteq> key_of (Clip f) \<Longrightarrow> map_of (ag_flows (Add f ?a)) j = map_of (ag_flows ?a) j" for j
      unfolding fl using e(5) room by (auto simp: Held_def)
  qed
  have "agg_ok (Add f ?a)" "\<not> ag_paused (Add f ?a)" "ag_max (Add f ?a) = MaxHeldFlows"
    using Add_ok [OF ok(1)] IH by (simp_all add: Add_def Let_def addPod_rest addFlow_rest)
  then show ?case
    using E IH by (auto simp: merged_reports_snoc)
qed

text \<open>
  A window is the sum of its reports: as long as the reports name at most 20000 distinct edges, each edge's record is
  the merge of all its reports in the order they came, and nothing else is held; so its connections and bytes are the sums of
  theirs (modulo \<open>2^64\<close>, as the code's counters are).
\<close>

theorem window_sums_reports:
  assumes "card ((\<lambda>f. key_of (Clip f)) ` set fs) \<le> 20000"
  shows "map_of (ag_flows (foldl (\<lambda>a f. Add f a) (NewAggregator now) fs)) k = merged_reports k fs
    \<and> (\<forall>r. merged_reports k fs = Some r \<longrightarrow>
         fl_Connections r = sum_list (map fl_Connections (reports_of k fs))
         \<and> fl_BytesOut r = sum_list (map fl_BytesOut (reports_of k fs))
         \<and> fl_BytesIn r = sum_list (map fl_BytesIn (reports_of k fs)))"
proof -
  have "int (card ((\<lambda>f. key_of (Clip f)) ` set fs)) \<le> MaxHeldFlows" using assms by (simp add: MaxHeldFlows_def)
  then show ?thesis using window_run [of fs now k] merged_counters [of _ k fs] by simp
qed

theorem window_sums_reports_witness:
  "map_of (ag_flows (foldl (\<lambda>a f. Add f a) (NewAggregator 0) [demo_flow ''db'' 3, demo_flow ''db'' 4])) (key_of (Clip (demo_flow ''db'' 3)))
     = merged_reports (key_of (Clip (demo_flow ''db'' 3))) [demo_flow ''db'' 3, demo_flow ''db'' 4]"
proof -
  have "card ((\<lambda>f. key_of (Clip f)) ` set [demo_flow ''db'' 3, demo_flow ''db'' 4]) \<le> card (set [demo_flow ''db'' 3, demo_flow ''db'' 4])"
    by (rule card_image_le) simp
  also have "\<dots> \<le> 20000" using card_length [of "[demo_flow ''db'' 3, demo_flow ''db'' 4]"] by simp
  finally show ?thesis using window_sums_reports by blast
qed

subsection \<open>Flushing\<close>

lemma insert_by_mset: "mset (insert_by lt x ys) = add_mset x (mset ys)"
  by (induction ys) auto

lemma sort_by_mset: "mset (sort_by lt xs) = mset xs"
  by (induction xs) (simp_all add: sort_by_def insert_by_mset)

lemma insert_by_sorted:
  assumes "\<And>x y. lt x y \<Longrightarrow> R x y" "\<And>x y. \<not> lt y x \<Longrightarrow> R x y" "\<And>x y z. R x y \<Longrightarrow> R y z \<Longrightarrow> R x z"
  shows "sorted_wrt R ys \<Longrightarrow> sorted_wrt R (insert_by lt x ys)"
proof (induction ys)
  case (Cons y ys)
  have "set (insert_by lt x ys) = insert x (set ys)"
    using arg_cong [OF insert_by_mset [of lt x ys], of set_mset] by (metis set_mset_add_mset_insert set_mset_mset)
  then show ?case using Cons assms by (auto, blast)
qed simp

lemma sort_by_sorted:
  assumes "\<And>x y. lt x y \<Longrightarrow> R x y" "\<And>x y. \<not> lt y x \<Longrightarrow> R x y" "\<And>x y z. R x y \<Longrightarrow> R y z \<Longrightarrow> R x z"
  shows "sorted_wrt R (sort_by lt xs)"
  by (induction xs) (simp_all add: sort_by_def insert_by_sorted [where R = R, OF assms])

lemma sort_by_busiest: "sorted_wrt (\<lambda>f g. fl_Connections g \<le> fl_Connections f) (sort_by (busier name) xs)"
  by (rule sort_by_sorted) (auto simp: busier_def split: if_splits)

lemma sort_by_length: "length (sort_by lt xs) = length xs"
  using arg_cong [OF sort_by_mset [of lt xs], of size] by simp

text \<open>
  C34. A flush accounts for every edge it held. A running aggregator that has anything to say sends its busiest edges, at
  most 5000 and in order of connections, every pod pair it held, and says as lost what was lost before plus one for each
  edge it left out, none of which had more connections than one it sent; then it is empty. It stays silent only when it is
  paused or holds nothing to say.
\<close>

theorem flush_accounts:
  "case Flush now a of
     (None, b) \<Rightarrow> ag_paused a \<and> b = a \<or> ag_flows a = [] \<and> ag_podFlows a = [] \<and> ag_lost a = 0
   | (Some m, b) \<Rightarrow> \<not> ag_paused a \<and> (\<exists>left_out.
        mset (map snd (ag_flows a)) = mset (fb_Flows m) + mset left_out
        \<and> length (fb_Flows m) = min 5000 (length (ag_flows a))
        \<and> sorted_wrt (\<lambda>f g. fl_Connections g \<le> fl_Connections f) (fb_Flows m)
        \<and> list_all (\<lambda>f. list_all (\<lambda>g. fl_Connections g \<le> fl_Connections f) left_out) (fb_Flows m)
        \<and> fb_Lost m = ag_lost a + of_nat (length left_out)
        \<and> mset (fb_PodFlows m) = mset (map snd (ag_podFlows a))
        \<and> ag_flows b = [] \<and> ag_podFlows b = [] \<and> ag_lost b = 0 \<and> fb_Seq m = ag_seq a + 1)"
proof (cases "Flush now a")
  case (Pair x b)
  let ?s = "sort_by (busier edge_name) (map snd (ag_flows a))"
  show ?thesis
  proof (cases x)
    case None
    then show ?thesis using Pair by (auto simp: Flush_def Let_def split: if_splits)
  next
    case (Some m)
    have m: "\<not> ag_paused a" "fb_Flows m = take 5000 ?s" "fb_PodFlows m = sort_by (busier pod_name) (map snd (ag_podFlows a))"
      "fb_Lost m = (if length ?s > 5000 then ag_lost a + of_nat (length ?s - 5000) else ag_lost a)"
      "ag_flows b = []" "ag_podFlows b = []" "ag_lost b = 0" "fb_Seq m = ag_seq a + 1"
      using Pair Some by (auto simp: Flush_def Let_def MaxFlowsPerBatch_def split: if_splits)
    have s: "sorted_wrt (\<lambda>f g. fl_Connections g \<le> fl_Connections f) (take 5000 ?s @ drop 5000 ?s)"
      using sort_by_busiest by simp
    have "mset (map snd (ag_flows a)) = mset (take 5000 ?s) + mset (drop 5000 ?s)"
      using sort_by_mset [of "busier edge_name" "map snd (ag_flows a)"] by (simp flip: mset_append)
    moreover have "fb_Lost m = ag_lost a + of_nat (length (drop 5000 ?s))"
      using m(4) by (simp split: if_splits)
    moreover have "list_all (\<lambda>f. list_all (\<lambda>g. fl_Connections g \<le> fl_Connections f) (drop 5000 ?s)) (take 5000 ?s)"
      using s unfolding sorted_wrt_append by (auto simp: list_all_iff)
    ultimately show ?thesis
      using Pair Some m s sort_by_mset [of "busier pod_name" "map snd (ag_podFlows a)"]
      unfolding sorted_wrt_append by (auto simp: sort_by_length intro!: exI [of _ "drop 5000 ?s"])
  qed
qed

end
