(* ===== verification/Limiter.thy ===== *)
theory Limiter
  imports Facts Complex_Main
begin

text \<open>
  Rate limits (\<open>kernel/limiter.go\<close>): the token bucket per key that guards the unauthenticated endpoints, and
  the growing wait after wrong passwords. Both keep a map and a list of its entries, most recently used first; the two
  together are one association list in the list's order, which the locale \<open>recency\<close> describes to its users.
  Tokens are exact rationals. The limit on a key by network prefix (\<open>LimitKey\<close>) is left out.
\<close>

subsection \<open>Tables ordered by use\<close>

type_synonym 'v recent = "(string \<times> 'v) list"

text \<open>\<open>PushFront\<close> of a new entry, \<open>MoveToFront\<close> of a known one.\<close>

definition to_front :: "string \<Rightarrow> 'v \<Rightarrow> 'v recent \<Rightarrow> 'v recent" where
  "to_front k v t = (k, v) # AList.delete k t"

text \<open>Removing the entry at \<open>Back\<close>.\<close>

definition drop_back :: "'v recent \<Rightarrow> 'v recent" where
  "drop_back t = butlast t"

function make_room :: "nat \<Rightarrow> 'v recent \<Rightarrow> 'v recent" where
  "make_room mx t = (if length t \<ge> mx \<and> t \<noteq> [] then make_room mx (drop_back t) else t)"
  by pat_completeness auto
termination by (relation "measure (\<lambda>(mx, t). length t)") (auto simp: drop_back_def)

declare make_room.simps [simp del]

locale recency =
  fixes ok :: "'t \<Rightarrow> bool" and find :: "'t \<Rightarrow> string \<Rightarrow> 'v option" and count :: "'t \<Rightarrow> nat"
    and front :: "string \<Rightarrow> 'v \<Rightarrow> 't \<Rightarrow> 't" and forget :: "'t \<Rightarrow> 't" and room :: "nat \<Rightarrow> 't \<Rightarrow> 't"
  assumes ok_front: "ok t \<Longrightarrow> ok (front k v t)"
    and find_front: "ok t \<Longrightarrow> find (front k v t) = (find t)(k \<mapsto> v)"
    and count_front: "ok t \<Longrightarrow> count (front k v t) = (if find t k = None then count t + 1 else count t)"
    and ok_forget: "ok t \<Longrightarrow> ok (forget t)"
    and find_forget: "ok t \<Longrightarrow> find (forget t) j = find t j \<or> find (forget t) j = None"
    and count_forget: "ok t \<Longrightarrow> count (forget t) = count t - 1"
    and room_step: "room mx t = (if mx \<le> count t \<and> 0 < count t then room mx (forget t) else t)"
begin

lemma room_props:
  "ok t \<Longrightarrow> ok (room mx t) \<and> (find (room mx t) j = find t j \<or> find (room mx t) j = None)
     \<and> (0 < mx \<longrightarrow> count (room mx t) < mx) \<and> (count t < mx \<longrightarrow> room mx t = t)"
proof (induction "count t" arbitrary: t)
  case 0
  then show ?case by (simp add: room_step [of mx t])
next
  case (Suc n)
  have "ok (forget t)" "n = count (forget t)" using Suc by (simp_all add: ok_forget count_forget)
  from Suc.hyps(1) [OF this(2,1)] show ?case
    using Suc find_forget [of t j] by (simp add: room_step [of mx t]) metis
qed

text \<open>Making room and putting an entry at the front keeps the table within its bound and finds the entry.\<close>

lemma enter_bounded:
  assumes "ok t" "0 < mx"
  shows "ok (front k v (room mx t))" "count (front k v (room mx t)) \<le> mx" "find (front k v (room mx t)) k = Some v"
    "j \<noteq> k \<Longrightarrow> find (front k v (room mx t)) j = find t j \<or> find (front k v (room mx t)) j = None"
    "count t < mx \<Longrightarrow> find (front k v (room mx t)) = (find t)(k \<mapsto> v)"
  using room_props [OF assms(1), of mx k] room_props [OF assms(1), of mx j] assms(2)
  by (simp_all add: ok_front find_front count_front)

end

definition once_each :: "'v recent \<Rightarrow> bool" where "once_each t = distinct (map fst t)"

lemma butlast_subset: "set (butlast t) \<subseteq> set t"
  by (auto dest: in_set_butlastD)

lemma map_of_butlast: "distinct (map fst t) \<Longrightarrow> map_of (butlast t) j = map_of t j \<or> map_of (butlast t) j = None"
proof (cases "map_of (butlast t) j")
  case (Some v)
  assume "distinct (map fst t)"
  then show ?thesis using map_of_SomeD [OF Some] butlast_subset [of t] Some by (metis map_of_is_SomeI subsetD)
qed simp

interpretation recent: recency once_each map_of length to_front drop_back make_room
proof unfold_locales
  fix t :: "'a recent" and k j :: string and v :: 'a and mx :: nat
  assume ok: "once_each t"
  show "once_each (to_front k v t)" "map_of (to_front k v t) = (map_of t)(k \<mapsto> v)"
    using ok by (auto simp: once_each_def to_front_def distinct_delete delete_conv' fun_eq_iff delete_notin_dom)
  show "length (to_front k v t) = (if map_of t k = None then length t + 1 else length t)"
  proof (cases "map_of t k")
    case None
    then have "AList.delete k t = t" by (auto simp: map_of_eq_None_iff intro: delete_id)
    then show ?thesis using None by (simp add: to_front_def)
  next
    case (Some w)
    have "length (AList.delete k t) = length (removeAll k (map fst t))" by (simp flip: AList.delete_keys)
    also have "removeAll k (map fst t) = remove1 k (map fst t)"
      using ok distinct_remove1_removeAll [of "map fst t" k] by (simp add: once_each_def)
    also have "length \<dots> = length t - 1"
      using map_of_SomeD [OF Some] by (force simp: length_remove1)
    finally show ?thesis using Some by (cases t) (auto simp: to_front_def)
  qed
  show "once_each (drop_back t)" using ok by (simp add: once_each_def drop_back_def map_butlast distinct_butlast)
  show "map_of (drop_back t) j = map_of t j \<or> map_of (drop_back t) j = None"
    using ok by (simp add: once_each_def drop_back_def map_of_butlast)
  show "length (drop_back t) = length t - 1" by (simp add: drop_back_def)
next
  show "make_room mx t = (if mx \<le> length t \<and> 0 < length t then make_room mx (drop_back t) else t)" for mx and t :: "'a recent"
    by (subst make_room.simps) simp
qed

subsection \<open>The token bucket\<close>

record bucket =
  bu_tokens :: rat
  bu_last :: time

record limiter =
  li_rate :: rat
  li_burst :: rat
  li_max :: nat
  li_table :: "bucket recent"
  li_lastSweep :: "time option"

definition maxBuckets :: nat where "maxBuckets = 50000"

definition NewLimiter :: "int \<Rightarrow> int \<Rightarrow> limiter" where
  "NewLimiter perMinute burst = \<lparr>li_rate = of_int perMinute / 60, li_burst = of_int burst, li_max = maxBuckets,
     li_table = [], li_lastSweep = None\<rparr>"

definition refill_time :: "rat \<Rightarrow> rat \<Rightarrow> duration" where
  "refill_time burst rate = \<lfloor>burst / rate * of_int second\<rfloor>"

function sweep_back :: "time \<Rightarrow> duration \<Rightarrow> bucket recent \<Rightarrow> bucket recent" where
  "sweep_back now refill t =
     (if t = [] then t
      else if now - bu_last (snd (last t)) \<le> refill then t
      else sweep_back now refill (drop_back t))"
  by pat_completeness auto
termination by (relation "measure (\<lambda>(now, refill, t). length t)") (auto simp: drop_back_def)

declare sweep_back.simps [simp del]

definition sweep :: "time \<Rightarrow> limiter \<Rightarrow> limiter" where
  "sweep now l =
     (if (case li_lastSweep l of None \<Rightarrow> False | Some s \<Rightarrow> now - s < second) then l
      else l\<lparr>li_lastSweep := Some now, li_table := sweep_back now (refill_time (li_burst l) (li_rate l)) (li_table l)\<rparr>)"

definition refilled :: "rat \<Rightarrow> rat \<Rightarrow> time \<Rightarrow> bucket \<Rightarrow> rat" where
  "refilled rate burst now b = min burst (bu_tokens b + of_int (now - bu_last b) / of_int second * rate)"

definition Allow :: "string \<Rightarrow> time \<Rightarrow> limiter \<Rightarrow> bool \<times> limiter" where
  "Allow key now l =
     (let (b, l) = (case map_of (li_table l) key of
            None \<Rightarrow> (let l = sweep now l; l = l\<lparr>li_table := make_room (li_max l) (li_table l)\<rparr>
                    in (\<lparr>bu_tokens = li_burst l, bu_last = now\<rparr>, l))
          | Some b \<Rightarrow> (b, l));
          tokens = refilled (li_rate l) (li_burst l) now b
      in if tokens < 1
         then (False, l\<lparr>li_table := to_front key \<lparr>bu_tokens = tokens, bu_last = now\<rparr> (li_table l)\<rparr>)
         else (True, l\<lparr>li_table := to_front key \<lparr>bu_tokens = tokens - 1, bu_last = now\<rparr> (li_table l)\<rparr>))"

fun allow_all :: "(string \<times> time) list \<Rightarrow> limiter \<Rightarrow> bool list \<times> limiter" where
  "allow_all [] l = ([], l)"
| "allow_all ((k, t) # cs) l =
     (case Allow k t l of (r, l') \<Rightarrow> case allow_all cs l' of (rs, l'') \<Rightarrow> (r # rs, l''))"

subsection \<open>Waits after wrong passwords\<close>

record failure =
  fa_count :: nat
  fa_until :: time
  fa_last :: time

record failure_tracker =
  ft_table :: "failure recent"
  ft_max :: nat

definition FailFree :: nat where "FailFree = 4"
definition failCap :: duration where "failCap = 5 * minute"
definition failFor :: duration where "failFor = hour"

definition NewFailureTracker :: failure_tracker where
  "NewFailureTracker = \<lparr>ft_table = [], ft_max = 100000\<rparr>"

definition drop_name :: "string \<Rightarrow> failure_tracker \<Rightarrow> failure_tracker" where
  "drop_name name t = t\<lparr>ft_table := AList.delete name (ft_table t)\<rparr>"

definition Blocked :: "string \<Rightarrow> time \<Rightarrow> failure_tracker \<Rightarrow> duration \<times> failure_tracker" where
  "Blocked name now t =
     (case map_of (ft_table t) name of None \<Rightarrow> (0, t) | Some f \<Rightarrow>
        if now - fa_last f > failFor then (0, drop_name name t)
        else if now < fa_until f then (fa_until f - now, t)
        else (0, t))"

definition fail_wait :: "nat \<Rightarrow> duration" where
  "fail_wait n =
     (if n > FailFree
      then (let shift = n - FailFree - 1
            in if shift < 20 then (let w = second * 2 ^ shift in if w < failCap then w else failCap) else failCap)
      else 0)"

definition Fail :: "string \<Rightarrow> time \<Rightarrow> failure_tracker \<Rightarrow> duration \<times> failure_tracker" where
  "Fail name now t =
     (let (n, t) = (case map_of (ft_table t) name of
            Some f \<Rightarrow> if now - fa_last f > failFor
                      then (let t = drop_name name t in (0, t\<lparr>ft_table := make_room (ft_max t) (ft_table t)\<rparr>))
                      else (fa_count f, t)
          | None \<Rightarrow> (0, t\<lparr>ft_table := make_room (ft_max t) (ft_table t)\<rparr>));
          n = n + 1;
          wait = fail_wait n
      in (wait, t\<lparr>ft_table := to_front name \<lparr>fa_count = n, fa_until = now + wait, fa_last = now\<rparr> (ft_table t)\<rparr>))"

definition Succeed :: "string \<Rightarrow> failure_tracker \<Rightarrow> failure_tracker" where
  "Succeed name t = (if map_of (ft_table t) name \<noteq> None then drop_name name t else t)"

datatype wait_text = InMinutes int | InSeconds int

text \<open>\<open>RoundWait\<close>, for a wait that is not negative.\<close>

definition RoundWait :: "duration \<Rightarrow> wait_text" where
  "RoundWait d =
     (let s = \<lfloor>(of_int d / of_int second :: rat) + 999 / 1000\<rfloor>; s = (if s < 1 then 1 else s)
      in if s \<ge> 120 then InMinutes ((s + 59) div 60) else InSeconds s)"

subsection \<open>Memory\<close>

lemma sweep_back_props:
  assumes "once_each t"
  shows "once_each (sweep_back now r t)" "set (sweep_back now r t) \<subseteq> set t" "length (sweep_back now r t) \<le> length t"
    "map_of (sweep_back now r t) j = map_of t j
      \<or> map_of (sweep_back now r t) j = None \<and> (\<exists>b. map_of t j = Some b \<and> now - bu_last b > r)"
proof -
  have "once_each (sweep_back now r t) \<and> set (sweep_back now r t) \<subseteq> set t \<and> length (sweep_back now r t) \<le> length t
    \<and> (map_of (sweep_back now r t) j = map_of t j
      \<or> map_of (sweep_back now r t) j = None \<and> (\<exists>b. map_of t j = Some b \<and> now - bu_last b > r))"
    using assms
  proof (induction now r t rule: sweep_back.induct)
    case (1 now r t)
    show ?case
    proof (cases "t = [] \<or> now - bu_last (snd (last t)) \<le> r")
      case True
      then show ?thesis using 1 by (auto simp: sweep_back.simps [of now r t])
    next
      case False
      obtain k b where kb: "last t = (k, b)" by (cases "last t")
      have t: "t = butlast t @ [(k, b)]" using False kb append_butlast_last_id [of t] by auto
      have step: "sweep_back now r t = sweep_back now r (drop_back t)"
        using False by (simp add: sweep_back.simps [of now r t])
      have "once_each (drop_back t)" using 1(2) by (rule recent.ok_forget)
      note IH = 1(1) [OF _ _ this]
      have old: "map_of t k = Some b" "now - bu_last b > r"
        using False kb 1(2) t by (auto simp: once_each_def intro: map_of_is_SomeI in_set_conv_decomp [THEN iffD2])
      have nb: "j \<noteq> k \<Longrightarrow> map_of (drop_back t) j = map_of t j"
        by (subst (2) t) (simp add: drop_back_def map_add_def split: option.splits)
      show ?thesis
      proof (cases "j = k")
        case True
        have "k \<notin> fst ` set (butlast t)" using 1(2) by (subst (asm) t) (auto simp: once_each_def)
        then have "map_of (drop_back t) k = None" by (simp add: drop_back_def map_of_eq_None_iff)
        then show ?thesis using IH False old True butlast_subset [of t] by (auto simp: step drop_back_def)
      next
        case jk: False
        then show ?thesis using IH False nb butlast_subset [of t] by (auto simp: step drop_back_def)
      qed
    qed
  qed
  then show "once_each (sweep_back now r t)" "set (sweep_back now r t) \<subseteq> set t" "length (sweep_back now r t) \<le> length t"
    "map_of (sweep_back now r t) j = map_of t j
      \<or> map_of (sweep_back now r t) j = None \<and> (\<exists>b. map_of t j = Some b \<and> now - bu_last b > r)" by auto
qed

lemma sweep_props:
  assumes "once_each (li_table l)"
  shows "once_each (li_table (sweep now l))" "set (li_table (sweep now l)) \<subseteq> set (li_table l)"
    "length (li_table (sweep now l)) \<le> length (li_table l)"
    "map_of (li_table (sweep now l)) j = map_of (li_table l) j
      \<or> map_of (li_table (sweep now l)) j = None
        \<and> (\<exists>b. map_of (li_table l) j = Some b \<and> now - bu_last b > refill_time (li_burst l) (li_rate l))"
    "li_rate (sweep now l) = li_rate l" "li_burst (sweep now l) = li_burst l" "li_max (sweep now l) = li_max l"
  using assms by (simp_all add: sweep_def sweep_back_props)

text \<open>The table and the bucket \<open>Allow\<close> works on, before it takes the token.\<close>

definition prepared :: "string \<Rightarrow> time \<Rightarrow> limiter \<Rightarrow> bucket \<times> limiter" where
  "prepared key now l =
     (case map_of (li_table l) key of
        None \<Rightarrow> (\<lparr>bu_tokens = li_burst l, bu_last = now\<rparr>,
                (sweep now l)\<lparr>li_table := make_room (li_max l) (li_table (sweep now l))\<rparr>)
      | Some b \<Rightarrow> (b, l))"

lemma Allow_prepared:
  "Allow key now l =
     (let (b, l') = prepared key now l; tokens = refilled (li_rate l) (li_burst l) now b
      in (\<not> tokens < 1, l'\<lparr>li_table := to_front key
            \<lparr>bu_tokens = (if tokens < 1 then tokens else tokens - 1), bu_last = now\<rparr> (li_table l')\<rparr>))"
  by (simp add: Allow_def prepared_def Let_def sweep_def split: option.splits)

lemma prepared_rest [simp]:
  "li_rate (snd (prepared key now l)) = li_rate l" "li_burst (snd (prepared key now l)) = li_burst l"
  "li_max (snd (prepared key now l)) = li_max l"
  by (simp_all add: prepared_def sweep_def split: option.splits)

lemma Allow_rest [simp]:
  "li_rate (snd (Allow key now l)) = li_rate l" "li_burst (snd (Allow key now l)) = li_burst l"
  "li_max (snd (Allow key now l)) = li_max l"
  by (simp_all add: Allow_prepared Let_def split_beta)

lemma Allow_bounded:
  assumes "once_each (li_table l)" "length (li_table l) \<le> li_max l" "0 < li_max l"
  shows "once_each (li_table (snd (Allow key now l))) \<and> length (li_table (snd (Allow key now l))) \<le> li_max l"
proof (cases "map_of (li_table l) key")
  case None
  have "once_each (li_table (sweep now l))" by (rule sweep_props(1) [OF assms(1)])
  from recent.enter_bounded(1,2) [OF this assms(3)] show ?thesis
    by (simp add: Allow_prepared prepared_def None Let_def)
next
  case (Some b)
  have "length (to_front key v (li_table l)) = length (li_table l)" for v
    using recent.count_front [OF assms(1), of key v] Some by simp
  then show ?thesis using assms recent.ok_front [OF assms(1)] Some
    by (simp add: Allow_prepared prepared_def Let_def)
qed

lemma allow_all_bounded:
  "once_each (li_table l) \<Longrightarrow> length (li_table l) \<le> li_max l \<Longrightarrow> 0 < li_max l \<Longrightarrow>
     once_each (li_table (snd (allow_all cs l))) \<and> length (li_table (snd (allow_all cs l))) \<le> li_max l"
proof (induction cs arbitrary: l)
  case (Cons c cs)
  obtain k t where c: "c = (k, t)" by (cases c)
  show ?case using Cons.IH [of "snd (Allow k t l)"] Allow_bounded [OF Cons.prems, of k t] Cons.prems(3)
    by (simp add: c split_beta)
qed simp

text \<open>
  The limiter's memory is bounded however many addresses call: after any sequence of calls, at any times, a limiter
  remembers each key once and never more than 50000 keys.
\<close>

theorem limiter_bounded:
  "let t = li_table (snd (allow_all cs (NewLimiter perMinute burst))) in distinct (map fst t) \<and> length t \<le> 50000"
  using allow_all_bounded [of "NewLimiter perMinute burst" cs] by (simp add: NewLimiter_def maxBuckets_def once_each_def Let_def)

subsection \<open>Forgetting changes nothing\<close>

text \<open>The bucket that never forgets: every key has one, full until it is first used.\<close>

definition ideal_level :: "rat \<Rightarrow> rat \<Rightarrow> (string \<Rightarrow> bucket option) \<Rightarrow> time \<Rightarrow> string \<Rightarrow> rat" where
  "ideal_level rate burst st t k = (case st k of None \<Rightarrow> burst | Some b \<Rightarrow> refilled rate burst t b)"

fun ideal_all :: "rat \<Rightarrow> rat \<Rightarrow> (string \<times> time) list \<Rightarrow> (string \<Rightarrow> bucket option) \<Rightarrow> bool list" where
  "ideal_all rate burst [] st = []"
| "ideal_all rate burst ((k, t) # cs) st =
     (let tokens = ideal_level rate burst st t k
      in (\<not> tokens < 1) # ideal_all rate burst cs (st(k \<mapsto> \<lparr>bu_tokens = (if tokens < 1 then tokens else tokens - 1), bu_last = t\<rparr>)))"

definition agrees :: "limiter \<Rightarrow> (string \<Rightarrow> bucket option) \<Rightarrow> time \<Rightarrow> bool" where
  "agrees l st now \<longleftrightarrow> once_each (li_table l) \<and> fst ` set (li_table l) \<subseteq> dom st
     \<and> (\<forall>e \<in> set (li_table l). 0 \<le> bu_tokens (snd e) \<and> bu_last (snd e) \<le> now)
     \<and> (\<forall>k t. now \<le> t \<longrightarrow> ideal_level (li_rate l) (li_burst l) (map_of (li_table l)) t k = ideal_level (li_rate l) (li_burst l) st t k)"

lemma refilled_after_idle:
  assumes "0 < rate" "0 \<le> bu_tokens b" "now - bu_last b > refill_time burst rate" "now \<le> t"
  shows "refilled rate burst t b = burst"
proof -
  have "burst / rate * of_int second < of_int (now - bu_last b)"
    using assms(3) unfolding refill_time_def by linarith
  also have "\<dots> \<le> of_int (t - bu_last b)" using assms(4) by simp
  finally have "burst < of_int (t - bu_last b) / of_int second * rate"
    using assms(1) by (simp add: field_simps)
  then show ?thesis using assms(2) by (simp add: refilled_def)
qed

lemma sweep_level:
  assumes "agrees l st now" "0 < li_rate l" "now \<le> t"
  shows "ideal_level (li_rate l) (li_burst l) (map_of (li_table (sweep now l))) t j
       = ideal_level (li_rate l) (li_burst l) (map_of (li_table l)) t j"
proof -
  have ok: "once_each (li_table l)" using assms(1) by (simp add: agrees_def)
  from sweep_props(4) [OF ok, of now j] show ?thesis
  proof
    assume swept: "map_of (li_table (sweep now l)) j = None
        \<and> (\<exists>b. map_of (li_table l) j = Some b \<and> now - bu_last b > refill_time (li_burst l) (li_rate l))"
    then obtain b where b: "map_of (li_table l) j = Some b" "now - bu_last b > refill_time (li_burst l) (li_rate l)" by blast
    have "0 \<le> bu_tokens b" using assms(1) map_of_SomeD [OF b(1)] by (force simp: agrees_def)
    from refilled_after_idle [OF assms(2) this b(2) assms(3)] show ?thesis using swept b by (simp add: ideal_level_def)
  qed (simp add: ideal_level_def)
qed

lemma refilled_zero [simp]: "refilled rate burst now \<lparr>bu_tokens = burst, bu_last = now\<rparr> = burst"
  by (simp add: refilled_def)

lemma Allow_agrees:
  assumes "agrees l st now0" "now0 \<le> now" "0 < li_rate l" "0 \<le> li_burst l"
    and room: "finite K" "dom st \<subseteq> K" "key \<in> K" "card K \<le> li_max l" "0 < li_max l"
  defines "tokens \<equiv> ideal_level (li_rate l) (li_burst l) st now key"
  shows "fst (Allow key now l) = (\<not> tokens < 1)"
    "agrees (snd (Allow key now l)) (st(key \<mapsto> \<lparr>bu_tokens = (if tokens < 1 then tokens else tokens - 1), bu_last = now\<rparr>)) now"
proof -
  have ok: "once_each (li_table l)" and sub: "fst ` set (li_table l) \<subseteq> dom st" using assms(1) by (simp_all add: agrees_def)
  have ag: "agrees l st now" using assms(1,2) by (fastforce simp: agrees_def)
  define p where "p = prepared key now l"
  have lvl: "ideal_level (li_rate l) (li_burst l) (map_of (li_table (snd p))) t j = ideal_level (li_rate l) (li_burst l) st t j"
    if "now \<le> t" for t j
  proof (cases "map_of (li_table l) key")
    case None
    have "length (li_table (sweep now l)) \<le> length (li_table l)" by (rule sweep_props(3) [OF ok])
    also have "length (li_table l) = card (fst ` set (li_table l))"
      using ok distinct_card [of "map fst (li_table l)"] by (simp add: once_each_def)
    also have "\<dots> \<le> card (K - {key})"
      using sub room(1,2) None by (intro card_mono) (auto simp: map_of_eq_None_iff)
    also have "\<dots> < li_max l" using room card_gt_0_iff [of K] by (auto simp: card_Diff_singleton)
    finally have small: "length (li_table (sweep now l)) < li_max l" .
    then have "li_table (snd p) = li_table (sweep now l)"
      using recent.room_props [OF sweep_props(1) [OF ok, of now], of "li_max l" key] by (simp add: p_def prepared_def None)
    then show ?thesis using sweep_level [OF ag assms(3) that, of j] ag that by (simp add: agrees_def)
  next
    case (Some b)
    then show ?thesis using ag that by (simp add: p_def prepared_def agrees_def)
  qed
  have tok: "refilled (li_rate l) (li_burst l) now (fst p) = tokens"
  proof -
    have "ideal_level (li_rate l) (li_burst l) (map_of (li_table l)) now key = tokens"
      using ag unfolding agrees_def tokens_def by blast
    then show ?thesis by (cases "map_of (li_table l) key") (simp_all add: p_def prepared_def ideal_level_def)
  qed
  have tab: "set (li_table (snd p)) \<subseteq> set (li_table l)" "once_each (li_table (snd p))"
  proof -
    have "set (make_room m t) \<subseteq> set t \<and> (once_each t \<longrightarrow> once_each (make_room m t))" for m and t :: "bucket recent"
    proof (induction m t rule: make_room.induct)
      case (1 m t)
      then show ?case using recent.ok_forget [of t] butlast_subset [of t]
        by (subst (1 2) make_room.simps) (auto simp: drop_back_def)
    qed
    then show "set (li_table (snd p)) \<subseteq> set (li_table l)" "once_each (li_table (snd p))"
      using sweep_props(1,2) [OF ok, of now] ok by (auto simp: p_def prepared_def split: option.splits)
  qed
  have A: "Allow key now l = (\<not> tokens < 1, (snd p)\<lparr>li_table := to_front key
            \<lparr>bu_tokens = (if tokens < 1 then tokens else tokens - 1), bu_last = now\<rparr> (li_table (snd p))\<rparr>)"
    by (simp add: Allow_prepared Let_def split_beta tok flip: p_def)
  show "fst (Allow key now l) = (\<not> tokens < 1)" by (simp add: A)
  let ?b = "\<lparr>bu_tokens = (if tokens < 1 then tokens else tokens - 1), bu_last = now\<rparr>"
  have pos: "0 \<le> tokens"
  proof -
    have "0 \<le> bu_tokens (fst p) \<and> bu_last (fst p) \<le> now"
      using ag assms(4) map_of_SomeD by (fastforce simp: p_def prepared_def agrees_def split: option.splits)
    then show ?thesis using assms(3,4) unfolding tok [symmetric] by (simp add: refilled_def)
  qed
  have m: "map_of (to_front key ?b (li_table (snd p))) = (map_of (li_table (snd p)))(key \<mapsto> ?b)"
    by (rule recent.find_front [OF tab(2)])
  have s: "set (to_front key ?b (li_table (snd p))) \<subseteq> insert (key, ?b) (set (li_table l))"
    using tab(1) by (auto simp: to_front_def AList.delete_eq)
  have rates: "li_rate (snd p) = li_rate l" "li_burst (snd p) = li_burst l" by (simp_all add: p_def)
  have "once_each (to_front key ?b (li_table (snd p)))" by (rule recent.ok_front [OF tab(2)])
  moreover have "fst ` set (to_front key ?b (li_table (snd p))) \<subseteq> dom (st(key \<mapsto> ?b))"
  proof -
    have "fst ` set (to_front key ?b (li_table (snd p))) \<subseteq> insert key (fst ` set (li_table l))" 
      using image_mono [OF s, of fst] unfolding image_insert fst_conv .
    also have "\<dots> \<subseteq> insert key (dom st)" using sub by (rule insert_mono)
    also have "\<dots> = dom (st(key \<mapsto> ?b))" by simp
    finally show ?thesis .
  qed
  moreover have "\<forall>e \<in> set (to_front key ?b (li_table (snd p))). 0 \<le> bu_tokens (snd e) \<and> bu_last (snd e) \<le> now"
    using s ag pos by (auto simp: agrees_def)
  ultimately show "agrees (snd (Allow key now l)) (st(key \<mapsto> ?b)) now"
    using lvl by (simp add: agrees_def A rates m) (simp add: ideal_level_def)
qed

lemma allow_all_ideal:
  assumes "agrees l st now" "sorted (now # map snd cs)" "0 < li_rate l" "0 \<le> li_burst l"
    "finite K" "dom st \<union> fst ` set cs \<subseteq> K" "card K \<le> li_max l" "0 < li_max l"
  shows "fst (allow_all cs l) = ideal_all (li_rate l) (li_burst l) cs st"
  using assms
proof (induction cs arbitrary: l st now)
  case (Cons c cs)
  obtain k t where c: "c = (k, t)" by (cases c)
  have pre: "now \<le> t" "dom st \<subseteq> K" "k \<in> K" "sorted (t # map snd cs)" using Cons.prems by (auto simp: c)
  note A = Allow_agrees [OF Cons.prems(1) pre(1) Cons.prems(3,4,5) pre(2,3) Cons.prems(7,8)]
  let ?tok = "ideal_level (li_rate l) (li_burst l) st t k"
  define st' where "st' = st(k \<mapsto> \<lparr>bu_tokens = (if ?tok < 1 then ?tok else ?tok - 1), bu_last = t\<rparr>)"
  have dom: "dom st' \<union> fst ` set cs \<subseteq> K" using Cons.prems(6) pre by (auto simp: c st'_def)
  have ag: "agrees (snd (Allow k t l)) st' t" using A(2) by (simp only: st'_def)
  have "fst (allow_all cs (snd (Allow k t l))) = ideal_all (li_rate l) (li_burst l) cs st'"
    using Cons.IH [OF ag pre(4)] Cons.prems(3,4,5,7,8) dom by simp
  then show ?case using A(1) by (simp add: c split_beta Let_def flip: st'_def)
qed simp

lemma agrees_start: "li_table l = [] \<Longrightarrow> agrees l (\<lambda>_. None) now"
  by (simp add: agrees_def once_each_def)

text \<open>
  C21. Forgetting is invisible: while no more than the limiter's capacity of distinct keys call, at times that do not run
  backwards, its answers are those of the ideal limiter that keeps one bucket per key for ever, so dropping idle buckets and
  starting unknown keys full never lets a call through, or stops one, that should not be.
\<close>

theorem limiter_forgets_safely:
  assumes "li_table l = []" "0 < li_rate l" "0 \<le> li_burst l" "0 < li_max l"
    and "card (fst ` set cs) \<le> li_max l" "sorted (map snd cs)"
  shows "fst (allow_all cs l) = ideal_all (li_rate l) (li_burst l) cs (\<lambda>_. None)"
proof (cases cs)
  case (Cons c cs')
  show ?thesis
    using allow_all_ideal [OF agrees_start [OF assms(1)], of "snd c" cs "fst ` set cs"] assms Cons by simp
qed simp

definition demo_limiter :: limiter where "demo_limiter = NewLimiter 60 1"

definition demo_calls :: "(string \<times> time) list" where
  "demo_calls = [(''a'', 0), (''a'', 500000000), (''a'', 1200000000)]"

lemma demo_limiter_fields:
  "li_table demo_limiter = []" "0 < li_rate demo_limiter" "0 \<le> li_burst demo_limiter" "0 < li_max demo_limiter"
  "card (fst ` set demo_calls) \<le> li_max demo_limiter" "sorted (map snd demo_calls)"
  by (simp_all add: demo_limiter_def demo_calls_def NewLimiter_def maxBuckets_def)

theorem limiter_forgets_safely_witness:
  "fst (allow_all demo_calls demo_limiter) = ideal_all 1 1 demo_calls (\<lambda>_. None)
   \<and> ideal_all 1 1 demo_calls (\<lambda>_. None) = [True, False, True]"
proof
  show "fst (allow_all demo_calls demo_limiter) = ideal_all 1 1 demo_calls (\<lambda>_. None)"
    using limiter_forgets_safely [OF demo_limiter_fields] by (simp add: demo_limiter_def NewLimiter_def)
  show "ideal_all 1 1 demo_calls (\<lambda>_. None) = [True, False, True]"
    by (simp add: demo_calls_def ideal_level_def refilled_def)
qed

definition let_through :: "string \<Rightarrow> (string \<times> time) list \<Rightarrow> bool list \<Rightarrow> nat" where
  "let_through k cs rs = length (filter (\<lambda>(c, r). fst c = k \<and> r) (zip cs rs))"

definition gained :: "rat \<Rightarrow> time \<Rightarrow> time \<Rightarrow> rat" where
  "gained rate a b = of_int (b - a) / of_int second * rate"

lemma gained_add: "gained rate a c = gained rate a b + gained rate b c"
  by (simp add: gained_def field_simps)

lemma gained_nonneg: "0 \<le> rate \<Longrightarrow> a \<le> b \<Longrightarrow> 0 \<le> gained rate a b"
  by (simp add: gained_def)

lemma refilled_gained: "refilled rate burst now b = min burst (bu_tokens b + gained rate (bu_last b) now)"
  by (simp add: refilled_def gained_def)

lemma refilled_grows: "0 \<le> rate \<Longrightarrow> t \<le> t' \<Longrightarrow> refilled rate burst t' b \<le> refilled rate burst t b + gained rate t t'"
  using gained_nonneg [of rate t t'] gained_add [of rate "bu_last b" t' t] by (simp add: refilled_gained min_def)

lemma ideal_level_grows:
  assumes "0 \<le> rate" "t \<le> t'"
  shows "ideal_level rate burst st t' k \<le> ideal_level rate burst st t k + gained rate t t'"
  using refilled_grows [OF assms] gained_nonneg [OF assms] by (cases "st k") (simp_all add: ideal_level_def)

lemma ideal_rate:
  assumes "0 \<le> rate" "sorted (t0 # map snd cs)" "\<forall>c \<in> set cs. snd c \<le> T" "t0 \<le> T" "0 \<le> ideal_level rate burst st t0 k"
    "0 \<le> burst"
  shows "of_nat (let_through k cs (ideal_all rate burst cs st)) \<le> ideal_level rate burst st t0 k + gained rate t0 T"
  using assms
proof (induction cs arbitrary: st t0)
  case Nil
  then show ?case using gained_nonneg [of rate t0 T] by (simp add: let_through_def)
next
  case (Cons c cs)
  obtain j t where c: "c = (j, t)" by (cases c)
  have t: "t0 \<le> t" "t \<le> T" "sorted (t # map snd cs)" "\<forall>c \<in> set cs. snd c \<le> T" using Cons.prems by (auto simp: c)
  let ?tok = "ideal_level rate burst st t j"
  define st' where "st' = st(j \<mapsto> \<lparr>bu_tokens = (if ?tok < 1 then ?tok else ?tok - 1), bu_last = t\<rparr>)"
  note split_time = gained_add [of rate t0 T t]
  have later: "ideal_level rate burst st t k \<le> ideal_level rate burst st t0 k + gained rate t0 t"
    by (rule ideal_level_grows [OF Cons.prems(1) t(1)])
  have pos: "0 \<le> ideal_level rate burst st t k"
  proof (cases "st k")
    case (Some b)
    show ?thesis
      using Cons.prems(5,6) Some gained_nonneg [OF Cons.prems(1) t(1)] gained_add [of rate "bu_last b" t t0]
      by (simp add: ideal_level_def refilled_gained)
  qed (simp add: ideal_level_def Cons.prems(6))
  have "0 \<le> ideal_level rate burst st' t k"
    using pos Cons.prems(6) by (auto simp: st'_def ideal_level_def refilled_def)
  then have rest: "of_nat (let_through k cs (ideal_all rate burst cs st')) \<le> ideal_level rate burst st' t k + gained rate t T"
    by (rule Cons.IH [OF Cons.prems(1) t(3,4,2) _ Cons.prems(6)])
  have same: "j \<noteq> k \<Longrightarrow> ideal_level rate burst st' t k = ideal_level rate burst st t k"
    by (simp add: st'_def ideal_level_def)
  have own: "ideal_level rate burst st' t j \<le> (if ?tok < 1 then ?tok else ?tok - 1)"
    by (simp add: st'_def ideal_level_def refilled_def)
  have count: "let_through k (c # cs) (ideal_all rate burst (c # cs) st)
      = (if j = k \<and> \<not> ?tok < 1 then 1 else 0) + let_through k cs (ideal_all rate burst cs st')"
    by (auto simp: c let_through_def Let_def simp flip: st'_def)
  show ?case
  proof (cases "j = k")
    case True
    then show ?thesis unfolding count using rest own later split_time by (auto split: if_splits)
  next
    case False
    then show ?thesis unfolding count using rest same later split_time by simp
  qed
qed

text \<open>
  C32. The rate holds: of the calls one key makes between two times, no more are let through than the burst plus the rate
  times the time between, whatever other keys do (within the limiter's capacity).
\<close>

theorem limiter_rate_bound:
  assumes "li_table l = []" "0 < li_rate l" "0 \<le> li_burst l" "0 < li_max l"
    and "card (fst ` set cs) \<le> li_max l" "sorted (map snd cs)" "\<forall>c \<in> set cs. from \<le> snd c \<and> snd c \<le> until" "from \<le> until"
  shows "of_nat (let_through k cs (fst (allow_all cs l))) \<le> li_burst l + li_rate l * of_int (until - from) / of_int second"
proof -
  have "fst (allow_all cs l) = ideal_all (li_rate l) (li_burst l) cs (\<lambda>_. None)"
  proof (cases cs)
    case (Cons c cs')
    show ?thesis
      using allow_all_ideal [OF agrees_start [OF assms(1)], of "snd c" cs "fst ` set cs"] assms Cons by simp
  qed simp
  moreover have "sorted (from # map snd cs)" using assms(6,7) by auto
  ultimately show ?thesis
    using ideal_rate [of "li_rate l" "from" cs until "li_burst l" "\<lambda>_. None" k] assms by (simp add: ideal_level_def gained_def mult.commute)
qed

theorem limiter_rate_bound_witness:
  "of_nat (let_through ''a'' demo_calls (fst (allow_all demo_calls demo_limiter))) \<le> (1 + 2 :: rat)"
proof -
  have "\<forall>c \<in> set demo_calls. 0 \<le> snd c \<and> snd c \<le> 2000000000" by (simp add: demo_calls_def)
  from limiter_rate_bound [OF demo_limiter_fields this, of "''a''"] show ?thesis
    by (simp add: demo_limiter_def NewLimiter_def)
qed

subsection \<open>The waits\<close>

lemma fail_wait_closed: "fail_wait n = (if n \<le> 4 then 0 else min (2 ^ (n - 5) * second) (5 * minute))"
proof (cases "n > 4 \<and> n - 5 \<ge> 20")
  case True
  then have "(2::int) ^ 20 \<le> 2 ^ (n - 5)" by (intro power_increasing) auto
  then have "5 * minute \<le> 2 ^ (n - 5) * second" by simp
  then show ?thesis using True by (simp add: fail_wait_def FailFree_def failCap_def Let_def)
next
  case False
  then show ?thesis by (auto simp: fail_wait_def FailFree_def failCap_def Let_def min_def)
qed

lemma fail_wait_bounds: "0 \<le> fail_wait n" "fail_wait n \<le> 5 * minute"
  by (simp_all add: fail_wait_closed)

lemma Fail_result:
  assumes "Fail name now t = (w, t')" "once_each (ft_table t)" "0 < ft_max t" "length (ft_table t) \<le> ft_max t"
  defines "n \<equiv> (case map_of (ft_table t) name of Some f \<Rightarrow> if now - fa_last f > failFor then 1 else fa_count f + 1 | None \<Rightarrow> 1)"
  shows "w = fail_wait n" "map_of (ft_table t') name = Some \<lparr>fa_count = n, fa_until = now + w, fa_last = now\<rparr>"
    "once_each (ft_table t')" "length (ft_table t') \<le> ft_max t'" "ft_max t' = ft_max t"
proof -
  have del: "once_each (AList.delete name (ft_table t))" using assms(2) by (simp add: once_each_def distinct_delete)
  note fresh = recent.enter_bounded [OF assms(2,3)] recent.enter_bounded [OF del assms(3)]
  have known: "length (to_front name v (ft_table t)) \<le> ft_max t" if "map_of (ft_table t) name = Some f" for v f
    using recent.count_front [OF assms(2), of name v] that assms(4) by simp
  show "w = fail_wait n" "map_of (ft_table t') name = Some \<lparr>fa_count = n, fa_until = now + w, fa_last = now\<rparr>"
    "once_each (ft_table t')" "length (ft_table t') \<le> ft_max t'" "ft_max t' = ft_max t"
    using assms(1) fresh known recent.ok_front [OF assms(2)] recent.find_front [OF assms(2)]
    by (auto simp: Fail_def Let_def drop_name_def n_def split: option.splits if_splits)
qed

text \<open>
  The wait after a wrong password: the n-th failure in a row (no two an hour apart) earns no wait up to the fourth,
  then 1 s, 2 s, 4 s and so on up to five minutes; asked before it is over, \<open>Blocked\<close> returns exactly what is left of
  it; a correct password clears it at once; and no more than the tracker's maximum of names is remembered.
\<close>

theorem failure_waits:
  assumes "Fail name now t = (w, t')" "once_each (ft_table t)" "0 < ft_max t" "length (ft_table t) \<le> ft_max t"
  defines "n \<equiv> (case map_of (ft_table t) name of Some f \<Rightarrow> if now - fa_last f > failFor then 1 else fa_count f + 1 | None \<Rightarrow> 1)"
  shows "w = (if n \<le> 4 then 0 else min (2 ^ (n - 5) * second) (5 * minute))
    \<and> (\<forall>later. now \<le> later \<longrightarrow> fst (Blocked name later t') = max 0 (now + w - later))
    \<and> (\<forall>later. fst (Blocked name later (Succeed name t')) = 0)
    \<and> distinct (map fst (ft_table t')) \<and> length (ft_table t') \<le> ft_max t"
proof -
  note r = Fail_result [OF assms(1-4), folded n_def]
  have "fst (Blocked name later t') = max 0 (now + w - later)" if "now \<le> later" for later
    using that fail_wait_bounds(2) [of n] by (auto simp: Blocked_def r(2) r(1) failFor_def)
  moreover have "map_of (ft_table (Succeed name t')) name = None"
    by (simp add: Succeed_def drop_name_def delete_conv')
  ultimately show ?thesis using r by (auto simp: fail_wait_closed Blocked_def once_each_def)
qed

theorem failure_waits_witness:
  "fst (Blocked ''amy'' 5 (snd (Fail ''amy'' 5 (\<lparr>ft_table = [(''amy'', \<lparr>fa_count = 5, fa_until = 0, fa_last = 0\<rparr>)], ft_max = 10\<rparr>)))) = 2 * second"
proof -
  let ?t = "\<lparr>ft_table = [(''amy'', \<lparr>fa_count = 5, fa_until = 0, fa_last = 0\<rparr>)], ft_max = 10\<rparr>"
  have "Fail ''amy'' 5 ?t = (fst (Fail ''amy'' 5 ?t), snd (Fail ''amy'' 5 ?t))" by simp
  from failure_waits [OF this] show ?thesis by (simp add: once_each_def failFor_def)
qed

end
