(* ===== verification/Ledger.thy ===== *)
theory Ledger
  imports Prelude Complex_Main
begin

text \<open>
  What keeps throughput tests apart and within bounds (\<open>link/gate.go\<close>): the \<open>Flag\<close> that says a test loads the
  link, the \<open>Ledger\<close> that counts the bytes tests carried over a sliding window, the daily \<open>TimeWindow\<close>, and the
  \<open>Load\<close> that turns counters into rates. Rates are exact rationals where the code has \<open>float64\<close>; byte counts and the
  flag's counters keep the code's width. The \<open>Gate\<close>, a channel of one slot, is left out.
\<close>

subsection \<open>The flag\<close>

record flag =
  fl_on :: "32 word"
  fl_starts :: u64

record flag_stamp =
  fs_starts :: u64
  fs_on :: bool

definition On :: "flag option \<Rightarrow> bool" where
  "On f = (case f of None \<Rightarrow> False | Some f \<Rightarrow> 0 <s fl_on f)"

text \<open>
  The flag is two atomic counters and no lock, so every addition and every load is a step of its own. \<open>Stamp\<close> and
  \<open>Unchanged\<close> load \<open>starts\<close> first and \<open>on\<close> after it: they take the flag as it is at the first load and at the second.
\<close>

definition Stamp :: "flag option \<Rightarrow> flag option \<Rightarrow> flag_stamp" where
  "Stamp f g = (case f of None \<Rightarrow> \<lparr>fs_starts = 0, fs_on = False\<rparr> | Some h \<Rightarrow> \<lparr>fs_starts = fl_starts h, fs_on = On g\<rparr>)"

definition Unchanged :: "flag option \<Rightarrow> flag option \<Rightarrow> flag_stamp \<Rightarrow> bool" where
  "Unchanged f g s = (case f of None \<Rightarrow> True | Some h \<Rightarrow> \<not> fs_on s \<and> fl_starts h = fs_starts s \<and> \<not> On g)"

text \<open>
  \<open>Enter\<close> adds to \<open>starts\<close>, adds to \<open>on\<close>, and hands out a function that takes the latter back once. A call of \<open>Enter\<close> is in
  between its two additions, or has returned, or its exit function has been called.
\<close>

datatype entrance = Started | Entered | Left

type_synonym flag_run = "flag \<times> entrance list"

definition Enter_starts :: "flag_run \<Rightarrow> flag_run" where
  "Enter_starts r = (case r of (f, us) \<Rightarrow> (f\<lparr>fl_starts := fl_starts f + 1\<rparr>, us @ [Started]))"

definition Enter_on :: "nat \<Rightarrow> flag_run \<Rightarrow> flag_run" where
  "Enter_on i r = (case r of (f, us) \<Rightarrow>
     if i < length us \<and> us ! i = Started then (f\<lparr>fl_on := fl_on f + 1\<rparr>, us[i := Entered]) else r)"

definition exit_flag :: "nat \<Rightarrow> flag_run \<Rightarrow> flag_run" where
  "exit_flag i r = (case r of (f, us) \<Rightarrow>
     if i < length us \<and> us ! i = Entered then (f\<lparr>fl_on := fl_on f - 1\<rparr>, us[i := Left]) else r)"

datatype flag_op = OpStarts | OpOn nat | OpExit nat

fun flag_step :: "flag_op \<Rightarrow> flag_run \<Rightarrow> flag_run" where
  "flag_step OpStarts r = Enter_starts r"
| "flag_step (OpOn i) r = Enter_on i r"
| "flag_step (OpExit i) r = exit_flag i r"

definition flag_ops :: "flag_op list \<Rightarrow> flag_run \<Rightarrow> flag_run" where
  "flag_ops ops r = fold flag_step ops r"

definition flag_zero :: flag_run where
  "flag_zero = (\<lparr>fl_on = 0, fl_starts = 0\<rparr>, [])"

subsection \<open>The ledger\<close>

record ledger =
  lg_window :: duration
  lg_limit :: u64
  lg_entries :: "(time \<times> u64) list"

definition trim :: "time \<Rightarrow> ledger \<Rightarrow> ledger" where
  "trim now l = l\<lparr>lg_entries := dropWhile (\<lambda>e. now - fst e \<ge> lg_window l) (lg_entries l)\<rparr>"

definition Used :: "time \<Rightarrow> ledger \<Rightarrow> u64 \<times> ledger" where
  "Used now l = (let l' = trim now l in (fold (\<lambda>e t. t + snd e) (lg_entries l') 0, l'))"

definition Charge :: "time \<Rightarrow> u64 \<Rightarrow> ledger \<Rightarrow> ledger" where
  "Charge now n l =
     (if n = 0 then l else (let l' = trim now l in l'\<lparr>lg_entries := lg_entries l' @ [(now, n)]\<rparr>))"

definition Allows :: "time \<Rightarrow> u64 \<Rightarrow> ledger \<Rightarrow> bool \<times> ledger" where
  "Allows now est l =
     (if lg_limit l = 0 then (True, l)
      else (case Used now l of (u, l') \<Rightarrow> (u + est \<le> lg_limit l, l')))"

subsection \<open>The daily window\<close>

record time_window =
  tw_from :: duration
  tw_to :: duration
  tw_set :: bool

definition always :: time_window where
  "always = \<lparr>tw_from = 0, tw_to = 0, tw_set = False\<rparr>"

definition parseClock :: "string \<Rightarrow> duration option" where
  "parseClock s = (case cut_at (CHR '':'') (trim_space s) of (h, m, found) \<Rightarrow>
     (case (atoi h, atoi m) of
        (Some hh, Some mm) \<Rightarrow>
          if \<not> found \<or> length h \<noteq> 2 \<or> length m \<noteq> 2 \<or> hh < 0 \<or> hh > 23 \<or> mm < 0 \<or> mm > 59 then None
          else Some (hh * hour + mm * minute)
      | _ \<Rightarrow> None))"

definition ParseTimeWindow :: "string \<Rightarrow> time_window option" where
  "ParseTimeWindow s0 = (let s = trim_space s0 in
     if s = [] then Some always
     else (case cut_at (CHR ''-'') s of (a, b, found) \<Rightarrow>
       if \<not> found then None
       else (case (parseClock a, parseClock b) of
          (Some f, Some t) \<Rightarrow> if f = t then None else Some \<lparr>tw_from = f, tw_to = t, tw_set = True\<rparr>
        | _ \<Rightarrow> None)))"

definition sinceMidnight :: "time \<Rightarrow> duration" where
  "sinceMidnight t = (let s = (t div second) mod 86400 in
     (s div 3600) * hour + (s div 60 mod 60) * minute + (s mod 60) * second)"

definition Contains :: "time_window \<Rightarrow> time \<Rightarrow> bool" where
  "Contains w t = (if \<not> tw_set w then True
     else (let d = sinceMidnight t in
       if tw_from w < tw_to w then d \<ge> tw_from w \<and> d < tw_to w
       else d \<ge> tw_from w \<or> d < tw_to w))"

definition Opens :: "time_window \<Rightarrow> time \<Rightarrow> duration" where
  "Opens w t = (if Contains w t then 0
     else (let d = tw_from w - sinceMidnight t in if d < 0 then d + 24 * hour else d))"

subsection \<open>The load on each link\<close>

record load_sample =
  ls_at :: time
  ls_sent :: u64
  ls_recv :: u64

record load_rate =
  lr_sent :: rat
  lr_received :: rat
  lr_at :: time

record load =
  ld_last :: "string \<rightharpoonup> load_sample"
  ld_rate :: "string \<rightharpoonup> load_rate"

record peer_counters =
  pc_id :: string
  pc_sent :: u64
  pc_recv :: u64
  pc_unknown :: bool

definition rate_of :: "load_sample \<Rightarrow> load_sample \<Rightarrow> load_rate" where
  "rate_of prev cur = (let dt = of_int (ls_at cur - ls_at prev) / of_int second in
     \<lparr>lr_sent = of_int (uint (ls_sent cur - ls_sent prev)) * 8 / dt,
      lr_received = of_int (uint (ls_recv cur - ls_recv prev)) * 8 / dt, lr_at = ls_at cur\<rparr>)"

definition observe_peer :: "time \<Rightarrow> peer_counters \<Rightarrow> load \<Rightarrow> load" where
  "observe_peer now p l =
     (if pc_unknown p then l
      else (let cur = \<lparr>ls_at = now, ls_sent = pc_sent p, ls_recv = pc_recv p\<rparr>;
                l' = l\<lparr>ld_last := (ld_last l)(pc_id p \<mapsto> cur)\<rparr>
            in (case ld_last l (pc_id p) of
                  None \<Rightarrow> l'
                | Some prev \<Rightarrow>
                    if now - ls_at prev < 5 * second \<or> ls_sent cur < ls_sent prev \<or> ls_recv cur < ls_recv prev then l'
                    else l'\<lparr>ld_rate := (ld_rate l)(pc_id p \<mapsto> rate_of prev cur)\<rparr>)))"

definition Observe :: "peer_counters list \<Rightarrow> time \<Rightarrow> load \<Rightarrow> load" where
  "Observe ps now l =
     (let seen = pc_id ` set (filter (\<lambda>p. \<not> pc_unknown p) ps);
          l' = fold (observe_peer now) ps l
      in \<lparr>ld_last = (\<lambda>k. if k \<in> seen then ld_last l' k else None),
          ld_rate = (\<lambda>k. if ld_last l' k \<noteq> None \<and> k \<notin> seen then None else ld_rate l' k)\<rparr>)"

definition Rate :: "string \<Rightarrow> time \<Rightarrow> duration \<Rightarrow> load \<Rightarrow> load_rate option" where
  "Rate peer now maxAge l = (case ld_rate l peer of None \<Rightarrow> None
     | Some r \<Rightarrow> if now - lr_at r > maxAge then None else Some r)"

subsection \<open>The flag tells an idle stretch\<close>

definition flag_inv :: "flag_run \<Rightarrow> bool" where
  "flag_inv r = (fl_on (fst r) = of_nat (count_list (snd r) Entered) \<and> fl_starts (fst r) = of_nat (length (snd r)))"

lemma count_list_update:
  "i < length xs \<Longrightarrow> count_list (xs[i := y]) x + (if xs ! i = x then 1 else 0) = count_list xs x + (if y = x then 1 else 0)"
proof (induction xs arbitrary: i)
  case (Cons z xs)
  have "count_list (xs[j := y]) x + (if xs ! j = x then 1 else 0) = count_list xs x + (if y = x then 1 else 0)" if "j < length xs" for j
    using Cons.IH [OF that] .
  then show ?case using Cons.prems by (cases i) (force split: if_splits)+
qed simp

lemma flag_step_inv: "flag_inv r \<Longrightarrow> flag_inv (flag_step p r)"
proof (cases p)
  case OpStarts
  assume "flag_inv r"
  then show ?thesis using OpStarts by (cases r) (simp add: flag_inv_def Enter_starts_def add.commute)
next
  case (OpOn i)
  assume inv: "flag_inv r"
  show ?thesis
  proof (cases "i < length (snd r) \<and> snd r ! i = Started")
    case True
    then have "count_list ((snd r)[i := Entered]) Entered = count_list (snd r) Entered + 1"
      using count_list_update [of i "snd r" Entered Entered] by simp
    then show ?thesis using inv True OpOn by (cases r) (simp add: flag_inv_def Enter_on_def add.commute)
  qed (use inv OpOn in \<open>cases r, auto simp: Enter_on_def\<close>)
next
  case (OpExit i)
  assume inv: "flag_inv r"
  show ?thesis
  proof (cases "i < length (snd r) \<and> snd r ! i = Entered")
    case True
    then have "count_list (snd r) Entered = count_list ((snd r)[i := Left]) Entered + 1"
      using count_list_update [of i "snd r" Left Entered] by simp
    then have "(of_nat (count_list (snd r) Entered) :: 32 word) = of_nat (count_list ((snd r)[i := Left]) Entered) + 1"
      by simp
    then show ?thesis using inv True OpExit by (cases r) (simp add: flag_inv_def exit_flag_def)
  qed (use inv OpExit in \<open>cases r, auto simp: exit_flag_def\<close>)
qed

lemma flag_ops_inv: "flag_inv r \<Longrightarrow> flag_inv (flag_ops ops r)"
  unfolding flag_ops_def by (induction ops arbitrary: r) (simp_all add: flag_step_inv)

lemma flag_ops_app: "flag_ops (p @ q) r = flag_ops q (flag_ops p r)"
  by (simp add: flag_ops_def)

lemma flag_zero_inv: "flag_inv flag_zero" by (simp add: flag_inv_def flag_zero_def)

lemma flag_step_len: "length (snd (flag_step p r)) = length (snd r) + (if p = OpStarts then 1 else 0)"
  by (cases p) (auto simp: Enter_starts_def Enter_on_def exit_flag_def split: prod.splits)

lemma flag_ops_len: "length (snd (flag_ops ops r)) = length (snd r) + count_list ops OpStarts"
  unfolding flag_ops_def by (induction ops arbitrary: r) (auto simp: flag_step_len)

lemma started_step: "Started \<notin> set (snd r) \<Longrightarrow> OpStarts \<noteq> p \<Longrightarrow> Started \<notin> set (snd (flag_step p r))"
  by (cases p; cases r) (auto simp: Enter_on_def exit_flag_def dest!: set_update_subset_insert [THEN subsetD])

lemma started_ops: "Started \<notin> set (snd r) \<Longrightarrow> OpStarts \<notin> set ops \<Longrightarrow> Started \<notin> set (snd (flag_ops ops r))"
  unfolding flag_ops_def by (induction ops arbitrary: r) (simp_all add: started_step)

lemma idle_step: "set (snd r) \<subseteq> {Left} \<Longrightarrow> p \<noteq> OpStarts \<Longrightarrow> flag_step p r = r"
  by (cases p; cases r) (auto simp: Enter_on_def exit_flag_def dest!: nth_mem)

lemma idle_ops: "set (snd r) \<subseteq> {Left} \<Longrightarrow> OpStarts \<notin> set ops \<Longrightarrow> flag_ops ops r = r"
  unfolding flag_ops_def by (induction ops) (auto simp: idle_step)

lemma On_entered:
  assumes "flag_inv r" "length (snd r) < 2 ^ 31"
  shows "On (Some (fst r)) \<longleftrightarrow> Entered \<in> set (snd r)"
proof -
  let ?n = "count_list (snd r) Entered"
  have n: "?n < 2 ^ 31" using assms(2) count_le_length [of "snd r" Entered] by linarith
  have "sint (of_nat ?n :: 32 word) = int ?n"
    using n by (simp add: signed_of_nat signed_take_bit_int_eq_self)
  then show ?thesis using assms(1) count_list_0_iff [of "snd r" Entered] by (auto simp: On_def flag_inv_def word_sless_alt)
qed

lemma all_left: "Started \<notin> set us \<Longrightarrow> Entered \<notin> set us \<Longrightarrow> set us \<subseteq> {Left}"
  by (metis entrance.exhaust insertI1 subsetI)

text \<open>
  C24. For a flag used from its zero value by fewer than \<open>2^31\<close> overlapping calls of \<open>Enter\<close>, every addition and every load
  a step of its own: \<open>Unchanged\<close> says yes to a stamp exactly when no call of \<open>Enter\<close> began between the two readings of
  \<open>starts\<close> and nobody was inside at either reading of \<open>on\<close>. When no call was between its two additions as the stamp was
  begun, a yes means that the flag was off all the way from the stamp to the check. Calling an exit function again changes
  nothing.
\<close>

theorem flag_tells_idle:
  assumes "count_list (pre @ a @ mid @ b) OpStarts < 2 ^ 31"
  defines "r1 \<equiv> flag_ops pre flag_zero" and "r2 \<equiv> flag_ops (pre @ a) flag_zero"
    and "r3 \<equiv> flag_ops (pre @ a @ mid) flag_zero" and "r4 \<equiv> flag_ops (pre @ a @ mid @ b) flag_zero"
  defines "yes \<equiv> Unchanged (Some (fst r3)) (Some (fst r4)) (Stamp (Some (fst r1)) (Some (fst r2)))"
  shows "(yes \<longleftrightarrow> OpStarts \<notin> set (a @ mid) \<and> Entered \<notin> set (snd r2) \<and> Entered \<notin> set (snd r4))
    \<and> (Started \<notin> set (snd r1) \<longrightarrow> yes \<longrightarrow> (\<forall>k. \<not> On (Some (fst (flag_ops (take k mid) r2)))))
    \<and> (i < length (snd r1) \<and> snd r1 ! i = Left \<longrightarrow> exit_flag i r1 = r1)"
proof -
  have inv: "flag_inv r1" "flag_inv r2" "flag_inv r3" "flag_inv r4"
    by (simp_all add: r1_def r2_def r3_def r4_def flag_ops_inv flag_zero_inv)
  have len: "length (snd r1) = count_list pre OpStarts" "length (snd r2) = count_list (pre @ a) OpStarts"
    "length (snd r3) = length (snd r1) + count_list (a @ mid) OpStarts" "length (snd r4) = count_list (pre @ a @ mid @ b) OpStarts"
    by (simp_all add: r1_def r2_def r3_def r4_def flag_ops_len flag_zero_def)
  have small: "length (snd r1) < 2 ^ 31" "length (snd r2) < 2 ^ 31" "length (snd r3) < 2 ^ 31" "length (snd r4) < 2 ^ 31"
    using assms(1) len by simp_all
  have "(of_nat (length (snd r3)) :: u64) = of_nat (length (snd r1)) \<longleftrightarrow> length (snd r3) = length (snd r1)"
    using small by (simp add: word_of_nat_eq_iff take_bit_nat_eq_self)
  then have starts: "fl_starts (fst r3) = fl_starts (fst r1) \<longleftrightarrow> OpStarts \<notin> set (a @ mid)"
    using inv len(3) count_list_0_iff [of "a @ mid" OpStarts] by (simp add: flag_inv_def del: set_append count_list_append)
  have yes: "yes \<longleftrightarrow> OpStarts \<notin> set (a @ mid) \<and> Entered \<notin> set (snd r2) \<and> Entered \<notin> set (snd r4)"
    unfolding yes_def Unchanged_def Stamp_def using starts On_entered [OF inv(2) small(2)] On_entered [OF inv(4) small(4)]
    by (auto simp del: set_append)
  moreover have "\<forall>k. \<not> On (Some (fst (flag_ops (take k mid) r2)))" if y: yes and st: "Started \<notin> set (snd r1)"
  proof
    fix k
    have r2: "r2 = flag_ops a r1" by (simp add: r1_def r2_def flag_ops_app)
    have "Started \<notin> set (snd r2)" unfolding r2 using y yes st by (intro started_ops) auto
    then have "set (snd r2) \<subseteq> {Left}" using y yes by (intro all_left) auto
    moreover have "OpStarts \<notin> set (take k mid)" using y yes in_set_takeD by fastforce
    ultimately have "flag_ops (take k mid) r2 = r2" by (rule idle_ops)
    then show "\<not> On (Some (fst (flag_ops (take k mid) r2)))" using On_entered [OF inv(2) small(2)] y yes by simp
  qed
  moreover have "exit_flag i r1 = r1" if "snd r1 ! i = Left" using that by (cases r1) (simp add: exit_flag_def)
  ultimately show ?thesis by blast
qed

theorem flag_tells_idle_witness:
  "\<forall>k. \<not> On (Some (fst (flag_ops (take k [OpExit 0]) (flag_ops [OpStarts, OpOn 0, OpExit 0] flag_zero))))"
proof -
  have "snd (flag_ops [OpStarts, OpOn 0, OpExit 0] flag_zero) = [Left]"
    by (simp add: flag_ops_def flag_zero_def Enter_starts_def Enter_on_def exit_flag_def)
  moreover have "flag_ops [OpStarts, OpOn 0, OpExit 0, OpExit 0] flag_zero = flag_ops [OpStarts, OpOn 0, OpExit 0] flag_zero"
    by (simp add: flag_ops_def flag_zero_def Enter_starts_def Enter_on_def exit_flag_def)
  ultimately show ?thesis using flag_tells_idle [of "[OpStarts, OpOn 0, OpExit 0]" "[]" "[OpExit 0]" "[]"] by simp
qed

text \<open>
  The condition is needed: a call of \<open>Enter\<close> that has added to \<open>starts\<close> but not yet to \<open>on\<close> when the stamp is taken is missed,
  and \<open>Unchanged\<close> says yes although the flag was on in between.
\<close>

lemma flag_misses_half_entered:
  "\<exists>pre mid. let r = flag_ops pre flag_zero; s = Stamp (Some (fst r)) (Some (fst r)); q = flag_ops mid r
     in Unchanged (Some (fst q)) (Some (fst q)) s \<and> (\<exists>k. On (Some (fst (flag_ops (take k mid) r))))"
proof (intro exI)
  let ?r = "flag_ops [OpStarts] flag_zero" and ?m = "[OpOn 0, OpExit 0]"
  have "On (Some (fst (flag_ops (take 1 ?m) ?r)))" by code_simp
  moreover have "Unchanged (Some (fst (flag_ops ?m ?r))) (Some (fst (flag_ops ?m ?r))) (Stamp (Some (fst ?r)) (Some (fst ?r)))"
    by code_simp
  ultimately show "let r = ?r; s = Stamp (Some (fst r)) (Some (fst r)); q = flag_ops ?m r
     in Unchanged (Some (fst q)) (Some (fst q)) s \<and> (\<exists>k. On (Some (fst (flag_ops (take k ?m) r))))"
    unfolding Let_def by blast
qed

subsection \<open>The daily window\<close>

lemma hours_minutes_seconds:
  "(s div 3600) * hour + (s div 60 mod 60) * minute + (s mod 60) * second = s * second" for s :: int
proof -
  have "s = 60 * (s div 60) + s mod 60" "s div 60 = 60 * (s div 60 div 60) + s div 60 mod 60" by simp_all
  moreover have "s div 3600 = s div 60 div 60" using zdiv_zmult2_eq [of 60 s 60] by simp
  ultimately show ?thesis by linarith
qed

lemma sinceMidnight_eq: "sinceMidnight t = (t div second mod 86400) * second"
  by (simp only: sinceMidnight_def Let_def hours_minutes_seconds)

lemma sinceMidnight_bounds: "0 \<le> sinceMidnight t" "sinceMidnight t < 24 * hour"
  unfolding sinceMidnight_eq using pos_mod_bound [of 86400 "t div second"] pos_mod_sign [of 86400 "t div second"]
  by linarith+

lemma parseClock_range: "parseClock s = Some d \<Longrightarrow> \<exists>n. 0 \<le> n \<and> n < 1440 \<and> d = n * minute"
proof -
  assume "parseClock s = Some d"
  then have "\<exists>hh mm. 0 \<le> hh \<and> hh \<le> 23 \<and> 0 \<le> mm \<and> mm \<le> 59 \<and> d = hh * hour + mm * minute"
    unfolding parseClock_def by (auto split: prod.splits option.splits if_splits) (metis linorder_not_less)
  then obtain hh mm :: int where "0 \<le> hh" "hh \<le> 23" "0 \<le> mm" "mm \<le> 59" "d = hh * hour + mm * minute"
    by blast
  then show ?thesis by (intro exI [of _ "60 * hh + mm"]) auto
qed

definition window_wf :: "time_window \<Rightarrow> bool" where
  "window_wf w = (tw_set w \<longrightarrow> (\<exists>a b. tw_from w = a * minute \<and> tw_to w = b * minute \<and> a \<noteq> b
     \<and> 0 \<le> a \<and> a < 1440 \<and> 0 \<le> b \<and> b < 1440))"

lemma ParseTimeWindow_wf: "ParseTimeWindow s = Some w \<Longrightarrow> window_wf w"
  unfolding ParseTimeWindow_def Let_def window_wf_def
  by (auto simp: always_def split: prod.splits option.splits if_splits dest!: parseClock_range)

text \<open>Moving by whole seconds moves the second of the day.\<close>

lemma second_of_day: "(t + k * second) div second mod 86400 = (t div second mod 86400 + k) mod 86400"
  by (simp add: mod_add_right_eq add.commute)

lemma day_diff:
  "0 \<le> f \<Longrightarrow> f < 86400 \<Longrightarrow> 0 \<le> s \<Longrightarrow> s < 86400 \<Longrightarrow> (f - s) mod 86400 = (if f < s then f - s + 86400 else f - s)"
  for f s :: int
  using mod_pos_pos_trivial [of "f - s" 86400] mod_pos_pos_trivial [of "f - s + 86400" 86400] by simp

lemma day_sum:
  "0 \<le> s \<Longrightarrow> s < 86400 \<Longrightarrow> 0 \<le> d \<Longrightarrow> d < 86400 \<Longrightarrow> (s + d) mod 86400 = (if s + d < 86400 then s + d else s + d - 86400)"
  for s d :: int
  using mod_pos_pos_trivial [of "s + d" 86400] mod_pos_pos_trivial [of "s + d - 86400" 86400] minus_mod_self2 [of "s + d" 86400]
  by simp

lemma early_second:
  fixes s f e d :: int
  assumes "0 \<le> s" "s < 86400" "0 \<le> f" "f < 86400" "0 \<le> e" "e < 86400" "e \<noteq> f"
    "\<not> (if f < e then f \<le> s \<and> s < e else f \<le> s \<or> s < e)"
    "0 \<le> d" "d < (if f < s then f - s + 86400 else f - s)"
  defines "v \<equiv> if s + d < 86400 then s + d else s + d - 86400"
  shows "\<not> (if f < e then f \<le> v \<and> v < e else f \<le> v \<or> v < e)"
  using assms(1-10) unfolding v_def by (cases "f < e"; cases "f < s"; cases "s + d < 86400"; simp)

lemma opens_seconds:
  assumes "window_wf w" "\<not> Contains w t"
  defines "s \<equiv> t div second mod 86400"
  shows "\<exists>f. tw_from w = f * second \<and> Opens w t = ((f - s) mod 86400) * second \<and> 0 \<le> f \<and> f < 86400"
proof -
  have set: "tw_set w" using assms(2) by (simp add: Contains_def split: if_splits)
  then obtain a where a: "tw_from w = a * minute" "0 \<le> a" "a < 1440" using assms(1) by (auto simp: window_wf_def)
  let ?f = "60 * a"
  have s: "0 \<le> s" "s < 86400" by (simp_all add: s_def)
  have "(?f - s) mod 86400 = (if ?f < s then ?f - s + 86400 else ?f - s)"
    using s a by (intro day_diff) simp_all
  then have "Opens w t = ((?f - s) mod 86400) * second"
    using assms(2) a by (simp add: Opens_def sinceMidnight_eq Let_def flip: s_def)
  then show ?thesis using a by (intro exI [of _ ?f]) auto
qed

lemma contains_seconds:
  assumes "tw_set w" "tw_from w = f * second" "tw_to w = e * second"
  shows "Contains w t \<longleftrightarrow> (let s = t div second mod 86400 in if f < e then f \<le> s \<and> s < e else f \<le> s \<or> s < e)"
  using assms by (simp add: Contains_def sinceMidnight_eq Let_def)

text \<open>
  A daily window read from an agent's settings is opened after exactly the wait \<open>Opens\<close> gives: the wait is less
  than a day, it is zero just when the moment is inside, the moment it leads to is inside, and no moment in an earlier second is.
\<close>

theorem window_opens:
  assumes "ParseTimeWindow s = Some w"
  shows "0 \<le> Opens w t \<and> Opens w t < 24 * hour \<and> (Opens w t = 0 \<longleftrightarrow> Contains w t) \<and> Contains w (t + Opens w t)
    \<and> (\<forall>u. t \<le> u \<and> u div second < (t + Opens w t) div second \<longrightarrow> \<not> Contains w u)"
proof (cases "Contains w t")
  case True
  then show ?thesis by (auto simp: Opens_def dest: zdiv_mono1 [of t _ second])
next
  case False
  then have set: "tw_set w" by (simp add: Contains_def split: if_splits)
  have wf: "window_wf w" using assms by (rule ParseTimeWindow_wf)
  let ?s = "t div second mod 86400"
  obtain f where f: "tw_from w = f * second" "Opens w t = ((f - ?s) mod 86400) * second" "0 \<le> f" "f < 86400"
    using opens_seconds [OF wf False] by blast
  obtain e where e: "tw_to w = e * second" "0 \<le> e" "e < 86400" "e \<noteq> f"
  proof -
    obtain a b where "tw_from w = a * minute" "tw_to w = b * minute" "a \<noteq> b" "0 \<le> b" "b < 1440"
      using wf set by (auto simp: window_wf_def)
    then show thesis using f(1) by (intro that [of "60 * b"]) auto
  qed
  note c = contains_seconds [OF set f(1) e(1), unfolded Let_def]
  define k where "k = (f - ?s) mod 86400"
  have s: "0 \<le> ?s" "?s < 86400" by simp_all
  have k: "k = (if f < ?s then f - ?s + 86400 else f - ?s)" "k < 86400"
    unfolding k_def by (rule day_diff [OF f(3,4) s]) simp
  have out: "\<not> (if f < e then f \<le> ?s \<and> ?s < e else f \<le> ?s \<or> ?s < e)" using False c by simp
  have kz: "0 < k" using out e(4) s f(3,4) k(1) by (cases "f < ?s"; cases "f < e"; simp)
  have "(?s + k) mod 86400 = f" using f(3,4) unfolding k_def by (simp add: mod_add_right_eq)
  then have f': "(t + Opens w t) div second mod 86400 = f"
    unfolding f(2) k_def [symmetric] second_of_day .
  have at: "Contains w (t + Opens w t)" unfolding c [of "t + Opens w t"] f' using e(4) by simp
  have early: "\<not> Contains w u" if u: "t \<le> u" "u div second < (t + Opens w t) div second" for u
  proof -
    let ?d = "u div second - t div second"
    have "(t + k * second) div second = t div second + k" by simp
    then have d: "0 \<le> ?d" "?d < k"
      using u(2) zdiv_mono1 [OF u(1), of second] unfolding f(2) k_def by simp_all
    have "u div second mod 86400 = (?s + ?d) mod 86400" by (simp add: mod_add_left_eq)
    also have "\<dots> = (if ?s + ?d < 86400 then ?s + ?d else ?s + ?d - 86400)"
      using d k(2) s by (intro day_sum) simp_all
    finally have us: "u div second mod 86400 = (if ?s + ?d < 86400 then ?s + ?d else ?s + ?d - 86400)" .
    show ?thesis unfolding c [of u] us
      by (rule early_second [OF s f(3,4) e(2-4) out d(1) d(2) [unfolded k(1)]])
  qed
  have o: "Opens w t = k * second" by (simp only: f(2) k_def)
  have "0 \<le> k * second" "k * second < 24 * hour" "k * second \<noteq> 0" using kz k(2) by linarith+
  then have "0 \<le> Opens w t" "Opens w t < 24 * hour" "Opens w t = 0 \<longleftrightarrow> Contains w t"
    unfolding o using False by blast+
  then show ?thesis using at early by blast
qed

lemma window_opens_witness:
  "\<exists>w. ParseTimeWindow ''22:30-05:00'' = Some w \<and> Contains w (6 * hour + Opens w (6 * hour)) \<and> Opens w (6 * hour) = 59400 * second"
proof -
  have p: "ParseTimeWindow ''22:30-05:00'' = Some \<lparr>tw_from = 81000 * second, tw_to = 18000 * second, tw_set = True\<rparr>"
    by code_simp
  moreover have "Opens \<lparr>tw_from = 81000 * second, tw_to = 18000 * second, tw_set = True\<rparr> (6 * hour) = 59400 * second"
    by code_simp
  ultimately show ?thesis using window_opens [OF p, of "6 * hour"] by blast
qed

text \<open>
  The parser takes more than its comment says: a sign counts as one of the two digits of an hour or a minute.
\<close>

lemma signed_clock_accepted:
  "ParseTimeWindow ''+5:+1-07:30'' = Some \<lparr>tw_from = 5 * hour + minute, tw_to = 7 * hour + 30 * minute, tw_set = True\<rparr>"
  by code_simp

subsection \<open>A budget of bytes over a sliding window\<close>

text \<open>
  What the runner relies on: a budget answers whether an expected number of bytes fits, is charged with what was
  carried, and charges older than the window no longer count. A test is for a key; only the keys that count
  weigh on the budget, and a limit of zero is no limit.
\<close>

definition spent :: "duration \<Rightarrow> time \<Rightarrow> (time \<times> u64) list \<Rightarrow> nat" where
  "spent W s h = sum_list (map (\<lambda>e. unat (snd e)) (filter (\<lambda>e. s - W < fst e \<and> fst e \<le> s) h))"

lemma spent_append: "spent W s (h @ [(t, n)]) = spent W s h + (if s - W < t \<and> t \<le> s then unat n else 0)"
  by (simp add: spent_def)

lemma spent_mono_window: "(\<And>e. e \<in> set h \<Longrightarrow> s - W < fst e \<Longrightarrow> fst e \<le> s \<Longrightarrow> t - W < fst e \<and> fst e \<le> t) \<Longrightarrow> spent W s h \<le> spent W t h"
  unfolding spent_def by (induction h) auto

locale byte_budget =
  fixes W :: duration and lim :: nat and valid :: "'k \<Rightarrow> bool" and counts :: "'k \<Rightarrow> bool"
    and ok :: "time \<Rightarrow> 'l \<Rightarrow> bool" and used :: "time \<Rightarrow> 'l \<Rightarrow> nat"
    and ask :: "'k \<Rightarrow> time \<Rightarrow> u64 \<Rightarrow> 'l \<Rightarrow> bool \<times> 'l" and charge :: "'k \<Rightarrow> time \<Rightarrow> u64 \<Rightarrow> 'l \<Rightarrow> 'l"
  assumes ok_later: "ok t l \<Longrightarrow> t \<le> t' \<Longrightarrow> ok t' l"
    and ok_charge: "valid k \<Longrightarrow> ok t l \<Longrightarrow> ok t (charge k t n l)"
    and used_charge: "valid k \<Longrightarrow> ok t l \<Longrightarrow> t \<le> s
      \<Longrightarrow> used s (charge k t n l) = used s l + (if counts k \<and> s - W < t then unat n else 0)"
    and ok_ask: "valid k \<Longrightarrow> ok t l \<Longrightarrow> ok t (snd (ask k t n l))"
    and used_ask: "valid k \<Longrightarrow> ok t l \<Longrightarrow> t \<le> s \<Longrightarrow> used s (snd (ask k t n l)) = used s l"
    and ask_fits: "valid k \<Longrightarrow> counts k \<Longrightarrow> ok t l \<Longrightarrow> used t l \<le> lim \<Longrightarrow> lim + unat n < 2 ^ 64 \<Longrightarrow> lim \<noteq> 0
      \<Longrightarrow> fst (ask k t n l) \<Longrightarrow> used t l + unat n \<le> lim"
begin

definition test_step :: "'k \<times> time \<times> u64 \<times> time \<times> u64 \<Rightarrow> (time \<times> u64) list \<times> 'l \<Rightarrow> (time \<times> u64) list \<times> 'l" where
  "test_step e s = (case e of (k, t0, est, t1, n) \<Rightarrow> (case s of (h, l) \<Rightarrow> (case ask k t0 est l of
     (True, l') \<Rightarrow> (if counts k then h @ [(t1, n)] else h, charge k t1 n l') | (False, l') \<Rightarrow> (h, l'))))"

definition keeps :: "time \<Rightarrow> (time \<times> u64) list \<times> 'l \<Rightarrow> bool" where
  "keeps now s = (ok now (snd s) \<and> (\<forall>e \<in> set (fst s). fst e \<le> now) \<and> (\<forall>u \<ge> now. used u (snd s) = spent W u (fst s))
     \<and> (\<forall>u. spent W u (fst s) \<le> lim))"

lemma keeps_later: "keeps t s \<Longrightarrow> t \<le> t' \<Longrightarrow> keeps t' s"
  unfolding keeps_def by (auto intro: ok_later order_trans)

lemma keeps_step:
  assumes k: "keeps now (h, l)" and t: "now \<le> t0" "t0 \<le> t1" and n: "n \<le> est" "valid k" and lim: "lim \<noteq> 0" "lim + unat est < 2 ^ 64"
  shows "keeps t1 (test_step (k, t0, est, t1, n) (h, l))"
proof -
  have k0: "keeps t0 (h, l)" using k t by (meson keeps_later order_trans)
  obtain b l' where a: "ask k t0 est l = (b, l')" by fastforce
  have l': "ok t1 l'" "\<And>u. t0 \<le> u \<Longrightarrow> used u l' = spent W u h"
    using ok_ask [of k t0 l est] used_ask [of k t0 l _ est] k0 t(2) n(2) ok_later by (auto simp: a keeps_def)
  have old: "\<forall>e \<in> set h. fst e \<le> t0" "\<And>u. spent W u h \<le> lim" using k0 by (auto simp: keeps_def)
  show ?thesis
  proof (cases "b \<and> counts k")
    case False
    then show ?thesis using l' old t n(2) by (auto simp: test_step_def a keeps_def ok_charge used_charge split: bool.splits)
  next
    case True
    then have fit: "spent W t0 h + unat n \<le> lim"
      using ask_fits [of k t0 l est] lim k0 old(2) [of t0] n by (auto simp: a keeps_def word_le_nat_alt)
    have bound: "spent W u (h @ [(t1, n)]) \<le> lim" for u
    proof (cases "t1 \<le> u")
      case True
      then have "spent W u h \<le> spent W t0 h" using old t by (intro spent_mono_window) force
      then show ?thesis using fit by (simp add: spent_append)
    next
      case False
      then show ?thesis using old(2) [of u] by (simp add: spent_append)
    qed
    show ?thesis using True l' old t bound n(2)
      by (auto simp: test_step_def a keeps_def spent_append ok_charge used_charge)
  qed
qed

fun in_order :: "time \<Rightarrow> ('k \<times> time \<times> u64 \<times> time \<times> u64) list \<Rightarrow> bool" where
  "in_order now [] = True"
| "in_order now ((k, t0, est, t1, n) # es) =
     (valid k \<and> now \<le> t0 \<and> t0 \<le> t1 \<and> n \<le> est \<and> lim + unat est < 2 ^ 64 \<and> in_order t1 es)"

lemma keeps_run:
  "keeps now s \<Longrightarrow> in_order now es \<Longrightarrow> lim \<noteq> 0 \<Longrightarrow> \<exists>t. keeps t (fold test_step es s)"
proof (induction es arbitrary: now s)
  case (Cons e es)
  obtain k t0 est t1 n where e: "e = (k, t0, est, t1, n)" by (cases e) auto
  have "keeps t1 (test_step e s)" using keeps_step [of now "fst s" "snd s"] Cons.prems by (simp add: e)
  then show ?case using Cons by (simp add: e)
qed auto

lemma budget_kept:
  assumes "ok now l" "\<And>u. now \<le> u \<Longrightarrow> used u l = 0" "in_order now es" "lim \<noteq> 0"
  shows "spent W u (fst (fold test_step es ([], l))) \<le> lim"
proof -
  have "keeps now ([], l)" using assms by (simp add: keeps_def spent_def)
  from keeps_run [OF this assms(3,4)] show ?thesis by (auto simp: keeps_def)
qed

end

subsection \<open>The ledger is such a budget\<close>

definition ledger_ok :: "duration \<Rightarrow> u64 \<Rightarrow> time \<Rightarrow> ledger \<Rightarrow> bool" where
  "ledger_ok W L now l = (lg_window l = W \<and> lg_limit l = L \<and> sorted (map fst (lg_entries l)) \<and> (\<forall>e \<in> set (lg_entries l). fst e \<le> now))"

definition ledger_used :: "time \<Rightarrow> ledger \<Rightarrow> nat" where
  "ledger_used s l = sum_list (map (\<lambda>e. unat (snd e)) (filter (\<lambda>e. s - lg_window l < fst e) (lg_entries l)))"

lemma trim_filter: "sorted (map fst es) \<Longrightarrow> dropWhile (\<lambda>e. now - fst e \<ge> W) es = filter (\<lambda>e. now - W < fst e) es" for es :: "(time \<times> 'a) list"
proof (induction es)
  case (Cons e es)
  show ?case
  proof (cases "now - fst e \<ge> W")
    case False
    then have "\<forall>x \<in> set es. now - W < fst x" using Cons.prems by auto
    then show ?thesis using False by (simp add: filter_id_conv)
  qed (use Cons in auto)
qed simp

lemma sum_words: "fold (\<lambda>e t. t + snd e) es (of_nat a) = (of_nat (a + sum_list (map (\<lambda>e. unat (snd e)) es)) :: u64)"
proof (induction es arbitrary: a)
  case (Cons e es)
  from Cons.IH [of "a + unat (snd e)"] show ?case by (simp add: add.assoc)
qed simp

lemma used_trim: "ledger_ok W L now l \<Longrightarrow> now \<le> s \<Longrightarrow> ledger_used s (trim now l) = ledger_used s l"
  unfolding ledger_used_def trim_def ledger_ok_def
  by (simp add: trim_filter) (auto intro!: arg_cong [where f = sum_list] map_cong filter_cong)

lemma ok_trim: "ledger_ok W L now l \<Longrightarrow> ledger_ok W L now (trim now l)"
  unfolding ledger_ok_def trim_def by (auto simp: trim_filter sorted_filter)

lemma Used_eq: "ledger_ok W L now l \<Longrightarrow> Used now l = (of_nat (ledger_used now l), trim now l)"
  using sum_words [of _ 0] by (simp add: Used_def Let_def ledger_used_def trim_def trim_filter ledger_ok_def)

interpretation ledger: byte_budget W "unat L" "\<lambda>_ :: unit. True" "\<lambda>_. True" "ledger_ok W L" ledger_used "\<lambda>_. Allows" "\<lambda>_. Charge" for W L
proof unfold_locales
  fix t t' s :: time and l :: ledger and n :: u64
  assume ok: "ledger_ok W L t l"
  show "t \<le> t' \<Longrightarrow> ledger_ok W L t' l" using ok by (force simp: ledger_ok_def)
  show "ledger_ok W L t (Charge t n l)"
    using ok ok_trim [OF ok] by (auto simp: Charge_def Let_def ledger_ok_def sorted_append)
  show "t \<le> s \<Longrightarrow> ledger_used s (Charge t n l) = ledger_used s l + (if True \<and> s - W < t then unat n else 0)"
    using used_trim [OF ok, of s] ok by (auto simp: Charge_def Let_def ledger_used_def trim_def ledger_ok_def)
  show "ledger_ok W L t (snd (Allows t n l))"
    using ok ok_trim [OF ok] by (simp add: Allows_def Used_eq [OF ok])
  show "t \<le> s \<Longrightarrow> ledger_used s (snd (Allows t n l)) = ledger_used s l"
    using used_trim [OF ok] by (simp add: Allows_def Used_eq [OF ok])
  assume fit: "ledger_used t l \<le> unat L" "unat L + unat n < 2 ^ 64"
  have "unat (of_nat (ledger_used t l) + n) = ledger_used t l + unat n"
    using fit by (simp add: unat_word_ariths unat_of_nat)
  moreover assume "unat L \<noteq> 0" "fst (Allows t n l)"
  ultimately show "ledger_used t l + unat n \<le> unat L"
    using ok by (auto simp: Allows_def Used_eq [OF ok] ledger_ok_def word_le_nat_alt unat_eq_0)
qed

subsection \<open>The rate of the traffic with a peer\<close>

text \<open>The counters a document has for a peer: its first entry with known counters.\<close>

definition reported :: "peer_counters list \<Rightarrow> string \<Rightarrow> peer_counters option" where
  "reported ps k = List.find (\<lambda>p. pc_id p = k \<and> \<not> pc_unknown p) ps"

lemma reported_None: "reported ps k = None \<longleftrightarrow> k \<notin> pc_id ` set (filter (\<lambda>p. \<not> pc_unknown p) ps)"
  by (auto simp: reported_def find_None_iff)

lemma observe_peer_other: "pc_id p \<noteq> k \<or> pc_unknown p \<Longrightarrow> ld_last (observe_peer now p l) k = ld_last l k \<and> ld_rate (observe_peer now p l) k = ld_rate l k"
  by (auto simp: observe_peer_def Let_def split: option.splits)

lemma observe_peer_same:
  "\<not> pc_unknown p \<Longrightarrow> ld_last (observe_peer now p l) (pc_id p) = Some \<lparr>ls_at = now, ls_sent = pc_sent p, ls_recv = pc_recv p\<rparr>
    \<and> ld_rate (observe_peer now p l) (pc_id p) = (case ld_last l (pc_id p) of None \<Rightarrow> ld_rate l (pc_id p)
       | Some prev \<Rightarrow> if now - ls_at prev < 5 * second \<or> pc_sent p < ls_sent prev \<or> pc_recv p < ls_recv prev then ld_rate l (pc_id p)
           else Some (rate_of prev \<lparr>ls_at = now, ls_sent = pc_sent p, ls_recv = pc_recv p\<rparr>))"
  by (simp add: observe_peer_def Let_def split: option.splits)

lemma fold_observe_other:
  "reported ps k = None \<Longrightarrow> ld_last (fold (observe_peer now) ps l) k = ld_last l k \<and> ld_rate (fold (observe_peer now) ps l) k = ld_rate l k"
proof (induction ps arbitrary: l)
  case (Cons p ps)
  then show ?case using observe_peer_other [of p k now l] by (auto simp: reported_def split: if_splits)
qed simp

lemma fold_observe_same:
  assumes "distinct (map pc_id ps)" "reported ps k = Some p"
  shows "ld_last (fold (observe_peer now) ps l) k = ld_last (observe_peer now p l) k
     \<and> ld_rate (fold (observe_peer now) ps l) k = ld_rate (observe_peer now p l) k"
  using assms
proof (induction ps arbitrary: l)
  case (Cons q qs)
  show ?case
  proof (cases "pc_id q = k \<and> \<not> pc_unknown q")
    case True
    then have "k \<notin> pc_id ` set qs" using Cons.prems(1) by auto
    then have "reported qs k = None" by (force simp: reported_def find_None_iff)
    moreover have "q = p" using True Cons.prems(2) by (simp add: reported_def)
    ultimately have "reported qs k = None" "q = p" by simp_all
    then show ?thesis using fold_observe_other [of qs k now] by simp
  next
    case False
    then have r: "reported qs k = Some p" using Cons.prems(2) by (auto simp: reported_def split: if_splits)
    then have p: "k = pc_id p" "p \<in> set qs" "\<not> pc_unknown p" by (auto simp: reported_def find_Some_iff)
    have "pc_id q \<noteq> k" using p Cons.prems(1) by auto
    then have o: "ld_last (observe_peer now q l) k = ld_last l k" "ld_rate (observe_peer now q l) k = ld_rate l k"
      using observe_peer_other [of q k now l] by simp_all
    from Cons.IH [of "observe_peer now q l"] Cons.prems(1) r
    show ?thesis using observe_peer_same [of p now l] observe_peer_same [of p now "observe_peer now q l"] p(3) o
      by (simp add: p(1) split: option.splits)
  qed
qed (simp add: reported_def)

text \<open>
  A rate shown for a peer after a document with distinct peers is either the one shown before, or the exact
  difference between the peer's counters in this document and the last one, in bits, over the time between the two, which
  is at least five seconds, with neither counter gone back; it replaces the old one in just that case. A peer
  the document leaves out, or gives no counters for, has no rate and no sample left.
\<close>

theorem observe_exact:
  assumes "distinct (map pc_id ps)" "dom (ld_rate l) \<subseteq> dom (ld_last l)"
  shows "dom (ld_rate (Observe ps now l)) \<subseteq> dom (ld_last (Observe ps now l))
    \<and> (case reported ps k of
         None \<Rightarrow> ld_last (Observe ps now l) k = None \<and> Rate k now age (Observe ps now l) = None
       | Some p \<Rightarrow> ld_last (Observe ps now l) k = Some \<lparr>ls_at = now, ls_sent = pc_sent p, ls_recv = pc_recv p\<rparr>
           \<and> (case ld_last l k of
                Some prev \<Rightarrow>
                  if ls_at prev + 5 * second \<le> now \<and> uint (ls_sent prev) \<le> uint (pc_sent p) \<and> uint (ls_recv prev) \<le> uint (pc_recv p)
                  then ld_rate (Observe ps now l) k =
                    Some \<lparr>lr_sent = of_int ((uint (pc_sent p) - uint (ls_sent prev)) * 8 * second) / of_int (now - ls_at prev),
                          lr_received = of_int ((uint (pc_recv p) - uint (ls_recv prev)) * 8 * second) / of_int (now - ls_at prev),
                          lr_at = now\<rparr>
                  else ld_rate (Observe ps now l) k = ld_rate l k
              | None \<Rightarrow> ld_rate (Observe ps now l) k = None))"
proof -
  let ?f = "fold (observe_peer now) ps l"
  have sub: "dom (ld_rate ?f) \<subseteq> dom (ld_last ?f)"
    using assms(2)
  proof (induction ps arbitrary: l)
    case (Cons p ps)
    have "dom (ld_rate (observe_peer now p l)) \<subseteq> dom (ld_last (observe_peer now p l))"
      using Cons.prems by (auto simp: observe_peer_def Let_def split: option.splits if_splits)
    then show ?case using Cons.IH by simp
  qed simp
  have O: "ld_last (Observe ps now l) j = (if reported ps j = None then None else ld_last ?f j)"
    "ld_rate (Observe ps now l) j = (if reported ps j = None then None else ld_rate ?f j)" for j
    using sub by (auto simp: Observe_def Let_def reported_None)
  have d: "dom (ld_rate (Observe ps now l)) \<subseteq> dom (ld_last (Observe ps now l))"
    using sub by (auto simp: O domIff subset_iff split: if_splits)
  show ?thesis
  proof (cases "reported ps k")
    case None
    then show ?thesis using d by (simp add: O Rate_def)
  next
    case (Some p)
    then have p: "pc_id p = k" "\<not> pc_unknown p" by (auto simp: reported_def find_Some_iff)
    have eq: "ld_last ?f k = ld_last (observe_peer now p l) k" "ld_rate ?f k = ld_rate (observe_peer now p l) k"
      using fold_observe_same [OF assms(1) Some] by simp_all
    have none: "ld_last l k = None \<Longrightarrow> ld_rate l k = None" using assms(2) by blast
    show ?thesis
      using d Some observe_peer_same [OF p(2), of now l] none
      by (auto simp: O eq p(1) rate_of_def Let_def word_le_def word_less_def uint_sub_if' not_less split: option.splits)
  qed
qed

lemma observe_exact_witness:
  "ld_rate (Observe [\<lparr>pc_id = ''a'', pc_sent = 1000, pc_recv = 0, pc_unknown = False\<rparr>] (8 * second)
     \<lparr>ld_last = [''a'' \<mapsto> \<lparr>ls_at = 0, ls_sent = 0, ls_recv = 0\<rparr>], ld_rate = Map.empty\<rparr>) ''a''
   = Some \<lparr>lr_sent = 1000, lr_received = 0, lr_at = 8 * second\<rparr>"
  using observe_exact [of "[\<lparr>pc_id = ''a'', pc_sent = 1000, pc_recv = 0, pc_unknown = False\<rparr>]"
     "\<lparr>ld_last = [''a'' \<mapsto> \<lparr>ls_at = 0, ls_sent = 0, ls_recv = 0\<rparr>], ld_rate = Map.empty\<rparr>" "8 * second" "''a''" 0]
  by (simp add: reported_def)

end
