(* ===== verification/Capacity.thy ===== *)
theory Capacity
  imports Ledger "HOL-Library.Monad_Syntax" "HOL-Library.AList"
begin

text \<open>
  The throughput tests (\<open>link/capacity.go\<close>): which tests a cycle holds, which peer is tested when, how a test is sized
  to the byte budget, the UDP ramp, and what is kept of each peer. A map the code iterates over is an association list,
  the others are functions. Rates that are \<open>float64\<close> in the code are exact rationals here; byte counts and rates that are
  \<open>uint64\<close> keep their width. Loops that do not end for some settings are partial functions to \<open>option\<close>.

  What is not code of the repository comes in as arguments: the clock, the random numbers, and the answer of the iperf3
  client at each address (\<open>once\<close>, which starts the process and reads what it prints). What the code tells the meter is a list of events.
\<close>

subsection \<open>Settings\<close>

record cap_cfg =
  cc_bin :: string
  cc_port :: int
  cc_every :: duration
  cc_duration :: duration
  cc_omit :: duration
  cc_parallel :: int
  cc_reverse :: bool
  cc_bidir :: bool
  cc_udp :: bool
  cc_start :: u64
  cc_max :: u64
  cc_step :: duration
  cc_loss :: rat
  cc_dscp :: "int list"
  cc_tcpMax :: u64
  cc_budget :: u64
  cc_budgetWindow :: duration
  cc_busyFraction :: rat
  cc_skipAbove :: u64
  cc_window :: time_window
  cc_user :: string
  cc_keyFile :: string
  cc_passwordFile :: string
  cc_autoAuth :: bool
  cc_pause :: duration
  cc_startAfter :: duration

definition Defaults :: "cap_cfg \<Rightarrow> cap_cfg" where
  "Defaults c0 = (let
     c = c0\<lparr>cc_bin := (if cc_bin c0 = [] then ''iperf3'' else cc_bin c0),
            cc_port := (if cc_port c0 = 0 then 8862 else cc_port c0),
            cc_every := (if cc_every c0 = 0 then 12 * hour else cc_every c0),
            cc_duration := (if cc_duration c0 = 0 then 10 * second else cc_duration c0)\<rparr>;
     d = (if cc_udp c then
            c\<lparr>cc_start := (if cc_start c = 0 then 5000000 else cc_start c),
              cc_max := (if cc_max c = 0 then 200000000 else cc_max c),
              cc_step := (if cc_step c = 0 then 5 * second else cc_step c),
              cc_loss := (if cc_loss c = 0 then 1 / 100 else cc_loss c)\<rparr>
          else c)
     in d\<lparr>cc_dscp := (if cc_dscp d = [] then [0] else cc_dscp d),
          cc_budgetWindow := (if cc_budgetWindow d = 0 then 24 * hour else cc_budgetWindow d),
          cc_pause := (if cc_pause d = 0 then 3 * second else cc_pause d)\<rparr>)"

datatype cap_error = BadEvery | BadDuration | BadOmit | BadParallel | BadPort | BadTCPRate | BadRamp | BadStep
  | BadLoss | TooManyClasses | BadClass | BadFraction | BadCredentials

definition whole_seconds :: "duration \<Rightarrow> duration \<Rightarrow> duration \<Rightarrow> bool" where
  "whole_seconds d lo hi = (\<not> (d < lo \<or> d > hi \<or> d mod second \<noteq> 0))"

fun classes_ok :: "int list \<Rightarrow> int list \<Rightarrow> bool" where
  "classes_ok seen [] = True"
| "classes_ok seen (d # ds) = (if d < 0 \<or> d > 63 \<or> d \<in> set seen then False else classes_ok (d # seen) ds)"

definition countSet :: "string list \<Rightarrow> nat" where
  "countSet ss = fold (\<lambda>s n. if s \<noteq> [] then n + 1 else n) ss 0"

definition Validate :: "cap_cfg \<Rightarrow> cap_error option" where
  "Validate c =
     (if cc_every c < 10 * minute then Some BadEvery
      else if \<not> whole_seconds (cc_duration c) (3 * second) (60 * second) then Some BadDuration
      else if cc_omit c < 0 \<or> cc_omit c > 10 * second \<or> cc_omit c \<ge> cc_duration c \<or> cc_omit c mod second \<noteq> 0 then Some BadOmit
      else if cc_parallel c < 0 \<or> cc_parallel c > 32 \<or> cc_parallel c = 1 then Some BadParallel
      else if cc_port c < 1 \<or> cc_port c > 65535 then Some BadPort
      else if cc_tcpMax c > 400000000000 then Some BadTCPRate
      else if cc_udp c \<and> (cc_start c < 100000 \<or> cc_max c < cc_start c \<or> cc_max c > 400000000000 \<or> cc_max c div cc_start c > 1024)
        then Some BadRamp
      else if cc_udp c \<and> \<not> whole_seconds (cc_step c) (2 * second) (30 * second) then Some BadStep
      else if cc_udp c \<and> (cc_loss c \<le> 0 \<or> cc_loss c > 1 / 2) then Some BadLoss
      else if length (cc_dscp c) > 4 then Some TooManyClasses
      else if \<not> classes_ok [] (cc_dscp c) then Some BadClass
      else if cc_busyFraction c < 0 \<or> cc_busyFraction c > 1 then Some BadFraction
      else if (let n = countSet [cc_user c, cc_keyFile c, cc_passwordFile c] in n \<noteq> 0 \<and> n \<noteq> 3) then Some BadCredentials
      else None)"

subsection \<open>Peers and tests\<close>

datatype direction = Forward | Reverse

fun dir_name :: "direction \<Rightarrow> string" where
  "dir_name Forward = ''forward''"
| "dir_name Reverse = ''reverse''"

text \<open>An address is its text; its class (mesh, private or public) is an argument where it matters.\<close>

record link_peer =
  lp_id :: string
  lp_addresses :: "string list"
  lp_via :: string
  lp_preferred :: "string list"
  lp_throughput :: bool
  lp_every :: duration
  lp_budget :: u64
  lp_iperf :: bool

datatype test_kind = KTcp | KParallel | KBidir | KRamp

fun kind_name :: "test_kind \<Rightarrow> string" where
  "kind_name KTcp = ''tcp''"
| "kind_name KParallel = ''tcp-parallel''"
| "kind_name KBidir = ''tcp-bidir''"
| "kind_name KRamp = ''udp-ramp''"

record cap_test =
  ct_kind :: test_kind
  ct_dir :: direction
  ct_dscp :: int

function show_nat :: "nat \<Rightarrow> string" where
  "show_nat n = (if n < 10 then [char_of (48 + n)] else show_nat (n div 10) @ [char_of (48 + n mod 10)])"
  by pat_completeness auto
termination by (relation "measure id") auto

declare show_nat.simps [simp del]

definition show_int :: "int \<Rightarrow> string" where
  "show_int i = (if i < 0 then CHR ''-'' # show_nat (nat (- i)) else show_nat (nat i))"

definition test_key :: "cap_test \<Rightarrow> string \<Rightarrow> string" where
  "test_key t peer = peer @ ''|'' @ kind_name (ct_kind t) @ ''|'' @ dir_name (ct_dir t) @ ''|'' @ show_int (ct_dscp t)"

definition bits_key :: "string \<Rightarrow> direction \<Rightarrow> int \<Rightarrow> int \<Rightarrow> string" where
  "bits_key peer d streams dscp = peer @ ''|'' @ dir_name d @ ''|'' @ show_int streams @ ''|'' @ show_int dscp"

definition plan :: "cap_cfg \<Rightarrow> cap_test list" where
  "plan c = (let dirs = (if cc_reverse c then [Forward, Reverse] else [Forward]) in
     concat (map (\<lambda>ds. map (\<lambda>d. \<lparr>ct_kind = KTcp, ct_dir = d, ct_dscp = ds\<rparr>) dirs) (cc_dscp c))
     @ (if cc_parallel c \<ge> 2 then map (\<lambda>d. \<lparr>ct_kind = KParallel, ct_dir = d, ct_dscp = hd (cc_dscp c)\<rparr>) dirs else [])
     @ (if cc_bidir c then [\<lparr>ct_kind = KBidir, ct_dir = Forward, ct_dscp = hd (cc_dscp c)\<rparr>] else [])
     @ (if cc_udp c then concat (map (\<lambda>ds. map (\<lambda>d. \<lparr>ct_kind = KRamp, ct_dir = d, ct_dscp = ds\<rparr>) dirs) (cc_dscp c)) else []))"

record cap_peer =
  cp_next :: time
  cp_retryAt :: time
  cp_queue :: "cap_test list"
  cp_ran :: bool
  cp_failures :: nat

record iperf_flow =
  if_dir :: direction
  if_bits :: rat
  if_bytes :: u64
  if_packets :: u64
  if_lost :: u64
  if_jitter :: rat

record iperf_result =
  ir_streams :: int
  ir_flows :: "iperf_flow list"

definition LossRatio :: "iperf_flow \<Rightarrow> rat" where
  "LossRatio f = (if if_packets f = 0 then 0
     else of_int (uint (min (if_lost f) (if_packets f))) / of_int (uint (if_packets f)))"

definition result_flow :: "iperf_result \<Rightarrow> direction \<Rightarrow> iperf_flow option" where
  "result_flow r d = List.find (\<lambda>f. if_dir f = d) (ir_flows r)"

record udp_step =
  us_rate :: u64
  us_loss :: rat
  us_jitter :: rat

text \<open>What the code tells the meter.\<close>

datatype meter_event =
    ObserveTCP string iperf_flow string int int bool
  | AddTestBytes string direction u64
  | ObserveUDPRamp string direction int "udp_step list" u64 bool bool
  | ThroughputSkipped string string
  | ThroughputFailed string string

record cap_state =
  cs_ledger :: ledger
  cs_pairs :: "string \<rightharpoonup> ledger"
  cs_peers :: "(string \<times> cap_peer) list"
  cs_good :: "string \<rightharpoonup> string"
  cs_lastBytes :: "string \<rightharpoonup> u64"
  cs_lastBits :: "string \<rightharpoonup> rat"
  cs_lastBounded :: "string \<rightharpoonup> bool"
  cs_warned :: "string \<rightharpoonup> bool"
  cs_absent :: "string \<rightharpoonup> time"
  cs_meter :: "meter_event list"

definition cap_start :: "cap_cfg \<Rightarrow> cap_state" where
  "cap_start c = \<lparr>cs_ledger = \<lparr>lg_window = cc_budgetWindow c, lg_limit = cc_budget c, lg_entries = []\<rparr>,
     cs_pairs = Map.empty, cs_peers = [], cs_good = Map.empty, cs_lastBytes = Map.empty, cs_lastBits = Map.empty,
     cs_lastBounded = Map.empty, cs_warned = Map.empty, cs_absent = Map.empty, cs_meter = []\<rparr>"

definition tell :: "meter_event \<Rightarrow> cap_state \<Rightarrow> cap_state" where
  "tell e s = s\<lparr>cs_meter := cs_meter s @ [e]\<rparr>"

subsection \<open>The byte budget\<close>

definition u64_secs :: "duration \<Rightarrow> u64" where
  "u64_secs d = word_of_int (d div second)"

partial_function (option) ramp_sum :: "u64 \<Rightarrow> duration \<Rightarrow> u64 \<Rightarrow> u64 \<Rightarrow> u64 option" where
  "ramp_sum peak step r acc =
     (let acc' = acc + r * u64_secs step div 8
      in if r \<ge> peak then Some acc' else ramp_sum peak step (min (r * 2) peak) acc')"

definition rampBytes :: "u64 \<Rightarrow> u64 \<Rightarrow> duration \<Rightarrow> u64 option" where
  "rampBytes start peak step = ramp_sum peak step start 0"

partial_function (option) ramp_halve :: "cap_cfg \<Rightarrow> u64 \<Rightarrow> u64 \<Rightarrow> u64 option" where
  "ramp_halve c share peak =
     (if peak > cc_start c
      then Option.bind (rampBytes (cc_start c) peak (cc_step c))
             (\<lambda>b. if b > share then ramp_halve c share (max (peak div 2) (cc_start c)) else Some peak)
      else Some peak)"

definition rampTop :: "cap_cfg \<Rightarrow> u64 \<Rightarrow> u64 option" where
  "rampTop c share = Option.bind (rampBytes (cc_start c) (cc_start c) (cc_step c))
     (\<lambda>b. if b > share then Some 0 else ramp_halve c share (cc_max c))"

definition pairLedger :: "cap_cfg \<Rightarrow> link_peer \<Rightarrow> cap_state \<Rightarrow> ledger option \<times> cap_state" where
  "pairLedger c p s =
     (if lp_budget p = 0 then (None, s\<lparr>cs_pairs := (cs_pairs s)(lp_id p := None)\<rparr>)
      else (let l = (case cs_pairs s (lp_id p) of
                        None \<Rightarrow> \<lparr>lg_window = cc_budgetWindow c, lg_limit = lp_budget p, lg_entries = []\<rparr>
                      | Some l \<Rightarrow> l\<lparr>lg_limit := lp_budget p\<rparr>)
            in (Some l, s\<lparr>cs_pairs := (cs_pairs s)(lp_id p \<mapsto> l)\<rparr>)))"

definition budgetLimit :: "cap_cfg \<Rightarrow> link_peer \<Rightarrow> cap_state \<Rightarrow> u64 \<times> cap_state" where
  "budgetLimit c p s = (let limit = lg_limit (cs_ledger s) in
     case pairLedger c p s of
       (None, s') \<Rightarrow> (limit, s')
     | (Some pl, s') \<Rightarrow> (if limit = 0 \<or> lg_limit pl < limit then lg_limit pl else limit, s'))"

definition every_of :: "cap_cfg \<Rightarrow> link_peer \<Rightarrow> duration" where
  "every_of c p = (if lp_every p > 0 then lp_every p else cc_every c)"

definition cycles :: "cap_cfg \<Rightarrow> link_peer \<Rightarrow> u64" where
  "cycles c p = (let every = every_of c p in
     if every > 0 \<and> cc_budgetWindow c > every then word_of_int ((cc_budgetWindow c + every - 1) div every) else 1)"

definition share :: "cap_cfg \<Rightarrow> link_peer \<Rightarrow> cap_state \<Rightarrow> u64 \<times> cap_state" where
  "share c p s = (case budgetLimit c p s of (limit, s') \<Rightarrow>
     if limit = 0 then (0, s')
     else (let n = of_nat (length (plan c)) * cycles c p in (limit div (if n = 0 then 1 else n), s')))"

definition allows :: "cap_cfg \<Rightarrow> link_peer \<Rightarrow> time \<Rightarrow> u64 \<Rightarrow> cap_state \<Rightarrow> bool \<times> cap_state" where
  "allows c p now est s0 = (case Allows now est (cs_ledger s0) of (ok, l) \<Rightarrow> (let s = s0\<lparr>cs_ledger := l\<rparr> in
     if \<not> ok then (False, s)
     else (case pairLedger c p s of
         (None, s') \<Rightarrow> (True, s')
       | (Some pl, s') \<Rightarrow> (case Allows now est pl of (ok', pl') \<Rightarrow> (ok', s'\<lparr>cs_pairs := (cs_pairs s')(lp_id p \<mapsto> pl')\<rparr>)))))"

definition charge :: "cap_cfg \<Rightarrow> link_peer \<Rightarrow> time \<Rightarrow> u64 \<Rightarrow> cap_state \<Rightarrow> cap_state" where
  "charge c p now n s0 = (let s = s0\<lparr>cs_ledger := Charge now n (cs_ledger s0)\<rparr> in
     case pairLedger c p s of
       (None, s') \<Rightarrow> s'
     | (Some pl, s') \<Rightarrow> s'\<lparr>cs_pairs := (cs_pairs s')(lp_id p \<mapsto> Charge now n pl)\<rparr>)"

definition streamsOf :: "cap_cfg \<Rightarrow> cap_test \<Rightarrow> int" where
  "streamsOf c t = (if ct_kind t = KParallel then cc_parallel c else 1)"

definition shape :: "cap_cfg \<Rightarrow> cap_test \<Rightarrow> int \<times> int" where
  "shape c t = (if ct_kind t = KParallel then cc_parallel c else 1, if ct_kind t = KBidir then 2 else 1)"

definition value_or :: "'v \<Rightarrow> 'v option \<Rightarrow> 'v" where
  "value_or d x = (case x of None \<Rightarrow> d | Some v \<Rightarrow> v)"

definition estimate :: "cap_cfg \<Rightarrow> link_peer \<Rightarrow> cap_test \<Rightarrow> cap_state \<Rightarrow> u64 option" where
  "estimate c p t s =
     (if ct_kind t = KRamp then rampBytes (cc_start c) (cc_max c) (cc_step c)
      else (let latest = value_or 0 (cs_lastBytes s (test_key t (lp_id p)));
                key = bits_key (lp_id p) (ct_dir t) (streamsOf c t) (ct_dscp t);
                bits = (if value_or False (cs_lastBounded s key) then 0 else value_or 0 (cs_lastBits s key))
            in if latest > 0 then Some latest
               else (let rate0 = (if bits > 0 then word_of_int (floor bits) else 1000000000);
                         rate = (if cc_tcpMax c > 0
                                 then (let r = (if bits = 0 then cc_tcpMax c else min rate0 (cc_tcpMax c))
                                       in if ct_kind t = KParallel then r * word_of_int (cc_parallel c) else r)
                                 else rate0);
                         est = rate * u64_secs (cc_duration c + cc_omit c) div 8
                     in Some (if ct_kind t = KBidir then est * 2 else est))))"

definition warnBounded :: "link_peer \<Rightarrow> cap_test \<Rightarrow> cap_state \<Rightarrow> cap_state" where
  "warnBounded p t s = s\<lparr>cs_warned := (cs_warned s)((''bounded|'' @ test_key t (lp_id p)) \<mapsto> True)\<rparr>"

definition warnOversized :: "cap_cfg \<Rightarrow> link_peer \<Rightarrow> cap_test \<Rightarrow> u64 \<Rightarrow> cap_state \<Rightarrow> cap_state" where
  "warnOversized c p t est s = (case budgetLimit c p s of (limit, s') \<Rightarrow>
     if limit = 0 \<or> est \<le> limit then s'
     else s'\<lparr>cs_warned := (cs_warned s')(test_key t (lp_id p) \<mapsto> True)\<rparr>)"

subsection \<open>Addresses\<close>

definition usableAddresses :: "(string \<Rightarrow> string) \<Rightarrow> link_peer \<Rightarrow> string list" where
  "usableAddresses cls p = (if lp_via p = [] then lp_addresses p else filter (\<lambda>a. cls a = lp_via p) (lp_addresses p))"

definition noAddress :: "(string \<Rightarrow> string) \<Rightarrow> link_peer \<Rightarrow> bool" where
  "noAddress cls p = (lp_via p \<noteq> [] \<and> length (usableAddresses cls p) = 0)"

definition rankAddresses :: "(string \<Rightarrow> string) \<Rightarrow> link_peer \<Rightarrow> string \<Rightarrow> string list \<times> string \<times> string list" where
  "rankAddresses cls p latest = (let
     pool = usableAddresses cls p;
     preferred = fold (\<lambda>a pre. if a \<in> set pool \<and> a \<notin> set pre then pre @ [a] else pre) (lp_preferred p) [];
     (answered, rest) = fold (\<lambda>a (ans, rest). if a \<in> set preferred then (ans, rest)
                                              else if a = latest then (a, rest) else (ans, rest @ [a])) pool ([], [])
     in (preferred, answered, rest))"

text \<open>\<open>perm\<close> is what \<open>rand.Shuffle\<close> makes of a list.\<close>

definition orderAddresses :: "(string \<Rightarrow> string) \<Rightarrow> (string list \<Rightarrow> string list) \<Rightarrow> link_peer \<Rightarrow> string \<Rightarrow> nat \<Rightarrow> string list" where
  "orderAddresses cls perm p latest mx = (case rankAddresses cls p latest of (preferred0, answered, rest0) \<Rightarrow>
     let preferred = (if length preferred0 > mx then take mx preferred0 else preferred0);
         rest = perm rest0;
         room = mx - length preferred;
         rest' = (if length rest > room then take room rest else rest);
         out = (if answered \<noteq> [] then preferred @ [answered] else preferred)
     in out @ rest')"

definition traceTarget :: "(string \<Rightarrow> string) \<Rightarrow> link_peer \<Rightarrow> string \<Rightarrow> string" where
  "traceTarget cls p latest = (case rankAddresses cls p latest of (preferred, answered, rest) \<Rightarrow>
     firstNonEmpty (preferred @ [answered] @ rest))"

subsection \<open>One test\<close>

record outcome =
  oc_skip :: string
  oc_retry :: duration
  oc_fail :: string
  oc_drop :: bool

definition no_outcome :: outcome where
  "no_outcome = \<lparr>oc_skip = [], oc_retry = 0, oc_fail = [], oc_drop = False\<rparr>"

definition skip_retry :: "string \<Rightarrow> duration \<Rightarrow> outcome" where
  "skip_retry why d = no_outcome\<lparr>oc_skip := why, oc_retry := d\<rparr>"

definition skip_drop :: "string \<Rightarrow> outcome" where
  "skip_drop why = no_outcome\<lparr>oc_skip := why, oc_drop := True\<rparr>"

definition failed :: "string \<Rightarrow> outcome" where
  "failed why = no_outcome\<lparr>oc_fail := why\<rparr>"

text \<open>
  What one step meets: the times its calls of \<open>Now\<close> see (the \<open>i\<close>th rung of a ramp asks at \<open>2 i\<close> and charges at
  \<open>2 i + 1\<close>), the random choices, whether it is told to stop, and the client's answers.
\<close>

record cap_env =
  ce_now :: "nat \<Rightarrow> time"
  ce_end :: time
  ce_class :: "string \<Rightarrow> string"
  ce_perm :: "string list \<Rightarrow> string list"
  ce_rand :: int
  ce_jitter :: rat
  ce_spread :: "string \<Rightarrow> int \<Rightarrow> int"
  ce_keyFile :: bool
  ce_stopped :: "string \<Rightarrow> bool"
  ce_slept :: "nat \<Rightarrow> bool"
  ce_cancelled :: bool
  ce_once :: "string \<Rightarrow> cap_test \<Rightarrow> string list \<Rightarrow> iperf_result + string"

definition authFor :: "cap_cfg \<Rightarrow> bool \<Rightarrow> link_peer \<Rightarrow> bool" where
  "authFor c keyOk p = (if cc_user c \<noteq> [] then True
     else if \<not> lp_iperf p then \<not> cc_autoAuth c else keyOk)"

fun try_addresses :: "(string \<Rightarrow> iperf_result + string) \<Rightarrow> (string \<Rightarrow> bool) \<Rightarrow> string list \<Rightarrow> string \<Rightarrow> bool
    \<Rightarrow> (string \<times> iperf_result) + (string \<times> bool)" where
  "try_addresses once stopped [] reason sawBusy = Inr (reason, sawBusy)"
| "try_addresses once stopped (a # as) reason sawBusy = (case once a of
     Inl res \<Rightarrow> Inl (a, res)
   | Inr why \<Rightarrow>
       if why = ''busy'' then try_addresses once stopped as reason True
       else if why = ''auth'' \<or> stopped a then Inr (why, sawBusy)
       else try_addresses once stopped as why sawBusy)"

definition invoke :: "cap_cfg \<Rightarrow> cap_env \<Rightarrow> link_peer \<Rightarrow> cap_test \<Rightarrow> string list \<Rightarrow> cap_state \<Rightarrow> (iperf_result + outcome) \<times> cap_state" where
  "invoke c e p t extra s = (let
     addrs = orderAddresses (ce_class e) (ce_perm e) p (value_or [] (cs_good s (lp_id p))) 5;
     auth_key = lp_id p @ ''|auth''
     in if addrs = [] then (Inr (failed (if noAddress (ce_class e) p then ''no_such_kind'' else ''unreachable'')), s)
        else if \<not> authFor c (ce_keyFile e) p then (Inr (failed ''auth''), s\<lparr>cs_warned := (cs_warned s)(auth_key \<mapsto> True)\<rparr>)
        else (let s' = s\<lparr>cs_warned := (cs_warned s)(auth_key := None)\<rparr> in
          case try_addresses (\<lambda>a. ce_once e a t extra) (ce_stopped e) addrs [] False of
            Inl (a, res) \<Rightarrow> (Inl res, s'\<lparr>cs_good := (cs_good s')(lp_id p \<mapsto> a)\<rparr>)
          | Inr (reason, sawBusy) \<Rightarrow>
              if sawBusy \<and> (reason = [] \<or> reason = ''timeout'' \<or> reason = ''refused'' \<or> reason = ''unreachable'')
              then (Inr (skip_retry ''server_busy'' ((60 + ce_rand e) * second)), s')
              else (Inr (failed reason), s')))"

definition reached :: "cap_cfg \<Rightarrow> string \<Rightarrow> direction \<Rightarrow> cap_state \<Rightarrow> rat" where
  "reached c peer d s = fold (\<lambda>n best. fold (\<lambda>ds best. let v = value_or 0 (cs_lastBits s (bits_key peer d n ds)) in
       if v > best then v else best) (cc_dscp c) best) [1, cc_parallel c] 0"

definition busy_dir :: "cap_cfg \<Rightarrow> link_peer \<Rightarrow> load_rate \<Rightarrow> cap_state \<Rightarrow> direction \<Rightarrow> bool" where
  "busy_dir c p lr s d = (let rate = (case d of Forward \<Rightarrow> lr_sent lr | Reverse \<Rightarrow> lr_received lr); r = reached c (lp_id p) d s in
     (cc_skipAbove c > 0 \<and> rate > of_int (uint (cc_skipAbove c)))
     \<or> (cc_busyFraction c > 0 \<and> r > 0 \<and> rate > cc_busyFraction c * r))"

definition busy :: "cap_cfg \<Rightarrow> load option \<Rightarrow> link_peer \<Rightarrow> cap_test \<Rightarrow> time \<Rightarrow> cap_state \<Rightarrow> bool" where
  "busy c ld p t now s =
     (case ld of None \<Rightarrow> False
      | Some l \<Rightarrow>
          if cc_busyFraction c = 0 \<and> cc_skipAbove c = 0 then False
          else (case Rate (lp_id p) now (3 * minute) l of
              None \<Rightarrow> False
            | Some lr \<Rightarrow> list_ex (busy_dir c p lr s) (if ct_kind t = KBidir then [Forward, Reverse] else [ct_dir t])))"

definition secs :: "duration \<Rightarrow> string" where
  "secs d = show_int (d div second)"

definition show_u64 :: "u64 \<Rightarrow> string" where
  "show_u64 w = show_nat (unat w)"

definition offeredBits :: "iperf_flow \<Rightarrow> rat" where
  "offeredBits f = (let loss = LossRatio f in if loss \<ge> 1 then 0 else if_bits f / (1 - loss))"

text \<open>One rung of the ramp: it stops the whole test, is the last one (with what saturation says), or is clean.\<close>

datatype rung = RungStop outcome | RungLast "udp_step list" bool | RungClean "udp_step list"

definition ramp_rung :: "cap_cfg \<Rightarrow> cap_env \<Rightarrow> link_peer \<Rightarrow> cap_test \<Rightarrow> u64 \<Rightarrow> udp_step list \<Rightarrow> cap_state \<Rightarrow> rung \<times> cap_state" where
  "ramp_rung c e p t rate steps s0 = (let i = length steps in
     if i > 0 \<and> \<not> ce_slept e i then (RungStop (skip_retry ''server_busy'' minute), s0)
     else (case (if i > 0 then allows c p (ce_now e (2 * i)) (rate * u64_secs (cc_step c) div 8) s0 else (True, s0)) of
       (False, s) \<Rightarrow> (RungStop (skip_retry ''budget'' (30 * minute)), s)
     | (True, s) \<Rightarrow>
        (case invoke c e p t [''-u'', ''-b'', show_u64 rate, ''-t'', secs (cc_step c)] s of
           (Inr out, s1) \<Rightarrow> (RungStop out, s1)
         | (Inl res, s1) \<Rightarrow>
            (case result_flow res (ct_dir t) of
               None \<Rightarrow> (RungStop (failed ''other''), s1)
             | Some f \<Rightarrow>
                 let s2 = tell (AddTestBytes (lp_id p) (ct_dir t) (if_bytes f)) (charge c p (ce_now e (2 * i + 1)) (if_bytes f) s1);
                     steps' = steps @ [\<lparr>us_rate = rate, us_loss = LossRatio f, us_jitter = if_jitter f\<rparr>]
                 in if LossRatio f > cc_loss c then (RungLast steps' True, s2)
                    else if offeredBits f < 9 / 10 * of_int (uint rate) then (RungLast steps' False, s2)
                    else (RungClean steps', s2)))))"

partial_function (option) ramp_loop :: "cap_cfg \<Rightarrow> cap_env \<Rightarrow> link_peer \<Rightarrow> cap_test \<Rightarrow> u64 \<Rightarrow> u64 \<Rightarrow> udp_step list \<Rightarrow> u64 \<Rightarrow> bool \<Rightarrow> cap_state
    \<Rightarrow> (outcome \<times> cap_state) option" where
  "ramp_loop c e p t peak rate steps clean has s =
     (case ramp_rung c e p t rate steps s of
        (RungStop out, s') \<Rightarrow> Some (out, s')
      | (RungLast steps' sat, s') \<Rightarrow>
          Some (no_outcome, tell (ObserveUDPRamp (lp_id p) (ct_dir t) (ct_dscp t) steps' clean has sat) s')
      | (RungClean steps', s') \<Rightarrow>
          if rate \<ge> peak
          then Some (no_outcome, tell (ObserveUDPRamp (lp_id p) (ct_dir t) (ct_dscp t) steps' rate True False) s')
          else ramp_loop c e p t peak (min (rate * 2) peak) steps' rate True s')"

definition runRamp :: "cap_cfg \<Rightarrow> cap_env \<Rightarrow> link_peer \<Rightarrow> cap_test \<Rightarrow> u64 \<Rightarrow> cap_state \<Rightarrow> (outcome \<times> cap_state) option" where
  "runRamp c e p t peak s = ramp_loop c e p t (if peak = 0 then cc_max c else peak) (cc_start c) [] 0 False s"

text \<open>
  How a test is sized to its share of the budget: the cap of each stream and of the ramp (0 for none) and the bytes it is
  then expected to carry, or \<open>None\<close> when the share does not pay for a rate worth a reading.
\<close>

definition minCapBits :: u64 where "minCapBits = 1000000"

definition boundedAt :: rat where "boundedAt = 9 / 10"

definition size_test :: "cap_cfg \<Rightarrow> cap_test \<Rightarrow> u64 \<Rightarrow> u64 \<Rightarrow> (u64 \<times> u64 \<times> u64) option option" where
  "size_test c t sh est =
     (if sh > 0 \<and> est > sh then
        (if ct_kind t = KRamp then
           Option.bind (rampTop c sh) (\<lambda>peak. if peak = 0 then Some None
             else Option.bind (rampBytes (cc_start c) peak (cc_step c)) (\<lambda>b. Some (Some (0, peak, b))))
         else (case shape c t of (streams, dirs) \<Rightarrow>
           let n = word_of_int (streams * dirs); secs = u64_secs (cc_duration c + cc_omit c); cap = sh * 8 div secs div n
           in if cap < minCapBits then Some None else Some (Some (cap, 0, cap * n * secs div 8))))
      else Some (Some (0, 0, est)))"

definition tcp_args :: "cap_cfg \<Rightarrow> cap_test \<Rightarrow> u64 \<Rightarrow> string list" where
  "tcp_args c t effCap = [''-t'', secs (cc_duration c)]
     @ (if cc_omit c > 0 then [''-O'', secs (cc_omit c)] else [])
     @ (if fst (shape c t) > 1 then [''-P'', show_int (fst (shape c t))] else [])
     @ (if effCap > 0 then [''-b'', show_u64 effCap] else [])
     @ (if ct_kind t = KBidir then [''--bidir''] else [])"

definition setBits :: "string \<Rightarrow> direction \<Rightarrow> int \<Rightarrow> int \<Rightarrow> rat \<Rightarrow> bool \<Rightarrow> cap_state \<Rightarrow> cap_state" where
  "setBits peer d streams dscp bits bnd s = (let k = bits_key peer d streams dscp in
     s\<lparr>cs_lastBits := (cs_lastBits s)(k \<mapsto> bits), cs_lastBounded := (cs_lastBounded s)(k \<mapsto> bnd)\<rparr>)"

definition flow_done :: "link_peer \<Rightarrow> cap_test \<Rightarrow> int \<Rightarrow> u64 \<Rightarrow> int \<Rightarrow> iperf_flow \<Rightarrow> cap_state \<Rightarrow> cap_state" where
  "flow_done p t resStreams effCap streams f s = (let
     bnd = (effCap > 0 \<and> if_bits f \<ge> boundedAt * of_int (uint effCap) * of_int streams);
     proto = (if ct_kind t = KBidir then ''tcp_bidir'' else ''tcp'');
     s' = tell (ObserveTCP (lp_id p) f proto resStreams (ct_dscp t) bnd) s
     in if proto = ''tcp'' then setBits (lp_id p) (if_dir f) resStreams (ct_dscp t) (if_bits f) bnd s' else s')"

definition run_tcp :: "cap_cfg \<Rightarrow> cap_env \<Rightarrow> link_peer \<Rightarrow> cap_test \<Rightarrow> u64 \<Rightarrow> cap_state \<Rightarrow> outcome \<times> cap_state" where
  "run_tcp c e p t capStream s = (let
     streams = fst (shape c t);
     effCap = (if capStream > 0 \<and> (cc_tcpMax c = 0 \<or> capStream < cc_tcpMax c) then capStream else cc_tcpMax c)
     in case invoke c e p t (tcp_args c t effCap) s of
          (Inr out, s1) \<Rightarrow> (out, s1)
        | (Inl res, s1) \<Rightarrow> (let
            s2 = fold (flow_done p t (ir_streams res) effCap streams) (ir_flows res) s1;
            sent = fold (\<lambda>f n. n + if_bytes f) (ir_flows res) 0;
            total = sent + word_of_int (floor (of_int (uint sent) * of_int (cc_omit c) / of_int (cc_duration c) :: rat));
            s3 = charge c p (ce_now e 1) total s2
            in (no_outcome, if capStream = 0 then s3\<lparr>cs_lastBytes := (cs_lastBytes s3)(test_key t (lp_id p) \<mapsto> total)\<rparr> else s3)))"

definition runTest :: "cap_cfg \<Rightarrow> cap_env \<Rightarrow> load option \<Rightarrow> link_peer \<Rightarrow> cap_test \<Rightarrow> cap_state \<Rightarrow> (outcome \<times> cap_state) option" where
  "runTest c e ld p t s0 = Option.bind (estimate c p t s0) (\<lambda>est0. case share c p s0 of (sh, s1) \<Rightarrow>
     Option.bind (size_test c t sh est0) (\<lambda>sized. case sized of
       None \<Rightarrow> Some (skip_drop ''budget'', warnOversized c p t est0 s1)
     | Some (capStream, rampMax, est) \<Rightarrow>
        (case allows c p (ce_now e 0) est s1 of
           (False, s2) \<Rightarrow> (case budgetLimit c p s2 of (limit, s3) \<Rightarrow>
              if limit > 0 \<and> est > limit then Some (skip_drop ''budget'', warnOversized c p t est s3)
              else Some (skip_retry ''budget'' (30 * minute), s3))
         | (True, s2) \<Rightarrow> (let s3 = (if capStream > 0 \<or> rampMax > 0 then warnBounded p t s2 else s2) in
              if busy c ld p t (ce_now e 0) s3 then Some (skip_retry ''link_busy'' (10 * minute), s3)
              else if ct_kind t = KRamp then runRamp c e p t rampMax s3
              else Some (run_tcp c e p t capStream s3)))))"

subsection \<open>The ramp and the budget\<close>

text \<open>The rates of a ramp from \<open>r\<close> up to \<open>p\<close>, and the bytes they carry.\<close>

function ladder :: "nat \<Rightarrow> nat \<Rightarrow> nat list" where
  "ladder r p = (if r = 0 \<or> r \<ge> p then [r] else r # ladder (min (2 * r) p) p)"
  by pat_completeness auto
termination by (relation "measure (\<lambda>(r, p). p - r)") auto

declare ladder.simps [simp del]

definition ladder_bytes :: "nat \<Rightarrow> nat \<Rightarrow> nat \<Rightarrow> nat" where
  "ladder_bytes sc r p = sum_list (map (\<lambda>x. x * sc div 8) (ladder r p))"

lemma ladder_top: "ladder p p = [p]" by (simp add: ladder.simps [of p p])

lemma ladder_step: "0 < r \<Longrightarrow> r < p \<Longrightarrow> ladder r p = r # ladder (min (2 * r) p) p"
  by (simp add: ladder.simps [of r p])

lemma ladder_sum: "0 < r \<Longrightarrow> r \<le> p \<Longrightarrow> sum_list (ladder r p) + r \<le> 3 * p"
proof (induction r p rule: ladder.induct)
  case (1 r p)
  show ?case
  proof (cases "r = p")
    case False
    then have "sum_list (ladder (min (2 * r) p) p) + min (2 * r) p \<le> 3 * p" using 1 by simp
    then show ?thesis using False 1(2,3) by (cases "2 * r \<le> p") (simp_all add: ladder_step ladder_top)
  qed (simp add: ladder_top)
qed

lemma ladder_mono: "0 < r \<Longrightarrow> r \<le> p \<Longrightarrow> p \<le> q \<Longrightarrow> ladder_bytes sc r p \<le> ladder_bytes sc r q"
proof (induction r p rule: ladder.induct)
  case (1 r p)
  have head: "x * sc div 8 \<le> ladder_bytes sc x q" for x by (simp add: ladder_bytes_def ladder.simps [of x q])
  show ?case
  proof (cases "r = p")
    case True
    then show ?thesis using head [of p] by (simp add: ladder_bytes_def ladder_top)
  next
    case False
    then have lt: "r < p" "r < q" using 1(3,4) by simp_all
    have "ladder_bytes sc (min (2 * r) p) p \<le> ladder_bytes sc (min (2 * r) q) q"
    proof (cases "2 * r \<le> p")
      case True
      then show ?thesis using 1 False by (simp add: min_def)
    next
      case no: False
      have "p * sc div 8 \<le> min (2 * r) q * sc div 8" using no 1(4) by (intro div_le_mono mult_right_mono) simp_all
      also have "\<dots> \<le> ladder_bytes sc (min (2 * r) q) q" by (rule head)
      finally show ?thesis using no by (simp add: min_def ladder_bytes_def ladder_top)
    qed
    then show ?thesis using lt 1(2) by (simp add: ladder_bytes_def ladder_step)
  qed
qed

lemma unat_min: "unat (min a b) = min (unat a) (unat b)" by (simp add: min_def word_le_nat_alt)

lemma ramp_sum_ladder:
  assumes "0 < unat r" "unat r \<le> unat p" "2 * unat p < 2 ^ 64" "unat p * unat (u64_secs step) < 2 ^ 64"
  shows "ramp_sum p step r acc = Some (acc + of_nat (ladder_bytes (unat (u64_secs step)) (unat r) (unat p)))"
  using assms
proof (induction "unat r" "unat p" arbitrary: r acc rule: ladder.induct)
  case 1
  let ?s = "unat (u64_secs step)"
  have "unat r * ?s \<le> unat p * ?s" using 1(3) by simp
  then have "unat r * ?s < 2 ^ 64" using 1(5) by linarith
  then have "unat (r * u64_secs step div 8) = unat r * ?s div 8"
    by (simp add: unat_div_distrib unat_word_ariths)
  from arg_cong [OF this, of "of_nat :: nat \<Rightarrow> u64"]
  have rung: "r * u64_secs step div 8 = of_nat (unat r * ?s div 8)" by simp
  have dbl: "unat (min (r * 2) p) = min (2 * unat r) (unat p)"
    using 1 by (simp add: unat_min unat_word_ariths mult.commute)
  show ?case
  proof (cases "unat r = unat p")
    case True
    then show ?thesis by (simp add: ramp_sum.simps [of p step r acc] ladder_bytes_def ladder_top rung Let_def word_le_nat_alt)
  next
    case False
    then have lt: "unat r < unat p" "\<not> r \<ge> p" using 1 by (simp_all add: word_le_nat_alt)
    have "ramp_sum p step (min (r * 2) p) (acc + of_nat (unat r * ?s div 8))
       = Some (acc + of_nat (unat r * ?s div 8) + of_nat (ladder_bytes ?s (unat (min (r * 2) p)) (unat p)))"
      using 1 lt dbl by (intro 1(1)) simp_all
    then show ?thesis using lt 1(2) by (simp add: ramp_sum.simps [of p step r acc] ladder_bytes_def ladder_step rung dbl add.assoc)
  qed
qed

lemma div8_sum: "sum_list (map (\<lambda>x. x * k div 8) xs) \<le> sum_list xs * k" for k :: nat
proof (induction xs)
  case (Cons x xs)
  have "x * k div 8 \<le> x * k" by simp
  then show ?case using Cons by (simp add: distrib_right) 
qed simp

lemma ladder_bytes_bound:
  assumes "0 < r" "r \<le> p" "p \<le> 400000000000" "k \<le> 30"
  shows "ladder_bytes k r p < 2 ^ 64"
proof -
  have "ladder_bytes k r p \<le> sum_list (ladder r p) * k" unfolding ladder_bytes_def by (rule div8_sum)
  also have "\<dots> \<le> (3 * 400000000000) * 30" using ladder_sum [OF assms(1,2)] assms(3,4) by (intro mult_le_mono) simp_all
  finally show ?thesis by simp
qed

lemma Validate_udp:
  assumes "Validate c = None" "cc_udp c"
  shows "100000 \<le> unat (cc_start c)" "unat (cc_start c) \<le> unat (cc_max c)" "unat (cc_max c) \<le> 400000000000"
    "unat (u64_secs (cc_step c)) \<le> 30" "0 < cc_loss c"
proof -
  have v: "\<not> cc_start c < 100000" "\<not> cc_max c < cc_start c" "\<not> cc_max c > 400000000000"
    "whole_seconds (cc_step c) (2 * second) (30 * second)" "\<not> cc_loss c \<le> 0"
    using assms unfolding Validate_def by (simp_all split: if_splits)
  then show "100000 \<le> unat (cc_start c)" "unat (cc_start c) \<le> unat (cc_max c)" "unat (cc_max c) \<le> 400000000000" "0 < cc_loss c"
    by (simp_all add: word_less_nat_alt not_less)
  have "0 \<le> cc_step c div second" "cc_step c div second \<le> 30"
    using v(4) zdiv_mono1 [of "cc_step c" "30 * second" second] by (simp_all add: whole_seconds_def pos_imp_zdiv_nonneg_iff)
  then show "unat (u64_secs (cc_step c)) \<le> 30"
    by (simp add: u64_secs_def unat_eq_nat_uint uint_word_of_int nat_le_iff)
qed

definition ramp_bytes_of :: "cap_cfg \<Rightarrow> u64 \<Rightarrow> nat" where
  "ramp_bytes_of c p = ladder_bytes (unat (u64_secs (cc_step c))) (unat (cc_start c)) (unat p)"

lemma rampBytes_eq:
  assumes "Validate c = None" "cc_udp c" "cc_start c \<le> p" "p \<le> cc_max c"
  shows "rampBytes (cc_start c) p (cc_step c) = Some (of_nat (ramp_bytes_of c p))"
    "ramp_bytes_of c p < 2 ^ 64"
proof -
  note v = Validate_udp [OF assms(1,2)]
  have p: "unat (cc_start c) \<le> unat p" "unat p \<le> 400000000000" using assms(3,4) v(3) by (simp_all add: word_le_nat_alt)
  have "unat p * unat (u64_secs (cc_step c)) \<le> 400000000000 * 30" using p v(4) by (intro mult_le_mono) simp_all
  then show "rampBytes (cc_start c) p (cc_step c) = Some (of_nat (ramp_bytes_of c p))"
    using ramp_sum_ladder [of "cc_start c" p "cc_step c" 0] p v(1) by (simp add: rampBytes_def ramp_bytes_of_def)
  show "ramp_bytes_of c p < 2 ^ 64"
    unfolding ramp_bytes_of_def using p v by (intro ladder_bytes_bound) simp_all
qed

lemma ramp_fits_iff:
  assumes "Validate c = None" "cc_udp c" "cc_start c \<le> p" "p \<le> cc_max c"
  shows "(of_nat (ramp_bytes_of c p) :: u64) > sh \<longleftrightarrow> unat sh < ramp_bytes_of c p"
  using rampBytes_eq(2) [OF assms] by (simp add: word_less_nat_alt unat_of_nat)

lemma fits_top:
  assumes "Validate c = None" "cc_udp c" "cc_start c \<le> p" "p \<le> cc_max c" "ramp_bytes_of c p \<le> unat sh"
  shows "ramp_halve c sh p = Some p"
  using assms(5) ramp_fits_iff [OF assms(1-4), of sh] rampBytes_eq(1) [OF assms(1-4)] by (simp add: ramp_halve.simps [of c sh p])

lemma ramp_halve_fits:
  assumes v: "Validate c = None" "cc_udp c" and "ramp_bytes_of c (cc_start c) \<le> unat sh" "cc_start c \<le> p" "p \<le> cc_max c"
  shows "\<exists>q. ramp_halve c sh p = Some q \<and> cc_start c \<le> q \<and> q \<le> p \<and> ramp_bytes_of c q \<le> unat sh
    \<and> (\<forall>x. cc_start c \<le> x \<and> x \<le> p \<and> ramp_bytes_of c x \<le> unat sh \<longrightarrow> x div 2 \<le> q)"
  using assms(3-)
proof (induction "unat p" arbitrary: p rule: less_induct)
  case less
  have half: "x div 2 \<le> x" for x :: u64 by (simp add: word_le_nat_alt unat_div_distrib)
  have hm: "x \<le> y \<Longrightarrow> x div 2 \<le> y div 2" for x y :: u64 by (simp add: word_le_nat_alt unat_div_distrib div_le_mono)
  show ?case
  proof (cases "p > cc_start c \<and> unat sh < ramp_bytes_of c p")
    case False
    then have "ramp_bytes_of c p \<le> unat sh" using less.prems by (auto simp: not_less dest: order.antisym)
    moreover from this have "ramp_halve c sh p = Some p" by (rule fits_top [OF v less.prems(2,3)])
    moreover have "x div 2 \<le> p" if "x \<le> p" for x using half [of x] that by (rule order_trans)
    ultimately show ?thesis using less.prems by auto
  next
    case True
    let ?p = "max (p div 2) (cc_start c)"
    have "unat (p div 2) < unat p" using True by (simp add: unat_div_distrib word_less_nat_alt)
    then have lt: "unat ?p < unat p" using True by (simp add: max_def word_less_nat_alt)
    then have le: "?p \<le> p" by (simp add: word_le_nat_alt)
    obtain q where q: "ramp_halve c sh ?p = Some q" "cc_start c \<le> q" "q \<le> ?p" "ramp_bytes_of c q \<le> unat sh"
      "\<And>x. cc_start c \<le> x \<Longrightarrow> x \<le> ?p \<Longrightarrow> ramp_bytes_of c x \<le> unat sh \<Longrightarrow> x div 2 \<le> q"
      using less.hyps [OF lt less.prems(1)] le less.prems(3) by (auto intro: order_trans)
    have step: "ramp_halve c sh p = ramp_halve c sh ?p"
      using True ramp_fits_iff [OF v less.prems(2,3), of sh] rampBytes_eq(1) [OF v less.prems(2,3)]
      by (simp add: ramp_halve.simps [of c sh p])
    have "x div 2 \<le> q" if x: "cc_start c \<le> x" "x \<le> p" "ramp_bytes_of c x \<le> unat sh" for x
    proof (cases "x \<le> ?p")
      case True
      then show ?thesis using x q(5) by blast
    next
      case False
      then have "ramp_bytes_of c ?p \<le> unat sh"
        using x(3) ladder_mono [of "unat (cc_start c)" "unat ?p" "unat x" "unat (u64_secs (cc_step c))"] Validate_udp(1) [OF v]
        by (simp add: ramp_bytes_of_def word_le_nat_alt max_def not_le split: if_splits)
      then have "q = ?p" using fits_top [OF v, of ?p sh] q(1) order_trans [OF le less.prems(3)] by simp
      then show ?thesis using hm [OF x(2)] by (simp add: le_max_iff_disj)
    qed
    then show ?thesis using q step le by (auto intro: order_trans)
  qed
qed

lemma ramp_fits:
  assumes "Validate c = None" "cc_udp c"
  shows "\<exists>p. rampTop c sh = Some p \<and> (p = 0 \<longleftrightarrow> unat sh < ramp_bytes_of c (cc_start c))
    \<and> (p \<noteq> 0 \<longrightarrow> cc_start c \<le> p \<and> p \<le> cc_max c \<and> ramp_bytes_of c p \<le> unat sh
         \<and> rampBytes (cc_start c) p (cc_step c) = Some (of_nat (ramp_bytes_of c p))
         \<and> (\<forall>x. cc_start c \<le> x \<and> x \<le> cc_max c \<and> ramp_bytes_of c x \<le> unat sh \<longrightarrow> x div 2 \<le> p))"
proof -
  note v = Validate_udp [OF assms]
  have le: "cc_start c \<le> cc_start c" "cc_start c \<le> cc_max c" "cc_max c \<le> cc_max c" using v(2) by (simp_all add: word_le_nat_alt)
  have pos: "cc_start c \<noteq> 0" using v(1) by auto
  show ?thesis
  proof (cases "unat sh < ramp_bytes_of c (cc_start c)")
    case True
    then show ?thesis using ramp_fits_iff [OF assms le(1,2), of sh] rampBytes_eq(1) [OF assms le(1,2)] by (simp add: rampTop_def)
  next
    case False
    then obtain p where p: "ramp_halve c sh (cc_max c) = Some p" "cc_start c \<le> p" "p \<le> cc_max c" "ramp_bytes_of c p \<le> unat sh"
      "\<forall>x. cc_start c \<le> x \<and> x \<le> cc_max c \<and> ramp_bytes_of c x \<le> unat sh \<longrightarrow> x div 2 \<le> p"
      using ramp_halve_fits [OF assms _ le(2,3), of sh] by auto
    have "p \<noteq> 0" using p(2) v(1) by (auto simp: word_le_nat_alt)
    then show ?thesis
      using False p ramp_fits_iff [OF assms le(1,2), of sh] rampBytes_eq(1) [OF assms le(1,2)] rampBytes_eq(1) [OF assms p(2,3)]
      by (simp add: rampTop_def)
  qed
qed

text \<open>
  With settings that pass validation, the top of a ramp sized to a share of the budget always comes out: it is zero just
  when not even the first rung fits; otherwise it lies between the ramp's start and its configured top, the whole ramp up to it
  fits the share, with no byte count wrapping, and no top that fits is more than twice (and a bit) as high.
\<close>

theorem ramp_top_fits:
  assumes "Validate c = None" "cc_udp c"
  shows "\<exists>p. rampTop c sh = Some p \<and> (p = 0 \<longleftrightarrow> unat sh < ramp_bytes_of c (cc_start c))
    \<and> (p \<noteq> 0 \<longrightarrow> cc_start c \<le> p \<and> p \<le> cc_max c \<and> ramp_bytes_of c p \<le> unat sh
         \<and> rampBytes (cc_start c) p (cc_step c) = Some (of_nat (ramp_bytes_of c p))
         \<and> (\<forall>x. cc_start c \<le> x \<and> x \<le> cc_max c \<and> ramp_bytes_of c x \<le> unat sh \<longrightarrow> x div 2 \<le> p))"
  by (rule ramp_fits [OF assms])

definition sample_cfg :: cap_cfg where
  "sample_cfg = Defaults \<lparr>cc_bin = [], cc_port = 0, cc_every = 0, cc_duration = 0, cc_omit = 0, cc_parallel = 4,
     cc_reverse = True, cc_bidir = False, cc_udp = True, cc_start = 1000000, cc_max = 4000000, cc_step = 8 * second, cc_loss = 0,
     cc_dscp = [], cc_tcpMax = 0, cc_budget = 60000000, cc_budgetWindow = 0, cc_busyFraction = 1 / 2, cc_skipAbove = 0,
     cc_window = always, cc_user = [], cc_keyFile = [], cc_passwordFile = [], cc_autoAuth = False, cc_pause = 0, cc_startAfter = 0\<rparr>"

lemmas sample_eqs = sample_cfg_def Defaults_def always_def

lemma sample_valid: "Validate sample_cfg = None" "cc_udp sample_cfg"
  by (simp_all add: sample_eqs Validate_def whole_seconds_def countSet_def Let_def)

lemma ramp_top_fits_witness: "\<exists>p. rampTop sample_cfg 6000000 = Some p \<and> p \<noteq> 0 \<and> ramp_bytes_of sample_cfg p \<le> 6000000"
proof -
  have "\<not> 6000000 < ramp_bytes_of sample_cfg (cc_start sample_cfg)"
    by (simp add: ramp_bytes_of_def ladder_bytes_def ladder_top sample_eqs u64_secs_def)
  then show ?thesis using ramp_top_fits [OF sample_valid, of 6000000] by auto
qed

text \<open>The top is not the highest whose ramp fits: a ramp to 3 Mbit/s would fit here, and the code stops at 2.\<close>

lemma ramp_top_not_highest:
  "rampTop sample_cfg 6000000 = Some 2000000" "rampBytes 1000000 3000000 (cc_step sample_cfg) = Some 6000000"
  by (simp_all add: rampTop_def rampBytes_def ramp_halve.simps ramp_sum.simps sample_eqs u64_secs_def Let_def)

subsection \<open>Tests sized to their share\<close>

lemma Validate_tcp:
  assumes "Validate c = None"
  shows "10 * minute \<le> cc_every c" "3 * second \<le> cc_duration c" "cc_duration c \<le> 60 * second" "cc_duration c mod second = 0"
    "0 \<le> cc_omit c" "cc_omit c \<le> 10 * second" "cc_omit c mod second = 0" "0 \<le> cc_parallel c" "cc_parallel c \<le> 32"
    "length (cc_dscp c) \<le> 4"
  using assms unfolding Validate_def by (simp_all add: whole_seconds_def not_less split: if_splits)

lemma plan_kind:
  assumes "t \<in> set (plan c)"
  shows "ct_kind t = KParallel \<Longrightarrow> 2 \<le> cc_parallel c" "ct_kind t = KRamp \<Longrightarrow> cc_udp c"
  using assms by (auto simp: plan_def Let_def split: if_splits)

lemma cap_product:
  fixes a n k :: nat
  assumes "n \<noteq> 0" "k \<noteq> 0"
  shows "a div k div n * n * k \<le> a"
proof -
  have "a div k div n * n \<le> a div k" by simp
  then have "a div k div n * n * k \<le> a div k * k" by (rule mult_right_mono) simp
  also have "\<dots> \<le> a" by simp
  finally show ?thesis .
qed

lemma cap_bytes:
  fixes sh k n :: u64
  assumes "k \<noteq> 0" "n \<noteq> 0"
  defines "cap \<equiv> sh * 8 div k div n"
  shows "unat (cap * n * k div 8) = unat cap * unat n * unat k div 8" "cap * n * k div 8 \<le> sh"
proof -
  have u: "unat k \<noteq> 0" "unat n \<noteq> 0" using assms(1,2) by (simp_all add: unat_eq_0)
  have c: "unat cap = unat (sh * 8) div unat k div unat n" by (simp add: cap_def unat_div_distrib)
  have le: "unat cap * unat n * unat k \<le> unat (sh * 8)" unfolding c by (rule cap_product [OF u(2,1)])
  have "unat cap * unat n \<le> unat cap * unat n * unat k" using u(1) by simp
  moreover have lt: "unat (sh * 8) < 2 ^ 64" using unsigned_less [where 'a = nat, of "sh * 8"] by simp
  ultimately have s: "unat cap * unat n < 2 ^ 64" "unat cap * unat n * unat k < 2 ^ 64"
    using le lt by linarith+
  then have eq: "unat (cap * n * k) = unat cap * unat n * unat k" by (simp add: unat_word_ariths)
  then show "unat (cap * n * k div 8) = unat cap * unat n * unat k div 8" by (simp add: unat_div_distrib)
  have "unat (sh * 8) \<le> unat sh * 8" by (simp add: unat_word_ariths)
  then have "unat cap * unat n * unat k div 8 \<le> unat sh" using le by linarith
  then show "cap * n * k div 8 \<le> sh" by (simp add: word_le_nat_alt unat_div_distrib eq)
qed

lemma test_secs:
  assumes "Validate c = None"
  shows "unat (u64_secs (cc_duration c + cc_omit c)) = nat ((cc_duration c + cc_omit c) div second)"
    "u64_secs (cc_duration c + cc_omit c) \<noteq> 0"
proof -
  have b: "3 \<le> (cc_duration c + cc_omit c) div second" "(cc_duration c + cc_omit c) div second \<le> 70"
    using Validate_tcp [OF assms] zdiv_mono1 [of "3 * second" "cc_duration c + cc_omit c" second]
      zdiv_mono1 [of "cc_duration c + cc_omit c" "70 * second" second] by simp_all
  then show eq: "unat (u64_secs (cc_duration c + cc_omit c)) = nat ((cc_duration c + cc_omit c) div second)"
    by (simp add: u64_secs_def unat_eq_nat_uint uint_word_of_int)
  show "u64_secs (cc_duration c + cc_omit c) \<noteq> 0" using eq b(1) by (auto simp flip: unat_eq_0)
qed

lemma small_product:
  assumes "1 \<le> a" "a \<le> 32" "1 \<le> b" "b \<le> 2"
  shows "unat (word_of_int (a * b) :: u64) = nat a * nat b"
proof -
  have "0 \<le> a * b" "a * b \<le> 32 * 2" using assms mult_mono [of a 32 b 2] by simp_all
  then have "uint (word_of_int (a * b) :: u64) = a * b" by (simp only: uint_word_of_int) simp
  then show ?thesis using assms by (simp only: unat_eq_nat_uint nat_mult_distrib)
qed

lemma sized_fits:
  assumes "Validate c = None" "t \<in> set (plan c)"
  shows "\<exists>r. size_test c t sh est = Some r \<and> (sh = 0 \<or> est \<le> sh \<longrightarrow> r = Some (0, 0, est))
    \<and> (case r of None \<Rightarrow> True | Some (cap, peak, b) \<Rightarrow>
         (sh \<noteq> 0 \<longrightarrow> b \<le> sh)
         \<and> (cap \<noteq> 0 \<longrightarrow> minCapBits \<le> cap
              \<and> unat b = unat cap * (nat (fst (shape c t)) * nat (snd (shape c t))) * nat ((cc_duration c + cc_omit c) div second) div 8)
         \<and> (peak \<noteq> 0 \<longrightarrow> cc_start c \<le> peak \<and> peak \<le> cc_max c \<and> unat b = ramp_bytes_of c peak))"
proof (cases "sh > 0 \<and> est > sh")
  case False
  then have "sh = 0 \<or> est \<le> sh" by (auto simp: word_gt_0 not_less)
  then show ?thesis using False by (auto simp: size_test_def)
next
  case big: True
  then have nz: "sh \<noteq> 0" "\<not> est \<le> sh" by auto
  show ?thesis
  proof (cases "ct_kind t = KRamp")
    case True
    have udp: "cc_udp c" using plan_kind(2) [OF assms(2) True] .
    have unw: "unat (of_nat (ramp_bytes_of c p) :: u64) = ramp_bytes_of c p" if "cc_start c \<le> p" "p \<le> cc_max c" for p
      using rampBytes_eq(2) [OF assms(1) udp that] by (simp add: unat_of_nat)
    obtain p where p: "rampTop c sh = Some p" "p \<noteq> 0 \<Longrightarrow> cc_start c \<le> p \<and> p \<le> cc_max c \<and> ramp_bytes_of c p \<le> unat sh"
      using ramp_fits [OF assms(1) udp, of sh] by blast
    show ?thesis
    proof (cases "p = 0")
      case True
      then show ?thesis using big nz \<open>ct_kind t = KRamp\<close> p(1) by (simp add: size_test_def)
    next
      case False
      then have r: "cc_start c \<le> p" "p \<le> cc_max c" "ramp_bytes_of c p \<le> unat sh" using p(2) by simp_all
      then show ?thesis using False big nz \<open>ct_kind t = KRamp\<close> p(1) rampBytes_eq(1) [OF assms(1) udp r(1,2)] unw [OF r(1,2)]
        by (simp add: size_test_def word_le_nat_alt)
    qed
  next
    case False
    let ?n = "word_of_int (fst (shape c t) * snd (shape c t)) :: u64"
    let ?k = "u64_secs (cc_duration c + cc_omit c)"
    have sd: "1 \<le> fst (shape c t)" "fst (shape c t) \<le> 32" "1 \<le> snd (shape c t)" "snd (shape c t) \<le> 2"
      using plan_kind(1) [OF assms(2)] Validate_tcp(9) [OF assms(1)] by (auto simp: shape_def)
    have n: "unat ?n = nat (fst (shape c t)) * nat (snd (shape c t))" by (rule small_product [OF sd])
    have "0 < nat (fst (shape c t))" "0 < nat (snd (shape c t))" using sd(1,3) by linarith+
    then have "unat ?n \<noteq> 0" unfolding n by simp
    then have "?n \<noteq> 0" by (simp only: unat_eq_0 not_False_eq_True)
    note b = cap_bytes [OF test_secs(2) [OF assms(1)] this, of sh]
    show ?thesis
      using big nz False b n test_secs(1) [OF assms(1)]
      by (simp add: size_test_def Let_def case_prod_beta not_less)
  qed
qed

text \<open>
  With valid settings, sizing a test of the plan to its share always comes to an answer. A test whose estimate
  fits, or whose budget has no limit, is left as it is; any other is left out or expected to carry at most the share, either with
  each stream capped to a rate worth reporting that carries exactly those bytes over the test's length, or with a ramp up to a
  lower top that carries exactly those bytes.
\<close>

theorem sized_test_fits:
  assumes "Validate c = None" "t \<in> set (plan c)"
  shows "\<exists>r. size_test c t sh est = Some r \<and> (sh = 0 \<or> est \<le> sh \<longrightarrow> r = Some (0, 0, est))
    \<and> (case r of None \<Rightarrow> True | Some (cap, peak, b) \<Rightarrow>
         (sh \<noteq> 0 \<longrightarrow> b \<le> sh)
         \<and> (cap \<noteq> 0 \<longrightarrow> minCapBits \<le> cap
              \<and> unat b = unat cap * (nat (fst (shape c t)) * nat (snd (shape c t))) * nat ((cc_duration c + cc_omit c) div second) div 8)
         \<and> (peak \<noteq> 0 \<longrightarrow> cc_start c \<le> peak \<and> peak \<le> cc_max c \<and> unat b = ramp_bytes_of c peak))"
  by (rule sized_fits [OF assms])

lemma sized_test_fits_witness:
  "\<exists>cap b. size_test sample_cfg \<lparr>ct_kind = KTcp, ct_dir = Forward, ct_dscp = 0\<rparr> 5000000 1250000000 = Some (Some (cap, 0, b))
     \<and> b \<le> 5000000"
proof -
  let ?t = "\<lparr>ct_kind = KTcp, ct_dir = Forward, ct_dscp = 0\<rparr>"
  have t: "?t \<in> set (plan sample_cfg)" by (simp add: plan_def sample_eqs)
  have "size_test sample_cfg ?t 5000000 1250000000 = Some (Some (4000000, 0, 5000000))"
    by (simp add: size_test_def shape_def sample_eqs u64_secs_def minCapBits_def)
  then show ?thesis using sized_test_fits [OF sample_valid(1) t, of 5000000 1250000000] by auto
qed

lemma plan_length: "length (plan c) \<le> 4 * length (cc_dscp c) + 3"
proof -
  have "length (concat (map (\<lambda>ds. map (f ds) dirs) xs)) = length dirs * length xs" for f :: "int \<Rightarrow> direction \<Rightarrow> cap_test" and dirs xs
    by (induction xs) simp_all
  from this [of "\<lambda>ds d. \<lparr>ct_kind = KTcp, ct_dir = d, ct_dscp = ds\<rparr>"] this [of "\<lambda>ds d. \<lparr>ct_kind = KRamp, ct_dir = d, ct_dscp = ds\<rparr>"]
  show ?thesis by (simp add: plan_def Let_def)
qed

lemma cycles_cover:
  assumes e: "10 * minute \<le> every_of c p" and W: "cc_budgetWindow c < 2 ^ 63" and k: "(int k - 1) * every_of c p < cc_budgetWindow c"
  shows "k \<le> unat (cycles c p) \<and> unat (cycles c p) < 2 ^ 32"
proof -
  let ?e = "every_of c p" and ?W = "cc_budgetWindow c"
  have pos: "0 < ?e" using e by simp
  show ?thesis
  proof (cases "?W > ?e")
    case True
    have eq: "(?W + ?e - 1) div ?e = (?W - 1) div ?e + 1" using pos div_add_self2 [of ?e "?W - 1"] by (simp add: algebra_simps)
    have lo: "int k - 1 \<le> (?W - 1) div ?e" using zdiv_mono1 [of "(int k - 1) * ?e" "?W - 1" ?e] k pos by simp
    have "0 \<le> (?W - 1) div ?e" using True pos by (simp add: pos_imp_zdiv_nonneg_iff)
    moreover have "(?W - 1) div ?e \<le> (?W - 1) div (10 * minute)" using True pos e by (intro zdiv_mono2) simp_all
    moreover have "(?W - 1) div (10 * minute) \<le> 2 ^ 63 div (10 * minute)" using W by (intro zdiv_mono1) simp_all
    ultimately have b: "0 \<le> (?W + ?e - 1) div ?e" "(?W + ?e - 1) div ?e < 2 ^ 32" unfolding eq by simp_all
    have "uint (word_of_int ((?W + ?e - 1) div ?e) :: u64) = (?W + ?e - 1) div ?e"
      using b by (simp only: uint_word_of_int) simp
    then have "unat (cycles c p) = nat ((?W + ?e - 1) div ?e)"
      using True pos by (simp add: cycles_def Let_def unat_eq_nat_uint)
    then show ?thesis using lo eq b by simp linarith
  next
    case False
    then have "(int k - 1) * ?e < 1 * ?e" using k by simp
    then have "int k - 1 < 1" using pos by (simp only: mult_less_cancel_right)
    then show ?thesis using False by (simp add: cycles_def Let_def)
  qed
qed

text \<open>
  However the tests of a plan and the cycles a window holds share the budget, the tests of any number of cycles that
  begin within one window, each carrying its share, stay together within the limit.
\<close>

theorem cycles_share_budget:
  assumes "Validate c = None" "0 < lp_every p \<Longrightarrow> 10 * minute \<le> lp_every p" "cc_budgetWindow c < 2 ^ 63"
    "fst (budgetLimit c p s) \<noteq> 0" "(int k - 1) * every_of c p < cc_budgetWindow c"
  shows "k * length (plan c) * unat (fst (share c p s)) \<le> unat (fst (budgetLimit c p s))"
proof -
  have "10 * minute \<le> every_of c p" using assms(2) Validate_tcp(1) [OF assms(1)] by (simp add: every_of_def)
  note cyc = cycles_cover [OF this assms(3,5)]
  define L where "L = fst (budgetLimit c p s)"
  let ?n = "of_nat (length (plan c)) * cycles c p :: u64"
  have len: "length (plan c) \<le> 19" using plan_length [of c] Validate_tcp(10) [OF assms(1)] by linarith
  then have "length (plan c) * unat (cycles c p) \<le> 19 * 2 ^ 32" using cyc by (intro mult_le_mono) simp_all
  then have n: "unat ?n = length (plan c) * unat (cycles c p)" using len by (simp add: unat_word_ariths unat_of_nat)
  have sh: "fst (share c p s) = L div (if ?n = 0 then 1 else ?n)"
    using assms(4) by (simp add: share_def L_def Let_def case_prod_beta)
  show ?thesis
  proof (cases "?n = 0")
    case True
    then have "length (plan c) = 0 \<or> k = 0" using n cyc by auto
    then show ?thesis by auto
  next
    case False
    have "k * length (plan c) \<le> unat ?n" unfolding n using cyc by simp
    then have "k * length (plan c) * unat (fst (share c p s)) \<le> unat ?n * (unat L div unat ?n)"
      using False by (simp add: sh unat_div_distrib)
    also have "\<dots> \<le> unat L" by simp
    finally show ?thesis by (simp add: L_def)
  qed
qed

definition sample_peer :: link_peer where
  "sample_peer = \<lparr>lp_id = ''b'', lp_addresses = [''10.0.0.1'', ''10.0.0.2'', ''192.0.2.7''], lp_via = [], lp_preferred = [''10.0.0.2''],
     lp_throughput = True, lp_every = 0, lp_budget = 0, lp_iperf = False\<rparr>"

lemma cycles_share_budget_witness:
  "2 * length (plan sample_cfg) * unat (fst (share sample_cfg sample_peer (cap_start sample_cfg))) \<le> 60000000"
  using cycles_share_budget [of sample_cfg sample_peer "cap_start sample_cfg" 2] sample_valid(1)
  by (simp add: sample_peer_def budgetLimit_def pairLedger_def cap_start_def sample_eqs every_of_def Let_def)

subsection \<open>What a ramp reports\<close>

lemma tell_meter: "cs_meter (tell e s) = cs_meter s @ [e]"
  by (simp add: tell_def)

text \<open>
  What a rung is about: a flow the client really measured at the rate, the step made of it, and whether the rate was kept up,
  that is carried within the threshold of loss and offered by the sender to nine tenths at least.
\<close>

definition tried_flow :: "cap_cfg \<Rightarrow> cap_env \<Rightarrow> cap_test \<Rightarrow> u64 \<Rightarrow> iperf_flow \<Rightarrow> bool" where
  "tried_flow c e t rate f = (\<exists>a res. ce_once e a t [''-u'', ''-b'', show_u64 rate, ''-t'', secs (cc_step c)] = Inl res
     \<and> result_flow res (ct_dir t) = Some f)"

definition kept_up :: "cap_cfg \<Rightarrow> u64 \<Rightarrow> iperf_flow \<Rightarrow> bool" where
  "kept_up c rate f = (LossRatio f \<le> cc_loss c \<and> 9 / 10 * of_int (uint rate) \<le> offeredBits f)"

definition step_of :: "u64 \<times> iperf_flow \<Rightarrow> udp_step" where
  "step_of rf = \<lparr>us_rate = fst rf, us_loss = LossRatio (snd rf), us_jitter = if_jitter (snd rf)\<rparr>"

definition rung_step :: "cap_cfg \<Rightarrow> cap_env \<Rightarrow> cap_test \<Rightarrow> u64 \<Rightarrow> udp_step list \<Rightarrow> udp_step list \<Rightarrow> bool \<Rightarrow> bool \<Rightarrow> bool" where
  "rung_step c e t rate steps steps' ok sat = (\<exists>f. tried_flow c e t rate f \<and> steps' = steps @ [step_of (rate, f)]
     \<and> (ok \<longleftrightarrow> kept_up c rate f) \<and> (sat \<longleftrightarrow> LossRatio f > cc_loss c))"

lemma try_addresses_reason:
  "(\<And>a. once a \<noteq> Inr []) \<Longrightarrow> try_addresses once stopped as reason saw = Inr (r, b) \<Longrightarrow> r = [] \<Longrightarrow> reason = [] \<and> (as \<noteq> [] \<or> saw \<longrightarrow> b)"
proof (induction as arbitrary: reason saw)
  case (Cons a as)
  show ?case
  proof (cases "once a")
    case (Inr why)
    then have "why \<noteq> []" using Cons.prems(1) [of a] by auto
    then show ?thesis using Inr Cons.IH [OF Cons.prems(1)] Cons.prems(2,3) by (auto split: if_splits)
  qed (use Cons.prems(2) in simp)
qed simp

lemma invoke_fails: "(\<And>a x. ce_once e a t x \<noteq> Inr []) \<Longrightarrow> invoke c e p t extra s = (Inr out, s') \<Longrightarrow> out \<noteq> no_outcome"
proof -
  assume once: "\<And>a x. ce_once e a t x \<noteq> Inr []" and i: "invoke c e p t extra s = (Inr out, s')"
  let ?addrs = "orderAddresses (ce_class e) (ce_perm e) p (value_or [] (cs_good s (lp_id p))) 5"
  show ?thesis
  proof (cases "?addrs = [] \<or> \<not> authFor c (ce_keyFile e) p")
    case True
    then show ?thesis using i by (auto simp: invoke_def Let_def failed_def no_outcome_def split: if_splits)
  next
    case False
    then obtain r b where t: "try_addresses (\<lambda>a. ce_once e a t extra) (ce_stopped e) ?addrs [] False = Inr (r, b)"
      using i by (auto simp: invoke_def Let_def split: sum.splits)
    have "r = [] \<Longrightarrow> b" using try_addresses_reason [OF _ t] once False by auto
    then show ?thesis using i False t
      by (auto simp: invoke_def Let_def failed_def no_outcome_def skip_retry_def split: if_splits)
  qed
qed

lemma try_addresses_tried: "try_addresses once stopped as reason saw = Inl (a, res) \<Longrightarrow> once a = Inl res"
  by (induction as arbitrary: reason saw) (auto split: sum.splits if_splits)

lemma invoke_tried:
  assumes "invoke c e p t extra s = (Inl res, s')"
  shows "\<exists>a. ce_once e a t extra = Inl res"
  using assms by (auto simp: invoke_def Let_def dest: try_addresses_tried split: if_splits sum.splits)

lemma ramp_rung_cases:
  assumes "\<And>a x. ce_once e a t x \<noteq> Inr []"
  shows "case fst (ramp_rung c e p t rate steps s) of RungStop out \<Rightarrow> out \<noteq> no_outcome
    | RungLast steps' sat \<Rightarrow> rung_step c e t rate steps steps' False sat | RungClean steps' \<Rightarrow> rung_step c e t rate steps steps' True False"
proof -
  have stop: "skip_retry why d \<noteq> no_outcome" "failed why \<noteq> no_outcome" if "why \<noteq> []" for why d
    using that by (simp_all add: skip_retry_def failed_def no_outcome_def)
  let ?i = "length steps" and ?args = "[''-u'', ''-b'', show_u64 rate, ''-t'', secs (cc_step c)]"
  obtain ok s1 where a: "(if ?i > 0 then allows c p (ce_now e (2 * ?i)) (rate * u64_secs (cc_step c) div 8) s else (True, s)) = (ok, s1)"
    by fastforce
  obtain r s2 where i: "invoke c e p t ?args s1 = (r, s2)" by fastforce
  consider "?i > 0" "\<not> ce_slept e ?i" | "?i = 0 \<or> ce_slept e ?i" "\<not> ok" | out where "?i = 0 \<or> ce_slept e ?i" ok "r = Inr out"
    | res where "?i = 0 \<or> ce_slept e ?i" ok "r = Inl res"
    by (cases r) auto
  then show ?thesis
  proof cases
    case 1
    then show ?thesis by (simp add: ramp_rung_def Let_def stop)
  next
    case 2
    then show ?thesis using a by (auto simp: ramp_rung_def Let_def stop)
  next
    case 3
    then show ?thesis using a i invoke_fails [OF assms] by (auto simp: ramp_rung_def Let_def)
  next
    case 4
    note rung = ramp_rung_def [of c e p t rate steps s, unfolded Let_def a]
    show ?thesis
    proof (cases "result_flow res (ct_dir t)")
      case None
      then show ?thesis using 4 i stop(2) by (auto simp: rung)
    next
      case (Some f)
      have f: "tried_flow c e t rate f" using invoke_tried [of c e p t ?args s1 res s2] i 4 Some by (auto simp: tried_flow_def)
      have "fst (ramp_rung c e p t rate steps s) = (if LossRatio f > cc_loss c then RungLast (steps @ [step_of (rate, f)]) True
          else if offeredBits f < 9 / 10 * of_int (uint rate) then RungLast (steps @ [step_of (rate, f)]) False
          else RungClean (steps @ [step_of (rate, f)]))"
        using 4 i Some by (auto simp: rung step_of_def)
      then show ?thesis using f by (auto simp: rung_step_def kept_up_def)
    qed
  qed
qed

text \<open>What the report of a ramp says of its steps.\<close>

definition ramp_reading :: "cap_cfg \<Rightarrow> cap_env \<Rightarrow> cap_test \<Rightarrow> u64 list \<Rightarrow> (u64 \<times> iperf_flow) list
    \<Rightarrow> udp_step list \<Rightarrow> u64 \<Rightarrow> bool \<Rightarrow> bool \<Rightarrow> bool" where
  "ramp_reading c e t rates tried steps clean has sat = (
     steps = map step_of tried \<and> map fst tried = take (length tried) rates \<and> (\<forall>(r, f) \<in> set tried. tried_flow c e t r f)
     \<and> (\<exists>n. (has \<longleftrightarrow> 0 < n) \<and> (has \<longrightarrow> clean = rates ! (n - 1)) \<and> (\<forall>(r, f) \<in> set (take n tried). kept_up c r f)
          \<and> (if n = length tried then n = length rates \<and> \<not> sat
             else length tried = n + 1 \<and> (case last tried of (r, f) \<Rightarrow> \<not> kept_up c r f \<and> (sat \<longleftrightarrow> LossRatio f > cc_loss c)))))"

text \<open>A test that comes to no outcome of its own has told the meter its reading last.\<close>

definition ramp_reports :: "cap_cfg \<Rightarrow> cap_env \<Rightarrow> link_peer \<Rightarrow> cap_test \<Rightarrow> u64 list \<Rightarrow> outcome \<Rightarrow> cap_state \<Rightarrow> bool" where
  "ramp_reports c e p t rates out s = (out = no_outcome \<longrightarrow>
     (\<exists>tried steps clean has sat. cs_meter s \<noteq> [] \<and> last (cs_meter s) = ObserveUDPRamp (lp_id p) (ct_dir t) (ct_dscp t) steps clean has sat
        \<and> ramp_reading c e t rates tried steps clean has sat))"

lemma ramp_reports_tell:
  "ramp_reading c e t rates tried steps clean has sat
     \<Longrightarrow> ramp_reports c e p t rates no_outcome (tell (ObserveUDPRamp (lp_id p) (ct_dir t) (ct_dscp t) steps clean has sat) s)"
  unfolding ramp_reports_def tell_meter by (intro impI exI conjI) (assumption | simp)+

text \<open>The rungs behind the one at hand: all measured, all kept up.\<close>

definition rungs_ok :: "cap_cfg \<Rightarrow> cap_env \<Rightarrow> cap_test \<Rightarrow> (u64 \<times> iperf_flow) list \<Rightarrow> bool" where
  "rungs_ok c e t tried = (\<forall>(r, f) \<in> set tried. tried_flow c e t r f \<and> kept_up c r f)"

lemma reading_last:
  assumes "rates = map fst tried @ r # rest" "rungs_ok c e t tried" "tried_flow c e t r f"
    "has \<longleftrightarrow> tried \<noteq> []" "has \<Longrightarrow> clean = fst (last tried)" "\<not> kept_up c r f" "sat \<longleftrightarrow> LossRatio f > cc_loss c"
  shows "ramp_reading c e t rates (tried @ [(r, f)]) (map step_of tried @ [step_of (r, f)]) clean has sat"
proof -
  have "has \<Longrightarrow> clean = rates ! (length tried - 1)" using assms(1,4,5) by (simp add: nth_append last_conv_nth)
  then show ?thesis using assms by (auto simp: ramp_reading_def rungs_ok_def intro!: exI [of _ "length tried"])
qed

lemma reading_whole:
  assumes "rates = map fst tried @ [r]" "rungs_ok c e t tried" "tried_flow c e t r f" "kept_up c r f"
  shows "ramp_reading c e t rates (tried @ [(r, f)]) (map step_of tried @ [step_of (r, f)]) r True False"
  using assms by (auto simp: ramp_reading_def rungs_ok_def nth_append intro!: exI [of _ "length tried + 1"])

lemma ramp_loop_reads:
  assumes once: "\<And>a x. ce_once e a t x \<noteq> Inr []"
    and "0 < unat r" "unat r \<le> unat k" "2 * unat k < 2 ^ 64"
    and tried: "map fst tried @ map of_nat (ladder (unat r) (unat k)) = rates" "rungs_ok c e t tried"
      "has \<longleftrightarrow> tried \<noteq> []" "has \<Longrightarrow> clean = fst (last tried)"
  shows "\<exists>out s'. ramp_loop c e p t k r (map step_of tried) clean has s = Some (out, s')
    \<and> ramp_reports c e p t rates out s'"
  using assms(2-)
proof (induction "unat r" "unat k" arbitrary: r tried clean has s rule: ladder.induct)
  case 1
  let ?steps = "map step_of tried"
  obtain g s1 where g: "ramp_rung c e p t r ?steps s = (g, s1)" by fastforce
  note cs = ramp_rung_cases [OF once, where c = c and p = p and rate = r and steps = ?steps and s = s, unfolded g, simplified]
  have rates: "rates = map fst tried @ r # tl (map of_nat (ladder (unat r) (unat k)))"
    using 1(5) by (auto simp: ladder.simps [of "unat r"] unat_eq_0)
  show ?case
  proof (cases g)
    case (RungStop out)
    then show ?thesis using g cs by (simp add: ramp_loop.simps [of c e p t k r] ramp_reports_def)
  next
    case (RungLast steps' sat)
    then obtain f where f: "steps' = ?steps @ [step_of (r, f)]" "tried_flow c e t r f" "\<not> kept_up c r f" "sat \<longleftrightarrow> LossRatio f > cc_loss c"
      using cs by (auto simp: rung_step_def)
    have "ramp_reading c e t rates (tried @ [(r, f)]) steps' clean has sat"
      unfolding f(1) by (rule reading_last [OF rates 1(6) f(2) 1(7,8) f(3,4)])
    then show ?thesis using g RungLast ramp_reports_tell by (simp add: ramp_loop.simps [of c e p t k r])
  next
    case (RungClean steps')
    then obtain f where f: "steps' = ?steps @ [step_of (r, f)]" "tried_flow c e t r f" "kept_up c r f"
      using cs by (auto simp: rung_step_def)
    show ?thesis
    proof (cases "unat r = unat k")
      case True
      then have "rates = map fst tried @ [r]" using 1(5) by (auto simp: ladder_top word_unat_eq_iff)
      from reading_whole [OF this 1(6) f(2,3)] have "ramp_reading c e t rates (tried @ [(r, f)]) steps' r True False" by (simp add: f(1))
      moreover have "ramp_loop c e p t k r ?steps clean has s =
         Some (no_outcome, tell (ObserveUDPRamp (lp_id p) (ct_dir t) (ct_dscp t) steps' r True False) s1)"
        using True by (simp add: ramp_loop.simps [of c e p t k r] g RungClean word_le_nat_alt)
      ultimately show ?thesis using ramp_reports_tell by blast
    next
      case False
      have dbl: "unat (min (r * 2) k) = min (2 * unat r) (unat k)" using 1 by (simp add: unat_min unat_word_ariths mult.commute)
      have lad: "ladder (unat r) (unat k) = unat r # ladder (unat (min (r * 2) k)) (unat k)"
        using False 1(2,3) by (simp add: ladder_step dbl)
      have steps': "steps' = map step_of (tried @ [(r, f)])" using f(1) by simp
      have "\<exists>out s'. ramp_loop c e p t k (min (r * 2) k) (map step_of (tried @ [(r, f)])) r True s1 = Some (out, s')
        \<and> ramp_reports c e p t rates out s'"
        using False 1(2-6) f(2,3) lad by (intro 1(1)) (auto simp: dbl rungs_ok_def)
      then show ?thesis using g RungClean False 1(3) by (simp add: ramp_loop.simps [of c e p t k r] word_le_nat_alt steps')
    qed
  qed
qed

lemma runRamp_reports:
  assumes "Validate c = None" "cc_udp c" "peak = 0 \<or> cc_start c \<le> peak \<and> peak \<le> cc_max c" "\<And>a x. ce_once e a t x \<noteq> Inr []"
  shows "\<exists>out s'. runRamp c e p t peak s = Some (out, s')
    \<and> ramp_reports c e p t (map of_nat (ladder (unat (cc_start c)) (unat (if peak = 0 then cc_max c else peak)))) out s'"
proof -
  note v = Validate_udp [OF assms(1,2)]
  let ?k = "if peak = 0 then cc_max c else peak"
  have "unat (cc_start c) \<le> unat ?k" "unat ?k \<le> 400000000000" using assms(3) v by (auto simp: word_le_nat_alt)
  then have "\<exists>out s'. ramp_loop c e p t ?k (cc_start c) (map step_of []) 0 False s = Some (out, s')
    \<and> ramp_reports c e p t (map of_nat (ladder (unat (cc_start c)) (unat ?k))) out s'"
    using v(1) by (intro ramp_loop_reads [OF assms(4)]) (simp_all add: rungs_ok_def)
  then show ?thesis unfolding runRamp_def by simp
qed

text \<open>
  C26. A ramp with valid settings always comes to an end, and one that is not held back or failed tells the meter last what it
  read. The rates tried are the start, doubling up to the top, without gaps, each with a flow the client really measured at it, whose
  loss and jitter are the step's. The clean rate is the last one tried that was kept up - no more lost than the threshold, and nine
  tenths of the rate at least really offered by the sender - with every rate before it kept up too, and the rate after it, if the
  ramp did not reach the top, was not. The link counts as saturated exactly when that last rate lost more than the threshold.
\<close>

theorem ramp_reads_link:
  assumes "Validate c = None" "cc_udp c" "peak = 0 \<or> cc_start c \<le> peak \<and> peak \<le> cc_max c" "\<And>a x. ce_once e a t x \<noteq> Inr []"
  shows "\<exists>out s'. runRamp c e p t peak s = Some (out, s') \<and> (out = no_outcome \<longrightarrow>
     (\<exists>tried steps clean has sat. cs_meter s' \<noteq> [] \<and> last (cs_meter s') = ObserveUDPRamp (lp_id p) (ct_dir t) (ct_dscp t) steps clean has sat
        \<and> ramp_reading c e t (map of_nat (ladder (unat (cc_start c)) (unat (if peak = 0 then cc_max c else peak)))) tried steps clean has sat))"
  using runRamp_reports [OF assms] by (simp add: ramp_reports_def)

text \<open>A client that reaches the peer, loses nothing up to 2 Mbit/s, and half of the datagrams above.\<close>

definition lossy_once :: "string \<Rightarrow> cap_test \<Rightarrow> string list \<Rightarrow> iperf_result + string" where
  "lossy_once a t args = Inl \<lparr>ir_streams = 1, ir_flows = [\<lparr>if_dir = Forward,
     if_bits = (if args ! 2 = ''4000000'' then 2000000 else 4000000), if_bytes = 1000, if_packets = 10,
     if_lost = (if args ! 2 = ''4000000'' then 5 else 0), if_jitter = 0\<rparr>]\<rparr>"

definition lossy_env :: cap_env where
  "lossy_env = \<lparr>ce_now = (\<lambda>_. 0), ce_end = 0, ce_class = (\<lambda>_. ''private''), ce_perm = id, ce_rand = 0, ce_jitter = 0, ce_spread = (\<lambda>_ _. 0),
     ce_keyFile = True, ce_stopped = (\<lambda>_. False), ce_slept = (\<lambda>_. True), ce_cancelled = False, ce_once = lossy_once\<rparr>"

abbreviation forward_ramp :: cap_test where "forward_ramp \<equiv> \<lparr>ct_kind = KRamp, ct_dir = Forward, ct_dscp = 0\<rparr>"

lemma lossy_never_silent: "ce_once lossy_env a t x \<noteq> Inr []"
  by (simp add: lossy_env_def lossy_once_def)

lemma sample_fields: "cc_loss sample_cfg = 1 / 100" "cc_start sample_cfg = 1000000" "cc_max sample_cfg = 4000000"
  by (simp_all add: sample_eqs)

lemma lossy_addresses: "orderAddresses cls id sample_peer latest 5 \<noteq> []"
  by (simp add: orderAddresses_def rankAddresses_def usableAddresses_def sample_peer_def Let_def split: prod.splits)

lemma lossy_invoke:
  "\<exists>s'. invoke sample_cfg lossy_env sample_peer t args s = (Inl (case lossy_once [] t args of Inl r \<Rightarrow> r), s')"
proof -
  have "try_addresses (\<lambda>a. lossy_once a t args) stopped (a # as) [] False = Inl (a, case lossy_once [] t args of Inl r \<Rightarrow> r)" for stopped a as
    by (simp add: lossy_once_def)
  moreover obtain a as where "orderAddresses (\<lambda>_. ''private'') id sample_peer (value_or [] (cs_good s ''b'')) 5 = a # as"
    using lossy_addresses by (metis list.exhaust)
  ultimately show ?thesis
    by (simp add: invoke_def lossy_env_def lossy_once_def Let_def authFor_def sample_eqs sample_peer_def)
qed

lemma lossy_first_rung:
  "\<exists>s'. runRamp sample_cfg lossy_env sample_peer forward_ramp 1000000 s = Some (no_outcome, s')
     \<and> last (cs_meter s') = ObserveUDPRamp ''b'' Forward 0 [\<lparr>us_rate = 1000000, us_loss = 0, us_jitter = 0\<rparr>] 1000000 True False"
proof -
  let ?args = "[''-u'', ''-b'', show_u64 1000000, ''-t'', secs (cc_step sample_cfg)]"
  have shown: "show_u64 1000000 \<noteq> ''4000000''" by (simp add: show_u64_def show_nat.simps char_of_eq_iff)
  obtain s1 where i: "invoke sample_cfg lossy_env sample_peer forward_ramp ?args s = (Inl (case lossy_once [] forward_ramp ?args of Inl r \<Rightarrow> r), s1)"
    using lossy_invoke by blast
  have r: "\<exists>s2. ramp_rung sample_cfg lossy_env sample_peer forward_ramp 1000000 [] s = (RungClean [\<lparr>us_rate = 1000000, us_loss = 0, us_jitter = 0\<rparr>], s2)"
    using shown by (simp add: ramp_rung_def i lossy_once_def result_flow_def LossRatio_def offeredBits_def Let_def sample_fields)
  then show ?thesis by (auto simp: runRamp_def ramp_loop.simps [of _ _ _ _ _ 1000000] sample_fields tell_meter sample_peer_def)
qed

lemma ramp_reads_link_witness:
  "\<exists>out s'. runRamp sample_cfg lossy_env sample_peer forward_ramp 1000000 (cap_start sample_cfg) = Some (out, s') \<and> out = no_outcome
     \<and> (\<exists>tried steps. last (cs_meter s') = ObserveUDPRamp ''b'' Forward 0 steps 1000000 True False
         \<and> ramp_reading sample_cfg lossy_env forward_ramp [1000000] tried steps 1000000 True False)"
proof -
  obtain s' where r: "runRamp sample_cfg lossy_env sample_peer forward_ramp 1000000 (cap_start sample_cfg) = Some (no_outcome, s')"
    "last (cs_meter s') = ObserveUDPRamp ''b'' Forward 0 [\<lparr>us_rate = 1000000, us_loss = 0, us_jitter = 0\<rparr>] 1000000 True False"
    using lossy_first_rung by blast
  have "1000000 = (0 :: u64) \<or> cc_start sample_cfg \<le> 1000000 \<and> 1000000 \<le> cc_max sample_cfg" by (simp add: sample_eqs)
  from ramp_reads_link [OF sample_valid this, of lossy_env forward_ramp sample_peer "cap_start sample_cfg"] lossy_never_silent r
  show ?thesis by (auto simp: sample_fields ladder_top)
qed

subsection \<open>Which addresses are tried\<close>

definition preferred_usable :: "(string \<Rightarrow> string) \<Rightarrow> link_peer \<Rightarrow> string list" where
  "preferred_usable cls p = fst (rankAddresses cls p [])"

lemma fold_preferred:
  "fold (\<lambda>a pre. if a \<in> pool \<and> a \<notin> set pre then pre @ [a] else pre) as pre = pre @ ys
     \<Longrightarrow> distinct pre \<Longrightarrow> set ys = set as \<inter> pool - set pre \<and> distinct (pre @ ys)"
proof (induction as arbitrary: pre ys)
  case (Cons a as)
  show ?case
  proof (cases "a \<in> pool \<and> a \<notin> set pre")
    case True
    define f where "f = (\<lambda>a pre. if a \<in> pool \<and> a \<notin> set pre then pre @ [a] else pre)"
    have "\<exists>zs. fold f bs q = q @ zs" for bs q
    proof (induction bs arbitrary: q)
      case (Cons b bs)
      have "\<exists>w. f b q = q @ w" by (simp add: f_def)
      moreover obtain zs where "fold f bs (f b q) = f b q @ zs" using Cons by blast
      ultimately show ?case by auto
    qed simp
    then obtain zs where zs: "fold f as (pre @ [a]) = (pre @ [a]) @ zs" by blast
    then have "ys = a # zs" using Cons.prems(1) True by (simp add: f_def)
    moreover have "set zs = set as \<inter> pool - set (pre @ [a]) \<and> distinct ((pre @ [a]) @ zs)"
      using Cons.IH [OF zs [unfolded f_def]] True Cons.prems(2) by (simp, blast)
    ultimately show ?thesis using True by auto
  next
    case False
    then show ?thesis using Cons by auto
  qed
qed simp

lemma fold_others:
  "fold (\<lambda>a (ans, rest). if a \<in> set pre then (ans, rest) else if a = l then (a, rest) else (ans, rest @ [a])) pool (ans, rest)
     = (if l \<in> set pool \<and> l \<notin> set pre then l else ans, rest @ filter (\<lambda>a. a \<notin> set pre \<and> a \<noteq> l) pool)"
  by (induction pool arbitrary: ans rest) auto

lemma rank_eq:
  "\<exists>pre. rankAddresses cls p l = (pre, if l \<in> set (usableAddresses cls p) \<and> l \<notin> set pre then l else [],
       filter (\<lambda>a. a \<notin> set pre \<and> a \<noteq> l) (usableAddresses cls p))
     \<and> pre = preferred_usable cls p \<and> set pre = set (lp_preferred p) \<inter> set (usableAddresses cls p) \<and> distinct pre"
proof -
  let ?pool = "usableAddresses cls p"
  let ?pre = "fold (\<lambda>a pre. if a \<in> set ?pool \<and> a \<notin> set pre then pre @ [a] else pre) (lp_preferred p) []"
  have "set ?pre = set (lp_preferred p) \<inter> set ?pool \<and> distinct ?pre"
    using fold_preferred [of "set ?pool" "lp_preferred p" "[]" ?pre] by simp
  then show ?thesis by (simp add: rankAddresses_def preferred_usable_def Let_def fold_others)
qed

text \<open>
  The addresses tried towards a peer are addresses of it, of the kind it is pinned to if it is pinned; they are the
  preferred usable ones first, in order and without repeats, then the one that answered last (if it is usable and not among them),
  then others; without the one that answered last they are at most the maximum; none is tried twice if the peer lists none
  twice; and there is none to try only if none is usable.
\<close>

theorem addresses_in_order:
  assumes "\<And>as. mset (perm as) = mset as" "0 < mx" "[] \<notin> set (lp_addresses p)"
  shows "set (orderAddresses cls perm p l mx) \<subseteq> set (lp_addresses p)
    \<and> (lp_via p \<noteq> [] \<longrightarrow> (\<forall>a \<in> set (orderAddresses cls perm p l mx). cls a = lp_via p))
    \<and> (\<exists>rest. orderAddresses cls perm p l mx = take mx (preferred_usable cls p)
          @ (if l \<in> set (usableAddresses cls p) \<and> l \<notin> set (lp_preferred p) then [l] else []) @ rest
        \<and> length (take mx (preferred_usable cls p) @ rest) \<le> mx
        \<and> set rest \<subseteq> set (usableAddresses cls p) - set (preferred_usable cls p) - {l})
    \<and> (distinct (lp_addresses p) \<longrightarrow> distinct (orderAddresses cls perm p l mx))
    \<and> (orderAddresses cls perm p l mx = [] \<longleftrightarrow> usableAddresses cls p = [])"
proof -
  let ?pool = "usableAddresses cls p" and ?pre = "preferred_usable cls p"
  let ?others = "filter (\<lambda>a. a \<notin> set ?pre \<and> a \<noteq> l) ?pool"
  have pool: "set ?pool \<subseteq> set (lp_addresses p)" "lp_via p \<noteq> [] \<Longrightarrow> \<forall>a \<in> set ?pool. cls a = lp_via p" "distinct (lp_addresses p) \<Longrightarrow> distinct ?pool"
    by (auto simp: usableAddresses_def)
  have r: "rankAddresses cls p l = (?pre, if l \<in> set ?pool \<and> l \<notin> set ?pre then l else [], ?others)"
    "set ?pre = set (lp_preferred p) \<inter> set ?pool" "distinct ?pre"
    using rank_eq [of cls p l] by auto
  have perm: "set (perm as) = set as" "length (perm as) = length as" "distinct (perm as) \<longleftrightarrow> distinct as" for as
    using assms(1) [of as] by (metis mset_eq_setD, metis mset_eq_length, metis mset_eq_imp_distinct_iff)
  define rest where "rest = take (mx - length (take mx ?pre)) (perm ?others)"
  have ans: "l \<in> set ?pool \<Longrightarrow> l \<noteq> []" using assms(3) pool(1) by auto
  have o: "orderAddresses cls perm p l mx = take mx ?pre @ (if l \<in> set ?pool \<and> l \<notin> set ?pre then [l] else []) @ rest"
    using ans by (auto simp: orderAddresses_def r(1) rest_def Let_def min_def)
  have rest: "set rest \<subseteq> set ?others" using set_take_subset [of _ "perm ?others"] by (auto simp: rest_def perm)
  have sub: "set (orderAddresses cls perm p l mx) \<subseteq> set ?pool"
    using rest r(2) set_take_subset [of mx ?pre] by (auto simp: o)
  have dis: "distinct ?pool \<Longrightarrow> distinct (orderAddresses cls perm p l mx)"
    using rest r(3) set_take_subset [of mx ?pre] unfolding o rest_def by (auto simp: perm)
  have emp: "orderAddresses cls perm p l mx = [] \<longleftrightarrow> ?pool = []"
  proof
    assume none: "orderAddresses cls perm p l mx = []"
    then have pre: "?pre = []" "\<not> l \<in> set ?pool" "rest = []" using assms(2) by (auto simp: o split: if_splits)
    then have "perm ?others = []" using assms(2) by (simp add: rest_def)
    then have "?others = []" using perm(2) [of ?others] by simp
    then show "?pool = []" using pre by (cases ?pool) auto
  next
    assume "?pool = []"
    then show "orderAddresses cls perm p l mx = []" using sub by simp
  qed
  have "length (take mx ?pre @ rest) \<le> mx" by (simp add: rest_def)
  moreover have "set rest \<subseteq> set ?pool - set ?pre - {l}" using rest by auto
  moreover have "(l \<in> set ?pool \<and> l \<notin> set ?pre) = (l \<in> set ?pool \<and> l \<notin> set (lp_preferred p))" using r(2) by blast
  note o [unfolded this]
  ultimately have parts: "\<exists>rest. orderAddresses cls perm p l mx = take mx ?pre
      @ (if l \<in> set ?pool \<and> l \<notin> set (lp_preferred p) then [l] else []) @ rest
      \<and> length (take mx ?pre @ rest) \<le> mx \<and> set rest \<subseteq> set ?pool - set ?pre - {l}"
    by (intro exI [of _ rest] conjI)
  have "set (orderAddresses cls perm p l mx) \<subseteq> set (lp_addresses p)" using sub pool(1) by (rule order_trans)
  moreover have "lp_via p \<noteq> [] \<longrightarrow> (\<forall>a \<in> set (orderAddresses cls perm p l mx). cls a = lp_via p)"
    using sub pool(2) by auto
  moreover have "distinct (lp_addresses p) \<longrightarrow> distinct (orderAddresses cls perm p l mx)" using pool(3) dis by simp
  ultimately show ?thesis using parts emp by (intro conjI)
qed

lemma addresses_in_order_witness:
  "set (orderAddresses (\<lambda>_. ''private'') rev sample_peer ''192.0.2.7'' 1) \<subseteq> set (lp_addresses sample_peer)
   \<and> orderAddresses (\<lambda>_. ''private'') rev sample_peer ''192.0.2.7'' 1 = [''10.0.0.2'', ''192.0.2.7'']"
proof
  show "set (orderAddresses (\<lambda>_. ''private'') rev sample_peer ''192.0.2.7'' 1) \<subseteq> set (lp_addresses sample_peer)"
    using addresses_in_order [of rev 1 sample_peer "\<lambda>_. ''private''" "''192.0.2.7''"] by (simp add: sample_peer_def)
  show "orderAddresses (\<lambda>_. ''private'') rev sample_peer ''192.0.2.7'' 1 = [''10.0.0.2'', ''192.0.2.7'']" by code_simp
qed

subsection \<open>The byte budgets of the cluster and of a pair\<close>

lemma ledger_pairLedger: "cs_ledger (snd (pairLedger c p s)) = cs_ledger s"
  by (simp add: pairLedger_def Let_def)

lemma ledger_allows:
  "cs_ledger (snd (allows c p t n s)) = snd (Allows t n (cs_ledger s))" "fst (allows c p t n s) \<Longrightarrow> fst (Allows t n (cs_ledger s))"
  by (auto simp: allows_def pairLedger_def Let_def split: prod.splits if_splits)

lemma ledger_charge: "cs_ledger (charge c p t n s) = Charge t n (cs_ledger s)"
  by (simp add: charge_def pairLedger_def Let_def)

interpretation cluster: byte_budget W "unat L" "\<lambda>_ :: link_peer. True" "\<lambda>_. True"
  "\<lambda>t s. ledger_ok W L t (cs_ledger s)" "\<lambda>t s. ledger_used t (cs_ledger s)" "allows c" "charge c" for W L c
proof unfold_locales
  fix t t' u :: time and s :: cap_state and n :: u64 and p :: link_peer
  assume ok: "ledger_ok W L t (cs_ledger s)"
  show "t \<le> t' \<Longrightarrow> ledger_ok W L t' (cs_ledger s)" using ledger.ok_later [OF ok] by simp
  show "ledger_ok W L t (cs_ledger (charge c p t n s))" using ledger.ok_charge [OF _ ok] by (simp add: ledger_charge)
  show "t \<le> u \<Longrightarrow> ledger_used u (cs_ledger (charge c p t n s)) = ledger_used u (cs_ledger s) + (if True \<and> u - W < t then unat n else 0)"
    using ledger.used_charge [OF _ ok] by (simp add: ledger_charge)
  show "ledger_ok W L t (cs_ledger (snd (allows c p t n s)))" using ledger.ok_ask [OF _ ok] by (simp add: ledger_allows)
  show "t \<le> u \<Longrightarrow> ledger_used u (cs_ledger (snd (allows c p t n s))) = ledger_used u (cs_ledger s)"
    using ledger.used_ask [OF _ ok] by (simp add: ledger_allows)
  show "ledger_used t (cs_ledger s) \<le> unat L \<Longrightarrow> unat L + unat n < 2 ^ 64 \<Longrightarrow> unat L \<noteq> 0 \<Longrightarrow> fst (allows c p t n s)
      \<Longrightarrow> ledger_used t (cs_ledger s) + unat n \<le> unat L"
    using ledger.ask_fits [OF _ _ ok] ledger_allows(2) by blast
qed

text \<open>The budget of the pair with the peer \<open>k\<close>, whose limit the server set to \<open>B\<close>.\<close>

definition pair_of :: "cap_cfg \<Rightarrow> string \<Rightarrow> u64 \<Rightarrow> cap_state \<Rightarrow> ledger" where
  "pair_of c k B s = (case cs_pairs s k of
     None \<Rightarrow> \<lparr>lg_window = cc_budgetWindow c, lg_limit = B, lg_entries = []\<rparr> | Some l \<Rightarrow> l\<lparr>lg_limit := B\<rparr>)"

definition pair_valid :: "string \<Rightarrow> u64 \<Rightarrow> link_peer \<Rightarrow> bool" where
  "pair_valid k B p = (B \<noteq> 0 \<and> (lp_id p = k \<longrightarrow> lp_budget p = B))"

lemma keep_limit:
  "lg_limit l = B \<Longrightarrow> (snd (Allows t n l))\<lparr>lg_limit := B\<rparr> = snd (Allows t n l)" "lg_limit l = B \<Longrightarrow> (Charge t n l)\<lparr>lg_limit := B\<rparr> = Charge t n l"
  by (auto simp: Allows_def Used_def Charge_def trim_def Let_def)

lemma pairLedger_of:
  "pair_valid k B p \<Longrightarrow> lp_id p = k \<Longrightarrow> pairLedger c p s = (Some (pair_of c k B s), s\<lparr>cs_pairs := (cs_pairs s)(k \<mapsto> pair_of c k B s)\<rparr>)"
  by (auto simp: pairLedger_def pair_of_def pair_valid_def Let_def split: option.splits)

lemma pair_limit: "lg_limit (pair_of c k B s) = B"
  by (simp add: pair_of_def split: option.splits)

lemma pair_charge:
  assumes "pair_valid k B p"
  shows "pair_of c k B (charge c p t n s) = (if lp_id p = k then Charge t n (pair_of c k B s) else pair_of c k B s)"
proof (cases "lp_id p = k")
  case True
  have "pair_of c k B (s\<lparr>cs_ledger := l\<rparr>) = pair_of c k B s" for l by (simp add: pair_of_def)
  then show ?thesis using True keep_limit(2) [OF pair_limit]
    by (simp add: charge_def Let_def pairLedger_of [OF assms True]) (simp add: pair_of_def)
next
  case False
  then show ?thesis by (simp add: charge_def pairLedger_def pair_of_def Let_def)
qed

lemma pairs_allows_other: "lp_id p \<noteq> k \<Longrightarrow> cs_pairs (snd (allows c p t n s)) k = cs_pairs s k"
  by (auto simp: allows_def pairLedger_def Let_def split: prod.splits if_splits)

lemma pair_allows:
  assumes "pair_valid k B p"
  shows "pair_of c k B (snd (allows c p t n s)) = (if lp_id p = k \<and> fst (Allows t n (cs_ledger s)) then snd (Allows t n (pair_of c k B s)) else pair_of c k B s)
    \<and> (lp_id p = k \<longrightarrow> fst (allows c p t n s) \<longrightarrow> fst (Allows t n (pair_of c k B s)))"
proof -
  obtain ok l where a: "Allows t n (cs_ledger s) = (ok, l)" by fastforce
  have same: "pair_of c k B (s\<lparr>cs_ledger := l\<rparr>) = pair_of c k B s" by (simp add: pair_of_def)
  show ?thesis
  proof (cases "lp_id p = k")
    case True
    obtain ok' l' where a': "Allows t n (pair_of c k B s) = (ok', l')" by fastforce
    have "l'\<lparr>lg_limit := B\<rparr> = l'" using keep_limit(1) [OF pair_limit [of c k B s], of t n] by (simp add: a')
    then show ?thesis using True same
      by (cases ok) (simp_all add: allows_def a a' Let_def pairLedger_of [OF assms True], simp add: pair_of_def)
  next
    case False
    then show ?thesis using pairs_allows_other [of p k c t n s] by (simp add: pair_of_def)
  qed
qed

interpretation pair: byte_budget "cc_budgetWindow c" "unat B" "pair_valid k B" "\<lambda>p. lp_id p = k"
  "\<lambda>t s. ledger_ok (cc_budgetWindow c) B t (pair_of c k B s)" "\<lambda>t s. ledger_used t (pair_of c k B s)" "allows c" "charge c" for c B k
proof unfold_locales
  fix t t' u :: time and s :: cap_state and n :: u64 and p :: link_peer
  let ?W = "cc_budgetWindow c"
  assume ok: "ledger_ok ?W B t (pair_of c k B s)"
  show "t \<le> t' \<Longrightarrow> ledger_ok ?W B t' (pair_of c k B s)" using ledger.ok_later [OF ok] by simp
  assume v: "pair_valid k B p"
  show "ledger_ok ?W B t (pair_of c k B (charge c p t n s))" using ok ledger.ok_charge [OF _ ok] by (simp add: pair_charge [OF v])
  show "t \<le> u \<Longrightarrow> ledger_used u (pair_of c k B (charge c p t n s)) = ledger_used u (pair_of c k B s) + (if lp_id p = k \<and> u - ?W < t then unat n else 0)"
    using ledger.used_charge [OF _ ok] by (simp add: pair_charge [OF v])
  show "ledger_ok ?W B t (pair_of c k B (snd (allows c p t n s)))" using ok ledger.ok_ask [OF _ ok] by (simp add: pair_allows [OF v])
  show "t \<le> u \<Longrightarrow> ledger_used u (pair_of c k B (snd (allows c p t n s))) = ledger_used u (pair_of c k B s)"
    using ledger.used_ask [OF _ ok] by (simp add: pair_allows [OF v])
  show "lp_id p = k \<Longrightarrow> ledger_used t (pair_of c k B s) \<le> unat B \<Longrightarrow> unat B + unat n < 2 ^ 64 \<Longrightarrow> unat B \<noteq> 0 \<Longrightarrow> fst (allows c p t n s)
      \<Longrightarrow> ledger_used t (pair_of c k B s) + unat n \<le> unat B"
    using ledger.ask_fits [OF _ _ ok] pair_allows [OF v, of c t n s] by blast
qed

text \<open>Tests one after the other, each for a peer, and the bytes they carried under the peer's id.\<close>

definition run_charged :: "cap_cfg \<Rightarrow> link_peer \<times> time \<times> u64 \<times> time \<times> u64
    \<Rightarrow> (string \<times> time \<times> u64) list \<times> cap_state \<Rightarrow> (string \<times> time \<times> u64) list \<times> cap_state" where
  "run_charged c e x = (case e of (p, t0, est, t1, n) \<Rightarrow> (case x of (h, s) \<Rightarrow> (case allows c p t0 est s of
     (True, s') \<Rightarrow> (h @ [(lp_id p, t1, n)], charge c p t1 n s') | (False, s') \<Rightarrow> (h, s'))))"

fun one_by_one :: "time \<Rightarrow> (link_peer \<times> time \<times> u64 \<times> time \<times> u64) list \<Rightarrow> bool" where
  "one_by_one now [] = True"
| "one_by_one now ((p, t0, est, t1, n) # es) = (now \<le> t0 \<and> t0 \<le> t1 \<and> n \<le> est \<and> unat est < 2 ^ 63 \<and> one_by_one t1 es)"

lemma cluster_log:
  "fold (cluster.test_step c) es (map snd h, s) = map_prod (map snd) id (fold (run_charged c) es (h, s))"
proof (induction es arbitrary: h s)
  case (Cons e es)
  obtain p t0 est t1 n where e: "e = (p, t0, est, t1, n)" by (cases e) auto
  obtain ok s' where a: "allows c p t0 est s = (ok, s')" by fastforce
  show ?case using Cons.IH [of "h @ [(lp_id p, t1, n)]" "charge c p t1 n s'"] Cons.IH [of h s']
    by (cases ok) (simp_all add: e a cluster.test_step_def run_charged_def)
qed simp

lemma pair_log:
  "fold (pair.test_step k c) es (map snd (filter (\<lambda>x. fst x = k) h), s)
     = map_prod (\<lambda>h. map snd (filter (\<lambda>x. fst x = k) h)) id (fold (run_charged c) es (h, s))"
proof (induction es arbitrary: h s)
  case (Cons e es)
  obtain p t0 est t1 n where e: "e = (p, t0, est, t1, n)" by (cases e) auto
  obtain ok s' where a: "allows c p t0 est s = (ok, s')" by fastforce
  have l: "pair.test_step k c e (h', s) = (if ok then (if lp_id p = k then h' @ [(t1, n)] else h', charge c p t1 n s') else (h', s'))" for h'
    by (simp add: e a pair.test_step_def split: bool.splits)
  have r: "run_charged c e (h, s) = (if ok then (h @ [(lp_id p, t1, n)], charge c p t1 n s') else (h, s'))"
    by (simp add: e a run_charged_def split: bool.splits)
  show ?case using Cons.IH [of "h @ [(lp_id p, t1, n)]" "charge c p t1 n s'"] Cons.IH [of h s']
    by (cases ok; cases "lp_id p = k") (simp_all add: l r)
qed simp

lemma cluster_order: "one_by_one now es \<Longrightarrow> unat L < 2 ^ 63 \<Longrightarrow> cluster.in_order L now es"
  by (induction now es rule: one_by_one.induct) auto

lemma pair_order:
  "one_by_one now es \<Longrightarrow> unat B < 2 ^ 63 \<Longrightarrow> \<forall>e \<in> set es. pair_valid k B (fst e) \<Longrightarrow> pair.in_order B k now es"
  by (induction now es rule: one_by_one.induct) auto

lemma sample_budget: "cc_budget sample_cfg = 60000000" "cc_budgetWindow sample_cfg = 24 * hour"
  by (simp_all add: sample_eqs)

text \<open>
  C13. Tests run one after the other, towards any peers, each asked for with an estimate its bytes do not exceed, never carry
  more than the cluster's limit in any window, wherever it is placed in time, and those towards one peer never more than the
  limit the server set for that peer; limits and estimates being below 2 to the 63.
\<close>

theorem budget_never_exceeded:
  fixes c es
  defines "h \<equiv> fst (fold (run_charged c) es ([], cap_start c))"
  assumes "one_by_one now es" "unat (cc_budget c) < 2 ^ 63" "unat B < 2 ^ 63"
  shows "(cc_budget c \<noteq> 0 \<longrightarrow> spent (cc_budgetWindow c) u (map snd h) \<le> unat (cc_budget c))
    \<and> (B \<noteq> 0 \<and> (\<forall>e \<in> set es. lp_id (fst e) = k \<longrightarrow> lp_budget (fst e) = B)
        \<longrightarrow> spent (cc_budgetWindow c) u (map snd (filter (\<lambda>x. fst x = k) h)) \<le> unat B)"
proof (intro conjI impI)
  assume "cc_budget c \<noteq> 0"
  then show "spent (cc_budgetWindow c) u (map snd h) \<le> unat (cc_budget c)"
    using cluster.budget_kept [OF _ _ cluster_order [OF assms(2,3)], where W = "cc_budgetWindow c" and l = "cap_start c" and c = c and u = u] cluster_log [of c es "[]" "cap_start c"]
    by (simp add: h_def cap_start_def ledger_ok_def ledger_used_def unat_eq_0)
next
  assume B: "B \<noteq> 0 \<and> (\<forall>e \<in> set es. lp_id (fst e) = k \<longrightarrow> lp_budget (fst e) = B)"
  then have v: "\<forall>e \<in> set es. pair_valid k B (fst e)" by (simp add: pair_valid_def)
  show "spent (cc_budgetWindow c) u (map snd (filter (\<lambda>x. fst x = k) h)) \<le> unat B"
    using pair.budget_kept [OF _ _ pair_order [OF assms(2,4) v], where c = c and l = "cap_start c" and u = u] pair_log [of k c es "[]" "cap_start c"] B
    by (simp add: h_def cap_start_def pair_of_def ledger_ok_def ledger_used_def unat_eq_0)
qed

lemma budget_never_exceeded_witness:
  "spent (24 * hour) 250 (map snd (fst (fold (run_charged sample_cfg) [(sample_peer, 10, 60, 20, 50), (sample_peer, 30, 60, 40, 60)]
     ([], cap_start sample_cfg)))) \<le> 60000000"
  using budget_never_exceeded [of 0 "[(sample_peer, 10, 60, 20, 50), (sample_peer, 30, 60, 40, 60)]" sample_cfg 0 250]
  by (simp add: sample_budget)

end
