(* ===== verification/Schedule.thy ===== *)
theory Schedule
  imports Capacity
begin

text \<open>
  When which peer is tested (\<open>link/capacity.go\<close>): what \<open>sync\<close> keeps of peers that come and go, whose turn it
  is, and \<open>step\<close>, which runs at most one test and moves the peer's cycle on.
\<close>

subsection \<open>Which peers are kept\<close>

definition peerGrace :: duration where "peerGrace = 30 * minute"

definition gone :: "string \<Rightarrow> bool \<Rightarrow> time \<Rightarrow> (string \<rightharpoonup> time) \<Rightarrow> bool \<times> (string \<rightharpoonup> time)" where
  "gone k live now a =
     (if live then (False, a(k := None))
      else (case a k of
          None \<Rightarrow> (False, a(k \<mapsto> now))
        | Some since \<Rightarrow> if now - since < peerGrace then (False, a) else (True, a(k := None))))"

definition dropPrefix :: "(string \<rightharpoonup> 'v) \<Rightarrow> string \<Rightarrow> (string \<rightharpoonup> 'v)" where
  "dropPrefix m pre = (\<lambda>k. if prefix pre k then None else m k)"

text \<open>\<open>rnd k n\<close> is the random number below \<open>n\<close> drawn for the peer \<open>k\<close>.\<close>

definition sync_add :: "cap_cfg \<Rightarrow> (string \<Rightarrow> int \<Rightarrow> int) \<Rightarrow> time \<Rightarrow> link_peer \<Rightarrow> (string \<times> cap_peer) list \<Rightarrow> (string \<times> cap_peer) list" where
  "sync_add c rnd now p ps =
     (if \<not> lp_throughput p \<or> map_of ps (lp_id p) \<noteq> None then ps
      else (let spread = (if cc_startAfter c = 0 then min (cc_every c div 4) (10 * minute) else cc_startAfter c);
                d = (if spread > 0 then rnd (lp_id p) (spread + 1) else 0)
            in ps @ [(lp_id p, \<lparr>cp_next = now + d, cp_retryAt = 0, cp_queue = [], cp_ran = False, cp_failures = 0\<rparr>)]))"

definition sync_forget :: "string list \<Rightarrow> time \<Rightarrow> string \<Rightarrow> cap_state \<Rightarrow> cap_state" where
  "sync_forget live now k s = (case gone k (k \<in> set live) now (cs_absent s) of (g, a) \<Rightarrow>
     if \<not> g then s\<lparr>cs_absent := a\<rparr>
     else s\<lparr>cs_absent := a, cs_peers := AList.delete k (cs_peers s), cs_good := (cs_good s)(k := None),
            cs_pairs := (cs_pairs s)(k := None),
            cs_lastBytes := dropPrefix (cs_lastBytes s) (k @ ''|''),
            cs_lastBits := dropPrefix (cs_lastBits s) (k @ ''|''),
            cs_lastBounded := dropPrefix (cs_lastBounded s) (k @ ''|''),
            cs_warned := dropPrefix (cs_warned s) (k @ ''|'')\<rparr>)"

definition sync :: "cap_cfg \<Rightarrow> (string \<Rightarrow> int \<Rightarrow> int) \<Rightarrow> link_peer list \<Rightarrow> time \<Rightarrow> cap_state \<Rightarrow> cap_state" where
  "sync c rnd peers now s = (let
     live = map lp_id (filter lp_throughput peers);
     s' = s\<lparr>cs_peers := fold (sync_add c rnd now) peers (cs_peers s)\<rparr>
     in fold (sync_forget live now) (map fst (cs_peers s')) s')"

subsection \<open>One step\<close>

definition due :: "cap_peer \<Rightarrow> time" where
  "due st = (if cp_queue st \<noteq> [] then cp_retryAt st else cp_next st)"

text \<open>The peer whose turn came first; every listed peer is known, as \<open>sync\<close> has just been run.\<close>

definition pick_step :: "time \<Rightarrow> (string \<times> cap_peer) list \<Rightarrow> link_peer \<Rightarrow> (link_peer \<times> time) option \<Rightarrow> (link_peer \<times> time) option" where
  "pick_step now ps p acc = (case map_of ps (lp_id p) of
     None \<Rightarrow> acc
   | Some st \<Rightarrow> if due st > now then acc
       else (case acc of None \<Rightarrow> Some (p, due st) | Some (q, best) \<Rightarrow> if due st < best then Some (p, due st) else acc))"

definition pick_peer :: "time \<Rightarrow> (string \<times> cap_peer) list \<Rightarrow> link_peer list \<Rightarrow> link_peer option" where
  "pick_peer now ps peers = map_option fst (fold (pick_step now ps) peers None)"

definition advance :: "cap_cfg \<Rightarrow> rat \<Rightarrow> cap_peer \<Rightarrow> link_peer \<Rightarrow> time \<Rightarrow> cap_peer" where
  "advance c jitter st p now =
     (if cp_queue st \<noteq> [] then st\<lparr>cp_retryAt := now\<rparr>
      else st\<lparr>cp_next := now + floor (of_int (every_of c p) * (9 / 10 + 2 / 10 * jitter) :: rat)\<rparr>)"

definition settle :: "cap_cfg \<Rightarrow> cap_env \<Rightarrow> link_peer \<Rightarrow> outcome \<Rightarrow> cap_peer \<Rightarrow> cap_peer" where
  "settle c e p out st = (let now = ce_end e; rest = st\<lparr>cp_queue := tl (cp_queue st)\<rparr> in
     if ce_cancelled e then st
     else if oc_skip out \<noteq> [] \<and> oc_drop out then advance c (ce_jitter e) rest p now
     else if oc_skip out \<noteq> [] then st\<lparr>cp_retryAt := now + oc_retry out\<rparr>
     else if oc_fail out \<noteq> [] then
       (if cp_ran st \<or> oc_fail out = ''other'' then advance c (ce_jitter e) (rest\<lparr>cp_failures := 0\<rparr>) p now
        else (let n = cp_failures st + 1 in
          st\<lparr>cp_queue := [], cp_failures := n, cp_next := now + min (cc_every c) (30 * minute * 2 ^ min (n - 1) 6)\<rparr>))
     else advance c (ce_jitter e) (rest\<lparr>cp_ran := True, cp_failures := 0\<rparr>) p now)"

definition outcome_events :: "cap_env \<Rightarrow> string \<Rightarrow> outcome \<Rightarrow> meter_event list" where
  "outcome_events e k out = (if ce_cancelled e then []
     else if oc_skip out \<noteq> [] then [ThroughputSkipped k (oc_skip out)]
     else if oc_fail out \<noteq> [] then [ThroughputFailed k (oc_fail out)] else [])"

definition set_peer :: "string \<Rightarrow> cap_peer \<Rightarrow> cap_state \<Rightarrow> cap_state" where
  "set_peer k st s = s\<lparr>cs_peers := AList.update k st (cs_peers s)\<rparr>"

definition begin_cycle :: "cap_cfg \<Rightarrow> cap_peer \<Rightarrow> cap_peer" where
  "begin_cycle c st = (if cp_queue st = [] then st\<lparr>cp_queue := plan c, cp_ran := False\<rparr> else st)"

definition cap_step :: "cap_cfg \<Rightarrow> cap_env \<Rightarrow> load option \<Rightarrow> link_peer list \<Rightarrow> time \<Rightarrow> cap_state \<Rightarrow> (duration \<times> cap_state) option" where
  "cap_step c e ld listed now s0 = (let
     peers = filter lp_throughput listed;
     s = sync c (ce_spread e) peers now s0
     in if \<not> Contains (cc_window c) now then Some (min (Opens (cc_window c) now) minute, s)
        else (case pick_peer now (cs_peers s) peers of
            None \<Rightarrow> Some (5 * second, s)
          | Some p \<Rightarrow> (case map_of (cs_peers s) (lp_id p) of
              None \<Rightarrow> None
            | Some st0 \<Rightarrow> (let st = begin_cycle c st0; s1 = set_peer (lp_id p) st s in
                Option.bind (runTest c e ld p (hd (cp_queue st)) s1) (\<lambda>(out, s2).
                  let s3 = set_peer (lp_id p) (settle c e p out st) s2
                  in Some (cc_pause c, s3\<lparr>cs_meter := cs_meter s3 @ outcome_events e (lp_id p) out\<rparr>))))))"

subsection \<open>What is kept of a peer that is not listed for a while\<close>

definition listed :: "link_peer list \<Rightarrow> string \<Rightarrow> bool" where
  "listed peers k = (k \<in> lp_id ` set (filter lp_throughput peers))"

definition spread_of :: "cap_cfg \<Rightarrow> duration" where
  "spread_of c = (if cc_startAfter c = 0 then min (cc_every c div 4) (10 * minute) else cc_startAfter c)"

definition fresh_peer :: "cap_cfg \<Rightarrow> (string \<Rightarrow> int \<Rightarrow> int) \<Rightarrow> time \<Rightarrow> string \<Rightarrow> cap_peer" where
  "fresh_peer c rnd now k = \<lparr>cp_next = now + (if spread_of c > 0 then rnd k (spread_of c + 1) else 0), cp_retryAt = 0,
     cp_queue = [], cp_ran = False, cp_failures = 0\<rparr>"

lemma sync_add_eq:
  "sync_add c rnd now p ps = (if lp_throughput p \<and> map_of ps (lp_id p) = None then ps @ [(lp_id p, fresh_peer c rnd now (lp_id p))] else ps)"
  by (simp add: sync_add_def fresh_peer_def spread_of_def Let_def)

lemma listed_simps:
  "\<not> listed [] k" "listed (p # ps) k \<longleftrightarrow> lp_throughput p \<and> lp_id p = k \<or> listed ps k"
  by (auto simp: listed_def)

lemma fold_sync_add:
  "map_of (fold (sync_add c rnd now) peers ps) k =
     (case map_of ps k of Some st \<Rightarrow> Some st | None \<Rightarrow> if listed peers k then Some (fresh_peer c rnd now k) else None)"
  by (induction peers arbitrary: ps) (auto simp: sync_add_eq listed_simps map_add_def split: option.splits)

lemma fold_sync_add_distinct:
  "distinct (map fst ps) \<Longrightarrow> distinct (map fst (fold (sync_add c rnd now) peers ps))"
  by (induction peers arbitrary: ps) (auto simp: sync_add_eq map_of_eq_None_iff image_iff)

text \<open>What the state holds under a peer's id, and the readings it keeps under keys of their own.\<close>

definition held_of :: "cap_state \<Rightarrow> string \<Rightarrow> cap_peer option \<times> time option \<times> string option \<times> ledger option" where
  "held_of s k = (map_of (cs_peers s) k, cs_absent s k, cs_good s k, cs_pairs s k)"

lemma gone_local: "a k = b k \<Longrightarrow> fst (gone k live now a) = fst (gone k live now b) \<and> snd (gone k live now a) k = snd (gone k live now b) k"
  by (auto simp: gone_def split: option.splits)

lemma gone_other: "j \<noteq> k \<Longrightarrow> snd (gone k live now a) j = a j"
  by (auto simp: gone_def split: option.splits)

lemma held_forget_other: "j \<noteq> k \<Longrightarrow> held_of (sync_forget live now k s) j = held_of s j"
  using gone_other [of j k "k \<in> set live" now "cs_absent s"]
  by (auto simp: held_of_def sync_forget_def delete_conv' split: prod.splits)

lemma held_forget_same:
  "held_of (sync_forget live now k s) k =
     (if fst (gone k (k \<in> set live) now (cs_absent s)) then (None, None, None, None)
      else (map_of (cs_peers s) k, snd (gone k (k \<in> set live) now (cs_absent s)) k, cs_good s k, cs_pairs s k))"
  by (auto simp: held_of_def sync_forget_def delete_conv' gone_def split: prod.splits option.splits)

lemma held_forget_local:
  "held_of s k = held_of s' k \<Longrightarrow> held_of (sync_forget live now k s) k = held_of (sync_forget live now k s') k"
  using gone_local [of "cs_absent s" k "cs_absent s'" "k \<in> set live" now]
  unfolding held_forget_same by (simp add: held_of_def)

lemma fold_forget_held:
  "distinct ks \<Longrightarrow> held_of (fold (sync_forget live now) ks s) j = (if j \<in> set ks then held_of (sync_forget live now j s) j else held_of s j)"
proof (induction ks arbitrary: s)
  case (Cons k ks)
  show ?case
  proof (cases "j = k")
    case False
    then have "held_of (sync_forget live now j (sync_forget live now k s)) j = held_of (sync_forget live now j s) j"
      by (intro held_forget_local held_forget_other)
    then show ?thesis using Cons False by (simp add: held_forget_other)
  qed (use Cons in simp)
qed simp

definition readings :: "cap_state \<Rightarrow> string \<Rightarrow> u64 option \<times> rat option \<times> bool option \<times> bool option" where
  "readings s k = (cs_lastBytes s k, cs_lastBits s k, cs_lastBounded s k, cs_warned s k)"

lemma readings_forget:
  "readings (sync_forget live now k s) x =
     (if fst (gone k (k \<in> set live) now (cs_absent s)) \<and> prefix (k @ ''|'') x then (None, None, None, None) else readings s x)"
  by (auto simp: readings_def sync_forget_def dropPrefix_def split: prod.splits)

lemma fold_forget_readings:
  "distinct ks \<Longrightarrow> readings (fold (sync_forget live now) ks s) x =
     (if \<exists>k \<in> set ks. fst (gone k (k \<in> set live) now (cs_absent s)) \<and> prefix (k @ ''|'') x then (None, None, None, None) else readings s x)"
proof (induction ks arbitrary: s)
  case (Cons k ks)
  have "fst (gone j (j \<in> set live) now (cs_absent (sync_forget live now k s))) = fst (gone j (j \<in> set live) now (cs_absent s))"
    if "j \<in> set ks" for j
  proof -
    have "cs_absent (sync_forget live now k s) j = cs_absent s j"
      using that Cons.prems held_forget_other [of j k live now s] by (auto simp: held_of_def)
    then show ?thesis using gone_local by blast
  qed
  then have "(\<exists>j \<in> set ks. fst (gone j (j \<in> set live) now (cs_absent (sync_forget live now k s))) \<and> prefix (j @ ''|'') x)
     \<longleftrightarrow> (\<exists>j \<in> set ks. fst (gone j (j \<in> set live) now (cs_absent s)) \<and> prefix (j @ ''|'') x)"
    by (intro bex_cong) simp_all
  then show ?case using Cons by (simp add: readings_forget del: append.simps) blast
qed simp

definition forgotten :: "link_peer list \<Rightarrow> time \<Rightarrow> cap_state \<Rightarrow> string \<Rightarrow> bool" where
  "forgotten peers now s k = (\<not> listed peers k \<and> map_of (cs_peers s) k \<noteq> None
     \<and> (case cs_absent s k of None \<Rightarrow> False | Some since \<Rightarrow> now - since \<ge> 30 * minute))"

lemma sync_unfold:
  "sync c rnd peers now s = (let s' = s\<lparr>cs_peers := fold (sync_add c rnd now) peers (cs_peers s)\<rparr>
     in fold (sync_forget (map lp_id (filter lp_throughput peers)) now) (map fst (cs_peers s')) s')"
  by (simp add: sync_def Let_def)

lemma prefix_own_key: "CHR ''|'' \<notin> set j \<Longrightarrow> CHR ''|'' \<notin> set k \<Longrightarrow> prefix (j @ ''|'') (k @ ''|'' @ x) \<longleftrightarrow> j = k"
proof (induction j arbitrary: k)
  case Nil
  then show ?case by (cases k) auto
next
  case (Cons a j)
  then show ?case by (cases k) auto
qed

lemma sync_readings:
  assumes "distinct (map fst (cs_peers s))" "CHR ''|'' \<notin> set k" "\<And>j. map_of (cs_peers s) j \<noteq> None \<Longrightarrow> CHR ''|'' \<notin> set j"
  shows "readings (sync c rnd peers now s) (k @ ''|'' @ x) = (if forgotten peers now s k then (None, None, None, None) else readings s (k @ ''|'' @ x))"
proof -
  let ?ps = "fold (sync_add c rnd now) peers (cs_peers s)"
  have "(\<exists>j \<in> fst ` set ?ps. fst (gone j (listed peers j) now (cs_absent s)) \<and> prefix (j @ ''|'') (k @ ''|'' @ x)) \<longleftrightarrow> forgotten peers now s k"
  proof
    assume "\<exists>j \<in> fst ` set ?ps. fst (gone j (listed peers j) now (cs_absent s)) \<and> prefix (j @ ''|'') (k @ ''|'' @ x)"
    then obtain j where j: "map_of ?ps j \<noteq> None" "fst (gone j (listed peers j) now (cs_absent s))" "prefix (j @ ''|'') (k @ ''|'' @ x)"
      by (auto simp: map_of_eq_None_iff)
    then have "map_of (cs_peers s) j \<noteq> None" by (auto simp: fold_sync_add gone_def split: if_splits option.splits)
    then show "forgotten peers now s k"
      using j prefix_own_key [OF assms(3) assms(2), of j x] by (auto simp: forgotten_def gone_def peerGrace_def split: if_splits option.splits)
  next
    assume f: "forgotten peers now s k"
    then have "map_of ?ps k \<noteq> None" by (auto simp: forgotten_def fold_sync_add)
    then have "k \<in> fst ` set ?ps" by (simp add: map_of_eq_None_iff)
    moreover have "fst (gone k (listed peers k) now (cs_absent s))"
      using f by (auto simp: forgotten_def gone_def peerGrace_def split: option.splits)
    ultimately show "\<exists>j \<in> fst ` set ?ps. fst (gone j (listed peers j) now (cs_absent s)) \<and> prefix (j @ ''|'') (k @ ''|'' @ x)"
      using prefix_own_key [OF assms(2,2), of x] by blast
  qed
  moreover have "readings (s\<lparr>cs_peers := ?ps\<rparr>) y = readings s y" for y by (simp add: readings_def)
  ultimately show ?thesis
    using fold_forget_readings [OF fold_sync_add_distinct [OF assms(1)], of "map lp_id (filter lp_throughput peers)" now c rnd now peers
      "s\<lparr>cs_peers := ?ps\<rparr>" "k @ ''|'' @ x"]
    by (simp add: sync_unfold Let_def listed_def)
qed

lemma sync_held:
  assumes "distinct (map fst (cs_peers s))"
  shows "held_of (sync c rnd peers now s) k =
    (if listed peers k
     then (Some (case map_of (cs_peers s) k of Some st \<Rightarrow> st | None \<Rightarrow> fresh_peer c rnd now k), None, cs_good s k, cs_pairs s k)
     else (case map_of (cs_peers s) k of
             None \<Rightarrow> held_of s k
           | Some st \<Rightarrow> if forgotten peers now s k then (None, None, None, None)
               else (Some st, Some (case cs_absent s k of None \<Rightarrow> now | Some since \<Rightarrow> since), cs_good s k, cs_pairs s k)))"
proof -
  let ?ps = "fold (sync_add c rnd now) peers (cs_peers s)"
  let ?s = "s\<lparr>cs_peers := ?ps\<rparr>"
  have known: "k \<in> set (map fst ?ps) \<longleftrightarrow> map_of (cs_peers s) k \<noteq> None \<or> listed peers k"
    using fold_sync_add [of c rnd now peers "cs_peers s" k] map_of_eq_None_iff [of ?ps k] by (simp split: option.splits if_splits)
  have "held_of (sync c rnd peers now s) k = (if k \<in> set (map fst ?ps) then held_of (sync_forget (map lp_id (filter lp_throughput peers)) now k ?s) k else held_of ?s k)"
    using fold_forget_held [OF fold_sync_add_distinct [OF assms]] by (simp add: sync_unfold Let_def)
  then show ?thesis
    unfolding known held_forget_same
    by (auto simp: held_of_def fold_sync_add gone_def forgotten_def peerGrace_def listed_def split: option.splits)
qed

text \<open>
  One pass over the list of peers leaves exactly this: a peer that is listed keeps its place in the schedule, or gets a
  fresh one, and is not counted absent; one that is not listed keeps everything, with the moment it was first missed, until that is
  thirty minutes ago; then its place, the address that answered, its budget and every reading under a key of its own
  are gone. Nothing of any other peer is touched.
\<close>

theorem sync_keeps_absent_peers:
  assumes "distinct (map fst (cs_peers s))" "CHR ''|'' \<notin> set k" "\<And>j. map_of (cs_peers s) j \<noteq> None \<Longrightarrow> CHR ''|'' \<notin> set j"
  shows "held_of (sync c rnd peers now s) k =
      (if listed peers k
       then (Some (case map_of (cs_peers s) k of Some st \<Rightarrow> st | None \<Rightarrow> fresh_peer c rnd now k), None, cs_good s k, cs_pairs s k)
       else (case map_of (cs_peers s) k of
               None \<Rightarrow> held_of s k
             | Some st \<Rightarrow> if forgotten peers now s k then (None, None, None, None)
                 else (Some st, Some (case cs_absent s k of None \<Rightarrow> now | Some since \<Rightarrow> since), cs_good s k, cs_pairs s k)))
    \<and> (\<forall>x. readings (sync c rnd peers now s) (k @ ''|'' @ x) =
        (if forgotten peers now s k then (None, None, None, None) else readings s (k @ ''|'' @ x)))"
  using sync_held [OF assms(1)] sync_readings [OF assms] by simp

definition away_state :: "cap_state" where
  "away_state = (cap_start sample_cfg)\<lparr>cs_peers := [(''b'', fresh_peer sample_cfg (\<lambda>_ _. 0) 0 ''b'')],
     cs_absent := [''b'' \<mapsto> 0], cs_lastBytes := [''b|tcp'' \<mapsto> 7], cs_warned := [''b|auth'' \<mapsto> True, ''bounded|b|tcp'' \<mapsto> True]\<rparr>"

lemma away_state_fields:
  "map_of (cs_peers away_state) j = (if j = ''b'' then Some (fresh_peer sample_cfg (\<lambda>_ _. 0) 0 ''b'') else None)"
  "distinct (map fst (cs_peers away_state))" "cs_absent away_state ''b'' = Some 0"
  by (simp_all add: away_state_def)

lemma sync_keeps_absent_peers_witness:
  "held_of (sync sample_cfg (\<lambda>_ _. 0) [] (40 * minute) away_state) ''b'' = (None, None, None, None)
   \<and> cs_lastBytes (sync sample_cfg (\<lambda>_ _. 0) [] (40 * minute) away_state) ''b|tcp'' = None"
proof -
  let ?s = "sync sample_cfg (\<lambda>_ _. 0) [] (40 * minute) away_state"
  have f: "forgotten [] (40 * minute) away_state ''b''" "\<not> listed [] ''b''"
    by (simp_all add: forgotten_def away_state_fields listed_def)
  have ids: "CHR ''|'' \<notin> set j" if "map_of (cs_peers away_state) j \<noteq> None" for j
    using that by (simp add: away_state_fields split: if_splits)
  have "CHR ''|'' \<notin> set ''b''" by simp
  from sync_keeps_absent_peers [OF away_state_fields(2) this ids, of sample_cfg "\<lambda>_ _. 0" "[]" "40 * minute"] f
  have all: "held_of ?s ''b'' = (None, None, None, None)" "\<And>x. readings ?s (''b'' @ ''|'' @ x) = (None, None, None, None)"
    by (simp_all add: away_state_fields)
  show ?thesis using all(1) all(2) [of "''tcp''"] by (simp add: readings_def)
qed

text \<open>
  One thing does outlive its peer: the note that a test was capped is kept under a key that begins with \<open>bounded|\<close> and
  not with the peer's id, so forgetting the peer leaves it behind.
\<close>

lemma capped_warning_outlives_peer:
  "held_of (sync sample_cfg (\<lambda>_ _. 0) [] (40 * minute) away_state) ''b'' = (None, None, None, None)
   \<and> cs_warned (sync sample_cfg (\<lambda>_ _. 0) [] (40 * minute) away_state) ''bounded|b|tcp'' = Some True
   \<and> cs_warned (sync sample_cfg (\<lambda>_ _. 0) [] (40 * minute) away_state) ''b|auth'' = None"
  by (simp add: sync_def sync_forget_def gone_def peerGrace_def held_of_def away_state_def dropPrefix_def Let_def)

subsection \<open>A step always comes to an end\<close>

lemma peers_pairLedger: "pairLedger c p s = (l, s') \<Longrightarrow> cs_peers s' = cs_peers s"
  by (auto simp: pairLedger_def Let_def split: if_splits)

lemma peers_budgetLimit: "budgetLimit c p s = (l, s') \<Longrightarrow> cs_peers s' = cs_peers s"
  by (auto simp: budgetLimit_def Let_def split: prod.splits option.splits dest: peers_pairLedger)

lemma peers_share: "share c p s = (l, s') \<Longrightarrow> cs_peers s' = cs_peers s"
  by (auto simp: share_def Let_def split: prod.splits if_splits dest: peers_budgetLimit)

lemma peers_allows: "allows c p now est s = (b, s') \<Longrightarrow> cs_peers s' = cs_peers s"
  by (auto simp: allows_def Let_def split: prod.splits if_splits option.splits dest!: peers_pairLedger)

lemma peers_charge: "cs_peers (charge c p now n s) = cs_peers s"
  by (auto simp: charge_def Let_def split: prod.splits option.splits dest!: peers_pairLedger)

lemma peers_tell: "cs_peers (tell ev s) = cs_peers s" by (simp add: tell_def)

lemma peers_warnBounded: "cs_peers (warnBounded p t s) = cs_peers s" by (simp add: warnBounded_def)

lemma peers_warnOversized: "cs_peers (warnOversized c p t est s) = cs_peers s"
  by (auto simp: warnOversized_def split: prod.splits dest: peers_budgetLimit)

lemma peers_invoke: "invoke c e p t extra s = (r, s') \<Longrightarrow> cs_peers s' = cs_peers s"
  by (auto simp: invoke_def Let_def split: if_splits sum.splits)

lemma peers_ramp_rung: "ramp_rung c e p t rate steps s = (g, s') \<Longrightarrow> cs_peers s' = cs_peers s"
  by (auto simp: ramp_rung_def Let_def peers_charge peers_tell split: if_splits prod.splits bool.splits sum.splits option.splits
    dest!: peers_allows peers_invoke)

lemma peers_ramp_loop: "ramp_loop c e p t k r steps clean has s = Some (out, s') \<Longrightarrow> cs_peers s' = cs_peers s"
proof -
  have "cs_peers (snd y) = cs_peers s" if "ramp_loop c e p t k r steps clean has s = Some y" for y
    using that
  proof (rule ramp_loop.raw_induct [rotated])
    fix f c e p t k r steps clean has s y
    assume IH: "\<And>c e p t k r steps clean has s y. f c e p t k r steps clean has s = Some y \<Longrightarrow> cs_peers (snd y) = cs_peers s"
      and body: "(case ramp_rung c e p t r steps s of
        (RungStop out, s') \<Rightarrow> Some (out, s')
      | (RungLast steps' sat, s') \<Rightarrow> Some (no_outcome, tell (ObserveUDPRamp (lp_id p) (ct_dir t) (ct_dscp t) steps' clean has sat) s')
      | (RungClean steps', s') \<Rightarrow>
          if r \<ge> k then Some (no_outcome, tell (ObserveUDPRamp (lp_id p) (ct_dir t) (ct_dscp t) steps' r True False) s')
          else f c e p t k (min (r * 2) k) steps' r True s') = Some y"
    obtain g s1 where g: "ramp_rung c e p t r steps s = (g, s1)" by fastforce
    show "cs_peers (snd y) = cs_peers s"
      using body peers_ramp_rung [OF g] IH by (cases g) (auto simp: g peers_tell split: if_splits)
  qed
  then show "ramp_loop c e p t k r steps clean has s = Some (out, s') \<Longrightarrow> cs_peers s' = cs_peers s" by fastforce
qed

lemma peers_flow_done: "cs_peers (flow_done p t n cap m f s) = cs_peers s"
  by (simp add: flow_done_def Let_def setBits_def peers_tell)

lemma peers_flows_done: "cs_peers (fold (flow_done p t n cap m) fs s) = cs_peers s"
  by (induction fs arbitrary: s) (simp_all add: peers_flow_done)

lemma peers_run_tcp: "cs_peers (snd (run_tcp c e p t cap s)) = cs_peers s"
  by (auto simp: run_tcp_def Let_def peers_charge peers_flows_done split: prod.splits sum.splits dest!: peers_invoke)

lemma estimate_some:
  assumes "Validate c = None" "t \<in> set (plan c)"
  shows "\<exists>est. estimate c p t s = Some est"
proof (cases "ct_kind t = KRamp")
  case True
  then have "cc_udp c" using plan_kind(2) [OF assms(2)] by simp
  then show ?thesis using True rampBytes_eq(1) [OF assms(1), of "cc_max c"] Validate_udp(2) [OF assms(1)]
    by (simp add: estimate_def word_le_nat_alt)
qed (simp add: estimate_def Let_def)

lemma size_some:
  assumes "Validate c = None" "t \<in> set (plan c)"
  shows "\<exists>r. size_test c t sh est = Some r
    \<and> (\<forall>cap peak b. r = Some (cap, peak, b) \<longrightarrow> peak \<noteq> 0 \<longrightarrow> cc_start c \<le> peak \<and> peak \<le> cc_max c)"
  using sized_fits [OF assms, of sh est]
  by (elim ex_forward conj_forward) (auto split: option.splits)

lemma runTest_returns:
  assumes v: "Validate c = None" "t \<in> set (plan c)" and once: "\<And>a x. ce_once e a t x \<noteq> Inr []"
  shows "\<exists>out s'. runTest c e ld p t s = Some (out, s') \<and> cs_peers s' = cs_peers s"
proof -
  obtain est where est: "estimate c p t s = Some est" using estimate_some [OF v] by blast
  obtain sh s1 where sh: "share c p s = (sh, s1)" by fastforce
  have k1: "cs_peers s1 = cs_peers s" using peers_share [OF sh] .
  obtain r where r: "size_test c t sh est = Some r" "\<And>cap peak b. r = Some (cap, peak, b) \<Longrightarrow> peak \<noteq> 0 \<Longrightarrow> cc_start c \<le> peak \<and> peak \<le> cc_max c"
    using size_some [OF v, of sh est] by blast
  show ?thesis
  proof (cases r)
    case None
    then show ?thesis by (simp add: runTest_def est sh r(1) peers_warnOversized k1)
  next
    case (Some x)
    obtain cap peak b where x: "x = (cap, peak, b)" by (cases x) auto
    obtain ok s2 where al: "allows c p (ce_now e 0) b s1 = (ok, s2)" by fastforce
    have k2: "cs_peers s2 = cs_peers s" using peers_allows [OF al] k1 by simp
    obtain lim s3 where bl: "budgetLimit c p s2 = (lim, s3)" by fastforce
    have k3: "cs_peers s3 = cs_peers s" using peers_budgetLimit [OF bl] k2 by simp
    define s4 where "s4 = (if cap > 0 \<or> peak > 0 then warnBounded p t s2 else s2)"
    have k4: "cs_peers s4 = cs_peers s" by (simp add: s4_def peers_warnBounded k2)
    note unf = runTest_def est sh r(1) Some x al bl s4_def [symmetric] Let_def
    show ?thesis
    proof (cases "ok \<and> \<not> busy c ld p t (ce_now e 0) s4 \<and> ct_kind t = KRamp")
      case True
      then have "cc_udp c" using plan_kind(2) [OF v(2)] by simp
      moreover have "peak = 0 \<or> cc_start c \<le> peak \<and> peak \<le> cc_max c" using r(2) [of cap peak b] Some x by blast
      ultimately obtain out s' where run: "runRamp c e p t peak s4 = Some (out, s')" using runRamp_reports [OF v(1) _ _ once] by blast
      then have "cs_peers s' = cs_peers s4" unfolding runRamp_def by (rule peers_ramp_loop)
      then show ?thesis using True run k4 by (simp add: unf)
    next
      case False
      then show ?thesis using peers_run_tcp [of c e p t cap s4]
        by (cases ok; cases "run_tcp c e p t cap s4") (auto simp: unf k2 k3 k4 peers_warnOversized)
    qed
  qed
qed

text \<open>What holds of the schedule: one entry per peer, and only tests of the plan in the queues.\<close>

definition schedule_ok :: "cap_cfg \<Rightarrow> cap_state \<Rightarrow> bool" where
  "schedule_ok c s = (distinct (map fst (cs_peers s))
     \<and> (\<forall>k st. map_of (cs_peers s) k = Some st \<longrightarrow> set (cp_queue st) \<subseteq> set (plan c)))"

lemma sync_forget_distinct:
  "distinct (map fst (cs_peers s)) \<Longrightarrow> distinct (map fst (cs_peers (fold (sync_forget live now) ks s)))"
  by (induction ks arbitrary: s) (auto simp: sync_forget_def distinct_delete split: prod.splits)

lemma schedule_sync:
  assumes "schedule_ok c s"
  shows "schedule_ok c (sync c rnd peers now s)" "listed peers k \<Longrightarrow> map_of (cs_peers (sync c rnd peers now s)) k \<noteq> None"
proof -
  have d: "distinct (map fst (cs_peers s))" using assms by (simp add: schedule_ok_def)
  have m: "map_of (cs_peers (sync c rnd peers now s)) k = fst (held_of (sync c rnd peers now s) k)" for k by (simp add: held_of_def)
  show "listed peers k \<Longrightarrow> map_of (cs_peers (sync c rnd peers now s)) k \<noteq> None" by (simp add: m sync_held [OF d])
  have "set (cp_queue st) \<subseteq> set (plan c)" if "map_of (cs_peers (sync c rnd peers now s)) j = Some st" for j st
    using that assms unfolding m sync_held [OF d]
    by (auto simp: schedule_ok_def fresh_peer_def held_of_def split: if_splits option.splits)
  moreover have "distinct (map fst (cs_peers (sync c rnd peers now s)))"
    by (simp add: sync_unfold Let_def sync_forget_distinct fold_sync_add_distinct d)
  ultimately show "schedule_ok c (sync c rnd peers now s)" by (simp add: schedule_ok_def)
qed

lemma schedule_set_peer:
  "schedule_ok c s \<Longrightarrow> set (cp_queue st) \<subseteq> set (plan c) \<Longrightarrow> schedule_ok c (set_peer k st s)"
  by (auto simp: schedule_ok_def set_peer_def distinct_update update_conv')

lemma schedule_settle:
  "set (cp_queue st) \<subseteq> set (plan c) \<Longrightarrow> set (cp_queue (settle c e p out st)) \<subseteq> set (plan c)"
  using list.set_sel(2) [of "cp_queue st"]
  by (cases "cp_queue st") (auto simp: settle_def advance_def Let_def)

subsection \<open>Whose turn it is\<close>

definition due_at :: "(string \<times> cap_peer) list \<Rightarrow> link_peer \<Rightarrow> time" where
  "due_at ps p = (case map_of ps (lp_id p) of None \<Rightarrow> 0 | Some st \<Rightarrow> due st)"

definition first_due :: "time \<Rightarrow> (string \<times> cap_peer) list \<Rightarrow> link_peer set \<Rightarrow> (link_peer \<times> time) option \<Rightarrow> bool" where
  "first_due now ps S acc = (case acc of
     None \<Rightarrow> \<forall>p \<in> S. now < due_at ps p
   | Some (q, d) \<Rightarrow> q \<in> S \<and> d = due_at ps q \<and> d \<le> now \<and> (\<forall>p \<in> S. d \<le> due_at ps p))"

lemma first_due_step:
  assumes "first_due now ps S acc" "map_of ps (lp_id p) \<noteq> None"
  shows "first_due now ps (insert p S) (pick_step now ps p acc)"
proof -
  obtain st where st: "map_of ps (lp_id p) = Some st" using assms(2) by auto
  then have d: "due st = due_at ps p" by (simp add: due_at_def)
  show ?thesis
  proof (cases acc)
    case None
    then show ?thesis using assms(1) by (auto simp: first_due_def pick_step_def st d)
  next
    case (Some x)
    then show ?thesis using assms(1) by (cases x) (auto simp: first_due_def pick_step_def st d)
  qed
qed

lemma first_due_fold:
  "first_due now ps S acc \<Longrightarrow> \<forall>p \<in> set peers. map_of ps (lp_id p) \<noteq> None \<Longrightarrow> first_due now ps (S \<union> set peers) (fold (pick_step now ps) peers acc)"
proof (induction peers arbitrary: S acc)
  case (Cons p peers)
  then show ?case using Cons.IH [OF first_due_step [OF Cons.prems(1)], of p] by simp
qed simp

lemma pick_first_due:
  assumes "\<forall>p \<in> set peers. map_of ps (lp_id p) \<noteq> None"
  shows "case pick_peer now ps peers of None \<Rightarrow> \<forall>p \<in> set peers. now < due_at ps p
    | Some q \<Rightarrow> q \<in> set peers \<and> due_at ps q \<le> now \<and> (\<forall>p \<in> set peers. due_at ps q \<le> due_at ps p)"
proof -
  have "first_due now ps {} None" by (simp add: first_due_def)
  from first_due_fold [OF this assms] show ?thesis
    by (auto simp: pick_peer_def first_due_def split: option.splits)
qed

subsection \<open>The step as a whole\<close>

lemma begin_cycle_queue:
  "cc_dscp c \<noteq> [] \<Longrightarrow> set (cp_queue st) \<subseteq> set (plan c)
     \<Longrightarrow> cp_queue (begin_cycle c st) \<noteq> [] \<and> set (cp_queue (begin_cycle c st)) \<subseteq> set (plan c)"
  by (cases "cc_dscp c") (auto simp: begin_cycle_def plan_def Let_def)

definition after_test :: "cap_cfg \<Rightarrow> cap_env \<Rightarrow> link_peer \<Rightarrow> cap_peer \<Rightarrow> outcome \<Rightarrow> cap_state \<Rightarrow> cap_state" where
  "after_test c e p st out s = (let s3 = set_peer (lp_id p) (settle c e p out st) s
     in s3\<lparr>cs_meter := cs_meter s3 @ outcome_events e (lp_id p) out\<rparr>)"

lemma cap_step_cases:
  fixes c e ld all now s
  defines "s1 \<equiv> sync c (ce_spread e) (filter lp_throughput all) now s"
  shows "\<not> Contains (cc_window c) now \<Longrightarrow> cap_step c e ld all now s = Some (min (Opens (cc_window c) now) minute, s1)"
    "Contains (cc_window c) now \<Longrightarrow> pick_peer now (cs_peers s1) (filter lp_throughput all) = None \<Longrightarrow> cap_step c e ld all now s = Some (5 * second, s1)"
    "Contains (cc_window c) now \<Longrightarrow> pick_peer now (cs_peers s1) (filter lp_throughput all) = Some p \<Longrightarrow> map_of (cs_peers s1) (lp_id p) = Some st
       \<Longrightarrow> runTest c e ld p (hd (cp_queue (begin_cycle c st))) (set_peer (lp_id p) (begin_cycle c st) s1) = Some (out, s2)
       \<Longrightarrow> cap_step c e ld all now s = Some (cc_pause c, after_test c e p (begin_cycle c st) out s2)"
  by (simp_all add: cap_step_def after_test_def Let_def s1_def)

lemma begun_test_returns:
  assumes "Validate c = None" "cc_dscp c \<noteq> []" "schedule_ok c s" "\<And>a t x. ce_once e a t x \<noteq> Inr []"
    "map_of (cs_peers s) (lp_id p) = Some st"
  shows "\<exists>out s2. runTest c e ld p (hd (cp_queue (begin_cycle c st))) (set_peer (lp_id p) (begin_cycle c st) s) = Some (out, s2)
    \<and> schedule_ok c (after_test c e p (begin_cycle c st) out s2)
    \<and> map_of (cs_peers (after_test c e p (begin_cycle c st) out s2)) (lp_id p) = Some (settle c e p out (begin_cycle c st))"
proof -
  let ?st = "begin_cycle c st"
  have "set (cp_queue st) \<subseteq> set (plan c)" using assms(3,5) by (simp add: schedule_ok_def)
  then have q: "cp_queue ?st \<noteq> []" "set (cp_queue ?st) \<subseteq> set (plan c)" using begin_cycle_queue [OF assms(2)] by blast+
  then have "hd (cp_queue ?st) \<in> set (plan c)" by (cases "cp_queue ?st") auto
  from runTest_returns [OF assms(1) this assms(4), of ld p "set_peer (lp_id p) ?st s"]
  obtain out s2 where run: "runTest c e ld p (hd (cp_queue ?st)) (set_peer (lp_id p) ?st s) = Some (out, s2)"
    "cs_peers s2 = cs_peers (set_peer (lp_id p) ?st s)" by blast
  have "schedule_ok c s2" using schedule_set_peer [OF assms(3) q(2)] run(2) by (simp add: schedule_ok_def)
  from schedule_set_peer [OF this schedule_settle [OF q(2)], of "lp_id p" e p out]
  have "schedule_ok c (after_test c e p ?st out s2)" by (simp add: schedule_ok_def after_test_def Let_def)
  then show ?thesis using run(1) by (auto simp: after_test_def set_peer_def update_conv' Let_def)
qed

text \<open>
  C25. With valid settings, a step always returns, whatever the client answers, and keeps the schedule in order. Outside the
  daily window it runs nothing and asks to be called again within a minute; inside, it waits five seconds when no listed peer is due,
  and otherwise runs a test for one that is due, with none due earlier.
\<close>

theorem step_returns:
  assumes "Validate c = None" "cc_dscp c \<noteq> []" "schedule_ok c s" "\<And>a t x. ce_once e a t x \<noteq> Inr []"
  shows "\<exists>wait s'. cap_step c e ld all now s = Some (wait, s') \<and> schedule_ok c s'
    \<and> (let peers = filter lp_throughput all; s1 = sync c (ce_spread e) peers now s in
        if \<not> Contains (cc_window c) now then wait \<le> minute \<and> s' = s1
        else if \<forall>p \<in> set peers. now < due_at (cs_peers s1) p then wait = 5 * second \<and> s' = s1
        else wait = cc_pause c \<and> (\<exists>p \<in> set peers. \<exists>st out s2.
          map_of (cs_peers s1) (lp_id p) = Some st \<and> due st \<le> now \<and> (\<forall>q \<in> set peers. due st \<le> due_at (cs_peers s1) q)
          \<and> runTest c e ld p (hd (cp_queue (begin_cycle c st))) (set_peer (lp_id p) (begin_cycle c st) s1) = Some (out, s2)
          \<and> map_of (cs_peers s') (lp_id p) = Some (settle c e p out (begin_cycle c st))))"
proof -
  let ?peers = "filter lp_throughput all"
  define s1 where "s1 = sync c (ce_spread e) ?peers now s"
  have ok: "schedule_ok c s1" unfolding s1_def by (rule schedule_sync(1) [OF assms(3)])
  have known: "\<forall>p \<in> set ?peers. map_of (cs_peers s1) (lp_id p) \<noteq> None"
    unfolding s1_def by (intro ballI schedule_sync(2) [OF assms(3)]) (auto simp: listed_def)
  note pick = pick_first_due [OF known, of now] and step = cap_step_cases [where c = c and now = now and e = e and ld = ld and all = all and s = s, folded s1_def]
  consider "\<not> Contains (cc_window c) now" | "Contains (cc_window c) now" "pick_peer now (cs_peers s1) ?peers = None"
    | p where "Contains (cc_window c) now" "pick_peer now (cs_peers s1) ?peers = Some p" by blast
  then show ?thesis
  proof cases
    case 1
    then show ?thesis unfolding Let_def unfolding s1_def [symmetric] using step(1) ok by auto
  next
    case 2
    then show ?thesis unfolding Let_def unfolding s1_def [symmetric] using step(2) pick ok by auto
  next
    case 3
    then have p: "p \<in> set ?peers" "due_at (cs_peers s1) p \<le> now" "\<forall>q \<in> set ?peers. due_at (cs_peers s1) p \<le> due_at (cs_peers s1) q"
      using pick by simp_all
    obtain st where st: "map_of (cs_peers s1) (lp_id p) = Some st" using known p(1) by auto
    have d: "due_at (cs_peers s1) p = due st" by (simp add: due_at_def st)
    have nd: "\<not> (\<forall>p \<in> set ?peers. now < due_at (cs_peers s1) p)" using p(1,2) by (meson not_less)
    obtain out s2 where run: "runTest c e ld p (hd (cp_queue (begin_cycle c st))) (set_peer (lp_id p) (begin_cycle c st) s1) = Some (out, s2)"
      "schedule_ok c (after_test c e p (begin_cycle c st) out s2)"
      "map_of (cs_peers (after_test c e p (begin_cycle c st) out s2)) (lp_id p) = Some (settle c e p out (begin_cycle c st))"
      using begun_test_returns [OF assms(1,2) ok assms(4) st] by blast
    show ?thesis
      unfolding Let_def unfolding s1_def [symmetric] if_not_P [OF nd] using 3(1) step(3) [OF 3 st run(1)] run st p d
      by (intro exI conjI) (assumption | simp | blast)+
  qed
qed

lemma schedule_start: "schedule_ok c (cap_start c)" by (simp add: schedule_ok_def cap_start_def)

lemma step_returns_witness:
  "\<exists>wait s'. cap_step sample_cfg lossy_env None [sample_peer] 0 (cap_start sample_cfg) = Some (wait, s') \<and> schedule_ok sample_cfg s'"
proof -
  have "cc_dscp sample_cfg \<noteq> []" by (simp add: sample_eqs)
  from step_returns [OF sample_valid(1) this schedule_start, of lossy_env None "[sample_peer]" 0] show ?thesis
    using lossy_never_silent by blast
qed

subsection \<open>A cycle comes to its end\<close>

definition not_held :: "cap_env \<times> outcome \<Rightarrow> bool" where
  "not_held x = (\<not> ce_cancelled (fst x) \<and> (oc_skip (snd x) \<noteq> [] \<longrightarrow> oc_drop (snd x)) \<and> 0 \<le> ce_jitter (fst x))"

definition run_cycle :: "cap_cfg \<Rightarrow> link_peer \<Rightarrow> (cap_env \<times> outcome) list \<Rightarrow> cap_peer \<Rightarrow> cap_peer" where
  "run_cycle c p = fold (\<lambda>(e, out) st. if cp_queue st = [] then st else settle c e p out st)"

lemma next_cycle_far:
  assumes "10 * minute \<le> d" "0 \<le> j"
  shows "9 * minute \<le> \<lfloor>of_int d * (9 / 10 + 2 / 10 * j) :: rat\<rfloor>"
proof -
  have "of_int (9 * minute) \<le> (of_int (10 * minute) :: rat) * (9 / 10)" by simp
  also have "\<dots> \<le> of_int d * (9 / 10 + 2 / 10 * j)" using assms by (intro mult_mono) simp_all
  finally show ?thesis by (simp only: le_floor_iff)
qed

lemma settle_queue:
  assumes "not_held (e, out)" "cp_queue st \<noteq> []" "10 * minute \<le> every_of c p" "10 * minute \<le> cc_every c"
  shows "length (cp_queue (settle c e p out st)) < length (cp_queue st)"
    "cp_queue (settle c e p out st) = [] \<Longrightarrow> ce_end e + 9 * minute \<le> cp_next (settle c e p out st)"
proof -
  have j: "0 \<le> ce_jitter e" using assms(1) by (simp add: not_held_def)
  have b: "10 * minute \<le> min (cc_every c) (30 * minute * 2 ^ n)" for n :: nat
  proof -
    have "(1 :: int) \<le> 2 ^ n" by simp
    then have "10 * minute \<le> 30 * minute * 2 ^ n" by linarith
    then show ?thesis using assms(4) by simp
  qed
  show "length (cp_queue (settle c e p out st)) < length (cp_queue st)"
    using assms(1,2) by (auto simp: not_held_def settle_def advance_def Let_def)
  show "cp_queue (settle c e p out st) = [] \<Longrightarrow> ce_end e + 9 * minute \<le> cp_next (settle c e p out st)"
    using assms(1,2) next_cycle_far [OF assms(3) j] b [of "min (cp_failures st) 6"]
    by (auto simp: not_held_def settle_def advance_def Let_def split: if_splits)
qed

text \<open>
  A cycle comes to its end: as many tests as its queue holds, none held back and none cut short by the end of the
  process, whatever each of them comes to, empty the queue, and the next cycle is at least nine minutes after the
  first of them was done.
\<close>

theorem cycle_ends:
  assumes "Validate c = None" "0 < lp_every p \<Longrightarrow> 10 * minute \<le> lp_every p" "\<forall>x \<in> set outs. not_held x \<and> T \<le> ce_end (fst x)"
    "cp_queue st \<noteq> []" "length (cp_queue st) \<le> length outs"
  shows "cp_queue (run_cycle c p outs st) = [] \<and> T + 9 * minute \<le> cp_next (run_cycle c p outs st)"
proof -
  have every: "10 * minute \<le> cc_every c" "10 * minute \<le> every_of c p"
    using Validate_tcp(1) [OF assms(1)] assms(2) by (simp_all add: every_of_def)
  have rest: "run_cycle c p xs st = st" if "cp_queue st = []" for xs st
    using that by (induction xs) (auto simp: run_cycle_def)
  show ?thesis using assms(3-5)
  proof (induction outs arbitrary: st)
    case (Cons x outs)
    obtain e out where x: "x = (e, out)" by (cases x)
    let ?st = "settle c e p out st"
    have held: "not_held (e, out)" "T \<le> ce_end e" using Cons.prems(1) by (simp_all add: x)
    note q = settle_queue [OF held(1) Cons.prems(2) every(2,1)]
    have run: "run_cycle c p (x # outs) st = run_cycle c p outs ?st" using Cons.prems(2) by (simp add: run_cycle_def x)
    show ?case
    proof (cases "cp_queue ?st = []")
      case True
      then show ?thesis using q(2) held(2) unfolding run rest [OF True] by linarith
    next
      case False
      then show ?thesis unfolding run using Cons.IH [OF _ False] Cons.prems q(1) by simp
    qed
  qed simp
qed

lemma cycle_ends_witness:
  "cp_queue (run_cycle sample_cfg sample_peer (replicate 10 (lossy_env, failed ''other'')) (begin_cycle sample_cfg (fresh_peer sample_cfg (\<lambda>_ _. 0) 0 ''b''))) = []"
proof -
  let ?st = "begin_cycle sample_cfg (fresh_peer sample_cfg (\<lambda>_ _. 0) 0 ''b'')"
  have q: "cp_queue ?st \<noteq> []" "length (cp_queue ?st) \<le> length (replicate 10 (lossy_env, failed ''other''))"
    by (simp_all add: begin_cycle_def fresh_peer_def plan_def sample_eqs)
  have "\<forall>x \<in> set (replicate 10 (lossy_env, failed ''other'')). not_held x \<and> 0 \<le> ce_end (fst x)"
    by (simp add: not_held_def lossy_env_def failed_def no_outcome_def)
  from cycle_ends [OF sample_valid(1) _ this q, of sample_peer] show ?thesis by (simp add: sample_peer_def)
qed

end
