(* ===== verification/AuditTrail.thy ===== *)
theory AuditTrail
  imports Prelude
begin

text \<open>
  The audit trail (\<open>store/auditchain.go\<close>) and the writes that carry a row of it (\<open>store/write.go\<close>). Every
  row is linked to the one before by a hash; \<open>VerifyAudit\<close> walks the trail and reports the first link that does not hold.

  The table is the list of its rows by ascending id, with what SQLite remembers of the highest id an \<open>AUTOINCREMENT\<close>
  column has given out. SHA-256 is an argument, \<open>sha\<close>: what is proved of the chain holds for every function with a
  result of 32 bytes, and says where a collision is needed to escape it. Which statements of the database fail is an argument too.
\<close>

subsection \<open>Rows and their hash\<close>

record audit_event =
  ae_ID :: int
  ae_At :: "time option"
  ae_OrgID :: string
  ae_Actor :: string
  ae_Action :: string
  ae_TargetKind :: string
  ae_TargetID :: string
  ae_Detail :: string

record audit_row =
  ar_ID :: int
  ar_at :: int
  ar_OrgID :: string
  ar_Actor :: string
  ar_Action :: string
  ar_TargetKind :: string
  ar_TargetID :: string
  ar_Detail :: string
  ar_hash :: string

definition genesis :: string where "genesis = replicate 32 (CHR 0x00)"

text \<open>\<open>Time.UnixMilli\<close> and its inverse; the zero \<open>Time\<close> is in the year 1.\<close>

definition zero_time :: time where "zero_time = - 62135596800 * second"

definition ms :: "time option \<Rightarrow> int" where
  "ms t = (case t of None \<Rightarrow> zero_time div 1000000 | Some t \<Rightarrow> t div 1000000)"

definition fromMS :: "int \<Rightarrow> time option" where
  "fromMS v = (let t = v * 1000000 in if t = zero_time then None else Some t)"

text \<open>\<open>binary.BigEndian.PutUint64\<close>.\<close>

fun be_bytes :: "nat \<Rightarrow> nat \<Rightarrow> string" where
  "be_bytes 0 n = []"
| "be_bytes (Suc k) n = be_bytes k (n div 256) @ [char_of (n mod 256)]"

definition put64 :: "int \<Rightarrow> string" where
  "put64 v = be_bytes 8 (unat (word_of_int v :: u64))"

definition put_str :: "string \<Rightarrow> string" where
  "put_str s = put64 (int (length s)) @ s"

definition audit_bytes :: "string \<Rightarrow> audit_event \<Rightarrow> string" where
  "audit_bytes prev e = prev @ put64 (ae_ID e) @ put64 (ms (ae_At e)) @ put_str (ae_OrgID e) @ put_str (ae_Actor e)
     @ put_str (ae_Action e) @ put_str (ae_TargetKind e) @ put_str (ae_TargetID e) @ put_str (ae_Detail e)"

definition auditHash :: "(string \<Rightarrow> string) \<Rightarrow> string \<Rightarrow> audit_event \<Rightarrow> string" where
  "auditHash sha prev e = sha (audit_bytes prev e)"

subsection \<open>Appending a row\<close>

record 'r audit_db =
  ad_rows :: "audit_row list"
  ad_seq :: "int option"
  ad_rest :: 'r

datatype sql_stmt = SqlBegin | SqlLastHash | SqlInsert | SqlRowId | SqlSetHash | SqlCommit

datatype audit_error = SqlFailed sql_stmt | TableFull

text \<open>The id an \<open>AUTOINCREMENT\<close> column gives: one more than any it has given, and than any in the table.\<close>

definition next_id :: "'r audit_db \<Rightarrow> int" where
  "next_id d = max (case ad_seq d of None \<Rightarrow> 0 | Some s \<Rightarrow> s) (fold (\<lambda>r. max (ar_ID r)) (ad_rows d) 0) + 1"

definition last_hash :: "audit_row list \<Rightarrow> string option" where
  "last_hash rs = (case filter (\<lambda>r. ar_hash r \<noteq> []) rs of [] \<Rightarrow> None | h # hs \<Rightarrow> Some (ar_hash (last (h # hs))))"

definition appendAudit :: "(string \<Rightarrow> string) \<Rightarrow> (sql_stmt \<Rightarrow> bool) \<Rightarrow> time \<Rightarrow> audit_event \<Rightarrow> 'r audit_db \<Rightarrow> audit_error + 'r audit_db" where
  "appendAudit sha fails now e d =
     (let e = (if ae_At e = None then e\<lparr>ae_At := Some now\<rparr> else e) in
      if fails SqlLastHash then Inl (SqlFailed SqlLastHash)
      else (let prev = (case last_hash (ad_rows d) of None \<Rightarrow> genesis | Some h \<Rightarrow> h) in
      if fails SqlInsert then Inl (SqlFailed SqlInsert)
      else (let id = next_id d in
      if id \<ge> 2 ^ 63 then Inl TableFull
      else if fails SqlRowId then Inl (SqlFailed SqlRowId)
      else (let e = e\<lparr>ae_ID := id, ae_At := fromMS (ms (ae_At e))\<rparr> in
      if fails SqlSetHash then Inl (SqlFailed SqlSetHash)
      else Inr (d\<lparr>ad_seq := Some id,
             ad_rows := ad_rows d @ [\<lparr>ar_ID = id, ar_at = ms (ae_At e), ar_OrgID = ae_OrgID e, ar_Actor = ae_Actor e,
                ar_Action = ae_Action e, ar_TargetKind = ae_TargetKind e, ar_TargetID = ae_TargetID e,
                ar_Detail = ae_Detail e, ar_hash = auditHash sha prev e\<rparr>]\<rparr>)))))"

definition AddAudit :: "(string \<Rightarrow> string) \<Rightarrow> (sql_stmt \<Rightarrow> bool) \<Rightarrow> time \<Rightarrow> audit_event \<Rightarrow> 'r audit_db \<Rightarrow> audit_error option \<times> 'r audit_db" where
  "AddAudit sha fails now e d =
     (if fails SqlBegin then (Some (SqlFailed SqlBegin), d)
      else case appendAudit sha fails now e d of
          Inl err \<Rightarrow> (Some err, d)
        | Inr d' \<Rightarrow> if fails SqlCommit then (Some (SqlFailed SqlCommit), d) else (None, d'))"

subsection \<open>Writes that carry a row\<close>

datatype 'e write_error = WriteDb audit_error | WriteRefused 'e | ErrLedgerWrite | ErrAuditWrite audit_error

datatype 'e refusal = NoChange | Refused 'e

record 'c write_options =
  wo_audit :: "audit_event option"
  wo_certs :: "'c list"

text \<open>
  The loop over the certificates of the ledger: \<open>cert\<close> is \<open>insertOperatorCert\<close>.
\<close>

fun insert_certs :: "('c \<Rightarrow> 'r \<Rightarrow> 'r option) \<Rightarrow> 'c list \<Rightarrow> 'r \<Rightarrow> 'r option" where
  "insert_certs cert [] r = Some r"
| "insert_certs cert (c # cs) r = (case cert c r of None \<Rightarrow> None | Some r' \<Rightarrow> insert_certs cert cs r')"

definition sql_write :: "(string \<Rightarrow> string) \<Rightarrow> (sql_stmt \<Rightarrow> bool) \<Rightarrow> time \<Rightarrow> ('c \<Rightarrow> 'r \<Rightarrow> 'r option) \<Rightarrow> 'c write_options
    \<Rightarrow> ('r \<Rightarrow> 'e refusal + 'r) \<Rightarrow> 'r audit_db \<Rightarrow> 'e write_error option \<times> 'r audit_db" where
  "sql_write sha fails now cert opts fn d =
     (if fails SqlBegin then (Some (WriteDb (SqlFailed SqlBegin)), d)
      else case fn (ad_rest d) of
          Inl NoChange \<Rightarrow> (None, d)
        | Inl (Refused err) \<Rightarrow> (Some (WriteRefused err), d)
        | Inr rest \<Rightarrow>
            (case insert_certs cert (wo_certs opts) rest of
               None \<Rightarrow> (Some ErrLedgerWrite, d)
             | Some rest \<Rightarrow>
                 (case (case wo_audit opts of None \<Rightarrow> Inr (d\<lparr>ad_rest := rest\<rparr>)
                          | Some e \<Rightarrow> appendAudit sha fails now e (d\<lparr>ad_rest := rest\<rparr>)) of
                    Inl err \<Rightarrow> (Some (ErrAuditWrite err), d)
                  | Inr d' \<Rightarrow> if fails SqlCommit then (Some (WriteDb (SqlFailed SqlCommit)), d) else (None, d'))))"

subsection \<open>Verifying the trail\<close>

datatype audit_problem = NoProblem | RowUnhashed int | RowChanged int | TailRemoved int int

record audit_report =
  rp_Rows :: int
  rp_Unchained :: int
  rp_Chained :: int
  rp_Head :: string
  rp_OK :: bool
  rp_BrokenAt :: int
  rp_Problem :: audit_problem

definition audit_fail :: "int \<Rightarrow> audit_problem \<Rightarrow> audit_report \<Rightarrow> audit_report" where
  "audit_fail i p r = (if rp_OK r then r\<lparr>rp_OK := False, rp_BrokenAt := i, rp_Problem := p\<rparr> else r)"

record verify_state =
  vs_r :: audit_report
  vs_prev :: string
  vs_started :: bool
  vs_lastID :: int

definition row_event :: "audit_row \<Rightarrow> audit_event" where
  "row_event w = \<lparr>ae_ID = ar_ID w, ae_At = fromMS (ar_at w), ae_OrgID = ar_OrgID w, ae_Actor = ar_Actor w,
     ae_Action = ar_Action w, ae_TargetKind = ar_TargetKind w, ae_TargetID = ar_TargetID w, ae_Detail = ar_Detail w\<rparr>"

definition verify_row :: "(string \<Rightarrow> string) \<Rightarrow> audit_row \<Rightarrow> verify_state \<Rightarrow> verify_state" where
  "verify_row sha w s =
     (let e = row_event w; r = (vs_r s)\<lparr>rp_Rows := rp_Rows (vs_r s) + 1\<rparr>; s = s\<lparr>vs_lastID := ae_ID e\<rparr>
      in if ar_hash w = [] then
           (if vs_started s then s\<lparr>vs_r := audit_fail (ae_ID e) (RowUnhashed (ae_ID e)) r\<rparr>
            else s\<lparr>vs_r := r\<lparr>rp_Unchained := rp_Unchained r + 1\<rparr>\<rparr>)
         else (let want = auditHash sha (vs_prev s) e;
                   r = (if want \<noteq> ar_hash w then audit_fail (ae_ID e) (RowChanged (ae_ID e)) r
                        else if rp_OK r then r\<lparr>rp_Chained := rp_Chained r + 1\<rparr> else r)
               in s\<lparr>vs_started := True, vs_r := r, vs_prev := ar_hash w\<rparr>))"

definition hex_digit :: "nat \<Rightarrow> char" where
  "hex_digit n = char_of (if n < 10 then n + 48 else n + 87)"

definition hex :: "string \<Rightarrow> string" where
  "hex s = concat (map (\<lambda>c. [hex_digit (of_char c div 16), hex_digit (of_char c mod 16)]) s)"

definition verify_start :: verify_state where
  "verify_start = \<lparr>vs_r = \<lparr>rp_Rows = 0, rp_Unchained = 0, rp_Chained = 0, rp_Head = [], rp_OK = True, rp_BrokenAt = 0,
     rp_Problem = NoProblem\<rparr>, vs_prev = genesis, vs_started = False, vs_lastID = 0\<rparr>"

record verify_io =
  vi_query :: bool
  vi_scan :: "int \<Rightarrow> bool"
  vi_rows :: bool
  vi_seq :: bool

fun verify_rows :: "(string \<Rightarrow> string) \<Rightarrow> (int \<Rightarrow> bool) \<Rightarrow> audit_row list \<Rightarrow> verify_state \<Rightarrow> verify_state + verify_state" where
  "verify_rows sha bad [] s = Inr s"
| "verify_rows sha bad (w # ws) s = (if bad (ar_ID w) then Inl s else verify_rows sha bad ws (verify_row sha w s))"

definition VerifyAudit :: "(string \<Rightarrow> string) \<Rightarrow> verify_io \<Rightarrow> 'r audit_db \<Rightarrow> audit_report \<times> bool" where
  "VerifyAudit sha io d =
     (if vi_query io then ((vs_r verify_start)\<lparr>rp_OK := False\<rparr>, True)
      else case verify_rows sha (vi_scan io) (ad_rows d) verify_start of
          Inl s \<Rightarrow> (vs_r s, True)
        | Inr s \<Rightarrow>
            if vi_rows io then (vs_r s, True)
            else if \<not> vs_started s then (vs_r s, False)
            else (let r = (vs_r s)\<lparr>rp_Head := hex (vs_prev s)\<rparr>
                  in case ad_seq d of
                       Some q \<Rightarrow> if \<not> vi_seq io \<and> q > vs_lastID s
                                 then (audit_fail (vs_lastID s + 1) (TailRemoved (vs_lastID s) q) r, False) else (r, False)
                     | None \<Rightarrow> (r, False)))"


subsection \<open>The encoding is injective\<close>

lemma length_be_bytes [simp]: "length (be_bytes k n) = k"
  by (induction k n rule: be_bytes.induct) auto

lemma be_bytes_inj: "be_bytes k n = be_bytes k m \<Longrightarrow> n < 256 ^ k \<Longrightarrow> m < 256 ^ k \<Longrightarrow> n = m"
proof (induction k n arbitrary: m rule: be_bytes.induct)
  case (2 k n)
  then have "n div 256 = m div 256" "(of_char (char_of (n mod 256) :: char) :: nat) = of_char (char_of (m mod 256) :: char)"
    by (auto simp: less_mult_imp_div_less)
  then show ?case by (metis div_mult_mod_eq mod_mod_trivial of_char_of)
qed simp

lemma length_put64 [simp]: "length (put64 v) = 8"
  by (simp add: put64_def)

lemma put64_inj:
  assumes "put64 v = put64 w"
  shows "(word_of_int v :: u64) = word_of_int w"
proof -
  have bound: "unat x < 256 ^ 8" for x :: u64
  proof -
    have "unat x < 2 ^ LENGTH(64)" by (rule unsigned_less)
    then show ?thesis by simp
  qed
  have "unat (word_of_int v :: u64) = unat (word_of_int w :: u64)"
    using assms unfolding put64_def by (rule be_bytes_inj [OF _ bound bound])
  then show ?thesis by (rule unsigned_word_eqI)
qed

definition int64 :: "int \<Rightarrow> bool" where "int64 v \<longleftrightarrow> - (2 ^ 63) \<le> v \<and> v < 2 ^ 63"

lemma sint_int64: "int64 v \<Longrightarrow> sint (word_of_int v :: u64) = v"
  by (simp add: int_word_sint int64_def)

lemma put64_int64_inj: "int64 v \<Longrightarrow> int64 w \<Longrightarrow> put64 v = put64 w \<longleftrightarrow> v = w"
  by (metis put64_inj sint_int64)


lemma put_str_inj:
  assumes "length s < 2 ^ 63" "length t < 2 ^ 63" "put_str s @ x = put_str t @ y"
  shows "s = t \<and> x = y"
proof -
  have b: "int64 (int (length s))" "int64 (int (length t))" using assms(1,2) by (auto simp: int64_def)
  have "put64 (int (length s)) = put64 (int (length t))" and r: "s @ x = t @ y"
    using assms(3) by (auto simp: put_str_def)
  with b have "length s = length t" by (simp add: put64_int64_inj)
  with r show ?thesis by simp
qed

text \<open>What SQLite and Go can hold: ids and times of 64 bits, strings shorter than \<open>2^63\<close> bytes.\<close>

definition event_fits :: "audit_event \<Rightarrow> bool" where
  "event_fits e \<longleftrightarrow> int64 (ae_ID e) \<and> int64 (ms (ae_At e)) \<and> length (ae_OrgID e) < 2 ^ 63 \<and> length (ae_Actor e) < 2 ^ 63
     \<and> length (ae_Action e) < 2 ^ 63 \<and> length (ae_TargetKind e) < 2 ^ 63 \<and> length (ae_TargetID e) < 2 ^ 63 \<and> length (ae_Detail e) < 2 ^ 63"

lemma audit_bytes_inj:
  assumes "audit_bytes p e = audit_bytes q f" "length p = length q" "event_fits e" "event_fits f"
  shows "p = q \<and> ae_ID e = ae_ID f \<and> ms (ae_At e) = ms (ae_At f) \<and> ae_OrgID e = ae_OrgID f \<and> ae_Actor e = ae_Actor f
    \<and> ae_Action e = ae_Action f \<and> ae_TargetKind e = ae_TargetKind f \<and> ae_TargetID e = ae_TargetID f \<and> ae_Detail e = ae_Detail f"
proof -
  note fits = assms(3,4)[unfolded event_fits_def]
  have "p = q" "put64 (ae_ID e) = put64 (ae_ID f)" "put64 (ms (ae_At e)) = put64 (ms (ae_At f))"
    and tail: "put_str (ae_OrgID e) @ put_str (ae_Actor e) @ put_str (ae_Action e) @ put_str (ae_TargetKind e) @ put_str (ae_TargetID e) @ put_str (ae_Detail e)
      = put_str (ae_OrgID f) @ put_str (ae_Actor f) @ put_str (ae_Action f) @ put_str (ae_TargetKind f) @ put_str (ae_TargetID f) @ put_str (ae_Detail f)"
    using assms(1,2) by (auto simp: audit_bytes_def)
  moreover from this fits have "ae_ID e = ae_ID f" "ms (ae_At e) = ms (ae_At f)" by (simp_all add: put64_int64_inj)
  moreover obtain t1: "ae_OrgID e = ae_OrgID f" and r1: "put_str (ae_Actor e) @ put_str (ae_Action e) @ put_str (ae_TargetKind e) @ put_str (ae_TargetID e) @ put_str (ae_Detail e)
      = put_str (ae_Actor f) @ put_str (ae_Action f) @ put_str (ae_TargetKind f) @ put_str (ae_TargetID f) @ put_str (ae_Detail f)"
    using put_str_inj[OF _ _ tail] fits by blast
  moreover obtain t2: "ae_Actor e = ae_Actor f" and r2: "put_str (ae_Action e) @ put_str (ae_TargetKind e) @ put_str (ae_TargetID e) @ put_str (ae_Detail e)
      = put_str (ae_Action f) @ put_str (ae_TargetKind f) @ put_str (ae_TargetID f) @ put_str (ae_Detail f)"
    using put_str_inj[OF _ _ r1] fits by blast
  moreover obtain t3: "ae_Action e = ae_Action f" and r3: "put_str (ae_TargetKind e) @ put_str (ae_TargetID e) @ put_str (ae_Detail e)
      = put_str (ae_TargetKind f) @ put_str (ae_TargetID f) @ put_str (ae_Detail f)"
    using put_str_inj[OF _ _ r2] fits by blast
  moreover obtain t4: "ae_TargetKind e = ae_TargetKind f" and r4: "put_str (ae_TargetID e) @ put_str (ae_Detail e) = put_str (ae_TargetID f) @ put_str (ae_Detail f)"
    using put_str_inj[OF _ _ r3] fits by blast
  moreover obtain t5: "ae_TargetID e = ae_TargetID f" and r5: "put_str (ae_Detail e) @ [] = put_str (ae_Detail f) @ []"
    using put_str_inj[OF _ _ r4] fits by auto
  moreover have "ae_Detail e = ae_Detail f" using put_str_inj[OF _ _ r5] fits by blast
  ultimately show ?thesis by simp
qed

lemma ms_fromMS [simp]: "ms (fromMS v) = v"
  by (auto simp: ms_def fromMS_def zero_time_def Let_def)

lemma row_event_inj:
  "audit_bytes p (row_event v) = audit_bytes q (row_event w) \<Longrightarrow> length p = length q \<Longrightarrow> event_fits (row_event v)
    \<Longrightarrow> event_fits (row_event w) \<Longrightarrow> ar_hash v = ar_hash w \<Longrightarrow> p = q \<and> v = w"
  using audit_bytes_inj[of p "row_event v" q "row_event w"] by (simp add: row_event_def)

subsection \<open>Linked rows\<close>

definition links :: "(string \<Rightarrow> string) \<Rightarrow> string \<Rightarrow> audit_row \<Rightarrow> bool" where
  "links sha prev w \<longleftrightarrow> ar_hash w \<noteq> [] \<and> ar_hash w = auditHash sha prev (row_event w)"

definition head_of :: "string \<Rightarrow> audit_row list \<Rightarrow> string" where
  "head_of prev ws = (if ws = [] then prev else ar_hash (last ws))"

fun linked :: "(string \<Rightarrow> string) \<Rightarrow> string \<Rightarrow> audit_row list \<Rightarrow> bool" where
  "linked sha prev [] = True"
| "linked sha prev (w # ws) = (links sha prev w \<and> linked sha (ar_hash w) ws)"

lemma head_of_simps [simp]: "head_of p [] = p" "head_of p (w # ws) = head_of (ar_hash w) ws" "head_of p (ws @ [w]) = ar_hash w"
  by (auto simp: head_of_def)

lemma linked_append [simp]: "linked sha p (xs @ ys) \<longleftrightarrow> linked sha p xs \<and> linked sha (head_of p xs) ys"
  by (induction xs arbitrary: p) auto

abbreviation unhashed :: "audit_row \<Rightarrow> bool" where "unhashed w \<equiv> ar_hash w = []"

definition chained :: "'r audit_db \<Rightarrow> audit_row list" where
  "chained d = dropWhile unhashed (ad_rows d)"

definition legacy :: "'r audit_db \<Rightarrow> audit_row list" where
  "legacy d = takeWhile unhashed (ad_rows d)"

lemma rows_split: "ad_rows d = legacy d @ chained d"
  by (simp add: legacy_def chained_def)


subsection \<open>What the walk finds\<close>

lemma verify_rows_good:
  "(\<And>w. w \<in> set ws \<Longrightarrow> \<not> bad (ar_ID w)) \<Longrightarrow> verify_rows sha bad ws s = Inr (fold (verify_row sha) ws s)"
  by (induction ws arbitrary: s) auto

definition last_id :: "int \<Rightarrow> audit_row list \<Rightarrow> int" where
  "last_id i ws = (if ws = [] then i else ar_ID (last ws))"

lemma last_id_simps [simp]: "last_id i [] = i" "last_id i (w # ws) = last_id (ar_ID w) ws" "last_id i (ws @ [w]) = ar_ID w"
  by (auto simp: last_id_def)

lemma row_event_ID [simp]: "ae_ID (row_event w) = ar_ID w"
  by (simp add: row_event_def)

lemmas walk_defs = verify_row_def audit_fail_def links_def Let_def

lemma walk_legacy:
  "list_all unhashed ws \<Longrightarrow> \<not> vs_started s \<Longrightarrow>
   fold (verify_row sha) ws s = s\<lparr>vs_lastID := last_id (vs_lastID s) ws,
     vs_r := (vs_r s)\<lparr>rp_Rows := rp_Rows (vs_r s) + int (length ws), rp_Unchained := rp_Unchained (vs_r s) + int (length ws)\<rparr>\<rparr>"
  by (induction ws arbitrary: s) (auto simp: walk_defs)

lemma walk_linked:
  "linked sha (vs_prev s) ws \<Longrightarrow> rp_OK (vs_r s) \<Longrightarrow>
   fold (verify_row sha) ws s = s\<lparr>vs_lastID := last_id (vs_lastID s) ws, vs_started := (vs_started s \<or> ws \<noteq> []), vs_prev := head_of (vs_prev s) ws,
     vs_r := (vs_r s)\<lparr>rp_Rows := rp_Rows (vs_r s) + int (length ws), rp_Chained := rp_Chained (vs_r s) + int (length ws)\<rparr>\<rparr>"
  by (induction ws arbitrary: s) (auto simp: walk_defs)

lemma walk_broken:
  "\<not> rp_OK (vs_r s) \<Longrightarrow> vs_started s \<Longrightarrow>
   (let t = fold (verify_row sha) ws s in \<not> rp_OK (vs_r t) \<and> vs_started t \<and> rp_BrokenAt (vs_r t) = rp_BrokenAt (vs_r s) \<and> rp_Problem (vs_r t) = rp_Problem (vs_r s)
     \<and> rp_Chained (vs_r t) = rp_Chained (vs_r s) \<and> rp_Unchained (vs_r t) = rp_Unchained (vs_r s) \<and> rp_Rows (vs_r t) = rp_Rows (vs_r s) + int (length ws))"
proof (induction ws arbitrary: s)
  case (Cons w ws)
  let ?s = "verify_row sha w s"
  have "\<not> rp_OK (vs_r ?s)" "vs_started ?s" "rp_BrokenAt (vs_r ?s) = rp_BrokenAt (vs_r s)" "rp_Problem (vs_r ?s) = rp_Problem (vs_r s)"
    "rp_Chained (vs_r ?s) = rp_Chained (vs_r s)" "rp_Unchained (vs_r ?s) = rp_Unchained (vs_r s)" "rp_Rows (vs_r ?s) = rp_Rows (vs_r s) + 1"
    using Cons.prems by (auto simp: walk_defs)
  with Cons.IH[of ?s] show ?case by (simp add: Let_def)
qed simp

lemma walk_unlinked:
  assumes "rp_OK (vs_r s)" "vs_started s \<or> ar_hash w \<noteq> []" "\<not> links sha (vs_prev s) w"
  shows "\<not> rp_OK (vs_r (verify_row sha w s)) \<and> vs_started (verify_row sha w s) \<and> rp_BrokenAt (vs_r (verify_row sha w s)) = ar_ID w
    \<and> rp_Problem (vs_r (verify_row sha w s)) = (if ar_hash w = [] then RowUnhashed (ar_ID w) else RowChanged (ar_ID w))
    \<and> rp_Chained (vs_r (verify_row sha w s)) = rp_Chained (vs_r s)"
  using assms by (auto simp: walk_defs)

lemma linked_prefix: "\<not> linked sha p ws \<Longrightarrow> \<exists>good w rest. ws = good @ w # rest \<and> linked sha p good \<and> \<not> links sha (head_of p good) w"
proof (induction ws arbitrary: p)
  case (Cons w ws)
  show ?case
  proof (cases "links sha p w")
    case True
    with Cons.prems have "\<not> linked sha (ar_hash w) ws" by simp
    from Cons.IH[OF this] obtain good v rest where "ws = good @ v # rest" "linked sha (ar_hash w) good" "\<not> links sha (head_of (ar_hash w) good) v"
      by blast
    with True show ?thesis by (intro exI[of _ "w # good"] exI[of _ v] exI[of _ rest]) simp
  next
    case False then show ?thesis by (intro exI[of _ "[]"]) auto
  qed
qed simp

definition vi_fine :: verify_io where
  "vi_fine = \<lparr>vi_query = False, vi_scan = (\<lambda>_. False), vi_rows = False, vi_seq = False\<rparr>"

abbreviation report :: "(string \<Rightarrow> string) \<Rightarrow> 'r audit_db \<Rightarrow> audit_report" where
  "report sha d \<equiv> fst (VerifyAudit sha vi_fine d)"

abbreviation walk_from :: "'r audit_db \<Rightarrow> verify_state" where
  "walk_from d \<equiv> verify_start\<lparr>vs_lastID := last_id 0 (legacy d), vs_r := (vs_r verify_start)\<lparr>rp_Rows := int (length (legacy d)), rp_Unchained := int (length (legacy d))\<rparr>\<rparr>"

lemma legacy_unhashed: "list_all unhashed (legacy d)"
  by (auto simp: legacy_def list_all_iff dest: set_takeWhileD)

lemma walk_all: "fold (verify_row sha) (ad_rows d) verify_start = fold (verify_row sha) (chained d) (walk_from d)"
proof -
  have "fold (verify_row sha) (legacy d) verify_start = walk_from d"
    by (subst walk_legacy[OF legacy_unhashed]) (simp_all add: verify_start_def)
  then show ?thesis by (subst rows_split) simp
qed

text \<open>The highest id SQLite remembers is that of the last row.\<close>

definition tail_kept :: "'r audit_db \<Rightarrow> bool" where
  "tail_kept d \<longleftrightarrow> (case ad_seq d of None \<Rightarrow> True | Some q \<Rightarrow> q \<le> last_id 0 (ad_rows d))"

lemma report_linked:
  assumes "linked sha genesis (chained d)"
  shows "report sha d = (let n = int (length (legacy d)); m = int (length (chained d)); l = last_id 0 (ad_rows d);
     r = \<lparr>rp_Rows = n + m, rp_Unchained = n, rp_Chained = m, rp_Head = (if chained d = [] then [] else hex (head_of genesis (chained d))),
          rp_OK = True, rp_BrokenAt = 0, rp_Problem = NoProblem\<rparr>
     in if chained d = [] \<or> tail_kept d then r
        else r\<lparr>rp_OK := False, rp_BrokenAt := l + 1, rp_Problem := TailRemoved l (the (ad_seq d))\<rparr>)"
proof -
  have l: "last_id (last_id 0 (legacy d)) (chained d) = last_id 0 (ad_rows d)"
    using rows_split[of d] by (auto simp: last_id_def)
  have "fold (verify_row sha) (ad_rows d) verify_start = (walk_from d)\<lparr>vs_lastID := last_id 0 (ad_rows d), vs_started := (chained d \<noteq> []),
      vs_prev := head_of genesis (chained d), vs_r := (vs_r (walk_from d))\<lparr>rp_Rows := int (length (legacy d)) + int (length (chained d)), rp_Chained := int (length (chained d))\<rparr>\<rparr>"
    unfolding walk_all by (subst walk_linked) (use assms l in \<open>simp_all add: verify_start_def\<close>)
  moreover have "verify_rows sha (vi_scan vi_fine) (ad_rows d) verify_start = Inr (fold (verify_row sha) (ad_rows d) verify_start)"
    by (rule verify_rows_good) (simp add: vi_fine_def)
  ultimately show ?thesis
    by (auto simp: VerifyAudit_def vi_fine_def Let_def tail_kept_def audit_fail_def verify_start_def split: option.splits)
qed


lemma report_broken:
  assumes good: "linked sha genesis good" and w: "\<not> links sha (head_of genesis good) w" and d: "chained d = good @ w # rest"
  shows "\<not> rp_OK (report sha d) \<and> rp_BrokenAt (report sha d) = ar_ID w \<and> rp_Chained (report sha d) = int (length good)
      \<and> rp_Problem (report sha d) = (if ar_hash w = [] then RowUnhashed (ar_ID w) else RowChanged (ar_ID w))"
proof -
  let ?s = "fold (verify_row sha) good (walk_from d)" and ?t = "fold (verify_row sha) (ad_rows d) verify_start"
  have s: "?s = (walk_from d)\<lparr>vs_lastID := last_id (last_id 0 (legacy d)) good, vs_started := (good \<noteq> []), vs_prev := head_of genesis good,
      vs_r := (vs_r (walk_from d))\<lparr>rp_Chained := int (length good), rp_Rows := int (length (legacy d)) + int (length good)\<rparr>\<rparr>"
    by (subst walk_linked) (use good in \<open>simp_all add: verify_start_def\<close>)
  have "good \<noteq> [] \<or> ar_hash w \<noteq> []"
    using d hd_dropWhile[of unhashed "ad_rows d"] by (cases good) (auto simp: chained_def)
  then have "rp_OK (vs_r ?s)" "vs_started ?s \<or> ar_hash w \<noteq> []" "\<not> links sha (vs_prev ?s) w" and c: "rp_Chained (vs_r ?s) = int (length good)"
    using w unfolding s by (auto simp: verify_start_def)
  note u = walk_unlinked[OF this(1-3)]
  have "?t = fold (verify_row sha) rest (verify_row sha w ?s)" unfolding walk_all d by simp
  with u c walk_broken[of "verify_row sha w ?s" sha rest]
  have "\<not> rp_OK (vs_r ?t) \<and> vs_started ?t \<and> rp_BrokenAt (vs_r ?t) = ar_ID w \<and> rp_Chained (vs_r ?t) = int (length good)
      \<and> rp_Problem (vs_r ?t) = (if ar_hash w = [] then RowUnhashed (ar_ID w) else RowChanged (ar_ID w))"
    by (simp add: Let_def)
  moreover have "verify_rows sha (vi_scan vi_fine) (ad_rows d) verify_start = Inr ?t"
    by (rule verify_rows_good) (simp add: vi_fine_def)
  ultimately show ?thesis
    by (auto simp: VerifyAudit_def vi_fine_def Let_def audit_fail_def split: option.splits)
qed

lemma report_ok_linked: "rp_OK (report sha d) \<Longrightarrow> linked sha genesis (chained d)"
  using linked_prefix[of sha genesis "chained d"] report_broken by blast

text \<open>
  \<open>VerifyAudit\<close> reports exactly the first row that does not follow from the row before it: when the rows from the first hashed one
  on are \<open>good @ w # rest\<close>, every row of \<open>good\<close> follows the one before (the first follows 32 zero bytes) and \<open>w\<close> does
  not, then the report is not OK, names \<open>w\<close>, says whether \<open>w\<close> has no hash or does not match, and counts the rows of
  \<open>good\<close> as checked. When all follow, the report is OK unless rows are missing at the end, which is reported at the id after the last.
\<close>
theorem verify_names_first_break:
  "(linked sha genesis good \<and> \<not> links sha (head_of genesis good) w \<and> chained d = good @ w # rest \<longrightarrow>
      \<not> rp_OK (report sha d) \<and> rp_BrokenAt (report sha d) = ar_ID w \<and> rp_Chained (report sha d) = int (length good)
      \<and> rp_Problem (report sha d) = (if ar_hash w = [] then RowUnhashed (ar_ID w) else RowChanged (ar_ID w)))
   \<and> (linked sha genesis (chained d) \<longrightarrow> rp_Chained (report sha d) = int (length (chained d)) \<and> rp_OK (report sha d) = (chained d = [] \<or> tail_kept d)
      \<and> (\<not> rp_OK (report sha d) \<longrightarrow> rp_BrokenAt (report sha d) = last_id 0 (ad_rows d) + 1))"
  using report_broken[of sha good w d rest] report_linked[of sha d] by (auto simp: Let_def)

subsection \<open>What appending keeps\<close>

definition trail_ok :: "(string \<Rightarrow> string) \<Rightarrow> 'r audit_db \<Rightarrow> bool" where
  "trail_ok sha d \<longleftrightarrow> linked sha genesis (chained d) \<and> (chained d \<noteq> [] \<longrightarrow> tail_kept d)"

lemma linked_hashed: "linked sha p ws \<Longrightarrow> list_all (\<lambda>w. ar_hash w \<noteq> []) ws"
  by (induction ws arbitrary: p) (auto simp: links_def)

lemma last_hash_chained:
  assumes "linked sha genesis (chained d)"
  shows "(case last_hash (ad_rows d) of None \<Rightarrow> genesis | Some h \<Rightarrow> h) = head_of genesis (chained d)"
proof -
  have "filter (\<lambda>r. ar_hash r \<noteq> []) (legacy d) = []"
    using legacy_unhashed[of d] by (simp add: filter_empty_conv list_all_iff)
  moreover have "filter (\<lambda>r. ar_hash r \<noteq> []) (chained d) = chained d"
    using linked_hashed[OF assms] by (simp add: filter_id_conv list_all_iff)
  ultimately have "filter (\<lambda>r. ar_hash r \<noteq> []) (ad_rows d) = chained d"
    by (subst rows_split) simp
  then show ?thesis by (auto simp: last_hash_def head_of_def split: list.splits)
qed

lemma appendAudit_row:
  assumes "appendAudit sha fails now e d = Inr d'"
  obtains w where "d' = d\<lparr>ad_seq := Some (ar_ID w), ad_rows := ad_rows d @ [w]\<rparr>"
    "ar_hash w = auditHash sha (case last_hash (ad_rows d) of None \<Rightarrow> genesis | Some h \<Rightarrow> h) (row_event w)"
    "ar_ID w = next_id d" "ar_Action w = ae_Action e" "ar_Actor w = ae_Actor e" "ar_OrgID w = ae_OrgID e"
    "ar_TargetKind w = ae_TargetKind e" "ar_TargetID w = ae_TargetID e" "ar_Detail w = ae_Detail e"
    "ar_at w = ms (if ae_At e = None then Some now else ae_At e)"
proof -
  define i where "i = next_id d"
  define e1 where "e1 = (if ae_At e = None then e\<lparr>ae_At := Some now\<rparr> else e)"
  define e2 where "e2 = e1\<lparr>ae_ID := i, ae_At := fromMS (ms (ae_At e1))\<rparr>"
  define h where "h = auditHash sha (case last_hash (ad_rows d) of None \<Rightarrow> genesis | Some h \<Rightarrow> h) e2"
  define w where "w = \<lparr>ar_ID = i, ar_at = ms (ae_At e2), ar_OrgID = ae_OrgID e2, ar_Actor = ae_Actor e2, ar_Action = ae_Action e2,
     ar_TargetKind = ae_TargetKind e2, ar_TargetID = ae_TargetID e2, ar_Detail = ae_Detail e2, ar_hash = h\<rparr>"
  have "row_event w = e2" by (simp add: row_event_def w_def e2_def)
  moreover have "d' = d\<lparr>ad_seq := Some (ar_ID w), ad_rows := ad_rows d @ [w]\<rparr>"
    using assms unfolding appendAudit_def Let_def e1_def[symmetric] i_def[symmetric] e2_def[symmetric] h_def[symmetric]
    by (simp add: w_def split: if_splits)
  ultimately show ?thesis
    by (intro that[of w]) (auto simp: w_def h_def i_def e1_def e2_def)
qed

lemma hashed_snoc:
  "ar_hash w \<noteq> [] \<Longrightarrow> dropWhile unhashed (ws @ [w]) = dropWhile unhashed ws @ [w]"
  "ar_hash w \<noteq> [] \<Longrightarrow> takeWhile unhashed (ws @ [w]) = takeWhile unhashed ws"
  by (induction ws) auto

lemma appendAudit_trail:
  assumes "\<And>x. sha x \<noteq> []" "trail_ok sha d" "appendAudit sha fails now e d = Inr d'"
  shows "trail_ok sha d' \<and> legacy d' = legacy d \<and> (\<exists>w. chained d' = chained d @ [w] \<and> ad_rows d' = ad_rows d @ [w]) \<and> ad_rest d' = ad_rest d"
  using assms(3)
proof (rule appendAudit_row)
  fix w assume d': "d' = d\<lparr>ad_seq := Some (ar_ID w), ad_rows := ad_rows d @ [w]\<rparr>"
    and h: "ar_hash w = auditHash sha (case last_hash (ad_rows d) of None \<Rightarrow> genesis | Some h \<Rightarrow> h) (row_event w)"
  have l: "linked sha genesis (chained d)" using assms(2) by (simp add: trail_ok_def)
  have nz: "ar_hash w \<noteq> []" using h assms(1) by (simp add: auditHash_def)
  have c: "chained d' = chained d @ [w]" and g: "legacy d' = legacy d"
    using hashed_snoc[OF nz] by (simp_all add: d' chained_def legacy_def)
  have "links sha (head_of genesis (chained d)) w"
    using nz h by (simp add: links_def last_hash_chained[OF l])
  with l c have "linked sha genesis (chained d')" by simp
  moreover have "tail_kept d'" by (simp add: d' tail_kept_def)
  ultimately show ?thesis using c g by (simp add: trail_ok_def d')
qed


subsection \<open>Histories\<close>

datatype ('c, 'r, 'e) audit_op =
    AddOp "sql_stmt \<Rightarrow> bool" time audit_event
  | WriteOp "sql_stmt \<Rightarrow> bool" time "'c \<Rightarrow> 'r \<Rightarrow> 'r option" "'c write_options" "'r \<Rightarrow> 'e refusal + 'r"

text \<open>One operation: the database after it, and whether it left a row.\<close>

definition audit_op :: "(string \<Rightarrow> string) \<Rightarrow> ('c, 'r, 'e) audit_op \<Rightarrow> 'r audit_db \<Rightarrow> bool \<times> 'r audit_db" where
  "audit_op sha x d = (case x of
       AddOp fails now e \<Rightarrow> (case AddAudit sha fails now e d of (err, d') \<Rightarrow> (err = None, d'))
     | WriteOp fails now cert opts fn \<Rightarrow>
         (case sql_write sha fails now cert opts fn d of (err, d') \<Rightarrow>
            (err = None \<and> wo_audit opts \<noteq> None \<and> fn (ad_rest d) \<noteq> Inl NoChange, d')))"

fun audit_ops :: "(string \<Rightarrow> string) \<Rightarrow> ('c, 'r, 'e) audit_op list \<Rightarrow> 'r audit_db \<Rightarrow> nat \<times> 'r audit_db" where
  "audit_ops sha [] d = (0, d)"
| "audit_ops sha (x # xs) d = (case audit_op sha x d of (b, d') \<Rightarrow> case audit_ops sha xs d' of (n, d'') \<Rightarrow> ((if b then 1 else 0) + n, d''))"

lemma trail_ok_rest [simp]: "trail_ok sha (d\<lparr>ad_rest := r\<rparr>) = trail_ok sha d" "chained (d\<lparr>ad_rest := r\<rparr>) = chained d" "legacy (d\<lparr>ad_rest := r\<rparr>) = legacy d"
  by (simp_all add: trail_ok_def chained_def legacy_def tail_kept_def split: option.splits)

lemma audit_op_trail:
  assumes "\<And>x. sha x \<noteq> []" "trail_ok sha d" "audit_op sha x d = (b, d')"
  shows "trail_ok sha d' \<and> legacy d' = legacy d \<and> length (chained d') = length (chained d) + (if b then 1 else 0)"
proof (cases x)
  case (AddOp fails now e)
  then show ?thesis
    using assms(3) appendAudit_trail[where sha = sha, OF assms(1,2)] assms(2)
    by (auto simp: audit_op_def AddAudit_def split: if_splits sum.splits) (metis length_append_singleton)+
next
  case (WriteOp fails now cert opts fn)
  have t: "trail_ok sha (d\<lparr>ad_rest := r\<rparr>)" for r using assms(2) by simp
  show ?thesis
    using assms(3) WriteOp appendAudit_trail[where sha = sha, OF assms(1) t] assms(2)
    by (auto simp: audit_op_def sql_write_def split: if_splits sum.splits refusal.splits option.splits) (metis length_append_singleton trail_ok_rest(2,3))+
qed

lemma audit_ops_trail:
  assumes "\<And>x. sha x \<noteq> []"
  shows "trail_ok sha d \<Longrightarrow> audit_ops sha xs d = (n, d') \<Longrightarrow>
    trail_ok sha d' \<and> legacy d' = legacy d \<and> length (chained d') = length (chained d) + n"
proof (induction xs arbitrary: d n)
  case (Cons x xs)
  obtain b d1 m where 1: "audit_op sha x d = (b, d1)" "audit_ops sha xs d1 = (m, d')" "n = (if b then 1 else 0) + m"
    using Cons.prems(2) by (auto split: prod.splits)
  then show ?case using audit_op_trail[where sha = sha, OF assms Cons.prems(1) 1(1)] Cons.IH[of d1 m] by auto
qed simp

text \<open>
  C14. Whatever the server does with its trail, the trail verifies: from a table whose rows predate the chain, after any sequence of \<open>AddAudit\<close> and of writes that
  carry a row, in which any statement may fail, \<open>VerifyAudit\<close> reports OK, counts the older rows as not covered, counts one checked row for each operation that reported success with a row, and
  gives the hash of the newest row.
\<close>
theorem audit_trail_verifies:
  assumes "\<And>x. sha x \<noteq> []" "list_all (\<lambda>w. ar_hash w = []) (ad_rows d)" "audit_ops sha xs d = (n, d')"
  shows "report sha d' = \<lparr>rp_Rows = int (length (ad_rows d) + n), rp_Unchained = int (length (ad_rows d)), rp_Chained = int n,
    rp_Head = (if n = 0 then [] else hex (ar_hash (last (ad_rows d')))), rp_OK = True, rp_BrokenAt = 0, rp_Problem = NoProblem\<rparr>"
proof -
  have d: "chained d = []" "legacy d = ad_rows d"
    using assms(2) by (auto simp: chained_def legacy_def list_all_iff takeWhile_eq_all_conv)
  then have "trail_ok sha d" by (simp add: trail_ok_def)
  note t = audit_ops_trail[where sha = sha, OF assms(1) this assms(3)]
  moreover have "chained d' \<noteq> [] \<Longrightarrow> last (ad_rows d') = last (chained d')" by (subst rows_split) simp
  ultimately show ?thesis using d
    by (auto simp: report_linked trail_ok_def Let_def head_of_def)
qed

text \<open>
  C23. A write and its row of the trail are one: when \<open>write\<close> reports an error nothing has changed, and when it does not, either there was nothing to change and no row was added, or what the
  write and its certificates change is stored and exactly the row asked for is added after the rows there were.
\<close>
theorem write_all_or_nothing:
  "case sql_write sha fails now cert opts fn d of (err, d') \<Rightarrow>
     if err = None \<and> fn (ad_rest d) \<noteq> Inl NoChange
     then (\<exists>rest. fn (ad_rest d) = Inr rest \<and> insert_certs cert (wo_certs opts) rest = Some (ad_rest d'))
        \<and> (case wo_audit opts of None \<Rightarrow> ad_rows d' = ad_rows d
           | Some e \<Rightarrow> \<exists>w. ad_rows d' = ad_rows d @ [w] \<and> ar_Action w = ae_Action e \<and> ar_Actor w = ae_Actor e \<and> ar_OrgID w = ae_OrgID e
               \<and> ar_TargetKind w = ae_TargetKind e \<and> ar_TargetID w = ae_TargetID e \<and> ar_Detail w = ae_Detail e
               \<and> ar_at w = ms (if ae_At e = None then Some now else ae_At e) \<and> ar_ID w = next_id d)
     else d' = d"
proof -
  have row: "ad_rest d' = r \<and> (\<exists>w. ad_rows d' = ad_rows d @ [w] \<and> ar_Action w = ae_Action e \<and> ar_Actor w = ae_Actor e \<and> ar_OrgID w = ae_OrgID e
      \<and> ar_TargetKind w = ae_TargetKind e \<and> ar_TargetID w = ae_TargetID e \<and> ar_Detail w = ae_Detail e
      \<and> ar_at w = ms (if ae_At e = None then Some now else ae_At e) \<and> ar_ID w = next_id d)"
    if "appendAudit sha fails now e (d\<lparr>ad_rest := r\<rparr>) = Inr d'" for d' e r
    using that by (rule appendAudit_row) (simp add: next_id_def)
  show ?thesis
    by (auto simp: sql_write_def split: if_splits sum.splits refusal.splits option.splits dest!: row)
qed


subsection \<open>Two trails with the same head\<close>

text \<open>The byte strings that are hashed along a chain.\<close>

fun hash_inputs :: "string \<Rightarrow> audit_row list \<Rightarrow> string list" where
  "hash_inputs p [] = []"
| "hash_inputs p (w # ws) = audit_bytes p (row_event w) # hash_inputs (ar_hash w) ws"

lemma hash_inputs_snoc [simp]: "hash_inputs p (ws @ [w]) = hash_inputs p ws @ [audit_bytes (head_of p ws) (row_event w)]"
  by (induction ws arbitrary: p) auto

lemma linked_head_input: "linked sha p ws \<Longrightarrow> ws \<noteq> [] \<Longrightarrow> head_of p ws \<in> sha ` set (hash_inputs p ws)"
  by (cases ws rule: rev_cases) (auto simp: links_def auditHash_def)

lemma linked_head_length: "(\<And>x. length (sha x) = 32) \<Longrightarrow> linked sha genesis ws \<Longrightarrow> length (head_of genesis ws) = 32"
  by (cases ws rule: rev_cases) (auto simp: links_def auditHash_def genesis_def)

lemma linked_same_head:
  assumes "\<And>x. length (sha x) = 32"
  shows "linked sha genesis ws \<Longrightarrow> linked sha genesis vs \<Longrightarrow> head_of genesis ws = head_of genesis vs \<Longrightarrow>
    list_all (\<lambda>w. event_fits (row_event w)) ws \<Longrightarrow> list_all (\<lambda>w. event_fits (row_event w)) vs \<Longrightarrow>
    inj_on sha (set (hash_inputs genesis ws) \<union> set (hash_inputs genesis vs)) \<Longrightarrow>
    genesis \<notin> sha ` (set (hash_inputs genesis ws) \<union> set (hash_inputs genesis vs)) \<Longrightarrow> ws = vs"
proof (induction ws arbitrary: vs rule: rev_induct)
  case Nil
  then show ?case using linked_head_input[of sha genesis vs] by (cases "vs = []") auto
next
  case (snoc w ws)
  then have "vs \<noteq> []" using linked_head_input[of sha genesis "ws @ [w]"] by (auto simp del: linked_append head_of_simps(3))
  then obtain us v where vs: "vs = us @ [v]" by (metis rev_exhaust)
  let ?p = "head_of genesis ws" and ?q = "head_of genesis us"
  have h: "ar_hash w = sha (audit_bytes ?p (row_event w))" "ar_hash v = sha (audit_bytes ?q (row_event v))" "ar_hash w = ar_hash v"
    and ll: "linked sha genesis ws" "linked sha genesis us"
    using snoc.prems(1-3) by (auto simp: vs links_def auditHash_def)
  have "audit_bytes ?p (row_event w) = audit_bytes ?q (row_event v)"
    using snoc.prems(6) by (rule inj_onD) (use h in \<open>simp_all add: vs\<close>)
  then have "?p = ?q \<and> w = v"
    using snoc.prems(4,5) h(3) ll linked_head_length[where sha = sha, OF assms] by (intro row_event_inj) (auto simp: vs)
  moreover have "ws = us" if "?p = ?q"
  proof (rule snoc.IH[OF ll that])
    show "inj_on sha (set (hash_inputs genesis ws) \<union> set (hash_inputs genesis us))"
      using snoc.prems(6) by (rule inj_on_subset) (auto simp: vs)
  qed (use snoc.prems(4,5,7) in \<open>simp_all add: vs\<close>)
  ultimately show ?case by (simp add: vs)
qed

lemma hex_digit_inj: "a < 16 \<Longrightarrow> b < 16 \<Longrightarrow> hex_digit a = hex_digit b \<Longrightarrow> a = b"
proof -
  assume r: "a < 16" "b < 16" and "hex_digit a = hex_digit b"
  from this(3) have "(of_char (hex_digit a) :: nat) = of_char (hex_digit b)" by (rule arg_cong)
  then have "(if a < 10 then a + 48 else a + 87) mod 256 = (if b < 10 then b + 48 else b + 87) mod 256"
    by (simp only: hex_digit_def of_char_of)
  then show "a = b" using r by (auto split: if_splits)
qed

lemma hex_inj: "hex s = hex t \<Longrightarrow> s = t"
proof (induction s arbitrary: t)
  case Nil then show ?case by (cases t) (auto simp: hex_def)
next
  case (Cons c s)
  then obtain e u where t: "t = e # u" by (cases t) (auto simp: hex_def)
  have r: "(of_char x :: nat) div 16 < 16" for x :: char
  proof -
    have "(of_char x :: nat) < 256" by (metis of_char_mod_256 mod_less_divisor zero_less_numeral)
    then show ?thesis by (simp add: less_mult_imp_div_less)
  qed
  have q: "hex_digit (of_char c div 16) = hex_digit (of_char e div 16)" "hex_digit (of_char c mod 16) = hex_digit (of_char e mod 16)"
    and "hex s = hex u" using Cons.prems by (auto simp: t hex_def)
  from q have "of_char c div 16 = (of_char e div 16 :: nat)" "of_char c mod 16 = (of_char e mod 16 :: nat)"
    using hex_digit_inj r by auto
  then have "of_char c = (of_char e :: nat)" by (metis div_mult_mod_eq)
  then show ?case using Cons.IH[OF \<open>hex s = hex u\<close>] by (simp add: t)
qed

lemma report_head:
  "linked sha genesis (chained d) \<Longrightarrow> rp_Head (report sha d) = (if chained d = [] then [] else hex (head_of genesis (chained d)))"
  by (simp add: report_linked Let_def)

text \<open>
  C18. A recorded head pins the trail down: when two tables both verify and give the same head, every row from the start of the chain on is the same in both, in
  the same order. The hypotheses on the hash are that no two of the byte strings hashed in either trail collide and that none of them hashes to the 32
  zero bytes: whoever rewrites the trail and keeps the recorded head has found such a string.
\<close>
theorem head_pins_trail:
  assumes "\<And>x. length (sha x) = 32" "rp_OK (report sha d1)" "rp_OK (report sha d2)" "rp_Head (report sha d1) = rp_Head (report sha d2)"
    "rp_Head (report sha d1) \<noteq> []"
    "\<forall>w \<in> set (ad_rows d1) \<union> set (ad_rows d2). event_fits (row_event w)"
    "inj_on sha (set (hash_inputs genesis (chained d1)) \<union> set (hash_inputs genesis (chained d2)))"
    "genesis \<notin> sha ` (set (hash_inputs genesis (chained d1)) \<union> set (hash_inputs genesis (chained d2)))"
  shows "chained d1 = chained d2"
proof -
  have l: "linked sha genesis (chained d1)" "linked sha genesis (chained d2)" using assms(2,3) by (simp_all add: report_ok_linked)
  from assms(4,5) have "hex (head_of genesis (chained d1)) = hex (head_of genesis (chained d2))"
    by (simp add: report_head l split: if_splits)
  then have "head_of genesis (chained d1) = head_of genesis (chained d2)" by (rule hex_inj)
  moreover have "list_all (\<lambda>w. event_fits (row_event w)) (chained d1)" "list_all (\<lambda>w. event_fits (row_event w)) (chained d2)"
    using assms(6) by (auto simp: list_all_iff chained_def dest!: set_dropWhileD)
  ultimately show ?thesis by (rule linked_same_head[where sha = sha, OF assms(1) l _ _ _ assms(7,8)])
qed

text \<open>Taking off every row of the chain leaves a trail that verifies, although SQLite remembers the ids that were given out.\<close>

lemma emptied_trail_verifies:
  "rp_OK (report sha (d\<lparr>ad_rows := legacy d, ad_seq := Some q\<rparr>))"
proof -
  have "chained (d\<lparr>ad_rows := legacy d, ad_seq := Some q\<rparr>) = []"
    using legacy_unhashed[of d] by (simp add: chained_def list_all_iff)
  then show ?thesis using report_linked[of sha "d\<lparr>ad_rows := legacy d, ad_seq := Some q\<rparr>"] by (simp add: Let_def)
qed


subsection \<open>Witnesses\<close>

text \<open>A stand-in for the hash: 32 bytes, the last one the length of the input.\<close>

definition toy_hash :: "string \<Rightarrow> string" where
  "toy_hash x = replicate 31 (CHR 0x01) @ [char_of (length x)]"

definition toy_row :: "int \<Rightarrow> string \<Rightarrow> string \<Rightarrow> audit_row" where
  "toy_row i a h = \<lparr>ar_ID = i, ar_at = 5, ar_OrgID = [], ar_Actor = a, ar_Action = [], ar_TargetKind = [], ar_TargetID = [], ar_Detail = [], ar_hash = h\<rparr>"

definition toy_db :: "audit_row list \<Rightarrow> int \<Rightarrow> nat audit_db" where
  "toy_db rs q = \<lparr>ad_rows = rs, ad_seq = Some q, ad_rest = 0\<rparr>"

definition toy_chain :: "string \<Rightarrow> audit_row list" where
  "toy_chain a = [toy_row 1 ''x'' (replicate 31 (CHR 0x01) @ [CHR 0x61]), toy_row 2 a (replicate 31 (CHR 0x01) @ [CHR 0x62])]"

lemma toy_hash_length: "length (toy_hash x) = 32" "toy_hash x \<noteq> []"
  by (simp_all add: toy_hash_def)

lemma toy_hash_genesis: "genesis \<noteq> toy_hash x"
proof
  assume "genesis = toy_hash x"
  then have "genesis ! 0 = toy_hash x ! 0" by simp
  then show False by (simp add: genesis_def toy_hash_def nth_append)
qed

lemma toy_links:
  "length p = 32 \<Longrightarrow> links toy_hash p (toy_row i a (replicate 31 (CHR 0x01) @ [c])) \<longleftrightarrow> char_of (96 + length a) = c"
  by (auto simp: links_def auditHash_def toy_hash_def toy_row_def row_event_def audit_bytes_def put_str_def add.commute)

lemma toy_row_sel [simp]: "ar_hash (toy_row i a h) = h" "ar_ID (toy_row i a h) = i"
  "row_event (toy_row i a h) = \<lparr>ae_ID = i, ae_At = fromMS 5, ae_OrgID = [], ae_Actor = a, ae_Action = [], ae_TargetKind = [],
     ae_TargetID = [], ae_Detail = []\<rparr>"
  by (simp_all add: toy_row_def row_event_def)

lemma toy_chain_linked: "linked toy_hash genesis (toy_chain ''yz'')" "\<not> links toy_hash (replicate 31 (CHR 0x01) @ [CHR 0x61]) (toy_chain ''y'' ! 1)"
  "linked toy_hash genesis [toy_chain a ! 0]"
  by (simp_all add: toy_chain_def toy_links char_of_eq_iff genesis_def)

lemma toy_chained: "chained (toy_db (toy_chain a) q) = toy_chain a" "chained (toy_db (toy_row 0 b [] # toy_chain a) q) = toy_chain a"
  by (simp_all add: chained_def toy_db_def toy_chain_def)

lemma toy_db_sel [simp]: "ad_rows (toy_db rs q) = rs" "ad_seq (toy_db rs q) = Some q"
  by (simp_all add: toy_db_def)

lemma verify_names_first_break_witness:
  "let d = toy_db (toy_chain ''y'') 2 in \<not> rp_OK (report toy_hash d) \<and> rp_BrokenAt (report toy_hash d) = 2 \<and> rp_Chained (report toy_hash d) = 1
    \<and> rp_Problem (report toy_hash d) = RowChanged 2"
proof -
  have "chained (toy_db (toy_chain ''y'') 2) = [toy_chain ''y'' ! 0] @ toy_chain ''y'' ! 1 # []" by (simp add: toy_chained) (simp add: toy_chain_def)
  moreover have "head_of genesis [toy_chain ''y'' ! 0] = replicate 31 (CHR 0x01) @ [CHR 0x61]" by (simp add: toy_chain_def)
  moreover have "ar_ID (toy_chain ''y'' ! 1) = 2" "ar_hash (toy_chain ''y'' ! 1) \<noteq> []" by (simp_all add: toy_chain_def)
  ultimately show ?thesis
    using verify_names_first_break[of toy_hash "[toy_chain ''y'' ! 0]" "toy_chain ''y'' ! 1" "toy_db (toy_chain ''y'') 2" "[]"]
      toy_chain_linked(2) toy_chain_linked(3)[of "''y''"] by (simp add: Let_def)
qed

lemma head_pins_trail_witness:
  "let d1 = toy_db (toy_chain ''yz'') 2; d2 = toy_db (toy_row 0 ''old'' [] # toy_chain ''yz'') 2
   in rp_OK (report toy_hash d1) \<and> rp_OK (report toy_hash d2) \<and> rp_Rows (report toy_hash d1) \<noteq> rp_Rows (report toy_hash d2) \<and> chained d1 = chained d2"
proof -
  let ?d1 = "toy_db (toy_chain ''yz'') 2" and ?d2 = "toy_db (toy_row 0 ''old'' [] # toy_chain ''yz'') 2"
  have l: "linked toy_hash genesis (chained ?d1)" "linked toy_hash genesis (chained ?d2)"
    by (simp_all add: toy_chained toy_chain_linked)
  have t: "chained ?d1 = [] \<or> tail_kept ?d1" "chained ?d2 = [] \<or> tail_kept ?d2"
    by (simp_all add: tail_kept_def toy_chain_def last_id_def)
  have n: "length (chained ?d1) = 2" "length (chained ?d2) = 2" "length (legacy ?d1) = 0" "length (legacy ?d2) = 1"
    by (simp_all add: toy_chained legacy_def) (simp_all add: toy_chain_def)
  have r: "rp_OK (report toy_hash ?d1)" "rp_OK (report toy_hash ?d2)" "rp_Rows (report toy_hash ?d1) = 2" "rp_Rows (report toy_hash ?d2) = 3"
    using t unfolding report_linked[OF l(1)] report_linked[OF l(2)] Let_def by (simp_all add: n split: if_splits)
  have h: "rp_Head (report toy_hash ?d1) = rp_Head (report toy_hash ?d2)" "rp_Head (report toy_hash ?d1) \<noteq> []"
    unfolding report_head[OF l(1)] report_head[OF l(2)] toy_chained by (simp_all add: toy_chain_def hex_def)
  have i: "set (hash_inputs genesis (chained ?d1)) = set (hash_inputs genesis (chained ?d2))" by (simp add: toy_chained)
  have len: "map length (hash_inputs genesis (chained ?d1)) = [97, 98]"
    unfolding toy_chained by (simp add: toy_chain_def audit_bytes_def put_str_def genesis_def)
  have "chained ?d1 = chained ?d2"
  proof (rule head_pins_trail[of toy_hash ?d1 ?d2])
    show "inj_on toy_hash (set (hash_inputs genesis (chained ?d1)) \<union> set (hash_inputs genesis (chained ?d2)))"
      using len unfolding i toy_chained Un_absorb by (auto simp: toy_chain_def inj_on_def toy_hash_def)
    show "genesis \<notin> toy_hash ` (set (hash_inputs genesis (chained ?d1)) \<union> set (hash_inputs genesis (chained ?d2)))"
      using toy_hash_genesis by blast
  qed (use r h in \<open>auto simp: toy_hash_length toy_chain_def event_fits_def int64_def ms_fromMS\<close>)
  then show ?thesis using r by (simp add: Let_def)
qed

lemma audit_trail_verifies_witness:
  "let e = \<lparr>ae_ID = 0, ae_At = None, ae_OrgID = [], ae_Actor = ''me'', ae_Action = ''login'', ae_TargetKind = [], ae_TargetID = [], ae_Detail = []\<rparr>;
       d = toy_db [toy_row 1 ''old'' []] 1;
       (n, d') = audit_ops toy_hash [AddOp (\<lambda>_. False) 7000000 e, WriteOp (\<lambda>s. s = SqlCommit) 8000000 (\<lambda>c r. Some (r + c)) \<lparr>wo_audit = Some e, wo_certs = [1]\<rparr> (\<lambda>r. Inl (Refused ''no''))] d
   in n = 1 \<and> rp_OK (report toy_hash d') \<and> rp_Unchained (report toy_hash d') = 1 \<and> rp_Chained (report toy_hash d') = 1"
proof -
  let ?e = "\<lparr>ae_ID = 0, ae_At = None, ae_OrgID = [], ae_Actor = ''me'', ae_Action = ''login'', ae_TargetKind = [], ae_TargetID = [], ae_Detail = []\<rparr>"
  let ?d = "toy_db [toy_row 1 ''old'' []] 1"
  let ?ops = "[AddOp (\<lambda>_. False) 7000000 ?e, WriteOp (\<lambda>s. s = SqlCommit) 8000000 (\<lambda>c r. Some (r + c)) \<lparr>wo_audit = Some ?e, wo_certs = [1]\<rparr> (\<lambda>r. Inl (Refused ''no''))]"
  obtain n d' where run: "audit_ops toy_hash ?ops ?d = (n, d')" by fastforce
  then have "n = 1"
    by (auto simp: audit_op_def AddAudit_def sql_write_def appendAudit_def Let_def next_id_def toy_db_def split: if_splits)
  moreover have "list_all (\<lambda>w. ar_hash w = []) (ad_rows ?d)" by simp
  ultimately show ?thesis using audit_trail_verifies[OF toy_hash_length(2) _ run] run by (simp add: Let_def)
qed

end
