(* ===== verification/Twin.thy ===== *)
theory Twin
  imports Facts "HOL-Library.Product_Lexorder"
begin

text \<open>
  What is remembered of records that are gone (\<open>twin/tombstone.go\<close>, the flushing of it in \<open>estate/twin.go\<close> and its
  tables in \<open>store/twin.go\<close>): what a message takes away from the state, the set of tombstones with the marks of what is still
  to be written, and the writing of it in the background while the set goes on changing.

  The set's map is an association list with distinct keys, and its two sets of marks are lists without repetitions. The store is a
  map from keys to rows. A write to it takes effect as a whole or not at all, and whether it fails is an argument.
\<close>

subsection \<open>What a message takes away\<close>

definition KindNode :: string where "KindNode = ''node''"
definition KindNamespace :: string where "KindNamespace = ''namespace''"
definition KindService :: string where "KindService = ''service''"

record vanished =
  vn_Kind :: string
  vn_Key :: string
  vn_Reason :: string

definition gone_reason :: string where
  "gone_reason = ''no longer reported by its agent (deleted, or outside what the agent is told to look at)''"

definition removed_reason :: string where "removed_reason = ''deleted in the cluster''"

definition why :: "bool \<Rightarrow> string \<Rightarrow> string \<Rightarrow> string" where
  "why consent ifConsent otherwise = (if consent then ifConsent else otherwise)"

text \<open>One of the three loops over what is held when the message is a full picture, and one of those over what a message deletes.\<close>

definition gone_full :: "string \<Rightarrow> string \<Rightarrow> string list \<Rightarrow> 'v fact_map \<Rightarrow> vanished list" where
  "gone_full kind reason sent held = map (\<lambda>(k, _). \<lparr>vn_Kind = kind, vn_Key = k, vn_Reason = reason\<rparr>) (filter (\<lambda>(k, _). k \<notin> set sent) held)"

definition gone_delta :: "string \<Rightarrow> string list \<Rightarrow> 'v fact_map \<Rightarrow> (string \<times> string) set \<Rightarrow> string list \<Rightarrow> vanished list" where
  "gone_delta kind sent held seen del = map (\<lambda>k. \<lparr>vn_Kind = kind, vn_Key = k, vn_Reason = removed_reason\<rparr>)
     (filter (\<lambda>k. map_of held k \<noteq> None \<and> k \<notin> set sent \<and> (kind, k) \<notin> seen) del)"

definition vn_name :: "vanished \<Rightarrow> string \<times> string" where
  "vn_name v = (vn_Kind v, vn_Key v)"

definition Disappeared :: "state \<Rightarrow> sync_msg \<Rightarrow> int \<Rightarrow> vanished list" where
  "Disappeared st s tier =
     (let nodes = map nf_Key (sy_Nodes s); nss = map ns_Key (sy_Namespaces s); wls = map wl_Key (sy_Workloads s);
          out = (if sy_Full s then
             gone_full KindNode (why (tier < 1) ''access tier lowered: nodes are no longer reported'' gone_reason) nodes (s_Nodes st)
             @ gone_full KindNamespace (why (tier < 2) ''access tier lowered: namespaces are no longer reported'' gone_reason) nss (s_Namespaces st)
             @ gone_full KindService (why (tier < 2) ''access tier lowered: workloads are no longer reported'' gone_reason) wls (s_Workloads st)
           else []);
          seen = vn_name ` set out
      in sort_key vn_name (out @ gone_delta KindNode nodes (s_Nodes st) seen (sy_DeletedNodes s)
           @ gone_delta KindNamespace nss (s_Namespaces st) seen (sy_DeletedNamespaces s)
           @ gone_delta KindService wls (s_Workloads st) seen (sy_DeletedWorkloads s)))"

definition held_keys :: "state \<Rightarrow> string \<Rightarrow> string set" where
  "held_keys st kind = (if kind = KindNode then dom (map_of (s_Nodes st)) else if kind = KindNamespace then dom (map_of (s_Namespaces st))
     else if kind = KindService then dom (map_of (s_Workloads st)) else {})"

definition sent_keys :: "sync_msg \<Rightarrow> string \<Rightarrow> string set" where
  "sent_keys s kind = (if kind = KindNode then nf_Key ` set (sy_Nodes s) else if kind = KindNamespace then ns_Key ` set (sy_Namespaces s)
     else if kind = KindService then wl_Key ` set (sy_Workloads s) else {})"

definition deleted_keys :: "sync_msg \<Rightarrow> string \<Rightarrow> string set" where
  "deleted_keys s kind = (if kind = KindNode then set (sy_DeletedNodes s) else if kind = KindNamespace then set (sy_DeletedNamespaces s)
     else if kind = KindService then set (sy_DeletedWorkloads s) else {})"

lemma kind_distinct [simp]: "KindNode \<noteq> KindNamespace" "KindNamespace \<noteq> KindNode" "KindNode \<noteq> KindService" "KindService \<noteq> KindNode"
  "KindNamespace \<noteq> KindService" "KindService \<noteq> KindNamespace"
  by (simp_all add: KindNode_def KindNamespace_def KindService_def)

lemma gone_full_names: "vn_name ` set (gone_full kind r sent held) = {kind} \<times> (dom (map_of held) - set sent)"
  by (auto simp: gone_full_def vn_name_def dom_map_of_conv_image_fst image_iff) force

lemma gone_delta_names:
  "vn_name ` set (gone_delta kind sent held seen del) = {(kind, k) | k. k \<in> set del \<and> k \<in> dom (map_of held) \<and> k \<notin> set sent \<and> (kind, k) \<notin> seen}"
  by (auto simp: gone_delta_def vn_name_def image_iff)

lemma dom_added_map: "dom (added_map key vs) = key ` set vs"
proof (induction vs rule: rev_induct)
  case (snoc v vs)
  then show ?case by (simp add: added_map_def del: fun_upd_apply)
qed (simp add: added_map_def)

lemma merge_kind_dom:
  assumes "kind_wf sz key m b"
  shows "dom (map_of (fst (merge_kind sz key full (m, b) add del))) = ((if full then {} else dom (map_of m)) \<union> key ` set add) - set del"
proof -
  have "map_of (fst (merge_kind sz key full (m, b) add del)) = merged (map_of (if full then [] else m)) (added_map key add) (set del)"
    using assms merge_kind_merged(3)[where m = m and b = b and sz = sz and full = full and key = key and add = add and del = del] by (simp add: kind_wf_def)
  moreover have "dom (merged f g d) = (dom f \<union> dom g) - d" for f g :: "string \<rightharpoonup> 'a" and d
    by (auto simp: merged_def map_add_def dom_def split: option.splits if_splits)
  ultimately show ?thesis by (simp add: dom_added_map)
qed

lemma held_keys_Apply:
  assumes "state_wf ops st"
  shows "held_keys (Apply ops st s) kind = ((if sy_Full s then {} else held_keys st kind) \<union> sent_keys s kind)
     - deleted_keys s kind"
  using assms unfolding held_keys_def sent_keys_def deleted_keys_def Apply_fields state_wf_def by (simp add: merge_kind_dom)

lemma delta_after_full:
  assumes "\<And>k. (kind, k) \<in> seen \<longleftrightarrow> full \<and> k \<in> dom (map_of held) - set sent"
  shows "(kind', k) \<in> vn_name ` set (gone_delta kind sent held seen del) \<longleftrightarrow> kind' = kind \<and> k \<in> set del \<and> k \<in> dom (map_of held) - set sent \<and> \<not> full"
  unfolding gone_delta_names using assms by auto

lemma Disappeared_names:
  "vn_name ` set (Disappeared st s tier)
     = {(kind, k). k \<in> held_keys st kind - sent_keys s kind \<and> (sy_Full s \<or> k \<in> deleted_keys s kind)}"
proof -
  define out where "out = (if sy_Full s then
             gone_full KindNode (why (tier < 1) ''access tier lowered: nodes are no longer reported'' gone_reason) (map nf_Key (sy_Nodes s)) (s_Nodes st)
             @ gone_full KindNamespace (why (tier < 2) ''access tier lowered: namespaces are no longer reported'' gone_reason) (map ns_Key (sy_Namespaces s)) (s_Namespaces st)
             @ gone_full KindService (why (tier < 2) ''access tier lowered: workloads are no longer reported'' gone_reason) (map wl_Key (sy_Workloads s)) (s_Workloads st)
           else [])"
  have o: "x \<in> vn_name ` set out \<longleftrightarrow> sy_Full s \<and> snd x \<in> held_keys st (fst x) - sent_keys s (fst x)" for x
  proof -
    have "vn_name ` set out = (if sy_Full s then {KindNode} \<times> (dom (map_of (s_Nodes st)) - nf_Key ` set (sy_Nodes s))
        \<union> {KindNamespace} \<times> (dom (map_of (s_Namespaces st)) - ns_Key ` set (sy_Namespaces s))
        \<union> {KindService} \<times> (dom (map_of (s_Workloads st)) - wl_Key ` set (sy_Workloads s)) else {})"
      by (cases "sy_Full s")
         (simp_all only: out_def if_True if_False set_append image_Un gone_full_names set_map Un_assoc list.set image_empty)
    then show ?thesis by (cases x) (auto simp: held_keys_def sent_keys_def split: if_splits)
  qed
  let ?delta = "\<lambda>kind sent held del. vn_name ` set (gone_delta kind sent held (vn_name ` set out) del)"
  have n: "(kind', k) \<in> ?delta KindNode (map nf_Key (sy_Nodes s)) (s_Nodes st) del
      \<longleftrightarrow> kind' = KindNode \<and> k \<in> set del \<and> k \<in> held_keys st KindNode - sent_keys s KindNode \<and> \<not> sy_Full s" for kind' k del
    by (subst delta_after_full[where full = "sy_Full s"]) (auto simp: o held_keys_def sent_keys_def)
  have m: "(kind', k) \<in> ?delta KindNamespace (map ns_Key (sy_Namespaces s)) (s_Namespaces st) del
      \<longleftrightarrow> kind' = KindNamespace \<and> k \<in> set del \<and> k \<in> held_keys st KindNamespace - sent_keys s KindNamespace \<and> \<not> sy_Full s" for kind' k del
    by (subst delta_after_full[where full = "sy_Full s"]) (auto simp: o held_keys_def sent_keys_def)
  have w: "(kind', k) \<in> ?delta KindService (map wl_Key (sy_Workloads s)) (s_Workloads st) del
      \<longleftrightarrow> kind' = KindService \<and> k \<in> set del \<and> k \<in> held_keys st KindService - sent_keys s KindService \<and> \<not> sy_Full s" for kind' k del
    by (subst delta_after_full[where full = "sy_Full s"]) (auto simp: o held_keys_def sent_keys_def)
  have "(kind, k) \<in> vn_name ` set (Disappeared st s tier) \<longleftrightarrow> k \<in> held_keys st kind - sent_keys s kind \<and> (sy_Full s \<or> k \<in> deleted_keys s kind)" for kind k
    unfolding Disappeared_def Let_def out_def[symmetric] set_sort set_append image_Un Un_iff o n m w fst_conv snd_conv
    by (auto simp: deleted_keys_def held_keys_def)
  then show ?thesis by auto
qed

text \<open>
  C22. \<open>Disappeared\<close> names what merging the message removes: the kinds and keys it lists are exactly those that are held before the message is applied,
  are not held after it, and are not among the entities the message itself carries; and the list is sorted.
\<close>
theorem disappeared_exact:
  assumes "state_wf ops st"
  shows "vn_name ` set (Disappeared st s tier)
      = {(kind, k). k \<in> held_keys st kind \<and> k \<notin> held_keys (Apply ops st s) kind \<and> k \<notin> sent_keys s kind}
    \<and> sorted (map vn_name (Disappeared st s tier))"
proof -
  have "vn_name ` set (Disappeared st s tier)
      = {(kind, k). k \<in> held_keys st kind \<and> k \<notin> held_keys (Apply ops st s) kind \<and> k \<notin> sent_keys s kind}"
    unfolding held_keys_Apply[OF assms] Disappeared_names by (auto split: if_splits)
  then show ?thesis by (simp add: Disappeared_def Let_def)
qed

text \<open>A key that a message both carries and deletes is removed, and nothing is remembered of it.\<close>

lemma sent_and_deleted_unnoticed:
  assumes "state_wf ops st" "k \<in> held_keys st KindNode" "n \<in> set (sy_Nodes s)" "nf_Key n = k" "k \<in> set (sy_DeletedNodes s)"
  shows "k \<notin> held_keys (Apply ops st s) KindNode \<and> (KindNode, k) \<notin> vn_name ` set (Disappeared st s tier)"
  using assms by (auto simp: held_keys_Apply Disappeared_names sent_keys_def deleted_keys_def)


subsection \<open>The set of tombstones\<close>

record tombstone =
  ts_Kind :: string
  ts_ID :: string
  ts_Name :: string
  ts_ClusterID :: string
  ts_AgentID :: string
  ts_GoneAt :: time
  ts_LastSeen :: "time option"
  ts_Reason :: string
  ts_Record :: "string option"

type_synonym tkey = "string \<times> string"

definition tkey :: "tombstone \<Rightarrow> tkey" where "tkey x = (ts_Kind x, ts_ID x)"

record tombstones =
  tm_items :: "(tkey \<times> tombstone) list"
  tm_retention :: duration
  tm_max :: nat
  tm_upserts :: "tkey list"
  tm_deletes :: "tkey list"

definition DefaultRetention :: duration where "DefaultRetention = 7 * 24 * hour"

definition MaxTombstones :: nat where "MaxTombstones = 5000"

definition NewTombstones :: "duration \<Rightarrow> tombstones" where
  "NewTombstones retention = \<lparr>tm_items = [], tm_retention = (if retention \<le> 0 then DefaultRetention else retention),
     tm_max = MaxTombstones, tm_upserts = [], tm_deletes = []\<rparr>"

definition LoadTombstones :: "tombstone list \<Rightarrow> tombstones \<Rightarrow> tombstones" where
  "LoadTombstones xs t = t\<lparr>tm_items := fold (\<lambda>x m. AList.update (tkey x) x m) xs (tm_items t)\<rparr>"

text \<open>Taking one tombstone out and marking its row for deletion, as \<open>Revive\<close>, \<open>Sweep\<close> and \<open>trim\<close> do.\<close>

definition drop_item :: "tkey \<Rightarrow> tombstones \<Rightarrow> tombstones" where
  "drop_item k t = t\<lparr>tm_items := AList.delete k (tm_items t), tm_upserts := removeAll k (tm_upserts t), tm_deletes := List.insert k (tm_deletes t)\<rparr>"

definition trim :: "tombstones \<Rightarrow> tombstones" where
  "trim t = (if length (tm_items t) \<le> tm_max t then t
     else (let all = sort_key ts_GoneAt (map snd (tm_items t))
           in fold (\<lambda>x. drop_item (tkey x)) (take (length all - tm_max t) all) t))"

definition add_item :: "tombstone \<Rightarrow> tombstones \<Rightarrow> tombstones" where
  "add_item x t = (let k = tkey x in
     t\<lparr>tm_items := AList.update k x (tm_items t), tm_upserts := List.insert k (tm_upserts t), tm_deletes := removeAll k (tm_deletes t)\<rparr>)"

definition AddTombstones :: "tombstone list \<Rightarrow> tombstones \<Rightarrow> tombstones" where
  "AddTombstones xs t = trim (fold add_item xs t)"

definition Revive :: "string \<Rightarrow> string \<Rightarrow> tombstones \<Rightarrow> bool \<times> tombstones" where
  "Revive kind i t = (case map_of (tm_items t) (kind, i) of None \<Rightarrow> (False, t) | Some _ \<Rightarrow> (True, drop_item (kind, i) t))"

definition Requeue :: "tombstone list \<Rightarrow> tkey list \<Rightarrow> tombstones \<Rightarrow> tombstones" where
  "Requeue puts dels t = t\<lparr>
     tm_upserts := fold (\<lambda>x u. if map_of (tm_items t) (tkey x) \<noteq> None then List.insert (tkey x) u else u) puts (tm_upserts t),
     tm_deletes := fold (\<lambda>k d. if map_of (tm_items t) k = None then List.insert k d else d) dels (tm_deletes t)\<rparr>"

definition Sweep :: "time \<Rightarrow> tombstones \<Rightarrow> tombstone list \<times> tombstones" where
  "Sweep now t = (let old = filter (\<lambda>(k, x). now - ts_GoneAt x > tm_retention t) (tm_items t)
     in (map snd old, fold (\<lambda>(k, _). drop_item k) old t))"

definition HasTombstone :: "string \<Rightarrow> string \<Rightarrow> tombstones \<Rightarrow> bool" where
  "HasTombstone kind i t = (map_of (tm_items t) (kind, i) \<noteq> None)"

text \<open>
  The comparison of \<open>List\<close> is by time, newest first, then by kind and id; sorting by the second and then, stably, by the first is the same.
\<close>

definition ListTombstones :: "time \<Rightarrow> tombstones \<Rightarrow> tombstone list" where
  "ListTombstones now t = sort_key (\<lambda>x. - ts_GoneAt x) (sort_key (\<lambda>x. ts_Kind x @ ts_ID x)
     (filter (\<lambda>x. now - ts_GoneAt x \<le> tm_retention t) (map snd (tm_items t))))"

definition Dirty :: "tombstones \<Rightarrow> tombstone list \<times> tkey list \<times> tombstones" where
  "Dirty t = (sort_key (\<lambda>x. ts_Kind x @ ts_ID x) (List.map_filter (map_of (tm_items t)) (tm_upserts t)),
     sort_key (\<lambda>k. fst k @ snd k) (tm_deletes t), t\<lparr>tm_upserts := [], tm_deletes := []\<rparr>)"

definition Ephemeral :: "string \<Rightarrow> bool" where
  "Ephemeral kind = equal_fold kind ''job''"

subsection \<open>The stored tombstones\<close>

record tomb_cols =
  tr_Name :: string
  tr_ClusterID :: string
  tr_AgentID :: string
  tr_GoneAt :: int
  tr_LastSeen :: int
  tr_Reason :: string
  tr_Record :: string

type_synonym tomb_store = "tkey \<rightharpoonup> tomb_cols"

definition tomb_row :: "tombstone \<Rightarrow> tomb_cols" where
  "tomb_row t = \<lparr>tr_Name = ts_Name t, tr_ClusterID = ts_ClusterID t, tr_AgentID = ts_AgentID t, tr_GoneAt = ts_GoneAt t div 1000000,
     tr_LastSeen = (case ts_LastSeen t of None \<Rightarrow> 0 | Some l \<Rightarrow> l div 1000000), tr_Reason = ts_Reason t,
     tr_Record = (case ts_Record t of None \<Rightarrow> ''{}'' | Some r \<Rightarrow> r)\<rparr>"

definition read_row :: "tkey \<Rightarrow> tomb_cols \<Rightarrow> tombstone" where
  "read_row k r = \<lparr>ts_Kind = fst k, ts_ID = snd k, ts_Name = tr_Name r, ts_ClusterID = tr_ClusterID r, ts_AgentID = tr_AgentID r,
     ts_GoneAt = tr_GoneAt r * 1000000, ts_LastSeen = (if tr_LastSeen r > 0 then Some (tr_LastSeen r * 1000000) else None),
     ts_Reason = tr_Reason r, ts_Record = Some (tr_Record r)\<rparr>"

definition PutTombstones :: "bool \<Rightarrow> tombstone list \<Rightarrow> tomb_store \<Rightarrow> tomb_store option" where
  "PutTombstones fails ts st = (if ts = [] then Some st else if fails then None
     else Some (fold (\<lambda>t st. st(tkey t \<mapsto> tomb_row t)) ts st))"

definition DeleteTombstones :: "bool \<Rightarrow> tkey list \<Rightarrow> tomb_store \<Rightarrow> tomb_store option" where
  "DeleteTombstones fails ks st = (if ks = [] then Some st else if fails then None else Some (fold (\<lambda>k st. st(k := None)) ks st))"

subsection \<open>Writing in the background\<close>

text \<open>
  \<open>Hub.Flush\<close> takes what is dirty, writes it and puts back what could not be written. Only the calls of the set are under its lock, so between them the set may
  change: \<open>fp_pc\<close> is how far the flush has come.
\<close>

datatype flush_pc = FlushIdle | FlushTook "tombstone list" "tkey list" | FlushPut "tombstone list" "tkey list" "tombstone list"
  | FlushDel "tombstone list" "tkey list"

record twin_run =
  tw_tombs :: tombstones
  tw_store :: tomb_store
  tw_pc :: flush_pc

datatype twin_event = StepAdd "tombstone list" | StepRevive string string | StepSweep time | StepDirty | StepPut bool | StepDelete bool | StepRequeue

definition twin_step :: "twin_run \<Rightarrow> twin_event \<Rightarrow> twin_run" where
  "twin_step w x = (case x of
       StepAdd ts \<Rightarrow> w\<lparr>tw_tombs := AddTombstones ts (tw_tombs w)\<rparr>
     | StepRevive kind i \<Rightarrow> w\<lparr>tw_tombs := snd (Revive kind i (tw_tombs w))\<rparr>
     | StepSweep now \<Rightarrow> w\<lparr>tw_tombs := snd (Sweep now (tw_tombs w))\<rparr>
     | StepDirty \<Rightarrow> (case tw_pc w of FlushIdle \<Rightarrow> (case Dirty (tw_tombs w) of (puts, dels, t) \<Rightarrow>
           if puts = [] \<and> dels = [] then w\<lparr>tw_tombs := t\<rparr> else w\<lparr>tw_tombs := t, tw_pc := FlushTook puts dels\<rparr>) | _ \<Rightarrow> w)
     | StepPut fails \<Rightarrow> (case tw_pc w of FlushTook puts dels \<Rightarrow> (case PutTombstones fails puts (tw_store w) of
           None \<Rightarrow> w\<lparr>tw_pc := FlushPut puts dels puts\<rparr> | Some st \<Rightarrow> w\<lparr>tw_store := st, tw_pc := FlushPut puts dels []\<rparr>) | _ \<Rightarrow> w)
     | StepDelete fails \<Rightarrow> (case tw_pc w of FlushPut puts dels failedPut \<Rightarrow> (case DeleteTombstones fails dels (tw_store w) of
           None \<Rightarrow> w\<lparr>tw_pc := FlushDel failedPut dels\<rparr> | Some st \<Rightarrow> w\<lparr>tw_store := st, tw_pc := FlushDel failedPut []\<rparr>) | _ \<Rightarrow> w)
     | StepRequeue \<Rightarrow> (case tw_pc w of FlushDel failedPut failedDel \<Rightarrow>
           w\<lparr>tw_tombs := Requeue failedPut failedDel (tw_tombs w), tw_pc := FlushIdle\<rparr> | _ \<Rightarrow> w))"

text \<open>\<open>Flush\<close> when nothing comes in between, and the start from what the store holds.\<close>

definition FlushTombs :: "time \<Rightarrow> bool \<Rightarrow> bool \<Rightarrow> twin_run \<Rightarrow> twin_run" where
  "FlushTombs now failPut failDel w = foldl twin_step w [StepSweep now, StepDirty, StepPut failPut, StepDelete failDel, StepRequeue]"

definition twin_load :: "duration \<Rightarrow> (tkey \<times> tomb_cols) list \<Rightarrow> twin_run" where
  "twin_load retention rows = \<lparr>tw_tombs = LoadTombstones (map (\<lambda>(k, r). read_row k r) rows) (NewTombstones retention), tw_store = map_of rows, tw_pc = FlushIdle\<rparr>"


subsection \<open>Write-behind caches\<close>

text \<open>
  What the tombstones and the registry of identities share: a cache with marks of what its store does not have yet. \<open>view\<close> is the rows the cache would
  have the store hold, \<open>take\<close> hands out a batch of the marked ones and clears the marks, \<open>again\<close> marks a batch that was not written. \<open>pend\<close> reads a
  batch: the row a key is to get, or that its row is to go.
\<close>

locale write_behind =
  fixes wf :: "'t \<Rightarrow> bool" and view :: "'t \<Rightarrow> 'k \<rightharpoonup> 'r" and marks :: "'t \<Rightarrow> 'k set"
    and pend :: "'b \<Rightarrow> 'k \<rightharpoonup> 'r option" and take :: "'t \<Rightarrow> 'b \<times> 't" and again :: "'b \<Rightarrow> 't \<Rightarrow> 't"
  assumes take_batch: "wf t \<Longrightarrow> pend (fst (take t)) k = (if k \<in> marks t then Some (view t k) else None)"
    and take_cache: "wf t \<Longrightarrow> wf (snd (take t)) \<and> view (snd (take t)) = view t \<and> marks (snd (take t)) = {}"
    and again_cache: "wf t \<Longrightarrow> wf (again b t) \<and> view (again b t) = view t \<and> marks t \<subseteq> marks (again b t)"
    and again_marks: "wf t \<Longrightarrow> pend b k = Some (view t k) \<Longrightarrow> k \<in> marks (again b t)"
begin

text \<open>A change of the cache that marks what it changes.\<close>

definition marked :: "'t \<Rightarrow> 't \<Rightarrow> bool" where
  "marked t t' \<longleftrightarrow> (wf t \<longrightarrow> wf t' \<and> (\<forall>k. k \<notin> marks t' \<longrightarrow> k \<notin> marks t \<and> view t' k = view t k))"

lemma marked_refl [simp]: "marked t t"
  by (simp add: marked_def)

lemma marked_trans: "marked t u \<Longrightarrow> marked u v \<Longrightarrow> marked t v"
  by (simp add: marked_def)

lemma marked_fold: "(\<And>x t. x \<in> set xs \<Longrightarrow> marked t (f x t)) \<Longrightarrow> marked t (fold f xs t)"
  by (induction xs arbitrary: t) (auto intro: marked_trans)

text \<open>An unmarked key is stored as the cache has it, unless it is still to be written; then what is to be written is what the cache has.\<close>

definition insync :: "'t \<Rightarrow> ('k \<rightharpoonup> 'r) \<Rightarrow> ('k \<rightharpoonup> 'r option) \<Rightarrow> bool" where
  "insync t st p \<longleftrightarrow> wf t \<and> (\<forall>k. k \<notin> marks t \<longrightarrow> (case p k of None \<Rightarrow> st k = view t k | Some v \<Rightarrow> v = view t k))"

lemma insync_marked:
  assumes "insync t st p" "marked t t'"
  shows "insync t' st p"
  unfolding insync_def
proof (intro conjI allI impI)
  show "wf t'" using assms by (simp add: insync_def marked_def)
  fix k assume "k \<notin> marks t'"
  then have "k \<notin> marks t" and v: "view t' k = view t k" using assms by (auto simp: insync_def marked_def)
  then have "case p k of None \<Rightarrow> st k = view t k | Some v \<Rightarrow> v = view t k" using assms(1) by (simp add: insync_def)
  then show "case p k of None \<Rightarrow> st k = view t' k | Some v \<Rightarrow> v = view t' k" unfolding v .
qed

lemma insync_take: "insync t st Map.empty \<Longrightarrow> insync (snd (take t)) st (pend (fst (take t)))"
  by (auto simp: insync_def take_batch take_cache)

lemma insync_write:
  "insync t st p \<Longrightarrow> (\<And>k. p' k = p k \<and> st' k = st k \<or> p' k = None \<and> p k = Some (st' k)) \<Longrightarrow> insync t st' p'"
  unfolding insync_def by (metis option.simps(4,5))

lemma insync_again: "insync t st (pend b) \<Longrightarrow> insync (again b t) st Map.empty"
  unfolding insync_def using again_cache again_marks by (fastforce split: option.splits)

lemma insync_clean: "insync t st Map.empty \<Longrightarrow> marks t = {} \<Longrightarrow> st = view t"
  by (simp add: insync_def fun_eq_iff)

lemma insync_stored: "insync t st p \<Longrightarrow> k \<notin> marks t \<Longrightarrow> p k = None \<Longrightarrow> st k = view t k"
  unfolding insync_def by (metis option.simps(4))

lemma insync_start: "wf t \<Longrightarrow> st = view t \<Longrightarrow> insync t st Map.empty"
  by (simp add: insync_def)

end

subsection \<open>The tombstones as such a cache\<close>

definition tomb_wf :: "tombstones \<Rightarrow> bool" where
  "tomb_wf t \<longleftrightarrow> distinct (map fst (tm_items t)) \<and> (\<forall>k x. map_of (tm_items t) k = Some x \<longrightarrow> tkey x = k) \<and> distinct (tm_upserts t)
     \<and> set (tm_upserts t) \<subseteq> dom (map_of (tm_items t)) \<and> set (tm_deletes t) \<inter> dom (map_of (tm_items t)) = {}"

definition tomb_view :: "tombstones \<Rightarrow> tomb_store" where
  "tomb_view t = map_option tomb_row \<circ> map_of (tm_items t)"

definition tomb_marks :: "tombstones \<Rightarrow> tkey set" where
  "tomb_marks t = set (tm_upserts t) \<union> set (tm_deletes t)"

definition tomb_pend :: "tombstone list \<times> tkey list \<Rightarrow> tkey \<rightharpoonup> tomb_cols option" where
  "tomb_pend b k = (case map_of (map (\<lambda>x. (tkey x, tomb_row x)) (fst b)) k of Some r \<Rightarrow> Some (Some r)
     | None \<Rightarrow> if k \<in> set (snd b) then Some None else None)"

definition tomb_take :: "tombstones \<Rightarrow> (tombstone list \<times> tkey list) \<times> tombstones" where
  "tomb_take t = (case Dirty t of (puts, dels, t') \<Rightarrow> ((puts, dels), t'))"

lemma tomb_wf_keyed: "tomb_wf t \<Longrightarrow> map_of (tm_items t) k = Some x \<Longrightarrow> tkey x = k"
  unfolding tomb_wf_def by blast

lemma set_requeued: "set (fold (\<lambda>x u. if P x then List.insert (f x) u else u) xs ys) = set ys \<union> f ` {x \<in> set xs. P x}"
  by (induction xs arbitrary: ys) auto

lemma distinct_requeued: "distinct ys \<Longrightarrow> distinct (fold (\<lambda>x u. if P x then List.insert (f x) u else u) xs ys)"
  by (induction xs arbitrary: ys) auto

lemma Dirty_puts:
  assumes "tomb_wf t"
  shows "set (fst (Dirty t)) = {x. tkey x \<in> set (tm_upserts t) \<and> map_of (tm_items t) (tkey x) = Some x}" "distinct (map tkey (fst (Dirty t)))"
proof -
  have m: "set (List.map_filter (map_of (tm_items t)) ks) = {x. tkey x \<in> set ks \<and> map_of (tm_items t) (tkey x) = Some x}" for ks
    using tomb_wf_keyed[OF assms] by (induction ks) (auto simp: map_filter_simps split: option.splits)
  then show "set (fst (Dirty t)) = {x. tkey x \<in> set (tm_upserts t) \<and> map_of (tm_items t) (tkey x) = Some x}" by (simp add: Dirty_def)
  have "distinct ks \<Longrightarrow> distinct (map tkey (List.map_filter (map_of (tm_items t)) ks))" for ks
    using tomb_wf_keyed[OF assms] m by (induction ks) (auto simp: map_filter_simps split: option.splits)
  then have "distinct (map tkey (List.map_filter (map_of (tm_items t)) (tm_upserts t)))" using assms by (simp add: tomb_wf_def)
  then show "distinct (map tkey (fst (Dirty t)))"
    by (simp add: Dirty_def distinct_map)
qed


interpretation tombs: write_behind tomb_wf tomb_view tomb_marks tomb_pend tomb_take "\<lambda>b. Requeue (fst b) (snd b)"
proof
  fix t :: tombstones and k b
  assume wf: "tomb_wf t"
  have fst_take: "fst (tomb_take t) = (fst (Dirty t), sort_key (\<lambda>k. fst k @ snd k) (tm_deletes t))"
    by (simp add: tomb_take_def Dirty_def)
  have "map_of (map (\<lambda>x. (tkey x, tomb_row x)) (fst (Dirty t))) k = (if k \<in> set (tm_upserts t) then tomb_view t k else None)"
  proof (cases "k \<in> set (tm_upserts t)")
    case True
    then obtain x where x: "map_of (tm_items t) k = Some x" "tkey x = k" using wf tomb_wf_keyed[OF wf] by (auto simp: tomb_wf_def)
    have "map_of (map (\<lambda>x. (tkey x, tomb_row x)) (fst (Dirty t))) k = Some (tomb_row x)"
      using Dirty_puts[OF wf] x True by (intro map_of_is_SomeI) (auto simp: comp_def)
    then show ?thesis using x True by (simp add: tomb_view_def)
  next
    case False
    then show ?thesis using Dirty_puts(1)[OF wf] by (auto simp: map_of_eq_None_iff image_iff)
  qed
  then show "tomb_pend (fst (tomb_take t)) k = (if k \<in> tomb_marks t then Some (tomb_view t k) else None)"
    using wf unfolding fst_take by (auto simp: tomb_pend_def tomb_marks_def tomb_view_def tomb_wf_def split: option.splits)
  show "tomb_wf (snd (tomb_take t)) \<and> tomb_view (snd (tomb_take t)) = tomb_view t \<and> tomb_marks (snd (tomb_take t)) = {}"
    using wf by (simp add: tomb_take_def Dirty_def tomb_wf_def tomb_view_def tomb_marks_def)
  show "tomb_wf (Requeue (fst b) (snd b) t) \<and> tomb_view (Requeue (fst b) (snd b) t) = tomb_view t \<and> tomb_marks t \<subseteq> tomb_marks (Requeue (fst b) (snd b) t)"
    using wf by (auto simp: Requeue_def tomb_wf_def tomb_view_def tomb_marks_def set_requeued distinct_requeued
        set_requeued[where f = "\<lambda>x. x"] distinct_requeued[where f = "\<lambda>x. x"])
  show "k \<in> tomb_marks (Requeue (fst b) (snd b) t)" if "tomb_pend b k = Some (tomb_view t k)"
  proof (cases "map_of (tm_items t) k")
    case None
    then have "k \<in> set (snd b)" using that by (auto simp: tomb_pend_def tomb_view_def split: option.splits if_splits)
    then show ?thesis using None by (auto simp: tomb_marks_def Requeue_def set_requeued[where f = "\<lambda>x. x"])
  next
    case (Some x)
    then have "map_of (map (\<lambda>x. (tkey x, tomb_row x)) (fst b)) k \<noteq> None" using that by (auto simp: tomb_pend_def tomb_view_def split: option.splits if_splits)
    then have "k \<in> tkey ` set (fst b)" by (auto dest!: map_of_SomeD)
    then show ?thesis using Some by (auto simp: tomb_marks_def Requeue_def set_requeued)
  qed
qed

lemma drop_item_wf: "tomb_wf t \<Longrightarrow> tomb_wf (drop_item k t)"
  unfolding tomb_wf_def drop_item_def by (auto simp: distinct_delete delete_conv' distinct_removeAll)

lemma drop_item_marked: "tombs.marked t (drop_item k t)"
  using drop_item_wf[of t k]
  by (auto simp: tombs.marked_def tomb_marks_def tomb_view_def drop_item_def delete_conv')

lemma add_item_wf: "tomb_wf t \<Longrightarrow> tomb_wf (add_item x t)"
  unfolding tomb_wf_def add_item_def Let_def by (auto simp: distinct_update update_conv')

lemma add_item_marked: "tombs.marked t (add_item x t)"
  using add_item_wf[of t x]
  by (auto simp: tombs.marked_def tomb_marks_def tomb_view_def add_item_def Let_def update_conv')

lemma trim_marked: "tombs.marked t (trim t)"
  by (auto simp: trim_def Let_def intro!: tombs.marked_fold drop_item_marked)

lemma AddTombstones_marked: "tombs.marked t (AddTombstones ts t)"
  unfolding AddTombstones_def by (rule tombs.marked_trans[OF tombs.marked_fold trim_marked]) (rule add_item_marked)

lemma Revive_marked: "tombs.marked t (snd (Revive kind i t))"
  by (auto simp: Revive_def drop_item_marked split: option.splits)

lemma Sweep_marked: "tombs.marked t (snd (Sweep now t))"
  by (auto simp: Sweep_def Let_def intro!: tombs.marked_fold drop_item_marked)

subsection \<open>The store follows the set\<close>

text \<open>What of a batch is still to be written, or could not be, at each point of a flush.\<close>

fun flush_pend :: "flush_pc \<Rightarrow> tkey \<rightharpoonup> tomb_cols option" where
  "flush_pend FlushIdle = Map.empty"
| "flush_pend (FlushTook puts dels) = tomb_pend (puts, dels)"
| "flush_pend (FlushPut puts dels failed) = tomb_pend (failed, dels)"
| "flush_pend (FlushDel failedPut failedDel) = tomb_pend (failedPut, failedDel)"

fun batch_ok :: "flush_pc \<Rightarrow> bool" where
  "batch_ok (FlushTook puts dels) = (distinct (map tkey puts) \<and> set (map tkey puts) \<inter> set dels = {})"
| "batch_ok (FlushPut puts dels failed) = (set (map tkey puts) \<inter> set dels = {} \<and> set failed \<subseteq> set puts)"
| "batch_ok _ = True"

definition run_ok :: "twin_run \<Rightarrow> bool" where
  "run_ok w \<longleftrightarrow> tombs.insync (tw_tombs w) (tw_store w) (flush_pend (tw_pc w)) \<and> batch_ok (tw_pc w)"

lemma fold_puts: "distinct (map tkey ts) \<Longrightarrow> fold (\<lambda>t st. st(tkey t \<mapsto> tomb_row t)) ts st = st ++ map_of (map (\<lambda>x. (tkey x, tomb_row x)) ts)"
proof (induction ts arbitrary: st)
  case (Cons t ts)
  then have "map_of (map (\<lambda>x. (tkey x, tomb_row x)) ts) (tkey t) = None" by (auto simp: map_of_eq_None_iff image_iff)
  with Cons show ?case by (auto simp: fun_eq_iff map_add_def split: option.splits)
qed simp

lemma fold_dels: "fold (\<lambda>k st. st(k := None)) ks st = (\<lambda>k. if k \<in> set ks then None else st k)"
  by (induction ks arbitrary: st) auto

lemma StepPut_ok:
  assumes "tombs.insync t st (tomb_pend (puts, dels))" "batch_ok (FlushTook puts dels)" "PutTombstones fails puts st = Some st'"
  shows "tombs.insync t st' (tomb_pend ([], dels))"
proof -
  have st': "st' = st ++ map_of (map (\<lambda>x. (tkey x, tomb_row x)) puts)"
    using assms(2,3) fold_puts by (auto simp: PutTombstones_def split: if_splits)
  show ?thesis
  proof (rule tombs.insync_write[OF assms(1)])
    fix k
    show "tomb_pend ([], dels) k = tomb_pend (puts, dels) k \<and> st' k = st k \<or> tomb_pend ([], dels) k = None \<and> tomb_pend (puts, dels) k = Some (st' k)"
    proof (cases "map_of (map (\<lambda>x. (tkey x, tomb_row x)) puts) k")
      case None then show ?thesis by (simp add: tomb_pend_def st' map_add_def)
    next
      case (Some r)
      then have "k \<in> set (map tkey puts)" by (auto dest!: map_of_SomeD)
      then show ?thesis using Some assms(2) by (auto simp: tomb_pend_def st' map_add_def)
    qed
  qed
qed

lemma StepDelete_ok:
  assumes "tombs.insync t st (tomb_pend (failed, dels))" "batch_ok (FlushPut puts dels failed)" "DeleteTombstones fails dels st = Some st'"
  shows "tombs.insync t st' (tomb_pend (failed, []))"
proof (rule tombs.insync_write[OF assms(1)])
  fix k
  have st': "st' = (\<lambda>k. if k \<in> set dels then None else st k)"
    using assms(3) by (auto simp: DeleteTombstones_def fold_dels split: if_splits)
  show "tomb_pend (failed, []) k = tomb_pend (failed, dels) k \<and> st' k = st k \<or> tomb_pend (failed, []) k = None \<and> tomb_pend (failed, dels) k = Some (st' k)"
  proof (cases "k \<in> set dels")
    case True
    then have "k \<notin> tkey ` set failed" using assms(2) by auto
    then have "map_of (map (\<lambda>x. (tkey x, tomb_row x)) failed) k = None" by (auto simp: map_of_eq_None_iff)
    then show ?thesis using True by (simp add: tomb_pend_def st')
  qed (simp add: tomb_pend_def st' split: option.split)
qed

lemma twin_step_ok: "run_ok w \<Longrightarrow> run_ok (twin_step w x)"
proof (cases x)
  case StepDirty
  assume ok: "run_ok w"
  show ?thesis
  proof (cases "tw_pc w")
    case FlushIdle
    obtain puts dels t where d: "Dirty (tw_tombs w) = (puts, dels, t)" by (cases "Dirty (tw_tombs w)")
    have wf: "tomb_wf (tw_tombs w)" and i: "tombs.insync (tw_tombs w) (tw_store w) Map.empty"
      using ok FlushIdle by (auto simp: run_ok_def tombs.insync_def)
    have "tombs.insync t (tw_store w) (tomb_pend (puts, dels))"
      using tombs.insync_take[OF i] by (simp add: tomb_take_def d)
    moreover have "batch_ok (FlushTook puts dels)"
    proof -
      have "set (map tkey puts) \<subseteq> dom (map_of (tm_items (tw_tombs w)))" using Dirty_puts(1)[OF wf] d by auto
      moreover have "set dels \<inter> dom (map_of (tm_items (tw_tombs w))) = {}" using wf d by (auto simp: Dirty_def tomb_wf_def)
      moreover have "distinct (map tkey puts)" using Dirty_puts(2)[OF wf] d by simp
      ultimately show ?thesis by auto
    qed
    moreover have "tomb_pend ([], []) = Map.empty" by (simp add: tomb_pend_def fun_eq_iff)
    ultimately show ?thesis using FlushIdle d StepDirty by (auto simp: twin_step_def run_ok_def)
  qed (use ok StepDirty in \<open>auto simp: twin_step_def\<close>)
next
  case (StepPut fails)
  assume "run_ok w"
  then show ?thesis using StepPut StepPut_ok
    by (cases "tw_pc w") (auto simp: twin_step_def run_ok_def split: option.splits)
next
  case (StepDelete fails)
  assume "run_ok w"
  then show ?thesis using StepDelete StepDelete_ok
    by (cases "tw_pc w") (auto simp: twin_step_def run_ok_def split: option.splits)
next
  case StepRequeue
  assume "run_ok w"
  then show ?thesis using StepRequeue tombs.insync_again[where b = "(a, b)" for a b]
    by (cases "tw_pc w") (auto simp: twin_step_def run_ok_def)
qed (auto simp: twin_step_def run_ok_def intro: tombs.insync_marked AddTombstones_marked Revive_marked Sweep_marked)


lemma fold_load:
  "distinct (map tkey xs) \<Longrightarrow> map_of (fold (\<lambda>x m. AList.update (tkey x) x m) xs m) = map_of m ++ map_of (map (\<lambda>x. (tkey x, x)) xs)"
proof (induction xs arbitrary: m)
  case (Cons x xs)
  then have "map_of (map (\<lambda>x. (tkey x, x)) xs) (tkey x) = None" by (auto simp: map_of_eq_None_iff image_iff)
  with Cons show ?case by (auto simp: fun_eq_iff map_add_def update_conv' split: option.splits)
qed simp

lemma distinct_load: "distinct (map fst m) \<Longrightarrow> distinct (map fst (fold (\<lambda>x m. AList.update (tkey x) x m) xs m))"
  by (induction xs arbitrary: m) (auto simp: distinct_update)

lemma load_ok:
  assumes "distinct (map fst rows)" "list_all (\<lambda>(k, r). tomb_row (read_row k r) = r) rows"
  shows "run_ok (twin_load retention rows)"
proof -
  define its where "its = tm_items (tw_tombs (twin_load retention rows))"
  have key: "tkey (read_row k r) = k" for k r by (simp add: read_row_def tkey_def)
  have "map tkey (map (\<lambda>(k, r). read_row k r) rows) = map fst rows" by (simp add: split_def key)
  then have d: "distinct (map tkey (map (\<lambda>(k, r). read_row k r) rows))" using assms(1) by (simp only:)
  have m: "map_of its = map_of (map (\<lambda>x. (fst x, read_row (fst x) (snd x))) rows)"
    using fold_load[OF d, of "[]"] by (simp add: its_def twin_load_def LoadTombstones_def NewTombstones_def split_def comp_def key)
  have "map_option tomb_row (map_of its k) = map_of rows k" for k
    using assms(2) unfolding m by (induction rows) auto
  then have "tomb_view (tw_tombs (twin_load retention rows)) = map_of rows" by (simp add: tomb_view_def its_def fun_eq_iff)
  moreover have "tomb_wf (tw_tombs (twin_load retention rows))"
    unfolding tomb_wf_def its_def[symmetric]
  proof (intro conjI allI impI)
    show "tkey x = k" if "map_of its k = Some x" for k x
      using that unfolding m by (auto dest!: map_of_SomeD simp: key)
  qed (simp_all add: its_def twin_load_def LoadTombstones_def NewTombstones_def distinct_load)
  moreover have "tw_store (twin_load retention rows) = map_of rows" "tw_pc (twin_load retention rows) = FlushIdle"
    by (simp_all add: twin_load_def)
  ultimately show ?thesis by (simp add: run_ok_def tombs.insync_start)
qed

lemma twin_steps_ok: "run_ok w \<Longrightarrow> run_ok (foldl twin_step w xs)"
  by (induction xs arbitrary: w) (auto intro: twin_step_ok)

lemma FlushTombs_clean:
  assumes "tw_pc w = FlushIdle"
  shows "tw_pc (FlushTombs now False False w) = FlushIdle \<and> tomb_marks (tw_tombs (FlushTombs now False False w)) = {}"
  using assms
  by (auto simp: FlushTombs_def twin_step_def Dirty_def PutTombstones_def DeleteTombstones_def Requeue_def tomb_marks_def split: prod.splits option.splits)

text \<open>
  C19. The store catches up with the tombstones held in memory. Start from what the store holds and let tombstones be added, revived and swept in any order, between the steps of any number of flushes whose
  writes may fail; then, whatever was not put back to be written again, the store has exactly the rows of the set: every key that is not marked and not in a running flush has in the store the row
  of the tombstone held for it, or none when none is held; and a flush that nothing interrupts, with both writes accepted, leaves the store with exactly the rows of the set.
\<close>
theorem tombstones_saved:
  assumes "distinct (map fst rows)" "list_all (\<lambda>(k, r). tomb_row (read_row k r) = r) rows"
    and w: "w = foldl twin_step (twin_load retention rows) xs"
  shows "(\<forall>k. k \<notin> tomb_marks (tw_tombs w) \<longrightarrow> flush_pend (tw_pc w) k = None \<longrightarrow> tw_store w k = tomb_view (tw_tombs w) k)
    \<and> (tw_pc w = FlushIdle \<longrightarrow> tw_store (FlushTombs now False False w) = tomb_view (tw_tombs (FlushTombs now False False w)))"
proof (intro conjI impI allI)
  have ok: "run_ok w" unfolding w by (intro twin_steps_ok load_ok assms(1,2))
  fix k assume "k \<notin> tomb_marks (tw_tombs w)" "flush_pend (tw_pc w) k = None"
  then show "tw_store w k = tomb_view (tw_tombs w) k" using ok tombs.insync_stored unfolding run_ok_def by blast
next
  assume idle: "tw_pc w = FlushIdle"
  have "run_ok (FlushTombs now False False w)" unfolding FlushTombs_def w by (intro twin_steps_ok load_ok assms(1,2))
  then show "tw_store (FlushTombs now False False w) = tomb_view (tw_tombs (FlushTombs now False False w))"
    using FlushTombs_clean[OF idle, of now] by (auto simp: run_ok_def intro: tombs.insync_clean)
qed


subsection \<open>Which tombstones are kept\<close>

lemma fold_drop_items: "tm_items (fold (\<lambda>x. drop_item (tkey x)) xs t) = filter (\<lambda>(k, _). k \<notin> tkey ` set xs) (tm_items t)"
proof (induction xs arbitrary: t)
  case (Cons x xs)
  then show ?case by (auto simp: drop_item_def AList.delete_eq intro!: filter_cong)
qed simp

lemma fold_drop_max: "tm_max (fold (\<lambda>x. drop_item (tkey x)) xs t) = tm_max t"
  by (induction xs arbitrary: t) (auto simp: drop_item_def)

lemma keyed_items: "tomb_wf t \<Longrightarrow> (k, x) \<in> set (tm_items t) \<Longrightarrow> tkey x = k"
  by (rule tomb_wf_keyed) (auto simp: tomb_wf_def)

lemma trim_kept:
  assumes "tomb_wf t"
  shows "length (tm_items (trim t)) = min (length (tm_items t)) (tm_max t) \<and> set (tm_items (trim t)) \<subseteq> set (tm_items t)
    \<and> (\<forall>(k, x) \<in> set (tm_items t) - set (tm_items (trim t)). \<forall>(j, y) \<in> set (tm_items (trim t)). ts_GoneAt x \<le> ts_GoneAt y)"
proof (cases "length (tm_items t) \<le> tm_max t")
  case True then show ?thesis by (simp add: trim_def)
next
  case False
  define all where "all = sort_key ts_GoneAt (map snd (tm_items t))"
  define n where "n = length all - tm_max t"
  have keys: "map tkey (map snd (tm_items t)) = map fst (tm_items t)" using keyed_items[OF assms] by auto
  have perm: "set all = snd ` set (tm_items t)" "length all = length (tm_items t)" by (auto simp: all_def)
  have "distinct (map tkey (map snd (tm_items t)))" unfolding keys using assms by (simp add: tomb_wf_def)
  moreover have "mset (map tkey all) = mset (map tkey (map snd (tm_items t)))" by (simp only: all_def mset_map mset_sort)
  ultimately have "distinct (map tkey all)" by (metis mset_eq_imp_distinct_iff)
  then have dis: "tkey ` set (take n all) \<inter> tkey ` set (drop n all) = {}" "distinct (map tkey (drop n all))"
    by (metis append_take_drop_id distinct_append list.set_map map_append)+
  have items: "tm_items (trim t) = filter (\<lambda>(k, _). k \<notin> tkey ` set (take n all)) (tm_items t)"
    using False by (simp add: trim_def Let_def all_def[symmetric] n_def[symmetric] fold_drop_items)
  have split: "x \<in> set (take n all) \<or> x \<in> set (drop n all)" if "(k, x) \<in> set (tm_items t)" for k x
    using that perm(1) set_append[of "take n all" "drop n all"] by force
  have kept: "(k, x) \<in> set (tm_items (trim t)) \<longleftrightarrow> (k, x) \<in> set (tm_items t) \<and> x \<in> set (drop n all)" for k x
  proof (cases "(k, x) \<in> set (tm_items t)")
    case True
    have "tkey x \<notin> tkey ` set (take n all) \<longleftrightarrow> x \<in> set (drop n all)" using split[OF True] dis(1) by blast
    then show ?thesis using True keyed_items[OF assms True] by (simp add: items)
  qed (simp add: items)
  have "distinct (map fst (tm_items (trim t)))" using assms by (simp add: items tomb_wf_def distinct_map_filter)
  have "(tkey x, x) \<in> set (tm_items t)" if x: "x \<in> set (drop n all)" for x
  proof -
    have "x \<in> snd ` set (tm_items t)" using in_set_dropD[OF x] perm(1) by simp
    then obtain k where "(k, x) \<in> set (tm_items t)" by (metis imageE prod.collapse)
    then show ?thesis using keyed_items[OF assms] by metis
  qed
  then have "set (tm_items (trim t)) = (\<lambda>x. (tkey x, x)) ` set (drop n all)"
  proof (intro set_eqI iffI)
    fix p assume "p \<in> set (tm_items (trim t))"
    then have "p \<in> set (tm_items t)" "snd p \<in> set (drop n all)" using kept[of "fst p" "snd p"] by simp_all
    then show "p \<in> (\<lambda>x. (tkey x, x)) ` set (drop n all)" using keyed_items[OF assms, of "fst p" "snd p"] by (intro image_eqI[of _ _ "snd p"]) auto
  qed (use kept in blast)
  then have "fst ` set (tm_items (trim t)) = tkey ` set (drop n all)" by (simp add: image_image)
  then have "length (tm_items (trim t)) = length (drop n all)"
    using \<open>distinct (map fst (tm_items (trim t)))\<close> dis(2) by (metis distinct_card length_map list.set_map)
  moreover have "ts_GoneAt x \<le> ts_GoneAt y" if "x \<in> set (take n all)" "y \<in> set (drop n all)" for x y
  proof -
    have "sorted (map ts_GoneAt (take n all @ drop n all))" by (simp add: all_def)
    then show ?thesis using that by (auto simp: sorted_append simp del: append_take_drop_id)
  qed
  ultimately show ?thesis using False kept split perm(2) by (fastforce simp: n_def)
qed

text \<open>
  Adding tombstones never leaves more than the limit, drops something only when the limit is passed, and what it drops disappeared no later than everything it keeps.
\<close>
theorem newest_tombstones_kept:
  assumes "tomb_wf t"
  shows "let t1 = fold add_item ts t; t2 = AddTombstones ts t
    in length (tm_items t2) = min (length (tm_items t1)) (tm_max t) \<and> set (tm_items t2) \<subseteq> set (tm_items t1)
     \<and> (\<forall>(k, x) \<in> set (tm_items t1) - set (tm_items t2). \<forall>(j, y) \<in> set (tm_items t2). ts_GoneAt x \<le> ts_GoneAt y)"
proof -
  have wf: "tomb_wf (fold add_item ts t)" using assms by (induction ts arbitrary: t) (auto intro: add_item_wf)
  have "tm_max (fold add_item ts t) = tm_max t" by (induction ts arbitrary: t) (auto simp: add_item_def Let_def)
  then show ?thesis using trim_kept[OF wf] by (simp add: AddTombstones_def Let_def)
qed


subsection \<open>Witnesses\<close>

lemma disappeared_exact_witness:
  "let st = Apply demo_ops New demo_sync; s = demo_sync\<lparr>sy_Namespaces := []\<rparr>
   in {(kind, k). k \<in> held_keys st kind \<and> k \<notin> held_keys (Apply demo_ops st s) kind \<and> k \<notin> sent_keys s kind} = {(KindNamespace, ''bc'')}"
proof -
  have "map vn_name (Disappeared (Apply demo_ops New demo_sync) (demo_sync\<lparr>sy_Namespaces := []\<rparr>) 2) = [(KindNamespace, ''bc'')]" by code_simp
  then have "vn_name ` set (Disappeared (Apply demo_ops New demo_sync) (demo_sync\<lparr>sy_Namespaces := []\<rparr>) 2) = {(KindNamespace, ''bc'')}"
    by (metis list.set(1,2) list.set_map)
  then show ?thesis using disappeared_exact[OF Apply_wf[OF New_wf], of demo_ops demo_sync "demo_sync\<lparr>sy_Namespaces := []\<rparr>" 2] by (simp add: Let_def)
qed

definition toy_tomb :: "string \<Rightarrow> time \<Rightarrow> tombstone" where
  "toy_tomb i at = \<lparr>ts_Kind = KindNode, ts_ID = i, ts_Name = i, ts_ClusterID = ''c'', ts_AgentID = ''a'', ts_GoneAt = at,
     ts_LastSeen = None, ts_Reason = removed_reason, ts_Record = None\<rparr>"

definition toy_rows :: "(tkey \<times> tomb_cols) list" where
  "toy_rows = [((KindNode, ''n1''), tomb_row (toy_tomb ''n1'' 0))]"

definition toy_steps :: "twin_event list" where
  "toy_steps = [StepDirty, StepAdd [toy_tomb ''n2'' 1000000, toy_tomb ''n3'' 0], StepDirty, StepRevive KindNode ''n2'', StepPut True, StepDelete False, StepRequeue]"

lemma toy_run: "tw_pc (foldl twin_step (twin_load 0 toy_rows) toy_steps) = FlushIdle"
  "map fst (tm_items (tw_tombs (FlushTombs 0 False False (foldl twin_step (twin_load 0 toy_rows) toy_steps)))) = [(KindNode, ''n1''), (KindNode, ''n3'')]"
  by code_simp+

lemma tombstones_saved_witness:
  "tw_store (FlushTombs 0 False False (foldl twin_step (twin_load 0 toy_rows) toy_steps))
     = tomb_view (tw_tombs (FlushTombs 0 False False (foldl twin_step (twin_load 0 toy_rows) toy_steps)))"
proof -
  have "distinct (map fst toy_rows)" "list_all (\<lambda>(k, r). tomb_row (read_row k r) = r) toy_rows" by code_simp+
  then show ?thesis using tombstones_saved[of toy_rows _ 0 toy_steps, OF _ _ refl, of 0] toy_run(1) by blast
qed

lemma newest_tombstones_kept_witness:
  "let t = (NewTombstones 0)\<lparr>tm_max := 1\<rparr>; ts = [toy_tomb ''n2'' 5, toy_tomb ''n3'' 0]
   in tm_items (AddTombstones ts t) = [((KindNode, ''n2''), toy_tomb ''n2'' 5)] \<and> length (tm_items (AddTombstones ts t)) = min (length (tm_items (fold add_item ts t))) (tm_max t)"
proof -
  have "tomb_wf ((NewTombstones 0)\<lparr>tm_max := 1\<rparr>)" by (simp add: tomb_wf_def NewTombstones_def)
  moreover have "tm_items (AddTombstones [toy_tomb ''n2'' 5, toy_tomb ''n3'' 0] ((NewTombstones 0)\<lparr>tm_max := 1\<rparr>)) = [((KindNode, ''n2''), toy_tomb ''n2'' 5)]"
    by code_simp
  ultimately show ?thesis using newest_tombstones_kept[of "(NewTombstones 0)\<lparr>tm_max := 1\<rparr>" "[toy_tomb ''n2'' 5, toy_tomb ''n3'' 0]"]
    by (simp add: Let_def)
qed

end
