(* ===== verification/Identity.thy ===== *)
theory Identity
  imports AuditTrail Twin
begin

text \<open>
  Which record a machine is (\<open>twin/identity.go\<close>): the identity a node reports, the registry that gives a record id to every identity
  of a cluster and keeps it when the machine is renamed, and the writing of the registry to the store (\<open>store/twin.go\<close>,
  \<open>estate/twin.go\<close>).

  SHA-256 and \<open>strings.ToLower\<close>, whose Unicode tables are Go's, are the fields of \<open>id_env\<close>. A map of the registry is a function,
  the set of changed entries a list without repetitions.
\<close>

subsection \<open>The identity of a node\<close>

record id_env =
  ie_sha :: "string \<Rightarrow> string"
  ie_lower :: "string \<Rightarrow> string"

datatype node_basis = BasisProviderID | BasisSystemUUID | BasisMachineID | BasisName

record node_identity =
  ni_Basis :: node_basis
  ni_Digest :: string

definition basis_text :: "node_basis \<Rightarrow> string" where
  "basis_text b = (case b of BasisProviderID \<Rightarrow> ''provider-id'' | BasisSystemUUID \<Rightarrow> ''system-uuid'' | BasisMachineID \<Rightarrow> ''machine-id''
     | BasisName \<Rightarrow> ''name'')"

definition identity_text :: "node_identity \<Rightarrow> string" where
  "identity_text i = basis_text (ni_Basis i) @ '':'' @ ni_Digest i"

definition nameDerived :: "string list" where
  "nameDerived = [''k3s://'', ''rke2://'', ''k0s://'', ''kind://'', ''minikube://'', ''microk8s://'', ''talos://'', ''docker://'', ''kubeadm://'']"

definition junkIDs :: "string list" where
  "junkIDs = [[], ''00000000-0000-0000-0000-000000000000'', ''ffffffff-ffff-ffff-ffff-ffffffffffff'', ''03000200-0400-0500-0006-000700080009'',
     ''00000000000000000000000000000000'', ''unknown'', ''none'', ''not settable'']"

definition usable :: "id_env \<Rightarrow> string \<Rightarrow> bool" where
  "usable env s = (let s = ie_lower env (trim_space s) in s \<notin> set junkIDs \<and> length s \<ge> 8)"

definition id_digest :: "id_env \<Rightarrow> string \<Rightarrow> string" where
  "id_digest env v = hex (take 8 (ie_sha env (ie_lower env (trim_space v))))"

definition IdentityOf :: "id_env \<Rightarrow> node_facts \<Rightarrow> node_identity" where
  "IdentityOf env n =
     (let p = trim_space (nf_ProviderId n);
          derived = list_ex (\<lambda>s. prefix s (ie_lower env p)) nameDerived
      in if p \<noteq> [] \<and> usable env p \<and> \<not> derived \<and> \<not> suffix (''/'' @ nf_Name n) p
         then \<lparr>ni_Basis = BasisProviderID, ni_Digest = id_digest env p\<rparr>
         else if usable env (nf_SystemUuid n) then \<lparr>ni_Basis = BasisSystemUUID, ni_Digest = id_digest env (nf_SystemUuid n)\<rparr>
         else if usable env (nf_MachineId n) then \<lparr>ni_Basis = BasisMachineID, ni_Digest = id_digest env (nf_MachineId n)\<rparr>
         else \<lparr>ni_Basis = BasisName, ni_Digest = nf_Name n\<rparr>)"

subsection \<open>Record ids\<close>

fun join_nul :: "string list \<Rightarrow> string" where
  "join_nul [] = []"
| "join_nul [p] = p"
| "join_nul (p # q # ps) = p @ [CHR 0x00] @ join_nul (q # ps)"

definition interpret_hash :: "id_env \<Rightarrow> string list \<Rightarrow> string" where
  "interpret_hash env parts = hex (take 6 (ie_sha env (join_nul parts)))"

definition LegacyNodeID :: "id_env \<Rightarrow> string \<Rightarrow> string \<Rightarrow> string" where
  "LegacyNodeID env cluster name = ''nd-'' @ interpret_hash env [cluster, name]"

definition extendedNodeID :: "id_env \<Rightarrow> string \<Rightarrow> string \<Rightarrow> node_identity \<Rightarrow> string" where
  "extendedNodeID env cluster name i = ''nd-'' @ interpret_hash env [cluster, name, identity_text i]"

record node_record =
  nr_ID :: string
  nr_Identity :: node_identity
  nr_Aliases :: "string list"
  nr_Renamed :: bool
  nr_Replaced :: bool

subsection \<open>The registry\<close>

record identity =
  id_ClusterID :: string
  id_Ident :: string
  id_RecordID :: string
  id_Name :: string
  id_Aliases :: "string list"
  id_FirstSeen :: time
  id_LastSeen :: time

record registry =
  rg_entries :: "string \<Rightarrow> string \<rightharpoonup> identity"
  rg_owner :: "string \<Rightarrow> string \<rightharpoonup> string"
  rg_dirty :: "(string \<times> string) list"

definition NewRegistry :: registry where
  "NewRegistry = \<lparr>rg_entries = (\<lambda>_. Map.empty), rg_owner = (\<lambda>_. Map.empty), rg_dirty = []\<rparr>"

definition put_identity :: "identity \<Rightarrow> registry \<Rightarrow> registry" where
  "put_identity e r = (let c = id_ClusterID e in
     r\<lparr>rg_entries := (rg_entries r)(c := (rg_entries r c)(id_Ident e \<mapsto> e)),
       rg_owner := (rg_owner r)(c := (rg_owner r c)(id_RecordID e \<mapsto> id_Ident e))\<rparr>)"

definition LoadRegistry :: "identity list \<Rightarrow> registry \<Rightarrow> registry" where
  "LoadRegistry es r = fold put_identity es r"

definition mark_dirty :: "string \<Rightarrow> string \<Rightarrow> registry \<Rightarrow> registry" where
  "mark_dirty c i r = r\<lparr>rg_dirty := List.insert (c, i) (rg_dirty r)\<rparr>"

definition prepend_alias :: "string list \<Rightarrow> string \<Rightarrow> string list" where
  "prepend_alias as s = (if s \<in> set as then as else take 10 (s # as))"

text \<open>The first two loops of \<open>Resolve\<close>: what each node reports, with an identifier two nodes share trusted for neither.\<close>

definition count_identities :: "id_env \<Rightarrow> node_facts list \<Rightarrow> string \<Rightarrow> nat" where
  "count_identities env ns = fold (\<lambda>n cnt. let i = IdentityOf env n in
     if ni_Basis i \<noteq> BasisName then cnt(identity_text i := cnt (identity_text i) + 1) else cnt) ns (\<lambda>_. 0)"

definition trusted_identities :: "id_env \<Rightarrow> node_facts list \<Rightarrow> string \<rightharpoonup> node_identity" where
  "trusted_identities env ns =
     (let idents = fold (\<lambda>n m. m(nf_Key n \<mapsto> IdentityOf env n)) ns Map.empty; cnt = count_identities env ns
      in fold (\<lambda>n m. case m (nf_Key n) of None \<Rightarrow> m
           | Some i \<Rightarrow> if ni_Basis i \<noteq> BasisName \<and> cnt (identity_text i) > 1
               then m(nf_Key n \<mapsto> \<lparr>ni_Basis = BasisName, ni_Digest = nf_Name n\<rparr>) else m) ns idents)"

record resolving =
  rs_reg :: registry
  rs_out :: "string \<rightharpoonup> node_record"
  rs_taken :: "string list"

text \<open>One turn of the last loop; \<open>i\<close> is \<open>idents[n.Key]\<close>.\<close>

definition resolve_node :: "id_env \<Rightarrow> string \<Rightarrow> time \<Rightarrow> node_facts \<Rightarrow> node_identity \<Rightarrow> resolving \<Rightarrow> resolving" where
  "resolve_node env cluster now n i s =
     (let r = rs_reg s; give = (\<lambda>rec r. s\<lparr>rs_reg := r, rs_out := (rs_out s)(nf_Key n \<mapsto> rec), rs_taken := nr_ID rec # rs_taken s\<rparr>) in
      if ni_Basis i = BasisName then
        give \<lparr>nr_ID = LegacyNodeID env cluster (nf_Name n), nr_Identity = i, nr_Aliases = [], nr_Renamed = False, nr_Replaced = False\<rparr> r
      else (let key = identity_text i in
        case rg_entries r cluster key of
          Some e \<Rightarrow>
            (let renamed = (id_Name e \<noteq> nf_Name n);
                 e' = (if renamed then e\<lparr>id_Aliases := prepend_alias (id_Aliases e) (id_Name e), id_Name := nf_Name n\<rparr> else e);
                 r' = r\<lparr>rg_entries := (rg_entries r)(cluster := (rg_entries r cluster)(key \<mapsto> e'\<lparr>id_LastSeen := now\<rparr>))\<rparr>
             in give \<lparr>nr_ID = id_RecordID e, nr_Identity = i, nr_Aliases = id_Aliases e', nr_Renamed = renamed, nr_Replaced = False\<rparr>
                  (if renamed then mark_dirty cluster key r' else r'))
        | None \<Rightarrow>
            (let legacy = LegacyNodeID env cluster (nf_Name n);
                 replaced = ((case rg_owner r cluster legacy of None \<Rightarrow> False | Some h \<Rightarrow> h \<noteq> key) \<or> legacy \<in> set (rs_taken s));
                 cand = (if replaced then extendedNodeID env cluster (nf_Name n) i else legacy)
             in give \<lparr>nr_ID = cand, nr_Identity = i, nr_Aliases = [], nr_Renamed = False, nr_Replaced = replaced\<rparr>
                  (mark_dirty cluster key (put_identity \<lparr>id_ClusterID = cluster, id_Ident = key, id_RecordID = cand, id_Name = nf_Name n,
                     id_Aliases = [], id_FirstSeen = now, id_LastSeen = now\<rparr> r)))))"

definition Resolve :: "id_env \<Rightarrow> string \<Rightarrow> node_facts list \<Rightarrow> time \<Rightarrow> registry \<Rightarrow> (string \<rightharpoonup> node_record) \<times> registry" where
  "Resolve env cluster nodes now r =
     (let ns = sort_key nf_Name nodes; idents = trusted_identities env ns;
          s = fold (\<lambda>n. resolve_node env cluster now n (the (idents (nf_Key n)))) ns \<lparr>rs_reg = r, rs_out = Map.empty, rs_taken = []\<rparr>
      in (rs_out s, rs_reg s))"

definition DirtyIdentities :: "registry \<Rightarrow> identity list \<times> registry" where
  "DirtyIdentities r = (sort_key (\<lambda>e. id_ClusterID e @ id_Ident e) (List.map_filter (\<lambda>(c, i). rg_entries r c i) (rg_dirty r)),
     r\<lparr>rg_dirty := []\<rparr>)"

definition RequeueIdentities :: "identity list \<Rightarrow> registry \<Rightarrow> registry" where
  "RequeueIdentities es r = fold (\<lambda>e. mark_dirty (id_ClusterID e) (id_Ident e)) es r"

subsection \<open>The stored identities\<close>

fun joinAliases :: "string list \<Rightarrow> string" where
  "joinAliases [] = []"
| "joinAliases [a] = a"
| "joinAliases (a # b # as) = a @ [CHR 0x0A] @ joinAliases (b # as)"

definition splitAliases :: "string \<Rightarrow> string list" where
  "splitAliases s = (if s = [] then [] else filter (\<lambda>a. a \<noteq> []) (split_at (CHR 0x0A) s))"

record identity_row =
  ir_RecordID :: string
  ir_Name :: string
  ir_Aliases :: string
  ir_FirstSeen :: int
  ir_LastSeen :: int

type_synonym identity_store = "string \<times> string \<rightharpoonup> identity_row"

definition PutIdentity :: "identity \<Rightarrow> identity_store \<Rightarrow> identity_store" where
  "PutIdentity e st = (let k = (id_ClusterID e, id_Ident e) in
     st(k \<mapsto> (case st k of
         None \<Rightarrow> \<lparr>ir_RecordID = id_RecordID e, ir_Name = id_Name e, ir_Aliases = joinAliases (id_Aliases e),
                 ir_FirstSeen = id_FirstSeen e div 1000000, ir_LastSeen = id_LastSeen e div 1000000\<rparr>
       | Some r \<Rightarrow> r\<lparr>ir_RecordID := id_RecordID e, ir_Name := id_Name e, ir_Aliases := joinAliases (id_Aliases e),
                 ir_LastSeen := id_LastSeen e div 1000000\<rparr>)))"

definition PutIdentities :: "bool \<Rightarrow> identity list \<Rightarrow> identity_store \<Rightarrow> identity_store option" where
  "PutIdentities fails es st = (if es = [] then Some st else if fails then None else Some (fold PutIdentity es st))"

definition ReadIdentity :: "string \<times> string \<Rightarrow> identity_row \<Rightarrow> identity" where
  "ReadIdentity k r = \<lparr>id_ClusterID = fst k, id_Ident = snd k, id_RecordID = ir_RecordID r, id_Name = ir_Name r,
     id_Aliases = splitAliases (ir_Aliases r), id_FirstSeen = ir_FirstSeen r * 1000000, id_LastSeen = ir_LastSeen r * 1000000\<rparr>"


subsection \<open>Aliases come back as they were stored\<close>

lemma split_at_app: "c \<notin> set a \<Longrightarrow> split_at c (a @ c # s) = a # split_at c s"
  by (induction a) (auto split: list.splits)

lemma split_at_one: "c \<notin> set a \<Longrightarrow> split_at c a = [a]"
  by (induction a) auto

lemma aliases_roundtrip:
  "list_all (\<lambda>a. a \<noteq> [] \<and> CHR 0x0A \<notin> set a) as \<Longrightarrow> splitAliases (joinAliases as) = as"
proof -
  assume ok: "list_all (\<lambda>a. a \<noteq> [] \<and> CHR 0x0A \<notin> set a) as"
  have "as \<noteq> [] \<Longrightarrow> split_at (CHR 0x0A) (joinAliases as) = as"
    using ok by (induction as rule: joinAliases.induct) (simp_all add: split_at_app split_at_one)
  moreover have "as \<noteq> [] \<Longrightarrow> joinAliases as \<noteq> []" using ok by (cases as rule: joinAliases.cases) auto
  ultimately show ?thesis using ok by (cases "as = []") (auto simp: splitAliases_def list_all_iff)
qed

subsection \<open>What each node is trusted with\<close>

lemma count_identities_length:
  "count_identities env ns t = length (filter (\<lambda>n. ni_Basis (IdentityOf env n) \<noteq> BasisName \<and> identity_text (IdentityOf env n) = t) ns)"
proof -
  have "fold (\<lambda>n cnt. let i = IdentityOf env n in if ni_Basis i \<noteq> BasisName then cnt(identity_text i := cnt (identity_text i) + 1) else cnt) ns f t
     = f t + length (filter (\<lambda>n. ni_Basis (IdentityOf env n) \<noteq> BasisName \<and> identity_text (IdentityOf env n) = t) ns)" for f
    by (induction ns arbitrary: f) (auto simp: Let_def)
  then show ?thesis by (simp add: count_identities_def)
qed

definition trusted :: "id_env \<Rightarrow> node_facts list \<Rightarrow> node_facts \<Rightarrow> node_identity" where
  "trusted env ns n = (let i = IdentityOf env n in
     if ni_Basis i \<noteq> BasisName \<and> count_identities env ns (identity_text i) > 1 then \<lparr>ni_Basis = BasisName, ni_Digest = nf_Name n\<rparr> else i)"

lemma trusted_identities_trusted:
  assumes "distinct (map nf_Key ns)" "n \<in> set ns"
  shows "trusted_identities env ns (nf_Key n) = Some (trusted env ns n)"
proof -
  define cnt where "cnt = count_identities env ns"
  let ?f = "\<lambda>n m. case m (nf_Key n) of None \<Rightarrow> m | Some i \<Rightarrow> if ni_Basis i \<noteq> BasisName \<and> cnt (identity_text i) > 1
               then m(nf_Key n \<mapsto> \<lparr>ni_Basis = BasisName, ni_Digest = nf_Name n\<rparr>) else m"
  have put: "fold (\<lambda>n m. m(nf_Key n \<mapsto> IdentityOf env n)) xs m (nf_Key n) = (if n \<in> set xs then Some (IdentityOf env n) else m (nf_Key n))"
    if "distinct (map nf_Key xs)" "nf_Key n \<in> nf_Key ` set xs \<longrightarrow> n \<in> set xs" for xs m
    using that
  proof (induction xs arbitrary: m)
    case (Cons x xs)
    then show ?case by (cases "nf_Key x = nf_Key n") auto
  qed simp
  have skip: "fold ?f xs m (nf_Key n) = m (nf_Key n)" if "nf_Key n \<notin> nf_Key ` set xs" for xs m
    using that
  proof (induction xs arbitrary: m)
    case (Cons x xs)
    then have "?f x m (nf_Key n) = m (nf_Key n)" by (auto split: option.splits)
    with Cons show ?case by simp
  qed simp
  have walk: "fold ?f xs m (nf_Key n) = Some (trusted env ns n)"
    if "distinct (map nf_Key xs)" "n \<in> set xs" "m (nf_Key n) = Some (IdentityOf env n)" for xs m
    using that
  proof (induction xs arbitrary: m)
    case (Cons x xs)
    show ?case
    proof (cases "x = n")
      case True
      then have "nf_Key n \<notin> nf_Key ` set xs" using Cons.prems(1) by auto
      then show ?thesis using True Cons.prems(3) by (auto simp: skip trusted_def Let_def cnt_def)
    next
      case False
      then have "nf_Key x \<noteq> nf_Key n" using Cons.prems(1,2) by force
      then have "?f x m (nf_Key n) = Some (IdentityOf env n)" using Cons.prems(3) by (auto split: option.splits)
      then show ?thesis using False Cons by simp
    qed
  qed simp
  show ?thesis
    unfolding trusted_identities_def Let_def cnt_def[symmetric]
    by (rule walk) (use assms put[of ns Map.empty] in auto)
qed

lemma trusted_reported: "ni_Basis (trusted env ns n) \<noteq> BasisName \<Longrightarrow> trusted env ns n = IdentityOf env n"
  by (auto simp: trusted_def Let_def split: if_splits)

lemma trusted_distinct:
  assumes "n \<in> set ns" "m \<in> set ns" "n \<noteq> m" "ni_Basis (trusted env ns n) \<noteq> BasisName" "ni_Basis (trusted env ns m) \<noteq> BasisName"
  shows "identity_text (trusted env ns n) \<noteq> identity_text (trusted env ns m)"
proof
  let ?P = "\<lambda>x. ni_Basis (IdentityOf env x) \<noteq> BasisName \<and> identity_text (IdentityOf env x) = identity_text (IdentityOf env n)"
  assume "identity_text (trusted env ns n) = identity_text (trusted env ns m)"
  then have t: "identity_text (IdentityOf env m) = identity_text (IdentityOf env n)"
    using trusted_reported[OF assms(4)] trusted_reported[OF assms(5)] by simp
  have b: "ni_Basis (IdentityOf env n) \<noteq> BasisName" "ni_Basis (IdentityOf env m) \<noteq> BasisName"
    using assms(4,5) trusted_reported by metis+
  have "{n, m} \<subseteq> set (filter ?P ns)" using assms(1,2) b t by auto
  then have "card {n, m} \<le> length (filter ?P ns)" by (meson card_length card_mono finite_set le_trans)
  then have "count_identities env ns (identity_text (IdentityOf env n)) > 1" using assms(3) by (simp add: count_identities_length)
  then have "ni_Basis (trusted env ns n) = BasisName" using b by (simp add: trusted_def Let_def)
  then show False using assms(4) by simp
qed


subsection \<open>What the registry keeps\<close>

definition reg_wf :: "registry \<Rightarrow> bool" where
  "reg_wf r \<longleftrightarrow> (\<forall>c i e. rg_entries r c i = Some e \<longrightarrow> id_ClusterID e = c \<and> id_Ident e = i \<and> rg_owner r c (id_RecordID e) = Some i)
     \<and> (\<forall>c k i. rg_owner r c k = Some i \<longrightarrow> (\<exists>e. rg_entries r c i = Some e \<and> id_RecordID e = k))
     \<and> distinct (rg_dirty r)"

lemma reg_wf_entry: "reg_wf r \<Longrightarrow> rg_entries r c i = Some e \<Longrightarrow> id_ClusterID e = c \<and> id_Ident e = i \<and> rg_owner r c (id_RecordID e) = Some i"
  unfolding reg_wf_def by blast

lemma reg_wf_owner: "reg_wf r \<Longrightarrow> rg_owner r c k = Some i \<Longrightarrow> \<exists>e. rg_entries r c i = Some e \<and> id_RecordID e = k"
  unfolding reg_wf_def by blast

text \<open>Every record id that was given out is the hash of the parts it was made of, which are in \<open>P\<close>.\<close>

definition reg_from :: "id_env \<Rightarrow> string list set \<Rightarrow> registry \<Rightarrow> bool" where
  "reg_from env P r \<longleftrightarrow> (\<forall>c k i. rg_owner r c k = Some i \<longrightarrow>
     (\<exists>n. k = ''nd-'' @ interpret_hash env [c, n] \<and> [c, n] \<in> P) \<or> (\<exists>n. k = ''nd-'' @ interpret_hash env [c, n, i] \<and> [c, n, i] \<in> P))"

definition node_parts :: "id_env \<Rightarrow> string \<Rightarrow> node_facts \<Rightarrow> string list set" where
  "node_parts env c n = {[c, nf_Name n], [c, nf_Name n, identity_text (IdentityOf env n)]}"

text \<open>The same identities or more, each with the record id it had.\<close>

definition reg_keeps :: "registry \<Rightarrow> registry \<Rightarrow> bool" where
  "reg_keeps r r' \<longleftrightarrow> (\<forall>c i e. rg_entries r c i = Some e \<longrightarrow> (\<exists>e'. rg_entries r' c i = Some e' \<and> id_RecordID e' = id_RecordID e))"

lemma reg_keeps_refl [simp]: "reg_keeps r r"
  by (simp add: reg_keeps_def)

lemma reg_keeps_trans: "reg_keeps r s \<Longrightarrow> reg_keeps s t \<Longrightarrow> reg_keeps r t"
  unfolding reg_keeps_def by metis

lemma put_new_identity:
  assumes "reg_wf r" "rg_entries r c i = None" "rg_owner r c k = None" "id_ClusterID e = c" "id_Ident e = i" "id_RecordID e = k"
  shows "reg_wf (mark_dirty c i (put_identity e r)) \<and> reg_keeps r (mark_dirty c i (put_identity e r))"
proof
  show "reg_keeps r (mark_dirty c i (put_identity e r))"
    using assms(2,4,5) by (auto simp: reg_keeps_def mark_dirty_def put_identity_def Let_def)
  have own: "j \<noteq> i" if "rg_owner r c x = Some j" for x j using reg_wf_owner[OF assms(1) that] assms(2) by auto
  have rid: "id_RecordID e' \<noteq> k" if "rg_entries r c j = Some e'" for j e' using reg_wf_entry[OF assms(1) that] assms(3) by auto
  show "reg_wf (mark_dirty c i (put_identity e r))"
    using assms own rid unfolding reg_wf_def mark_dirty_def put_identity_def Let_def by auto
qed

lemma update_identity:
  assumes "reg_wf r" "rg_entries r c i = Some e" "id_ClusterID e' = c" "id_Ident e' = i" "id_RecordID e' = id_RecordID e"
  shows "reg_wf (r\<lparr>rg_entries := (rg_entries r)(c := (rg_entries r c)(i \<mapsto> e'))\<rparr>)"
    "reg_keeps r (r\<lparr>rg_entries := (rg_entries r)(c := (rg_entries r c)(i \<mapsto> e'))\<rparr>)"
proof -
  show "reg_wf (r\<lparr>rg_entries := (rg_entries r)(c := (rg_entries r c)(i \<mapsto> e'))\<rparr>)"
    using assms unfolding reg_wf_def by (auto; metis option.inject)
  show "reg_keeps r (r\<lparr>rg_entries := (rg_entries r)(c := (rg_entries r c)(i \<mapsto> e'))\<rparr>)"
    using assms by (simp add: reg_keeps_def)
qed

lemma mark_dirty_wf: "reg_wf r \<Longrightarrow> reg_wf (mark_dirty c i r)"
  unfolding reg_wf_def mark_dirty_def by auto

lemma mark_dirty_sel [simp]: "rg_entries (mark_dirty c i r) = rg_entries r" "rg_owner (mark_dirty c i r) = rg_owner r"
  "set (rg_dirty (mark_dirty c i r)) = insert (c, i) (set (rg_dirty r))"
  by (simp_all add: mark_dirty_def)

lemma reg_keeps_mark [simp]: "reg_keeps r (mark_dirty c i r') = reg_keeps r r'"
  by (simp add: reg_keeps_def)

lemma reg_from_owner: "reg_from env P r \<Longrightarrow> rg_owner r' = rg_owner r \<Longrightarrow> reg_from env P r'"
  by (simp add: reg_from_def)

text \<open>A new machine gets an id nobody in its cluster has.\<close>

lemma fresh_record_id:
  assumes "reg_wf r" "reg_from env P r" "inj_on (interpret_hash env) P" "[c, nm] \<in> P" "[c, nm, key] \<in> P" "rg_entries r c key = None"
    and cand: "cand = (if (case rg_owner r c (''nd-'' @ interpret_hash env [c, nm]) of None \<Rightarrow> False | Some h \<Rightarrow> h \<noteq> key) \<or> b
      then ''nd-'' @ interpret_hash env [c, nm, key] else ''nd-'' @ interpret_hash env [c, nm])"
  shows "rg_owner r c cand = None"
proof (rule ccontr)
  assume "rg_owner r c cand \<noteq> None"
  then obtain j where j: "rg_owner r c cand = Some j" by blast
  then have "j \<noteq> key" using reg_wf_owner[OF assms(1) j] assms(6) by auto
  then have x: "cand = ''nd-'' @ interpret_hash env [c, nm, key]" using cand j by (auto split: if_splits)
  from assms(2) j consider n where "cand = ''nd-'' @ interpret_hash env [c, n]" "[c, n] \<in> P"
    | n where "cand = ''nd-'' @ interpret_hash env [c, n, j]" "[c, n, j] \<in> P" unfolding reg_from_def by blast
  then show False
  proof cases
    case 1
    then have "[c, n] = [c, nm, key]" using x inj_onD[OF assms(3)] assms(5) by (metis same_append_eq)
    then show False by simp
  next
    case 2
    then have "[c, n, j] = [c, nm, key]" using x inj_onD[OF assms(3)] assms(5) by (metis same_append_eq)
    then show False using \<open>j \<noteq> key\<close> by simp
  qed
qed


definition reg_inv :: "id_env \<Rightarrow> string list set \<Rightarrow> registry \<Rightarrow> bool" where
  "reg_inv env P r \<longleftrightarrow> reg_wf r \<and> reg_from env P r"

text \<open>One node: the registry stays as it should be and keeps what it has, and the record handed out is the one of the node's entry.\<close>

lemma resolve_node_step:
  assumes inv: "reg_inv env P (rs_reg s)" and inj: "inj_on (interpret_hash env) P" and parts: "node_parts env c n \<subseteq> P"
    and i: "ni_Basis i \<noteq> BasisName \<longrightarrow> i = IdentityOf env n"
    and t_def: "t = resolve_node env c now n i s"
  shows "reg_inv env P (rs_reg t) \<and> reg_keeps (rs_reg s) (rs_reg t)
    \<and> (\<exists>rec. rs_out t = (rs_out s)(nf_Key n \<mapsto> rec) \<and> nr_Identity rec = i
       \<and> (if ni_Basis i = BasisName then nr_ID rec = LegacyNodeID env c (nf_Name n)
          else (\<exists>e. rg_entries (rs_reg t) c (identity_text i) = Some e \<and> id_RecordID e = nr_ID rec
            \<and> nr_Renamed rec = (\<exists>e0. rg_entries (rs_reg s) c (identity_text i) = Some e0 \<and> id_Name e0 \<noteq> nf_Name n))))"
proof (cases "ni_Basis i = BasisName")
  case True
  then show ?thesis using inv by (simp add: t_def resolve_node_def Let_def) (rule exI, rule conjI, rule refl, simp)
next
  case False
  define key where "key = identity_text i"
  have p: "[c, nf_Name n] \<in> P" "[c, nf_Name n, key] \<in> P" using parts i False by (auto simp: node_parts_def key_def)
  have wf: "reg_wf (rs_reg s)" and from_P: "reg_from env P (rs_reg s)" using inv by (auto simp: reg_inv_def)
  show ?thesis
  proof (cases "rg_entries (rs_reg s) c key")
    case (Some e)
    define e' where "e' = (if id_Name e \<noteq> nf_Name n then e\<lparr>id_Aliases := prepend_alias (id_Aliases e) (id_Name e), id_Name := nf_Name n\<rparr> else e)\<lparr>id_LastSeen := now\<rparr>"
    define r' where "r' = (rs_reg s)\<lparr>rg_entries := (rg_entries (rs_reg s))(c := (rg_entries (rs_reg s) c)(key \<mapsto> e'))\<rparr>"
    have t: "rs_reg t = (if id_Name e \<noteq> nf_Name n then mark_dirty c key r' else r')"
      using False Some by (simp add: t_def resolve_node_def Let_def key_def[symmetric] r'_def e'_def)
    have "id_ClusterID e' = c" "id_Ident e' = key" "id_RecordID e' = id_RecordID e"
      using reg_wf_entry[OF wf Some] by (auto simp: e'_def)
    from update_identity[OF wf Some this] have r': "reg_wf r'" "reg_keeps (rs_reg s) r'" by (simp_all add: r'_def)
    have "reg_wf (rs_reg t)" "reg_keeps (rs_reg s) (rs_reg t)" "reg_from env P (rs_reg t)" "rg_entries (rs_reg t) c key = Some e'"
      using r' mark_dirty_wf[OF r'(1), of c key] reg_from_owner[OF from_P, of "rs_reg t"] by (auto simp: t r'_def)
    then show ?thesis using False Some \<open>id_RecordID e' = id_RecordID e\<close>
      by (auto simp: reg_inv_def t_def resolve_node_def Let_def key_def[symmetric])
  next
    case None
    define replaced where "replaced = ((case rg_owner (rs_reg s) c (LegacyNodeID env c (nf_Name n)) of None \<Rightarrow> False | Some h \<Rightarrow> h \<noteq> key)
        \<or> LegacyNodeID env c (nf_Name n) \<in> set (rs_taken s))"
    define cand where "cand = (if replaced then extendedNodeID env c (nf_Name n) i else LegacyNodeID env c (nf_Name n))"
    define e where "e = \<lparr>id_ClusterID = c, id_Ident = key, id_RecordID = cand, id_Name = nf_Name n, id_Aliases = [], id_FirstSeen = now, id_LastSeen = now\<rparr>"
    have t: "rs_reg t = mark_dirty c key (put_identity e (rs_reg s))"
      using False None by (simp add: t_def resolve_node_def Let_def key_def[symmetric] replaced_def[symmetric] cand_def[symmetric] e_def)
    have "rg_owner (rs_reg s) c cand = None"
      by (rule fresh_record_id[OF wf from_P inj p None, where b = "LegacyNodeID env c (nf_Name n) \<in> set (rs_taken s)"])
         (simp only: cand_def replaced_def LegacyNodeID_def extendedNodeID_def key_def)
    from put_new_identity[OF wf None this, of e]
    have "reg_wf (rs_reg t)" "reg_keeps (rs_reg s) (rs_reg t)" by (simp_all add: t e_def)
    moreover have "reg_from env P (rs_reg t)"
      using from_P p unfolding reg_from_def
      by (auto simp: t put_identity_def e_def Let_def cand_def LegacyNodeID_def extendedNodeID_def key_def)
    moreover have "rg_entries (rs_reg t) c key = Some e" by (simp add: t put_identity_def e_def Let_def)
    ultimately show ?thesis using False None
      by (auto simp: reg_inv_def t_def resolve_node_def Let_def key_def[symmetric] e_def cand_def replaced_def)
  qed
qed


text \<open>What a record says of the node it was handed out for, and of the registry before.\<close>

definition record_of :: "id_env \<Rightarrow> string \<Rightarrow> registry \<Rightarrow> registry \<Rightarrow> node_facts \<Rightarrow> node_identity \<Rightarrow> node_record \<Rightarrow> bool" where
  "record_of env c r0 r n i rec \<longleftrightarrow> nr_Identity rec = i
     \<and> (if ni_Basis i = BasisName then nr_ID rec = LegacyNodeID env c (nf_Name n)
        else \<exists>e. rg_entries r c (identity_text i) = Some e \<and> id_RecordID e = nr_ID rec)
     \<and> (\<forall>e0. ni_Basis i \<noteq> BasisName \<and> rg_entries r0 c (identity_text i) = Some e0 \<longrightarrow> nr_ID rec = id_RecordID e0)"

lemma record_of_later: "record_of env c r0 r n i rec \<Longrightarrow> reg_keeps r r' \<Longrightarrow> record_of env c r0 r' n i rec"
  unfolding record_of_def reg_keeps_def by (auto split: if_splits) metis

lemma resolve_nodes:
  assumes "inj_on (interpret_hash env) P" "\<And>n. n \<in> set ns \<Longrightarrow> node_parts env c n \<subseteq> P"
    "\<And>n. n \<in> set ns \<Longrightarrow> ni_Basis (f n) \<noteq> BasisName \<Longrightarrow> f n = IdentityOf env n" "distinct (map nf_Key ns)"
  shows "reg_inv env P (rs_reg s) \<Longrightarrow> t = fold (\<lambda>n. resolve_node env c now n (f n)) ns s \<Longrightarrow>
    reg_inv env P (rs_reg t) \<and> reg_keeps (rs_reg s) (rs_reg t) \<and> (\<forall>k. k \<notin> nf_Key ` set ns \<longrightarrow> rs_out t k = rs_out s k)
    \<and> (\<forall>n \<in> set ns. \<exists>rec. rs_out t (nf_Key n) = Some rec \<and> record_of env c (rs_reg s) (rs_reg t) n (f n) rec)"
  using assms(2-4)
proof (induction ns arbitrary: s)
  case (Cons n ns)
  let ?u = "resolve_node env c now n (f n) s"
  have i: "ni_Basis (f n) \<noteq> BasisName \<longrightarrow> f n = IdentityOf env n" using Cons.prems(4) by simp
  have p: "node_parts env c n \<subseteq> P" using Cons.prems(3) by simp
  obtain rec where u: "reg_inv env P (rs_reg ?u)" "reg_keeps (rs_reg s) (rs_reg ?u)" "rs_out ?u = (rs_out s)(nf_Key n \<mapsto> rec)" "nr_Identity rec = f n"
    "if ni_Basis (f n) = BasisName then nr_ID rec = LegacyNodeID env c (nf_Name n)
     else \<exists>e. rg_entries (rs_reg ?u) c (identity_text (f n)) = Some e \<and> id_RecordID e = nr_ID rec"
    using resolve_node_step[OF Cons.prems(1) assms(1) p i refl, of now] by (auto split: if_splits)
  have rec: "record_of env c (rs_reg s) (rs_reg ?u) n (f n) rec"
    using u(2,4,5) unfolding record_of_def reg_keeps_def by (auto split: if_splits) (metis option.inject)
  have t: "t = fold (\<lambda>n. resolve_node env c now n (f n)) ns ?u" using Cons.prems(2) by simp
  from Cons.IH[OF u(1) t] Cons.prems(3-5)
  have IH: "reg_inv env P (rs_reg t)" "reg_keeps (rs_reg ?u) (rs_reg t)" "\<And>k. k \<notin> nf_Key ` set ns \<Longrightarrow> rs_out t k = rs_out ?u k"
    "\<And>m. m \<in> set ns \<Longrightarrow> \<exists>rec. rs_out t (nf_Key m) = Some rec \<and> record_of env c (rs_reg ?u) (rs_reg t) m (f m) rec" by auto
  have move: "record_of env c (rs_reg s) (rs_reg t) m (f m) rec'" if "record_of env c (rs_reg ?u) (rs_reg t) m (f m) rec'" for m rec'
    using that u(2) unfolding record_of_def reg_keeps_def by auto metis
  have here: "rs_out t (nf_Key n) = Some rec" using IH(3)[of "nf_Key n"] u(3) Cons.prems(5) by auto
  show ?case
  proof (intro conjI ballI)
    fix m assume "m \<in> set (n # ns)"
    then consider "m = n" | "m \<in> set ns" by auto
    then show "\<exists>rec. rs_out t (nf_Key m) = Some rec \<and> record_of env c (rs_reg s) (rs_reg t) m (f m) rec"
    proof cases
      case 1 then show ?thesis using here record_of_later[OF rec IH(2)] by blast
    next
      case 2 then show ?thesis using IH(4) move by blast
    qed
  qed (use IH u(3) reg_keeps_trans[OF u(2) IH(2)] in auto)
qed auto

lemma Resolve_records:
  assumes "reg_inv env P r" "inj_on (interpret_hash env) P" "\<And>n. n \<in> set nodes \<Longrightarrow> node_parts env c n \<subseteq> P"
    "distinct (map nf_Key nodes)" "Resolve env c nodes now r = (out, r')"
  shows "reg_inv env P r' \<and> reg_keeps r r'
    \<and> (\<forall>n \<in> set nodes. \<exists>rec. out (nf_Key n) = Some rec \<and> record_of env c r r' n (trusted env (sort_key nf_Name nodes) n) rec)"
proof -
  define ns where "ns = sort_key nf_Name nodes"
  have "mset (map nf_Key ns) = mset (map nf_Key nodes)" by (simp only: ns_def mset_map mset_sort)
  then have d: "distinct (map nf_Key ns)" using assms(4) by (metis mset_eq_imp_distinct_iff)
  let ?s = "\<lparr>rs_reg = r, rs_out = Map.empty, rs_taken = []\<rparr>"
  have "fold (\<lambda>n. resolve_node env c now n (the (trusted_identities env ns (nf_Key n)))) ns ?s
      = fold (\<lambda>n. resolve_node env c now n (trusted env ns n)) ns ?s"
    by (rule fold_cong) (simp_all add: trusted_identities_trusted[OF d])
  then have t: "\<lparr>rs_reg = r', rs_out = out, rs_taken = rs_taken (fold (\<lambda>n. resolve_node env c now n (trusted env ns n)) ns ?s)\<rparr>
      = fold (\<lambda>n. resolve_node env c now n (trusted env ns n)) ns ?s"
    using assms(5) by (simp add: Resolve_def Let_def ns_def[symmetric])
  show ?thesis
    using resolve_nodes[OF assms(2) _ _ d _ t] assms(1,3) trusted_reported by (auto simp: ns_def)
qed


subsection \<open>Histories of the registry\<close>

datatype id_pc = IdIdle | IdTook "identity list" | IdPut "identity list"

record reg_run =
  rr_reg :: registry
  rr_store :: identity_store
  rr_pc :: id_pc

datatype reg_event = RegResolve string "node_facts list" time | RegDirty | RegPut bool | RegRequeue

text \<open>The last part of \<open>Hub.Flush\<close>, with snapshots coming in between its calls.\<close>

definition reg_step :: "id_env \<Rightarrow> reg_run \<Rightarrow> reg_event \<Rightarrow> reg_run" where
  "reg_step env w x = (case x of
       RegResolve c nodes now \<Rightarrow> w\<lparr>rr_reg := snd (Resolve env c nodes now (rr_reg w))\<rparr>
     | RegDirty \<Rightarrow> (case rr_pc w of IdIdle \<Rightarrow> (case DirtyIdentities (rr_reg w) of (es, r) \<Rightarrow>
           if es = [] then w\<lparr>rr_reg := r\<rparr> else w\<lparr>rr_reg := r, rr_pc := IdTook es\<rparr>) | _ \<Rightarrow> w)
     | RegPut fails \<Rightarrow> (case rr_pc w of IdTook es \<Rightarrow> (case PutIdentities fails es (rr_store w) of
           None \<Rightarrow> w\<lparr>rr_pc := IdPut es\<rparr> | Some st \<Rightarrow> w\<lparr>rr_store := st, rr_pc := IdPut []\<rparr>) | _ \<Rightarrow> w)
     | RegRequeue \<Rightarrow> (case rr_pc w of IdPut es \<Rightarrow> w\<lparr>rr_reg := RequeueIdentities es (rr_reg w), rr_pc := IdIdle\<rparr> | _ \<Rightarrow> w))"

definition reg_start :: reg_run where
  "reg_start = \<lparr>rr_reg = NewRegistry, rr_store = Map.empty, rr_pc = IdIdle\<rparr>"

definition snapshot_parts :: "id_env \<Rightarrow> reg_event list \<Rightarrow> string list set" where
  "snapshot_parts env xs = (\<Union>x \<in> set xs. case x of RegResolve c nodes now \<Rightarrow> (\<Union>n \<in> set nodes. node_parts env c n) | _ \<Rightarrow> {})"

definition keys_distinct :: "reg_event list \<Rightarrow> bool" where
  "keys_distinct xs \<longleftrightarrow> list_all (\<lambda>x. case x of RegResolve c nodes now \<Rightarrow> distinct (map nf_Key nodes) | _ \<Rightarrow> True) xs"

definition run_inv :: "id_env \<Rightarrow> string list set \<Rightarrow> reg_run \<Rightarrow> bool" where
  "run_inv env P w \<longleftrightarrow> reg_inv env P (rr_reg w)"

lemma reg_wf_dirty: "reg_wf r \<Longrightarrow> reg_wf (r\<lparr>rg_dirty := []\<rparr>)"
  by (simp add: reg_wf_def)

lemma RequeueIdentities_sel:
  "rg_entries (RequeueIdentities es r) = rg_entries r" "rg_owner (RequeueIdentities es r) = rg_owner r"
  "set (rg_dirty (RequeueIdentities es r)) = set (rg_dirty r) \<union> (\<lambda>e. (id_ClusterID e, id_Ident e)) ` set es"
  by (induction es arbitrary: r) (auto simp: RequeueIdentities_def)

lemma RequeueIdentities_wf: "reg_wf r \<Longrightarrow> reg_wf (RequeueIdentities es r)"
  by (induction es arbitrary: r) (simp_all add: RequeueIdentities_def mark_dirty_wf)

lemma set_map_filter: "y \<in> set (List.map_filter f ks) \<longleftrightarrow> (\<exists>k \<in> set ks. f k = Some y)"
  by (induction ks) (auto simp: map_filter_simps split: option.splits)

lemma Dirty_entries:
  assumes "reg_wf r"
  shows "e \<in> set (fst (DirtyIdentities r)) \<longleftrightarrow> (id_ClusterID e, id_Ident e) \<in> set (rg_dirty r) \<and> rg_entries r (id_ClusterID e) (id_Ident e) = Some e"
proof -
  have "e \<in> set (fst (DirtyIdentities r)) \<longleftrightarrow> (\<exists>c i. (c, i) \<in> set (rg_dirty r) \<and> rg_entries r c i = Some e)"
    by (simp add: DirtyIdentities_def set_map_filter Bex_def)
  moreover have "id_ClusterID e = c \<and> id_Ident e = i" if "rg_entries r c i = Some e" for c i
    using reg_wf_entry[OF assms that] by blast
  ultimately show ?thesis by blast
qed

lemma reg_step_inv:
  assumes "inj_on (interpret_hash env) P" "run_inv env P w" "snapshot_parts env [x] \<subseteq> P" "keys_distinct [x]"
  shows "run_inv env P (reg_step env w x) \<and> reg_keeps (rr_reg w) (rr_reg (reg_step env w x))"
proof (cases x)
  case (RegResolve c nodes now)
  obtain out r' where r: "Resolve env c nodes now (rr_reg w) = (out, r')" by fastforce
  have "reg_inv env P r' \<and> reg_keeps (rr_reg w) r'"
    using Resolve_records[OF _ assms(1) _ _ r] assms(2-4) by (auto simp: run_inv_def RegResolve snapshot_parts_def keys_distinct_def)
  then show ?thesis using r RegResolve by (simp add: run_inv_def reg_step_def)
next
  case RegDirty
  then show ?thesis using assms(2)
    by (auto simp: reg_step_def run_inv_def reg_inv_def reg_from_def reg_keeps_def reg_wf_dirty DirtyIdentities_def split: id_pc.splits)
next
  case (RegPut fails)
  then show ?thesis using assms(2) by (auto simp: reg_step_def run_inv_def split: id_pc.splits option.splits)
next
  case RegRequeue
  then show ?thesis using assms(2)
    by (auto simp: reg_step_def run_inv_def reg_inv_def reg_from_def reg_keeps_def RequeueIdentities_sel RequeueIdentities_wf split: id_pc.splits)
qed

lemma reg_steps_inv:
  assumes "inj_on (interpret_hash env) P"
  shows "run_inv env P w \<Longrightarrow> snapshot_parts env xs \<subseteq> P \<Longrightarrow> keys_distinct xs \<Longrightarrow>
    run_inv env P (foldl (reg_step env) w xs) \<and> reg_keeps (rr_reg w) (rr_reg (foldl (reg_step env) w xs))"
proof (induction xs arbitrary: w)
  case (Cons x xs)
  then have "run_inv env P (reg_step env w x) \<and> reg_keeps (rr_reg w) (rr_reg (reg_step env w x))"
    by (intro reg_step_inv[OF assms]) (auto simp: snapshot_parts_def keys_distinct_def)
  with Cons show ?case by (auto simp: snapshot_parts_def keys_distinct_def intro: reg_keeps_trans)
qed simp

lemma reg_start_inv: "run_inv env P reg_start"
  by (simp add: run_inv_def reg_start_def reg_inv_def reg_wf_def reg_from_def NewRegistry_def)

lemma trusted_sorted: "trusted env (sort_key f ns) = trusted env ns"
proof -
  have "mset (filter Q (sort_key f ns)) = mset (filter Q ns)" for Q by simp
  then have "length (filter Q (sort_key f ns)) = length (filter Q ns)" for Q by (metis size_mset)
  then have "count_identities env (sort_key f ns) = count_identities env ns" by (simp add: count_identities_length fun_eq_iff)
  then show ?thesis by (simp add: trusted_def fun_eq_iff)
qed

text \<open>
  C39. In any history of snapshots, in any order with the writing of the registry, two sightings of nodes in a cluster whose identities are trusted have the same record id exactly when they are
  sightings of the same identity: a machine keeps its id under any name, and a machine that takes another's name gets an id of its own. The hypothesis is that the hash behind the ids tells apart the names
  and identities of the history.
\<close>
theorem same_id_iff_same_machine:
  assumes "inj_on (interpret_hash env) (snapshot_parts env (xs @ RegResolve c nodes now # ys @ [RegResolve c nodes' now']))"
    "keys_distinct (xs @ RegResolve c nodes now # ys @ [RegResolve c nodes' now'])"
    "Resolve env c nodes now (rr_reg (foldl (reg_step env) reg_start xs)) = (out, r)"
    "Resolve env c nodes' now' (rr_reg (foldl (reg_step env) reg_start (xs @ RegResolve c nodes now # ys))) = (out', r')"
    "n \<in> set nodes" "ni_Basis (trusted env nodes n) \<noteq> BasisName" "n' \<in> set nodes'" "ni_Basis (trusted env nodes' n') \<noteq> BasisName"
  shows "\<exists>rec rec'. out (nf_Key n) = Some rec \<and> out' (nf_Key n') = Some rec'
    \<and> (nr_ID rec = nr_ID rec' \<longleftrightarrow> identity_text (IdentityOf env n) = identity_text (IdentityOf env n'))"
proof -
  define P where "P = snapshot_parts env (xs @ RegResolve c nodes now # ys @ [RegResolve c nodes' now'])"
  note inj = assms(1)[folded P_def]
  let ?w1 = "foldl (reg_step env) reg_start xs" and ?w2 = "foldl (reg_step env) reg_start (xs @ RegResolve c nodes now # ys)"
  have sub: "snapshot_parts env xs \<subseteq> P" "snapshot_parts env ys \<subseteq> P" "\<And>m. m \<in> set nodes \<Longrightarrow> node_parts env c m \<subseteq> P"
    "\<And>m. m \<in> set nodes' \<Longrightarrow> node_parts env c m \<subseteq> P" by (auto simp: P_def snapshot_parts_def)
  have kd: "keys_distinct xs" "keys_distinct ys" "distinct (map nf_Key nodes)" "distinct (map nf_Key nodes')"
    using assms(2) by (auto simp: keys_distinct_def)
  have 1: "run_inv env P ?w1" using reg_steps_inv[OF inj reg_start_inv sub(1) kd(1)] by simp
  then have "reg_inv env P (rr_reg ?w1)" by (simp add: run_inv_def)
  from Resolve_records[OF this inj sub(3) kd(3) assms(3)] assms(5,6) obtain rec e where
    r: "out (nf_Key n) = Some rec" "rg_entries r c (identity_text (IdentityOf env n)) = Some e" "id_RecordID e = nr_ID rec"
    unfolding trusted_sorted record_of_def by (metis trusted_reported)
  have s1: "reg_step env ?w1 (RegResolve c nodes now) = ?w1\<lparr>rr_reg := r\<rparr>" by (simp add: reg_step_def assms(3))
  have "run_inv env P (?w1\<lparr>rr_reg := r\<rparr>)"
    using reg_step_inv[OF inj 1, of "RegResolve c nodes now"] kd sub(3) by (simp add: s1 snapshot_parts_def keys_distinct_def UN_subset_iff)
  from reg_steps_inv[OF inj this sub(2) kd(2)] have 2: "run_inv env P ?w2" "reg_keeps r (rr_reg ?w2)" by (simp_all add: s1)
  then have "reg_inv env P (rr_reg ?w2)" by (simp add: run_inv_def)
  note R2 = Resolve_records[OF this inj sub(4) kd(4) assms(4)]
  with assms(7,8) obtain rec' e' where
    r': "out' (nf_Key n') = Some rec'" "rg_entries r' c (identity_text (IdentityOf env n')) = Some e'" "id_RecordID e' = nr_ID rec'"
    unfolding trusted_sorted record_of_def by (metis trusted_reported)
  have wf: "reg_wf r'" using R2 by (simp add: reg_inv_def)
  have "reg_keeps r r'" using 2(2) R2 reg_keeps_trans by blast
  from this[unfolded reg_keeps_def, rule_format, OF r(2)] r(3)
  obtain e2 where e2: "rg_entries r' c (identity_text (IdentityOf env n)) = Some e2" "id_RecordID e2 = nr_ID rec" by auto
  have "rg_owner r' c (nr_ID rec) = Some (identity_text (IdentityOf env n))" using reg_wf_entry[OF wf e2(1)] e2(2) by simp
  moreover have "rg_owner r' c (nr_ID rec') = Some (identity_text (IdentityOf env n'))" using reg_wf_entry[OF wf r'(2)] r'(3) by simp
  ultimately have "nr_ID rec = nr_ID rec' \<longleftrightarrow> identity_text (IdentityOf env n) = identity_text (IdentityOf env n')"
    using e2 r'(2,3) by auto
  then show ?thesis using r(1) r'(1) by blast
qed

text \<open>A node that is known by its name only is given the id of that name, even when the machine that was first seen under it is in the same snapshot under another name.\<close>

lemma named_node_shares_id:
  assumes "reg_inv env P r" "inj_on (interpret_hash env) P" "\<And>n. n \<in> set nodes \<Longrightarrow> node_parts env c n \<subseteq> P"
    "distinct (map nf_Key nodes)" "Resolve env c nodes now r = (out, r')" "n \<in> set nodes" "ni_Basis (trusted env nodes n) = BasisName"
    "m \<in> set nodes" "ni_Basis (trusted env nodes m) \<noteq> BasisName" "rg_entries r c (identity_text (trusted env nodes m)) = Some e"
    "id_RecordID e = LegacyNodeID env c (nf_Name n)"
  shows "map_option nr_ID (out (nf_Key n)) = map_option nr_ID (out (nf_Key m))"
proof -
  note R = Resolve_records[OF assms(1-5), unfolded trusted_sorted]
  then obtain rn where "out (nf_Key n) = Some rn" "nr_ID rn = LegacyNodeID env c (nf_Name n)" using assms(6,7) by (auto simp: record_of_def)
  moreover obtain rm where "out (nf_Key m) = Some rm" "nr_ID rm = id_RecordID e" using R assms(8-10) unfolding record_of_def by blast
  ultimately show ?thesis using assms(11) by simp
qed


subsection \<open>The registry as a write-behind cache\<close>

text \<open>
  What the store is to have of an entry: all but the times. \<open>Resolve\<close> moves \<open>LastSeen\<close> of a known machine without marking it, so that alone is never a reason to write.
\<close>

definition identity_core :: "identity \<Rightarrow> string \<times> string \<times> string" where
  "identity_core e = (id_RecordID e, id_Name e, joinAliases (id_Aliases e))"

definition reg_view :: "registry \<Rightarrow> string \<times> string \<rightharpoonup> string \<times> string \<times> string" where
  "reg_view r = (\<lambda>(c, i). map_option identity_core (rg_entries r c i))"

definition reg_marks :: "registry \<Rightarrow> (string \<times> string) set" where
  "reg_marks r = {k \<in> set (rg_dirty r). reg_view r k \<noteq> None}"

definition id_key :: "identity \<Rightarrow> string \<times> string" where
  "id_key e = (id_ClusterID e, id_Ident e)"

definition reg_pend :: "identity list \<Rightarrow> string \<times> string \<rightharpoonup> (string \<times> string \<times> string) option" where
  "reg_pend es k = map_option Some (map_of (map (\<lambda>e. (id_key e, identity_core e)) es) k)"

definition store_view :: "identity_store \<Rightarrow> string \<times> string \<rightharpoonup> string \<times> string \<times> string" where
  "store_view st k = map_option (\<lambda>r. (ir_RecordID r, ir_Name r, ir_Aliases r)) (st k)"

lemma map_of_unique:
  "(\<And>e. e \<in> set es \<Longrightarrow> id_key e = k \<Longrightarrow> e = x) \<Longrightarrow> x \<in> set es \<Longrightarrow> id_key x = k \<Longrightarrow>
    map_of (map (\<lambda>e. (id_key e, identity_core e)) es) k = Some (identity_core x)"
proof (induction es)
  case (Cons e es)
  show ?case
  proof (cases "id_key e = k")
    case True
    then have "e = x" using Cons.prems(1)[of e] by simp
    then show ?thesis using True by simp
  next
    case False
    then have "x \<in> set es" using Cons.prems(2,3) by auto
    then show ?thesis using False Cons.IH[OF Cons.prems(1) _ Cons.prems(3)] by simp
  qed
qed simp

interpretation ids: write_behind reg_wf reg_view reg_marks reg_pend DirtyIdentities RequeueIdentities
proof
  fix r k b
  assume wf: "reg_wf r"
  have entry: "id_key e = k" "e \<in> set (fst (DirtyIdentities r)) \<longleftrightarrow> k \<in> set (rg_dirty r)" if "rg_entries r (fst k) (snd k) = Some e" for e
    using reg_wf_entry[OF wf that] Dirty_entries[OF wf, of e] that by (auto simp: id_key_def prod_eq_iff)
  have view: "reg_view r k = map_option identity_core (rg_entries r (fst k) (snd k))" by (simp add: reg_view_def split_def)
  show "reg_pend (fst (DirtyIdentities r)) k = (if k \<in> reg_marks r then Some (reg_view r k) else None)"
  proof (cases "k \<in> reg_marks r")
    case True
    then obtain e where e: "rg_entries r (fst k) (snd k) = Some e" and d: "k \<in> set (rg_dirty r)" by (auto simp: reg_marks_def view)
    have u: "x = e" if "x \<in> set (fst (DirtyIdentities r))" "id_key x = k" for x
    proof -
      have "rg_entries r (id_ClusterID x) (id_Ident x) = Some x" using that(1) by (simp only: Dirty_entries[OF wf])
      moreover have "fst k = id_ClusterID x" "snd k = id_Ident x" using that(2) by (simp_all add: id_key_def prod_eq_iff)
      ultimately show ?thesis using e by simp
    qed
    have m: "e \<in> set (fst (DirtyIdentities r))" using entry(2)[OF e] d by simp
    have "map_of (map (\<lambda>e. (id_key e, identity_core e)) (fst (DirtyIdentities r))) k = Some (identity_core e)"
      by (rule map_of_unique[OF u m entry(1)[OF e]])
    then show ?thesis using True e by (simp add: reg_pend_def view)
  next
    case False
    have "k \<notin> id_key ` set (fst (DirtyIdentities r))"
    proof
      assume "k \<in> id_key ` set (fst (DirtyIdentities r))"
      then obtain e where "k = id_key e" "k \<in> set (rg_dirty r)" "rg_entries r (fst k) (snd k) = Some e"
        using Dirty_entries[OF wf] by (auto simp: id_key_def)
      moreover from this(3) have "reg_view r k \<noteq> None" by (simp add: view)
      ultimately show False using False by (simp add: reg_marks_def)
    qed
    then have "map_of (map (\<lambda>e. (id_key e, identity_core e)) (fst (DirtyIdentities r))) k = None" by (simp add: map_of_eq_None_iff image_image)
    then show ?thesis using False by (simp add: reg_pend_def)
  qed
  show "reg_wf (snd (DirtyIdentities r)) \<and> reg_view (snd (DirtyIdentities r)) = reg_view r \<and> reg_marks (snd (DirtyIdentities r)) = {}"
    using wf by (simp add: DirtyIdentities_def reg_wf_dirty reg_view_def reg_marks_def)
  have v: "reg_view (RequeueIdentities b r) = reg_view r" by (simp add: reg_view_def RequeueIdentities_sel)
  show "k \<in> reg_marks (RequeueIdentities b r)" if p: "reg_pend b k = Some (reg_view r k)"
  proof -
    obtain z where z: "map_of (map (\<lambda>e. (id_key e, identity_core e)) b) k = Some z" "Some z = reg_view r k"
      using p[unfolded reg_pend_def map_option_eq_Some] by blast
    have "(k, z) \<in> set (map (\<lambda>e. (id_key e, identity_core e)) b)" using z(1) by (rule map_of_SomeD)
    then have "k \<in> (\<lambda>e. (id_ClusterID e, id_Ident e)) ` set b" unfolding set_map by (auto simp only: id_key_def prod.inject)
    moreover have "reg_view r k \<noteq> None" unfolding z(2)[symmetric] by (rule option.distinct)
    ultimately show ?thesis unfolding reg_marks_def v RequeueIdentities_sel(3) by simp
  qed
  show "reg_wf (RequeueIdentities b r) \<and> reg_view (RequeueIdentities b r) = reg_view r \<and> reg_marks r \<subseteq> reg_marks (RequeueIdentities b r)"
    using wf by (auto simp: v reg_marks_def RequeueIdentities_wf RequeueIdentities_sel)
qed


lemma resolve_node_marks:
  "k \<notin> reg_marks (rs_reg (resolve_node env c now n i s)) \<Longrightarrow>
    k \<notin> reg_marks (rs_reg s) \<and> reg_view (rs_reg (resolve_node env c now n i s)) k = reg_view (rs_reg s) k"
  by (cases k) (auto simp: resolve_node_def Let_def reg_marks_def reg_view_def identity_core_def put_identity_def split: option.splits if_splits)

lemma resolve_nodes_marks:
  "k \<notin> reg_marks (rs_reg (fold (\<lambda>n. resolve_node env c now n (f n)) ns s)) \<Longrightarrow>
    k \<notin> reg_marks (rs_reg s) \<and> reg_view (rs_reg (fold (\<lambda>n. resolve_node env c now n (f n)) ns s)) k = reg_view (rs_reg s) k"
proof (induction ns arbitrary: s)
  case (Cons n ns)
  then show ?case using resolve_node_marks[of k env c now n "f n" s] by simp
qed simp

lemma Resolve_marked:
  assumes "reg_wf (snd (Resolve env c nodes now r))"
  shows "ids.marked r (snd (Resolve env c nodes now r))"
  using assms resolve_nodes_marks[where s = "\<lparr>rs_reg = r, rs_out = Map.empty, rs_taken = []\<rparr>"]
  unfolding ids.marked_def Resolve_def Let_def snd_conv by simp

text \<open>What the store still lacks at each point of a flush.\<close>

fun id_pend :: "id_pc \<Rightarrow> string \<times> string \<rightharpoonup> (string \<times> string \<times> string) option" where
  "id_pend IdIdle = Map.empty"
| "id_pend (IdTook es) = reg_pend es"
| "id_pend (IdPut es) = reg_pend es"

fun id_batch_ok :: "id_pc \<Rightarrow> bool" where
  "id_batch_ok (IdTook es) = distinct (map id_key es)"
| "id_batch_ok _ = True"

definition saved_inv :: "reg_run \<Rightarrow> bool" where
  "saved_inv w \<longleftrightarrow> ids.insync (rr_reg w) (store_view (rr_store w)) (id_pend (rr_pc w)) \<and> id_batch_ok (rr_pc w)"

lemma fold_PutIdentity:
  "distinct (map id_key es) \<Longrightarrow> store_view (fold PutIdentity es st) k =
    (case map_of (map (\<lambda>e. (id_key e, identity_core e)) es) k of Some v \<Rightarrow> Some v | None \<Rightarrow> store_view st k)"
proof (induction es arbitrary: st)
  case (Cons e es)
  have "store_view (PutIdentity e st) k = (if k = id_key e then Some (identity_core e) else store_view st k)"
    by (auto simp: store_view_def PutIdentity_def Let_def id_key_def identity_core_def split: option.splits)
  moreover have "map_of (map (\<lambda>e. (id_key e, identity_core e)) es) (id_key e) = None"
    using Cons.prems by (auto simp: map_of_eq_None_iff image_iff)
  ultimately show ?case using Cons by (auto split: option.splits)
qed simp

lemma Dirty_distinct:
  assumes "reg_wf r"
  shows "distinct (map id_key (fst (DirtyIdentities r)))"
proof -
  let ?f = "\<lambda>(c, i). rg_entries r c i"
  have key: "id_key e = k" if "?f k = Some e" for k e
    using that reg_wf_entry[OF assms] by (cases k) (auto simp: id_key_def)
  have "distinct ks \<Longrightarrow> distinct (map id_key (List.map_filter ?f ks))" for ks
  proof (induction ks)
    case (Cons k ks)
    have "id_key e \<notin> id_key ` set (List.map_filter ?f ks)" if "?f k = Some e" for e
      using key[OF that] key Cons.prems by (auto simp: set_map_filter)
    then show ?case using Cons by (auto simp: map_filter_simps split: option.split)
  qed (simp add: map_filter_simps)
  then have "distinct (map id_key (List.map_filter ?f (rg_dirty r)))" using assms by (simp add: reg_wf_def)
  moreover have "mset (map id_key (fst (DirtyIdentities r))) = mset (map id_key (List.map_filter ?f (rg_dirty r)))"
    by (simp only: DirtyIdentities_def fst_conv mset_map mset_sort)
  ultimately show ?thesis by (metis mset_eq_imp_distinct_iff)
qed

lemma saved_step:
  assumes "saved_inv w" "reg_wf (rr_reg (reg_step env w x))"
  shows "saved_inv (reg_step env w x)"
proof (cases x)
  case (RegResolve c nodes now)
  then show ?thesis using assms ids.insync_marked[OF _ Resolve_marked]
    by (simp add: saved_inv_def reg_step_def)
next
  case RegDirty
  have wf: "reg_wf (rr_reg w)" using assms(1) by (simp add: saved_inv_def ids.insync_def)
  show ?thesis
  proof (cases "rr_pc w")
    case IdIdle
    obtain es r where d: "DirtyIdentities (rr_reg w) = (es, r)" by fastforce
    have "ids.insync (rr_reg w) (store_view (rr_store w)) Map.empty" using assms(1) IdIdle by (simp add: saved_inv_def)
    from ids.insync_take[OF this] have "ids.insync r (store_view (rr_store w)) (reg_pend es)" by (simp add: d)
    moreover have "reg_pend [] = Map.empty" by (simp add: reg_pend_def fun_eq_iff)
    ultimately show ?thesis using IdIdle d RegDirty Dirty_distinct[OF wf] by (auto simp: reg_step_def saved_inv_def)
  qed (use assms RegDirty in \<open>auto simp: reg_step_def\<close>)
next
  case (RegPut fails)
  show ?thesis
  proof (cases "rr_pc w")
    case (IdTook es)
    show ?thesis
    proof (cases "PutIdentities fails es (rr_store w)")
      case None
      then show ?thesis using assms(1) IdTook RegPut by (simp add: reg_step_def saved_inv_def)
    next
      case (Some st)
      then have st: "st = fold PutIdentity es (rr_store w)" by (auto simp: PutIdentities_def split: if_splits)
      have "ids.insync (rr_reg w) (store_view st) (reg_pend [])"
      proof (rule ids.insync_write)
        show "ids.insync (rr_reg w) (store_view (rr_store w)) (reg_pend es)" using assms(1) IdTook by (simp add: saved_inv_def)
        show "reg_pend [] k = reg_pend es k \<and> store_view st k = store_view (rr_store w) k \<or> reg_pend [] k = None \<and> reg_pend es k = Some (store_view st k)" for k
          using assms(1) IdTook fold_PutIdentity[of es "rr_store w" k] by (auto simp: saved_inv_def reg_pend_def st split: option.splits)
      qed
      then show ?thesis using IdTook RegPut Some by (simp add: reg_step_def saved_inv_def)
    qed
  qed (use assms RegPut in \<open>auto simp: reg_step_def\<close>)
next
  case RegRequeue
  then show ?thesis using assms(1) ids.insync_again by (cases "rr_pc w") (auto simp: reg_step_def saved_inv_def)
qed


lemma saved_steps:
  assumes "inj_on (interpret_hash env) P"
  shows "run_inv env P w \<Longrightarrow> saved_inv w \<Longrightarrow> snapshot_parts env xs \<subseteq> P \<Longrightarrow> keys_distinct xs \<Longrightarrow>
    saved_inv (foldl (reg_step env) w xs)"
proof (induction xs arbitrary: w)
  case (Cons x xs)
  have "run_inv env P (reg_step env w x)"
    using Cons.prems by (intro reg_step_inv[OF assms, THEN conjunct1]) (auto simp: snapshot_parts_def keys_distinct_def)
  moreover from this have "saved_inv (reg_step env w x)" using Cons.prems(2) by (intro saved_step) (auto simp: run_inv_def reg_inv_def)
  ultimately show ?case using Cons by (auto simp: snapshot_parts_def keys_distinct_def)
qed simp

lemma saved_start: "saved_inv reg_start"
  by (simp add: saved_inv_def ids.insync_def reg_start_def reg_wf_def NewRegistry_def store_view_def reg_view_def fun_eq_iff)

definition FlushIds :: "id_env \<Rightarrow> reg_run \<Rightarrow> reg_run" where
  "FlushIds env w = foldl (reg_step env) w [RegDirty, RegPut False, RegRequeue]"

lemma FlushIds_clean: "rr_pc w = IdIdle \<Longrightarrow> rr_pc (FlushIds env w) = IdIdle \<and> reg_marks (rr_reg (FlushIds env w)) = {}"
  by (auto simp: FlushIds_def reg_step_def DirtyIdentities_def PutIdentities_def RequeueIdentities_def reg_marks_def split: prod.splits option.splits)

lemma fold_put_entries:
  "distinct (map id_key es) \<Longrightarrow> rg_entries (fold put_identity es r) c i = (case map_of (map (\<lambda>e. (id_key e, e)) es) (c, i) of Some e \<Rightarrow> Some e | None \<Rightarrow> rg_entries r c i)"
proof (induction es arbitrary: r)
  case (Cons e es)
  have "map_of (map (\<lambda>e. (id_key e, e)) es) (id_key e) = None" using Cons.prems by (auto simp: map_of_eq_None_iff image_iff)
  then show ?case using Cons by (auto simp: put_identity_def Let_def id_key_def split: option.splits)
qed simp

text \<open>
  The store catches up with the registry, and a restart keeps the ids. After any history of snapshots mixed with the steps of flushes whose write may fail, every entry that is not marked and not in a
  running flush is stored with its record id, name and aliases; after a flush that nothing interrupts and whose write is accepted every entry is; and a registry loaded from the rows of that store gives
  every identity the record id it had.
\<close>
theorem identities_saved:
  assumes "inj_on (interpret_hash env) (snapshot_parts env xs)" "keys_distinct xs" "w = foldl (reg_step env) reg_start xs"
    "w' = FlushIds env w" "rr_store w' = map_of rows" "distinct (map fst rows)"
  shows "(\<forall>k. k \<notin> reg_marks (rr_reg w) \<longrightarrow> id_pend (rr_pc w) k = None \<longrightarrow> store_view (rr_store w) k = reg_view (rr_reg w) k)
    \<and> (rr_pc w = IdIdle \<longrightarrow> store_view (rr_store w') = reg_view (rr_reg w')
       \<and> (\<forall>c i. map_option id_RecordID (rg_entries (LoadRegistry (map (\<lambda>(k, r). ReadIdentity k r) rows) NewRegistry) c i)
            = map_option id_RecordID (rg_entries (rr_reg w') c i)))"
proof -
  let ?P = "snapshot_parts env xs"
  have inv: "run_inv env ?P w" "saved_inv w"
    using reg_steps_inv[OF assms(1) reg_start_inv] saved_steps[OF assms(1) reg_start_inv saved_start] assms(2,3) by auto
  have "saved_inv w'" unfolding assms(4) FlushIds_def
    by (rule saved_steps[OF assms(1) inv]) (auto simp: snapshot_parts_def keys_distinct_def)
  have saved: "store_view (rr_store w') = reg_view (rr_reg w')" if "rr_pc w = IdIdle"
    using \<open>saved_inv w'\<close> FlushIds_clean[OF that, of env] assms(4) by (auto simp: saved_inv_def intro: ids.insync_clean)
  have key: "id_key (ReadIdentity k r) = k" for k r by (simp add: id_key_def ReadIdentity_def)
  then have "map id_key (map (\<lambda>(k, r). ReadIdentity k r) rows) = map fst rows" by (simp add: split_def)
  then have d: "distinct (map id_key (map (\<lambda>(k, r). ReadIdentity k r) rows))" using assms(6) by (simp only:)
  have "map_of (map (\<lambda>e. (id_key e, e)) (map (\<lambda>(k, r). ReadIdentity k r) rows)) k = map_option (ReadIdentity k) (map_of rows k)" for k
    by (induction rows) (auto simp: key)
  then have "rg_entries (LoadRegistry (map (\<lambda>(k, r). ReadIdentity k r) rows) NewRegistry) c i = map_option (ReadIdentity (c, i)) (rr_store w' (c, i))" for c i
    unfolding LoadRegistry_def fold_put_entries[OF d] assms(5) by (simp add: NewRegistry_def split: option.split)
  moreover have "map_option ir_RecordID (rr_store w' (c, i)) = map_option id_RecordID (rg_entries (rr_reg w') c i)" if "rr_pc w = IdIdle" for c i
    using fun_cong[OF saved[OF that], of "(c, i)"] by (auto simp: store_view_def reg_view_def identity_core_def map_option_case split: option.splits)
  moreover have "id_RecordID (ReadIdentity k r) = ir_RecordID r" for k r by (simp add: ReadIdentity_def)
  ultimately have "map_option id_RecordID (rg_entries (LoadRegistry (map (\<lambda>(k, r). ReadIdentity k r) rows) NewRegistry) c i)
      = map_option id_RecordID (rg_entries (rr_reg w') c i)" if "rr_pc w = IdIdle" for c i
    using that by (simp add: option.map_comp comp_def)
  moreover have "store_view (rr_store w) k = reg_view (rr_reg w) k" if "k \<notin> reg_marks (rr_reg w)" "id_pend (rr_pc w) k = None" for k
    using inv(2) that ids.insync_stored unfolding saved_inv_def by blast
  ultimately show ?thesis using saved by blast
qed

subsection \<open>Witnesses\<close>

definition parts_list :: "id_env \<Rightarrow> reg_event list \<Rightarrow> string list list" where
  "parts_list env xs = concat (map (\<lambda>x. case x of
     RegResolve c nodes now \<Rightarrow> concat (map (\<lambda>n. [[c, nf_Name n], [c, nf_Name n, identity_text (IdentityOf env n)]]) nodes) | _ \<Rightarrow> []) xs)"

lemma parts_list: "snapshot_parts env xs = set (parts_list env xs)"
proof (induction xs)
  case (Cons x xs)
  then show ?case by (cases x) (auto simp: snapshot_parts_def parts_list_def node_parts_def)
qed (simp add: snapshot_parts_def parts_list_def)

text \<open>A hash that is the length of its input.\<close>

definition toy_env :: id_env where "toy_env = \<lparr>ie_sha = (\<lambda>s. [char_of (length s)]), ie_lower = (\<lambda>s. s)\<rparr>"

lemma toy_env_inj:
  assumes "distinct (map (\<lambda>p. length (join_nul p)) (remdups (parts_list toy_env xs)))"
    "list_all (\<lambda>p. length (join_nul p) < 256) (remdups (parts_list toy_env xs))"
  shows "inj_on (interpret_hash toy_env) (snapshot_parts toy_env xs)"
proof (rule inj_onI)
  fix p q
  assume m: "p \<in> snapshot_parts toy_env xs" "q \<in> snapshot_parts toy_env xs" and "interpret_hash toy_env p = interpret_hash toy_env q"
  then have "(char_of (length (join_nul p)) :: char) = char_of (length (join_nul q))"
    by (auto simp: interpret_hash_def toy_env_def dest: hex_inj)
  then have "length (join_nul p) mod 256 = length (join_nul q) mod 256" by (metis of_char_of)
  moreover have "length (join_nul p) < 256" "length (join_nul q) < 256" using m assms(2) by (auto simp: parts_list list_all_iff)
  ultimately have "length (join_nul p) = length (join_nul q)" by simp
  then show "p = q" using m assms(1) by (auto simp: parts_list distinct_map inj_on_def)
qed

definition toy_node :: "string \<Rightarrow> string \<Rightarrow> string \<Rightarrow> node_facts" where
  "toy_node name provider machine = \<lparr>nf_Key = name, nf_Name = name, nf_MachineId = machine, nf_SystemUuid = [], nf_ProviderId = provider, nf_OsImage = [],
     nf_KernelVersion = [], nf_ContainerRuntime = [], nf_KubeletVersion = [], nf_Architecture = [], nf_CpuRequestedMillis = 0,
     nf_MemoryRequestedBytes = 0, nf_PodCount = None, nf_Rest = []\<rparr>"

definition toy_before :: "node_facts list" where "toy_before = [toy_node ''a'' ''aws:///x/i-1'' []]"

text \<open>The machine that was \<open>a\<close> is now \<open>bb\<close>, and another one has its old name.\<close>

definition toy_after :: "node_facts list" where "toy_after = [toy_node ''bb'' ''aws:///x/i-1'' [], toy_node ''a'' [] ''0123456789'']"


lemma toy_trim: "trim_space ''aws:///x/i-1'' = ''aws:///x/i-1''" "trim_space ''0123456789'' = ''0123456789''" "trim_space [] = []"
  by code_simp+

lemma toy_sha: "hex (take 8 (ie_sha toy_env ''aws:///x/i-1'')) = ''0c''" "hex (take 8 (ie_sha toy_env ''0123456789'')) = ''0a''"
  by code_simp+

lemma toy_lower: "ie_lower toy_env s = s" by (simp add: toy_env_def)

lemma toy_IdentityOf:
  "IdentityOf toy_env (toy_node ''a'' ''aws:///x/i-1'' []) = \<lparr>ni_Basis = BasisProviderID, ni_Digest = ''0c''\<rparr>"
  "IdentityOf toy_env (toy_node ''bb'' ''aws:///x/i-1'' []) = \<lparr>ni_Basis = BasisProviderID, ni_Digest = ''0c''\<rparr>"
  "IdentityOf toy_env (toy_node ''a'' [] ''0123456789'') = \<lparr>ni_Basis = BasisMachineID, ni_Digest = ''0a''\<rparr>"
  by (simp_all add: IdentityOf_def usable_def Let_def toy_node_def toy_lower toy_trim junkIDs_def nameDerived_def id_digest_def suffix_def toy_sha)

lemma toy_text:
  "identity_text \<lparr>ni_Basis = BasisProviderID, ni_Digest = ''0c''\<rparr> = ''provider-id:0c''"
  "identity_text \<lparr>ni_Basis = BasisMachineID, ni_Digest = ''0a''\<rparr> = ''machine-id:0a''"
  by (simp_all add: identity_text_def basis_text_def)

lemma toy_name: "nf_Name (toy_node n p m) = n" "nf_Key (toy_node n p m) = n" by (simp_all add: toy_node_def)

lemma toy_inj: "inj_on (interpret_hash toy_env) (snapshot_parts toy_env [RegResolve ''c'' toy_before 1, RegResolve ''c'' toy_after 2])"
  by (rule toy_env_inj) (simp_all add: parts_list_def toy_before_def toy_after_def toy_IdentityOf toy_text toy_name)

lemma toy_trusted:
  "ni_Basis (trusted toy_env toy_before (toy_node ''a'' ''aws:///x/i-1'' [])) \<noteq> BasisName"
  "ni_Basis (trusted toy_env toy_after (toy_node ''bb'' ''aws:///x/i-1'' [])) \<noteq> BasisName"
  "ni_Basis (trusted toy_env toy_after (toy_node ''a'' [] ''0123456789'')) \<noteq> BasisName"
  by (simp_all add: trusted_def toy_before_def toy_after_def toy_IdentityOf toy_text count_identities_length Let_def)

definition toy_first :: "(string \<rightharpoonup> node_record) \<times> registry" where
  "toy_first = Resolve toy_env ''c'' toy_before 1 NewRegistry"

definition toy_second :: "(string \<rightharpoonup> node_record) \<times> registry" where
  "toy_second = Resolve toy_env ''c'' toy_after 2 (snd toy_first)"

theorem same_id_iff_same_machine_witness:
  "(\<exists>rec rec'. fst toy_first ''a'' = Some rec \<and> fst toy_second ''bb'' = Some rec' \<and> nr_ID rec = nr_ID rec')
    \<and> (\<exists>rec rec'. fst toy_first ''a'' = Some rec \<and> fst toy_second ''a'' = Some rec' \<and> nr_ID rec \<noteq> nr_ID rec')"
proof -
  have 1: "inj_on (interpret_hash toy_env) (snapshot_parts toy_env ([] @ RegResolve ''c'' toy_before 1 # [] @ [RegResolve ''c'' toy_after 2]))"
    using toy_inj by simp
  have 2: "keys_distinct ([] @ RegResolve ''c'' toy_before 1 # [] @ [RegResolve ''c'' toy_after 2])"
    by (simp add: keys_distinct_def toy_before_def toy_after_def toy_name)
  have 3: "Resolve toy_env ''c'' toy_before 1 (rr_reg (foldl (reg_step toy_env) reg_start [])) = (fst toy_first, snd toy_first)"
    by (simp add: toy_first_def reg_start_def)
  have 4: "Resolve toy_env ''c'' toy_after 2 (rr_reg (foldl (reg_step toy_env) reg_start ([] @ RegResolve ''c'' toy_before 1 # [])))
      = (fst toy_second, snd toy_second)"
    by (simp add: toy_first_def toy_second_def reg_start_def reg_step_def split: prod.splits)
  have a: "toy_node ''a'' ''aws:///x/i-1'' [] \<in> set toy_before" "toy_node ''bb'' ''aws:///x/i-1'' [] \<in> set toy_after"
    "toy_node ''a'' [] ''0123456789'' \<in> set toy_after" by (simp_all add: toy_before_def toy_after_def)
  note same = same_id_iff_same_machine[OF 1 2 3 4 a(1) toy_trusted(1) a(2) toy_trusted(2)]
  note other = same_id_iff_same_machine[OF 1 2 3 4 a(1) toy_trusted(1) a(3) toy_trusted(3)]
  show ?thesis using same other by (simp add: toy_name toy_IdentityOf toy_text)
qed

text \<open>A snapshot, a flush whose write fails, and one whose write is accepted.\<close>

definition toy_history :: "reg_event list" where
  "toy_history = [RegResolve ''c'' toy_before 1, RegDirty, RegPut True, RegRequeue]"

definition toy_ids :: "((string \<times> string) \<times> identity_row) list" where
  "toy_ids = [((''c'', ''provider-id:0c''), \<lparr>ir_RecordID = LegacyNodeID toy_env ''c'' ''a'', ir_Name = ''a'', ir_Aliases = [], ir_FirstSeen = 0, ir_LastSeen = 0\<rparr>)]"

lemma toy_Resolve: "Resolve toy_env ''c'' toy_before 1 NewRegistry = (let e = \<lparr>id_ClusterID = ''c'', id_Ident = ''provider-id:0c'',
    id_RecordID = LegacyNodeID toy_env ''c'' ''a'', id_Name = ''a'', id_Aliases = [], id_FirstSeen = 1, id_LastSeen = 1\<rparr> in
   ([''a'' \<mapsto> \<lparr>nr_ID = LegacyNodeID toy_env ''c'' ''a'', nr_Identity = \<lparr>ni_Basis = BasisProviderID, ni_Digest = ''0c''\<rparr>,
       nr_Aliases = [], nr_Renamed = False, nr_Replaced = False\<rparr>],
    mark_dirty ''c'' ''provider-id:0c'' (put_identity e NewRegistry)))"
proof -
  have t: "trusted_identities toy_env toy_before ''a'' = Some \<lparr>ni_Basis = BasisProviderID, ni_Digest = ''0c''\<rparr>"
    using trusted_identities_trusted[of toy_before "toy_node ''a'' ''aws:///x/i-1'' []" toy_env]
    by (simp add: toy_before_def toy_name trusted_def toy_IdentityOf toy_text count_identities_length Let_def)
  have s: "sort_key nf_Name toy_before = toy_before" by (simp add: toy_before_def)
  show ?thesis
    unfolding Resolve_def s Let_def
    by (simp add: toy_before_def resolve_node_def Let_def toy_name t[unfolded toy_before_def] toy_text NewRegistry_def)
qed

definition toy_entry :: identity where
  "toy_entry = \<lparr>id_ClusterID = ''c'', id_Ident = ''provider-id:0c'', id_RecordID = LegacyNodeID toy_env ''c'' ''a'', id_Name = ''a'',
     id_Aliases = [], id_FirstSeen = 1, id_LastSeen = 1\<rparr>"

definition toy_reg :: registry where "toy_reg = put_identity toy_entry NewRegistry"

lemma toy_marked: "snd (Resolve toy_env ''c'' toy_before 1 NewRegistry) = mark_dirty ''c'' ''provider-id:0c'' toy_reg"
  unfolding toy_Resolve Let_def toy_reg_def toy_entry_def by simp

lemma toy_dirty: "DirtyIdentities (mark_dirty ''c'' ''provider-id:0c'' toy_reg) = ([toy_entry], toy_reg)"
  "RequeueIdentities [toy_entry] toy_reg = mark_dirty ''c'' ''provider-id:0c'' toy_reg"
  by (simp_all add: DirtyIdentities_def RequeueIdentities_def mark_dirty_def toy_reg_def put_identity_def NewRegistry_def map_filter_simps toy_entry_def Let_def)

lemma toy_put: "PutIdentity toy_entry Map.empty = map_of toy_ids"
  by (simp add: PutIdentity_def toy_entry_def toy_ids_def Let_def)

lemma toy_ran: "foldl (reg_step toy_env) reg_start toy_history
    = \<lparr>rr_reg = mark_dirty ''c'' ''provider-id:0c'' toy_reg, rr_store = Map.empty, rr_pc = IdIdle\<rparr>"
  unfolding toy_history_def foldl_Cons foldl_Nil
  by (simp only: reg_step_def reg_event.case reg_start_def reg_run.simps toy_marked id_pc.case toy_dirty prod.case PutIdentities_def list.distinct option.case if_True if_False)

lemma toy_flush: "rr_pc (foldl (reg_step toy_env) reg_start toy_history) = IdIdle"
  "rr_store (FlushIds toy_env (foldl (reg_step toy_env) reg_start toy_history)) = map_of toy_ids"
  unfolding toy_ran FlushIds_def foldl_Cons foldl_Nil
  by (simp_all add: reg_step_def toy_dirty PutIdentities_def toy_put)

theorem identities_saved_witness:
  "store_view (map_of toy_ids) = reg_view (rr_reg (FlushIds toy_env (foldl (reg_step toy_env) reg_start toy_history)))
    \<and> map_option id_RecordID (rg_entries (LoadRegistry (map (\<lambda>(k, r). ReadIdentity k r) toy_ids) NewRegistry) ''c'' ''provider-id:0c'')
      = map_option id_RecordID (rg_entries (rr_reg (FlushIds toy_env (foldl (reg_step toy_env) reg_start toy_history))) ''c'' ''provider-id:0c'')"
proof -
  have "snapshot_parts toy_env toy_history \<subseteq> snapshot_parts toy_env [RegResolve ''c'' toy_before 1, RegResolve ''c'' toy_after 2]"
    by (simp add: snapshot_parts_def toy_history_def)
  then have 1: "inj_on (interpret_hash toy_env) (snapshot_parts toy_env toy_history)" using toy_inj inj_on_subset by blast
  have 2: "keys_distinct toy_history" by (simp add: keys_distinct_def toy_history_def toy_before_def)
  have 3: "distinct (map fst toy_ids)" by (simp add: toy_ids_def)
  show ?thesis
    using identities_saved[OF 1 2 refl refl toy_flush(2) 3] toy_flush by simp
qed

end
