(* ===== verification/Codec.thy ===== *)
theory Codec
  imports Prelude
begin

text \<open>
  The text forms of bytes the code uses of Go's \<open>encoding/base32\<close> and \<open>encoding/base64\<close>: the standard base 32 alphabet, the standard and
  the URL base 64 alphabets, all without padding. All are instances of one pair of functions: a group of \<open>q\<close> bytes is a number, written with
  digits of \<open>p\<close> bits; a shorter last group is filled up with zeros and only as many digits are kept as are needed.
\<close>

subsection \<open>Numbers and digits\<close>

definition digits :: "nat \<Rightarrow> nat \<Rightarrow> nat \<Rightarrow> nat list" where
  "digits b k v = map (\<lambda>i. v div b ^ i mod b) (rev [0..<k])"

definition number :: "nat \<Rightarrow> nat list \<Rightarrow> nat" where
  "number b ds = foldl (\<lambda>v d. v * b + d) 0 ds"

lemma number_snoc [simp]: "number b (ds @ [d]) = number b ds * b + d" and number_Nil [simp]: "number b [] = 0"
  by (simp_all add: number_def)

lemma digits_0 [simp]: "digits b 0 v = []" and length_digits [simp]: "length (digits b k v) = k"
  by (simp_all add: digits_def)

lemma digits_Suc: "digits b (Suc k) v = digits b k (v div b) @ [v mod b]"
proof -
  have "rev [0..<Suc k] = map Suc (rev [0..<k]) @ [0]" by (simp add: upt_conv_Cons map_Suc_upt rev_map flip: map_Suc_upt del: upt_Suc)
  then show ?thesis by (simp add: digits_def div_mult2_eq mult.commute del: upt_Suc)
qed

lemma digits_less: "0 < b \<Longrightarrow> d \<in> set (digits b k v) \<Longrightarrow> d < b"
  by (auto simp: digits_def)

lemma digits_number: "\<forall>d \<in> set ds. d < b \<Longrightarrow> digits b (length ds) (number b ds) = ds"
  by (induction ds rule: rev_induct) (auto simp: digits_Suc)

lemma number_less: "\<forall>d \<in> set ds. d < b \<Longrightarrow> number b ds < b ^ length ds"
proof (induction ds rule: rev_induct)
  case (snoc d ds)
  then have "number b ds + 1 \<le> b ^ length ds" "d < b" by auto
  then have "(number b ds + 1) * b \<le> b ^ length ds * b" by (intro mult_le_mono1) simp
  then show ?case using \<open>d < b\<close> by (simp add: algebra_simps)
qed simp

lemma number_digits: "0 < b \<Longrightarrow> number b (digits b k v) = v mod b ^ k"
proof (induction k arbitrary: v)
  case (Suc k)
  then show ?case by (simp add: digits_Suc mod_mult2_eq mult.commute)
qed simp

lemma number_app: "number b (xs @ ys) = number b xs * b ^ length ys + number b ys"
  by (induction ys rule: rev_induct) (simp_all add: algebra_simps flip: append_assoc)

lemma number_zeros [simp]: "number b (replicate n 0) = 0"
  by (induction n) (simp_all flip: replicate_append_same)

lemma take_digits: "c \<le> k \<Longrightarrow> take c (digits b k v) = digits b c (v div b ^ (k - c))"
proof (induction k arbitrary: v)
  case (Suc k)
  show ?case
  proof (cases "c = Suc k")
    case False
    then have "take c (digits b (Suc k) v) = digits b c (v div b div b ^ (k - c))" using Suc by (simp add: digits_Suc)
    then show ?thesis using False Suc.prems by (simp add: div_mult2_eq Suc_diff_le)
  qed simp
qed simp

subsection \<open>Groups\<close>

function enc_groups :: "nat \<Rightarrow> nat \<Rightarrow> nat list \<Rightarrow> nat list" where
  "enc_groups p q bs =
     (if bs = [] \<or> q = 0 then []
      else (let g = take q bs in
        take ((8 * length g + p - 1) div p) (digits (2 ^ p) (8 * q div p) (number 256 (g @ replicate (q - length g) 0)))
        @ enc_groups p q (drop q bs)))"
  by pat_completeness auto
termination by (relation "measure (\<lambda>(p, q, bs). length bs)") auto

function dec_groups :: "nat \<Rightarrow> nat \<Rightarrow> (nat \<Rightarrow> nat) \<Rightarrow> nat list \<Rightarrow> nat list" where
  "dec_groups p n bytes ds =
     (if ds = [] \<or> n = 0 then []
      else (let g = take n ds in
        take (bytes (length g)) (digits 256 (n * p div 8) (number (2 ^ p) (g @ replicate (n - length g) 0)))
        @ dec_groups p n bytes (drop n ds)))"
  by pat_completeness auto
termination by (relation "measure (\<lambda>(p, n, bytes, ds). length ds)") auto

declare enc_groups.simps [simp del] dec_groups.simps [simp del]

text \<open>
  One group of \<open>k\<close> bytes, \<open>0 < k \<le> q\<close>, comes back, when the \<open>c\<close> digits kept hold at least its \<open>8 k\<close> bits.
\<close>

lemma group_back:
  assumes "0 < p" "8 * q = p * n" "length g = k" "k \<le> q" "\<forall>b \<in> set g. b < 256" "c \<le> n" "8 * k \<le> p * c"
  shows "take k (digits 256 q (number (2 ^ p) (take c (digits (2 ^ p) n (number 256 (g @ replicate (q - k) 0))) @ replicate (n - c) 0))) = g"
proof -
  define v where "v = number 256 (g @ replicate (q - k) 0)"
  have v: "v = number 256 g * 256 ^ (q - k)" by (simp add: v_def number_app)
  have e: "(256::nat) ^ m = 2 ^ (8 * m)" for m by (simp add: power_mult)
  have pq: "(2 :: nat) ^ (8 * (q - k)) = 2 ^ (p * (n - c)) * 2 ^ (8 * (q - k) - p * (n - c))"
  proof -
    have "p * (n - c) \<le> 8 * (q - k)" using assms by (simp add: right_diff_distrib')
    then show ?thesis by (simp flip: power_add)
  qed
  then have dv: "(2 ^ p) ^ (n - c) dvd v" unfolding v e by (simp add: power_mult)
  have "number 256 g < 256 ^ k" using number_less assms(3,5) by blast
  then have "number 256 g * 256 ^ (q - k) < 256 ^ k * 256 ^ (q - k)" by simp
  moreover have "8 * k + 8 * (q - k) = p * n" using assms(2,4) by simp
  ultimately have "v < 2 ^ (p * n)" by (simp add: v e flip: power_add)
  then have lt: "v < (2 ^ p) ^ n" by (simp add: power_mult)
  have "v div (2 ^ p) ^ (n - c) < (2 ^ p) ^ c"
    using lt assms(6) by (simp add: less_mult_imp_div_less flip: power_add)
  then have "number (2 ^ p) (take c (digits (2 ^ p) n v) @ replicate (n - c) 0) = v div (2 ^ p) ^ (n - c) * (2 ^ p) ^ (n - c)"
    using assms(6) by (simp add: number_app take_digits number_digits)
  also have "\<dots> = v" using dv by simp
  finally have "number (2 ^ p) (take c (digits (2 ^ p) n v) @ replicate (n - c) 0) = v" .
  moreover have "take k (digits 256 q v) = digits 256 k (v div 256 ^ (q - k))" using assms(4) by (simp add: take_digits)
  moreover have "v div 256 ^ (q - k) = number 256 g" by (simp add: v)
  moreover have "digits 256 k (number 256 g) = g" using digits_number assms(3,5) by blast
  ultimately show ?thesis unfolding v_def by simp
qed

lemma dec_enc_groups:
  assumes "0 < p" "0 < q" "8 * q = p * n" "0 < n"
    and chars: "\<And>k. 0 < k \<Longrightarrow> k \<le> q \<Longrightarrow> (8 * k + p - 1) div p \<le> n \<and> bytes ((8 * k + p - 1) div p) = k"
    and full: "(8 * q + p - 1) div p = n"
  shows "\<forall>b \<in> set bs. b < 256 \<Longrightarrow> dec_groups p n bytes (enc_groups p q bs) = bs"
proof (induction bs rule: length_induct)
  case (1 bs)
  show ?case
  proof (cases "bs = []")
    case True
    then show ?thesis by (simp add: enc_groups.simps dec_groups.simps)
  next
    case False
    define g where "g = take q bs"
    define c where "c = (8 * length g + p - 1) div p"
    let ?d = "take c (digits (2 ^ p) n (number 256 (g @ replicate (q - length g) 0)))"
    have g: "0 < length g" "length g \<le> q" "\<forall>b \<in> set g. b < 256" using False assms(2) 1 by (auto simp: g_def dest: in_set_takeD)
    have c: "c \<le> n" "bytes c = length g" using chars[OF g(1,2)] by (simp_all add: c_def)
    have "8 * length g \<le> p * c"
    proof -
      have "8 * length g + p - 1 < p * c + p" using assms(1) unfolding c_def
        by (metis add.commute dividend_less_times_div mult.commute mult_Suc_right)
      then show ?thesis using assms(1) by linarith
    qed
    then have "c \<noteq> 0" using g(1) by (cases c) auto
    have n: "8 * q div p = n" "n * p div 8 = q" using assms(1,3) by (simp_all add: mult.commute)
    have e: "enc_groups p q bs = ?d @ enc_groups p q (drop q bs)"
      using False assms(2) by (subst enc_groups.simps) (simp add: Let_def n c_def g_def)
    have d: "length ?d = c" using c by simp
    have "take n (?d @ enc_groups p q (drop q bs)) = ?d \<and> drop n (?d @ enc_groups p q (drop q bs)) = enc_groups p q (drop q bs)"
    proof (cases "length bs < q")
      case True
      then show ?thesis using d c by (simp add: enc_groups.simps)
    next
      case False
      then have "c = n" using full by (simp add: c_def g_def min_def)
      then show ?thesis using d by simp
    qed
    note that = this
    have "dec_groups p n bytes (enc_groups p q bs) =
        take (bytes c) (digits 256 q (number (2 ^ p) (?d @ replicate (n - c) 0))) @ dec_groups p n bytes (enc_groups p q (drop q bs))"
    proof -
      have "?d @ enc_groups p q (drop q bs) \<noteq> []" using d \<open>c \<noteq> 0\<close> by (metis append_is_Nil_conv list.size(3))
      then show ?thesis using that assms(4) d unfolding e by (subst dec_groups.simps) (simp only: Let_def n, simp)
    qed
    also have "dec_groups p n bytes (enc_groups p q (drop q bs)) = drop q bs"
      using 1(1)[rule_format, of "drop q bs"] False assms(2) 1(2) by (auto dest: in_set_dropD)
    also have "take (bytes c) (digits 256 q (number (2 ^ p) (?d @ replicate (n - c) 0))) = g"
      using group_back[OF assms(1,3) refl g(2,3) c(1) \<open>8 * length g \<le> p * c\<close>] c(2) by simp
    finally show ?thesis by (simp add: g_def)
  qed
qed

subsection \<open>The alphabets\<close>

fun index_of :: "'a \<Rightarrow> 'a list \<Rightarrow> nat option" where
  "index_of x [] = None"
| "index_of x (y # ys) = (if x = y then Some 0 else map_option Suc (index_of x ys))"

fun read_all :: "char list \<Rightarrow> string \<Rightarrow> nat list option" where
  "read_all abc [] = Some []"
| "read_all abc (c # cs) = (case index_of c abc of None \<Rightarrow> None | Some d \<Rightarrow> map_option (Cons d) (read_all abc cs))"

lemma index_of_nth: "distinct xs \<Longrightarrow> n < length xs \<Longrightarrow> index_of (xs ! n) xs = Some n"
proof (induction xs arbitrary: n)
  case (Cons x xs)
  then show ?case by (cases n) auto
qed simp

lemma read_all_map: "distinct abc \<Longrightarrow> \<forall>d \<in> set ds. d < length abc \<Longrightarrow> read_all abc (map ((!) abc) ds) = Some ds"
  by (induction ds) (simp_all add: index_of_nth)

definition base32_alphabet :: string where "base32_alphabet = ''ABCDEFGHIJKLMNOPQRSTUVWXYZ234567''"

definition url64_alphabet :: string where
  "url64_alphabet = ''ABCDEFGHIJKLMNOPQRSTUVWXYZabcdefghijklmnopqrstuvwxyz0123456789-_''"

definition std64_alphabet :: string where
  "std64_alphabet = ''ABCDEFGHIJKLMNOPQRSTUVWXYZabcdefghijklmnopqrstuvwxyz0123456789+/''"

definition no_breaks :: "string \<Rightarrow> string" where
  "no_breaks s = filter (\<lambda>c. c \<noteq> CHR 0x0A \<and> c \<noteq> CHR 0x0D) s"

text \<open>Base 32: a last group of one, three or six characters gives no bytes.\<close>

definition bytes32 :: "nat \<Rightarrow> nat" where
  "bytes32 n = (if n = 8 then 5 else if n = 7 then 4 else if n = 5 then 3 else if n = 4 then 2 else if n = 2 then 1 else 0)"

definition encode32 :: "string \<Rightarrow> string" where
  "encode32 s = map ((!) base32_alphabet) (enc_groups 5 5 (map of_char s))"

definition decode32 :: "string \<Rightarrow> string option" where
  "decode32 s = map_option (\<lambda>ds. map char_of (dec_groups 5 8 bytes32 ds)) (read_all base32_alphabet (no_breaks s))"

text \<open>Base 64: a last group of one character is an error.\<close>

definition bytes64 :: "nat \<Rightarrow> nat" where "bytes64 n = n * 6 div 8"

definition enc64 :: "string \<Rightarrow> string \<Rightarrow> string" where
  "enc64 abc s = map ((!) abc) (enc_groups 6 3 (map of_char s))"

definition dec64 :: "string \<Rightarrow> string \<Rightarrow> string option" where
  "dec64 abc s = (let t = no_breaks s in if length t mod 4 = 1 then None
     else map_option (\<lambda>ds. map char_of (dec_groups 6 4 bytes64 ds)) (read_all abc t))"

definition encode64 :: "string \<Rightarrow> string" where "encode64 = enc64 url64_alphabet"

definition decode64 :: "string \<Rightarrow> string option" where "decode64 = dec64 url64_alphabet"

lemma enc_groups_less: "0 < p \<Longrightarrow> d \<in> set (enc_groups p q bs) \<Longrightarrow> d < 2 ^ p"
proof (induction p q bs rule: enc_groups.induct)
  case (1 p q bs)
  show ?case
  proof (cases "bs = [] \<or> q = 0")
    case False
    then have "d < 2 ^ p" if "d \<notin> set (enc_groups p q (drop q bs))"
      using that 1(3) by (subst (asm) enc_groups.simps) (auto simp: Let_def dest!: in_set_takeD digits_less[rotated])
    then show ?thesis using 1 False by blast
  qed (use 1 in \<open>auto simp: enc_groups.simps\<close>)
qed

lemma alphabets: "distinct base32_alphabet" "distinct url64_alphabet" "distinct std64_alphabet"
    "length base32_alphabet = 32" "length url64_alphabet = 64" "length std64_alphabet = 64"
  by (simp_all add: base32_alphabet_def url64_alphabet_def std64_alphabet_def)

lemma no_breaks_alphabet: "no_breaks (map ((!) abc) ds) = map ((!) abc) ds"
  if "abc = base32_alphabet \<or> abc = url64_alphabet \<or> abc = std64_alphabet" "\<forall>d \<in> set ds. d < length abc"
proof -
  have "CHR 0x0A \<notin> set abc" "CHR 0x0D \<notin> set abc" using that(1) by (auto simp: base32_alphabet_def url64_alphabet_def std64_alphabet_def)
  then have "abc ! d \<noteq> CHR 0x0A \<and> abc ! d \<noteq> CHR 0x0D" if "d < length abc" for d using nth_mem[OF that] by auto
  then show ?thesis using that(2) by (auto simp: no_breaks_def intro!: filter_True)
qed

lemma chars_cases: "0 < k \<Longrightarrow> k \<le> 5 \<Longrightarrow> k = 1 \<or> k = 2 \<or> k = 3 \<or> k = 4 \<or> k = (5::nat)"
  by arith

lemma decode32_encode32: "decode32 (encode32 s) = Some s"
proof -
  let ?ds = "enc_groups 5 5 (map of_char s)"
  have l: "\<forall>d \<in> set ?ds. d < 32" using enc_groups_less[of 5 _ 5 "map of_char s"] by simp
  have "dec_groups 5 8 bytes32 ?ds = map of_char s"
  proof (rule dec_enc_groups)
    fix k :: nat assume "0 < k" "k \<le> 5"
    then show "(8 * k + 5 - 1) div 5 \<le> 8 \<and> bytes32 ((8 * k + 5 - 1) div 5) = k"
      using chars_cases[of k] by (auto simp: bytes32_def)
  qed auto
  then show ?thesis
    using l alphabets no_breaks_alphabet[of base32_alphabet ?ds] read_all_map[of base32_alphabet ?ds]
    by (simp add: decode32_def encode32_def comp_def)
qed

lemma chars_64: "0 < m \<Longrightarrow> min ((8 * min m 3 + 5) div 6) 4 + (8 * (m - 3) + 5) div 6 = (8 * m + 5) div (6 :: nat)"
proof (cases "3 \<le> m")
  case True
  then obtain j where "m = j + 3" by (metis le_add_diff_inverse2)
  then show ?thesis by simp
next
  case False
  moreover assume "0 < m"
  ultimately have "m = 1 \<or> m = 2" by arith
  then show ?thesis by auto
qed

lemma enc_groups_64_length: "length (enc_groups 6 3 bs) = (8 * length bs + 5) div 6"
proof (induction "6::nat" "3::nat" bs rule: enc_groups.induct)
  case (1 bs)
  show ?case
  proof (cases "bs = []")
    case False
    then have "length (enc_groups 6 3 bs) = min ((8 * min (length bs) 3 + 5) div 6) 4 + (8 * (length bs - 3) + 5) div 6"
      using 1 by (subst enc_groups.simps) (simp add: Let_def min.commute)
    then show ?thesis using chars_64[of "length bs"] False by simp
  qed (simp add: enc_groups.simps)
qed

lemma length_enc64: "length (enc64 abc s) = (8 * length s + 5) div 6"
  by (simp add: enc64_def enc_groups_64_length)

lemma length_encode64: "length (encode64 s) = (8 * length s + 5) div 6"
  by (simp add: encode64_def length_enc64)

lemma set_enc64: "length abc = 64 \<Longrightarrow> set (enc64 abc s) \<subseteq> set abc"
  using enc_groups_less[of 6 _ 3 "map of_char s"] by (auto simp: enc64_def)

lemma dec64_enc64: "abc = url64_alphabet \<or> abc = std64_alphabet \<Longrightarrow> dec64 abc (enc64 abc s) = Some s"
proof -
  let ?ds = "enc_groups 6 3 (map of_char s)"
  assume abc: "abc = url64_alphabet \<or> abc = std64_alphabet"
  then have abc': "distinct abc" "length abc = 64" using alphabets by auto
  have l: "\<forall>d \<in> set ?ds. d < 64" using enc_groups_less[of 6 _ 3 "map of_char s"] by simp
  have "dec_groups 6 4 bytes64 ?ds = map of_char s"
  proof (rule dec_enc_groups)
    fix k :: nat assume "0 < k" "k \<le> 3"
    then show "(8 * k + 6 - 1) div 6 \<le> 4 \<and> bytes64 ((8 * k + 6 - 1) div 6) = k"
      using chars_cases[of k] by (auto simp: bytes64_def)
  qed auto
  moreover have "length (map ((!) abc) ?ds) mod 4 \<noteq> 1" unfolding length_map enc_groups_64_length by presburger
  ultimately show ?thesis
    using l abc abc' no_breaks_alphabet[of abc ?ds] read_all_map[of abc ?ds]
    by (auto simp: dec64_def enc64_def comp_def Let_def)
qed

lemma decode64_encode64: "decode64 (encode64 s) = Some s"
  by (simp add: decode64_def encode64_def dec64_enc64)

end
