(* ===== verification/AccountStore.thy ===== *)
theory AccountStore
  imports Facts AuditTrail Codec "HOL-Library.Product_Lexorder"
begin

text \<open>
  The tables of accounts and the statements over them (\<open>store/accounts.go\<close>): users, organisations, memberships, invitations, sessions and personal
  tokens. A table is a list of its rows, sessions are a map by the hash of their secret. Any statement may fail: \<open>fl\<close> says which do. Times are
  stored in milliseconds.

  Foreign keys are on (\<open>store/sqlite.go:291\<close>), so deleting a user deletes the sessions, memberships and tokens of it.
\<close>

subsection \<open>Rows\<close>

record credential =
  cr_ID :: string
  cr_PublicKey :: string
  cr_SignCount :: nat
  cr_Name :: string
  cr_CreatedAt :: time
  cr_LastUsedAt :: "time option"
  cr_Rest :: string

record user =
  us_ID :: string
  us_Username :: string
  us_PasswordHash :: string
  us_MustChange :: bool
  us_CreatedAt :: time
  us_DisabledAt :: "time option"
  us_LastLogin :: "time option"
  us_TOTPSecret :: string
  us_TOTPEnabledAt :: "time option"
  us_TOTPRecovery :: "string list"
  us_Email :: string
  us_EmailVerifiedAt :: "time option"
  us_EmailOTPEnabledAt :: "time option"
  us_WebAuthn :: "credential list"

record org =
  og_ID :: string
  og_Name :: string
  og_CreatedAt :: time
  og_CreatedBy :: string

record membership =
  mb_OrgID :: string
  mb_UserID :: string
  mb_Role :: string
  mb_CreatedAt :: time
  mb_AddedBy :: string

record invite =
  iv_ID :: string
  iv_OrgID :: string
  iv_Hash :: string
  iv_Role :: string
  iv_Label :: string
  iv_CreatedBy :: string
  iv_CreatedAt :: int
  iv_ExpiresAt :: int
  iv_UsedAt :: "int option"
  iv_UsedBy :: string

record session_row =
  sw_UserID :: string
  sw_CreatedAt :: int
  sw_LastUsed :: int
  sw_ExpiresAt :: int
  sw_IP :: string

record api_token =
  tk_ID :: string
  tk_UserID :: string
  tk_Hash :: string
  tk_Name :: string
  tk_CreatedAt :: int
  tk_LastUsed :: "int option"

record acc_db =
  db_users :: "user list"
  db_orgs :: "org list"
  db_members :: "membership list"
  db_invites :: "invite list"
  db_sessions :: "string \<rightharpoonup> session_row"
  db_tokens :: "api_token list"

datatype db_call = QGetUser | QGetUserByName | QCreateUser | QSetTOTP | QSetEmail | QSetEmailOTP | QSetPassword | QSetDisabled | QCredentials
  | QDeleteUser | QListMyOrgs | QCreateSession | QMarkLogin | QPurgeSessions | QLookupSession | QTouchSession | QDeleteSession
  | QDeleteUserSessions | QCreateToken | QListTokens | QLookupToken | QTouchToken | QRevokeToken string
  | QCreateOrg | QGetOrg | QRenameOrg | QDeleteOrg | QGetMembership | QSetMemberRole | QRemoveMember | QCountOwners | QCountUsers
  | QCreateInvite | QListInvites | QPeekInvite | QUseInvite | QRevokeInvite | QAudit

datatype db_error = DbNotFound | DbExists | DbTokenInvalid | DbFailed db_call

definition msec :: "time \<Rightarrow> int" where "msec t = t div 1000000"

definition of_msec :: "int \<Rightarrow> time" where "of_msec v = v * 1000000"

text \<open>What a time reads back as.\<close>

definition stored :: "time option \<Rightarrow> time option" where
  "stored t = map_option (\<lambda>t. of_msec (msec t)) t"

subsection \<open>Users\<close>

definition find_user :: "string \<Rightarrow> acc_db \<Rightarrow> user option" where
  "find_user i d = List.find (\<lambda>u. us_ID u = i) (db_users d)"

definition GetUser :: "(db_call \<Rightarrow> bool) \<Rightarrow> string \<Rightarrow> acc_db \<Rightarrow> db_error + user" where
  "GetUser fl i d = (if fl QGetUser then Inl (DbFailed QGetUser) else case find_user i d of None \<Rightarrow> Inl DbNotFound | Some u \<Rightarrow> Inr u)"

text \<open>SQLite's \<open>lower\<close> changes ASCII letters only.\<close>

definition GetUserByName :: "(db_call \<Rightarrow> bool) \<Rightarrow> string \<Rightarrow> acc_db \<Rightarrow> db_error + user" where
  "GetUserByName fl name d = (if fl QGetUserByName then Inl (DbFailed QGetUserByName)
     else case List.find (\<lambda>u. to_lower (us_Username u) = to_lower name) (db_users d) of None \<Rightarrow> Inl DbNotFound | Some u \<Rightarrow> Inr u)"

text \<open>An \<open>UPDATE \<dots> WHERE id=?\<close> followed by \<open>needFound\<close>.\<close>

definition update_user :: "(db_call \<Rightarrow> bool) \<Rightarrow> db_call \<Rightarrow> string \<Rightarrow> (user \<Rightarrow> user) \<Rightarrow> acc_db \<Rightarrow> db_error + acc_db" where
  "update_user fl q i f d = (if fl q then Inl (DbFailed q) else if find_user i d = None then Inl DbNotFound
     else Inr (d\<lparr>db_users := map (\<lambda>u. if us_ID u = i then f u else u) (db_users d)\<rparr>))"

definition CreateUser :: "(db_call \<Rightarrow> bool) \<Rightarrow> user \<Rightarrow> acc_db \<Rightarrow> db_error + acc_db" where
  "CreateUser fl u d = (if fl QCreateUser then Inl (DbFailed QCreateUser)
     else if list_ex (\<lambda>v. us_ID v = us_ID u \<or> to_lower (us_Username v) = to_lower (us_Username u)) (db_users d) then Inl DbExists
     else Inr (d\<lparr>db_users := db_users d @ [\<lparr>us_ID = us_ID u, us_Username = us_Username u, us_PasswordHash = us_PasswordHash u,
        us_MustChange = us_MustChange u, us_CreatedAt = of_msec (msec (us_CreatedAt u)), us_DisabledAt = None, us_LastLogin = None,
        us_TOTPSecret = [], us_TOTPEnabledAt = None, us_TOTPRecovery = [], us_Email = [], us_EmailVerifiedAt = None,
        us_EmailOTPEnabledAt = None, us_WebAuthn = []\<rparr>]\<rparr>))"

definition SetTOTP :: "(db_call \<Rightarrow> bool) \<Rightarrow> string \<Rightarrow> string \<Rightarrow> time option \<Rightarrow> string list \<Rightarrow> acc_db \<Rightarrow> db_error + acc_db" where
  "SetTOTP fl i secret enabledAt recovery = update_user fl QSetTOTP i
     (\<lambda>u. u\<lparr>us_TOTPSecret := secret, us_TOTPEnabledAt := stored enabledAt, us_TOTPRecovery := recovery\<rparr>)"

definition SetEmail :: "(db_call \<Rightarrow> bool) \<Rightarrow> string \<Rightarrow> string \<Rightarrow> time option \<Rightarrow> acc_db \<Rightarrow> db_error + acc_db" where
  "SetEmail fl i email verifiedAt = update_user fl QSetEmail i (\<lambda>u.
     (if verifiedAt = None then u\<lparr>us_Email := email, us_EmailVerifiedAt := None, us_EmailOTPEnabledAt := None\<rparr>
      else u\<lparr>us_Email := email, us_EmailVerifiedAt := stored verifiedAt\<rparr>))"

definition SetEmailOTPEnabled :: "(db_call \<Rightarrow> bool) \<Rightarrow> string \<Rightarrow> time option \<Rightarrow> acc_db \<Rightarrow> db_error + acc_db" where
  "SetEmailOTPEnabled fl i enabledAt = update_user fl QSetEmailOTP i (\<lambda>u. u\<lparr>us_EmailOTPEnabledAt := stored enabledAt\<rparr>)"

definition SetPassword :: "(db_call \<Rightarrow> bool) \<Rightarrow> string \<Rightarrow> string \<Rightarrow> bool \<Rightarrow> acc_db \<Rightarrow> db_error + acc_db" where
  "SetPassword fl i hash mustChange = update_user fl QSetPassword i (\<lambda>u. u\<lparr>us_PasswordHash := hash, us_MustChange := mustChange\<rparr>)"

definition SetDisabled :: "(db_call \<Rightarrow> bool) \<Rightarrow> string \<Rightarrow> time option \<Rightarrow> acc_db \<Rightarrow> db_error + acc_db" where
  "SetDisabled fl i at0 = update_user fl QSetDisabled i (\<lambda>u. u\<lparr>us_DisabledAt := stored at0\<rparr>)"

text \<open>No \<open>needFound\<close>, and the callers ignore its error.\<close>

definition MarkLogin :: "(db_call \<Rightarrow> bool) \<Rightarrow> string \<Rightarrow> time \<Rightarrow> acc_db \<Rightarrow> acc_db" where
  "MarkLogin fl i now d = (if fl QMarkLogin then d
     else d\<lparr>db_users := map (\<lambda>u. if us_ID u = i then u\<lparr>us_LastLogin := stored (Some now)\<rparr> else u) (db_users d)\<rparr>)"

definition DeleteUser :: "(db_call \<Rightarrow> bool) \<Rightarrow> string \<Rightarrow> acc_db \<Rightarrow> acc_db" where
  "DeleteUser fl i d = (if fl QDeleteUser then d
     else d\<lparr>db_users := filter (\<lambda>u. us_ID u \<noteq> i) (db_users d), db_members := filter (\<lambda>m. mb_UserID m \<noteq> i) (db_members d),
            db_sessions := (\<lambda>h. case db_sessions d h of None \<Rightarrow> None | Some s \<Rightarrow> if sw_UserID s = i then None else Some s),
            db_tokens := filter (\<lambda>t. tk_UserID t \<noteq> i) (db_tokens d)\<rparr>)"

subsection \<open>Passkeys of a user\<close>

text \<open>\<open>updateWebAuthnCredentials\<close>: the list is read, changed and written back in one transaction; \<open>fn\<close> may refuse.\<close>

definition updateWebAuthnCredentials ::
    "(db_call \<Rightarrow> bool) \<Rightarrow> string \<Rightarrow> (credential list \<Rightarrow> db_error + credential list) \<Rightarrow> acc_db \<Rightarrow> db_error + acc_db" where
  "updateWebAuthnCredentials fl i fn d = (if fl QCredentials then Inl (DbFailed QCredentials)
     else case find_user i d of None \<Rightarrow> Inl DbNotFound
     | Some u \<Rightarrow> (case fn (us_WebAuthn u) of Inl e \<Rightarrow> Inl e
         | Inr cs \<Rightarrow> Inr (d\<lparr>db_users := map (\<lambda>u. if us_ID u = i then u\<lparr>us_WebAuthn := cs\<rparr> else u) (db_users d)\<rparr>)))"

definition AddWebAuthnCredential :: "(db_call \<Rightarrow> bool) \<Rightarrow> string \<Rightarrow> credential \<Rightarrow> acc_db \<Rightarrow> db_error + acc_db" where
  "AddWebAuthnCredential fl i cred = updateWebAuthnCredentials fl i (\<lambda>cs.
     if list_ex (\<lambda>c. cr_ID c = cr_ID cred) cs then Inl DbExists else Inr (cs @ [cred\<lparr>cr_CreatedAt := of_msec (msec (cr_CreatedAt cred)), cr_LastUsedAt := stored (cr_LastUsedAt cred)\<rparr>]))"

text \<open>The first credential with this id is changed, or there is none.\<close>

fun change_first :: "string \<Rightarrow> (credential \<Rightarrow> credential option) \<Rightarrow> credential list \<Rightarrow> db_error + credential list" where
  "change_first i f [] = Inl DbNotFound"
| "change_first i f (c # cs) = (if cr_ID c = i then (case f c of None \<Rightarrow> Inr cs | Some c' \<Rightarrow> Inr (c' # cs))
     else case change_first i f cs of Inl e \<Rightarrow> Inl e | Inr cs' \<Rightarrow> Inr (c # cs'))"

definition RenameWebAuthnCredential :: "(db_call \<Rightarrow> bool) \<Rightarrow> string \<Rightarrow> string \<Rightarrow> string \<Rightarrow> acc_db \<Rightarrow> db_error + acc_db" where
  "RenameWebAuthnCredential fl i cred name = updateWebAuthnCredentials fl i (change_first cred (\<lambda>c. Some (c\<lparr>cr_Name := name\<rparr>)))"

definition TouchWebAuthnCredential :: "(db_call \<Rightarrow> bool) \<Rightarrow> string \<Rightarrow> string \<Rightarrow> nat \<Rightarrow> time \<Rightarrow> acc_db \<Rightarrow> db_error + acc_db" where
  "TouchWebAuthnCredential fl i cred signCount usedAt = updateWebAuthnCredentials fl i
     (change_first cred (\<lambda>c. Some (c\<lparr>cr_SignCount := signCount, cr_LastUsedAt := stored (Some usedAt)\<rparr>)))"

definition RemoveWebAuthnCredential :: "(db_call \<Rightarrow> bool) \<Rightarrow> string \<Rightarrow> string \<Rightarrow> acc_db \<Rightarrow> db_error + acc_db" where
  "RemoveWebAuthnCredential fl i cred = updateWebAuthnCredentials fl i (change_first cred (\<lambda>c. None))"

subsection \<open>Sessions\<close>

definition CreateSession :: "(db_call \<Rightarrow> bool) \<Rightarrow> string \<Rightarrow> string \<Rightarrow> string \<Rightarrow> time \<Rightarrow> time \<Rightarrow> acc_db \<Rightarrow> db_error + acc_db" where
  "CreateSession fl hash i ip now expires d =
     (if fl QCreateSession \<or> db_sessions d hash \<noteq> None \<or> find_user i d = None then Inl (DbFailed QCreateSession)
      else Inr (d\<lparr>db_sessions := (db_sessions d)(hash \<mapsto>
        \<lparr>sw_UserID = i, sw_CreatedAt = msec now, sw_LastUsed = msec now, sw_ExpiresAt = msec expires, sw_IP = ip\<rparr>)\<rparr>))"

definition LookupSession :: "(db_call \<Rightarrow> bool) \<Rightarrow> string \<Rightarrow> acc_db \<Rightarrow> db_error + session_row \<times> user" where
  "LookupSession fl hash d = (if fl QLookupSession then Inl (DbFailed QLookupSession)
     else case db_sessions d hash of None \<Rightarrow> Inl DbNotFound
     | Some s \<Rightarrow> (case GetUser fl (sw_UserID s) d of Inl e \<Rightarrow> Inl e | Inr u \<Rightarrow> Inr (s, u)))"

definition TouchSession :: "(db_call \<Rightarrow> bool) \<Rightarrow> string \<Rightarrow> time \<Rightarrow> acc_db \<Rightarrow> acc_db" where
  "TouchSession fl hash now d = (if fl QTouchSession then d
     else d\<lparr>db_sessions := (case db_sessions d hash of None \<Rightarrow> db_sessions d
        | Some s \<Rightarrow> (db_sessions d)(hash \<mapsto> s\<lparr>sw_LastUsed := msec now\<rparr>))\<rparr>)"

definition DeleteSession :: "(db_call \<Rightarrow> bool) \<Rightarrow> string \<Rightarrow> acc_db \<Rightarrow> acc_db" where
  "DeleteSession fl hash d = (if fl QDeleteSession then d else d\<lparr>db_sessions := (db_sessions d)(hash := None)\<rparr>)"

text \<open>All sessions of a user, or all but one; an empty hash is none.\<close>

definition DeleteUserSessions :: "(db_call \<Rightarrow> bool) \<Rightarrow> string \<Rightarrow> string \<Rightarrow> acc_db \<Rightarrow> db_error + acc_db" where
  "DeleteUserSessions fl i except d = (if fl QDeleteUserSessions then Inl (DbFailed QDeleteUserSessions)
     else Inr (d\<lparr>db_sessions := (\<lambda>h. case db_sessions d h of None \<Rightarrow> None
        | Some s \<Rightarrow> if sw_UserID s = i \<and> (except = [] \<or> h \<noteq> except) then None else Some s)\<rparr>))"

definition PurgeSessions :: "(db_call \<Rightarrow> bool) \<Rightarrow> time \<Rightarrow> acc_db \<Rightarrow> acc_db" where
  "PurgeSessions fl olderThan d = (if fl QPurgeSessions then d
     else d\<lparr>db_sessions := (\<lambda>h. case db_sessions d h of None \<Rightarrow> None
        | Some s \<Rightarrow> if sw_ExpiresAt s < msec olderThan \<or> sw_LastUsed s < msec (olderThan - 24 * hour) then None else Some s)\<rparr>)"

subsection \<open>Personal tokens\<close>

definition CreateAPIToken :: "(db_call \<Rightarrow> bool) \<Rightarrow> string \<Rightarrow> string \<Rightarrow> string \<Rightarrow> string \<Rightarrow> time \<Rightarrow> acc_db \<Rightarrow> db_error + acc_db" where
  "CreateAPIToken fl i hash user name now d =
     (if fl QCreateToken \<or> list_ex (\<lambda>t. tk_ID t = i \<or> tk_Hash t = hash) (db_tokens d) \<or> find_user user d = None then Inl (DbFailed QCreateToken)
      else Inr (d\<lparr>db_tokens := db_tokens d @ [\<lparr>tk_ID = i, tk_UserID = user, tk_Hash = hash, tk_Name = name, tk_CreatedAt = msec now, tk_LastUsed = None\<rparr>]\<rparr>))"

text \<open>Newest first; SQLite does not say in which order rows of one millisecond come.\<close>

definition ListAPITokens :: "(db_call \<Rightarrow> bool) \<Rightarrow> string \<Rightarrow> acc_db \<Rightarrow> db_error + api_token list" where
  "ListAPITokens fl user d = (if fl QListTokens then Inl (DbFailed QListTokens)
     else Inr (sort_key (\<lambda>t. - tk_CreatedAt t) (filter (\<lambda>t. tk_UserID t = user) (db_tokens d))))"

definition LookupAPIToken :: "(db_call \<Rightarrow> bool) \<Rightarrow> string \<Rightarrow> acc_db \<Rightarrow> db_error + api_token \<times> user" where
  "LookupAPIToken fl hash d = (if fl QLookupToken then Inl (DbFailed QLookupToken)
     else case List.find (\<lambda>t. tk_Hash t = hash) (db_tokens d) of None \<Rightarrow> Inl DbNotFound
     | Some t \<Rightarrow> (case GetUser fl (tk_UserID t) d of Inl e \<Rightarrow> Inl e | Inr u \<Rightarrow> Inr (t, u)))"

definition TouchAPIToken :: "(db_call \<Rightarrow> bool) \<Rightarrow> string \<Rightarrow> time \<Rightarrow> acc_db \<Rightarrow> acc_db" where
  "TouchAPIToken fl hash now d = (if fl QTouchToken then d
     else d\<lparr>db_tokens := map (\<lambda>t. if tk_Hash t = hash then t\<lparr>tk_LastUsed := Some (msec now)\<rparr> else t) (db_tokens d)\<rparr>)"

definition RevokeAPIToken :: "(db_call \<Rightarrow> bool) \<Rightarrow> string \<Rightarrow> string \<Rightarrow> acc_db \<Rightarrow> db_error + acc_db" where
  "RevokeAPIToken fl user i d = (if fl (QRevokeToken i) then Inl (DbFailed (QRevokeToken i))
     else if \<not> list_ex (\<lambda>t. tk_UserID t = user \<and> tk_ID t = i) (db_tokens d) then Inl DbNotFound
     else Inr (d\<lparr>db_tokens := filter (\<lambda>t. \<not> (tk_UserID t = user \<and> tk_ID t = i)) (db_tokens d)\<rparr>))"

subsection \<open>The organisations of a user\<close>

definition ListMyOrgs :: "(db_call \<Rightarrow> bool) \<Rightarrow> string \<Rightarrow> acc_db \<Rightarrow> db_error + (org \<times> string) list" where
  "ListMyOrgs fl user d = (if fl QListMyOrgs then Inl (DbFailed QListMyOrgs)
     else Inr (sort_key (\<lambda>(g, r). (og_CreatedAt g, og_ID g)) (List.map_filter (\<lambda>m. if mb_UserID m = user
       then map_option (\<lambda>g. (g, mb_Role m)) (List.find (\<lambda>g. og_ID g = mb_OrgID m) (db_orgs d)) else None) (db_members d))))"

end
