(* ===== verification/Totp.thy ===== *)
theory Totp
  imports AuditTrail Codec
begin

text \<open>
  The codes of a second factor (\<open>accounts/totp.go\<close>, \<open>accounts/emailcode.go\<close>): codes of an authenticator app, recovery codes and
  codes sent by mail.

  HMAC-SHA-1, SHA-256 and the Unicode tables of \<open>strings.ToUpper\<close> are the fields of \<open>code_env\<close>. The bytes of the system's random source are
  arguments, \<open>None\<close> when it gives none.
\<close>

record code_env =
  ce_hmac :: "string \<Rightarrow> string \<Rightarrow> string"
  ce_sha :: "string \<Rightarrow> string"
  ce_upper :: "string \<Rightarrow> string"

subsection \<open>Codes of an authenticator app\<close>

definition totpDigits :: nat where "totpDigits = 6"
definition TOTPStep :: duration where "TOTPStep = 30 * second"
definition totpSecretBytes :: nat where "totpSecretBytes = 20"
definition totpSkew :: int where "totpSkew = 1"

text \<open>\<open>rnd\<close> is what \<open>rand.Read\<close> puts into the twenty bytes.\<close>

definition NewTOTPSecret :: "string option \<Rightarrow> string option" where
  "NewTOTPSecret rnd = map_option encode32 rnd"

text \<open>\<open>fmt.Sprintf("%0*d", 6, n)\<close> for \<open>n\<close> below a million.\<close>

definition six_digits :: "nat \<Rightarrow> string" where
  "six_digits n = map (\<lambda>d. char_of (48 + d)) (digits 10 totpDigits n)"

definition TOTPAt :: "code_env \<Rightarrow> string \<Rightarrow> nat \<Rightarrow> string option" where
  "TOTPAt env secret counter =
     (case decode32 (ce_upper env (trim_space secret)) of None \<Rightarrow> None
      | Some key \<Rightarrow>
          (let sum1 = map of_char (ce_hmac env key (map char_of (digits 256 8 counter)));
               off = last sum1 mod 16;
               code = (sum1 ! off mod 128) * 2 ^ 24 + sum1 ! (off + 1) * 2 ^ 16 + sum1 ! (off + 2) * 2 ^ 8 + sum1 ! (off + 3)
           in Some (six_digits (code mod 10 ^ totpDigits))))"

definition totp_step :: "time \<Rightarrow> nat" where
  "totp_step now = nat (now div second mod 2 ^ 64) div 30"

definition VerifyTOTP :: "code_env \<Rightarrow> string \<Rightarrow> string \<Rightarrow> time \<Rightarrow> bool" where
  "VerifyTOTP env secret code now =
     (let code = trim_space code in
      if length code \<noteq> totpDigits then False
      else if \<not> list_all is_digit code then False
      else list_ex (\<lambda>delta.
        if delta < 0 \<and> nat (- delta) > totp_step now then False
        else TOTPAt env secret (nat ((int (totp_step now) + delta) mod 2 ^ 64)) = Some code) [- totpSkew .. totpSkew])"

subsection \<open>Recovery codes\<close>

definition recoveryAlphabet :: string where
  "recoveryAlphabet = ''abcdefghjkmnpqrstuvwxyzABCDEFGHJKLMNPQRSTUVWXYZ23456789''"

definition NewRecoveryCode :: "string option \<Rightarrow> string option" where
  "NewRecoveryCode rnd = (case rnd of None \<Rightarrow> None | Some bs \<Rightarrow>
     (let b = map (\<lambda>c. recoveryAlphabet ! (of_char c mod length recoveryAlphabet)) bs in Some (take 5 b @ ''-'' @ drop 5 b)))"

definition normalizeRecoveryCode :: "code_env \<Rightarrow> string \<Rightarrow> string" where
  "normalizeRecoveryCode env s = filter (\<lambda>c. c \<noteq> CHR ''-'' \<and> c \<noteq> CHR 0x20) (ce_upper env (trim_space s))"

definition recoveryHash :: "code_env \<Rightarrow> string \<Rightarrow> string" where
  "recoveryHash env code = hex (ce_sha env (normalizeRecoveryCode env code))"

fun NewRecoveryCodes :: "code_env \<Rightarrow> string option list \<Rightarrow> (string list \<times> string list) option" where
  "NewRecoveryCodes env [] = Some ([], [])"
| "NewRecoveryCodes env (rnd # rnds) =
     (case NewRecoveryCode rnd of None \<Rightarrow> None
      | Some c \<Rightarrow> (case NewRecoveryCodes env rnds of None \<Rightarrow> None
          | Some (codes, hashes) \<Rightarrow> Some (c # codes, recoveryHash env c # hashes)))"

fun consume_hash :: "string \<Rightarrow> string list \<Rightarrow> string list option" where
  "consume_hash h [] = None"
| "consume_hash h (have1 # hs) = (if have1 = h then Some hs else map_option (Cons have1) (consume_hash h hs))"

definition consumeRecoveryCode :: "code_env \<Rightarrow> string list \<Rightarrow> string \<Rightarrow> string list \<times> bool" where
  "consumeRecoveryCode env hashes code =
     (case consume_hash (recoveryHash env code) hashes of None \<Rightarrow> (hashes, False) | Some rest \<Rightarrow> (rest, True))"

subsection \<open>Codes sent by mail\<close>

text \<open>\<open>rand.Int\<close> gives a number below a million.\<close>

definition NewEmailCode :: "nat option \<Rightarrow> string option" where
  "NewEmailCode rnd = map_option six_digits rnd"

definition emailCodeHash :: "code_env \<Rightarrow> string \<Rightarrow> string" where
  "emailCodeHash env code = hex (ce_sha env (trim_space code))"

definition emailCodeMatches :: "code_env \<Rightarrow> string \<Rightarrow> string \<Rightarrow> bool" where
  "emailCodeMatches env hash code = (emailCodeHash env code = hash)"

subsection \<open>What the codes are worth\<close>

lemma six_digits_props: "length (six_digits n) = 6" "list_all is_digit (six_digits n)"
proof -
  show "length (six_digits n) = 6" by (simp add: six_digits_def totpDigits_def)
  have "is_digit (char_of (48 + d))" if "d < 10" for d :: nat
    using that by (simp add: is_digit_def Let_def)
  then show "list_all is_digit (six_digits n)"
    by (auto simp: six_digits_def list_all_iff dest!: digits_less[rotated])
qed

text \<open>A string that begins and ends with a printable ASCII character is left alone by \<open>strings.TrimSpace\<close>.\<close>

definition printable :: "char \<Rightarrow> bool" where
  "printable c = (let n = of_char c :: nat in 33 \<le> n \<and> n < 128)"

lemma trim_front_other:
  assumes "\<forall>c \<in> set cs. c \<noteq> [] \<longrightarrow> (s = [] \<or> hd c \<noteq> hd s)"
  shows "trim_front cs s = s"
proof -
  have "List.find (\<lambda>c. c \<noteq> [] \<and> prefix c s) cs = None"
    using assms by (auto simp: find_None_iff prefix_def)
  then show ?thesis by (subst trim_front.simps) (simp add: strip_code_def)
qed

lemma space_heads: "c \<in> set space_codes \<Longrightarrow> c \<noteq> [] \<and> \<not> printable (hd c) \<and> \<not> printable (last c)"
proof -
  have "list_all (\<lambda>c. c \<noteq> [] \<and> \<not> printable (hd c) \<and> \<not> printable (last c)) space_codes" by code_simp
  then show "c \<in> set space_codes \<Longrightarrow> c \<noteq> [] \<and> \<not> printable (hd c) \<and> \<not> printable (last c)" unfolding list_all_iff by blast
qed

lemma trim_printable:
  assumes "s = [] \<or> printable (hd s) \<and> printable (last s)"
  shows "trim_space s = s"
proof -
  have "trim_front space_codes s = s" using assms space_heads by (intro trim_front_other) metis
  moreover have "trim_front (map rev space_codes) (rev s) = rev s"
  proof (rule trim_front_other, intro ballI impI)
    fix c assume "c \<in> set (map rev space_codes)"
    then obtain d where "c = rev d" "d \<in> set space_codes" by auto
    then show "rev s = [] \<or> hd c \<noteq> hd (rev s)" using assms space_heads[of d] by (auto simp: hd_rev)
  qed
  ultimately show ?thesis by (simp add: trim_space_def)
qed

lemma digit_printable: "is_digit c \<Longrightarrow> printable c"
  by (auto simp: is_digit_def printable_def Let_def)

lemma trim_six_digits [simp]: "trim_space (six_digits n) = six_digits n"
proof (rule trim_printable)
  have "six_digits n \<noteq> []" using six_digits_props(1)[of n] by auto
  moreover have "\<forall>c \<in> set (six_digits n). printable c" using six_digits_props(2)[of n] digit_printable by (simp add: list_all_iff)
  ultimately show "six_digits n = [] \<or> printable (hd (six_digits n)) \<and> printable (last (six_digits n))" by simp
qed

lemma TOTPAt_digits: "TOTPAt env secret c = Some code \<Longrightarrow> length code = 6 \<and> list_all is_digit code \<and> trim_space code = code"
  by (auto simp: TOTPAt_def Let_def six_digits_props split: option.splits)

lemma div_step: "now div second div 30 = now div TOTPStep"
  by (simp add: TOTPStep_def div_mult2_eq' flip: zdiv_zmult2_eq)

text \<open>
  C37. An authenticator code is accepted exactly when it is the code of the half minute the server's clock is in, or of the one before or after;
  so a code made on a device whose clock is at most thirty seconds off is accepted, however it is surrounded by white space.
\<close>
theorem totp_window:
  assumes "0 \<le> now" "now div second < 2 ^ 63"
  shows "(VerifyTOTP env secret code now \<longleftrightarrow> (\<exists>c. \<bar>int c - now div TOTPStep\<bar> \<le> 1 \<and> TOTPAt env secret c = Some (trim_space code)))
    \<and> (0 \<le> t \<and> \<bar>t - now\<bar> \<le> 30 * second \<and> TOTPAt env secret (nat (t div TOTPStep)) = Some (trim_space code) \<longrightarrow> VerifyTOTP env secret code now)"
proof -
  let ?s = "now div TOTPStep"
  have s: "int (totp_step now) = ?s" "0 \<le> ?s" "?s < 2 ^ 62"
    using assms div_step[of now] by (simp_all add: totp_step_def pos_imp_zdiv_nonneg_iff)
  have m: "(int (totp_step now) + d) mod 2 ^ 64 = ?s + d" if "\<bar>d\<bar> \<le> 1" "0 \<le> ?s + d" for d
    using that s by (intro mod_pos_pos_trivial[THEN trans]) (auto simp: s)
  have "VerifyTOTP env secret code now \<longleftrightarrow> (\<exists>d \<in> {-1, 0, 1}. 0 \<le> ?s + d \<and> TOTPAt env secret (nat (?s + d)) = Some (trim_space code))"
  proof -
    have "VerifyTOTP env secret code now \<longleftrightarrow> length (trim_space code) = 6 \<and> list_all is_digit (trim_space code)
        \<and> (\<exists>d \<in> {-1, 0, 1}. 0 \<le> ?s + d \<and> TOTPAt env secret (nat (?s + d)) = Some (trim_space code))"
      using s m[of "-1"] m[of 0] m[of 1]
      by (auto simp: VerifyTOTP_def Let_def totpDigits_def totpSkew_def upto.simps)
    then show ?thesis using TOTPAt_digits by blast
  qed
  also have "\<dots> \<longleftrightarrow> (\<exists>c. \<bar>int c - ?s\<bar> \<le> 1 \<and> TOTPAt env secret c = Some (trim_space code))"
  proof
    assume "\<exists>d \<in> {-1, 0, 1}. 0 \<le> ?s + d \<and> TOTPAt env secret (nat (?s + d)) = Some (trim_space code)"
    then obtain d where "d \<in> {-1, 0, 1}" "0 \<le> ?s + d" "TOTPAt env secret (nat (?s + d)) = Some (trim_space code)" by blast
    then show "\<exists>c. \<bar>int c - ?s\<bar> \<le> 1 \<and> TOTPAt env secret c = Some (trim_space code)" by (intro exI[of _ "nat (?s + d)"]) auto
  next
    assume "\<exists>c. \<bar>int c - ?s\<bar> \<le> 1 \<and> TOTPAt env secret c = Some (trim_space code)"
    then obtain c where "\<bar>int c - ?s\<bar> \<le> 1" "TOTPAt env secret c = Some (trim_space code)" by blast
    then show "\<exists>d \<in> {-1, 0, 1}. 0 \<le> ?s + d \<and> TOTPAt env secret (nat (?s + d)) = Some (trim_space code)"
      by (intro bexI[of _ "int c - ?s"]) auto
  qed
  finally have 1: "VerifyTOTP env secret code now \<longleftrightarrow> (\<exists>c. \<bar>int c - ?s\<bar> \<le> 1 \<and> TOTPAt env secret c = Some (trim_space code))" .
  moreover have "\<bar>int (nat (t div TOTPStep)) - ?s\<bar> \<le> 1" if "0 \<le> t" "\<bar>t - now\<bar> \<le> 30 * second"
  proof -
    have "t \<le> now + TOTPStep" "now \<le> t + TOTPStep" using that(2) by (simp_all add: TOTPStep_def)
    then have "t div TOTPStep \<le> (now + TOTPStep) div TOTPStep" "?s \<le> (t + TOTPStep) div TOTPStep"
      by (simp_all add: zdiv_mono1 TOTPStep_def)
    moreover have "(a + TOTPStep) div TOTPStep = a div TOTPStep + 1" for a by (simp add: TOTPStep_def)
    ultimately show ?thesis using that(1) by (simp add: pos_imp_zdiv_nonneg_iff TOTPStep_def)
  qed
  ultimately show ?thesis by blast
qed

definition toy_codes :: code_env where
  "toy_codes = \<lparr>ce_hmac = (\<lambda>key msg. [CHR 0x00, CHR 0x00, CHR 0x00, last msg] @ replicate 16 (CHR 0x00)), ce_sha = (\<lambda>s. s), ce_upper = (\<lambda>s. s)\<rparr>"

text \<open>The test vector of RFC 4648 for \<open>foo\<close>.\<close>

lemma decode_foo: "decode32 ''MZXW6'' = Some ''foo''"
proof -
  have r: "rev [0..<5] = [4,3,2,1,0::nat]" "replicate 3 x = [x,x,x]" for x :: nat by (simp_all add: upt_rec eval_nat_numeral)
  have "dec_groups 5 8 bytes32 [12,25,23,22,30] = [102,111,111]"
    by (simp add: dec_groups.simps[of 5 8 bytes32 "[12,25,23,22,30]"] dec_groups.simps[of 5 8 bytes32 "[]"] bytes32_def number_def digits_def r)
  moreover have "read_all base32_alphabet ''MZXW6'' = Some [12,25,23,22,30]" by code_simp
  moreover have "map char_of [102,111,111::nat] = ''foo''" by code_simp
  ultimately show ?thesis by (simp add: decode32_def no_breaks_def)
qed

lemma toy_code: "TOTPAt toy_codes ''MZXW6'' 1 = Some ''000001''"
proof -
  have "trim_space ''MZXW6'' = ''MZXW6''" by code_simp
  then have "decode32 (ce_upper toy_codes (trim_space ''MZXW6'')) = Some ''foo''" by (simp add: decode_foo toy_codes_def)
  moreover have "rev [0..<8] = [7, 6, 5, 4, 3, 2, 1, 0 :: nat]" "rev [0..<6] = [5, 4, 3, 2, 1, 0 :: nat]"
    by (simp_all add: upt_rec numeral_eq_Suc)
  then have "digits 256 8 1 = [0, 0, 0, 0, 0, 0, 0, 1]" "digits 10 6 1 = [0, 0, 0, 0, 0, 1]" by (simp_all add: digits_def)
  moreover have "map char_of [48, 48, 48, 48, 48, 49 :: nat] = ''000001''" "of_char (char_of (1 :: nat)) = (1 :: nat)" by code_simp+
  moreover have "replicate 16 x = [x, x, x, x, x, x, x, x, x, x, x, x, x, x, x, x]" for x :: char by (simp add: eval_nat_numeral)
  ultimately show ?thesis by (simp add: TOTPAt_def Let_def toy_codes_def six_digits_def totpDigits_def)
qed

theorem totp_window_witness: "VerifyTOTP toy_codes ''MZXW6'' '' 000001'' (75 * second)"
proof -
  have t: "trim_space '' 000001'' = ''000001''" by code_simp
  have "(45 * second) div TOTPStep = 1" by (simp add: TOTPStep_def)
  then have "0 \<le> 45 * second \<and> \<bar>45 * second - 75 * second\<bar> \<le> 30 * second
      \<and> TOTPAt toy_codes ''MZXW6'' (nat ((45 * second) div TOTPStep)) = Some (trim_space '' 000001'')"
    using toy_code by (simp add: t)
  moreover have "(0 :: int) \<le> 75 * second" "(75 * second) div second < 2 ^ 63" by simp_all
  ultimately show ?thesis using totp_window[of "75 * second" toy_codes "''MZXW6''" "'' 000001''" "45 * second"] by blast
qed

text \<open>A secret made here is read back as the bytes it was made of, so its codes exist.\<close>

lemma NewTOTPSecret_read:
  assumes "NewTOTPSecret (Some bs) = Some s" "ce_upper env s = s"
  shows "decode32 (ce_upper env (trim_space s)) = Some bs"
proof -
  have s: "s = encode32 bs" using assms(1) by (simp add: NewTOTPSecret_def)
  have "list_all printable base32_alphabet" by code_simp
  then have "\<forall>c \<in> set s. printable c"
    using enc_groups_less[of 5 _ 5 "map of_char bs"] alphabets(4) by (auto simp: s encode32_def list_all_length)
  then have "trim_space s = s" by (intro trim_printable) auto
  then show ?thesis using assms(2) by (simp add: s decode32_encode32)
qed

text \<open>The alphabet has the capital L, which reads like a one.\<close>

lemma alphabet_has_look_alike: "CHR ''L'' \<in> set recoveryAlphabet"
  by (simp add: recoveryAlphabet_def)

end
