(* ===== verification/Password.thy ===== *)
theory Password
  imports Codec
begin

text \<open>
  Passwords (\<open>accounts/password.go\<close>): the text a password is stored as, its reading with the limits on what it may ask of the machine, and the
  policy on new passwords. argon2 is a parameter, given the password, the salt, the passes, the memory, the threads and the length of the key; so
  are the tables of Unicode (\<open>text_env\<close>). What \<open>fmt.Sscanf\<close> does with the verb \<open>d\<close> is written out.
\<close>

type_synonym argon = "string \<Rightarrow> string \<Rightarrow> nat \<Rightarrow> nat \<Rightarrow> nat \<Rightarrow> nat \<Rightarrow> string"

definition ArgonMemoryKiB :: nat where "ArgonMemoryKiB = 64 * 1024"
definition ArgonTime :: nat where "ArgonTime = 2"
definition ArgonThreads :: nat where "ArgonThreads = 2"
definition argonKeyLen :: nat where "argonKeyLen = 32"
definition argonSaltLen :: nat where "argonSaltLen = 16"
definition argonVersion :: nat where "argonVersion = 19"
definition MinPasswordLen :: nat where "MinPasswordLen = 12"
definition MaxPasswordLen :: nat where "MaxPasswordLen = 128"

definition HashPassword :: "argon \<Rightarrow> string \<Rightarrow> string option \<Rightarrow> string option" where
  "HashPassword argon password rnd = (case rnd of None \<Rightarrow> None | Some salt \<Rightarrow>
     Some (''$argon2id$v='' @ show_nat argonVersion @ ''$m='' @ show_nat ArgonMemoryKiB @ '',t='' @ show_nat ArgonTime @ '',p='' @ show_nat ArgonThreads
       @ ''$'' @ enc64 std64_alphabet salt @ ''$'' @ enc64 std64_alphabet (argon password salt ArgonTime ArgonMemoryKiB ArgonThreads argonKeyLen)))"

subsection \<open>Reading\<close>

text \<open>Before a number white space is skipped, but a line break is an error.\<close>

definition skip_space :: "string \<Rightarrow> string option" where
  "skip_space s = (let r = trim_front (filter (\<lambda>c. c \<noteq> [CHR 0x0A]) space_codes) s in if prefix [CHR 0x0A] r then None else Some r)"

definition scan_nat :: "nat \<Rightarrow> string \<Rightarrow> (nat \<times> string) option" where
  "scan_nat w s = (case skip_space s of None \<Rightarrow> None | Some s \<Rightarrow>
     case unsigned_decimal (takeWhile is_digit s) of None \<Rightarrow> None
     | Some n \<Rightarrow> if n < 2 ^ w then Some (nat n, dropWhile is_digit s) else None)"

definition scan_int :: "string \<Rightarrow> (int \<times> string) option" where
  "scan_int s = (case skip_space s of None \<Rightarrow> None | Some s \<Rightarrow>
     let sign = (case s of [] \<Rightarrow> [] | c # _ \<Rightarrow> if c = CHR ''+'' \<or> c = CHR ''-'' then [c] else []); r = drop (length sign) s in
     case atoi (sign @ takeWhile is_digit r) of None \<Rightarrow> None | Some n \<Rightarrow> Some (n, dropWhile is_digit r))"

definition literal :: "string \<Rightarrow> string \<Rightarrow> string option" where
  "literal l s = (if prefix l s then Some (drop (length l) s) else None)"

definition scan_version :: "string \<Rightarrow> int option" where
  "scan_version s = (case literal ''v='' s of None \<Rightarrow> None | Some s \<Rightarrow> map_option fst (scan_int s))"

definition scan_costs :: "string \<Rightarrow> (nat \<times> nat \<times> nat) option" where
  "scan_costs s =
     (case literal ''m='' s of None \<Rightarrow> None | Some s \<Rightarrow> case scan_nat 32 s of None \<Rightarrow> None | Some (m, s) \<Rightarrow>
      case literal '',t='' s of None \<Rightarrow> None | Some s \<Rightarrow> case scan_nat 32 s of None \<Rightarrow> None | Some (t, s) \<Rightarrow>
      case literal '',p='' s of None \<Rightarrow> None | Some s \<Rightarrow> case scan_nat 8 s of None \<Rightarrow> None | Some (p, s) \<Rightarrow> Some (m, t, p))"

text \<open>\<open>None\<close> is \<open>errBadHash\<close>.\<close>

definition VerifyPassword :: "argon \<Rightarrow> string \<Rightarrow> string \<Rightarrow> bool option" where
  "VerifyPassword argon password encoded =
     (case split_at (CHR ''$'') encoded of
        [p0, p1, p2, p3, p4, p5] \<Rightarrow>
          if p1 \<noteq> ''argon2id'' then None else
          if scan_version p2 \<noteq> Some (int argonVersion) then None else
          (case scan_costs p3 of None \<Rightarrow> None | Some (m, t, p) \<Rightarrow>
             if m = 0 \<or> m > 512 * 1024 \<or> t = 0 \<or> t > 10 \<or> p = 0 \<or> p > 16 then None else
             (case dec64 std64_alphabet p4 of None \<Rightarrow> None | Some salt \<Rightarrow> if length salt < 8 then None else
              (case dec64 std64_alphabet p5 of None \<Rightarrow> None | Some want \<Rightarrow> if length want < 16 then None else
                 Some (argon password salt t m p (length want) = want))))
      | _ \<Rightarrow> None)"

subsection \<open>The policy\<close>

record text_env =
  tx_runes :: "string \<Rightarrow> nat list"
  tx_digit :: "nat \<Rightarrow> bool"
  tx_letter :: "nat \<Rightarrow> bool"
  tx_fold :: "string \<Rightarrow> string \<Rightarrow> bool"

datatype policy_error = TooShort | TooLong | IsTheUsername | OneCharacter | NoNumber | NoSymbol

text \<open>
  \<open>strings.Trim(password, password[:1]) == ""\<close>. The set is one byte: of ASCII it is that character, otherwise not a character on its own,
  which as a set is the replacement character.
\<close>

definition one_character :: "text_env \<Rightarrow> string \<Rightarrow> bool" where
  "one_character tx s = (if of_char (hd s) < (128 :: nat) then list_all (\<lambda>c. c = hd s) s else list_all (\<lambda>r. r = 0xFFFD) (tx_runes tx s))"

definition CheckPasswordPolicy :: "text_env \<Rightarrow> string \<Rightarrow> string \<Rightarrow> policy_error option" where
  "CheckPasswordPolicy tx username password =
     (if length password < MinPasswordLen then Some TooShort
      else if length password > MaxPasswordLen then Some TooLong
      else if tx_fold tx password username then Some IsTheUsername
      else if one_character tx password then Some OneCharacter
      else if \<not> list_ex (tx_digit tx) (tx_runes tx password) then Some NoNumber
      else if \<not> list_ex (\<lambda>r. \<not> tx_digit tx r \<and> \<not> tx_letter tx r) (tx_runes tx password) then Some NoSymbol
      else None)"

subsection \<open>What is stored is read back\<close>

lemma split_at_plain: "c \<notin> set s \<Longrightarrow> split_at c s = [s]"
  by (induction s) auto

lemma split_at_ne: "split_at c s \<noteq> []"
  by (induction s) (auto split: list.splits)

lemma split_at_part: "c \<notin> set s \<Longrightarrow> split_at c (s @ c # t) = s # split_at c t"
  by (induction s) (auto simp: split_at_ne)

lemma digit_chars: "char_of (48 :: nat) = CHR ''0''" "char_of (49 :: nat) = CHR ''1''" "char_of (50 :: nat) = CHR ''2''" "char_of (51 :: nat) = CHR ''3''"
    "char_of (52 :: nat) = CHR ''4''" "char_of (53 :: nat) = CHR ''5''" "char_of (54 :: nat) = CHR ''6''" "char_of (55 :: nat) = CHR ''7''"
    "char_of (56 :: nat) = CHR ''8''" "char_of (57 :: nat) = CHR ''9''"
  by code_simp+

lemma stored_numbers:
  "show_nat 19 = ''19''" "show_nat 65536 = ''65536''" "show_nat 2 = ''2''"
  by (simp_all add: show_nat.simps digit_chars)

lemma skip_space_none: "skip_space ''19'' = Some ''19''" "skip_space ''65536,t=2,p=2'' = Some ''65536,t=2,p=2''"
    "skip_space ''2,p=2'' = Some ''2,p=2''" "skip_space ''2'' = Some ''2''"
  by code_simp+

lemma read_numbers: "unsigned_decimal ''65536'' = Some 65536" "unsigned_decimal ''2'' = Some 2" "atoi ''19'' = Some 19"
  by code_simp+

lemma digits_of: "is_digit (CHR ''0'')" "is_digit (CHR ''1'')" "is_digit (CHR ''2'')" "is_digit (CHR ''3'')" "is_digit (CHR ''5'')" "is_digit (CHR ''6'')" "is_digit (CHR ''9'')"
    "\<not> is_digit (CHR '','')"
  by code_simp+

lemma stored_prefix: "scan_version ''v=19'' = Some 19" "scan_costs ''m=65536,t=2,p=2'' = Some (65536, 2, 2)"
  by (simp_all add: scan_version_def scan_costs_def literal_def scan_int_def scan_nat_def skip_space_none read_numbers digits_of)

lemma HashPassword_parts:
  "split_at (CHR ''$'') (the (HashPassword argon pw (Some salt))) =
     [[], ''argon2id'', ''v=19'', ''m=65536,t=2,p=2'', enc64 std64_alphabet salt, enc64 std64_alphabet (argon pw salt 2 65536 2 32)]"
proof -
  have d: "CHR ''$'' \<notin> set (enc64 std64_alphabet s)" for s
    using set_enc64[of std64_alphabet s] alphabets(6) by (auto simp: std64_alphabet_def)
  have "the (HashPassword argon pw (Some salt)) = [] @ CHR ''$'' # ''argon2id'' @ CHR ''$'' # ''v=19'' @ CHR ''$'' # ''m=65536,t=2,p=2'' @ CHR ''$'' #
      enc64 std64_alphabet salt @ CHR ''$'' # enc64 std64_alphabet (argon pw salt 2 65536 2 32)"
    by (simp add: HashPassword_def argonVersion_def ArgonMemoryKiB_def ArgonTime_def ArgonThreads_def argonKeyLen_def stored_numbers)
  then show ?thesis using d by (simp add: split_at_part split_at_plain del: append.simps)
qed

lemma VerifyPassword_stored:
  assumes "8 \<le> length salt" and "\<And>p s t m n k. length (argon p s t m n k) = k"
    and "HashPassword argon stored (Some salt) = Some h"
  shows "VerifyPassword argon pw h = Some (argon pw salt ArgonTime ArgonMemoryKiB ArgonThreads argonKeyLen
     = argon stored salt ArgonTime ArgonMemoryKiB ArgonThreads argonKeyLen)"
proof -
  have "split_at (CHR ''$'') h =
     [[], ''argon2id'', ''v=19'', ''m=65536,t=2,p=2'', enc64 std64_alphabet salt, enc64 std64_alphabet (argon stored salt 2 65536 2 32)]"
    using HashPassword_parts[of argon stored salt] assms(3) by simp
  then show ?thesis using assms(1,2)
    by (simp add: VerifyPassword_def stored_prefix dec64_enc64 argonVersion_def ArgonMemoryKiB_def ArgonTime_def ArgonThreads_def argonKeyLen_def)
qed

text \<open>
  C38. A stored password is read back exactly: with 8 bytes of salt or more, checking a password against the text made of another one is
  well-formed and succeeds exactly when both have the same argon2 key under that salt and the costs the code uses. In particular the
  password itself is always accepted.
\<close>

theorem stored_password_verifies:
  assumes "8 \<le> length salt" and "\<And>p s t m n k. length (argon p s t m n k) = k"
    and "HashPassword argon stored (Some salt) = Some h"
  shows "VerifyPassword argon pw h = Some (argon pw salt ArgonTime ArgonMemoryKiB ArgonThreads argonKeyLen
     = argon stored salt ArgonTime ArgonMemoryKiB ArgonThreads argonKeyLen)"
  using assms by (rule VerifyPassword_stored)

definition toy_argon :: argon where
  "toy_argon p s t m n k = take k (p @ replicate k (CHR 0x00))"

lemma toy_argon_length: "length (toy_argon p s t m n k) = k"
  by (simp add: toy_argon_def)

theorem stored_password_verifies_witness:
  "VerifyPassword toy_argon ''correct horse 1'' (the (HashPassword toy_argon ''correct horse 1'' (Some ''0123456789abcdef''))) = Some True
   \<and> VerifyPassword toy_argon ''wrong horse 22!'' (the (HashPassword toy_argon ''correct horse 1'' (Some ''0123456789abcdef''))) = Some False"
proof -
  have h: "HashPassword toy_argon ''correct horse 1'' (Some ''0123456789abcdef'') = Some (the (HashPassword toy_argon ''correct horse 1'' (Some ''0123456789abcdef'')))"
    by (simp add: HashPassword_def)
  have "VerifyPassword toy_argon p (the (HashPassword toy_argon ''correct horse 1'' (Some ''0123456789abcdef''))) =
      Some (toy_argon p ''0123456789abcdef'' ArgonTime ArgonMemoryKiB ArgonThreads argonKeyLen
        = toy_argon ''correct horse 1'' ''0123456789abcdef'' ArgonTime ArgonMemoryKiB ArgonThreads argonKeyLen)" for p
    using stored_password_verifies[OF _ toy_argon_length h] by simp
  moreover have "toy_argon ''wrong horse 22!'' ''0123456789abcdef'' ArgonTime ArgonMemoryKiB ArgonThreads argonKeyLen
      \<noteq> toy_argon ''correct horse 1'' ''0123456789abcdef'' ArgonTime ArgonMemoryKiB ArgonThreads argonKeyLen"
    by (simp add: toy_argon_def argonKeyLen_def)
  ultimately show ?thesis by simp
qed

text \<open>
  Whatever text is stored, checking a password never asks argon2 for more than 512 MiB, 10 passes or 16 threads.
\<close>

lemma VerifyPassword_costs:
  assumes "\<And>s t m n k. m \<le> 512 * 1024 \<Longrightarrow> 0 < t \<Longrightarrow> t \<le> 10 \<Longrightarrow> 0 < n \<Longrightarrow> n \<le> 16 \<Longrightarrow> 8 \<le> length s \<Longrightarrow> 16 \<le> k
      \<Longrightarrow> argon pw s t m n k = argon' pw s t m n k"
  shows "VerifyPassword argon pw h = VerifyPassword argon' pw h"
  unfolding VerifyPassword_def using assms by (auto split: list.split option.split prod.split)

lemma accepted_password_is_mixed:
  assumes "CheckPasswordPolicy tx u pw = None"
  shows "12 \<le> length pw" "length pw \<le> 128" "\<exists>r \<in> set (tx_runes tx pw). tx_digit tx r"
    "\<exists>r \<in> set (tx_runes tx pw). \<not> tx_digit tx r \<and> \<not> tx_letter tx r"
  using assms by (auto simp: CheckPasswordPolicy_def MinPasswordLen_def MaxPasswordLen_def list_ex_iff split: if_splits)

end
