(* ===== verification/SignIn.thy ===== *)
theory SignIn
  imports AccountStore Totp Limiter Password
begin

text \<open>
  Signing in (\<open>accounts/auth.go\<close>, \<open>accounts/webauthn.go\<close>): passwords, a second factor by an authenticator code, a recovery code, a code sent by mail or
  a passkey, sessions, personal tokens and the settings of an account that decide what a sign-in needs.

  A handler is a function from the state of the service to its reply and the new state. What a handler takes from outside is in \<open>call_io\<close>: which
  statements fail, the random bytes, whether a password worker is free, whether mail can be sent, the clock (read once per call) and the caller's address.
  \<open>login_env\<close> holds the code that is not in the repository (SHA-256, HMAC, argon2, the WebAuthn library, parsing of addresses and of mail
  addresses, Unicode tables, the text of the database's errors) and the stored text a name without account is checked against. Calls of one process run one after the other here; two that overlap are the subject of
  \<open>recovery_code_twice\<close>.
\<close>

subsection \<open>What calls take from outside\<close>

record relying_party =
  rp_ID :: string
  rp_Origin :: string
  rp_Name :: string

record login_env =
  le_codes :: code_env
  le_lower :: "string \<Rightarrow> string"
  le_limit_key :: "string \<Rightarrow> string"
  le_argon :: argon
  le_dummyHash :: string
  le_text :: text_env
  le_email :: "string \<Rightarrow> string option"
  le_quote :: "string \<Rightarrow> string"
  le_error_text :: "db_error \<Rightarrow> string"
  le_is_ip :: "string \<Rightarrow> bool"
  le_has_passkeys :: bool
  le_beginRegistration :: "relying_party \<Rightarrow> user \<Rightarrow> (string \<times> string) option"
  le_finishRegistration :: "relying_party \<Rightarrow> user \<Rightarrow> string \<Rightarrow> string \<Rightarrow> credential option"
  le_beginLogin :: "relying_party \<Rightarrow> user \<Rightarrow> (string \<times> string) option"
  le_finishLogin :: "relying_party \<Rightarrow> user \<Rightarrow> string \<Rightarrow> string \<Rightarrow> (string \<times> nat) option"

record call_io =
  io_fails :: "db_call \<Rightarrow> bool"
  io_rnd :: "string option"
  io_salt :: "string option"
  io_rnds :: "string option list"
  io_code :: "nat option"
  io_id :: string
  io_orgid :: string
  io_busy :: bool
  io_mail :: bool
  io_now :: time
  io_ip :: string

abbreviation HashSecret :: "login_env \<Rightarrow> string \<Rightarrow> string" where "HashSecret env \<equiv> ce_sha (le_codes env)"

subsection \<open>The state of the service\<close>

definition SessionIdle :: duration where "SessionIdle = 8 * hour"
definition SessionMax :: duration where "SessionMax = 7 * 24 * hour"
definition TouchEvery :: duration where "TouchEvery = minute"
definition PendingLoginTTL :: duration where "PendingLoginTTL = 5 * minute"
definition emailChallengeTTL :: duration where "emailChallengeTTL = 10 * minute"
definition emailResendCooldown :: duration where "emailResendCooldown = 60 * second"
definition webauthnCeremonyTTL :: duration where "webauthnCeremonyTTL = 5 * minute"
definition RecoveryCodeCount :: nat where "RecoveryCodeCount = 8"

record pending_login =
  pl_userID :: string
  pl_expiresAt :: time
  pl_methods :: "string list"

record email_challenge =
  ec_codeHash :: string
  ec_email :: string
  ec_expiresAt :: time
  ec_lastSent :: time

record passkey_session =
  ps_data :: string
  ps_expiresAt :: time

datatype mail_purpose = ToSignIn | ToConfirm

record accounts =
  ac_loginIP :: limiter
  ac_loginUser :: limiter
  ac_regIP :: limiter
  ac_regAll :: limiter
  ac_failures :: failure_tracker
  ac_pending :: "string \<rightharpoonup> pending_login"
  ac_email :: "string \<rightharpoonup> email_challenge"
  ac_passkeyReg :: "string \<rightharpoonup> passkey_session"
  ac_passkeyLogin :: "string \<rightharpoonup> passkey_session"
  ac_lastPurge :: "time option"
  ac_db :: acc_db
  ac_audit :: "audit_event list"
  ac_mail :: "(string \<times> mail_purpose \<times> string) list"

definition newAuthState :: "acc_db \<Rightarrow> accounts" where
  "newAuthState d = \<lparr>ac_loginIP = NewLimiter 30 10, ac_loginUser = NewLimiter 6 5, ac_regIP = NewLimiter 6 4, ac_regAll = NewLimiter 120 40,
     ac_failures = NewFailureTracker,
     ac_pending = Map.empty, ac_email = Map.empty, ac_passkeyReg = Map.empty, ac_passkeyLogin = Map.empty, ac_lastPurge = None,
     ac_db = d, ac_audit = [], ac_mail = []\<rparr>"

datatype two_factor_text = EnterCode | UsePasskey | UsePasskeyOrCode | CodeOrEmail | RequestByEmail | CodeFromApp

datatype passkey_error = PasskeysOff | NeedsDomainName | NameTooLong | RegistrationExpired | PasskeyRefused | PasskeyKnown | PasskeyNotVerified | NotAPasskeyID | NoSuchPasskey | CannotStart

datatype setting_error = WrongCurrentPassword | PolicyRefused | SamePassword | NotAllEnded bool bool | TwoFactorOn | TwoFactorOff | CodeNotRight | NotAnAddress | NoAddressWaiting | VerifyAddressFirst | EmailCodesOn | EmailCodesOff

datatype org_error = BadUsername | RegistrationClosed | InviteOnly | BadInvite | BadOrgName | UsernameTaken | SingleOrganisation | NotOpen | TooManyOrgs nat
  | AlreadyMember | BadLabel | BadRole | CannotInviteAs | AuditNotWritten | CannotWithdraw | NoSuchInvite

datatype member_error = OwnRole | CannotChangeRole | CannotRemove | KeepAnOwner | NoSuchMember | NoSuchOrg | MainOrganisation | NameNotTyped

datatype acc_error = TooManyAttempts | WrongCredentials | BackedOff wait_text | ServerBusy | NoRandom | DbErr db_error
  | TwoFactorRequired string "string list" two_factor_text | NoIdentity | NoSuchIdentity | SignInExpired | WrongCode | NotEmailMethod
  | CodeJustSent | MailNotSent | MailOff | SignInRequired | NoSuchToken | Passkey passkey_error | Setting setting_error | InOrg org_error | OfMember member_error

record principal =
  pr_User :: user
  pr_Org :: string
  pr_Role :: string
  pr_SessionHash :: string

type_synonym 'a reply = "(acc_error + 'a) \<times> accounts"

subsection \<open>The audit rows of a call\<close>

text \<open>\<open>strings.Map\<close> on a string that is UTF-8: a byte below 32 and the byte 127 are characters of their own.\<close>

definition Printable :: "string \<Rightarrow> nat \<Rightarrow> string" where
  "Printable s n = map (\<lambda>c. if of_char c < (32 :: nat) \<or> of_char c = (127 :: nat) then CHR 0x3F else c) (Cut s n)"

definition AuditRow :: "time \<Rightarrow> string \<Rightarrow> string \<Rightarrow> string \<Rightarrow> string \<Rightarrow> string \<Rightarrow> string \<Rightarrow> audit_event" where
  "AuditRow now org actor action kind i detail = \<lparr>ae_ID = 0, ae_At = Some now, ae_OrgID = org, ae_Actor = Printable actor 128,
     ae_Action = Printable action 64, ae_TargetKind = Printable kind 64, ae_TargetID = Printable i 128, ae_Detail = Printable detail 500\<rparr>"

definition AuditOrg :: "call_io \<Rightarrow> string \<Rightarrow> string \<Rightarrow> string \<Rightarrow> string \<Rightarrow> string \<Rightarrow> string \<Rightarrow> accounts \<Rightarrow> accounts" where
  "AuditOrg io org actor action kind i detail st =
     (if io_fails io QAudit then st else st\<lparr>ac_audit := ac_audit st @ [AuditRow (io_now io) org actor action kind i detail]\<rparr>)"

definition auditUser :: "call_io \<Rightarrow> user \<Rightarrow> string \<Rightarrow> string \<Rightarrow> string \<Rightarrow> accounts \<Rightarrow> accounts" where
  "auditUser io u action detail ip st =
     (let orgs = (case ListMyOrgs (io_fails io) (us_ID u) (ac_db st) of Inl e \<Rightarrow> [] | Inr os \<Rightarrow> os);
          st = fold (\<lambda>(g, r). AuditOrg io (og_ID g) (us_Username u) action ''user'' (us_ID u) detail) orgs st;
          server = (if ip = [] then detail else if detail = [] then ''from '' @ ip else detail @ '' from '' @ ip)
      in AuditOrg io [] (us_Username u) action ''user'' (us_ID u) server st)"

subsection \<open>A sign-in that waits for its second factor\<close>

definition sessionPrefix :: string where "sessionPrefix = ''cns_''"
definition pendingPrefix :: string where "pendingPrefix = ''cnp_''"

definition newSessionSecret :: "string option \<Rightarrow> string option" where
  "newSessionSecret rnd = map_option (\<lambda>b. sessionPrefix @ encode64 b) rnd"

definition newPendingSecret :: "string option \<Rightarrow> string option" where
  "newPendingSecret rnd = map_option (\<lambda>b. pendingPrefix @ encode64 b) rnd"

text \<open>The entries of a map that have not expired.\<close>

definition unexpired :: "('v \<Rightarrow> time) \<Rightarrow> time \<Rightarrow> (string \<rightharpoonup> 'v) \<Rightarrow> string \<rightharpoonup> 'v" where
  "unexpired expires now m = (\<lambda>k. case m k of None \<Rightarrow> None | Some v \<Rightarrow> if now > expires v then None else Some v)"

definition beginTwoFactor :: "call_io \<Rightarrow> string \<Rightarrow> string list \<Rightarrow> accounts \<Rightarrow> string option \<times> accounts" where
  "beginTwoFactor io user methods st = (case newPendingSecret (io_rnd io) of None \<Rightarrow> (None, st)
     | Some token \<Rightarrow> (Some token, st\<lparr>ac_pending := (unexpired pl_expiresAt (io_now io) (ac_pending st))(token \<mapsto>
         \<lparr>pl_userID = user, pl_expiresAt = io_now io + PendingLoginTTL, pl_methods = methods\<rparr>)\<rparr>))"

definition peekPendingLogin :: "time \<Rightarrow> string \<Rightarrow> accounts \<Rightarrow> pending_login option \<times> accounts" where
  "peekPendingLogin now token st = (case ac_pending st token of None \<Rightarrow> (None, st)
     | Some pl \<Rightarrow> if now > pl_expiresAt pl then (None, st\<lparr>ac_pending := (ac_pending st)(token := None)\<rparr>) else (Some pl, st))"

definition consumePendingLogin :: "string \<Rightarrow> accounts \<Rightarrow> accounts" where
  "consumePendingLogin token st = st\<lparr>ac_pending := (ac_pending st)(token := None)\<rparr>"

definition twoFactorMethods :: "user \<Rightarrow> string list" where
  "twoFactorMethods u = (if us_TOTPEnabledAt u \<noteq> None then [''totp''] else []) @ (if us_EmailOTPEnabledAt u \<noteq> None then [''email''] else [])
     @ (if us_WebAuthn u \<noteq> [] then [''webauthn''] else [])"

definition errTwoFactorRequired :: "string \<Rightarrow> string list \<Rightarrow> acc_error" where
  "errTwoFactorRequired pending methods =
     (let hasTOTP = ''totp'' \<in> set methods; hasEmail = ''email'' \<in> set methods; hasWebAuthn = ''webauthn'' \<in> set methods
      in TwoFactorRequired pending methods
        (if hasWebAuthn \<and> \<not> hasTOTP \<and> \<not> hasEmail then UsePasskey else if hasWebAuthn then UsePasskeyOrCode
         else if hasTOTP \<and> hasEmail then CodeOrEmail else if hasEmail then RequestByEmail else if hasTOTP then CodeFromApp else EnterCode))"

subsection \<open>Codes by mail\<close>

definition emailVerifySubject :: "string \<Rightarrow> string" where "emailVerifySubject user = ''verify:'' @ user"
definition emailLoginSubject :: "string \<Rightarrow> string" where "emailLoginSubject pending = ''login:'' @ pending"

definition beginEmailChallenge :: "login_env \<Rightarrow> call_io \<Rightarrow> string \<Rightarrow> string \<Rightarrow> accounts \<Rightarrow> string reply" where
  "beginEmailChallenge env io subject email st =
     (let now = io_now io; m = unexpired ec_expiresAt now (ac_email st); st = st\<lparr>ac_email := m\<rparr> in
      if (case m subject of None \<Rightarrow> False | Some prev \<Rightarrow> now - ec_lastSent prev < emailResendCooldown) then (Inl CodeJustSent, st)
      else (case NewEmailCode (io_code io) of None \<Rightarrow> (Inl NoRandom, st)
        | Some code \<Rightarrow> (Inr code, st\<lparr>ac_email := m(subject \<mapsto> \<lparr>ec_codeHash = emailCodeHash (le_codes env) code, ec_email = email,
            ec_expiresAt = now + emailChallengeTTL, ec_lastSent = now\<rparr>)\<rparr>)))"

definition checkEmailChallenge :: "login_env \<Rightarrow> time \<Rightarrow> string \<Rightarrow> string \<Rightarrow> accounts \<Rightarrow> bool \<times> accounts" where
  "checkEmailChallenge env now subject code st =
     (case ac_email st subject of None \<Rightarrow> (False, st\<lparr>ac_email := (ac_email st)(subject := None)\<rparr>)
      | Some ch \<Rightarrow> if now > ec_expiresAt ch then (False, st\<lparr>ac_email := (ac_email st)(subject := None)\<rparr>)
          else if \<not> emailCodeMatches (le_codes env) (ec_codeHash ch) code then (False, st)
          else (True, st\<lparr>ac_email := (ac_email st)(subject := None)\<rparr>))"

text \<open>\<open>send\<close>: what reaches the relay, if mail can be sent.\<close>

definition send_mail :: "call_io \<Rightarrow> string \<Rightarrow> mail_purpose \<Rightarrow> string \<Rightarrow> accounts \<Rightarrow> bool \<times> accounts" where
  "send_mail io addr purpose code st = (if io_mail io then (True, st\<lparr>ac_mail := ac_mail st @ [(addr, purpose, code)]\<rparr>) else (False, st))"

subsection \<open>Opening a session\<close>

definition openSession :: "login_env \<Rightarrow> call_io \<Rightarrow> user \<Rightarrow> accounts \<Rightarrow> string reply" where
  "openSession env io u st = (case newSessionSecret (io_rnd io) of None \<Rightarrow> (Inl NoRandom, st)
     | Some secret \<Rightarrow> (let now = io_now io in
         case CreateSession (io_fails io) (HashSecret env secret) (us_ID u) (io_ip io) now (now + SessionMax) (ac_db st) of
           Inl e \<Rightarrow> (Inl (DbErr e), st)
         | Inr d \<Rightarrow> (let st = st\<lparr>ac_db := MarkLogin (io_fails io) (us_ID u) now d\<rparr> in
             (Inr secret, if (case ac_lastPurge st of None \<Rightarrow> True | Some t \<Rightarrow> now - t > hour)
               then st\<lparr>ac_lastPurge := Some now, ac_db := PurgeSessions (io_fails io) (now - SessionIdle) (ac_db st)\<rparr> else st))))"

subsection \<open>Signing in\<close>

definition allowIP :: "login_env \<Rightarrow> call_io \<Rightarrow> accounts \<Rightarrow> bool \<times> accounts" where
  "allowIP env io st = (case Allow (le_limit_key env (io_ip io)) (io_now io) (ac_loginIP st) of (ok, l) \<Rightarrow> (ok, st\<lparr>ac_loginIP := l\<rparr>))"

definition allowUser :: "call_io \<Rightarrow> string \<Rightarrow> accounts \<Rightarrow> bool \<times> accounts" where
  "allowUser io key st = (case Allow key (io_now io) (ac_loginUser st) of (ok, l) \<Rightarrow> (ok, st\<lparr>ac_loginUser := l\<rparr>))"

definition blocked :: "call_io \<Rightarrow> string \<Rightarrow> accounts \<Rightarrow> duration \<times> accounts" where
  "blocked io name st = (case Blocked name (io_now io) (ac_failures st) of (w, t) \<Rightarrow> (w, st\<lparr>ac_failures := t\<rparr>))"

definition note_failure :: "call_io \<Rightarrow> string \<Rightarrow> accounts \<Rightarrow> accounts" where
  "note_failure io name st = st\<lparr>ac_failures := snd (Fail name (io_now io) (ac_failures st))\<rparr>"

definition note_success :: "string \<Rightarrow> accounts \<Rightarrow> accounts" where
  "note_success name st = st\<lparr>ac_failures := Succeed name (ac_failures st)\<rparr>"

definition login_failed :: "call_io \<Rightarrow> string \<Rightarrow> string \<Rightarrow> accounts \<Rightarrow> accounts" where
  "login_failed io name detail st = AuditOrg io [] ''anonymous'' ''login-failed'' ''user'' (Printable name 64) detail st"

text \<open>\<open>verifyPassword\<close>: \<open>None\<close> when no worker is free in time, otherwise whether the password is that of the hash.\<close>

definition verifyPassword :: "login_env \<Rightarrow> call_io \<Rightarrow> string \<Rightarrow> string \<Rightarrow> bool option" where
  "verifyPassword env io pw hash = (if io_busy io then None else Some (VerifyPassword (le_argon env) pw hash = Some True))"

definition hashPassword :: "login_env \<Rightarrow> call_io \<Rightarrow> string \<Rightarrow> acc_error + string" where
  "hashPassword env io pw = (if io_busy io then Inl ServerBusy else case HashPassword (le_argon env) pw (io_salt io) of None \<Rightarrow> Inl NoRandom | Some hash \<Rightarrow> Inr hash)"

definition Login :: "login_env \<Rightarrow> call_io \<Rightarrow> string \<Rightarrow> string \<Rightarrow> accounts \<Rightarrow> (string \<times> user) reply" where
  "Login env io username password st =
     (let name = le_lower env (trim_space username); key = le_limit_key env (io_ip io) in
      case allowIP env io st of (ok, st) \<Rightarrow> if \<not> ok then (Inl TooManyAttempts, st) else
      case allowUser io (key @ ''|'' @ name) st of (ok, st) \<Rightarrow> if \<not> ok then (Inl TooManyAttempts, st) else
      if length password > MaxPasswordLen \<or> length name > 64 then (Inl WrongCredentials, st) else
      case blocked io name st of (wait, st) \<Rightarrow> if wait > 0 then (Inl (BackedOff (RoundWait wait)), st) else
      let gu = GetUserByName (io_fails io) name (ac_db st);
          hash = (case gu of Inl e \<Rightarrow> le_dummyHash env | Inr u \<Rightarrow> us_PasswordHash u)
      in case verifyPassword env io password hash of None \<Rightarrow> (Inl ServerBusy, st) | Some ok \<Rightarrow>
      case (case gu of Inl e \<Rightarrow> None | Inr u \<Rightarrow> if \<not> ok \<or> us_DisabledAt u \<noteq> None then None else Some u) of
        None \<Rightarrow> (Inl WrongCredentials, login_failed io name (''from '' @ io_ip io) (note_failure io name st))
      | Some u \<Rightarrow>
          if twoFactorMethods u \<noteq> [] then
            (case beginTwoFactor io (us_ID u) (twoFactorMethods u) st of (None, st) \<Rightarrow> (Inl NoRandom, st)
             | (Some pending, st) \<Rightarrow> (Inl (errTwoFactorRequired pending (twoFactorMethods u)), st))
          else (case openSession env io u (note_success name st) of (Inl e, st) \<Rightarrow> (Inl e, st)
             | (Inr secret, st) \<Rightarrow> (Inr (secret, u), auditUser io u ''login'' [] (io_ip io) st)))"

definition LoginSSO :: "login_env \<Rightarrow> call_io \<Rightarrow> string \<Rightarrow> accounts \<Rightarrow> (string \<times> user) reply" where
  "LoginSSO env io asserted st =
     (let name = le_lower env (trim_space asserted) in
      if name = [] \<or> length name > 64 then (Inl NoIdentity, st) else
      case allowIP env io st of (ok, st) \<Rightarrow> if \<not> ok then (Inl TooManyAttempts, st) else
      case (case GetUserByName (io_fails io) name (ac_db st) of Inl e \<Rightarrow> None | Inr u \<Rightarrow> if us_DisabledAt u \<noteq> None then None else Some u) of
        None \<Rightarrow> (Inl NoSuchIdentity, login_failed io name (''sso, from '' @ io_ip io) st)
      | Some u \<Rightarrow> (case openSession env io u st of (Inl e, st) \<Rightarrow> (Inl e, st)
          | (Inr secret, st) \<Rightarrow> (Inr (secret, u), auditUser io u ''login-sso'' [] (io_ip io) st)))"

text \<open>\<open>Login2FA\<close> up to the account it is about, the matching of the code, and what follows a match.\<close>

definition login2fa_user :: "login_env \<Rightarrow> call_io \<Rightarrow> string \<Rightarrow> accounts \<Rightarrow> user reply" where
  "login2fa_user env io pending st =
     (case allowIP env io st of (ok, st) \<Rightarrow> if \<not> ok then (Inl TooManyAttempts, st) else
      case peekPendingLogin (io_now io) pending st of (None, st) \<Rightarrow> (Inl SignInExpired, st) | (Some pl, st) \<Rightarrow>
      case GetUser (io_fails io) (pl_userID pl) (ac_db st) of Inl e \<Rightarrow> (Inl SignInExpired, st) | Inr u \<Rightarrow>
      if us_DisabledAt u \<noteq> None \<or> twoFactorMethods u = [] then (Inl SignInExpired, st) else
      case allowUser io (le_limit_key env (io_ip io) @ ''|'' @ us_Username u) st of (ok, st) \<Rightarrow> if \<not> ok then (Inl TooManyAttempts, st) else
      case blocked io (us_Username u) st of (wait, st) \<Rightarrow> if wait > 0 then (Inl (BackedOff (RoundWait wait)), st) else (Inr u, st))"

datatype code_match = NoMatch | ByTOTP | ByRecovery nat | ByEmail

definition match_code :: "login_env \<Rightarrow> call_io \<Rightarrow> user \<Rightarrow> string \<Rightarrow> string \<Rightarrow> accounts \<Rightarrow> code_match reply" where
  "match_code env io u pending code st =
     (let on = (us_TOTPEnabledAt u \<noteq> None);
          rec = (if on then consumeRecoveryCode (le_codes env) (us_TOTPRecovery u) code else (us_TOTPRecovery u, False)) in
      if on \<and> VerifyTOTP (le_codes env) (us_TOTPSecret u) code (io_now io) then (Inr ByTOTP, st)
      else if snd rec then
        (case SetTOTP (io_fails io) (us_ID u) (us_TOTPSecret u) (us_TOTPEnabledAt u) (fst rec) (ac_db st) of
           Inl e \<Rightarrow> (Inl (DbErr e), st) | Inr d \<Rightarrow> (Inr (ByRecovery (length (fst rec))), st\<lparr>ac_db := d\<rparr>))
      else if us_EmailOTPEnabledAt u \<noteq> None then
        (case checkEmailChallenge env (io_now io) (emailLoginSubject pending) code st of (ok, st) \<Rightarrow> (Inr (if ok then ByEmail else NoMatch), st))
      else (Inr NoMatch, st))"

definition via_text :: "code_match \<Rightarrow> string" where
  "via_text m = (case m of ByRecovery n \<Rightarrow> ''with a recovery code ('' @ show_nat n @ '' left)''
     | ByEmail \<Rightarrow> ''with an emailed code'' | _ \<Rightarrow> ''with a two-factor code'')"

definition login2fa_finish :: "login_env \<Rightarrow> call_io \<Rightarrow> user \<Rightarrow> string \<Rightarrow> string \<Rightarrow> accounts \<Rightarrow> (string \<times> user) reply" where
  "login2fa_finish env io u pending code st =
     (case match_code env io u pending code st of (Inl e, st) \<Rightarrow> (Inl e, st) | (Inr m, st) \<Rightarrow>
      if m = NoMatch then
        (Inl WrongCode, login_failed io (us_Username u) (''wrong two-factor code from '' @ io_ip io) (note_failure io (us_Username u) st))
      else case openSession env io u (consumePendingLogin pending (note_success (us_Username u) st)) of (Inl e, st) \<Rightarrow> (Inl e, st)
        | (Inr secret, st) \<Rightarrow> (Inr (secret, u), auditUser io u ''login'' (via_text m) (io_ip io) st))"

definition Login2FA :: "login_env \<Rightarrow> call_io \<Rightarrow> string \<Rightarrow> string \<Rightarrow> accounts \<Rightarrow> (string \<times> user) reply" where
  "Login2FA env io pending code st =
     (case login2fa_user env io pending st of (Inl e, st) \<Rightarrow> (Inl e, st) | (Inr u, st) \<Rightarrow> login2fa_finish env io u pending code st)"

definition RequestLoginEmailCode :: "login_env \<Rightarrow> call_io \<Rightarrow> string \<Rightarrow> accounts \<Rightarrow> unit reply" where
  "RequestLoginEmailCode env io pending st =
     (case allowIP env io st of (ok, st) \<Rightarrow> if \<not> ok then (Inl TooManyAttempts, st) else
      case peekPendingLogin (io_now io) pending st of (None, st) \<Rightarrow> (Inl SignInExpired, st) | (Some pl, st) \<Rightarrow>
      if ''email'' \<notin> set (pl_methods pl) then (Inl NotEmailMethod, st) else
      case GetUser (io_fails io) (pl_userID pl) (ac_db st) of Inl e \<Rightarrow> (Inl NotEmailMethod, st) | Inr u \<Rightarrow>
      if us_EmailOTPEnabledAt u = None \<or> us_Email u = [] then (Inl NotEmailMethod, st) else
      case beginEmailChallenge env io (emailLoginSubject pending) (us_Email u) st of (Inl e, st) \<Rightarrow> (Inl e, st) | (Inr code, st) \<Rightarrow>
      case send_mail io (us_Email u) ToSignIn code st of (ok, st) \<Rightarrow> if ok then (Inr (), st) else (Inl MailNotSent, st))"

subsection \<open>Passkeys\<close>

definition putPasskey :: "time \<Rightarrow> string \<Rightarrow> string \<Rightarrow> (string \<rightharpoonup> passkey_session) \<Rightarrow> string \<rightharpoonup> passkey_session" where
  "putPasskey now key session m = (unexpired ps_expiresAt now m)(key \<mapsto> \<lparr>ps_data = session, ps_expiresAt = now + webauthnCeremonyTTL\<rparr>)"

definition takePasskey :: "time \<Rightarrow> string \<Rightarrow> (string \<rightharpoonup> passkey_session) \<Rightarrow> string option \<times> (string \<rightharpoonup> passkey_session)" where
  "takePasskey now key m = ((case m key of None \<Rightarrow> None | Some s \<Rightarrow> if now > ps_expiresAt s then None else Some (ps_data s)), m(key := None))"

definition BeginPasskeyLogin :: "login_env \<Rightarrow> call_io \<Rightarrow> string \<Rightarrow> relying_party \<Rightarrow> accounts \<Rightarrow> string reply" where
  "BeginPasskeyLogin env io pending rp st =
     (if \<not> le_has_passkeys env then (Inl (Passkey PasskeysOff), st) else if le_is_ip env (rp_ID rp) then (Inl (Passkey NeedsDomainName), st) else
      case allowIP env io st of (ok, st) \<Rightarrow> if \<not> ok then (Inl TooManyAttempts, st) else
      case peekPendingLogin (io_now io) pending st of (None, st) \<Rightarrow> (Inl SignInExpired, st) | (Some pl, st) \<Rightarrow>
      if ''webauthn'' \<notin> set (pl_methods pl) then (Inl SignInExpired, st) else
      case GetUser (io_fails io) (pl_userID pl) (ac_db st) of Inl e \<Rightarrow> (Inl SignInExpired, st) | Inr u \<Rightarrow>
      if us_WebAuthn u = [] then (Inl SignInExpired, st) else
      case le_beginLogin env rp u of None \<Rightarrow> (Inl (Passkey CannotStart), st)
      | Some (options, session) \<Rightarrow> (Inr options, st\<lparr>ac_passkeyLogin := putPasskey (io_now io) pending session (ac_passkeyLogin st)\<rparr>))"

definition FinishPasskeyLogin :: "login_env \<Rightarrow> call_io \<Rightarrow> string \<Rightarrow> relying_party \<Rightarrow> string \<Rightarrow> accounts \<Rightarrow> (string \<times> user) reply" where
  "FinishPasskeyLogin env io pending rp response st =
     (if \<not> le_has_passkeys env then (Inl (Passkey PasskeysOff), st) else
      case allowIP env io st of (ok, st) \<Rightarrow> if \<not> ok then (Inl TooManyAttempts, st) else
      case peekPendingLogin (io_now io) pending st of (None, st) \<Rightarrow> (Inl SignInExpired, st) | (Some pl, st) \<Rightarrow>
      if ''webauthn'' \<notin> set (pl_methods pl) then (Inl SignInExpired, st) else
      case GetUser (io_fails io) (pl_userID pl) (ac_db st) of Inl e \<Rightarrow> (Inl SignInExpired, st) | Inr u \<Rightarrow>
      if us_DisabledAt u \<noteq> None \<or> us_WebAuthn u = [] then (Inl SignInExpired, st) else
      case allowUser io (le_limit_key env (io_ip io) @ ''|'' @ us_Username u) st of (ok, st) \<Rightarrow> if \<not> ok then (Inl TooManyAttempts, st) else
      case blocked io (us_Username u) st of (wait, st) \<Rightarrow> if wait > 0 then (Inl (BackedOff (RoundWait wait)), st) else
      case takePasskey (io_now io) pending (ac_passkeyLogin st) of (sess, m) \<Rightarrow>
      case sess of None \<Rightarrow> (Inl SignInExpired, st\<lparr>ac_passkeyLogin := m\<rparr>) | Some session \<Rightarrow>
      let st = st\<lparr>ac_passkeyLogin := m\<rparr> in
      case le_finishLogin env rp u session response of
        None \<Rightarrow> (Inl (Passkey PasskeyNotVerified), login_failed io (us_Username u) (''wrong passkey from '' @ io_ip io) (note_failure io (us_Username u) st))
      | Some (cred, signCount) \<Rightarrow>
          let st = consumePendingLogin pending (note_success (us_Username u) st) in
          case TouchWebAuthnCredential (io_fails io) (us_ID u) cred signCount (io_now io) (ac_db st) of Inl e \<Rightarrow> (Inl (DbErr e), st)
          | Inr d \<Rightarrow> (case openSession env io u (st\<lparr>ac_db := d\<rparr>) of (Inl e, st) \<Rightarrow> (Inl e, st)
              | (Inr secret, st) \<Rightarrow> (Inr (secret, u), auditUser io u ''login'' ''with a passkey'' (io_ip io) st)))"

definition BeginPasskeyRegistration :: "login_env \<Rightarrow> call_io \<Rightarrow> principal \<Rightarrow> relying_party \<Rightarrow> accounts \<Rightarrow> string reply" where
  "BeginPasskeyRegistration env io p rp st =
     (if \<not> le_has_passkeys env then (Inl (Passkey PasskeysOff), st) else if le_is_ip env (rp_ID rp) then (Inl (Passkey NeedsDomainName), st) else
      case allowUser io (''2fa-setup|'' @ us_ID (pr_User p)) st of (ok, st) \<Rightarrow> if \<not> ok then (Inl TooManyAttempts, st) else
      case GetUser (io_fails io) (us_ID (pr_User p)) (ac_db st) of Inl e \<Rightarrow> (Inl SignInRequired, st) | Inr u \<Rightarrow>
      case le_beginRegistration env rp u of None \<Rightarrow> (Inl (Passkey CannotStart), st)
      | Some (options, session) \<Rightarrow> (Inr options, st\<lparr>ac_passkeyReg := putPasskey (io_now io) (us_ID u) session (ac_passkeyReg st)\<rparr>))"

definition maxPasskeyName :: nat where "maxPasskeyName = 60"

definition FinishPasskeyRegistration :: "login_env \<Rightarrow> call_io \<Rightarrow> principal \<Rightarrow> relying_party \<Rightarrow> string \<Rightarrow> string \<Rightarrow> accounts \<Rightarrow> unit reply" where
  "FinishPasskeyRegistration env io p rp name response st =
     (if \<not> le_has_passkeys env then (Inl (Passkey PasskeysOff), st) else
      let name = trim_space name in
      if length (tx_runes (le_text env) name) > maxPasskeyName then (Inl (Passkey NameTooLong), st) else
      case GetUser (io_fails io) (us_ID (pr_User p)) (ac_db st) of Inl e \<Rightarrow> (Inl SignInRequired, st) | Inr u \<Rightarrow>
      let name = (if name = [] then ''Passkey '' @ show_nat (length (us_WebAuthn u) + 1) else name) in
      case takePasskey (io_now io) (us_ID (pr_User p)) (ac_passkeyReg st) of (sess, m) \<Rightarrow>
      let st = st\<lparr>ac_passkeyReg := m\<rparr> in
      case sess of None \<Rightarrow> (Inl (Passkey RegistrationExpired), st) | Some session \<Rightarrow>
      case le_finishRegistration env rp u session response of None \<Rightarrow> (Inl (Passkey PasskeyRefused), st) | Some cred \<Rightarrow>
      case AddWebAuthnCredential (io_fails io) (us_ID u) (cred\<lparr>cr_Name := name, cr_CreatedAt := io_now io\<rparr>) (ac_db st) of
        Inl e \<Rightarrow> (Inl (if e = DbExists then (Passkey PasskeyKnown) else DbErr e), st)
      | Inr d \<Rightarrow> (Inr (), auditUser io u ''passkey-added'' name [] (st\<lparr>ac_db := d\<rparr>)))"

definition RenamePasskey :: "login_env \<Rightarrow> call_io \<Rightarrow> principal \<Rightarrow> string \<Rightarrow> string \<Rightarrow> accounts \<Rightarrow> unit reply" where
  "RenamePasskey env io p cred64 name st =
     (case allowUser io (''2fa-setup|'' @ us_ID (pr_User p)) st of (ok, st) \<Rightarrow> if \<not> ok then (Inl TooManyAttempts, st) else
      let name = trim_space name in
      if name = [] \<or> length (tx_runes (le_text env) name) > maxPasskeyName then (Inl (Passkey NameTooLong), st) else
      case decode64 cred64 of None \<Rightarrow> (Inl (Passkey NotAPasskeyID), st) | Some cred \<Rightarrow>
      case RenameWebAuthnCredential (io_fails io) (us_ID (pr_User p)) cred name (ac_db st) of
        Inl e \<Rightarrow> (Inl (if e = DbNotFound then (Passkey NoSuchPasskey) else DbErr e), st) | Inr d \<Rightarrow> (Inr (), st\<lparr>ac_db := d\<rparr>))"

text \<open>
  What the handlers that take a password from a signed-in person begin with: the attempt is counted, the account read and the password checked.
\<close>

definition with_password :: "login_env \<Rightarrow> call_io \<Rightarrow> principal \<Rightarrow> string \<Rightarrow> accounts \<Rightarrow> user reply" where
  "with_password env io p password st =
     (case allowUser io (''2fa-setup|'' @ us_ID (pr_User p)) st of (ok, st) \<Rightarrow> if \<not> ok then (Inl TooManyAttempts, st) else
      case GetUser (io_fails io) (us_ID (pr_User p)) (ac_db st) of Inl e \<Rightarrow> (Inl SignInRequired, st) | Inr u \<Rightarrow>
      if verifyPassword env io password (us_PasswordHash u) \<noteq> Some True then (Inl (Setting WrongCurrentPassword), st) else (Inr u, st))"

definition RemovePasskey :: "login_env \<Rightarrow> call_io \<Rightarrow> principal \<Rightarrow> string \<Rightarrow> string \<Rightarrow> accounts \<Rightarrow> unit reply" where
  "RemovePasskey env io p cred64 password st =
     (case with_password env io p password st of (Inl e, st) \<Rightarrow> (Inl e, st) | (Inr u, st) \<Rightarrow>
      case decode64 cred64 of None \<Rightarrow> (Inl (Passkey NotAPasskeyID), st) | Some cred \<Rightarrow>
      case RemoveWebAuthnCredential (io_fails io) (us_ID u) cred (ac_db st) of
        Inl e \<Rightarrow> (Inl (if e = DbNotFound then (Passkey NoSuchPasskey) else DbErr e), st)
      | Inr d \<Rightarrow> (Inr (), auditUser io u ''passkey-removed'' [] [] (st\<lparr>ac_db := d\<rparr>)))"

subsection \<open>Sessions and tokens\<close>

definition Authenticate :: "login_env \<Rightarrow> call_io \<Rightarrow> string \<Rightarrow> accounts \<Rightarrow> principal reply" where
  "Authenticate env io secret st =
     (if \<not> prefix sessionPrefix secret \<or> length secret \<noteq> length sessionPrefix + 43 then (Inl SignInRequired, st) else
      let h = HashSecret env secret; now = io_now io in
      case LookupSession (io_fails io) h (ac_db st) of Inl e \<Rightarrow> (Inl SignInRequired, st) | Inr (se, u) \<Rightarrow>
      if now > of_msec (sw_ExpiresAt se) \<or> now - of_msec (sw_LastUsed se) > SessionIdle \<or> us_DisabledAt u \<noteq> None
      then (Inl SignInRequired, st\<lparr>ac_db := DeleteSession (io_fails io) h (ac_db st)\<rparr>)
      else (Inr \<lparr>pr_User = u, pr_Org = [], pr_Role = [], pr_SessionHash = h\<rparr>,
        if now - of_msec (sw_LastUsed se) > TouchEvery then st\<lparr>ac_db := TouchSession (io_fails io) h now (ac_db st)\<rparr> else st))"

definition Logout :: "call_io \<Rightarrow> principal \<Rightarrow> accounts \<Rightarrow> accounts" where
  "Logout io p st = auditUser io (pr_User p) ''logout'' [] [] (st\<lparr>ac_db := DeleteSession (io_fails io) (pr_SessionHash p) (ac_db st)\<rparr>)"

definition MaxAPITokenNameLen :: nat where "MaxAPITokenNameLen = 80"
definition PatPrefix :: string where "PatPrefix = ''cnk_''"

definition NewAPITokenSecret :: "string option \<Rightarrow> string option" where
  "NewAPITokenSecret rnd = map_option (\<lambda>b. PatPrefix @ encode64 b) rnd"

definition LooksLikeAPIToken :: "string \<Rightarrow> bool" where
  "LooksLikeAPIToken s = (prefix PatPrefix s \<and> length s = length PatPrefix + 43 \<and> decode64 (drop (length PatPrefix) s) \<noteq> None)"

definition CreateToken :: "login_env \<Rightarrow> call_io \<Rightarrow> principal \<Rightarrow> string \<Rightarrow> accounts \<Rightarrow> (string \<times> api_token) reply" where
  "CreateToken env io p name st =
     (let name = trim_space name; name = (if name = [] then ''Unnamed token'' else name); name = take MaxAPITokenNameLen name in
      case NewAPITokenSecret (io_rnd io) of None \<Rightarrow> (Inl NoRandom, st) | Some secret \<Rightarrow>
      let now = io_now io; i = ''pat-'' @ hex (io_id io); u = pr_User p in
      case CreateAPIToken (io_fails io) i (HashSecret env secret) (us_ID u) name now (ac_db st) of Inl e \<Rightarrow> (Inl (DbErr e), st) | Inr d \<Rightarrow>
      (Inr (secret, \<lparr>tk_ID = i, tk_UserID = us_ID u, tk_Hash = [], tk_Name = name, tk_CreatedAt = msec now, tk_LastUsed = None\<rparr>),
       auditUser io u ''api-token-create'' name [] (st\<lparr>ac_db := d\<rparr>)))"

definition RevokeToken :: "call_io \<Rightarrow> principal \<Rightarrow> string \<Rightarrow> accounts \<Rightarrow> unit reply" where
  "RevokeToken io p i st = (case RevokeAPIToken (io_fails io) (us_ID (pr_User p)) i (ac_db st) of
       Inl e \<Rightarrow> (Inl (if e = DbNotFound then NoSuchToken else DbErr e), st)
     | Inr d \<Rightarrow> (Inr (), auditUser io (pr_User p) ''api-token-revoke'' i [] (st\<lparr>ac_db := d\<rparr>)))"

definition AuthenticateAPIToken :: "login_env \<Rightarrow> call_io \<Rightarrow> string \<Rightarrow> accounts \<Rightarrow> principal reply" where
  "AuthenticateAPIToken env io secret st =
     (if \<not> LooksLikeAPIToken secret then (Inl SignInRequired, st) else
      let h = HashSecret env secret; now = io_now io in
      case LookupAPIToken (io_fails io) h (ac_db st) of Inl e \<Rightarrow> (Inl SignInRequired, st) | Inr (tok, u) \<Rightarrow>
      if us_DisabledAt u \<noteq> None then (Inl SignInRequired, st)
      else (Inr \<lparr>pr_User = u, pr_Org = [], pr_Role = [], pr_SessionHash = h\<rparr>,
        if (case tk_LastUsed tok of None \<Rightarrow> True | Some l \<Rightarrow> now - of_msec l > TouchEvery)
        then st\<lparr>ac_db := TouchAPIToken (io_fails io) h now (ac_db st)\<rparr> else st))"

subsection \<open>The settings of an account\<close>

fun revoke_each :: "(db_call \<Rightarrow> bool) \<Rightarrow> string \<Rightarrow> api_token list \<Rightarrow> acc_db \<Rightarrow> nat \<times> db_error option \<times> acc_db" where
  "revoke_each fl user [] d = (0, None, d)"
| "revoke_each fl user (t # ts) d = (case RevokeAPIToken fl user (tk_ID t) d of
      Inl e \<Rightarrow> (case revoke_each fl user ts d of (n, err, d) \<Rightarrow> (n, Some e, d))
    | Inr d \<Rightarrow> (case revoke_each fl user ts d of (n, err, d) \<Rightarrow> (n + 1, err, d)))"

definition revokeAPITokens :: "(db_call \<Rightarrow> bool) \<Rightarrow> string \<Rightarrow> acc_db \<Rightarrow> nat \<times> db_error option \<times> acc_db" where
  "revokeAPITokens fl user d = (case ListAPITokens fl user d of Inl e \<Rightarrow> (0, Some e, d) | Inr ts \<Rightarrow> revoke_each fl user ts d)"

text \<open>
  \<open>ChangePassword\<close>. What could not be ended is the answer's two flags, the other sessions and the tokens, and the detail of the audit row; the
  English of that detail is made of both.
\<close>

definition change_detail :: "nat \<Rightarrow> bool \<Rightarrow> bool \<Rightarrow> string" where
  "change_detail n left_sessions left_tokens =
     (let detail = (if n > 0 then show_nat n @ '' personal API token(s) revoked'' else []);
          left = (if left_sessions then [''the other sessions''] else []) @ (if left_tokens then [''the personal API tokens''] else [])
      in if left = [] then detail
         else trim_space (detail @ '' (could not end '' @ (case left of [a, b] \<Rightarrow> a @ '' and '' @ b | _ \<Rightarrow> concat left) @ '')''))"

definition ChangePassword :: "login_env \<Rightarrow> call_io \<Rightarrow> principal \<Rightarrow> string \<Rightarrow> string \<Rightarrow> accounts \<Rightarrow> unit reply" where
  "ChangePassword env io p current new st =
     (let fl = io_fails io in
      case allowUser io (''pw|'' @ us_ID (pr_User p)) st of (ok, st) \<Rightarrow> if \<not> ok then (Inl TooManyAttempts, st) else
      case GetUser fl (us_ID (pr_User p)) (ac_db st) of Inl e \<Rightarrow> (Inl SignInRequired, st) | Inr u \<Rightarrow>
      if verifyPassword env io current (us_PasswordHash u) \<noteq> Some True
      then (Inl (Setting WrongCurrentPassword), auditUser io u ''password-change-refused'' ''current password was wrong'' [] st) else
      if CheckPasswordPolicy (le_text env) (us_Username u) new \<noteq> None then (Inl (Setting PolicyRefused), st) else if current = new then (Inl (Setting SamePassword), st) else
      case hashPassword env io new of Inl e \<Rightarrow> (Inl e, st) | Inr hash \<Rightarrow>
      case SetPassword fl (us_ID u) hash False (ac_db st) of Inl e \<Rightarrow> (Inl (DbErr e), st) | Inr d \<Rightarrow>
      case (case DeleteUserSessions fl (us_ID u) (pr_SessionHash p) d of Inl e \<Rightarrow> (True, d) | Inr d \<Rightarrow> (False, d)) of (left_sessions, d) \<Rightarrow>
      case revokeAPITokens fl (us_ID u) d of (n, terr, d) \<Rightarrow>
      let st = auditUser io u ''password-changed'' (change_detail n left_sessions (terr \<noteq> None)) [] (st\<lparr>ac_db := d\<rparr>)
      in if left_sessions \<or> terr \<noteq> None then (Inl (Setting (NotAllEnded left_sessions (terr \<noteq> None))), st) else (Inr (), st))"

definition Setup2FA :: "call_io \<Rightarrow> principal \<Rightarrow> accounts \<Rightarrow> string reply" where
  "Setup2FA io p st =
     (case allowUser io (''2fa-setup|'' @ us_ID (pr_User p)) st of (ok, st) \<Rightarrow> if \<not> ok then (Inl TooManyAttempts, st) else
      if us_TOTPEnabledAt (pr_User p) \<noteq> None then (Inl (Setting TwoFactorOn), st) else
      case NewTOTPSecret (io_rnd io) of None \<Rightarrow> (Inl NoRandom, st) | Some secret \<Rightarrow>
      case SetTOTP (io_fails io) (us_ID (pr_User p)) secret None [] (ac_db st) of Inl e \<Rightarrow> (Inl (DbErr e), st)
      | Inr d \<Rightarrow> (Inr secret, st\<lparr>ac_db := d\<rparr>))"

definition Enable2FA :: "login_env \<Rightarrow> call_io \<Rightarrow> principal \<Rightarrow> string \<Rightarrow> accounts \<Rightarrow> string list reply" where
  "Enable2FA env io p code st =
     (case allowUser io (''2fa-setup|'' @ us_ID (pr_User p)) st of (ok, st) \<Rightarrow> if \<not> ok then (Inl TooManyAttempts, st) else
      case GetUser (io_fails io) (us_ID (pr_User p)) (ac_db st) of Inl e \<Rightarrow> (Inl SignInRequired, st) | Inr u \<Rightarrow>
      if us_TOTPEnabledAt u \<noteq> None then (Inl (Setting TwoFactorOn), st) else
      if us_TOTPSecret u = [] \<or> \<not> VerifyTOTP (le_codes env) (us_TOTPSecret u) code (io_now io) then (Inl (Setting CodeNotRight), st) else
      case NewRecoveryCodes (le_codes env) (take RecoveryCodeCount (io_rnds io)) of None \<Rightarrow> (Inl NoRandom, st) | Some (codes, hashes) \<Rightarrow>
      case SetTOTP (io_fails io) (us_ID u) (us_TOTPSecret u) (Some (io_now io)) hashes (ac_db st) of Inl e \<Rightarrow> (Inl (DbErr e), st)
      | Inr d \<Rightarrow> (Inr codes, auditUser io u ''2fa-enabled'' [] [] (st\<lparr>ac_db := d\<rparr>)))"

definition Disable2FA :: "login_env \<Rightarrow> call_io \<Rightarrow> principal \<Rightarrow> string \<Rightarrow> accounts \<Rightarrow> unit reply" where
  "Disable2FA env io p password st =
     (case with_password env io p password st of (Inl e, st) \<Rightarrow> (Inl e, st) | (Inr u, st) \<Rightarrow>
      if us_TOTPEnabledAt u = None then (Inl (Setting TwoFactorOff), st) else
      case SetTOTP (io_fails io) (us_ID u) [] None [] (ac_db st) of Inl e \<Rightarrow> (Inl (DbErr e), st)
      | Inr d \<Rightarrow> (Inr (), auditUser io u ''2fa-disabled'' [] [] (st\<lparr>ac_db := d\<rparr>)))"

definition validEmail :: "login_env \<Rightarrow> string \<Rightarrow> string option" where
  "validEmail env s = (let s = trim_space s in if s = [] \<or> length s > 254 then None else le_email env s)"

definition RequestEmailVerification :: "login_env \<Rightarrow> call_io \<Rightarrow> bool \<Rightarrow> principal \<Rightarrow> string \<Rightarrow> accounts \<Rightarrow> unit reply" where
  "RequestEmailVerification env io mail_on p email st =
     (if \<not> mail_on then (Inl MailOff, st) else
      case allowUser io (''2fa-setup|'' @ us_ID (pr_User p)) st of (ok, st) \<Rightarrow> if \<not> ok then (Inl TooManyAttempts, st) else
      case validEmail env email of None \<Rightarrow> (Inl (Setting NotAnAddress), st) | Some addr \<Rightarrow>
      case beginEmailChallenge env io (emailVerifySubject (us_ID (pr_User p))) addr st of (Inl e, st) \<Rightarrow> (Inl e, st) | (Inr code, st) \<Rightarrow>
      case send_mail io addr ToConfirm code st of (ok, st) \<Rightarrow> if \<not> ok then (Inl MailNotSent, st) else
      case SetEmail (io_fails io) (us_ID (pr_User p)) addr None (ac_db st) of Inl e \<Rightarrow> (Inl (DbErr e), st) | Inr d \<Rightarrow> (Inr (), st\<lparr>ac_db := d\<rparr>))"

definition ConfirmEmail :: "login_env \<Rightarrow> call_io \<Rightarrow> principal \<Rightarrow> string \<Rightarrow> accounts \<Rightarrow> unit reply" where
  "ConfirmEmail env io p code st =
     (case allowUser io (''2fa-setup|'' @ us_ID (pr_User p)) st of (ok, st) \<Rightarrow> if \<not> ok then (Inl TooManyAttempts, st) else
      case GetUser (io_fails io) (us_ID (pr_User p)) (ac_db st) of Inl e \<Rightarrow> (Inl SignInRequired, st) | Inr u \<Rightarrow>
      if us_Email u = [] then (Inl (Setting NoAddressWaiting), st) else
      case checkEmailChallenge env (io_now io) (emailVerifySubject (us_ID (pr_User p))) code st of (ok, st) \<Rightarrow> if \<not> ok then (Inl (Setting CodeNotRight), st) else
      case SetEmail (io_fails io) (us_ID u) (us_Email u) (Some (io_now io)) (ac_db st) of Inl e \<Rightarrow> (Inl (DbErr e), st)
      | Inr d \<Rightarrow> (Inr (), auditUser io u ''email-verified'' [] [] (st\<lparr>ac_db := d\<rparr>)))"

definition EnableEmailOTP :: "call_io \<Rightarrow> principal \<Rightarrow> accounts \<Rightarrow> unit reply" where
  "EnableEmailOTP io p st =
     (case allowUser io (''2fa-setup|'' @ us_ID (pr_User p)) st of (ok, st) \<Rightarrow> if \<not> ok then (Inl TooManyAttempts, st) else
      case GetUser (io_fails io) (us_ID (pr_User p)) (ac_db st) of Inl e \<Rightarrow> (Inl SignInRequired, st) | Inr u \<Rightarrow>
      if us_Email u = [] \<or> us_EmailVerifiedAt u = None then (Inl (Setting VerifyAddressFirst), st) else
      if us_EmailOTPEnabledAt u \<noteq> None then (Inl (Setting EmailCodesOn), st) else
      case SetEmailOTPEnabled (io_fails io) (us_ID u) (Some (io_now io)) (ac_db st) of Inl e \<Rightarrow> (Inl (DbErr e), st)
      | Inr d \<Rightarrow> (Inr (), auditUser io u ''email-otp-enabled'' [] [] (st\<lparr>ac_db := d\<rparr>)))"

definition DisableEmailOTP :: "login_env \<Rightarrow> call_io \<Rightarrow> principal \<Rightarrow> string \<Rightarrow> accounts \<Rightarrow> unit reply" where
  "DisableEmailOTP env io p password st =
     (case with_password env io p password st of (Inl e, st) \<Rightarrow> (Inl e, st) | (Inr u, st) \<Rightarrow>
      if us_EmailOTPEnabledAt u = None then (Inl (Setting EmailCodesOff), st) else
      case SetEmailOTPEnabled (io_fails io) (us_ID u) None (ac_db st) of Inl e \<Rightarrow> (Inl (DbErr e), st)
      | Inr d \<Rightarrow> (Inr (), auditUser io u ''email-otp-disabled'' [] [] (st\<lparr>ac_db := d\<rparr>)))"

end
