(* ===== verification/Members.thy ===== *)
theory Members
  imports SignIn Consent
begin

text \<open>
  Who belongs to an organisation (\<open>accounts/auth.go\<close> from \<open>newInviteSecret\<close> on, the tables in \<open>store/accounts.go\<close>): registration, invitations, roles,
  organisations, and the commands run on the server's host. What a role may do is \<open>Decide\<close> of theory \<open>Consent\<close>.
\<close>

subsection \<open>Statements\<close>

definition CreateOrgRow :: "(db_call \<Rightarrow> bool) \<Rightarrow> org \<Rightarrow> string \<Rightarrow> acc_db \<Rightarrow> db_error + acc_db" where
  "CreateOrgRow fl o' owner d =
     (if fl QCreateOrg then Inl (DbFailed QCreateOrg)
      else if list_ex (\<lambda>g. og_ID g = og_ID o') (db_orgs d) then Inl DbExists
      else if find_user owner d = None then Inl (DbFailed QCreateOrg)
      else Inr (d\<lparr>db_orgs := db_orgs d @ [o'\<lparr>og_CreatedAt := of_msec (msec (og_CreatedAt o'))\<rparr>],
        db_members := db_members d @ [\<lparr>mb_OrgID = og_ID o', mb_UserID = owner, mb_Role = ''owner'',
          mb_CreatedAt = of_msec (msec (og_CreatedAt o')), mb_AddedBy = []\<rparr>]\<rparr>))"

definition GetOrg :: "(db_call \<Rightarrow> bool) \<Rightarrow> string \<Rightarrow> acc_db \<Rightarrow> db_error + org" where
  "GetOrg fl i d = (if fl QGetOrg then Inl (DbFailed QGetOrg)
     else case List.find (\<lambda>g. og_ID g = i) (db_orgs d) of None \<Rightarrow> Inl DbNotFound | Some g \<Rightarrow> Inr g)"

definition RenameOrgRow :: "(db_call \<Rightarrow> bool) \<Rightarrow> string \<Rightarrow> string \<Rightarrow> acc_db \<Rightarrow> db_error + acc_db" where
  "RenameOrgRow fl i name d = (if fl QRenameOrg then Inl (DbFailed QRenameOrg)
     else if \<not> list_ex (\<lambda>g. og_ID g = i) (db_orgs d) then Inl DbNotFound
     else Inr (d\<lparr>db_orgs := map (\<lambda>g. if og_ID g = i then g\<lparr>og_Name := name\<rparr> else g) (db_orgs d)\<rparr>))"

text \<open>\<open>deleteOrgRows\<close>, as far as it is about these tables: the memberships and invitations go with the organisation.\<close>

definition DeleteOrgRows :: "(db_call \<Rightarrow> bool) \<Rightarrow> string \<Rightarrow> acc_db \<Rightarrow> db_error + acc_db" where
  "DeleteOrgRows fl i d = (if fl QDeleteOrg then Inl (DbFailed QDeleteOrg)
     else Inr (d\<lparr>db_orgs := filter (\<lambda>g. og_ID g \<noteq> i) (db_orgs d), db_members := filter (\<lambda>m. mb_OrgID m \<noteq> i) (db_members d),
        db_invites := filter (\<lambda>v. iv_OrgID v \<noteq> i) (db_invites d)\<rparr>))"

definition member_row :: "string \<Rightarrow> string \<Rightarrow> acc_db \<Rightarrow> membership option" where
  "member_row g user d = List.find (\<lambda>m. mb_OrgID m = g \<and> mb_UserID m = user) (db_members d)"

definition GetMembership :: "(db_call \<Rightarrow> bool) \<Rightarrow> string \<Rightarrow> string \<Rightarrow> acc_db \<Rightarrow> db_error + membership" where
  "GetMembership fl g user d = (if fl QGetMembership then Inl (DbFailed QGetMembership)
     else case member_row g user d of None \<Rightarrow> Inl DbNotFound | Some m \<Rightarrow> Inr m)"

definition SetMemberRoleRow :: "(db_call \<Rightarrow> bool) \<Rightarrow> string \<Rightarrow> string \<Rightarrow> string \<Rightarrow> acc_db \<Rightarrow> db_error + acc_db" where
  "SetMemberRoleRow fl g user role d = (if fl QSetMemberRole then Inl (DbFailed QSetMemberRole)
     else if member_row g user d = None then Inl DbNotFound
     else Inr (d\<lparr>db_members := map (\<lambda>m. if mb_OrgID m = g \<and> mb_UserID m = user then m\<lparr>mb_Role := role\<rparr> else m) (db_members d)\<rparr>))"

definition RemoveMemberRow :: "(db_call \<Rightarrow> bool) \<Rightarrow> string \<Rightarrow> string \<Rightarrow> acc_db \<Rightarrow> db_error + acc_db" where
  "RemoveMemberRow fl g user d = (if fl QRemoveMember then Inl (DbFailed QRemoveMember)
     else if member_row g user d = None then Inl DbNotFound
     else Inr (d\<lparr>db_members := filter (\<lambda>m. \<not> (mb_OrgID m = g \<and> mb_UserID m = user)) (db_members d)\<rparr>))"

text \<open>An owner who counts: the account exists and is enabled.\<close>

definition active_owner :: "acc_db \<Rightarrow> string \<Rightarrow> membership \<Rightarrow> bool" where
  "active_owner d g m = (mb_OrgID m = g \<and> mb_Role m = ''owner''
     \<and> (case find_user (mb_UserID m) d of None \<Rightarrow> False | Some u \<Rightarrow> us_DisabledAt u = None))"

definition CountOwners :: "(db_call \<Rightarrow> bool) \<Rightarrow> string \<Rightarrow> acc_db \<Rightarrow> db_error + nat" where
  "CountOwners fl g d = (if fl QCountOwners then Inl (DbFailed QCountOwners) else Inr (length (filter (active_owner d g) (db_members d))))"

definition CreateInviteRow :: "(db_call \<Rightarrow> bool) \<Rightarrow> invite \<Rightarrow> acc_db \<Rightarrow> db_error + acc_db" where
  "CreateInviteRow fl v d =
     (if fl QCreateInvite \<or> list_ex (\<lambda>w. iv_ID w = iv_ID v \<or> iv_Hash w = iv_Hash v) (db_invites d) \<or> \<not> list_ex (\<lambda>g. og_ID g = iv_OrgID v) (db_orgs d)
      then Inl (DbFailed QCreateInvite) else Inr (d\<lparr>db_invites := db_invites d @ [v]\<rparr>))"

definition RevokeInviteRow :: "(db_call \<Rightarrow> bool) \<Rightarrow> string \<Rightarrow> string \<Rightarrow> acc_db \<Rightarrow> db_error + acc_db" where
  "RevokeInviteRow fl g i d = (if fl QRevokeInvite then Inl (DbFailed QRevokeInvite)
     else if \<not> list_ex (\<lambda>v. iv_OrgID v = g \<and> iv_ID v = i \<and> iv_UsedAt v = None) (db_invites d) then Inl DbNotFound
     else Inr (d\<lparr>db_invites := filter (\<lambda>v. \<not> (iv_OrgID v = g \<and> iv_ID v = i \<and> iv_UsedAt v = None)) (db_invites d)\<rparr>))"

definition open_invite :: "string \<Rightarrow> time \<Rightarrow> invite \<Rightarrow> bool" where
  "open_invite hash now v = (iv_Hash v = hash \<and> iv_UsedAt v = None \<and> iv_ExpiresAt v > msec now)"

definition PeekInvite :: "(db_call \<Rightarrow> bool) \<Rightarrow> string \<Rightarrow> time \<Rightarrow> acc_db \<Rightarrow> db_error + invite" where
  "PeekInvite fl hash now d = (if fl QPeekInvite then Inl (DbFailed QPeekInvite)
     else case List.find (open_invite hash now) (db_invites d) of None \<Rightarrow> Inl DbTokenInvalid | Some v \<Rightarrow> Inr v)"

definition UseInvite :: "(db_call \<Rightarrow> bool) \<Rightarrow> string \<Rightarrow> string \<Rightarrow> time \<Rightarrow> acc_db \<Rightarrow> db_error + invite \<times> acc_db" where
  "UseInvite fl hash user now d = (if fl QUseInvite then Inl (DbFailed QUseInvite)
     else case List.find (open_invite hash now) (db_invites d) of None \<Rightarrow> Inl DbTokenInvalid
     | Some v \<Rightarrow> if member_row (iv_OrgID v) user d \<noteq> None then Inl DbExists
         else if find_user user d = None \<or> \<not> list_ex (\<lambda>g. og_ID g = iv_OrgID v) (db_orgs d) then Inl (DbFailed QUseInvite)
         else Inr (v\<lparr>iv_UsedAt := Some (msec now), iv_UsedBy := user\<rparr>,
           d\<lparr>db_invites := map (\<lambda>w. if iv_ID w = iv_ID v \<and> iv_UsedAt w = None then w\<lparr>iv_UsedAt := Some (msec now), iv_UsedBy := user\<rparr> else w) (db_invites d),
             db_members := db_members d @ [\<lparr>mb_OrgID = iv_OrgID v, mb_UserID = user, mb_Role = iv_Role v,
               mb_CreatedAt = of_msec (msec now), mb_AddedBy = iv_CreatedBy v\<rparr>]\<rparr>))"

subsection \<open>Registration and invitations\<close>

record reg_cfg =
  rc_Mode :: string
  rc_SingleOrg :: bool
  rc_DefaultOrg :: string

definition EffectiveRegMode :: "reg_cfg \<Rightarrow> string" where
  "EffectiveRegMode c = (let mode = (if rc_Mode c = [] then ''open'' else rc_Mode c)
     in if mode = ''open'' \<and> rc_SingleOrg c then ''invite'' else mode)"

definition MainOrg :: "reg_cfg \<Rightarrow> string" where "MainOrg c = firstNonEmpty [rc_DefaultOrg c, ''default'']"

definition InviteTTL :: duration where "InviteTTL = 7 * 24 * hour"
definition MaxOrgsPerUser :: nat where "MaxOrgsPerUser = 10"

definition is_alnum :: "char \<Rightarrow> bool" where
  "is_alnum c = (let n = of_char c :: nat in 48 \<le> n \<and> n \<le> 57 \<or> 65 \<le> n \<and> n \<le> 90 \<or> 97 \<le> n \<and> n \<le> 122)"

text \<open>The regular expression of user names, three to sixty-four characters.\<close>

definition usernameRe :: "string \<Rightarrow> bool" where
  "usernameRe s = (3 \<le> length s \<and> length s \<le> 64 \<and> is_alnum (hd s) \<and> list_all (\<lambda>c. is_alnum c \<or> c \<in> set ''._@-'') (tl s))"

definition usernameProblem :: "login_env \<Rightarrow> string \<Rightarrow> bool" where
  "usernameProblem env name = (\<not> usernameRe name \<or> le_lower env name \<in> set [''anonymous'', ''system'', ''renewal''])"

definition cleanOrgName :: "login_env \<Rightarrow> string \<Rightarrow> string option" where
  "cleanOrgName env name = (let name = trim_space name;
     runes = tx_runes (le_text env) name in
     if length runes < 2 \<or> length runes > 60 then None
     else if list_ex (\<lambda>r. r < 32 \<or> r = 127) runes then None else Some name)"

definition invitePrefix :: string where "invitePrefix = ''cni_''"

definition newInviteSecret :: "string option \<Rightarrow> string option" where
  "newInviteSecret rnd = map_option (\<lambda>b. invitePrefix @ encode64 b) rnd"

definition looksLikeInvite :: "string \<Rightarrow> bool" where
  "looksLikeInvite s = (prefix invitePrefix s \<and> length s = length invitePrefix + 32)"

definition allowReg :: "call_io \<Rightarrow> string \<Rightarrow> accounts \<Rightarrow> bool \<times> accounts" where
  "allowReg io key st = (case Allow key (io_now io) (ac_regIP st) of (ok, l) \<Rightarrow> (ok, st\<lparr>ac_regIP := l\<rparr>))"

definition allowAll :: "call_io \<Rightarrow> accounts \<Rightarrow> bool \<times> accounts" where
  "allowAll io st = (case Allow ''reg'' (io_now io) (ac_regAll st) of (ok, l) \<Rightarrow> (ok, st\<lparr>ac_regAll := l\<rparr>))"

definition PreviewInvite :: "login_env \<Rightarrow> call_io \<Rightarrow> string \<Rightarrow> accounts \<Rightarrow> (invite \<times> string) reply" where
  "PreviewInvite env io secret st =
     (case allowReg io (''inv|'' @ le_limit_key env (io_ip io)) st of (ok, st) \<Rightarrow> if \<not> ok then (Inl TooManyAttempts, st) else
      if \<not> looksLikeInvite secret then (Inl (InOrg BadInvite), st) else
      case PeekInvite (io_fails io) (HashSecret env secret) (io_now io) (ac_db st) of Inl e \<Rightarrow> (Inl (InOrg BadInvite), st) | Inr iv \<Rightarrow>
      case GetOrg (io_fails io) (iv_OrgID iv) (ac_db st) of Inl e \<Rightarrow> (Inl (InOrg BadInvite), st) | Inr g \<Rightarrow> (Inr (iv, og_Name g), st))"

definition NameOf :: "call_io \<Rightarrow> string \<Rightarrow> accounts \<Rightarrow> string" where
  "NameOf io user st = (case GetUser (io_fails io) user (ac_db st) of Inl e \<Rightarrow> ''someone who has left'' | Inr u \<Rightarrow> us_Username u)"

definition new_user :: "call_io \<Rightarrow> string \<Rightarrow> string \<Rightarrow> bool \<Rightarrow> user" where
  "new_user io name hash must = \<lparr>us_ID = ''u-'' @ hex (io_id io), us_Username = name, us_PasswordHash = hash, us_MustChange = must,
     us_CreatedAt = io_now io, us_DisabledAt = None, us_LastLogin = None, us_TOTPSecret = [], us_TOTPEnabledAt = None, us_TOTPRecovery = [],
     us_Email = [], us_EmailVerifiedAt = None, us_EmailOTPEnabledAt = None, us_WebAuthn = []\<rparr>"

definition new_org :: "call_io \<Rightarrow> string \<Rightarrow> string \<Rightarrow> org" where
  "new_org io name owner = \<lparr>og_ID = ''org-'' @ hex (io_orgid io), og_Name = name, og_CreatedAt = io_now io, og_CreatedBy = owner\<rparr>"

text \<open>
  What the \<open>switch\<close> of \<open>Register\<close> decides: refused, by the invitation, or with an organisation of this name.
\<close>

definition register_way :: "login_env \<Rightarrow> reg_cfg \<Rightarrow> call_io \<Rightarrow> string \<Rightarrow> string \<Rightarrow> string \<Rightarrow> accounts \<Rightarrow> (invite + string) reply" where
  "register_way env c io username invite orgName st =
     (if EffectiveRegMode c = ''closed'' then (Inl (InOrg RegistrationClosed), st)
      else if invite \<noteq> [] then (case PreviewInvite env io invite st of (Inl e, st) \<Rightarrow> (Inl e, st) | (Inr (iv, g), st) \<Rightarrow> (Inr (Inl iv), st))
      else if EffectiveRegMode c = ''invite'' then (Inl (InOrg InviteOnly), st)
      else (case cleanOrgName env (if orgName = [] then username @ [CHR 0x27] @ ''s organisation'' else orgName) of
          None \<Rightarrow> (Inl (InOrg BadOrgName), st) | Some name \<Rightarrow> (Inr (Inr name), st)))"

definition Register :: "login_env \<Rightarrow> reg_cfg \<Rightarrow> call_io \<Rightarrow> string \<Rightarrow> string \<Rightarrow> string \<Rightarrow> string \<Rightarrow> accounts \<Rightarrow> (string \<times> user) reply" where
  "Register env c io username password invite orgName st =
     (let fl = io_fails io; now = io_now io in
      case allowReg io (''reg|'' @ le_limit_key env (io_ip io)) st of (ok, st) \<Rightarrow> if \<not> ok then (Inl TooManyAttempts, st) else
      case allowAll io st of (ok, st) \<Rightarrow> if \<not> ok then (Inl TooManyAttempts, st) else
      let username = trim_space username in
      if usernameProblem env username then (Inl (InOrg BadUsername), st) else
      if CheckPasswordPolicy (le_text env) username password \<noteq> None then (Inl (Setting PolicyRefused), st) else
      case register_way env c io username invite orgName st of (Inl e, st) \<Rightarrow> (Inl e, st) | (Inr way, st) \<Rightarrow>
      case hashPassword env io password of Inl e \<Rightarrow> (Inl e, st) | Inr hash \<Rightarrow>
      let u = new_user io username hash False in
      case CreateUser fl u (ac_db st) of Inl e \<Rightarrow> (Inl (if e = DbExists then InOrg UsernameTaken else DbErr e), st) | Inr d \<Rightarrow>
      let st = st\<lparr>ac_db := d\<rparr>; rollback = st\<lparr>ac_db := DeleteUser fl (us_ID u) d\<rparr> in
      case (case way of
          Inl iv \<Rightarrow> (case UseInvite fl (HashSecret env invite) (us_ID u) now d of Inl e \<Rightarrow> (Inl (InOrg BadInvite), rollback)
            | Inr (used, d) \<Rightarrow> (let st = st\<lparr>ac_db := d\<rparr> in (Inr (), AuditOrg io (iv_OrgID used) username ''user-registered'' ''user'' (us_ID u)
                (''joined as '' @ iv_Role used @ '' with an invitation from '' @ NameOf io (iv_CreatedBy used) st) st)))
        | Inr name \<Rightarrow> (let g = new_org io name (us_ID u) in case CreateOrgRow fl g (us_ID u) d of Inl e \<Rightarrow> (Inl (DbErr e), rollback)
            | Inr d \<Rightarrow> (Inr (), AuditOrg io (og_ID g) username ''org-created'' ''org'' (og_ID g)
                (le_quote env (og_Name g) @ '', registered by '' @ username) (st\<lparr>ac_db := d\<rparr>)))) of
        (Inl e, st) \<Rightarrow> (Inl e, st)
      | (Inr _, st) \<Rightarrow> (case openSession env io u st of (Inl e, st) \<Rightarrow> (Inl e, st) | (Inr secret, st) \<Rightarrow> (Inr (secret, u), st)))"

definition CreateOrg :: "login_env \<Rightarrow> reg_cfg \<Rightarrow> call_io \<Rightarrow> principal \<Rightarrow> string \<Rightarrow> accounts \<Rightarrow> org reply" where
  "CreateOrg env c io p name st =
     (if rc_SingleOrg c then (Inl (InOrg SingleOrganisation), st) else if EffectiveRegMode c \<noteq> ''open'' then (Inl (InOrg NotOpen), st) else
      case cleanOrgName env name of None \<Rightarrow> (Inl (InOrg BadOrgName), st) | Some name \<Rightarrow>
      case ListMyOrgs (io_fails io) (us_ID (pr_User p)) (ac_db st) of Inl e \<Rightarrow> (Inl (DbErr e), st) | Inr mine \<Rightarrow>
      let owned = length (filter (\<lambda>(g, r). r = ''owner'') mine); g = new_org io name (us_ID (pr_User p)) in
      if owned \<ge> MaxOrgsPerUser then (Inl (InOrg (TooManyOrgs owned)), st) else
      case CreateOrgRow (io_fails io) g (us_ID (pr_User p)) (ac_db st) of Inl e \<Rightarrow> (Inl (DbErr e), st)
      | Inr d \<Rightarrow> (Inr g, AuditOrg io (og_ID g) (us_Username (pr_User p)) ''org-created'' ''org'' (og_ID g) (le_quote env (og_Name g)) (st\<lparr>ac_db := d\<rparr>)))"

definition AcceptInvite :: "login_env \<Rightarrow> call_io \<Rightarrow> principal \<Rightarrow> string \<Rightarrow> accounts \<Rightarrow> (org \<times> string) reply" where
  "AcceptInvite env io p secret st =
     (case allowReg io (''inv|'' @ le_limit_key env (io_ip io)) st of (ok, st) \<Rightarrow> if \<not> ok then (Inl TooManyAttempts, st) else
      if \<not> looksLikeInvite secret then (Inl (InOrg BadInvite), st) else
      case UseInvite (io_fails io) (HashSecret env secret) (us_ID (pr_User p)) (io_now io) (ac_db st) of
        Inl e \<Rightarrow> (Inl (InOrg (if e = DbExists then AlreadyMember else BadInvite)), st)
      | Inr (iv, d) \<Rightarrow> (let st = st\<lparr>ac_db := d\<rparr> in
          case GetOrg (io_fails io) (iv_OrgID iv) d of Inl e \<Rightarrow> (Inl (DbErr e), st)
          | Inr g \<Rightarrow> (Inr (g, iv_Role iv), AuditOrg io (og_ID g) (us_Username (pr_User p)) ''member-joined'' ''user'' (us_ID (pr_User p))
              (''as '' @ iv_Role iv @ '', invited by '' @ NameOf io (iv_CreatedBy iv) st) st)))"

text \<open>
  A write with \<open>WithAudit\<close> and \<open>AuditedWrite\<close>: the row of the trail and the change are stored together or not at all (\<open>sql_write\<close> of theory
  \<open>AuditTrail\<close>); a row that cannot be written is an error of its own.
\<close>

definition audited :: "call_io \<Rightarrow> audit_event \<Rightarrow> (db_error \<Rightarrow> acc_error) \<Rightarrow> db_error + acc_db \<Rightarrow> accounts \<Rightarrow> unit reply" where
  "audited io row err r st = (case r of Inl e \<Rightarrow> (Inl (err e), st)
     | Inr d \<Rightarrow> if io_fails io QAudit then (Inl (InOrg AuditNotWritten), st) else (Inr (), st\<lparr>ac_db := d, ac_audit := ac_audit st @ [row]\<rparr>))"

definition may_grant :: "principal \<Rightarrow> string \<Rightarrow> bool" where
  "may_grant p role = de_Allowed (Decide (pr_Role p) ActGrantRole \<lparr>re_Role = role, re_Widening = False\<rparr>)"

definition CreateInvite :: "login_env \<Rightarrow> call_io \<Rightarrow> string \<Rightarrow> principal \<Rightarrow> string \<Rightarrow> string \<Rightarrow> accounts \<Rightarrow> (string \<times> invite) reply" where
  "CreateInvite env io g p role label st =
     (let label = trim_space label in
      if length label > 80 then (Inl (InOrg BadLabel), st) else if \<not> validRole role then (Inl (InOrg BadRole), st) else
      if \<not> may_grant p role then (Inl (InOrg CannotInviteAs), st) else
      case newInviteSecret (io_rnd io) of None \<Rightarrow> (Inl NoRandom, st) | Some secret \<Rightarrow>
      let iv = \<lparr>iv_ID = ''inv-'' @ hex (io_id io), iv_OrgID = g, iv_Hash = HashSecret env secret, iv_Role = role, iv_Label = label,
            iv_CreatedBy = us_ID (pr_User p), iv_CreatedAt = msec (io_now io), iv_ExpiresAt = msec (io_now io + InviteTTL), iv_UsedAt = None, iv_UsedBy = []\<rparr>
      in case audited io (AuditRow (io_now io) g (us_Username (pr_User p)) ''invite-created'' ''invite'' (iv_ID iv)
            (''as '' @ role @ (if label = [] then [] else '' for '' @ le_quote env label))) DbErr (CreateInviteRow (io_fails io) iv (ac_db st)) st of
          (Inl e, st) \<Rightarrow> (Inl e, st) | (Inr _, st) \<Rightarrow> (Inr (secret, iv), st))"

definition RevokeInvite :: "call_io \<Rightarrow> string \<Rightarrow> principal \<Rightarrow> string \<Rightarrow> accounts \<Rightarrow> unit reply" where
  "RevokeInvite io g p i st =
     (if io_fails io QListInvites then (Inl (DbErr (DbFailed QListInvites)), st) else
      if list_ex (\<lambda>v. iv_OrgID v = g \<and> iv_ID v = i \<and> \<not> may_grant p (iv_Role v)) (db_invites (ac_db st)) then (Inl (InOrg CannotWithdraw), st) else
      audited io (AuditRow (io_now io) g (us_Username (pr_User p)) ''invite-revoked'' ''invite'' i [])
        (\<lambda>e. if e = DbNotFound then InOrg NoSuchInvite else DbErr e) (RevokeInviteRow (io_fails io) g i (ac_db st)) st)"

subsection \<open>Members\<close>

definition member_of :: "call_io \<Rightarrow> string \<Rightarrow> string \<Rightarrow> accounts \<Rightarrow> acc_error + membership \<times> user" where
  "member_of io g user st = (case GetMembership (io_fails io) g user (ac_db st) of
       Inl e \<Rightarrow> Inl (if e = DbNotFound then OfMember NoSuchMember else DbErr e)
     | Inr m \<Rightarrow> (case GetUser (io_fails io) user (ac_db st) of Inl e \<Rightarrow> Inl (DbErr e) | Inr u \<Rightarrow> Inr (m, u)))"

definition needAnotherOwner :: "call_io \<Rightarrow> string \<Rightarrow> user \<Rightarrow> accounts \<Rightarrow> acc_error option" where
  "needAnotherOwner io g u st = (case CountOwners (io_fails io) g (ac_db st) of Inl e \<Rightarrow> Some (DbErr e)
     | Inr n \<Rightarrow> if n \<le> 1 \<and> us_DisabledAt u = None then Some (OfMember KeepAnOwner) else None)"

definition SetMemberRole :: "call_io \<Rightarrow> string \<Rightarrow> principal \<Rightarrow> string \<Rightarrow> string \<Rightarrow> accounts \<Rightarrow> unit reply" where
  "SetMemberRole io g p user role st =
     (if \<not> validRole role then (Inl (InOrg BadRole), st) else
      case member_of io g user st of Inl e \<Rightarrow> (Inl e, st) | Inr (m, u) \<Rightarrow>
      if us_ID u = us_ID (pr_User p) then (Inl (OfMember OwnRole), st) else
      if \<not> may_grant p (mb_Role m) \<or> \<not> may_grant p role then (Inl (OfMember CannotChangeRole), st) else
      case (if mb_Role m = ''owner'' \<and> role \<noteq> ''owner'' then needAnotherOwner io g u st else None) of Some e \<Rightarrow> (Inl e, st) | None \<Rightarrow>
      audited io (AuditRow (io_now io) g (us_Username (pr_User p)) ''member-role-changed'' ''user'' (us_ID u)
          (us_Username u @ '': '' @ mb_Role m @ [CHR 0x20, CHR 0xE2, CHR 0x86, CHR 0x92, CHR 0x20] @ role))
        DbErr (SetMemberRoleRow (io_fails io) g (us_ID u) role (ac_db st)) st)"

definition RemoveMember :: "call_io \<Rightarrow> string \<Rightarrow> principal \<Rightarrow> string \<Rightarrow> accounts \<Rightarrow> unit reply" where
  "RemoveMember io g p user st =
     (case member_of io g user st of Inl e \<Rightarrow> (Inl e, st) | Inr (m, u) \<Rightarrow>
      let self = (us_ID u = us_ID (pr_User p)) in
      if \<not> self \<and> \<not> may_grant p (mb_Role m) then (Inl (OfMember CannotRemove), st) else
      case (if mb_Role m = ''owner'' then needAnotherOwner io g u st else None) of Some e \<Rightarrow> (Inl e, st) | None \<Rightarrow>
      audited io (AuditRow (io_now io) g (us_Username (pr_User p)) (if self then ''member-left'' else ''member-removed'') ''user'' (us_ID u)
          (if self then [] else us_Username u @ '' ('' @ mb_Role m @ '')''))
        DbErr (RemoveMemberRow (io_fails io) g (us_ID u) (ac_db st)) st)"

definition RenameOrg :: "login_env \<Rightarrow> call_io \<Rightarrow> string \<Rightarrow> principal \<Rightarrow> string \<Rightarrow> accounts \<Rightarrow> unit reply" where
  "RenameOrg env io g p name st = (case cleanOrgName env name of None \<Rightarrow> (Inl (InOrg BadOrgName), st) | Some name \<Rightarrow>
     audited io (AuditRow (io_now io) g (us_Username (pr_User p)) ''org-renamed'' ''org'' g (le_quote env name)) DbErr
       (RenameOrgRow (io_fails io) g name (ac_db st)) st)"

definition DeleteOrg :: "login_env \<Rightarrow> reg_cfg \<Rightarrow> call_io \<Rightarrow> string \<Rightarrow> principal \<Rightarrow> string \<Rightarrow> accounts \<Rightarrow> unit reply" where
  "DeleteOrg env c io g p confirm st =
     (if g = MainOrg c then (Inl (OfMember MainOrganisation), st) else
      case GetOrg (io_fails io) g (ac_db st) of Inl e \<Rightarrow> (Inl (OfMember NoSuchOrg), st) | Inr o' \<Rightarrow>
      if trim_space confirm \<noteq> og_Name o' then (Inl (OfMember NameNotTyped), st) else
      audited io (AuditRow (io_now io) g (us_Username (pr_User p)) ''org-deleted'' ''org'' (og_ID o') (le_quote env (og_Name o') @ '' with everything in it''))
        DbErr (DeleteOrgRows (io_fails io) g (ac_db st)) st)"

text \<open>\<open>Member\<close>: a signed-in person inside one organisation.\<close>

definition Member :: "call_io \<Rightarrow> principal \<Rightarrow> string \<Rightarrow> accounts \<Rightarrow> acc_error + principal" where
  "Member io p g st = (case GetMembership (io_fails io) g (us_ID (pr_User p)) (ac_db st) of
       Inl e \<Rightarrow> Inl (if e = DbNotFound then OfMember NoSuchOrg else DbErr e)
     | Inr m \<Rightarrow> Inr (p\<lparr>pr_Org := g, pr_Role := mb_Role m\<rparr>))"

subsection \<open>Commands on the server's host\<close>

text \<open>\<open>randomPassword\<close>: twenty random bytes.\<close>

definition randomPassword :: "string option \<Rightarrow> string option" where
  "randomPassword rnd = map_option (map (\<lambda>c. recoveryAlphabet ! (of_char c mod length recoveryAlphabet))) rnd"

definition BootstrapAdmin :: "login_env \<Rightarrow> reg_cfg \<Rightarrow> call_io \<Rightarrow> string \<Rightarrow> accounts \<Rightarrow> (bool \<times> string) reply" where
  "BootstrapAdmin env c io password st =
     (if io_fails io QCountUsers then (Inl (DbErr (DbFailed QCountUsers)), st) else if db_users (ac_db st) \<noteq> [] then (Inr (False, []), st) else
      case (if password = [] then (case randomPassword (io_rnd io) of None \<Rightarrow> Inl NoRandom | Some pw \<Rightarrow> Inr (pw, True))
            else if CheckPasswordPolicy (le_text env) ''admin'' password \<noteq> None then Inl (Setting PolicyRefused) else Inr (password, False)) of
        Inl e \<Rightarrow> (Inl e, st) | Inr (pw, must) \<Rightarrow>
      case hashPassword env io pw of Inl e \<Rightarrow> (Inl e, st) | Inr hash \<Rightarrow>
      let u = new_user io ''admin'' hash must; g = \<lparr>og_ID = MainOrg c, og_Name = ''Default'', og_CreatedAt = io_now io, og_CreatedBy = us_ID u\<rparr> in
      case CreateUser (io_fails io) u (ac_db st) of Inl e \<Rightarrow> (Inl (DbErr e), st) | Inr d \<Rightarrow>
      case CreateOrgRow (io_fails io) g (us_ID u) d of Inl e \<Rightarrow> (Inl (DbErr e), st\<lparr>ac_db := d\<rparr>)
      | Inr d \<Rightarrow> (Inr (True, if must then pw else []),
          AuditOrg io (og_ID g) ''system'' ''user-created'' ''user'' (us_ID u) ''first administrator'' (st\<lparr>ac_db := d\<rparr>)))"

text \<open>
  \<open>RecoverPassword\<close> ends what a suspected compromise may have left, and what it could not end is an error that carries the sentence of each.
\<close>

datatype recover_error = NotRecovered acc_error | StillLeft "string list"

definition left_over :: "login_env \<Rightarrow> string \<Rightarrow> db_error option \<Rightarrow> string list" where
  "left_over env what err = (case err of None \<Rightarrow> [] | Some e \<Rightarrow> [what @ '' ('' @ le_error_text env e @ '')''])"

fun join_with :: "string \<Rightarrow> string list \<Rightarrow> string" where
  "join_with sep [] = []"
| "join_with sep [x] = x"
| "join_with sep (x # y # xs) = x @ sep @ join_with sep (y # xs)"

definition RecoverPassword :: "login_env \<Rightarrow> call_io \<Rightarrow> string \<Rightarrow> accounts \<Rightarrow> (recover_error + string) \<times> accounts" where
  "RecoverPassword env io username st =
     (let fl = io_fails io in
      case randomPassword (io_rnd io) of None \<Rightarrow> (Inl (NotRecovered NoRandom), st) | Some pw \<Rightarrow>
      case hashPassword env io pw of Inl e \<Rightarrow> (Inl (NotRecovered e), st) | Inr hash \<Rightarrow>
      case GetUserByName fl (le_lower env username) (ac_db st) of
        Inl e \<Rightarrow> if e \<noteq> DbNotFound then (Inl (NotRecovered (DbErr e)), st)
          else if usernameProblem env username then (Inl (NotRecovered (InOrg BadUsername)), st) else
          (let u = new_user io username hash True in
           case CreateUser fl u (ac_db st) of Inl e \<Rightarrow> (Inl (NotRecovered (DbErr e)), st)
           | Inr d \<Rightarrow> (Inr pw, auditUser io u ''password-recovered'' ''server command line'' [] (st\<lparr>ac_db := d\<rparr>)))
      | Inr u \<Rightarrow>
          (case SetPassword fl (us_ID u) hash True (ac_db st) of Inl e \<Rightarrow> (Inl (NotRecovered (DbErr e)), st) | Inr d \<Rightarrow>
           case (case SetDisabled fl (us_ID u) None d of Inl e \<Rightarrow> (Some e, d) | Inr d \<Rightarrow> (None, d)) of (e1, d) \<Rightarrow>
           case (case DeleteUserSessions fl (us_ID u) [] d of Inl e \<Rightarrow> (Some e, d) | Inr d \<Rightarrow> (None, d)) of (e2, d) \<Rightarrow>
           case revokeAPITokens fl (us_ID u) d of (n, e3, d) \<Rightarrow>
           let left = left_over env ''the account could not be enabled'' e1 @ left_over env ''the sessions could not be ended'' e2
                 @ left_over env ''the personal API tokens could not be revoked'' e3;
               st = st\<lparr>ac_db := d\<rparr>
           in if left \<noteq> []
              then (Inl (StillLeft left), auditUser io u ''password-recovered'' (''server command line; '' @ join_with ''; '' left) [] st)
              else (Inr pw, auditUser io u ''password-recovered'' ''server command line'' [] st)))"

definition CreateOrgFor :: "login_env \<Rightarrow> call_io \<Rightarrow> string \<Rightarrow> string \<Rightarrow> accounts \<Rightarrow> org option \<times> accounts" where
  "CreateOrgFor env io username name st =
     (case GetUserByName (io_fails io) (le_lower env username) (ac_db st) of Inl e \<Rightarrow> (None, st) | Inr u \<Rightarrow>
      case cleanOrgName env name of None \<Rightarrow> (None, st) | Some name \<Rightarrow>
      let g = new_org io name (us_ID u) in
      case CreateOrgRow (io_fails io) g (us_ID u) (ac_db st) of Inl e \<Rightarrow> (None, st)
      | Inr d \<Rightarrow> (Some g, AuditOrg io (og_ID g) ''system'' ''org-created'' ''org'' (og_ID g)
          (le_quote env name @ '' for '' @ us_Username u @ '' (server command line)'') (st\<lparr>ac_db := d\<rparr>)))"

end
