(* ===== verification/Sessions.thy ===== *)
theory Sessions
  imports Members
begin

text \<open>
  The accounts service as a whole: a call is one of the operations of theories \<open>SignIn\<close> and \<open>Members\<close>, a run is a sequence of calls from an
  empty database on, restarts of the server among them, and the log of a run says of each call what it was, what it answered and in which state it found
  the service. No other code of the repository writes the tables of accounts. A signed-in person's principal is an argument of the call, so what is
  proved holds for whatever principal a handler is given.
\<close>

subsection \<open>Calls\<close>

datatype own_call = BeginKey relying_party | FinishKey relying_party string string | RenameKey string string | RemoveKey string string
  | MakeToken string | EndToken string | NewPassword string string | SetUpTOTP | TurnOnTOTP string | TurnOffTOTP string
  | AskVerification bool string | ConfirmAddress string | MailCodesOn | MailCodesOff string | SignOut

datatype org_call = MakeOrg string | TakeInvite string | MakeInvite string string string | WithdrawInvite string string
  | ChangeRole string string string | TakeOut string string | NameOrg string string | EraseOrg string string

datatype host_call = Bootstrap string | Recover string | MakeOrgFor string string | Restart

datatype acc_call = SignInWith string string | SignInSSO string | Enter2FA string string | AskCode string
  | BeginKeyLogin string relying_party | FinishKeyLogin string relying_party string
  | SignUp string string string string | LookAtInvite string | WithSession string | WithToken string
  | Own principal own_call | Org principal org_call | Host host_call

datatype acc_result = Opened string user | Known principal | Answered | Refused acc_error | HostRefused

type_synonym acc_event = "call_io \<times> acc_call \<times> acc_result \<times> accounts"

definition answer :: "'a reply \<Rightarrow> acc_result \<times> accounts" where
  "answer r = (case r of (Inl e, st) \<Rightarrow> (Refused e, st) | (Inr x, st) \<Rightarrow> (Answered, st))"

definition opened_by :: "(string \<times> user) reply \<Rightarrow> acc_result \<times> accounts" where
  "opened_by r = (case r of (Inl e, st) \<Rightarrow> (Refused e, st) | (Inr (secret, u), st) \<Rightarrow> (Opened secret u, st))"

definition knowing :: "principal reply \<Rightarrow> acc_result \<times> accounts" where
  "knowing r = (case r of (Inl e, st) \<Rightarrow> (Refused e, st) | (Inr p, st) \<Rightarrow> (Known p, st))"

fun own_step :: "login_env \<Rightarrow> call_io \<Rightarrow> principal \<Rightarrow> own_call \<Rightarrow> accounts \<Rightarrow> acc_result \<times> accounts" where
  "own_step env io p (BeginKey rp) st = answer (BeginPasskeyRegistration env io p rp st)"
| "own_step env io p (FinishKey rp name response) st = answer (FinishPasskeyRegistration env io p rp name response st)"
| "own_step env io p (RenameKey k name) st = answer (RenamePasskey env io p k name st)"
| "own_step env io p (RemoveKey k pw) st = answer (RemovePasskey env io p k pw st)"
| "own_step env io p (MakeToken name) st = answer (CreateToken env io p name st)"
| "own_step env io p (EndToken i) st = answer (RevokeToken io p i st)"
| "own_step env io p (NewPassword current new) st = answer (ChangePassword env io p current new st)"
| "own_step env io p SetUpTOTP st = answer (Setup2FA io p st)"
| "own_step env io p (TurnOnTOTP code) st = answer (Enable2FA env io p code st)"
| "own_step env io p (TurnOffTOTP pw) st = answer (Disable2FA env io p pw st)"
| "own_step env io p (AskVerification mail_on email) st = answer (RequestEmailVerification env io mail_on p email st)"
| "own_step env io p (ConfirmAddress code) st = answer (ConfirmEmail env io p code st)"
| "own_step env io p MailCodesOn st = answer (EnableEmailOTP io p st)"
| "own_step env io p (MailCodesOff pw) st = answer (DisableEmailOTP env io p pw st)"
| "own_step env io p SignOut st = (Answered, Logout io p st)"

fun org_step :: "login_env \<Rightarrow> reg_cfg \<Rightarrow> call_io \<Rightarrow> principal \<Rightarrow> org_call \<Rightarrow> accounts \<Rightarrow> acc_result \<times> accounts" where
  "org_step env c io p (MakeOrg name) st = answer (CreateOrg env c io p name st)"
| "org_step env c io p (TakeInvite secret) st = answer (AcceptInvite env io p secret st)"
| "org_step env c io p (MakeInvite g role label) st = answer (CreateInvite env io g p role label st)"
| "org_step env c io p (WithdrawInvite g i) st = answer (RevokeInvite io g p i st)"
| "org_step env c io p (ChangeRole g user role) st = answer (SetMemberRole io g p user role st)"
| "org_step env c io p (TakeOut g user) st = answer (RemoveMember io g p user st)"
| "org_step env c io p (NameOrg g name) st = answer (RenameOrg env io g p name st)"
| "org_step env c io p (EraseOrg g confirm) st = answer (DeleteOrg env c io g p confirm st)"

fun host_step :: "login_env \<Rightarrow> reg_cfg \<Rightarrow> call_io \<Rightarrow> host_call \<Rightarrow> accounts \<Rightarrow> acc_result \<times> accounts" where
  "host_step env c io (Bootstrap pw) st = answer (BootstrapAdmin env c io pw st)"
| "host_step env c io (Recover name) st = (case RecoverPassword env io name st of (Inl e, st) \<Rightarrow> (HostRefused, st) | (Inr pw, st) \<Rightarrow> (Answered, st))"
| "host_step env c io (MakeOrgFor user name) st = (case CreateOrgFor env io user name st of (None, st) \<Rightarrow> (HostRefused, st) | (Some g, st) \<Rightarrow> (Answered, st))"
| "host_step env c io Restart st = (Answered, (newAuthState (ac_db st))\<lparr>ac_audit := ac_audit st, ac_mail := ac_mail st\<rparr>)"

fun acc_step :: "login_env \<Rightarrow> reg_cfg \<Rightarrow> call_io \<Rightarrow> acc_call \<Rightarrow> accounts \<Rightarrow> acc_result \<times> accounts" where
  "acc_step env c io (SignInWith name pw) st = opened_by (Login env io name pw st)"
| "acc_step env c io (SignInSSO name) st = opened_by (LoginSSO env io name st)"
| "acc_step env c io (Enter2FA token code) st = opened_by (Login2FA env io token code st)"
| "acc_step env c io (AskCode token) st = answer (RequestLoginEmailCode env io token st)"
| "acc_step env c io (BeginKeyLogin token rp) st = answer (BeginPasskeyLogin env io token rp st)"
| "acc_step env c io (FinishKeyLogin token rp response) st = opened_by (FinishPasskeyLogin env io token rp response st)"
| "acc_step env c io (SignUp name pw invite g) st = opened_by (Register env c io name pw invite g st)"
| "acc_step env c io (LookAtInvite secret) st = answer (PreviewInvite env io secret st)"
| "acc_step env c io (WithSession secret) st = knowing (Authenticate env io secret st)"
| "acc_step env c io (WithToken secret) st = knowing (AuthenticateAPIToken env io secret st)"
| "acc_step env c io (Own p own) st = own_step env io p own st"
| "acc_step env c io (Org p oc) st = org_step env c io p oc st"
| "acc_step env c io (Host h) st = host_step env c io h st"

definition empty_db :: acc_db where
  "empty_db = \<lparr>db_users = [], db_orgs = [], db_members = [], db_invites = [], db_sessions = Map.empty, db_tokens = []\<rparr>"

inductive acc_reach :: "login_env \<Rightarrow> reg_cfg \<Rightarrow> acc_event list \<Rightarrow> accounts \<Rightarrow> bool" for env c where
  reach_start: "acc_reach env c [] (newAuthState empty_db)"
| reach_call: "acc_reach env c tr st \<Longrightarrow> acc_step env c io call st = (r, st') \<Longrightarrow> acc_reach env c ((io, call, r, st) # tr) st'"

subsection \<open>What a call leaves alone\<close>

text \<open>
  The half-finished sign-ins of the service: a call is quiet when it adds none of them.
\<close>

definition login_codes :: "accounts \<Rightarrow> string \<rightharpoonup> email_challenge" where
  "login_codes st = (\<lambda>token. ac_email st (emailLoginSubject token))"

definition quiet :: "accounts \<Rightarrow> accounts \<Rightarrow> bool" where
  "quiet st st' \<longleftrightarrow> ac_pending st' \<subseteq>\<^sub>m ac_pending st \<and> login_codes st' \<subseteq>\<^sub>m login_codes st \<and> ac_passkeyLogin st' \<subseteq>\<^sub>m ac_passkeyLogin st"

lemma auditOrg_fields [simp]:
  "ac_pending (AuditOrg io org a b k i d st) = ac_pending st" "ac_email (AuditOrg io org a b k i d st) = ac_email st"
  "ac_passkeyLogin (AuditOrg io org a b k i d st) = ac_passkeyLogin st" "ac_db (AuditOrg io org a b k i d st) = ac_db st"
  "login_codes (AuditOrg io org a b k i d st) = login_codes st"
  by (simp_all add: AuditOrg_def login_codes_def)

lemma fold_keeps: "(\<And>x st. f (g x st) = f st) \<Longrightarrow> f (fold g xs st) = f st"
  by (induction xs arbitrary: st) auto

lemma auditUser_fields [simp]:
  "ac_pending (auditUser io u a d ip st) = ac_pending st" "ac_email (auditUser io u a d ip st) = ac_email st"
  "ac_passkeyLogin (auditUser io u a d ip st) = ac_passkeyLogin st" "ac_db (auditUser io u a d ip st) = ac_db st"
  "login_codes (auditUser io u a d ip st) = login_codes st"
  by (simp_all add: auditUser_def Let_def fold_keeps case_prod_unfold)


lemmas counted = allowIP_def allowUser_def allowReg_def allowAll_def blocked_def note_failure_def note_success_def consumePendingLogin_def send_mail_def

lemma login_codes_upd [simp]:
  "login_codes (st\<lparr>ac_loginIP := a\<rparr>) = login_codes st" "login_codes (st\<lparr>ac_loginUser := a\<rparr>) = login_codes st" "login_codes (st\<lparr>ac_regIP := a\<rparr>) = login_codes st"
  "login_codes (st\<lparr>ac_regAll := a\<rparr>) = login_codes st" "login_codes (st\<lparr>ac_failures := b\<rparr>) = login_codes st" "login_codes (st\<lparr>ac_pending := m\<rparr>) = login_codes st"
  "login_codes (st\<lparr>ac_passkeyReg := n\<rparr>) = login_codes st" "login_codes (st\<lparr>ac_passkeyLogin := n\<rparr>) = login_codes st" "login_codes (st\<lparr>ac_lastPurge := t\<rparr>) = login_codes st"
  "login_codes (st\<lparr>ac_db := d\<rparr>) = login_codes st" "login_codes (st\<lparr>ac_audit := e\<rparr>) = login_codes st" "login_codes (st\<lparr>ac_mail := ml\<rparr>) = login_codes st"
  "login_codes (st\<lparr>ac_email := em\<rparr>) = (\<lambda>token. em (emailLoginSubject token))"
  by (simp_all add: login_codes_def)

lemma quiet_refl [simp]: "quiet st st"
  by (simp add: quiet_def)

lemma quiet_trans: "quiet st st' \<Longrightarrow> quiet st' st'' \<Longrightarrow> quiet st st''"
  by (auto simp: quiet_def intro: map_le_trans)

lemma unexpired_le: "unexpired f now m \<subseteq>\<^sub>m m"
  by (auto simp: unexpired_def map_le_def dom_def split: option.splits if_splits)

lemma subjects: "emailLoginSubject a \<noteq> emailVerifySubject b" "emailLoginSubject a = emailLoginSubject b \<longleftrightarrow> a = b"
  by (simp_all add: emailLoginSubject_def emailVerifySubject_def)

lemma drop_le [simp]: "m(k := None) \<subseteq>\<^sub>m m"
  by (auto simp: map_le_def)

lemma codes_unexpired [simp]: "(\<lambda>token. unexpired f now m (emailLoginSubject token)) \<subseteq>\<^sub>m (\<lambda>token. m (emailLoginSubject token))"
  by (auto simp: unexpired_def map_le_def dom_def split: option.splits if_splits)


text \<open>
  Rules for what holds of the answer and the state a handler ends in: they follow the code from the first test to the last and keep what each branch was
  taken for.
\<close>

definition post :: "('a \<Rightarrow> accounts \<Rightarrow> bool) \<Rightarrow> 'a \<times> accounts \<Rightarrow> bool" where
  "post Q r \<longleftrightarrow> Q (fst r) (snd r)"

lemma post_pair: "Q a st \<Longrightarrow> post Q (a, st)"
  by (simp add: post_def)

lemma postD: "post Q r \<Longrightarrow> r = (a, st) \<Longrightarrow> Q a st"
  by (simp add: post_def)

lemma post_if: "(b \<Longrightarrow> post Q x) \<Longrightarrow> (\<not> b \<Longrightarrow> post Q y) \<Longrightarrow> post Q (if b then x else y)"
  by simp

lemma post_sum: "(\<And>e. r = Inl e \<Longrightarrow> post Q (f e)) \<Longrightarrow> (\<And>x. r = Inr x \<Longrightarrow> post Q (g x)) \<Longrightarrow> post Q (case r of Inl e \<Rightarrow> f e | Inr x \<Rightarrow> g x)"
  by (cases r) auto

lemma post_option: "(r = None \<Longrightarrow> post Q y) \<Longrightarrow> (\<And>x. r = Some x \<Longrightarrow> post Q (g x)) \<Longrightarrow> post Q (case r of None \<Rightarrow> y | Some x \<Rightarrow> g x)"
  by (cases r) auto

lemma post_prod: "(\<And>a b. p = (a, b) \<Longrightarrow> post Q (f a b)) \<Longrightarrow> post Q (case p of (a, b) \<Rightarrow> f a b)"
  by (cases p) auto

text \<open>A call inside a call: the property \<open>P\<close> of states, which it keeps, holds after it.\<close>

lemma post_bind:
  "post (\<lambda>_. P) p \<Longrightarrow> (\<And>a st. p = (a, st) \<Longrightarrow> P st \<Longrightarrow> post (\<lambda>_. P) (f a st)) \<Longrightarrow> post (\<lambda>_. P) (case p of (a, st) \<Rightarrow> f a st)"
  by (cases p) (auto simp: post_def)

lemmas post_rules = post_pair post_if post_sum post_option post_bind post_prod

lemma quiet_upd [simp]:
  "quiet s (st\<lparr>ac_loginIP := a\<rparr>) = quiet s st" "quiet s (st\<lparr>ac_loginUser := a\<rparr>) = quiet s st" "quiet s (st\<lparr>ac_regIP := a\<rparr>) = quiet s st"
  "quiet s (st\<lparr>ac_regAll := a\<rparr>) = quiet s st" "quiet s (st\<lparr>ac_failures := b\<rparr>) = quiet s st" "quiet s (st\<lparr>ac_passkeyReg := n\<rparr>) = quiet s st"
  "quiet s (st\<lparr>ac_lastPurge := t\<rparr>) = quiet s st" "quiet s (st\<lparr>ac_db := d\<rparr>) = quiet s st" "quiet s (st\<lparr>ac_audit := e\<rparr>) = quiet s st" "quiet s (st\<lparr>ac_mail := ml\<rparr>) = quiet s st"
  by (simp_all add: quiet_def)

lemma quiet_simps [simp]:
  "quiet s (login_failed io n d st) = quiet s st" "quiet s (auditUser io u a d ip st) = quiet s st" "quiet s (AuditOrg io org a b k i d st) = quiet s st"
  "quiet s (note_failure io n st) = quiet s st" "quiet s (note_success n st) = quiet s st"
  by (simp_all add: quiet_def login_failed_def note_failure_def note_success_def)

text \<open>What handlers are made of.\<close>

lemma quiet_counted:
  "quiet s st \<Longrightarrow> post (\<lambda>_. quiet s) (allowIP env io st)" "quiet s st \<Longrightarrow> post (\<lambda>_. quiet s) (allowUser io key st)"
  "quiet s st \<Longrightarrow> post (\<lambda>_. quiet s) (allowReg io key st)" "quiet s st \<Longrightarrow> post (\<lambda>_. quiet s) (allowAll io st)"
  "quiet s st \<Longrightarrow> post (\<lambda>_. quiet s) (blocked io key st)" "quiet s st \<Longrightarrow> post (\<lambda>_. quiet s) (send_mail io addr purpose code st)"
  "quiet s st \<Longrightarrow> post (\<lambda>_. quiet s) (openSession env io u st)"
  by (auto simp: allowIP_def allowUser_def allowReg_def allowAll_def blocked_def send_mail_def openSession_def post_def Let_def split: prod.split option.split sum.split)


lemma quiet_mail_codes:
  assumes "quiet s st"
  shows "quiet s (st\<lparr>ac_email := unexpired ec_expiresAt now (ac_email st)\<rparr>)"
    "quiet s (st\<lparr>ac_email := (unexpired ec_expiresAt now (ac_email st))(emailVerifySubject i \<mapsto> ch)\<rparr>)"
    "quiet s (st\<lparr>ac_email := (ac_email st)(subject := None)\<rparr>)"
    "quiet s (st\<lparr>ac_pending := (ac_pending st)(token := None)\<rparr>)"
    "quiet s (st\<lparr>ac_passkeyLogin := (ac_passkeyLogin st)(token := None)\<rparr>)"
  by (rule quiet_trans[OF assms]; auto simp: quiet_def login_codes_def subjects subjects(1)[symmetric] map_le_def unexpired_def dom_def
        split: option.splits if_splits)+

lemma quiet_parts:
  assumes "quiet s st"
  shows "post (\<lambda>_. quiet s) (beginEmailChallenge env io (emailVerifySubject i) email st)"
    "post (\<lambda>_. quiet s) (checkEmailChallenge env now subject code st)"
    "post (\<lambda>_. quiet s) (peekPendingLogin now token st)"
    "quiet s (consumePendingLogin token st)"
  using assms by (auto simp: post_def beginEmailChallenge_def checkEmailChallenge_def peekPendingLogin_def consumePendingLogin_def Let_def
      intro: quiet_mail_codes split: option.split)

lemma quiet_with_password: "quiet s st \<Longrightarrow> post (\<lambda>_. quiet s) (with_password env io p pw st)"
  unfolding with_password_def Let_def by (intro post_rules quiet_counted; (assumption | simp))


lemma post_answer: "post (\<lambda>_. P) r \<Longrightarrow> post (\<lambda>_. P) (answer r)"
  by (auto simp: post_def answer_def split: prod.split sum.split)

lemma post_known: "post (\<lambda>_. P) r \<Longrightarrow> post (\<lambda>_. P) (knowing r)"
  by (auto simp: post_def knowing_def split: prod.split sum.split)

lemma post_opened: "post (\<lambda>_. P) r \<Longrightarrow> post (\<lambda>_. P) (opened_by r)"
  by (auto simp: post_def opened_by_def split: prod.split sum.split)

lemmas own_handlers = BeginPasskeyRegistration_def FinishPasskeyRegistration_def RenamePasskey_def RemovePasskey_def CreateToken_def RevokeToken_def
  ChangePassword_def Setup2FA_def Enable2FA_def Disable2FA_def RequestEmailVerification_def ConfirmEmail_def EnableEmailOTP_def DisableEmailOTP_def

lemmas quiet_rules = post_rules post_answer post_known post_opened quiet_counted quiet_with_password quiet_parts

lemma quiet_own_step: "quiet s st \<Longrightarrow> post (\<lambda>_. quiet s) (own_step env io p oc st)"
  by (cases oc; simp only: own_step.simps; unfold own_handlers Let_def Logout_def; intro quiet_rules; (assumption | simp))

lemmas org_handlers = CreateOrg_def AcceptInvite_def CreateInvite_def RevokeInvite_def SetMemberRole_def RemoveMember_def RenameOrg_def DeleteOrg_def audited_def

lemma quiet_org_step: "quiet s st \<Longrightarrow> post (\<lambda>_. quiet s) (org_step env c io p oc st)"
  by (cases oc; simp only: org_step.simps; unfold org_handlers Let_def; intro quiet_rules; (assumption | simp))

lemma quiet_preview: "quiet s st \<Longrightarrow> post (\<lambda>_. quiet s) (PreviewInvite env io secret st)"
  unfolding PreviewInvite_def by (intro quiet_rules; (assumption | simp))

lemma quiet_way: "quiet s st \<Longrightarrow> post (\<lambda>_. quiet s) (register_way env c io name invite g st)"
  unfolding register_way_def Let_def by (intro quiet_preview quiet_rules; (assumption | simp))

lemma quiet_Register: "quiet s st \<Longrightarrow> post (\<lambda>_. quiet s) (Register env c io name pw invite g st)"
  unfolding Register_def Let_def by (intro quiet_way quiet_rules; (assumption | simp))

lemma quiet_host_step: "quiet s st \<Longrightarrow> ho \<noteq> Restart \<Longrightarrow> post (\<lambda>_. quiet s) (host_step env c io ho st)"
proof (cases ho)
  case (Bootstrap pw)
  assume "quiet s st"
  then show ?thesis unfolding Bootstrap host_step.simps BootstrapAdmin_def Let_def by (intro quiet_rules; (assumption | simp))
next
  case (Recover name)
  assume "quiet s st"
  then show ?thesis unfolding Recover host_step.simps RecoverPassword_def Let_def by (intro quiet_rules; (assumption | simp))
next
  case (MakeOrgFor user name)
  assume "quiet s st"
  then show ?thesis unfolding MakeOrgFor host_step.simps CreateOrgFor_def Let_def by (intro quiet_rules; (assumption | simp))
qed simp


lemma quiet_others:
  assumes "quiet s st"
  shows "post (\<lambda>_. quiet s) (LoginSSO env io name st)" "post (\<lambda>_. quiet s) (Login2FA env io token code st)"
    "post (\<lambda>_. quiet s) (FinishPasskeyLogin env io token rp response st)" "post (\<lambda>_. quiet s) (Authenticate env io secret st)"
    "post (\<lambda>_. quiet s) (AuthenticateAPIToken env io secret st)"
  using assms unfolding LoginSSO_def Login2FA_def login2fa_user_def login2fa_finish_def match_code_def FinishPasskeyLogin_def takePasskey_def
    Authenticate_def AuthenticateAPIToken_def Let_def
  by - (intro quiet_rules quiet_mail_codes; (assumption | simp add: quiet_mail_codes))+

subsection \<open>What the log tells of a half-finished sign-in\<close>

text \<open>
  Who knew a name and its password: the account exists, is enabled, and its stored password is this one.
\<close>

definition knows :: "login_env \<Rightarrow> call_io \<Rightarrow> string \<Rightarrow> string \<Rightarrow> accounts \<Rightarrow> user \<Rightarrow> bool" where
  "knows env io name pw st u \<longleftrightarrow> GetUserByName (io_fails io) (le_lower env (trim_space name)) (ac_db st) = Inr u \<and> us_DisabledAt u = None
     \<and> length pw \<le> MaxPasswordLen \<and> VerifyPassword (le_argon env) pw (us_PasswordHash u) = Some True"

text \<open>
  The account a token was given out for and when: by the latest sign-in that gave it out to someone who knew the password of an account with a second
  factor, if no session has been opened with it since.
\<close>

definition gives_out :: "login_env \<Rightarrow> acc_event \<Rightarrow> string \<Rightarrow> (string \<times> time) option" where
  "gives_out env e token = (case e of
       (io, SignInWith name pw, Refused (TwoFactorRequired token' methods t), st) \<Rightarrow>
         (case GetUserByName (io_fails io) (le_lower env (trim_space name)) (ac_db st) of Inl _ \<Rightarrow> None
          | Inr u \<Rightarrow> if token' = token \<and> knows env io name pw st u \<and> twoFactorMethods u \<noteq> [] then Some (us_ID u, io_now io) else None)
     | _ \<Rightarrow> None)"

definition spends :: "string \<Rightarrow> acc_event \<Rightarrow> bool" where
  "spends token e = (case e of (io, Enter2FA token' code, Opened s u, st) \<Rightarrow> token' = token
     | (io, FinishKeyLogin token' rp response, Opened s u, st) \<Rightarrow> token' = token | _ \<Rightarrow> False)"

fun given_out :: "login_env \<Rightarrow> acc_event list \<Rightarrow> string \<Rightarrow> (string \<times> time) option" where
  "given_out env [] token = None"
| "given_out env (e # tr) token = (case gives_out env e token of Some x \<Rightarrow> Some x
     | None \<Rightarrow> if spends token e then None else given_out env tr token)"

text \<open>The latest code made for a token, and when; the mail went to the address of the account, unless the relay refused it.\<close>

definition makes_code :: "login_env \<Rightarrow> acc_event \<Rightarrow> string \<Rightarrow> (string \<times> time) option" where
  "makes_code env e token = (case e of (io, AskCode token', r, st) \<Rightarrow>
       if token' = token \<and> (r = Answered \<or> r = Refused MailNotSent)
       then map_option (\<lambda>code. (emailCodeHash (le_codes env) code, io_now io)) (NewEmailCode (io_code io)) else None
     | _ \<Rightarrow> None)"

fun made_code :: "login_env \<Rightarrow> acc_event list \<Rightarrow> string \<Rightarrow> (string \<times> time) option" where
  "made_code env [] token = None"
| "made_code env (e # tr) token = (case makes_code env e token of Some x \<Rightarrow> Some x | None \<Rightarrow> made_code env tr token)"

text \<open>The latest passkey ceremony begun for a token: what the library gave to keep, and when.\<close>

definition begins_key :: "login_env \<Rightarrow> acc_event \<Rightarrow> string \<Rightarrow> (string \<times> time) option" where
  "begins_key env e token = (case e of (io, BeginKeyLogin token' rp, Answered, st) \<Rightarrow>
       if token' \<noteq> token then None else
       (case ac_pending st token of None \<Rightarrow> None | Some pl \<Rightarrow> case find_user (pl_userID pl) (ac_db st) of None \<Rightarrow> None
        | Some u \<Rightarrow> map_option (\<lambda>(options, session). (session, io_now io)) (le_beginLogin env rp u))
     | _ \<Rightarrow> None)"

fun begun_key :: "login_env \<Rightarrow> acc_event list \<Rightarrow> string \<Rightarrow> (string \<times> time) option" where
  "begun_key env [] token = None"
| "begun_key env (e # tr) token = (case begins_key env e token of Some x \<Rightarrow> Some x | None \<Rightarrow> begun_key env tr token)"

definition told_by :: "login_env \<Rightarrow> acc_event list \<Rightarrow> accounts \<Rightarrow> bool" where
  "told_by env tr st \<longleftrightarrow>
     (\<forall>token pl. ac_pending st token = Some pl \<longrightarrow> given_out env tr token = Some (pl_userID pl, pl_expiresAt pl - PendingLoginTTL))
   \<and> (\<forall>token ch. login_codes st token = Some ch \<longrightarrow> made_code env tr token = Some (ec_codeHash ch, ec_expiresAt ch - emailChallengeTTL))
   \<and> (\<forall>token ps. ac_passkeyLogin st token = Some ps \<longrightarrow> begun_key env tr token = Some (ps_data ps, ps_expiresAt ps - webauthnCeremonyTTL))"

text \<open>\<open>quiet\<close>, and the database is as it was: where a handler is before it does anything else.\<close>

definition still :: "accounts \<Rightarrow> accounts \<Rightarrow> bool" where
  "still st st' \<longleftrightarrow> quiet st st' \<and> ac_db st' = ac_db st"


lemma post_step:
  "post (\<lambda>_. P) p \<Longrightarrow> (\<And>a st. p = (a, st) \<Longrightarrow> P st \<Longrightarrow> post Q (f a st)) \<Longrightarrow> post Q (case p of (a, st) \<Rightarrow> f a st)"
  by (cases p) (auto simp: post_def)

lemma still_refl [simp]: "still st st"
  by (simp add: still_def)

lemma still_quiet: "still s st \<Longrightarrow> quiet s st" and still_db: "still s st \<Longrightarrow> ac_db st = ac_db s"
  by (simp_all add: still_def)

lemma still_parts:
  assumes "still s st"
  shows "post (\<lambda>_. still s) (allowIP env io st)" "post (\<lambda>_. still s) (allowUser io key st)" "post (\<lambda>_. still s) (blocked io key st)"
    "post (\<lambda>_. still s) (peekPendingLogin now token st)" "still s (note_success name st)"
  using assms quiet_mail_codes(4)[OF still_quiet[OF assms]]
  by (auto simp: allowIP_def allowUser_def blocked_def peekPendingLogin_def note_success_def post_def still_def split: prod.split option.split)

definition login_post :: "login_env \<Rightarrow> call_io \<Rightarrow> string \<Rightarrow> string \<Rightarrow> accounts \<Rightarrow> acc_error + string \<times> user \<Rightarrow> accounts \<Rightarrow> bool" where
  "login_post env io name pw st r st' = (case r of Inr (secret, u) \<Rightarrow> quiet st st' \<and> knows env io name pw st u \<and> twoFactorMethods u = []
     | Inl e \<Rightarrow> quiet st st' \<and> (\<forall>token methods t. e \<noteq> TwoFactorRequired token methods t) \<or> (\<exists>token u. e = errTwoFactorRequired token (twoFactorMethods u) \<and> knows env io name pw st u \<and> twoFactorMethods u \<noteq> [] \<and>
         quiet (st\<lparr>ac_pending := (ac_pending st)(token \<mapsto> \<lparr>pl_userID = us_ID u, pl_expiresAt = io_now io + PendingLoginTTL, pl_methods = twoFactorMethods u\<rparr>)\<rparr>) st'))"

lemma login_post_quiet: "quiet st st' \<Longrightarrow> \<forall>token methods t. e \<noteq> TwoFactorRequired token methods t \<Longrightarrow> login_post env io name pw st (Inl e) st'"
  by (simp add: login_post_def)

lemma map_upd_le: "m \<subseteq>\<^sub>m m' \<Longrightarrow> m(k \<mapsto> v) \<subseteq>\<^sub>m m'(k \<mapsto> v)"
  by (auto simp: map_le_def)

lemma openSession_error: "openSession env io u st = (Inl e, st') \<Longrightarrow> e = NoRandom \<or> (\<exists>x. e = DbErr x)"
  by (auto simp: openSession_def Let_def split: option.splits sum.splits if_splits)

lemma post_openSession:
  assumes "quiet s st"
    and "\<And>a st'. openSession env io u st = (a, st') \<Longrightarrow> quiet s st' \<Longrightarrow> (\<And>e token methods t. a = Inl e \<Longrightarrow> e \<noteq> TwoFactorRequired token methods t) \<Longrightarrow> post Q (f a st')"
  shows "post Q (case openSession env io u st of (a, st') \<Rightarrow> f a st')"
proof (cases "openSession env io u st")
  case (Pair a st')
  have "post Q (f a st')"
    using quiet_counted(7)[OF assms(1), of env io u] Pair openSession_error[of env io u st _ st'] by (intro assms(2)) (auto simp: post_def)
  then show ?thesis by (simp add: Pair)
qed

lemma post_beginTwoFactor:
  "(\<And>a st'. beginTwoFactor io u ms0 st = (a, st') \<Longrightarrow> post Q (f a st')) \<Longrightarrow> post Q (case beginTwoFactor io u ms0 st of (a, st') \<Rightarrow> f a st')"
  by (rule post_prod)

lemma beginTwoFactor_token:
  assumes "beginTwoFactor io uid methods st = (Some token, st')" "quiet s st"
  shows "quiet (s\<lparr>ac_pending := (ac_pending s)(token \<mapsto> \<lparr>pl_userID = uid, pl_expiresAt = io_now io + PendingLoginTTL, pl_methods = methods\<rparr>)\<rparr>) st'"
  using assms unexpired_le[of pl_expiresAt "io_now io" "ac_pending st"]
  by (auto simp: beginTwoFactor_def quiet_def intro!: map_upd_le intro: map_le_trans split: option.splits)

lemma beginTwoFactor_none: "beginTwoFactor io uid methods st = (None, st') \<Longrightarrow> st' = st"
  by (auto simp: beginTwoFactor_def split: option.splits)

lemma found_password:
  assumes "(case gu of Inl e \<Rightarrow> None | Inr u \<Rightarrow> if \<not> ok \<or> us_DisabledAt u \<noteq> None then None else Some u) = Some u"
    and "verifyPassword env io pw (case gu of Inl e \<Rightarrow> le_dummyHash env | Inr u \<Rightarrow> us_PasswordHash u) = Some ok"
  shows "gu = Inr u" "us_DisabledAt u = None" "VerifyPassword (le_argon env) pw (us_PasswordHash u) = Some True"
  using assms by (auto simp: verifyPassword_def split: sum.splits if_splits)

lemma knows_after:
  assumes "still st stb" "\<not> (MaxPasswordLen < length pw \<or> b)"
    and "verifyPassword env io pw (case GetUserByName (io_fails io) (le_lower env (trim_space name)) (ac_db stb) of Inl e \<Rightarrow> le_dummyHash env | Inr u \<Rightarrow> us_PasswordHash u) = Some ok"
    and "(case GetUserByName (io_fails io) (le_lower env (trim_space name)) (ac_db stb) of Inl e \<Rightarrow> None
        | Inr u \<Rightarrow> if \<not> ok \<or> us_DisabledAt u \<noteq> None then None else Some u) = Some u"
  shows "knows env io name pw st u"
  using found_password[OF assms(4,3)] assms(1,2) by (simp add: knows_def still_db)

lemma login_post_token:
  "knows env io name pw st u \<Longrightarrow> twoFactorMethods u \<noteq> [] \<Longrightarrow> beginTwoFactor io (us_ID u) (twoFactorMethods u) stb = (a, stc) \<Longrightarrow> a = Some token \<Longrightarrow> still st stb
    \<Longrightarrow> login_post env io name pw st (Inl (errTwoFactorRequired token (twoFactorMethods u))) stc"
  unfolding login_post_def using beginTwoFactor_token[OF _ still_quiet] by fastforce

lemma login_post_none: "beginTwoFactor io uid methods stb = (a, stc) \<Longrightarrow> a = None \<Longrightarrow> still st stb \<Longrightarrow> login_post env io name pw st (Inl NoRandom) stc"
  by (auto dest: beginTwoFactor_none intro: login_post_quiet still_quiet)

lemma login_post_session: "knows env io name pw st u \<Longrightarrow> \<not> twoFactorMethods u \<noteq> [] \<Longrightarrow> quiet st stc
    \<Longrightarrow> login_post env io name pw st (Inr (secret, u)) (auditUser io u a d ip stc)"
  by (simp add: login_post_def)

lemma Login_post: "post (login_post env io name pw st) (Login env io name pw st)"
  unfolding Login_def Let_def
  by (intro post_openSession[where s = st] post_beginTwoFactor post_step[where P = "still st"] still_parts still_refl post_if post_option post_sum post_pair post_prod;
     (assumption | (simp add: login_post_quiet still_quiet still_parts login_failed_def note_failure_def; fail)
        | (erule (2) login_post_none) | (rule login_post_token[OF knows_after]; assumption) | (rule login_post_session[OF knows_after]; assumption)))

definition asked_post :: "login_env \<Rightarrow> call_io \<Rightarrow> string \<Rightarrow> accounts \<Rightarrow> acc_error + unit \<Rightarrow> accounts \<Rightarrow> bool" where
  "asked_post env io token st r st' = (quiet st st' \<and> r \<noteq> Inr () \<and> r \<noteq> Inl MailNotSent \<or> (\<exists>code ch. (r = Inr () \<or> r = Inl MailNotSent) \<and> NewEmailCode (io_code io) = Some code
     \<and> ec_codeHash ch = emailCodeHash (le_codes env) code \<and> ec_expiresAt ch = io_now io + emailChallengeTTL
     \<and> ac_pending st' \<subseteq>\<^sub>m ac_pending st \<and> ac_passkeyLogin st' \<subseteq>\<^sub>m ac_passkeyLogin st \<and> login_codes st' \<subseteq>\<^sub>m (login_codes st)(token \<mapsto> ch)))"

lemma beginEmailChallenge_login:
  assumes "beginEmailChallenge env io (emailLoginSubject token) email st = (r, st')" "quiet s st"
  shows "(case r of Inl e \<Rightarrow> quiet s st' \<and> e \<noteq> MailNotSent | Inr code \<Rightarrow> \<exists>ch. NewEmailCode (io_code io) = Some code
     \<and> ec_codeHash ch = emailCodeHash (le_codes env) code \<and> ec_expiresAt ch = io_now io + emailChallengeTTL
     \<and> ac_pending st' \<subseteq>\<^sub>m ac_pending s \<and> ac_passkeyLogin st' \<subseteq>\<^sub>m ac_passkeyLogin s \<and> login_codes st' \<subseteq>\<^sub>m (login_codes s)(token \<mapsto> ch))"
proof -
  have le: "login_codes (st\<lparr>ac_email := (unexpired ec_expiresAt now (ac_email st))(emailLoginSubject token \<mapsto> ch)\<rparr>) \<subseteq>\<^sub>m (login_codes s)(token \<mapsto> ch)" for now ch
    using assms(2) by (auto simp: quiet_def login_codes_def subjects map_le_def unexpired_def dom_def split: option.splits if_splits)
  show ?thesis
  proof (cases r)
    case (Inl e)
    then show ?thesis using assms(1) quiet_mail_codes(1)[OF assms(2)] by (auto simp: beginEmailChallenge_def Let_def split: option.splits if_splits)
  next
    case (Inr code)
    let ?ch = "\<lparr>ec_codeHash = emailCodeHash (le_codes env) code, ec_email = email, ec_expiresAt = io_now io + emailChallengeTTL, ec_lastSent = io_now io\<rparr>"
    have "NewEmailCode (io_code io) = Some code"
        "st' = st\<lparr>ac_email := (unexpired ec_expiresAt (io_now io) (ac_email st))(emailLoginSubject token \<mapsto> ?ch)\<rparr>"
      using assms(1) Inr by (auto simp: beginEmailChallenge_def Let_def split: option.splits if_splits)
    then show ?thesis using Inr assms(2) le[of "io_now io" ?ch] by (auto simp: quiet_def intro!: exI[of _ ?ch] simp del: login_codes_upd)
  qed
qed

lemma asked_quiet: "quiet st st' \<Longrightarrow> e \<noteq> MailNotSent \<Longrightarrow> asked_post env io token st (Inl e) st'"
  by (simp add: asked_post_def)

lemma asked_sent:
  assumes "beginEmailChallenge env io (emailLoginSubject token) email stb = (r, stc)" "still st stb" "r = Inr code" "send_mail io addr purpose code stc = (ok, std)"
  shows "asked_post env io token st (Inr ()) std" "asked_post env io token st (Inl MailNotSent) std"
  using beginEmailChallenge_login[OF assms(1) still_quiet[OF assms(2)]] assms(3,4)
  by (fastforce simp: asked_post_def send_mail_def split: if_splits)+

lemma asked_refused:
  assumes "beginEmailChallenge env io (emailLoginSubject token) email stb = (r, stc)" "still st stb" "r = Inl e"
  shows "asked_post env io token st (Inl e) stc"
  using beginEmailChallenge_login[OF assms(1) still_quiet[OF assms(2)]] assms(3) by (simp add: asked_quiet)

lemma post_beginEmail:
  "(\<And>a st'. beginEmailChallenge env io u ms0 st = (a, st') \<Longrightarrow> post Q (f a st')) \<Longrightarrow> post Q (case beginEmailChallenge env io u ms0 st of (a, st') \<Rightarrow> f a st')"
  by (rule post_prod)

lemma post_send:
  "(\<And>a st'. send_mail io addr purpose code st = (a, st') \<Longrightarrow> post Q (f a st')) \<Longrightarrow> post Q (case send_mail io addr purpose code st of (a, st') \<Rightarrow> f a st')"
  by (rule post_prod)

lemma AskCode_post: "post (asked_post env io token st) (RequestLoginEmailCode env io token st)"
  unfolding RequestLoginEmailCode_def Let_def
  by (intro post_beginEmail post_send post_step[where P = "still st"] still_parts still_refl post_if post_option post_sum post_pair post_prod;
     (assumption | (simp add: asked_quiet still_quiet; fail) | (erule (2) asked_refused) | (erule (3) asked_sent)))


definition key_post :: "login_env \<Rightarrow> call_io \<Rightarrow> string \<Rightarrow> relying_party \<Rightarrow> accounts \<Rightarrow> acc_error + string \<Rightarrow> accounts \<Rightarrow> bool" where
  "key_post env io token rp st r st' = (case r of Inl e \<Rightarrow> quiet st st' | Inr options \<Rightarrow>
     \<exists>pl u session. ac_pending st token = Some pl \<and> find_user (pl_userID pl) (ac_db st) = Some u \<and> le_beginLogin env rp u = Some (options, session)
       \<and> quiet (st\<lparr>ac_passkeyLogin := (ac_passkeyLogin st)(token \<mapsto> \<lparr>ps_data = session, ps_expiresAt = io_now io + webauthnCeremonyTTL\<rparr>)\<rparr>) st')"

lemma GetUser_found: "GetUser fl i d = Inr u \<longleftrightarrow> \<not> fl QGetUser \<and> find_user i d = Some u"
  by (auto simp: GetUser_def split: option.split)

lemma peek_some: "peekPendingLogin now token st = (Some pl, st') \<longleftrightarrow> st' = st \<and> ac_pending st token = Some pl \<and> now \<le> pl_expiresAt pl"
  by (auto simp: peekPendingLogin_def split: option.split)

lemma peek_still:
  assumes "peekPendingLogin now token stb = (a, stc)" "a = Some pl" "still st stb"
  shows "ac_pending st token = Some pl" "now \<le> pl_expiresAt pl"
  using assms peek_some[of now token stb pl stc] by (auto simp: still_def quiet_def map_le_def dom_def)

lemma key_begun:
  assumes "peekPendingLogin now token stb = (a, stc)" "a = Some pl" "still st stb" "still st stc"
    and "GetUser (io_fails io) (pl_userID pl) (ac_db stc) = Inr u" "le_beginLogin env rp u = Some x" "x = (options, session)"
  shows "key_post env io token rp st (Inr options) (stc\<lparr>ac_passkeyLogin := putPasskey (io_now io) token session (ac_passkeyLogin stc)\<rparr>)"
proof -
  have "ac_passkeyLogin stc \<subseteq>\<^sub>m ac_passkeyLogin st" using assms(4) by (simp add: still_def quiet_def)
  then have "putPasskey (io_now io) token session (ac_passkeyLogin stc)
      \<subseteq>\<^sub>m (ac_passkeyLogin st)(token \<mapsto> \<lparr>ps_data = session, ps_expiresAt = io_now io + webauthnCeremonyTTL\<rparr>)"
    unfolding putPasskey_def by (intro map_upd_le) (blast intro: map_le_trans unexpired_le)
  then show ?thesis using peek_still[OF assms(1-3)] assms(4-7)
    by (auto simp: key_post_def GetUser_found still_def quiet_def)
qed

lemma key_quiet: "quiet st st' \<Longrightarrow> key_post env io token rp st (Inl e) st'"
  by (simp add: key_post_def)

lemma BeginKey_post: "post (key_post env io token rp st) (BeginPasskeyLogin env io token rp st)"
  unfolding BeginPasskeyLogin_def Let_def
  by (intro post_step[where P = "still st"] still_parts still_refl post_if post_option post_sum post_pair post_prod;
     (assumption | (simp add: key_quiet still_quiet; fail) | (rule key_begun; assumption)))


subsection \<open>What a session rests on\<close>

text \<open>Users in lists that are mapped over.\<close>

lemma find_map_keeps:
  assumes "\<And>u. us_ID (f u) = us_ID u"
  shows "List.find (\<lambda>u. us_ID u = i) (map f us) = map_option f (List.find (\<lambda>u. us_ID u = i) us)"
  using assms by (induction us) auto

lemma find_user_ID: "find_user i d = Some u \<Longrightarrow> us_ID u = i"
  by (auto simp: find_user_def find_Some_iff)

lemma find_user_update:
  assumes "\<And>u. us_ID (f u) = us_ID u"
  shows "find_user i (d\<lparr>db_users := map (\<lambda>u. if us_ID u = j then f u else u) (db_users d)\<rparr>)
     = map_option (\<lambda>u. if us_ID u = j then f u else u) (find_user i d)"
  unfolding find_user_def using assms by (simp add: find_map_keeps)

lemma update_user_find:
  assumes "update_user fl q j f d = Inr d'" "\<And>u. us_ID (f u) = us_ID u"
  shows "find_user i d' = map_option (\<lambda>u. if us_ID u = j then f u else u) (find_user i d)"
  using assms find_user_update[where f = f and i = i and d = d and j = j] by (auto simp: update_user_def split: if_splits)

definition recovery_of :: "string \<Rightarrow> acc_db \<Rightarrow> string list option" where
  "recovery_of i d = map_option us_TOTPRecovery (find_user i d)"

lemma recovery_sessions [simp]:
  "recovery_of i (d\<lparr>db_sessions := m\<rparr>) = recovery_of i d" "recovery_of i (MarkLogin fl j now d) = recovery_of i d"
  "recovery_of i (PurgeSessions fl t d) = recovery_of i d"
proof -
  show "recovery_of i (d\<lparr>db_sessions := m\<rparr>) = recovery_of i d" for d m by (simp add: recovery_of_def find_user_def)
  then show "recovery_of i (PurgeSessions fl t d) = recovery_of i d" by (simp add: PurgeSessions_def)
  show "recovery_of i (MarkLogin fl j now d) = recovery_of i d"
    by (cases "find_user i d") (auto simp: recovery_of_def MarkLogin_def find_user_update)
qed

lemma CreateSession_result:
  "CreateSession fl hash i ip now expires d = Inr d' \<Longrightarrow> d' = d\<lparr>db_sessions := (db_sessions d)(hash \<mapsto>
     \<lparr>sw_UserID = i, sw_CreatedAt = msec now, sw_LastUsed = msec now, sw_ExpiresAt = msec expires, sw_IP = ip\<rparr>)\<rparr>"
  by (simp add: CreateSession_def split: if_splits)

lemma openSession_keeps:
  assumes "openSession env io u st = (r, st')"
  shows "ac_pending st' = ac_pending st" "recovery_of i (ac_db st') = recovery_of i (ac_db st)"
  using assms by (auto simp: openSession_def Let_def dest!: CreateSession_result split: option.splits sum.splits if_splits)

text \<open>The second factor a code was: the current authenticator code, a recovery code, which is gone afterwards, or the code made for this token.\<close>

definition recovers :: "login_env \<Rightarrow> user \<Rightarrow> string \<Rightarrow> accounts \<Rightarrow> bool" where
  "recovers env u code st' \<longleftrightarrow> us_TOTPEnabledAt u \<noteq> None \<and> recoveryHash (le_codes env) code \<in> set (us_TOTPRecovery u)
     \<and> recovery_of (us_ID u) (ac_db st') = Some (remove1 (recoveryHash (le_codes env) code) (us_TOTPRecovery u))"

lemma consume_hash_remove1: "consume_hash h hs = Some rest \<longleftrightarrow> h \<in> set hs \<and> rest = remove1 h hs"
  by (induction hs arbitrary: rest) (auto split: if_splits)


definition matches :: "login_env \<Rightarrow> call_io \<Rightarrow> accounts \<Rightarrow> string \<Rightarrow> string \<Rightarrow> user \<Rightarrow> accounts \<Rightarrow> bool" where
  "matches env io st token code u st' \<longleftrightarrow>
     us_TOTPEnabledAt u \<noteq> None \<and> VerifyTOTP (le_codes env) (us_TOTPSecret u) code (io_now io) \<or> recovers env u code st' \<or>
     us_EmailOTPEnabledAt u \<noteq> None \<and> (\<exists>ch. login_codes st token = Some ch \<and> io_now io \<le> ec_expiresAt ch \<and> emailCodeMatches (le_codes env) (ec_codeHash ch) code)"

definition awaited :: "call_io \<Rightarrow> accounts \<Rightarrow> string \<Rightarrow> user \<Rightarrow> bool" where
  "awaited io st token u \<longleftrightarrow> us_DisabledAt u = None
     \<and> (\<exists>pl. ac_pending st token = Some pl \<and> io_now io \<le> pl_expiresAt pl \<and> find_user (pl_userID pl) (ac_db st) = Some u)"

lemma awaited_user: "awaited io st token u \<Longrightarrow> find_user (us_ID u) (ac_db st) = Some u"
  using find_user_ID by (fastforce simp: awaited_def)

lemma awaits:
  assumes "peekPendingLogin (io_now io) token stb = (a, stc)" "a = Some pl" "still st stb" "still st stc"
    and "GetUser (io_fails io) (pl_userID pl) (ac_db stc) = Inr u" "us_DisabledAt u = None"
  shows "awaited io st token u"
  using peek_still[OF assms(1-3)] assms(4-6) by (auto simp: awaited_def GetUser_found still_db)

definition user_post :: "call_io \<Rightarrow> accounts \<Rightarrow> string \<Rightarrow> acc_error + user \<Rightarrow> accounts \<Rightarrow> bool" where
  "user_post io st token r st' = (still st st' \<and> (case r of Inl e \<Rightarrow> True | Inr u \<Rightarrow> awaited io st token u))"

lemma user_post_Inl: "still st st' \<Longrightarrow> user_post io st token (Inl e) st'"
  by (simp add: user_post_def)

lemma login2fa_user_post: "post (user_post io st token) (login2fa_user env io token st)"
  unfolding login2fa_user_def Let_def
proof (intro post_step[where P = "still st"] still_parts still_refl post_if post_option post_sum post_pair post_prod;
     (assumption | (rule user_post_Inl, assumption))?)
qed (auto simp: user_post_def intro: awaits)

lemma map_le_Some: "m \<subseteq>\<^sub>m m' \<Longrightarrow> m k = Some v \<Longrightarrow> m' k = Some v"
  by (metis domI map_le_def)

lemma still_entries:
  assumes "still st stb"
  shows "login_codes stb token = Some ch \<Longrightarrow> login_codes st token = Some ch" "ac_passkeyLogin stb token = Some ps \<Longrightarrow> ac_passkeyLogin st token = Some ps"
  using assms by (auto simp: still_def quiet_def intro: map_le_Some)

lemma code_checked:
  assumes "checkEmailChallenge env now (emailLoginSubject token) code stb = (True, stc)" "still st stb"
  shows "\<exists>ch. login_codes st token = Some ch \<and> now \<le> ec_expiresAt ch \<and> emailCodeMatches (le_codes env) (ec_codeHash ch) code"
  using assms still_entries(1)[OF assms(2)] by (auto simp: checkEmailChallenge_def login_codes_def split: option.splits if_splits)

lemma match_code_post:
  assumes "match_code env io u token code stb = (Inr m, stc)" "m \<noteq> NoMatch" "still st stb" "find_user (us_ID u) (ac_db st) = Some u"
    and "recovery_of (us_ID u) (ac_db st') = recovery_of (us_ID u) (ac_db stc)"
  shows "matches env io st token code u st'"
proof (cases "us_TOTPEnabledAt u \<noteq> None \<and> VerifyTOTP (le_codes env) (us_TOTPSecret u) code (io_now io)")
  case True
  then show ?thesis by (simp add: matches_def)
next
  case no_totp: False
  obtain rest used where rec: "consumeRecoveryCode (le_codes env) (us_TOTPRecovery u) code = (rest, used)" by fastforce
  show ?thesis
  proof (cases "us_TOTPEnabledAt u \<noteq> None \<and> used")
    case True
    then have r: "recoveryHash (le_codes env) code \<in> set (us_TOTPRecovery u)" "rest = remove1 (recoveryHash (le_codes env) code) (us_TOTPRecovery u)"
      using rec by (auto simp: consumeRecoveryCode_def consume_hash_remove1 split: option.splits)
    obtain d where d: "SetTOTP (io_fails io) (us_ID u) (us_TOTPSecret u) (us_TOTPEnabledAt u) rest (ac_db stb) = Inr d" "stc = stb\<lparr>ac_db := d\<rparr>"
      using assms(1) no_totp True rec by (auto simp: match_code_def Let_def split: sum.splits if_splits)
    have "find_user (us_ID u) d = map_option (\<lambda>v. if us_ID v = us_ID u then v\<lparr>us_TOTPSecret := us_TOTPSecret u,
        us_TOTPEnabledAt := stored (us_TOTPEnabledAt u), us_TOTPRecovery := rest\<rparr> else v) (find_user (us_ID u) (ac_db stb))"
      using d(1) unfolding SetTOTP_def by (rule update_user_find) simp
    then have "recovery_of (us_ID u) d = Some rest" using assms(3,4) by (simp add: recovery_of_def still_db)
    then show ?thesis using True r d(2) assms(5) by (simp add: matches_def recovers_def)
  next
    case False
    then show ?thesis using assms(1,2) no_totp rec code_checked[OF _ assms(3), of env "io_now io" token code stc]
      by (auto simp: match_code_def matches_def Let_def split: if_splits prod.splits)
  qed
qed

lemma Login2FA_opened:
  assumes "Login2FA env io token code st = (Inr (secret, u), st')"
  shows "awaited io st token u" "matches env io st token code u st'" "ac_pending st' token = None"
proof -
  obtain stb where b: "login2fa_user env io token st = (Inr u, stb)" "login2fa_finish env io u token code stb = (Inr (secret, u), st')"
    using assms by (auto simp: Login2FA_def login2fa_finish_def split: prod.splits sum.splits if_splits)
  have s: "still st stb" "awaited io st token u" using login2fa_user_post[of io st token env] b(1) by (auto simp: post_def user_post_def)
  obtain m stc std where c: "match_code env io u token code stb = (Inr m, stc)" "m \<noteq> NoMatch"
      "openSession env io u (consumePendingLogin token (note_success (us_Username u) stc)) = (Inr secret, std)"
      "st' = auditUser io u ''login'' (via_text m) (io_ip io) std"
    using b(2) by (auto simp: login2fa_finish_def split: prod.splits sum.splits if_splits)
  note k = openSession_keeps[OF c(3)]
  have "ac_db st' = ac_db std" "ac_pending st' = ac_pending std" by (simp_all add: c(4))
  then have "recovery_of (us_ID u) (ac_db st') = recovery_of (us_ID u) (ac_db stc)" "ac_pending st' token = None"
    using k by (simp_all add: consumePendingLogin_def note_success_def)
  then show "awaited io st token u" "matches env io st token code u st'" "ac_pending st' token = None"
    using s match_code_post[OF c(1,2) s(1) awaited_user[OF s(2)]] by simp_all
qed

definition presented :: "login_env \<Rightarrow> call_io \<Rightarrow> accounts \<Rightarrow> string \<Rightarrow> relying_party \<Rightarrow> string \<Rightarrow> user \<Rightarrow> bool" where
  "presented env io st token rp response u \<longleftrightarrow> (\<exists>ps. ac_passkeyLogin st token = Some ps \<and> io_now io \<le> ps_expiresAt ps
     \<and> le_finishLogin env rp u (ps_data ps) response \<noteq> None)"

lemma key_presented:
  assumes "(case ac_passkeyLogin stc token of None \<Rightarrow> None | Some s \<Rightarrow> if io_now io > ps_expiresAt s then None else Some (ps_data s)) = Some session"
    and "still st stc" "le_finishLogin env rp u session response = Some x"
  shows "presented env io st token rp response u"
  using assms still_entries(2)[OF assms(2)] by (auto simp: presented_def split: option.splits if_splits)

lemma post_opens:
  "(\<And>a st'. openSession env io u st = (a, st') \<Longrightarrow> ac_pending st' = ac_pending st \<Longrightarrow> post Q (f a st')) \<Longrightarrow> post Q (case openSession env io u st of (a, st') \<Rightarrow> f a st')"
  by (rule post_prod) (blast dest: openSession_keeps(1))

definition key_opened :: "login_env \<Rightarrow> call_io \<Rightarrow> accounts \<Rightarrow> string \<Rightarrow> relying_party \<Rightarrow> string \<Rightarrow> acc_error + string \<times> user \<Rightarrow> accounts \<Rightarrow> bool" where
  "key_opened env io st token rp response r st' \<longleftrightarrow> (case r of Inl e \<Rightarrow> True
     | Inr (secret, u) \<Rightarrow> awaited io st token u \<and> ac_pending st' token = None \<and> presented env io st token rp response u)"

lemma key_opened_Inr:
  assumes "peekPendingLogin (io_now io) token sta = (a, stb)" "a = Some pl" "still st sta" "still st stb"
    and "GetUser (io_fails io) (pl_userID pl) (ac_db stb) = Inr u" "\<not> (us_DisabledAt u \<noteq> None \<or> b)"
    and "(case ac_passkeyLogin stc token of None \<Rightarrow> None | Some s \<Rightarrow> if io_now io > ps_expiresAt s then None else Some (ps_data s)) = Some session"
    and "still st stc" "le_finishLogin env rp u session response = Some x" "ac_pending std token = None"
  shows "key_opened env io st token rp response (Inr (secret, u)) (auditUser io u a' d ip std)"
  using awaits[OF assms(1-5)] key_presented[OF assms(7-9)] assms(6,10) by (simp add: key_opened_def)

lemma FinishKey_post: "post (key_opened env io st token rp response) (FinishPasskeyLogin env io token rp response st)"
  unfolding FinishPasskeyLogin_def Let_def takePasskey_def prod.case
  by (intro post_opens post_step[where P = "still st"] still_parts still_refl post_if post_option post_sum post_pair post_prod;
    (assumption | (simp add: key_opened_def; fail) | (rule key_opened_Inr; (assumption | simp add: consumePendingLogin_def))))


lemma still_way:
  "still s st \<Longrightarrow> post (\<lambda>_. still s) (allowReg io key st)" "still s st \<Longrightarrow> post (\<lambda>_. still s) (allowAll io st)"
  "still s st \<Longrightarrow> post (\<lambda>_. still s) (register_way env c io name invite g st)"
proof -
  assume s: "still s st"
  then have "quiet s st" by (rule still_quiet)
  have a: "post (\<lambda>_. still s) (allowReg io key st)" for key
    using s by (auto simp: allowReg_def post_def still_def split: prod.split)
  then show "post (\<lambda>_. still s) (allowReg io key st)" .
  show "post (\<lambda>_. still s) (allowAll io st)" using s by (auto simp: allowAll_def post_def still_def split: prod.split)
  have "post (\<lambda>_. still s) (PreviewInvite env io invite st)"
    unfolding PreviewInvite_def Let_def by (intro post_rules a s; (assumption | simp))
  then show "post (\<lambda>_. still s) (register_way env c io name invite g st)"
    unfolding register_way_def Let_def using s by (intro post_rules; (assumption | simp))
qed

lemma CreateUser_new: "CreateUser fl u d = Inr d' \<Longrightarrow> find_user (us_ID u) d = None"
  by (auto simp: CreateUser_def find_user_def find_None_iff list_ex_iff split: if_splits)

definition new_account :: "accounts \<Rightarrow> acc_error + string \<times> user \<Rightarrow> accounts \<Rightarrow> bool" where
  "new_account st r st' \<longleftrightarrow> (case r of Inl e \<Rightarrow> True | Inr (secret, u) \<Rightarrow> find_user (us_ID u) (ac_db st) = None)"

lemma post_way: "(\<And>a st'. post Q (f a st')) \<Longrightarrow> post Q (case (case way of Inl iv \<Rightarrow> A iv | Inr n \<Rightarrow> B n) of (a, st') \<Rightarrow> f a st')"
  by (rule post_prod) blast

lemma Register_post: "post (new_account st) (Register env c io name pw invite g st)"
  unfolding Register_def Let_def
  by (intro post_way post_opens post_step[where P = "still st"] still_way still_refl post_if post_option post_sum post_pair post_prod;
    (assumption | (simp add: new_account_def; fail) | (auto simp: new_account_def still_db dest!: CreateUser_new; fail)))

text \<open>
  What a sign-in that opened a session went through, by what the log tells.
\<close>

definition waited_for :: "login_env \<Rightarrow> acc_event list \<Rightarrow> call_io \<Rightarrow> accounts \<Rightarrow> string \<Rightarrow> user \<Rightarrow> bool" where
  "waited_for env tr io st token u \<longleftrightarrow> find_user (us_ID u) (ac_db st) = Some u \<and> us_DisabledAt u = None
     \<and> (\<exists>t. given_out env tr token = Some (us_ID u, t) \<and> io_now io \<le> t + PendingLoginTTL)"

definition vouched :: "login_env \<Rightarrow> acc_event list \<Rightarrow> call_io \<Rightarrow> acc_call \<Rightarrow> accounts \<Rightarrow> user \<Rightarrow> accounts \<Rightarrow> bool" where
  "vouched env tr io call st u st' = (case call of
       SignInWith name pw \<Rightarrow> knows env io name pw st u \<and> twoFactorMethods u = []
     | SignInSSO name \<Rightarrow> GetUserByName (io_fails io) (le_lower env (trim_space name)) (ac_db st) = Inr u \<and> us_DisabledAt u = None
     | SignUp name pw invite g \<Rightarrow> find_user (us_ID u) (ac_db st) = None
     | Enter2FA token code \<Rightarrow> waited_for env tr io st token u \<and>
         (us_TOTPEnabledAt u \<noteq> None \<and> VerifyTOTP (le_codes env) (us_TOTPSecret u) code (io_now io) \<or> recovers env u code st'
          \<or> us_EmailOTPEnabledAt u \<noteq> None \<and> (\<exists>h t. made_code env tr token = Some (h, t) \<and> io_now io \<le> t + emailChallengeTTL \<and> emailCodeMatches (le_codes env) h code))
     | FinishKeyLogin token rp response \<Rightarrow> waited_for env tr io st token u \<and>
         (\<exists>session t. begun_key env tr token = Some (session, t) \<and> io_now io \<le> t + webauthnCeremonyTTL \<and> le_finishLogin env rp u session response \<noteq> None)
     | _ \<Rightarrow> False)"

lemma SSO_opened: "LoginSSO env io name st = (Inr (secret, u), st') \<Longrightarrow>
    GetUserByName (io_fails io) (le_lower env (trim_space name)) (ac_db st) = Inr u \<and> us_DisabledAt u = None"
  by (auto simp: LoginSSO_def Let_def allowIP_def split: prod.splits sum.splits if_splits option.splits)

lemma opened_by_Opened: "opened_by r = (Opened secret u, st') \<longleftrightarrow> r = (Inr (secret, u), st')"
  by (auto simp: opened_by_def split: prod.splits sum.splits)

lemma not_opened:
  "answer r \<noteq> (Opened secret u, st')" "knowing r' \<noteq> (Opened secret u, st')"
  by (auto simp: answer_def knowing_def split: prod.splits sum.splits)

lemma only_sign_ins_open:
  "own_step env io p oc st \<noteq> (Opened secret u, st')" "org_step env c io p gc st \<noteq> (Opened secret u, st')" "host_step env c io h st \<noteq> (Opened secret u, st')"
  subgoal by (cases oc; simp add: not_opened)
  subgoal by (cases gc; simp add: not_opened)
  subgoal by (cases h; simp add: not_opened split: prod.splits sum.splits option.splits)
  done

lemma told_awaited: "told_by env tr st \<Longrightarrow> awaited io st token u \<Longrightarrow> waited_for env tr io st token u"
  using find_user_ID by (fastforce simp: told_by_def awaited_def waited_for_def)

lemma opened_vouched:
  assumes "told_by env tr st" "acc_step env c io call st = (Opened secret u, st')"
  shows "vouched env tr io call st u st'"
proof (cases call)
  case (SignInWith name pw)
  then show ?thesis using assms(2) Login_post[of env io name pw st] by (auto simp: opened_by_Opened vouched_def post_def login_post_def)
next
  case (SignInSSO name)
  then show ?thesis using assms(2) SSO_opened by (fastforce simp: opened_by_Opened vouched_def)
next
  case (Enter2FA token code)
  then have l: "Login2FA env io token code st = (Inr (secret, u), st')" using assms(2) by (simp add: opened_by_Opened)
  have "\<exists>h t. made_code env tr token = Some (h, t) \<and> io_now io \<le> t + emailChallengeTTL \<and> emailCodeMatches (le_codes env) h code"
    if "login_codes st token = Some ch" "io_now io \<le> ec_expiresAt ch" "emailCodeMatches (le_codes env) (ec_codeHash ch) code" for ch
    using assms(1) that by (fastforce simp: told_by_def)
  then show ?thesis using Login2FA_opened[OF l] told_awaited[OF assms(1)] Enter2FA by (auto simp: vouched_def matches_def)
next
  case (FinishKeyLogin token rp response)
  then have "key_opened env io st token rp response (Inr (secret, u)) st'"
    using assms(2) FinishKey_post[of env io st token rp response] by (auto simp: opened_by_Opened post_def)
  moreover have "\<exists>session t. begun_key env tr token = Some (session, t) \<and> io_now io \<le> t + webauthnCeremonyTTL \<and> le_finishLogin env rp u session response \<noteq> None"
    if "ac_passkeyLogin st token = Some ps" "io_now io \<le> ps_expiresAt ps" "le_finishLogin env rp u (ps_data ps) response \<noteq> None" for ps
    using assms(1) that by (fastforce simp: told_by_def)
  ultimately show ?thesis using told_awaited[OF assms(1)] FinishKeyLogin by (auto simp: vouched_def key_opened_def presented_def)
next
  case (SignUp name pw invite g)
  then show ?thesis using assms(2) Register_post[of st env c io name pw invite g] by (auto simp: opened_by_Opened vouched_def post_def new_account_def)
qed (use assms(2) only_sign_ins_open in \<open>auto simp: not_opened opened_by_Opened\<close>)


definition silent :: "login_env \<Rightarrow> acc_event \<Rightarrow> bool" where
  "silent env e \<longleftrightarrow> (\<forall>token. gives_out env e token = None \<and> makes_code env e token = None \<and> begins_key env e token = None)"

lemma told_quiet:
  assumes "told_by env tr st" "quiet st st'" "silent env e" "\<And>token. spends token e \<Longrightarrow> ac_pending st' token = None"
  shows "told_by env (e # tr) st'"
proof -
  have "ac_pending st token = Some pl \<and> \<not> spends token e" if "ac_pending st' token = Some pl" for token pl
    using that assms(2,4) map_le_Some by (fastforce simp: quiet_def)
  moreover have "login_codes st token = Some ch" if "login_codes st' token = Some ch" for token ch
    using that assms(2) map_le_Some by (fastforce simp: quiet_def)
  moreover have "ac_passkeyLogin st token = Some ps" if "ac_passkeyLogin st' token = Some ps" for token ps
    using that assms(2) map_le_Some by (fastforce simp: quiet_def)
  ultimately show ?thesis using assms(1,3) by (auto simp: told_by_def silent_def)
qed

lemma told_gives:
  assumes "told_by env tr st" "gives_out env e token = Some (uid, t)" "\<And>token. makes_code env e token = None \<and> begins_key env e token = None"
    and "\<And>token'. token' \<noteq> token \<Longrightarrow> gives_out env e token' = None" "\<And>token. \<not> spends token e"
    and "quiet (st\<lparr>ac_pending := (ac_pending st)(token \<mapsto> \<lparr>pl_userID = uid, pl_expiresAt = t + PendingLoginTTL, pl_methods = methods\<rparr>)\<rparr>) st'"
  shows "told_by env (e # tr) st'"
proof -
  have "given_out env (e # tr) token' = Some (pl_userID pl, pl_expiresAt pl - PendingLoginTTL)" if "ac_pending st' token' = Some pl" for token' pl
  proof -
    have "((ac_pending st)(token \<mapsto> \<lparr>pl_userID = uid, pl_expiresAt = t + PendingLoginTTL, pl_methods = methods\<rparr>)) token' = Some pl"
      using assms(6) that map_le_Some by (fastforce simp: quiet_def)
    then show ?thesis using assms(1,2,4,5) by (cases "token' = token") (auto simp: told_by_def)
  qed
  moreover have "login_codes st token = Some ch" if "login_codes st' token = Some ch" for token ch
    using that assms(6) map_le_Some by (fastforce simp: quiet_def)
  moreover have "ac_passkeyLogin st token = Some ps" if "ac_passkeyLogin st' token = Some ps" for token ps
    using that assms(6) map_le_Some by (fastforce simp: quiet_def)
  ultimately show ?thesis using assms(1,3) by (auto simp: told_by_def)
qed

lemma told_makes:
  assumes "told_by env tr st" "makes_code env e token = Some (h, t)" "\<And>token. gives_out env e token = None \<and> begins_key env e token = None"
    and "\<And>token'. token' \<noteq> token \<Longrightarrow> makes_code env e token' = None" "\<And>token. \<not> spends token e"
    and "ac_pending st' \<subseteq>\<^sub>m ac_pending st" "ac_passkeyLogin st' \<subseteq>\<^sub>m ac_passkeyLogin st" "login_codes st' \<subseteq>\<^sub>m (login_codes st)(token \<mapsto> ch)"
    and "ec_codeHash ch = h" "ec_expiresAt ch = t + emailChallengeTTL"
  shows "told_by env (e # tr) st'"
proof -
  have "made_code env (e # tr) token' = Some (ec_codeHash x, ec_expiresAt x - emailChallengeTTL)" if "login_codes st' token' = Some x" for token' x
    using map_le_Some[OF assms(8) that] assms(1,2,4,9,10) by (cases "token' = token") (auto simp: told_by_def)
  then show ?thesis using assms(1,3,5) map_le_Some[OF assms(6)] map_le_Some[OF assms(7)] by (auto simp: told_by_def)
qed

lemma told_begins:
  assumes "told_by env tr st" "begins_key env e token = Some (session, t)" "\<And>token. gives_out env e token = None \<and> makes_code env e token = None"
    and "\<And>token'. token' \<noteq> token \<Longrightarrow> begins_key env e token' = None" "\<And>token. \<not> spends token e"
    and "quiet (st\<lparr>ac_passkeyLogin := (ac_passkeyLogin st)(token \<mapsto> \<lparr>ps_data = session, ps_expiresAt = t + webauthnCeremonyTTL\<rparr>)\<rparr>) st'"
  shows "told_by env (e # tr) st'"
proof -
  have le: "ac_pending st' \<subseteq>\<^sub>m ac_pending st" "login_codes st' \<subseteq>\<^sub>m login_codes st"
    "ac_passkeyLogin st' \<subseteq>\<^sub>m (ac_passkeyLogin st)(token \<mapsto> \<lparr>ps_data = session, ps_expiresAt = t + webauthnCeremonyTTL\<rparr>)"
    using assms(6) by (simp_all add: quiet_def)
  have "begun_key env (e # tr) token' = Some (ps_data x, ps_expiresAt x - webauthnCeremonyTTL)" if "ac_passkeyLogin st' token' = Some x" for token' x
    using map_le_Some[OF le(3) that] assms(1,2,4) by (cases "token' = token") (auto simp: told_by_def)
  then show ?thesis using assms(1,3,5) map_le_Some[OF le(1)] map_le_Some[OF le(2)] by (auto simp: told_by_def)
qed

lemma errTwoFactor_token: "errTwoFactorRequired token methods = TwoFactorRequired token' methods' t \<Longrightarrow> token' = token"
  by (simp add: errTwoFactorRequired_def Let_def)

lemma errTwoFactor_form: "\<exists>t. errTwoFactorRequired token methods = TwoFactorRequired token methods t"
  by (simp add: errTwoFactorRequired_def Let_def)

lemma told_login:
  assumes "told_by env tr st" "opened_by (Login env io name pw st) = (r, st')"
  shows "told_by env ((io, SignInWith name pw, r, st) # tr) st'"
proof -
  obtain x where l: "Login env io name pw st = (x, st')" using assms(2) by (auto simp: opened_by_def split: prod.splits sum.splits)
  have p: "login_post env io name pw st x st'" using Login_post[of env io name pw st] l by (simp add: post_def)
  show ?thesis
  proof (cases x)
    case (Inr su)
    then show ?thesis using p assms l
      by (cases su) (auto simp: login_post_def opened_by_def silent_def gives_out_def makes_code_def begins_key_def spends_def intro!: told_quiet)
  next
    case (Inl e)
    then have r: "r = Refused e" using assms(2) l by (simp add: opened_by_def)
    consider "quiet st st'" "\<forall>token methods t. e \<noteq> TwoFactorRequired token methods t"
      | token u where "e = errTwoFactorRequired token (twoFactorMethods u)" "knows env io name pw st u" "twoFactorMethods u \<noteq> []"
         "quiet (st\<lparr>ac_pending := (ac_pending st)(token \<mapsto> \<lparr>pl_userID = us_ID u, pl_expiresAt = io_now io + PendingLoginTTL, pl_methods = twoFactorMethods u\<rparr>)\<rparr>) st'"
      using p Inl by (auto simp: login_post_def)
    then show ?thesis
    proof cases
      case 1
      then show ?thesis using assms(1) r
        by (intro told_quiet) (auto simp: silent_def gives_out_def makes_code_def begins_key_def spends_def split: acc_error.splits)
    next
      case 2
      obtain t where t: "e = TwoFactorRequired token (twoFactorMethods u) t" using 2(1) errTwoFactor_form by metis
      have g: "GetUserByName (io_fails io) (le_lower env (trim_space name)) (ac_db st) = Inr u" using 2(2) by (simp add: knows_def)
      show ?thesis using assms(1) 2(2-4) r t g
        by (intro told_gives) (auto simp: gives_out_def makes_code_def begins_key_def spends_def)
    qed
  qed
qed


lemmas event_defs = silent_def gives_out_def makes_code_def begins_key_def spends_def

lemma told_ask:
  assumes "told_by env tr st" "answer (RequestLoginEmailCode env io token st) = (r, st')"
  shows "told_by env ((io, AskCode token, r, st) # tr) st'"
proof -
  obtain x where l: "RequestLoginEmailCode env io token st = (x, st')" "r = (case x of Inl e \<Rightarrow> Refused e | Inr u \<Rightarrow> Answered)"
    using assms(2) by (auto simp: answer_def split: prod.splits sum.splits)
  have p: "asked_post env io token st x st'" using AskCode_post[of env io token st] l by (simp add: post_def)
  then consider "quiet st st'" "x \<noteq> Inr ()" "x \<noteq> Inl MailNotSent"
    | code ch where "x = Inr () \<or> x = Inl MailNotSent" "NewEmailCode (io_code io) = Some code" "ec_codeHash ch = emailCodeHash (le_codes env) code"
      "ec_expiresAt ch = io_now io + emailChallengeTTL" "ac_pending st' \<subseteq>\<^sub>m ac_pending st" "ac_passkeyLogin st' \<subseteq>\<^sub>m ac_passkeyLogin st"
      "login_codes st' \<subseteq>\<^sub>m (login_codes st)(token \<mapsto> ch)"
    by (auto simp: asked_post_def)
  then show ?thesis
  proof cases
    case 1
    then show ?thesis using assms(1) l(2) by (intro told_quiet) (auto simp: event_defs split: sum.splits)
  next
    case 2
    then show ?thesis using assms(1) l(2)
      by (intro told_makes[where token = token and ch = ch and h = "emailCodeHash (le_codes env) code" and t = "io_now io"]) (auto simp: event_defs)
  qed
qed

lemma told_key:
  assumes "told_by env tr st" "answer (BeginPasskeyLogin env io token rp st) = (r, st')"
  shows "told_by env ((io, BeginKeyLogin token rp, r, st) # tr) st'"
proof -
  obtain x where l: "BeginPasskeyLogin env io token rp st = (x, st')" "r = (case x of Inl e \<Rightarrow> Refused e | Inr u \<Rightarrow> Answered)"
    using assms(2) by (auto simp: answer_def split: prod.splits sum.splits)
  have p: "key_post env io token rp st x st'" using BeginKey_post[of env io token rp st] l by (simp add: post_def)
  show ?thesis
  proof (cases x)
    case (Inl e)
    then show ?thesis using assms(1) l(2) p by (intro told_quiet) (auto simp: event_defs key_post_def)
  next
    case (Inr options)
    then obtain pl u session where "ac_pending st token = Some pl" "find_user (pl_userID pl) (ac_db st) = Some u" "le_beginLogin env rp u = Some (options, session)"
        "quiet (st\<lparr>ac_passkeyLogin := (ac_passkeyLogin st)(token \<mapsto> \<lparr>ps_data = session, ps_expiresAt = io_now io + webauthnCeremonyTTL\<rparr>)\<rparr>) st'"
      using p by (auto simp: key_post_def)
    then show ?thesis using assms(1) l(2) Inr by (intro told_begins) (auto simp: event_defs)
  qed
qed

lemma told_opening:
  assumes "told_by env tr st" "acc_step env c io call st = (r, st')" "quiet st st'" "\<And>name pw. call \<noteq> SignInWith name pw"
    "\<And>token. call \<noteq> AskCode token" "\<And>token rp. call \<noteq> BeginKeyLogin token rp"
    and "\<And>token code secret u. call = Enter2FA token code \<Longrightarrow> r = Opened secret u \<Longrightarrow> ac_pending st' token = None"
    and "\<And>token rp response secret u. call = FinishKeyLogin token rp response \<Longrightarrow> r = Opened secret u \<Longrightarrow> ac_pending st' token = None"
  shows "told_by env ((io, call, r, st) # tr) st'"
  using assms by (intro told_quiet) (auto simp: event_defs split: acc_call.splits acc_result.splits)

lemma post_quietD: "post (\<lambda>_. quiet st) r \<Longrightarrow> r = (a, st') \<Longrightarrow> quiet st st'"
  by (simp add: post_def)

lemma told_step:
  assumes "told_by env tr st" "acc_step env c io call st = (r, st')"
  shows "told_by env ((io, call, r, st) # tr) st'"
proof -
  consider name pw where "call = SignInWith name pw" | token where "call = AskCode token" | token rp where "call = BeginKeyLogin token rp"
    | "call = Host Restart" | "\<And>name pw. call \<noteq> SignInWith name pw" "\<And>token. call \<noteq> AskCode token" "\<And>token rp. call \<noteq> BeginKeyLogin token rp" "call \<noteq> Host Restart"
    by blast
  then show ?thesis
  proof cases
    case 4
    then have "st' = (newAuthState (ac_db st))\<lparr>ac_audit := ac_audit st, ac_mail := ac_mail st\<rparr>" using assms(2) by simp
    then show ?thesis by (simp add: told_by_def newAuthState_def login_codes_def)
  next
    case 5
    have "post (\<lambda>_. quiet st) (acc_step env c io call st)"
      using 5 by (cases call) (auto intro!: post_opened post_known post_answer quiet_others quiet_Register quiet_preview quiet_own_step quiet_org_step quiet_host_step)
    then have q: "quiet st st'" using assms(2) by (rule post_quietD)
    show ?thesis using assms q 5
      by (intro told_opening) (auto simp: opened_by_Opened dest!: Login2FA_opened(3) FinishKey_post[THEN postD] simp: key_opened_def)
  qed (use assms in \<open>auto intro: told_login told_ask told_key\<close>)
qed

lemma reach_told: "acc_reach env c tr st \<Longrightarrow> told_by env tr st"
proof (induction rule: acc_reach.induct)
  case reach_start
  then show ?case by (simp add: told_by_def newAuthState_def login_codes_def)
next
  case (reach_call tr st io call r st')
  then show ?case using told_step by blast
qed

text \<open>
  Whatever calls were made since the database was empty, one after the other and restarts included: a call that opens a session for an account is a sign-in with the
  account's password when it has no second factor; an identity the proxy vouches for; a registration that made the account; or the completion of a
  sign-in whose token was given out at most five minutes before to someone who knew the password of this same account and has not opened a session since,
  with the current authenticator code, a recovery code that is gone afterwards, the code mailed for that token at most ten minutes before, or a passkey
  whose ceremony was begun for that token at most five minutes before. An account that was there before was enabled.
\<close>

theorem session_needs_factors:
  assumes "acc_reach env c tr st" "acc_step env c io call st = (Opened secret u, st')"
  shows "vouched env tr io call st u st'"
  using opened_vouched[OF reach_told[OF assms(1)] assms(2)] .


subsection \<open>A first sign-in\<close>

definition demo_env :: login_env where
  "demo_env = \<lparr>le_codes = toy_codes, le_lower = to_lower, le_limit_key = (\<lambda>ip. ip), le_argon = toy_argon, le_dummyHash = [],
     le_text = \<lparr>tx_runes = map of_char, tx_digit = (\<lambda>r. 48 \<le> r \<and> r \<le> 57), tx_letter = (\<lambda>r. 65 \<le> r \<and> r \<le> 122), tx_fold = (=)\<rparr>,
     le_email = Some, le_quote = (\<lambda>s. s), le_error_text = (\<lambda>_. []), le_is_ip = (\<lambda>_. False), le_has_passkeys = False,
     le_beginRegistration = (\<lambda>_ _. None), le_finishRegistration = (\<lambda>_ _ _ _. None), le_beginLogin = (\<lambda>_ _. None), le_finishLogin = (\<lambda>_ _ _ _. None)\<rparr>"

definition demo_cfg :: reg_cfg where "demo_cfg = \<lparr>rc_Mode = ''open'', rc_SingleOrg = False, rc_DefaultOrg = []\<rparr>"

definition demo_rnd :: string where "demo_rnd = replicate 32 (CHR ''k'')"

definition demo_secret :: string where "demo_secret = sessionPrefix @ encode64 demo_rnd"

definition demo_io :: "time \<Rightarrow> call_io" where
  "demo_io t = \<lparr>io_fails = (\<lambda>_. False), io_rnd = Some demo_rnd, io_salt = Some ''0123456789abcdef'', io_rnds = [], io_code = Some 7, io_id = ''a'', io_orgid = ''b'',
     io_busy = False, io_mail = True, io_now = t, io_ip = ''10.0.0.1''\<rparr>"

definition demo_pw :: string where "demo_pw = ''correct horse 1''"

definition demo_hash :: string where "demo_hash = the (HashPassword toy_argon demo_pw (Some ''0123456789abcdef''))"

lemma demo_hash_ok: "HashPassword toy_argon demo_pw (Some ''0123456789abcdef'') = Some demo_hash" "VerifyPassword toy_argon demo_pw demo_hash = Some True"
proof -
  show h: "HashPassword toy_argon demo_pw (Some ''0123456789abcdef'') = Some demo_hash" by (simp add: demo_hash_def HashPassword_def)
  show "VerifyPassword toy_argon demo_pw demo_hash = Some True" unfolding demo_hash_def demo_pw_def
    
    using VerifyPassword_stored[where argon = toy_argon, OF _ toy_argon_length h] by (simp add: demo_hash_def demo_pw_def)
qed


definition demo_user :: user where
  "demo_user = \<lparr>us_ID = ''u-61'', us_Username = ''admin'', us_PasswordHash = demo_hash, us_MustChange = False, us_CreatedAt = 0, us_DisabledAt = None,
     us_LastLogin = None, us_TOTPSecret = [], us_TOTPEnabledAt = None, us_TOTPRecovery = [], us_Email = [], us_EmailVerifiedAt = None,
     us_EmailOTPEnabledAt = None, us_WebAuthn = []\<rparr>"

definition demo_db :: acc_db where
  "demo_db = \<lparr>db_users = [demo_user], db_orgs = [\<lparr>og_ID = ''default'', og_Name = ''Default'', og_CreatedAt = 0, og_CreatedBy = ''u-61''\<rparr>],
     db_members = [\<lparr>mb_OrgID = ''default'', mb_UserID = ''u-61'', mb_Role = ''owner'', mb_CreatedAt = 0, mb_AddedBy = []\<rparr>], db_invites = [],
     db_sessions = Map.empty, db_tokens = []\<rparr>"

lemma demo_io_sel [simp]:
  "io_fails (demo_io t) = (\<lambda>_. False)" "io_rnd (demo_io t) = Some demo_rnd" "io_salt (demo_io t) = Some ''0123456789abcdef''" "io_id (demo_io t) = ''a''"
  "io_busy (demo_io t) = False" "io_now (demo_io t) = t" "io_ip (demo_io t) = ''10.0.0.1''"
  by (simp_all add: demo_io_def)

lemma demo_env_sel [simp]: "le_argon demo_env = toy_argon" "le_lower demo_env = to_lower" "le_limit_key demo_env = (\<lambda>ip. ip)"
  by (simp_all add: demo_env_def)

lemma demo_policy: "CheckPasswordPolicy (le_text demo_env) ''admin'' demo_pw = None"
  unfolding demo_pw_def demo_env_def by code_simp

lemma hex_a: "hex ''a'' = ''61''" by code_simp

lemma demo_boot:
  "acc_step demo_env demo_cfg (demo_io 0) (Host (Bootstrap demo_pw)) (newAuthState empty_db)
     = (Answered, AuditOrg (demo_io 0) ''default'' ''system'' ''user-created'' ''user'' ''u-61'' ''first administrator'' (newAuthState demo_db))"
proof -
  have n: "demo_pw \<noteq> []" by (simp add: demo_pw_def)
  have m: "MainOrg demo_cfg = ''default''" by (simp add: MainOrg_def demo_cfg_def firstNonEmpty_def)
  have h: "hashPassword demo_env (demo_io 0) demo_pw = Inr demo_hash" by (simp add: hashPassword_def demo_hash_ok)
  show ?thesis
    by (simp add: BootstrapAdmin_def n m h demo_policy empty_db_def newAuthState_def answer_def CreateUser_def CreateOrgRow_def new_user_def hex_a find_user_def
        Let_def demo_db_def demo_user_def msec_def of_msec_def)
qed

definition demo_st :: accounts where
  "demo_st = AuditOrg (demo_io 0) ''default'' ''system'' ''user-created'' ''user'' ''u-61'' ''first administrator'' (newAuthState demo_db)"

lemma demo_reach: "acc_reach demo_env demo_cfg [(demo_io 0, Host (Bootstrap demo_pw), Answered, newAuthState empty_db)] demo_st"
  using reach_call[OF reach_start demo_boot] by (simp add: demo_st_def)

lemma new_limiter_allows: "0 < burst \<Longrightarrow> fst (Allow key now (NewLimiter perMinute burst))"
  by (simp add: Allow_def NewLimiter_def sweep_def sweep_back.simps make_room.simps Let_def refilled_def)

lemma new_tracker_waits: "Blocked name now NewFailureTracker = (0, NewFailureTracker)"
  by (simp add: Blocked_def NewFailureTracker_def)

lemma demo_name: "to_lower (trim_space ''Admin'') = ''admin''"
  by code_simp

lemma demo_sign_in:
  "\<exists>st0 st'. ac_db st0 = demo_db \<and> openSession demo_env (demo_io second) demo_user st0 = (Inr demo_secret, st')
     \<and> acc_step demo_env demo_cfg (demo_io second) (SignInWith ''Admin'' demo_pw) demo_st
       = (Opened demo_secret demo_user, auditUser (demo_io second) demo_user ''login'' [] ''10.0.0.1'' st')"
proof -
  have f: "ac_loginIP demo_st = NewLimiter 30 10" "ac_loginUser demo_st = NewLimiter 6 5" "ac_failures demo_st = NewFailureTracker" "ac_db demo_st = demo_db"
    by (simp_all add: demo_st_def AuditOrg_def newAuthState_def)
  have g: "GetUserByName (\<lambda>_. False) ''admin'' demo_db = Inr demo_user"
    by (simp add: GetUserByName_def demo_db_def demo_user_def to_lower_def)
  have u: "us_PasswordHash demo_user = demo_hash" "us_DisabledAt demo_user = None" "twoFactorMethods demo_user = []" "us_ID demo_user = ''u-61''"
    by (simp_all add: demo_user_def twoFactorMethods_def)
  have l: "length demo_pw = 15" by (simp add: demo_pw_def)
  have cs: "CreateSession (\<lambda>_. False) h ''u-61'' ip n e demo_db \<noteq> Inl x" for h ip n e x
    by (simp add: CreateSession_def demo_db_def demo_user_def find_user_def)
  have o: "\<exists>st'. openSession demo_env (demo_io second) demo_user st = (Inr demo_secret, st')" if "ac_db st = demo_db" for st
    using that cs by (cases "CreateSession (\<lambda>_. False) (HashSecret demo_env demo_secret) ''u-61'' ''10.0.0.1'' second (second + SessionMax) demo_db")
      (auto simp: openSession_def newSessionSecret_def demo_secret_def u Let_def)
  obtain l1 where l1: "Allow ''10.0.0.1'' second (NewLimiter 30 10) = (True, l1)"
    using new_limiter_allows[of 10 "''10.0.0.1''" second 30] by (cases "Allow ''10.0.0.1'' second (NewLimiter 30 10)") auto
  obtain l2 where l2: "Allow ''10.0.0.1|admin'' second (NewLimiter 6 5) = (True, l2)"
    using new_limiter_allows[of 5 "''10.0.0.1|admin''" second 6] by (cases "Allow ''10.0.0.1|admin'' second (NewLimiter 6 5)") auto
  define sb where "sb = demo_st\<lparr>ac_loginIP := l1, ac_loginUser := l2, ac_failures := NewFailureTracker\<rparr>"
  have sb: "ac_db sb = demo_db" by (simp add: sb_def f)
  obtain st' where o': "openSession demo_env (demo_io second) demo_user (note_success ''admin'' sb) = (Inr demo_secret, st')"
    using o[of "note_success ''admin'' sb"] by (auto simp: note_success_def sb_def f)
  moreover have "acc_step demo_env demo_cfg (demo_io second) (SignInWith ''Admin'' demo_pw) demo_st
      = (Opened demo_secret demo_user, auditUser (demo_io second) demo_user ''login'' [] ''10.0.0.1'' st')" using o'
    by (simp add: Login_def Let_def demo_name allowIP_def allowUser_def blocked_def f g u l l1 l2 new_tracker_waits MaxPasswordLen_def verifyPassword_def demo_hash_ok
        opened_by_def sb flip: sb_def)
  ultimately show ?thesis by (intro exI[of _ "note_success ''admin'' sb"] exI[of _ st']) (simp add: note_success_def sb)
qed

theorem session_needs_factors_witness:
  "vouched demo_env [(demo_io 0, Host (Bootstrap demo_pw), Answered, newAuthState empty_db)] (demo_io second) (SignInWith ''Admin'' demo_pw) demo_st demo_user
     (snd (acc_step demo_env demo_cfg (demo_io second) (SignInWith ''Admin'' demo_pw) demo_st))"
  using session_needs_factors[OF demo_reach, of "demo_io second" "SignInWith ''Admin'' demo_pw" demo_secret demo_user] demo_sign_in
  by (metis snd_conv)

end
