(* ===== verification/SessionLife.thy ===== *)
theory SessionLife
  imports Sessions
begin

text \<open>
  How long a session lasts: what the log tells of the session with a hash, the rows that stand for it, and when \<open>Authenticate\<close> accepts it.
\<close>

subsection \<open>What the log tells of a session\<close>

definition opens :: "login_env \<Rightarrow> acc_event \<Rightarrow> string \<Rightarrow> (string \<times> time) option" where
  "opens env e h = (case e of (io, call, Opened secret u, st) \<Rightarrow> if HashSecret env secret = h then Some (us_ID u, io_now io) else None | _ \<Rightarrow> None)"

definition uses :: "login_env \<Rightarrow> acc_event \<Rightarrow> string \<Rightarrow> bool" where
  "uses env e h = (case e of (io, WithSession secret, Known p, st) \<Rightarrow> HashSecret env secret = h | _ \<Rightarrow> False)"

text \<open>
  Signing out ends the session whose hash the principal has; a new password ends the account's other sessions, a recovered one all of them.
\<close>

definition ends :: "login_env \<Rightarrow> acc_event \<Rightarrow> string \<Rightarrow> string \<Rightarrow> bool" where
  "ends env e h uid = (case e of
       (io, Own p SignOut, r, st) \<Rightarrow> pr_SessionHash p = h \<and> \<not> io_fails io QDeleteSession
     | (io, Own p (NewPassword current new), Answered, st) \<Rightarrow> us_ID (pr_User p) = uid \<and> (pr_SessionHash p = [] \<or> h \<noteq> pr_SessionHash p)
     | (io, Host (Recover name), Answered, st) \<Rightarrow>
         (case GetUserByName (io_fails io) (le_lower env name) (ac_db st) of Inl _ \<Rightarrow> False | Inr u \<Rightarrow> us_ID u = uid)
     | _ \<Rightarrow> False)"

text \<open>The account of a session, when it was opened, and when it was used since, its opening included.\<close>

fun live :: "login_env \<Rightarrow> acc_event list \<Rightarrow> string \<Rightarrow> (string \<times> time \<times> time list) option" where
  "live env [] h = None"
| "live env (e # tr) h = (case opens env e h of Some (uid, t) \<Rightarrow> Some (uid, t, [t])
     | None \<Rightarrow> (case live env tr h of None \<Rightarrow> None
         | Some (uid, t, us) \<Rightarrow> if ends env e h uid then None else Some (uid, t, if uses env e h then io_now (fst e) # us else us)))"

subsection \<open>What statements do to sessions\<close>

text \<open>A session that is there afterwards was there before, of the same account and with the same end; it may have been used.\<close>

definition ages :: "acc_db \<Rightarrow> acc_db \<Rightarrow> bool" where
  "ages d d' \<longleftrightarrow> db_sessions d' \<subseteq>\<^sub>m db_sessions d"

lemma ages_refl [simp]: "ages d d"
  by (simp add: ages_def)

lemma ages_trans: "ages d d' \<Longrightarrow> ages d' d'' \<Longrightarrow> ages d d''"
  by (auto simp: ages_def intro: map_le_trans)

lemma ages_same: "db_sessions d' = db_sessions d \<Longrightarrow> ages d d'"
  by (simp add: ages_def)

lemma update_user_sessions: "update_user fl q i f d = Inr d' \<Longrightarrow> db_sessions d' = db_sessions d"
  by (auto simp: update_user_def split: if_splits)

lemma credentials_sessions: "updateWebAuthnCredentials fl i fn d = Inr d' \<Longrightarrow> db_sessions d' = db_sessions d"
  by (auto simp: updateWebAuthnCredentials_def split: if_splits option.splits sum.splits)

lemma revoke_token_sessions: "RevokeAPIToken fl user i d = Inr d' \<Longrightarrow> db_sessions d' = db_sessions d"
  by (auto simp: RevokeAPIToken_def split: if_splits)

lemma revoke_each_sessions: "revoke_each fl user ts d = (n, err, d') \<Longrightarrow> db_sessions d' = db_sessions d"
  by (induction ts arbitrary: d n err d') (auto dest: revoke_token_sessions split: sum.splits prod.splits)

text \<open>The statements that leave the sessions as they are.\<close>

lemma same_sessions:
  "SetTOTP fl i secret en rec d = Inr d' \<Longrightarrow> ages d d'" "SetEmail fl i email v d = Inr d' \<Longrightarrow> ages d d'" "SetEmailOTPEnabled fl i en d = Inr d' \<Longrightarrow> ages d d'"
  "SetPassword fl i hash m d = Inr d' \<Longrightarrow> ages d d'" "SetDisabled fl i at0 d = Inr d' \<Longrightarrow> ages d d'"
  "AddWebAuthnCredential fl i cred d = Inr d' \<Longrightarrow> ages d d'" "RenameWebAuthnCredential fl i c n d = Inr d' \<Longrightarrow> ages d d'"
  "TouchWebAuthnCredential fl i c sc t d = Inr d' \<Longrightarrow> ages d d'" "RemoveWebAuthnCredential fl i c d = Inr d' \<Longrightarrow> ages d d'"
  "CreateAPIToken fl i hash user name now d = Inr d' \<Longrightarrow> ages d d'" "RevokeAPIToken fl user i d = Inr d' \<Longrightarrow> ages d d'"
  "revokeAPITokens fl user d = (k, err, d') \<Longrightarrow> ages d d'" "CreateUser fl u d = Inr d' \<Longrightarrow> ages d d'"
  "CreateOrgRow fl g owner d = Inr d' \<Longrightarrow> ages d d'" "RenameOrgRow fl i name d = Inr d' \<Longrightarrow> ages d d'" "DeleteOrgRows fl i d = Inr d' \<Longrightarrow> ages d d'"
  "SetMemberRoleRow fl gi user role d = Inr d' \<Longrightarrow> ages d d'" "RemoveMemberRow fl gi user d = Inr d' \<Longrightarrow> ages d d'"
  "CreateInviteRow fl iv d = Inr d' \<Longrightarrow> ages d d'" "RevokeInviteRow fl gi i d = Inr d' \<Longrightarrow> ages d d'" "UseInvite fl hash user now d = Inr (iv, d') \<Longrightarrow> ages d d'"
  unfolding SetTOTP_def SetEmail_def SetEmailOTPEnabled_def SetPassword_def SetDisabled_def AddWebAuthnCredential_def RenameWebAuthnCredential_def
    TouchWebAuthnCredential_def RemoveWebAuthnCredential_def CreateAPIToken_def RevokeAPIToken_def CreateUser_def CreateOrgRow_def RenameOrgRow_def
    DeleteOrgRows_def SetMemberRoleRow_def RemoveMemberRow_def CreateInviteRow_def RevokeInviteRow_def UseInvite_def revokeAPITokens_def
  by (auto intro!: ages_same dest: update_user_sessions credentials_sessions revoke_each_sessions split: if_splits option.splits sum.splits)

lemma fewer_sessions:
  "ages d (MarkLogin fl i now d)" "ages d (DeleteUser fl i d)" "ages d (DeleteSession fl h d)" "ages d (PurgeSessions fl t d)" "ages d (TouchAPIToken fl h now d)"
  "DeleteUserSessions fl i except d = Inr d' \<Longrightarrow> ages d d'"
  by (auto simp: ages_def MarkLogin_def DeleteUser_def DeleteSession_def PurgeSessions_def TouchAPIToken_def DeleteUserSessions_def map_le_def
      split: option.splits if_splits)

definition aged :: "accounts \<Rightarrow> accounts \<Rightarrow> bool" where
  "aged st st' \<longleftrightarrow> ages (ac_db st) (ac_db st')"

lemma aged_refl [simp]: "aged st st"
  by (simp add: aged_def)

lemma aged_upd [simp]:
  "aged s (st\<lparr>ac_loginIP := a\<rparr>) = aged s st" "aged s (st\<lparr>ac_loginUser := a\<rparr>) = aged s st" "aged s (st\<lparr>ac_regIP := a\<rparr>) = aged s st"
  "aged s (st\<lparr>ac_regAll := a\<rparr>) = aged s st" "aged s (st\<lparr>ac_failures := b\<rparr>) = aged s st" "aged s (st\<lparr>ac_passkeyReg := n\<rparr>) = aged s st"
  "aged s (st\<lparr>ac_passkeyLogin := n\<rparr>) = aged s st" "aged s (st\<lparr>ac_pending := pd\<rparr>) = aged s st" "aged s (st\<lparr>ac_email := em\<rparr>) = aged s st"
  "aged s (st\<lparr>ac_lastPurge := t\<rparr>) = aged s st" "aged s (st\<lparr>ac_audit := e\<rparr>) = aged s st" "aged s (st\<lparr>ac_mail := ml\<rparr>) = aged s st"
  by (simp_all add: aged_def)

lemma aged_simps [simp]:
  "aged s (login_failed io n d st) = aged s st" "aged s (auditUser io u a d ip st) = aged s st" "aged s (AuditOrg io org a b k i d st) = aged s st"
  "aged s (note_failure io n st) = aged s st" "aged s (note_success n st) = aged s st" "aged s (consumePendingLogin token st) = aged s st"
  by (simp_all add: aged_def login_failed_def note_failure_def note_success_def consumePendingLogin_def)

lemma aged_parts:
  assumes "aged s st"
  shows "post (\<lambda>_. aged s) (allowIP env io st)" "post (\<lambda>_. aged s) (allowUser io key st)"
    "post (\<lambda>_. aged s) (allowReg io key st)" "post (\<lambda>_. aged s) (allowAll io st)"
    "post (\<lambda>_. aged s) (blocked io key st)" "post (\<lambda>_. aged s) (send_mail io addr purpose code st)"
    "post (\<lambda>_. aged s) (beginEmailChallenge env io subject email st)" "post (\<lambda>_. aged s) (checkEmailChallenge env now subject code st)"
    "post (\<lambda>_. aged s) (peekPendingLogin now token st)" "post (\<lambda>_. aged s) (beginTwoFactor io uid methods st)"
  using assms by (auto simp: allowIP_def allowUser_def allowReg_def allowAll_def blocked_def send_mail_def beginEmailChallenge_def checkEmailChallenge_def
      peekPendingLogin_def beginTwoFactor_def post_def Let_def split: prod.split option.split)

lemma aged_with_password: "aged s st \<Longrightarrow> post (\<lambda>_. aged s) (with_password env io p pw st)"
  unfolding with_password_def Let_def by (intro post_rules aged_parts; (assumption | simp))

lemmas aged_rules = post_rules post_answer post_known post_opened aged_parts aged_with_password

lemma aged_db [simp]: "aged s (st\<lparr>ac_db := d\<rparr>) = ages (ac_db s) d"
  by (simp add: aged_def)

lemma aged_dbD: "aged s st \<Longrightarrow> ages (ac_db s) (ac_db st)"
  by (simp add: aged_def)

lemma ages_after: "ages d d' \<Longrightarrow> ages d0 d \<Longrightarrow> ages d0 d'"
  by (rule ages_trans)

lemma kept_or_fewer:
  "(case DeleteUserSessions fl i x d of Inl e \<Rightarrow> (a e, d) | Inr d \<Rightarrow> (b, d)) = (c, d') \<Longrightarrow> ages d0 d \<Longrightarrow> ages d0 d'"
  "(case SetDisabled fl i t d of Inl e \<Rightarrow> (a' e, d) | Inr d \<Rightarrow> (b', d)) = (c', d') \<Longrightarrow> ages d0 d \<Longrightarrow> ages d0 d'"
  using fewer_sessions(6) same_sessions(5) by (auto split: sum.splits intro: ages_trans)

lemmas ages_steps = same_sessions[THEN ages_after] fewer_sessions(6)[THEN ages_after] kept_or_fewer

lemma aged_own_step: "aged s st \<Longrightarrow> post (\<lambda>_. aged s) (own_step env io p oc st)"
  by (cases oc; simp only: own_step.simps; unfold own_handlers Let_def Logout_def; intro aged_rules;
      (assumption | (simp; fail) | (simp only: aged_db aged_simps, (erule aged_dbD | erule ages_steps | rule fewer_sessions(1-5)[THEN ages_after] | (simp add: aged_dbD; fail))+)))

lemma aged_org_step: "aged s st \<Longrightarrow> post (\<lambda>_. aged s) (org_step env c io p gc st)"
  by (cases gc; simp only: org_step.simps; unfold org_handlers Let_def; intro aged_rules;
      (assumption | (simp; fail) | (simp only: aged_db aged_simps aged_upd, (erule aged_dbD | erule ages_steps | rule fewer_sessions(1-5)[THEN ages_after] | (simp add: aged_dbD; fail))+)))


lemma aged_bootstrap: "aged s st \<Longrightarrow> post (\<lambda>_. aged s) (BootstrapAdmin env c io pw st)"
  unfolding BootstrapAdmin_def Let_def
  by (intro aged_rules; (assumption | (simp; fail)
      | (simp only: aged_db aged_simps aged_upd, (erule aged_dbD | erule ages_steps | rule fewer_sessions(1-5)[THEN ages_after] | (simp add: aged_dbD; fail))+; fail)))

lemma aged_recover: "aged s st \<Longrightarrow> post (\<lambda>_. aged s) (RecoverPassword env io name st)"
  unfolding RecoverPassword_def Let_def
  by (intro aged_rules; (assumption | (simp; fail)
      | (simp only: aged_db aged_simps aged_upd, (erule aged_dbD | erule ages_steps | rule fewer_sessions(1-5)[THEN ages_after] | (simp add: aged_dbD; fail))+; fail)))

lemma aged_create_for: "aged s st \<Longrightarrow> post (\<lambda>_. aged s) (CreateOrgFor env io user name st)"
  unfolding CreateOrgFor_def Let_def
  by (intro aged_rules; (assumption | (simp; fail)
      | (simp only: aged_db aged_simps aged_upd, (erule aged_dbD | erule ages_steps | rule fewer_sessions(1-5)[THEN ages_after] | (simp add: aged_dbD; fail))+; fail)))

lemma aged_match_code: "aged s st \<Longrightarrow> post (\<lambda>_. aged s) (match_code env io u token code st)"
  unfolding match_code_def Let_def
  by (intro aged_rules; (assumption | (simp; fail)
      | (simp only: aged_db aged_simps aged_upd, (erule aged_dbD | erule ages_steps | rule fewer_sessions(1-5)[THEN ages_after] | (simp add: aged_dbD; fail))+; fail)))

lemma aged_if: "aged s a \<Longrightarrow> aged s b \<Longrightarrow> aged s (if c then a else b)"
  by simp

lemma aged_token: "aged s st \<Longrightarrow> post (\<lambda>_. aged s) (AuthenticateAPIToken env io secret st)"
  unfolding AuthenticateAPIToken_def Let_def
  by (intro aged_rules aged_if; (assumption | (simp; fail)
      | (simp only: aged_db aged_simps aged_upd, (erule aged_dbD | erule ages_steps | rule fewer_sessions(1-5)[THEN ages_after] | (simp add: aged_dbD; fail))+; fail)))

lemma aged_host_step:
  assumes "aged s st"
  shows "post (\<lambda>_. aged s) (host_step env c io ho st)"
proof (cases ho)
  case (Bootstrap pw)
  then show ?thesis using aged_bootstrap[OF assms] by (auto intro: post_answer)
next
  case (Recover name)
  then show ?thesis using aged_recover[OF assms, of env io name] by (auto simp: post_def split: prod.splits sum.splits)
next
  case (MakeOrgFor user name)
  then show ?thesis using aged_create_for[OF assms, of env io user name] by (auto simp: post_def split: prod.splits option.splits)
next
  case Restart
  then show ?thesis using assms by (simp add: post_def aged_def newAuthState_def)
qed

subsection \<open>Opening a session\<close>

definition new_row :: "call_io \<Rightarrow> user \<Rightarrow> session_row" where
  "new_row io u = \<lparr>sw_UserID = us_ID u, sw_CreatedAt = msec (io_now io), sw_LastUsed = msec (io_now io), sw_ExpiresAt = msec (io_now io + SessionMax), sw_IP = io_ip io\<rparr>"

definition adds :: "login_env \<Rightarrow> call_io \<Rightarrow> accounts \<Rightarrow> acc_error + string \<times> user \<Rightarrow> accounts \<Rightarrow> bool" where
  "adds env io s r st' \<longleftrightarrow> (case r of Inl e \<Rightarrow> aged s st'
     | Inr (secret, u) \<Rightarrow> db_sessions (ac_db st') \<subseteq>\<^sub>m (db_sessions (ac_db s))(HashSecret env secret \<mapsto> new_row io u))"

lemma adds_Inl: "aged s st' \<Longrightarrow> adds env io s (Inl e) st'"
  by (simp add: adds_def)

lemma adds_audit [simp]: "adds env io s r (auditUser io' u a d ip st) = adds env io s r st"
  by (auto simp: adds_def split: sum.splits)

lemma openSession_adds:
  assumes "openSession env io u st = (r, st')" "aged s st"
  shows "case r of Inl e \<Rightarrow> aged s st' | Inr secret \<Rightarrow> adds env io s (Inr (secret, u)) st'"
proof (cases r)
  case (Inl e)
  then have "st' = st" using assms(1) by (auto simp: openSession_def Let_def split: option.splits sum.splits if_splits)
  then show ?thesis using assms(2) Inl by simp
next
  case (Inr secret)
  obtain d where d: "CreateSession (io_fails io) (HashSecret env secret) (us_ID u) (io_ip io) (io_now io) (io_now io + SessionMax) (ac_db st) = Inr d"
    and "ac_db st' = MarkLogin (io_fails io) (us_ID u) (io_now io) d
      \<or> ac_db st' = PurgeSessions (io_fails io) (io_now io - SessionIdle) (MarkLogin (io_fails io) (us_ID u) (io_now io) d)"
    using assms(1) Inr by (auto simp: openSession_def Let_def split: option.splits sum.splits if_splits)
  then have st': "ages d (ac_db st')" using fewer_sessions(1,4) by (metis ages_trans)
  have "db_sessions d = (db_sessions (ac_db st))(HashSecret env secret \<mapsto> new_row io u)"
    using CreateSession_result[OF d] by (simp add: new_row_def)
  moreover have "\<dots> \<subseteq>\<^sub>m (db_sessions (ac_db s))(HashSecret env secret \<mapsto> new_row io u)"
    using assms(2) by (intro map_upd_le) (simp add: aged_def ages_def)
  ultimately show ?thesis using st' Inr by (auto simp: adds_def ages_def intro: map_le_trans)
qed

lemma post_adds:
  assumes "aged s st" "\<And>e st'. aged s st' \<Longrightarrow> post (adds env io s) (f (Inl e) st')"
    and "\<And>secret st'. adds env io s (Inr (secret, u)) st' \<Longrightarrow> post (adds env io s) (f (Inr secret) st')"
  shows "post (adds env io s) (case openSession env io u st of (a, st') \<Rightarrow> f a st')"
  using assms openSession_adds[of env io u st _ _ s] by (cases "openSession env io u st") (fastforce split: sum.splits)

lemma aged_preview: "aged s st \<Longrightarrow> post (\<lambda>_. aged s) (PreviewInvite env io invite st)"
  unfolding PreviewInvite_def Let_def by (intro aged_rules; (assumption | (simp; fail)))

lemma aged_way: "aged s st \<Longrightarrow> post (\<lambda>_. aged s) (register_way env c io name invite g st)"
  unfolding register_way_def Let_def by (intro aged_preview aged_rules; (assumption | (simp; fail)))

lemma aged_2fa_user: "aged s st \<Longrightarrow> post (\<lambda>_. aged s) (login2fa_user env io token st)"
  unfolding login2fa_user_def Let_def by (intro aged_rules; (assumption | (simp; fail)))

lemma aged_begin_key: "aged s st \<Longrightarrow> post (\<lambda>_. aged s) (BeginPasskeyLogin env io token rp st)"
  unfolding BeginPasskeyLogin_def Let_def by (intro aged_rules; (assumption | (simp; fail)))

lemma aged_ask: "aged s st \<Longrightarrow> post (\<lambda>_. aged s) (RequestLoginEmailCode env io token st)"
  unfolding RequestLoginEmailCode_def Let_def by (intro aged_rules; (assumption | (simp; fail)))

lemmas aged_others = aged_preview aged_way aged_2fa_user aged_begin_key aged_ask aged_match_code aged_token

lemma post_after: "post (\<lambda>_. aged s) p \<Longrightarrow> (\<And>a st. aged s st \<Longrightarrow> post Q (f a st)) \<Longrightarrow> post Q (case p of (a, st) \<Rightarrow> f a st)"
  by (cases p) (auto simp: post_def)

lemmas adds_rules = aged_parts aged_others post_if post_option post_sum post_pair post_prod

lemma sign_ins_add:
  "post (adds env io st) (Login env io name pw st)" "post (adds env io st) (LoginSSO env io name st)" "post (adds env io st) (Login2FA env io token code st)"
  "post (adds env io st) (FinishPasskeyLogin env io token rp response st)" "post (adds env io st) (Register env c io name pw invite g st)"
proof -
  show "post (adds env io st) (Login env io name pw st)"
    unfolding Login_def Let_def by (intro post_adds[where s = st] post_after[where s = st] adds_rules aged_refl; (assumption | (simp add: adds_Inl; fail)
      | (simp, (erule aged_dbD | erule ages_steps | (simp add: aged_dbD consumePendingLogin_def note_success_def; fail))+; fail)))
  show "post (adds env io st) (LoginSSO env io name st)"
    unfolding LoginSSO_def Let_def by (intro post_adds[where s = st] post_after[where s = st] adds_rules aged_refl; (assumption | (simp add: adds_Inl; fail)
      | (simp, (erule aged_dbD | erule ages_steps | (simp add: aged_dbD consumePendingLogin_def note_success_def; fail))+; fail)))
  show "post (adds env io st) (Login2FA env io token code st)"
    unfolding Login2FA_def login2fa_finish_def Let_def by (intro post_adds[where s = st] post_after[where s = st] adds_rules aged_refl; (assumption | (simp add: adds_Inl; fail)
      | (simp, (erule aged_dbD | erule ages_steps | (simp add: aged_dbD consumePendingLogin_def note_success_def; fail))+; fail)))
  show "post (adds env io st) (FinishPasskeyLogin env io token rp response st)"
    unfolding FinishPasskeyLogin_def Let_def takePasskey_def prod.case
    by (intro post_adds[where s = st] post_after[where s = st] adds_rules aged_refl; (assumption | (simp add: adds_Inl; fail)
      | (simp, (erule aged_dbD | erule ages_steps | (simp add: aged_dbD consumePendingLogin_def note_success_def; fail))+; fail)))
  show "post (adds env io st) (Register env c io name pw invite g st)"
    unfolding Register_def Let_def
    by (intro post_adds[where s = st] post_after[where s = st] adds_rules aged_refl; (assumption | (simp add: adds_Inl; fail)
      | (simp only: aged_simps aged_db, (erule aged_dbD | erule ages_steps | rule fewer_sessions(1-5)[THEN ages_after] | (simp add: aged_dbD; fail))+; fail)
      | (rule adds_Inl, simp only: aged_simps aged_db, (erule aged_dbD | erule ages_steps | rule fewer_sessions(1-5)[THEN ages_after] | (simp add: aged_dbD; fail))+; fail))?)
qed


subsection \<open>Using and ending a session\<close>

definition touches :: "login_env \<Rightarrow> call_io \<Rightarrow> string \<Rightarrow> accounts \<Rightarrow> acc_error + principal \<Rightarrow> accounts \<Rightarrow> bool" where
  "touches env io secret s r st' \<longleftrightarrow> (case r of Inl e \<Rightarrow> aged s st'
     | Inr p \<Rightarrow> (\<exists>se. db_sessions (ac_db s) (HashSecret env secret) = Some se \<and> find_user (sw_UserID se) (ac_db s) = Some (pr_User p)
         \<and> us_DisabledAt (pr_User p) = None \<and> io_now io \<le> of_msec (sw_ExpiresAt se) \<and> io_now io - of_msec (sw_LastUsed se) \<le> SessionIdle
         \<and> (db_sessions (ac_db st') = db_sessions (ac_db s)
            \<or> db_sessions (ac_db st') = (db_sessions (ac_db s))(HashSecret env secret \<mapsto> se\<lparr>sw_LastUsed := msec (io_now io)\<rparr>))))"

lemma Authenticate_touches: "post (touches env io secret st) (Authenticate env io secret st)"
  using fewer_sessions(3)[of "ac_db st"]
  by (auto simp: Authenticate_def Let_def post_def touches_def LookupSession_def TouchSession_def GetUser_found aged_def
      split: option.split sum.splits if_splits)

lemma sign_out_ends: "\<not> io_fails io QDeleteSession \<Longrightarrow> db_sessions (ac_db (Logout io p st)) (pr_SessionHash p) = None"
  by (simp add: Logout_def DeleteSession_def)

lemma DeleteUserSessions_gone:
  "DeleteUserSessions fl i except d = Inr d' \<Longrightarrow> db_sessions d' h = Some s \<Longrightarrow> sw_UserID s = i \<Longrightarrow> except \<noteq> [] \<and> h = except"
  by (auto simp: DeleteUserSessions_def split: if_splits option.splits)

text \<open>What a changed password leaves: no other session and no token of the account, and the new password.\<close>

lemma ChangePassword_ok:
  assumes "ChangePassword env io p current new st = (Inr (), st')"
  obtains u hash d1 d2 n where "GetUser (io_fails io) (us_ID (pr_User p)) (ac_db st) = Inr u" "verifyPassword env io current (us_PasswordHash u) = Some True"
    "hashPassword env io new = Inr hash" "SetPassword (io_fails io) (us_ID u) hash False (ac_db st) = Inr d1"
    "DeleteUserSessions (io_fails io) (us_ID u) (pr_SessionHash p) d1 = Inr d2" "revokeAPITokens (io_fails io) (us_ID u) d2 = (n, None, ac_db st')"
proof -
  obtain ok sta where a: "allowUser io (''pw|'' @ us_ID (pr_User p)) st = (ok, sta)" by fastforce
  then have "ac_db sta = ac_db st" by (auto simp: allowUser_def split: prod.splits)
  then show ?thesis using assms a
    by (auto simp: ChangePassword_def Let_def intro: that split: if_splits sum.splits prod.splits)
qed

lemma RecoverPassword_ok:
  assumes "RecoverPassword env io name st = (Inr pw, st')" "GetUserByName (io_fails io) (le_lower env name) (ac_db st) = Inr u"
  shows "\<exists>d1 d2. DeleteUserSessions (io_fails io) (us_ID u) [] d1 = Inr d2 \<and> ages d2 (ac_db st')"
proof -
  obtain d1 d2 where "DeleteUserSessions (io_fails io) (us_ID u) [] d1 = Inr d2"
    "\<exists>n. revokeAPITokens (io_fails io) (us_ID u) d2 = (n, None, ac_db st')"
    using assms that by (auto simp: RecoverPassword_def Let_def left_over_def split: option.splits sum.splits prod.splits if_splits)
  then show ?thesis using same_sessions(12) by blast
qed

subsection \<open>Every session is a live one\<close>

definition living :: "login_env \<Rightarrow> acc_event list \<Rightarrow> accounts \<Rightarrow> bool" where
  "living env tr st \<longleftrightarrow> (\<forall>h s. db_sessions (ac_db st) h = Some s \<longrightarrow> (\<exists>t us. live env tr h = Some (sw_UserID s, t, us)
     \<and> sw_ExpiresAt s = msec (t + SessionMax) \<and> (\<exists>t0\<in>set us. sw_LastUsed s = msec t0)))"

lemma livingD:
  assumes "living env tr st" "db_sessions (ac_db st) h = Some s"
  obtains t us where "live env tr h = Some (sw_UserID s, t, us)" "sw_ExpiresAt s = msec (t + SessionMax)" "\<exists>t0\<in>set us. sw_LastUsed s = msec t0"
  using assms unfolding living_def by blast

text \<open>A call that opens and uses no session, and after which the sessions it ends are gone.\<close>

lemma living_aged:
  assumes "living env tr st" "aged st st'" "\<And>h. opens env (io, call, r, st) h = None" 
    and "\<And>h s. db_sessions (ac_db st') h = Some s \<Longrightarrow> \<not> ends env (io, call, r, st) h (sw_UserID s)"
  shows "living env ((io, call, r, st) # tr) st'"
  unfolding living_def
proof (intro allI impI)
  fix h s assume s: "db_sessions (ac_db st') h = Some s"
  then have "db_sessions (ac_db st) h = Some s" using assms(2) by (auto simp: aged_def ages_def map_le_Some)
  then obtain t us where "live env tr h = Some (sw_UserID s, t, us)" "sw_ExpiresAt s = msec (t + SessionMax)" "\<exists>t0\<in>set us. sw_LastUsed s = msec t0"
    using livingD[OF assms(1)] by blast
  then show "\<exists>t us. live env ((io, call, r, st) # tr) h = Some (sw_UserID s, t, us) \<and> sw_ExpiresAt s = msec (t + SessionMax) \<and> (\<exists>t0\<in>set us. sw_LastUsed s = msec t0)"
    using assms(3,4)[of h] s by auto
qed

lemma living_opened:
  assumes "living env tr st" "opened_by p = (r, st')" "post (adds env io st) p" "\<And>h uid r. \<not> ends env (io, call, r, st) h uid"
    and "\<And>r h. uses env (io, call, r, st) h = False"
  shows "living env ((io, call, r, st) # tr) st'"
proof (cases "fst p")
  case (Inl e)
  then have "aged st st'" "r = Refused e" using assms(2,3) by (auto simp: opened_by_def post_def adds_def split: prod.splits sum.splits)
  then show ?thesis using assms(1,4) by (intro living_aged) (auto simp: opens_def)
next
  case (Inr a)
  obtain secret u where a: "a = (secret, u)" by fastforce
  let ?h = "HashSecret env secret"
  have r: "r = Opened secret u" and le: "db_sessions (ac_db st') \<subseteq>\<^sub>m (db_sessions (ac_db st))(?h \<mapsto> new_row io u)"
    using assms(2,3) Inr a by (auto simp: opened_by_def post_def adds_def split: prod.splits sum.splits)
  show ?thesis unfolding living_def
  proof (intro allI impI)
    fix h s assume s: "db_sessions (ac_db st') h = Some s"
    then have s': "((db_sessions (ac_db st))(?h \<mapsto> new_row io u)) h = Some s" using le by (rule map_le_Some[rotated])
    show "\<exists>t us. live env ((io, call, r, st) # tr) h = Some (sw_UserID s, t, us) \<and> sw_ExpiresAt s = msec (t + SessionMax) \<and> (\<exists>t0\<in>set us. sw_LastUsed s = msec t0)"
    proof (cases "h = ?h")
      case True
      then have "s = new_row io u" using s' by simp
      then show ?thesis using True r by (simp add: opens_def new_row_def)
    next
      case False
      then have "db_sessions (ac_db st) h = Some s" using s' by simp
      then obtain t us where "live env tr h = Some (sw_UserID s, t, us)" "sw_ExpiresAt s = msec (t + SessionMax)" "\<exists>t0\<in>set us. sw_LastUsed s = msec t0"
        using livingD[OF assms(1)] by blast
      then show ?thesis using False r assms(4,5) by (simp add: opens_def)
    qed
  qed
qed

lemma living_used:
  assumes "living env tr st" "Authenticate env io secret st = (a, st')" "knowing (a, st') = (r, st')"
  shows "living env ((io, WithSession secret, r, st) # tr) st'"
proof (cases a)
  case (Inl e)
  then have "aged st st'" "r = Refused e" using assms(2,3) Authenticate_touches[of env io secret st] by (auto simp: knowing_def post_def touches_def)
  then show ?thesis using assms(1) by (intro living_aged) (auto simp: opens_def ends_def)
next
  case (Inr p)
  let ?h = "HashSecret env secret"
  obtain se where r: "r = Known p" and se: "db_sessions (ac_db st) ?h = Some se" and st': "db_sessions (ac_db st') = db_sessions (ac_db st)
      \<or> db_sessions (ac_db st') = (db_sessions (ac_db st))(?h \<mapsto> se\<lparr>sw_LastUsed := msec (io_now io)\<rparr>)"
    using Inr assms(2,3) Authenticate_touches[of env io secret st] by (auto simp: knowing_def post_def touches_def)
  show ?thesis unfolding living_def
  proof (intro allI impI)
    fix h s assume s: "db_sessions (ac_db st') h = Some s"
    obtain s0 where s0: "db_sessions (ac_db st) h = Some s0" "s = s0 \<or> h = ?h \<and> s = s0\<lparr>sw_LastUsed := msec (io_now io)\<rparr>"
      using s se st' by (auto split: if_splits)
    then obtain t us where "live env tr h = Some (sw_UserID s0, t, us)" "sw_ExpiresAt s0 = msec (t + SessionMax)" "\<exists>t0\<in>set us. sw_LastUsed s0 = msec t0"
      using livingD[OF assms(1)] by blast
    then show "\<exists>t us. live env ((io, WithSession secret, r, st) # tr) h = Some (sw_UserID s, t, us) \<and> sw_ExpiresAt s = msec (t + SessionMax) \<and> (\<exists>t0\<in>set us. sw_LastUsed s = msec t0)"
      using s0(2) r by (auto simp: opens_def ends_def uses_def)
  qed
qed

lemma answers: "answer p = (r, st') \<Longrightarrow> (\<exists>e. fst p = Inl e \<and> r = Refused e) \<or> (\<exists>x. fst p = Inr x \<and> r = Answered)"
  by (auto simp: answer_def split: prod.splits sum.splits)

lemma answer_state: "answer p = (r, st') \<Longrightarrow> snd p = st'"
  by (auto simp: answer_def split: prod.splits sum.splits)

lemma own_answers: "own_step env io p oc st = (r, st') \<Longrightarrow> r = Answered \<or> (\<exists>e. r = Refused e)"
  by (cases oc) (auto dest!: answers)

lemma living_own:
  assumes "living env tr st" "own_step env io p oc st = (r, st')"
  shows "living env ((io, Own p oc, r, st) # tr) st'"
proof (rule living_aged[OF assms(1)])
  show "aged st st'" using aged_own_step[OF aged_refl, of st env io p oc] assms(2) by (simp add: post_def)
  show "opens env (io, Own p oc, r, st) h = None" for h using own_answers[OF assms(2)] by (auto simp: opens_def)
  fix h s assume s: "db_sessions (ac_db st') h = Some s"
  show "\<not> ends env (io, Own p oc, r, st) h (sw_UserID s)"
  proof (cases oc)
    case SignOut
    then show ?thesis using s assms(2) sign_out_ends[of io p st] by (cases "io_fails io QDeleteSession") (auto simp: ends_def)
  next
    case (NewPassword current new)
    have "pr_SessionHash p \<noteq> [] \<and> h = pr_SessionHash p" if "r = Answered" "us_ID (pr_User p) = sw_UserID s"
    proof -
      have c: "ChangePassword env io p current new st = (Inr (), st')"
        using that(1) assms(2) NewPassword by (auto simp: answer_def split: prod.splits sum.splits)
      obtain u d1 d2 n where "GetUser (io_fails io) (us_ID (pr_User p)) (ac_db st) = Inr u"
        and del: "DeleteUserSessions (io_fails io) (us_ID u) (pr_SessionHash p) d1 = Inr d2" "revokeAPITokens (io_fails io) (us_ID u) d2 = (n, None, ac_db st')"
        using ChangePassword_ok[OF c] by metis
      then have "us_ID u = sw_UserID s" using that(2) by (auto simp: GetUser_found dest: find_user_ID)
      moreover have "db_sessions d2 h = Some s" using s same_sessions(12)[OF del(2)] by (auto simp: ages_def map_le_Some)
      ultimately show ?thesis using DeleteUserSessions_gone[OF del(1), of h s] by auto
    qed
    then show ?thesis using NewPassword by (auto simp: ends_def split: acc_result.splits)
  qed (simp_all add: ends_def)
qed

lemma org_answers: "org_step env c io p oc st = (r, st') \<Longrightarrow> r = Answered \<or> (\<exists>e. r = Refused e)"
  by (cases oc) (auto dest!: answers)

lemma living_org:
  assumes "living env tr st" "org_step env c io p oc st = (r, st')"
  shows "living env ((io, Org p oc, r, st) # tr) st'"
proof (rule living_aged[OF assms(1)])
  show "aged st st'" using aged_org_step[OF aged_refl, of st env c io p oc] assms(2) by (simp add: post_def)
qed (use org_answers[OF assms(2)] in \<open>auto simp: ends_def opens_def\<close>)

lemma host_answers: "host_step env c io ho st = (r, st') \<Longrightarrow> r = Answered \<or> r = HostRefused \<or> (\<exists>e. r = Refused e)"
  by (cases ho) (auto dest!: answers split: prod.splits sum.splits option.splits)

lemma living_host:
  assumes "living env tr st" "host_step env c io ho st = (r, st')"
  shows "living env ((io, Host ho, r, st) # tr) st'"
proof (rule living_aged[OF assms(1)])
  show "aged st st'" using aged_host_step[OF aged_refl, of st env c io ho] assms(2) by (simp add: post_def)
  show "opens env (io, Host ho, r, st) h = None" for h using host_answers[OF assms(2)] by (auto simp: opens_def)
  fix h s assume s: "db_sessions (ac_db st') h = Some s"
  show "\<not> ends env (io, Host ho, r, st) h (sw_UserID s)"
  proof (cases ho)
    case (Recover name)
    have "us_ID u \<noteq> sw_UserID s" if ok: "r = Answered" and u: "GetUserByName (io_fails io) (le_lower env name) (ac_db st) = Inr u" for u
    proof -
      obtain pw where "RecoverPassword env io name st = (Inr pw, st')"
        using ok assms(2) Recover by (auto split: prod.splits sum.splits)
      then obtain d1 d2 where del: "DeleteUserSessions (io_fails io) (us_ID u) [] d1 = Inr d2" "ages d2 (ac_db st')"
        using RecoverPassword_ok[OF _ u] by blast
      have "db_sessions d2 h = Some s" using s del(2) by (auto simp: ages_def map_le_Some)
      then show ?thesis using DeleteUserSessions_gone[OF del(1), of h s] by auto
    qed
    then show ?thesis using Recover by (auto simp: ends_def split: acc_result.splits sum.splits)
  qed (simp_all add: ends_def)
qed

lemma living_step:
  assumes "living env tr st" "acc_step env c io call st = (r, st')"
  shows "living env ((io, call, r, st) # tr) st'"
proof (cases call)
  case (WithSession secret)
  obtain a sta where a: "Authenticate env io secret st = (a, sta)" by fastforce
  then have "sta = st'" using assms(2) WithSession by (auto simp: knowing_def split: sum.splits)
  then show ?thesis using living_used[OF assms(1)] a assms(2) WithSession by auto
next
  case (Own p oc)
  then show ?thesis using living_own[OF assms(1)] assms(2) by simp
next
  case (Org p oc)
  then show ?thesis using living_org[OF assms(1)] assms(2) by simp
next
  case (Host ho)
  then show ?thesis using living_host[OF assms(1)] assms(2) by simp
next
  case (AskCode token)
  then have e: "answer (RequestLoginEmailCode env io token st) = (r, st')" using assms(2) by simp
  show ?thesis unfolding AskCode
    by (rule living_aged[OF assms(1)]) (use answers[OF e] answer_state[OF e] aged_ask[OF aged_refl, of st env io token] in \<open>auto simp: opens_def ends_def post_def\<close>)
next
  case (BeginKeyLogin token rp)
  then have e: "answer (BeginPasskeyLogin env io token rp st) = (r, st')" using assms(2) by simp
  show ?thesis unfolding BeginKeyLogin
    by (rule living_aged[OF assms(1)]) (use answers[OF e] answer_state[OF e] aged_begin_key[OF aged_refl, of st env io token rp] in \<open>auto simp: opens_def ends_def post_def\<close>)
next
  case (LookAtInvite secret)
  then have e: "answer (PreviewInvite env io secret st) = (r, st')" using assms(2) by simp
  show ?thesis unfolding LookAtInvite
    by (rule living_aged[OF assms(1)]) (use answers[OF e] answer_state[OF e] aged_preview[OF aged_refl, of st env io secret] in \<open>auto simp: opens_def ends_def post_def\<close>)
next
  case (WithToken secret)
  then have "knowing (AuthenticateAPIToken env io secret st) = (r, st')" using assms(2) by simp
  then have k: "snd (AuthenticateAPIToken env io secret st) = st'" "opens env (io, call, r, st) h = None" for h
    by (auto simp: knowing_def opens_def split: prod.splits sum.splits)
  show ?thesis unfolding WithToken
    by (rule living_aged[OF assms(1)]) (use k WithToken aged_token[OF aged_refl, of st env io secret] in \<open>auto simp: ends_def post_def\<close>)
qed (use assms sign_ins_add in \<open>auto intro!: living_opened simp: ends_def uses_def\<close>)

lemma reach_living: "acc_reach env c tr st \<Longrightarrow> living env tr st"
proof (induction rule: acc_reach.induct)
  case reach_start
  show ?case by (simp add: living_def newAuthState_def empty_db_def)
next
  case (reach_call tr st io call r st')
  then show ?case by (blast intro: living_step)
qed

subsection \<open>When a session is accepted\<close>

lemma of_msec_le: "of_msec (msec t) \<le> t" "t - 1000000 < of_msec (msec t)"
  by (simp_all add: of_msec_def msec_def)

text \<open>
  C4. Whatever calls were made since the database was empty: a secret that signs a request in is that of a session which some sign-in opened for this very
  account at most seven days before, which was last used, its opening included, at most eight hours before, and which was not ended since by a sign-out, by
  another session's change of the account's password or by its recovery. The account exists and is enabled.
\<close>

theorem accepted_session_is_live:
  assumes "acc_reach env c tr st" "Authenticate env io secret st = (Inr p, st')"
  shows "\<exists>t us t0. live env tr (HashSecret env secret) = Some (us_ID (pr_User p), t, us) \<and> io_now io \<le> t + SessionMax
     \<and> t0 \<in> set us \<and> io_now io \<le> t0 + SessionIdle \<and> find_user (us_ID (pr_User p)) (ac_db st) = Some (pr_User p) \<and> us_DisabledAt (pr_User p) = None"
proof -
  obtain se where se: "db_sessions (ac_db st) (HashSecret env secret) = Some se" "find_user (sw_UserID se) (ac_db st) = Some (pr_User p)"
    "us_DisabledAt (pr_User p) = None" "io_now io \<le> of_msec (sw_ExpiresAt se)" "io_now io - of_msec (sw_LastUsed se) \<le> SessionIdle"
    using Authenticate_touches[of env io secret st] assms(2) by (auto simp: post_def touches_def)
  then obtain t us t0 where l: "live env tr (HashSecret env secret) = Some (sw_UserID se, t, us)" "sw_ExpiresAt se = msec (t + SessionMax)"
      "t0 \<in> set us" "sw_LastUsed se = msec t0"
    using livingD[OF reach_living[OF assms(1)] se(1)] by blast
  have "io_now io \<le> t + SessionMax" "io_now io \<le> t0 + SessionIdle"
    using se(4,5) l(2,4) of_msec_le(1)[of "t + SessionMax"] of_msec_le(1)[of t0] by simp_all
  then show ?thesis using se(2,3) l(1,3) find_user_ID[OF se(2)] by auto
qed

text \<open>What opening leaves in the table.\<close>

lemma openSession_row:
  assumes "openSession env io u st = (Inr secret, st')"
  shows "db_sessions (ac_db st') (HashSecret env secret) = Some (new_row io u)" "\<exists>b. io_rnd io = Some b \<and> secret = sessionPrefix @ encode64 b"
proof -
  obtain b d where b: "io_rnd io = Some b" "secret = sessionPrefix @ encode64 b"
    and d: "CreateSession (io_fails io) (HashSecret env secret) (us_ID u) (io_ip io) (io_now io) (io_now io + SessionMax) (ac_db st) = Inr d"
    and e: "ac_db st' = MarkLogin (io_fails io) (us_ID u) (io_now io) d
      \<or> ac_db st' = PurgeSessions (io_fails io) (io_now io - SessionIdle) (MarkLogin (io_fails io) (us_ID u) (io_now io) d)"
    using assms by (auto simp: openSession_def newSessionSecret_def Let_def split: option.splits sum.splits if_splits)
  show "\<exists>b. io_rnd io = Some b \<and> secret = sessionPrefix @ encode64 b" using b by blast
  have "db_sessions (MarkLogin (io_fails io) (us_ID u) (io_now io) d) (HashSecret env secret) = Some (new_row io u)"
    using CreateSession_result[OF d] by (simp add: MarkLogin_def new_row_def)
  moreover have "\<not> msec (io_now io + SessionMax) < msec (io_now io - SessionIdle)" "\<not> msec (io_now io) < msec (io_now io - SessionIdle - 24 * hour)"
    unfolding msec_def by (simp_all add: not_less zdiv_mono1 SessionMax_def SessionIdle_def)
  ultimately show "db_sessions (ac_db st') (HashSecret env secret) = Some (new_row io u)"
    using e by (auto simp: PurgeSessions_def new_row_def)
qed

lemma opened_authenticates:
  assumes "db_sessions (ac_db st') (HashSecret env secret) = Some (new_row io u)" "secret = sessionPrefix @ encode64 b" "length b = 32"
    and "find_user (us_ID u) (ac_db st') = Some v" "us_DisabledAt v = None" "io_now io' \<le> io_now io + SessionIdle - 1000000"
    and "\<not> io_fails io' QLookupSession" "\<not> io_fails io' QGetUser"
  shows "fst (Authenticate env io' secret st') = Inr \<lparr>pr_User = v, pr_Org = [], pr_Role = [], pr_SessionHash = HashSecret env secret\<rparr>"
proof -
  have "io_now io' - of_msec (msec (io_now io)) \<le> SessionIdle" using assms(6) of_msec_le(2)[of "io_now io"] by simp
  moreover have "io_now io' \<le> of_msec (msec (io_now io + SessionMax))"
    using assms(6) of_msec_le(2)[of "io_now io + SessionMax"] by (simp add: SessionIdle_def SessionMax_def)
  ultimately show ?thesis using assms
    by (simp add: Authenticate_def LookupSession_def GetUser_def new_row_def length_encode64 Let_def)
qed

text \<open>
  A session that was opened is accepted: with the 32 random bytes asked for, and as long as the account's row is there and enabled, the secret signs
  its account in until a millisecond before eight hours are over, in the state the opening left.
\<close>

theorem opened_session_accepted:
  assumes "openSession env io u st = (Inr secret, st')" "\<And>b. io_rnd io = Some b \<Longrightarrow> length b = 32"
    and "find_user (us_ID u) (ac_db st') = Some v" "us_DisabledAt v = None" "io_now io' \<le> io_now io + SessionIdle - 1000000"
    and "\<not> io_fails io' QLookupSession" "\<not> io_fails io' QGetUser"
  shows "fst (Authenticate env io' secret st') = Inr \<lparr>pr_User = v, pr_Org = [], pr_Role = [], pr_SessionHash = HashSecret env secret\<rparr>"
  using openSession_row[OF assms(1)] assms(2-) opened_authenticates by blast

text \<open>A run that signs the first administrator in and uses the session an hour later.\<close>

lemma demo_session:
  obtains tr st st0 st1 where "acc_reach demo_env demo_cfg tr st" "openSession demo_env (demo_io second) demo_user st0 = (Inr demo_secret, st1)"
    "find_user ''u-61'' (ac_db st1) = Some (demo_user\<lparr>us_LastLogin := Some second\<rparr>)" "ac_db st = ac_db st1"
proof -
  obtain st0 st1 where o: "ac_db st0 = demo_db" "openSession demo_env (demo_io second) demo_user st0 = (Inr demo_secret, st1)"
    and s: "acc_step demo_env demo_cfg (demo_io second) (SignInWith ''Admin'' demo_pw) demo_st
       = (Opened demo_secret demo_user, auditUser (demo_io second) demo_user ''login'' [] ''10.0.0.1'' st1)"
    using demo_sign_in by blast
  have i: "us_ID demo_user = ''u-61''" by (simp add: demo_user_def)
  have m: "of_msec (msec second) = second" by code_simp
  have "find_user ''u-61'' (ac_db st1) = Some (demo_user\<lparr>us_LastLogin := Some second\<rparr>)"
    using o by (auto simp: openSession_def Let_def MarkLogin_def PurgeSessions_def find_user_def demo_db_def i stored_def m
        dest!: CreateSession_result split: option.splits sum.splits if_splits)
  then show ?thesis by (intro that[OF reach_call[OF demo_reach s] o(2)]) simp_all
qed

lemma demo_rnd_length: "io_rnd (demo_io t) = Some b \<Longrightarrow> length b = 32"
  by (auto simp: demo_rnd_def)

theorem opened_session_accepted_witness:
  "\<exists>st. fst (Authenticate demo_env (demo_io (second + hour)) demo_secret st)
     = Inr \<lparr>pr_User = demo_user\<lparr>us_LastLogin := Some second\<rparr>, pr_Org = [], pr_Role = [], pr_SessionHash = HashSecret demo_env demo_secret\<rparr>"
proof (rule demo_session)
  fix st0 st1 assume o: "openSession demo_env (demo_io second) demo_user st0 = (Inr demo_secret, st1)"
    "find_user ''u-61'' (ac_db st1) = Some (demo_user\<lparr>us_LastLogin := Some second\<rparr>)"
  have "us_ID demo_user = ''u-61''" "us_DisabledAt demo_user = None" by (simp_all add: demo_user_def)
  then show ?thesis
    using opened_session_accepted[OF o(1) demo_rnd_length, of _ "demo_user\<lparr>us_LastLogin := Some second\<rparr>" "demo_io (second + hour)"] o(2)
    by (auto simp: SessionIdle_def)
qed

theorem accepted_session_is_live_witness:
  "\<exists>tr st t us t0. acc_reach demo_env demo_cfg tr st \<and> live demo_env tr (HashSecret demo_env demo_secret) = Some (''u-61'', t, us)
     \<and> second + hour \<le> t + SessionMax \<and> t0 \<in> set us \<and> second + hour \<le> t0 + SessionIdle"
proof (rule demo_session)
  fix tr st st0 st1 assume r: "acc_reach demo_env demo_cfg tr st" and o: "openSession demo_env (demo_io second) demo_user st0 = (Inr demo_secret, st1)"
    "find_user ''u-61'' (ac_db st1) = Some (demo_user\<lparr>us_LastLogin := Some second\<rparr>)" and st: "ac_db st = ac_db st1"
  have u: "us_ID demo_user = ''u-61''" "us_DisabledAt demo_user = None" by (simp_all add: demo_user_def)
  have "fst (Authenticate demo_env (demo_io (second + hour)) demo_secret st)
      = Inr \<lparr>pr_User = demo_user\<lparr>us_LastLogin := Some second\<rparr>, pr_Org = [], pr_Role = [], pr_SessionHash = HashSecret demo_env demo_secret\<rparr>"
    using opened_authenticates[of st demo_env demo_secret "demo_io second" demo_user demo_rnd "demo_user\<lparr>us_LastLogin := Some second\<rparr>" "demo_io (second + hour)"]
      openSession_row(1)[OF o(1)] o(2) u st by (auto simp: demo_secret_def demo_rnd_def SessionIdle_def)
  then obtain p st' where "Authenticate demo_env (demo_io (second + hour)) demo_secret st = (Inr p, st')" "us_ID (pr_User p) = ''u-61''"
    using u by (cases "Authenticate demo_env (demo_io (second + hour)) demo_secret st") auto
  then show ?thesis using accepted_session_is_live[OF r] r by fastforce
qed

subsection \<open>A changed password\<close>

lemma revoke_each_all:
  "revoke_each fl user ts d = (n, None, d') \<Longrightarrow>
     db_tokens d' = filter (\<lambda>t. \<not> (tk_UserID t = user \<and> tk_ID t \<in> tk_ID ` set ts)) (db_tokens d) \<and> db_users d' = db_users d"
proof (induction ts arbitrary: d n)
  case (Cons t ts)
  then obtain d1 m where "RevokeAPIToken fl user (tk_ID t) d = Inr d1" "revoke_each fl user ts d1 = (m, None, d')"
    by (auto split: sum.splits prod.splits)
  then show ?case using Cons.IH[of d1 m] by (auto simp: RevokeAPIToken_def split: if_splits intro: filter_cong)
qed simp

lemma revokeAPITokens_all:
  assumes "revokeAPITokens fl user d = (n, None, d')"
  shows "t \<in> set (db_tokens d') \<Longrightarrow> tk_UserID t \<noteq> user" "db_users d' = db_users d" "db_sessions d' = db_sessions d"
  using assms revoke_each_all[of fl user _ d n d'] revoke_each_sessions[of fl user _ d n None d']
  by (auto simp: revokeAPITokens_def ListAPITokens_def split: if_splits)

lemma hashPassword_stored:
  assumes "hashPassword env io pw = Inr hash" "io_salt io = Some salt" "8 \<le> length salt" "\<And>p s t m n k. length (le_argon env p s t m n k) = k"
  shows "VerifyPassword (le_argon env) pw hash = Some True"
  using assms(1,2) VerifyPassword_stored[where argon = "le_argon env" and pw = pw and stored = pw and h = hash, OF assms(3,4)] by (auto simp: hashPassword_def split: if_splits option.splits)

text \<open>
  C40. A password changed without an error leaves the account with the new one only, with no session but the one that asked, and with no personal
  token: whatever was opened or made with the old password is over. The salt is the 16 random bytes, and argon2 gives as many bytes as asked for.
\<close>

theorem password_change_ends_access:
  assumes "ChangePassword env io p current new st = (Inr (), st')" "io_salt io = Some salt" "8 \<le> length salt"
    and "\<And>p s t m n k. length (le_argon env p s t m n k) = k"
  shows "(\<forall>h s. db_sessions (ac_db st') h = Some s \<and> sw_UserID s = us_ID (pr_User p) \<longrightarrow> h = pr_SessionHash p)
     \<and> (\<forall>t\<in>set (db_tokens (ac_db st')). tk_UserID t \<noteq> us_ID (pr_User p))
     \<and> (\<exists>u. find_user (us_ID (pr_User p)) (ac_db st') = Some u \<and> VerifyPassword (le_argon env) new (us_PasswordHash u) = Some True)"
proof -
  obtain u hash d1 d2 n where c: "GetUser (io_fails io) (us_ID (pr_User p)) (ac_db st) = Inr u" "hashPassword env io new = Inr hash"
      "SetPassword (io_fails io) (us_ID u) hash False (ac_db st) = Inr d1"
      "DeleteUserSessions (io_fails io) (us_ID u) (pr_SessionHash p) d1 = Inr d2" "revokeAPITokens (io_fails io) (us_ID u) d2 = (n, None, ac_db st')"
    using ChangePassword_ok[OF assms(1)] by metis
  have u: "find_user (us_ID (pr_User p)) (ac_db st) = Some u" "us_ID u = us_ID (pr_User p)" using c(1) by (auto simp: GetUser_found dest: find_user_ID)
  have "find_user (us_ID (pr_User p)) (ac_db st') = find_user (us_ID (pr_User p)) d1"
    using c(4) revokeAPITokens_all(2)[OF c(5)] by (auto simp: DeleteUserSessions_def find_user_def split: if_splits)
  also have "\<dots> = Some (u\<lparr>us_PasswordHash := hash, us_MustChange := False\<rparr>)"
    using update_user_find[OF c(3)[unfolded SetPassword_def], of "us_ID (pr_User p)"] u by simp
  finally have "\<exists>u. find_user (us_ID (pr_User p)) (ac_db st') = Some u \<and> VerifyPassword (le_argon env) new (us_PasswordHash u) = Some True"
    using hashPassword_stored[OF c(2) assms(2-4)] by simp
  then show ?thesis using revokeAPITokens_all[OF c(5)] DeleteUserSessions_gone[OF c(4)] u(2) by auto
qed

definition demo_new :: string where "demo_new = ''battery staple 22''"

lemma demo_change:
  "\<exists>st'. ChangePassword demo_env (demo_io second) \<lparr>pr_User = demo_user, pr_Org = [], pr_Role = [], pr_SessionHash = []\<rparr> demo_pw demo_new demo_st = (Inr (), st')"
proof -
  have "CheckPasswordPolicy (le_text demo_env) ''admin'' demo_new = None" "demo_pw \<noteq> demo_new"
    unfolding demo_new_def demo_pw_def demo_env_def by code_simp+
  moreover have "ac_loginUser demo_st = NewLimiter 6 5" "ac_db demo_st = demo_db" by (simp_all add: demo_st_def AuditOrg_def newAuthState_def)
  moreover have "us_PasswordHash demo_user = demo_hash" "us_ID demo_user = ''u-61''" "us_Username demo_user = ''admin''" by (simp_all add: demo_user_def)
  moreover obtain l where "Allow (''pw|'' @ ''u-61'') second (NewLimiter 6 5) = (True, l)"
    using new_limiter_allows[of 5 "''pw|'' @ ''u-61''" second 6] by (cases "Allow (''pw|'' @ ''u-61'') second (NewLimiter 6 5)") auto
  moreover have "find_user ''u-61'' demo_db = Some demo_user" by (simp add: find_user_def demo_db_def demo_user_def)
  ultimately show ?thesis
    by (simp add: ChangePassword_def Let_def allowUser_def GetUser_def verifyPassword_def demo_hash_ok hashPassword_def HashPassword_def SetPassword_def update_user_def
        DeleteUserSessions_def revokeAPITokens_def ListAPITokens_def demo_db_def)
qed

theorem password_change_ends_access_witness:
  "\<exists>st' u. ChangePassword demo_env (demo_io second) \<lparr>pr_User = demo_user, pr_Org = [], pr_Role = [], pr_SessionHash = []\<rparr> demo_pw demo_new demo_st = (Inr (), st')
     \<and> find_user ''u-61'' (ac_db st') = Some u \<and> VerifyPassword toy_argon demo_new (us_PasswordHash u) = Some True"
proof -
  obtain st' where c: "ChangePassword demo_env (demo_io second) \<lparr>pr_User = demo_user, pr_Org = [], pr_Role = [], pr_SessionHash = []\<rparr> demo_pw demo_new demo_st = (Inr (), st')"
    using demo_change by blast
  have "us_ID demo_user = ''u-61''" by (simp add: demo_user_def)
  then show ?thesis using c password_change_ends_access[OF c, of "''0123456789abcdef''"] by (auto simp: toy_argon_length)
qed

subsection \<open>Two sign-ins at once\<close>

text \<open>
  \<open>Login2FA\<close> reads the account, tries the code against the recovery codes it read and writes the rest back; nothing keeps another call from doing the
  same in between. Two calls that both read the account before either wrote therefore both accept one recovery code, although it is to be used once.
\<close>

lemma recovery_code_twice:
  assumes "login2fa_user env io1 token1 st = (Inr u, st1)" "login2fa_user env io2 token2 st1 = (Inr u, st2)"
    and "match_code env io1 u token1 code st2 = (Inr (ByRecovery n), st3)"
    and "\<not> VerifyTOTP (le_codes env) (us_TOTPSecret u) code (io_now io2)" "\<not> io_fails io2 QSetTOTP"
  shows "\<exists>st4. match_code env io2 u token2 code st3 = (Inr (ByRecovery n), st4)"
proof -
  obtain rest d where r: "us_TOTPEnabledAt u \<noteq> None" "consumeRecoveryCode (le_codes env) (us_TOTPRecovery u) code = (rest, True)" "n = length rest"
    and d: "SetTOTP (io_fails io1) (us_ID u) (us_TOTPSecret u) (us_TOTPEnabledAt u) rest (ac_db st2) = Inr d" "st3 = st2\<lparr>ac_db := d\<rparr>"
    using assms(3) by (cases "consumeRecoveryCode (le_codes env) (us_TOTPRecovery u) code") (auto simp: match_code_def Let_def split: if_splits sum.splits prod.splits)
  have "find_user (us_ID u) (ac_db st2) \<noteq> None" using d(1) by (auto simp: SetTOTP_def update_user_def split: if_splits)
  then have "find_user (us_ID u) d \<noteq> None" using update_user_find[OF d(1)[unfolded SetTOTP_def], of "us_ID u"] by auto
  then show ?thesis using r assms(4,5) d(2) by (simp add: match_code_def SetTOTP_def update_user_def)
qed

















end
