(* ===== verification/Orgs.thy ===== *)
theory Orgs
  imports SessionLife
begin

text \<open>
  Organisations over a run of the accounts service: what each call may do to organisations, memberships, invitations and accounts, that every organisation
  keeps an enabled owner, and what an invitation is good for.
\<close>

subsection \<open>What most calls leave alone\<close>

definition accounts_of :: "acc_db \<Rightarrow> (string \<times> bool) list" where
  "accounts_of d = map (\<lambda>u. (us_ID u, us_DisabledAt u = None)) (db_users d)"

definition org_view :: "acc_db \<Rightarrow> org list \<times> membership list \<times> invite list \<times> (string \<times> bool) list" where
  "org_view d = (db_orgs d, db_members d, db_invites d, accounts_of d)"

definition calm :: "acc_db \<Rightarrow> accounts \<Rightarrow> bool" where
  "calm d st \<longleftrightarrow> org_view (ac_db st) = org_view d"

lemma calm_refl [simp]: "calm (ac_db st) st"
  by (simp add: calm_def)

lemma calm_upd [simp]:
  "calm d (st\<lparr>ac_loginIP := a\<rparr>) = calm d st" "calm d (st\<lparr>ac_loginUser := a\<rparr>) = calm d st" "calm d (st\<lparr>ac_regIP := a\<rparr>) = calm d st"
  "calm d (st\<lparr>ac_regAll := a\<rparr>) = calm d st" "calm d (st\<lparr>ac_failures := b\<rparr>) = calm d st" "calm d (st\<lparr>ac_passkeyReg := n\<rparr>) = calm d st"
  "calm d (st\<lparr>ac_passkeyLogin := n\<rparr>) = calm d st" "calm d (st\<lparr>ac_pending := pd\<rparr>) = calm d st" "calm d (st\<lparr>ac_email := em\<rparr>) = calm d st"
  "calm d (st\<lparr>ac_lastPurge := t\<rparr>) = calm d st" "calm d (st\<lparr>ac_audit := e\<rparr>) = calm d st" "calm d (st\<lparr>ac_mail := ml\<rparr>) = calm d st"
  "calm d (st\<lparr>ac_db := d'\<rparr>) = (org_view d' = org_view d)"
  by (simp_all add: calm_def)

lemma calm_simps [simp]:
  "calm d (login_failed io n e st) = calm d st" "calm d (auditUser io u a e ip st) = calm d st" "calm d (AuditOrg io org a b k i e st) = calm d st"
  "calm d (note_failure io n st) = calm d st" "calm d (note_success n st) = calm d st" "calm d (consumePendingLogin token st) = calm d st"
  by (simp_all add: calm_def login_failed_def note_failure_def note_success_def consumePendingLogin_def)

lemma org_view_sessions [simp]: "org_view (d\<lparr>db_sessions := m\<rparr>) = org_view d" "org_view (d\<lparr>db_tokens := ts\<rparr>) = org_view d"
  by (simp_all add: org_view_def accounts_of_def)

lemma org_view_users:
  assumes "\<And>u. us_ID (f u) = us_ID u \<and> us_DisabledAt (f u) = us_DisabledAt u"
  shows "org_view (d\<lparr>db_users := map (\<lambda>u. if us_ID u = i then f u else u) (db_users d)\<rparr>) = org_view d"
  using assms by (simp add: org_view_def accounts_of_def comp_def cong: if_cong)

lemma update_user_view:
  "update_user fl q i f d = Inr d' \<Longrightarrow> (\<And>u. us_ID (f u) = us_ID u \<and> us_DisabledAt (f u) = us_DisabledAt u) \<Longrightarrow> org_view d' = org_view d"
  using org_view_users[of f i d] by (auto simp: update_user_def split: if_splits)

lemma credentials_view: "updateWebAuthnCredentials fl i fn d = Inr d' \<Longrightarrow> org_view d' = org_view d"
  by (auto simp: updateWebAuthnCredentials_def org_view_users split: if_splits option.splits sum.splits)

lemma revoke_view: "RevokeAPIToken fl user i d = Inr d' \<Longrightarrow> org_view d' = org_view d"
  by (auto simp: RevokeAPIToken_def split: if_splits)

lemma revoke_each_view: "revoke_each fl user ts d = (n, err, d') \<Longrightarrow> org_view d' = org_view d"
  by (induction ts arbitrary: d n err d') (auto dest: revoke_view split: sum.splits prod.splits)

text \<open>The statements that change none of it.\<close>

lemma view_same:
  "SetTOTP fl i secret en rec d = Inr d' \<Longrightarrow> org_view d' = org_view d" "SetEmail fl i email v d = Inr d' \<Longrightarrow> org_view d' = org_view d"
  "SetEmailOTPEnabled fl i en d = Inr d' \<Longrightarrow> org_view d' = org_view d" "SetPassword fl i hash m d = Inr d' \<Longrightarrow> org_view d' = org_view d"
  "AddWebAuthnCredential fl i cred d = Inr d' \<Longrightarrow> org_view d' = org_view d" "RenameWebAuthnCredential fl i c n d = Inr d' \<Longrightarrow> org_view d' = org_view d"
  "TouchWebAuthnCredential fl i c sc t d = Inr d' \<Longrightarrow> org_view d' = org_view d" "RemoveWebAuthnCredential fl i c d = Inr d' \<Longrightarrow> org_view d' = org_view d"
  "CreateAPIToken fl i hash user name now d = Inr d' \<Longrightarrow> org_view d' = org_view d" "RevokeAPIToken fl user i d = Inr d' \<Longrightarrow> org_view d' = org_view d"
  "revokeAPITokens fl user d = (k, err, d') \<Longrightarrow> org_view d' = org_view d" "CreateSession fl hash i ip now e d = Inr d' \<Longrightarrow> org_view d' = org_view d"
  "DeleteUserSessions fl i x d = Inr d' \<Longrightarrow> org_view d' = org_view d"
  unfolding SetTOTP_def SetEmail_def SetEmailOTPEnabled_def SetPassword_def AddWebAuthnCredential_def RenameWebAuthnCredential_def
    TouchWebAuthnCredential_def RemoveWebAuthnCredential_def CreateAPIToken_def RevokeAPIToken_def revokeAPITokens_def CreateSession_def DeleteUserSessions_def
  by (auto elim: update_user_view dest: credentials_view revoke_each_view split: if_splits option.splits sum.splits)

lemma view_kept [simp]:
  "org_view (MarkLogin fl i now d) = org_view d" "org_view (DeleteSession fl h d) = org_view d" "org_view (PurgeSessions fl t d) = org_view d"
  "org_view (TouchAPIToken fl h now d) = org_view d" "org_view (TouchSession fl h now d) = org_view d"
  by (auto simp: MarkLogin_def DeleteSession_def PurgeSessions_def TouchAPIToken_def TouchSession_def org_view_users)

lemma view_left:
  "(case DeleteUserSessions fl i x d of Inl e \<Rightarrow> (a e, d) | Inr d \<Rightarrow> (b, d)) = (c, d') \<Longrightarrow> org_view d' = org_view d"
  using view_same(13) by (auto split: sum.splits)

lemmas view_steps = view_same[THEN trans] view_left[THEN trans]

lemma calm_parts:
  assumes "calm d st"
  shows "post (\<lambda>_. calm d) (allowIP env io st)" "post (\<lambda>_. calm d) (allowUser io key st)"
    "post (\<lambda>_. calm d) (allowReg io key st)" "post (\<lambda>_. calm d) (allowAll io st)"
    "post (\<lambda>_. calm d) (blocked io key st)" "post (\<lambda>_. calm d) (send_mail io addr purpose code st)"
    "post (\<lambda>_. calm d) (beginEmailChallenge env io subject email st)" "post (\<lambda>_. calm d) (checkEmailChallenge env now subject code st)"
    "post (\<lambda>_. calm d) (peekPendingLogin now token st)" "post (\<lambda>_. calm d) (beginTwoFactor io uid methods st)"
    "post (\<lambda>_. calm d) (openSession env io u st)"
  using assms by (auto simp: allowIP_def allowUser_def allowReg_def allowAll_def blocked_def send_mail_def beginEmailChallenge_def checkEmailChallenge_def
      peekPendingLogin_def beginTwoFactor_def openSession_def post_def Let_def calm_def dest!: view_same(12) split: prod.split option.split sum.split)

lemma calm_with_password: "calm d st \<Longrightarrow> post (\<lambda>_. calm d) (with_password env io p pw st)"
  unfolding with_password_def Let_def by (intro post_rules calm_parts; (assumption | simp))

lemma calmD: "calm d st \<Longrightarrow> org_view (ac_db st) = org_view d"
  by (simp add: calm_def)

lemma calm_if: "calm d a \<Longrightarrow> calm d b \<Longrightarrow> calm d (if c then a else b)"
  by simp

lemmas calm_rules = post_rules post_answer post_known post_opened calm_parts calm_with_password calm_if

lemma calm_own_step: "calm d st \<Longrightarrow> post (\<lambda>_. calm d) (own_step env io p oc st)"
  by (cases oc; simp only: own_step.simps; unfold own_handlers Let_def Logout_def; intro calm_rules;
      (assumption | (simp; fail) | (simp only: calm_upd calm_simps, (erule calmD | erule view_steps | (simp add: calmD; fail))+; fail)))

lemma calm_others:
  assumes "calm d st"
  shows "post (\<lambda>_. calm d) (Login env io name pw st)" "post (\<lambda>_. calm d) (LoginSSO env io name st)" "post (\<lambda>_. calm d) (Login2FA env io token code st)"
    "post (\<lambda>_. calm d) (FinishPasskeyLogin env io token rp response st)" "post (\<lambda>_. calm d) (Authenticate env io secret st)"
    "post (\<lambda>_. calm d) (AuthenticateAPIToken env io secret st)" "post (\<lambda>_. calm d) (RequestLoginEmailCode env io token st)"
    "post (\<lambda>_. calm d) (BeginPasskeyLogin env io token rp st)" "post (\<lambda>_. calm d) (PreviewInvite env io secret st)"
  using assms unfolding Login_def LoginSSO_def Login2FA_def login2fa_user_def login2fa_finish_def match_code_def FinishPasskeyLogin_def takePasskey_def
    Authenticate_def AuthenticateAPIToken_def RequestLoginEmailCode_def BeginPasskeyLogin_def PreviewInvite_def Let_def
  by - (intro calm_rules; (assumption | (simp; fail) | (simp only: calm_upd calm_simps, (erule calmD | erule view_steps | (simp add: calmD; fail))+; fail)))+

lemma calm_way: "calm d st \<Longrightarrow> post (\<lambda>_. calm d) (register_way env c io name invite g st)"
  unfolding register_way_def Let_def by (intro calm_others calm_rules; (assumption | (simp; fail)))

subsection \<open>What the other calls do\<close>

text \<open>A call that was answered with what it is for.\<close>

definition achieved :: "acc_call \<Rightarrow> acc_result \<Rightarrow> bool" where
  "achieved call r = (case call of Org p oc \<Rightarrow> r = Answered | SignUp name pw invite g \<Rightarrow> (case r of Opened s u \<Rightarrow> True | _ \<Rightarrow> False) | _ \<Rightarrow> False)"

definition made_invite :: "login_env \<Rightarrow> call_io \<Rightarrow> string \<Rightarrow> principal \<Rightarrow> string \<Rightarrow> string \<Rightarrow> string \<Rightarrow> invite" where
  "made_invite env io secret p g role label = \<lparr>iv_ID = ''inv-'' @ hex (io_id io), iv_OrgID = g, iv_Hash = HashSecret env secret, iv_Role = role,
     iv_Label = trim_space label, iv_CreatedBy = us_ID (pr_User p), iv_CreatedAt = msec (io_now io), iv_ExpiresAt = msec (io_now io + InviteTTL),
     iv_UsedAt = None, iv_UsedBy = []\<rparr>"

abbreviation new_id :: "call_io \<Rightarrow> string" where "new_id io \<equiv> ''u-'' @ hex (io_id io)"

inductive moves :: "login_env \<Rightarrow> call_io \<Rightarrow> acc_call \<Rightarrow> acc_result \<Rightarrow> acc_db \<Rightarrow> acc_db \<Rightarrow> bool" for env io where
  stays: "\<not> achieved call r \<Longrightarrow> org_view d' = org_view d \<Longrightarrow> moves env io call r d d'"
| joins: "UseInvite fl (HashSecret env secret) (us_ID (pr_User p)) (io_now io) d = Inr (iv, d1) \<Longrightarrow> org_view d' = org_view d1
    \<Longrightarrow> moves env io (Org p (TakeInvite secret)) r d d'"
| registers_invited: "CreateUser fl u d = Inr d1 \<Longrightarrow> us_ID u = new_id io \<Longrightarrow> UseInvite fl (HashSecret env invite) (us_ID u) (io_now io) d1 = Inr (iv, d2)
    \<Longrightarrow> org_view d' = org_view d2 \<Longrightarrow> moves env io (SignUp name pw invite g) r d d'"
| registers_founding: "CreateUser fl u d = Inr d1 \<Longrightarrow> us_ID u = new_id io \<Longrightarrow> CreateOrgRow fl o' (us_ID u) d1 = Inr d2 \<Longrightarrow> org_view d' = org_view d2
    \<Longrightarrow> moves env io (SignUp name pw [] g) r d d'"
| rolls_back: "CreateUser fl u d = Inr d1 \<Longrightarrow> org_view d' = org_view (DeleteUser fl (us_ID u) d1) \<Longrightarrow> \<not> achieved (SignUp name pw invite g) r
    \<Longrightarrow> moves env io (SignUp name pw invite g) r d d'"
| founds: "CreateOrgRow fl o' (us_ID (pr_User p)) d = Inr d1 \<Longrightarrow> org_view d' = org_view d1 \<Longrightarrow> moves env io (Org p (MakeOrg name)) r d d'"
| invites: "newInviteSecret (io_rnd io) = Some secret \<Longrightarrow> validRole role \<Longrightarrow> may_grant p role
    \<Longrightarrow> CreateInviteRow (io_fails io) (made_invite env io secret p g role label) d = Inr d' \<Longrightarrow> moves env io (Org p (MakeInvite g role label)) Answered d d'"
| withdraws: "RevokeInviteRow fl g i d = Inr d' \<Longrightarrow> moves env io (Org p (WithdrawInvite g i)) Answered d d'"
| changes_role: "member_row g user d = Some m \<Longrightarrow> find_user user d = Some u \<Longrightarrow> validRole role \<Longrightarrow> user \<noteq> us_ID (pr_User p) \<Longrightarrow> may_grant p (mb_Role m)
    \<Longrightarrow> may_grant p role \<Longrightarrow> (mb_Role m = ''owner'' \<and> role \<noteq> ''owner'' \<Longrightarrow> us_DisabledAt u = None \<Longrightarrow> 1 < length (filter (active_owner d g) (db_members d)))
    \<Longrightarrow> SetMemberRoleRow fl g user role d = Inr d' \<Longrightarrow> moves env io (Org p (ChangeRole g user role)) Answered d d'"
| takes_out: "member_row g user d = Some m \<Longrightarrow> find_user user d = Some u \<Longrightarrow> user = us_ID (pr_User p) \<or> may_grant p (mb_Role m)
    \<Longrightarrow> (mb_Role m = ''owner'' \<Longrightarrow> us_DisabledAt u = None \<Longrightarrow> 1 < length (filter (active_owner d g) (db_members d)))
    \<Longrightarrow> RemoveMemberRow fl g user d = Inr d' \<Longrightarrow> moves env io (Org p (TakeOut g user)) Answered d d'"
| renames: "RenameOrgRow fl g name' d = Inr d' \<Longrightarrow> moves env io (Org p (NameOrg g name)) Answered d d'"
| erases: "DeleteOrgRows fl g d = Inr d' \<Longrightarrow> moves env io (Org p (EraseOrg g confirm)) Answered d d'"
| bootstraps: "db_users d = [] \<Longrightarrow> CreateUser fl u d = Inr d1 \<Longrightarrow> org_view d' = org_view d1 \<or> (\<exists>o' d2. CreateOrgRow fl o' (us_ID u) d1 = Inr d2 \<and> org_view d' = org_view d2)
    \<Longrightarrow> moves env io (Host (Bootstrap pw)) r d d'"
| recovers_user: "org_view d0 = org_view d \<Longrightarrow> SetDisabled fl i None d0 = Inr d1 \<Longrightarrow> org_view d' = org_view d1 \<Longrightarrow> moves env io (Host (Recover name)) r d d'"
| recovers_new: "CreateUser fl u d = Inr d1 \<Longrightarrow> org_view d' = org_view d1 \<Longrightarrow> moves env io (Host (Recover name)) r d d'"
| founds_for: "GetUserByName fl (le_lower env user) d = Inr u \<Longrightarrow> CreateOrgRow fl o' (us_ID u) d = Inr d1 \<Longrightarrow> org_view d' = org_view d1
    \<Longrightarrow> moves env io (Host (MakeOrgFor user name)) r d d'"

lemma allow_db:
  "allowReg io key st = (ok, st1) \<Longrightarrow> ac_db st1 = ac_db st" "allowAll io st = (ok, st1) \<Longrightarrow> ac_db st1 = ac_db st"
  by (auto simp: allowReg_def allowAll_def split: prod.splits)

lemma preview_db: "PreviewInvite env io secret st = (a, st1) \<Longrightarrow> ac_db st1 = ac_db st"
  by (auto simp: PreviewInvite_def dest!: allow_db split: prod.splits if_splits sum.splits)

lemma way_db: "register_way env c io name invite g st = (a, st1) \<Longrightarrow> ac_db st1 = ac_db st"
  by (auto simp: register_way_def Let_def dest!: preview_db split: prod.splits if_splits sum.splits option.splits)

lemma not_achieved [simp]: "\<not> achieved (Org p oc) (Refused e)" "\<not> achieved (SignUp name pw invite g) (Refused e)"
  by (simp_all add: achieved_def)

lemma accept_moves:
  assumes "answer (AcceptInvite env io p secret st) = (r, st')"
  shows "moves env io (Org p (TakeInvite secret)) r (ac_db st) (ac_db st')"
  using assms by (auto simp: AcceptInvite_def answer_def Let_def dest!: allow_db intro: stays joins split: prod.splits if_splits sum.splits)

lemma org_moves:
  assumes "org_step env c io p oc st = (r, st')"
  shows "moves env io (Org p oc) r (ac_db st) (ac_db st')"
proof (cases oc)
  case (TakeInvite secret)
  then show ?thesis using accept_moves assms by simp
next
  case (MakeOrg name)
  then show ?thesis using assms
    by (auto simp: CreateOrg_def answer_def Let_def new_org_def intro: stays founds split: prod.splits if_splits sum.splits option.splits)
next
  case (MakeInvite g role label)
  then show ?thesis using assms
    by (auto simp: CreateInvite_def audited_def answer_def Let_def intro: stays split: prod.splits if_splits sum.splits option.splits)
      (rule invites; simp add: made_invite_def)+
next
  case (WithdrawInvite g i)
  then show ?thesis using assms
    by (auto simp: RevokeInvite_def audited_def answer_def Let_def intro: stays withdraws split: prod.splits if_splits sum.splits option.splits)
next
  case (ChangeRole g user role)
  then show ?thesis using assms
    by (auto simp: SetMemberRole_def member_of_def needAnotherOwner_def GetMembership_def GetUser_found CountOwners_def audited_def answer_def Let_def
        intro: stays split: prod.splits if_splits sum.splits option.splits)
      ((rule changes_role, assumption, assumption); auto dest: find_user_ID)+
next
  case (TakeOut g user)
  then show ?thesis using assms
    by (auto simp: RemoveMember_def member_of_def needAnotherOwner_def GetMembership_def GetUser_found CountOwners_def audited_def answer_def Let_def
        intro: stays split: prod.splits if_splits sum.splits option.splits)
      ((rule takes_out, assumption, assumption); auto dest: find_user_ID)+
next
  case (NameOrg g name)
  then show ?thesis using assms
    by (auto simp: RenameOrg_def audited_def answer_def Let_def intro: stays renames split: prod.splits if_splits sum.splits option.splits)
next
  case (EraseOrg g confirm)
  then show ?thesis using assms
    by (auto simp: DeleteOrg_def audited_def answer_def Let_def intro: stays erases split: prod.splits if_splits sum.splits option.splits)
qed

lemma view_of_db: "ac_db st1 = d \<Longrightarrow> calm d st1"
  by (simp add: calm_def)

lemma open_view: "openSession env io u st1 = (a, st2) \<Longrightarrow> org_view (ac_db st2) = org_view (ac_db st1)"
  using calm_parts(11)[of "ac_db st1" st1 env io u] by (simp add: post_def calm_def)

lemma way_invite: "register_way env c io name invite g st = (Inr (Inr x), st1) \<Longrightarrow> invite = []"
  by (auto simp: register_way_def Let_def split: prod.splits if_splits sum.splits option.splits)

lemma same_parts:
  "ac_db st1 = d \<Longrightarrow> post (\<lambda>_ st. ac_db st = d) (allowReg io key st1)" "ac_db st1 = d \<Longrightarrow> post (\<lambda>_ st. ac_db st = d) (allowAll io st1)"
  "ac_db st1 = d \<Longrightarrow> post (\<lambda>_ st. ac_db st = d) (register_way env c io name invite g st1)"
  by (auto simp: post_def allowReg_def allowAll_def split: prod.splits)
    (cases "register_way env c io name invite g st1"; use way_db in fastforce)

definition res_of :: "acc_error + string \<times> user \<Rightarrow> acc_result" where
  "res_of a = (case a of Inl e \<Rightarrow> Refused e | Inr (s, u) \<Rightarrow> Opened s u)"

lemma res_of_simps [simp]: "res_of (Inl e) = Refused e" "res_of (Inr (s, u)) = Opened s u"
  by (simp_all add: res_of_def)

lemma new_user_ID [simp]: "us_ID (new_user io name hash must) = new_id io"
  by (simp add: new_user_def)

lemma register_post:
  "post (\<lambda>a st'. moves env io (SignUp name pw invite g) (res_of a) (ac_db st) (ac_db st')) (Register env c io name pw invite g st)"
  unfolding Register_def Let_def
  by (intro post_step[where P = "\<lambda>st1. ac_db st1 = ac_db st"] same_parts post_if post_option post_sum post_pair post_prod; (assumption | (simp add: stays; fail))?)
   (auto dest!: way_invite open_view simp: NameOf_def intro: rolls_back registers_invited registers_founding split: sum.splits option.splits)

lemma recover_view:
  assumes "RecoverPassword env io name st = (a, st')" "GetUserByName (io_fails io) (le_lower env name) (ac_db st) = Inr u"
    and "randomPassword (io_rnd io) = Some pw" "hashPassword env io pw = Inr hash"
  shows "org_view (ac_db st') = (case SetPassword (io_fails io) (us_ID u) hash True (ac_db st) of Inl e \<Rightarrow> org_view (ac_db st)
     | Inr d0 \<Rightarrow> (case SetDisabled (io_fails io) (us_ID u) None d0 of Inl e \<Rightarrow> org_view d0 | Inr d1 \<Rightarrow> org_view d1))"
  using assms by (auto simp: RecoverPassword_def Let_def dest!: view_same(13,11) split: prod.splits if_splits sum.splits)

lemma recover_moves:
  assumes "RecoverPassword env io name st = (a, st')"
  shows "moves env io (Host (Recover name)) r (ac_db st) (ac_db st')"
proof (cases "GetUserByName (io_fails io) (le_lower env name) (ac_db st)")
  case (Inl e)
  then show ?thesis using assms
    by (auto simp: RecoverPassword_def Let_def achieved_def intro: stays recovers_new split: prod.splits if_splits sum.splits option.splits)
next
  case (Inr u)
  show ?thesis
  proof (cases "\<exists>pw hash. randomPassword (io_rnd io) = Some pw \<and> hashPassword env io pw = Inr hash")
    case True
    then obtain pw hash where "randomPassword (io_rnd io) = Some pw" "hashPassword env io pw = Inr hash" by blast
    from recover_view[OF assms Inr this] show ?thesis
      by (auto simp: achieved_def dest!: view_same(4) intro: stays recovers_user split: sum.splits)
  next
    case False
    then have "st' = st" using assms unfolding RecoverPassword_def Let_def
      by (cases "randomPassword (io_rnd io)"; cases "hashPassword env io (the (randomPassword (io_rnd io)))") auto
    then show ?thesis by (simp add: stays achieved_def)
  qed
qed

lemma host_stays: "org_view d' = org_view d \<Longrightarrow> moves env io (Host ho) r d d'"
  by (simp add: stays achieved_def)

lemma bootstrap_post:
  "post (\<lambda>_ st'. moves env io (Host (Bootstrap pw)) r (ac_db st) (ac_db st')) (BootstrapAdmin env c io pw st)"
  unfolding BootstrapAdmin_def Let_def
  by (intro post_if post_option post_sum post_pair post_prod; ((simp add: host_stays; fail) | (rule bootstraps, simp, assumption, auto)))

lemma host_moves:
  assumes "host_step env c io ho st = (r, st')"
  shows "moves env io (Host ho) r (ac_db st) (ac_db st')"
proof (cases ho)
  case (Bootstrap pw)
  then show ?thesis using assms answer_state[of "BootstrapAdmin env c io pw st" r st'] bootstrap_post[of env io pw r st c] by (simp add: post_def)
next
  case (MakeOrgFor user name)
  then show ?thesis using assms
    by (auto simp: CreateOrgFor_def Let_def achieved_def intro: stays founds_for split: prod.splits if_splits sum.splits option.splits)
next
  case Restart
  then show ?thesis using assms by (auto intro!: stays simp: achieved_def newAuthState_def)
next
  case (Recover name)
  then show ?thesis using assms recover_moves by (auto split: prod.splits sum.splits)
qed

lemma register_moves:
  assumes "opened_by (Register env c io name pw invite g st) = (r, st')"
  shows "moves env io (SignUp name pw invite g) r (ac_db st) (ac_db st')"
proof -
  obtain a where "Register env c io name pw invite g st = (a, st')" "r = res_of a"
    using assms by (auto simp: opened_by_def split: prod.splits sum.splits)
  then show ?thesis using register_post[of env io name pw invite g st c] by (simp add: post_def)
qed

lemma step_moves:
  assumes "acc_step env c io call st = (r, st')"
  shows "moves env io call r (ac_db st) (ac_db st')"
proof -
  have quiet: ?thesis if "post (\<lambda>_. calm (ac_db st)) (acc_step env c io call st)" "\<not> achieved call r"
    using that assms by (auto simp: post_def calm_def intro: stays)
  show ?thesis
  proof (cases call)
    case (Org p oc)
    then show ?thesis using assms org_moves by simp
  next
    case (Host ho)
    then show ?thesis using assms host_moves by simp
  next
    case (SignUp name pw invite g)
    then show ?thesis using assms register_moves by simp
  qed (rule quiet, (simp, intro post_answer post_known post_opened calm_others calm_own_step calm_refl)[1], (simp add: achieved_def)[1])+
qed

subsection \<open>Every organisation keeps an owner\<close>

fun ok_view :: "org list \<times> membership list \<times> invite list \<times> (string \<times> bool) list \<Rightarrow> bool" where
  "ok_view (orgs, mems, invs, accs) \<longleftrightarrow> list_all snd accs \<and> distinct (map og_ID orgs)
     \<and> (\<forall>m\<in>set mems. mb_UserID m \<in> fst ` set accs \<and> mb_OrgID m \<in> og_ID ` set orgs)
     \<and> distinct (map (\<lambda>m. (mb_OrgID m, mb_UserID m)) mems)
     \<and> (\<forall>g\<in>set orgs. \<exists>m\<in>set mems. mb_OrgID m = og_ID g \<and> mb_Role m = ''owner'')"

lemma found_account: "find_user i d \<noteq> None \<longleftrightarrow> i \<in> fst ` set (accounts_of d)"
  by (auto simp: find_user_def find_None_iff accounts_of_def image_image)

lemma CreateUser_view:
  assumes "CreateUser fl u d = Inr d1"
  shows "org_view d1 = (db_orgs d, db_members d, db_invites d, accounts_of d @ [(us_ID u, True)])" "us_ID u \<notin> fst ` set (accounts_of d)"
  using assms by (auto simp: CreateUser_def org_view_def accounts_of_def list_ex_iff split: if_splits)

lemma CreateOrgRow_view:
  assumes "CreateOrgRow fl g i d = Inr d1"
  obtains g' where "og_ID g' = og_ID g" "org_view d1 = (db_orgs d @ [g'],
      db_members d @ [\<lparr>mb_OrgID = og_ID g, mb_UserID = i, mb_Role = ''owner'', mb_CreatedAt = of_msec (msec (og_CreatedAt g)), mb_AddedBy = []\<rparr>], db_invites d, accounts_of d)"
    "og_ID g \<notin> og_ID ` set (db_orgs d)" "i \<in> fst ` set (accounts_of d)"
  using assms that[of "g\<lparr>og_CreatedAt := of_msec (msec (og_CreatedAt g))\<rparr>"] found_account[of i d]
  by (auto simp: CreateOrgRow_def org_view_def accounts_of_def list_ex_iff image_iff split: if_splits) metis

lemma member_row_None: "member_row g i d = None \<longleftrightarrow> (g, i) \<notin> (\<lambda>m. (mb_OrgID m, mb_UserID m)) ` set (db_members d)"
  by (auto simp: member_row_def find_None_iff)

lemma UseInvite_view:
  assumes "UseInvite fl h i now d = Inr (iv, d1)"
  obtains m where "org_view d1 = (db_orgs d, db_members d @ [m], db_invites d1, accounts_of d)" "mb_OrgID m = iv_OrgID iv" "mb_UserID m = i" "mb_Role m = iv_Role iv"
    "(iv_OrgID iv, i) \<notin> (\<lambda>m. (mb_OrgID m, mb_UserID m)) ` set (db_members d)" "i \<in> fst ` set (accounts_of d)" "iv_OrgID iv \<in> og_ID ` set (db_orgs d)"
  using assms that found_account[of i d] member_row_None[of "iv_OrgID iv" i d]
  by (auto simp: UseInvite_def org_view_def accounts_of_def list_ex_iff image_iff split: if_splits option.splits) metis

lemma DeleteUser_view:
  "org_view (DeleteUser fl i d) = (if fl QDeleteUser then org_view d
     else (db_orgs d, filter (\<lambda>m. mb_UserID m \<noteq> i) (db_members d), db_invites d, filter (\<lambda>a. fst a \<noteq> i) (accounts_of d)))"
  by (simp add: DeleteUser_def org_view_def accounts_of_def filter_map comp_def)

lemma SetDisabled_view:
  "SetDisabled fl i None d = Inr d1 \<Longrightarrow> org_view d1 = (db_orgs d, db_members d, db_invites d, map (\<lambda>(j, b). (j, b \<or> j = i)) (accounts_of d))"
  by (auto simp: SetDisabled_def update_user_def org_view_def accounts_of_def stored_def split: if_splits)

lemma ok_view_cong: "org_view d' = org_view d \<Longrightarrow> ok_view (org_view d) \<Longrightarrow> ok_view (org_view d')"
  by simp

lemma CreateUser_ok: "CreateUser fl u d = Inr d1 \<Longrightarrow> ok_view (org_view d) \<Longrightarrow> ok_view (org_view d1)"
  using CreateUser_view by (fastforce simp: org_view_def[of d])

lemma CreateOrgRow_ok: "CreateOrgRow fl g i d = Inr d1 \<Longrightarrow> ok_view (org_view d) \<Longrightarrow> ok_view (org_view d1)"
  by (erule CreateOrgRow_view) (auto simp: org_view_def[of d] image_iff, metis)

lemma UseInvite_ok: "UseInvite fl h i now d = Inr (iv, d1) \<Longrightarrow> ok_view (org_view d) \<Longrightarrow> ok_view (org_view d1)"
  by (erule UseInvite_view) (auto simp: org_view_def[of d])

lemma rolled_back_ok:
  assumes "CreateUser fl u d = Inr d1" "ok_view (org_view d)"
  shows "ok_view (org_view (DeleteUser fl' (us_ID u) d1))"
proof -
  have v: "org_view d1 = (db_orgs d, db_members d, db_invites d, accounts_of d @ [(us_ID u, True)])" "us_ID u \<notin> fst ` set (accounts_of d)"
    using CreateUser_view[OF assms(1)] by auto
  have "m \<in> set (db_members d) \<Longrightarrow> mb_UserID m \<noteq> us_ID u" for m using assms(2) v(2) by (simp add: org_view_def) metis
  then have "filter (\<lambda>m. mb_UserID m \<noteq> us_ID u) (db_members d) = db_members d" by (simp add: filter_id_conv)
  moreover have "filter (\<lambda>a. fst a \<noteq> us_ID u) (accounts_of d) = accounts_of d" using v(2) by (force simp: filter_id_conv)
  ultimately have "org_view (DeleteUser fl' (us_ID u) d1) \<in> {org_view d1, org_view d}" using v(1)
    by (auto simp: DeleteUser_view) (auto simp: org_view_def)
  then show ?thesis using assms(2) CreateUser_ok[OF assms] by auto
qed

lemma another:
  assumes "distinct (map key xs)" "1 < length (filter P xs)"
  shows "\<exists>x\<in>set xs. P x \<and> key x \<noteq> k"
proof (rule ccontr)
  assume "\<not> ?thesis"
  then have "set (map key (filter P xs)) \<subseteq> {k}" by auto
  moreover have "card (set (map key (filter P xs))) = length (filter P xs)"
    using distinct_card[of "map key (filter P xs)"] assms(1) by (simp add: distinct_map_filter)
  ultimately show False using assms(2) card_mono[of "{k}" "set (map key (filter P xs))"] by simp
qed

lemma member_row_Some: "member_row g i d = Some m \<Longrightarrow> m \<in> set (db_members d) \<and> mb_OrgID m = g \<and> mb_UserID m = i"
  by (auto simp: member_row_def find_Some_iff)

text \<open>A change to one membership that leaves another owner, where it takes one away, keeps an owner everywhere.\<close>

lemma owner_left:
  assumes "ok_view (org_view d)" "g \<in> set (db_orgs d)"
    and "og_ID g = gi \<Longrightarrow> \<exists>m\<in>set (db_members d). mb_OrgID m = gi \<and> mb_Role m = ''owner'' \<and> mb_UserID m \<noteq> i"
  shows "\<exists>m\<in>set (db_members d). mb_OrgID m = og_ID g \<and> mb_Role m = ''owner'' \<and> \<not> (mb_OrgID m = gi \<and> mb_UserID m = i)"
proof (cases "og_ID g = gi")
  case True
  then show ?thesis using assms(3) by auto
next
  case False
  obtain m where "m \<in> set (db_members d)" "mb_OrgID m = og_ID g" "mb_Role m = ''owner''"
    using assms(1,2) by (auto simp: org_view_def)
  then show ?thesis using False by auto
qed

lemma second_owner:
  assumes "ok_view (org_view d)" "1 < length (filter (\<lambda>m. mb_OrgID m = g \<and> mb_Role m = ''owner'') (db_members d))"
  shows "\<exists>m\<in>set (db_members d). mb_OrgID m = g \<and> mb_Role m = ''owner'' \<and> mb_UserID m \<noteq> i"
  using another[OF _ assms(2), of "\<lambda>m. (mb_OrgID m, mb_UserID m)" "(g, i)"] assms(1) by (auto simp: org_view_def)

lemma same_member:
  assumes "ok_view (org_view d)" "m \<in> set (db_members d)" "m' \<in> set (db_members d)" "mb_OrgID m' = mb_OrgID m" "mb_UserID m' = mb_UserID m"
  shows "m' = m"
  using assms by (auto simp: org_view_def dest: inj_onD simp: distinct_map inj_on_def)

lemma taken_out_ok:
  assumes "RemoveMemberRow fl g i d = Inr d1" "ok_view (org_view d)" "member_row g i d = Some m"
    and "mb_Role m = ''owner'' \<Longrightarrow> 1 < length (filter (\<lambda>m. mb_OrgID m = g \<and> mb_Role m = ''owner'') (db_members d))"
  shows "ok_view (org_view d1)"
proof -
  have v: "org_view d1 = (db_orgs d, filter (\<lambda>m. \<not> (mb_OrgID m = g \<and> mb_UserID m = i)) (db_members d), db_invites d, accounts_of d)"
    using assms(1) by (auto simp: RemoveMemberRow_def org_view_def accounts_of_def split: if_splits)
  have "\<exists>m\<in>set (db_members d). mb_OrgID m = og_ID h \<and> mb_Role m = ''owner'' \<and> \<not> (mb_OrgID m = g \<and> mb_UserID m = i)" if h: "h \<in> set (db_orgs d)" for h
  proof (rule owner_left[OF assms(2) h])
    assume "og_ID h = g"
    then obtain m' where m': "m' \<in> set (db_members d)" "mb_OrgID m' = g" "mb_Role m' = ''owner''"
      using assms(2) h by (auto simp: org_view_def)
    then show "\<exists>m\<in>set (db_members d). mb_OrgID m = g \<and> mb_Role m = ''owner'' \<and> mb_UserID m \<noteq> i"
      using second_owner[OF assms(2), of g i] assms(4) same_member[OF assms(2), of m m'] member_row_Some[OF assms(3)] by (cases "mb_UserID m' = i") auto
  qed
  then have "\<forall>h\<in>set (db_orgs d). \<exists>m\<in>set (filter (\<lambda>m. \<not> (mb_OrgID m = g \<and> mb_UserID m = i)) (db_members d)). mb_OrgID m = og_ID h \<and> mb_Role m = ''owner''"
    by fastforce
  then show ?thesis using assms(2) unfolding v org_view_def[of d] ok_view.simps by (simp add: distinct_map_filter)
qed

lemma changed_role_ok:
  assumes "SetMemberRoleRow fl g i role d = Inr d1" "ok_view (org_view d)" "member_row g i d = Some m"
    and "mb_Role m = ''owner'' \<and> role \<noteq> ''owner'' \<Longrightarrow> 1 < length (filter (\<lambda>m. mb_OrgID m = g \<and> mb_Role m = ''owner'') (db_members d))"
  shows "ok_view (org_view d1)"
proof -
  define f :: "membership \<Rightarrow> membership" where "f = (\<lambda>m. if mb_OrgID m = g \<and> mb_UserID m = i then m\<lparr>mb_Role := role\<rparr> else m)"
  have v: "org_view d1 = (db_orgs d, map f (db_members d), db_invites d, accounts_of d)"
    using assms(1) by (auto simp: f_def SetMemberRoleRow_def org_view_def accounts_of_def split: if_splits)
  have k: "mb_OrgID (f m) = mb_OrgID m" "mb_UserID (f m) = mb_UserID m" for m by (simp_all add: f_def)
  have "\<exists>m\<in>set (db_members d). mb_OrgID m = og_ID h \<and> mb_Role (f m) = ''owner''" if h: "h \<in> set (db_orgs d)" for h
  proof (cases "og_ID h = g \<and> mb_Role m = ''owner'' \<and> role = ''owner''")
    case True
    then show ?thesis using member_row_Some[OF assms(3)] by (intro bexI[of _ m]) (auto simp: f_def)
  next
    case False
    have "\<exists>m\<in>set (db_members d). mb_OrgID m = og_ID h \<and> mb_Role m = ''owner'' \<and> \<not> (mb_OrgID m = g \<and> mb_UserID m = i)"
    proof (rule owner_left[OF assms(2) h])
      assume "og_ID h = g"
      then obtain m' where m': "m' \<in> set (db_members d)" "mb_OrgID m' = g" "mb_Role m' = ''owner''"
        using assms(2) h by (auto simp: org_view_def)
      then show "\<exists>m\<in>set (db_members d). mb_OrgID m = g \<and> mb_Role m = ''owner'' \<and> mb_UserID m \<noteq> i"
        using False second_owner[OF assms(2), of g i] assms(4) same_member[OF assms(2), of m m'] member_row_Some[OF assms(3)] \<open>og_ID h = g\<close>
        by (cases "mb_UserID m' = i") auto
    qed
    then show ?thesis by (auto simp: f_def)
  qed
  moreover have "distinct (map (\<lambda>m. (mb_OrgID m, mb_UserID m)) (map f (db_members d)))"
    using assms(2) k by (simp add: org_view_def comp_def)
  moreover have "\<forall>m\<in>set (map f (db_members d)). mb_UserID m \<in> fst ` set (accounts_of d) \<and> mb_OrgID m \<in> og_ID ` set (db_orgs d)"
    using assms(2) k by (simp add: org_view_def)
  ultimately show ?thesis using assms(2) k by (simp add: v org_view_def[of d])
qed

text \<open>Where every account is enabled, the owners that count are the owners there are.\<close>

lemma enabled:
  assumes "ok_view (org_view d)" "find_user i d = Some u"
  shows "us_DisabledAt u = None"
  using assms by (auto simp: org_view_def accounts_of_def find_user_def find_Some_iff list_all_iff)

lemma owners_count:
  assumes "ok_view (org_view d)"
  shows "filter (active_owner d g) (db_members d) = filter (\<lambda>m. mb_OrgID m = g \<and> mb_Role m = ''owner'') (db_members d)"
proof (rule filter_cong[OF refl])
  fix m assume "m \<in> set (db_members d)"
  then have "find_user (mb_UserID m) d \<noteq> None" using assms found_account[of "mb_UserID m" d] by (simp add: org_view_def)
  then show "active_owner d g m = (mb_OrgID m = g \<and> mb_Role m = ''owner'')" using enabled[OF assms] by (auto simp: active_owner_def)
qed

lemma erased_ok:
  assumes "DeleteOrgRows fl g d = Inr d1" "ok_view (org_view d)"
  shows "ok_view (org_view d1)"
proof -
  have v: "org_view d1 = (filter (\<lambda>o'. og_ID o' \<noteq> g) (db_orgs d), filter (\<lambda>m. mb_OrgID m \<noteq> g) (db_members d), filter (\<lambda>v. iv_OrgID v \<noteq> g) (db_invites d), accounts_of d)"
    using assms(1) by (auto simp: DeleteOrgRows_def org_view_def accounts_of_def split: if_splits)
  have "\<exists>m\<in>set (db_members d). mb_OrgID m \<noteq> g \<and> mb_OrgID m = og_ID h \<and> mb_Role m = ''owner''" if "h \<in> set (db_orgs d)" "og_ID h \<noteq> g" for h
    using assms(2) that by (simp add: org_view_def) metis
  moreover have "mb_OrgID m \<in> og_ID ` {o' \<in> set (db_orgs d). og_ID o' \<noteq> g}" if "m \<in> set (db_members d)" "mb_OrgID m \<noteq> g" for m
    using assms(2) that by (simp add: org_view_def image_iff) metis
  ultimately show ?thesis using assms(2) by (simp add: v org_view_def[of d] distinct_map_filter) blast
qed

lemma ok_view_names: "map og_ID orgs' = map og_ID orgs \<Longrightarrow> ok_view (orgs', m, i, a) = ok_view (orgs, m, i, a)"
proof -
  assume e: "map og_ID orgs' = map og_ID orgs"
  have "og_ID ` set orgs' = og_ID ` set orgs" using arg_cong[OF e, of set] by simp
  moreover have "(\<forall>g\<in>set os. \<exists>x\<in>set m. mb_OrgID x = og_ID g \<and> mb_Role x = ''owner'')
     = (\<forall>k\<in>og_ID ` set os. \<exists>x\<in>set m. mb_OrgID x = k \<and> mb_Role x = ''owner'')" for os :: "org list" by simp
  ultimately show ?thesis using e by (simp only: ok_view.simps)
qed

lemma renamed_ok:
  assumes "RenameOrgRow fl g name d = Inr d1" "ok_view (org_view d)"
  shows "ok_view (org_view d1)"
proof -
  have "map og_ID (db_orgs d1) = map og_ID (db_orgs d)" "db_members d1 = db_members d" "db_invites d1 = db_invites d" "accounts_of d1 = accounts_of d"
    using assms(1) by (auto simp: RenameOrgRow_def accounts_of_def split: if_splits)
  then show ?thesis using assms(2) ok_view_names unfolding org_view_def by metis
qed

lemma invites_ok:
  "CreateInviteRow fl v d = Inr d1 \<Longrightarrow> ok_view (org_view d) \<Longrightarrow> ok_view (org_view d1)"
  "RevokeInviteRow fl g i d = Inr d1 \<Longrightarrow> ok_view (org_view d) \<Longrightarrow> ok_view (org_view d1)"
  by (auto simp: CreateInviteRow_def RevokeInviteRow_def org_view_def accounts_of_def split: if_splits)

lemma moves_ok: "moves env io call r d d' \<Longrightarrow> ok_view (org_view d) \<Longrightarrow> ok_view (org_view d')"
proof (induction rule: moves.induct)
  case (changes_role g user d m u role p fl d')
  then show ?case using changed_role_ok[OF changes_role.hyps(8)] enabled[of d user u] owners_count[of d g] by simp
next
  case (takes_out g user d m u p fl d')
  then show ?case using taken_out_ok[OF takes_out.hyps(5)] enabled[of d user u] owners_count[of d g] by simp
next
  case (recovers_user d0 d fl i d1 d' name r)
  then have "map (\<lambda>(j, b). (j, b \<or> j = i)) (accounts_of d0) = accounts_of d0"
    by (auto simp: list_all_iff org_view_def intro!: map_idI)
  then show ?case using recovers_user SetDisabled_view[OF recovers_user.hyps(2)] by (simp add: org_view_def)
next
  case (erases fl g d d' p confirm)
  then show ?case using erased_ok by simp
next
  case (renames fl g name' d d' p name)
  then show ?case using renamed_ok by simp
qed (metis CreateUser_ok CreateOrgRow_ok UseInvite_ok rolled_back_ok invites_ok)+

lemma reach_ok: "acc_reach env c tr st \<Longrightarrow> ok_view (org_view (ac_db st))"
proof (induction rule: acc_reach.induct)
  case reach_start
  show ?case by (simp add: newAuthState_def empty_db_def org_view_def accounts_of_def)
next
  case (reach_call tr st io call r st')
  then show ?case using moves_ok[OF step_moves] by blast
qed

text \<open>
  C5. Whatever calls were made since the database was empty: every organisation has an owner whose account exists and is enabled; every member is an
  account and is a member of an organisation once.
\<close>

theorem every_org_has_owner:
  assumes "acc_reach env c tr st"
  shows "(\<forall>g\<in>set (db_orgs (ac_db st)). \<exists>m\<in>set (db_members (ac_db st)). active_owner (ac_db st) (og_ID g) m)
     \<and> (\<forall>m\<in>set (db_members (ac_db st)). find_user (mb_UserID m) (ac_db st) \<noteq> None)
     \<and> distinct (map (\<lambda>m. (mb_OrgID m, mb_UserID m)) (db_members (ac_db st)))"
proof -
  let ?d = "ac_db st"
  have ok: "ok_view (org_view ?d)" using reach_ok[OF assms] .
  have "\<exists>m\<in>set (db_members ?d). active_owner ?d (og_ID g) m" if "g \<in> set (db_orgs ?d)" for g
  proof -
    have "\<exists>m. m \<in> set (filter (\<lambda>m. mb_OrgID m = og_ID g \<and> mb_Role m = ''owner'') (db_members ?d))"
      using ok that by (auto simp: org_view_def)
    then show ?thesis unfolding owners_count[OF ok, of "og_ID g", symmetric] by auto
  qed
  moreover have "\<forall>m\<in>set (db_members ?d). find_user (mb_UserID m) ?d \<noteq> None" "distinct (map (\<lambda>m. (mb_OrgID m, mb_UserID m)) (db_members ?d))"
    using ok found_account[of _ ?d] by (auto simp: org_view_def)
  ultimately show ?thesis by blast
qed

theorem every_org_has_owner_witness:
  "\<exists>m\<in>set (db_members (ac_db demo_st)). active_owner (ac_db demo_st) ''default'' m"
proof -
  have "ac_db demo_st = demo_db" by (simp add: demo_st_def newAuthState_def)
  then show ?thesis using every_org_has_owner[OF demo_reach] by (simp add: demo_db_def)
qed

end
