(* ===== verification/Invites.thy ===== *)
theory Invites
  imports Orgs
begin

text \<open>What an invitation is good for.\<close>

text \<open>Whom a call lets in with which secret.\<close>

definition lets_in :: "acc_call \<Rightarrow> acc_result \<Rightarrow> (string \<times> string) option" where
  "lets_in call r = (case call of Org p oc \<Rightarrow> (case oc of TakeInvite secret \<Rightarrow> if r = Answered then Some (secret, us_ID (pr_User p)) else None | _ \<Rightarrow> None)
     | SignUp name pw invite g \<Rightarrow> (case r of Opened s u \<Rightarrow> if invite = [] then None else Some (invite, us_ID u) | _ \<Rightarrow> None)
     | _ \<Rightarrow> None)"

text \<open>
  The invitation a hash stands for: its organisation, role, id and time, when someone who may grant the role made it and since then nobody was let in with it,
  it was not withdrawn and its organisation was not erased.
\<close>

definition offers :: "login_env \<Rightarrow> acc_event \<Rightarrow> string \<Rightarrow> (string \<times> string \<times> string \<times> time) option" where
  "offers env e h = (case e of (io, Org p (MakeInvite g role label), Answered, st) \<Rightarrow>
       if map_option (HashSecret env) (newInviteSecret (io_rnd io)) = Some h \<and> may_grant p role then Some (g, role, ''inv-'' @ hex (io_id io), io_now io) else None
     | _ \<Rightarrow> None)"

definition closes :: "login_env \<Rightarrow> acc_event \<Rightarrow> string \<Rightarrow> string \<Rightarrow> string \<Rightarrow> bool" where
  "closes env e h g i = (case e of (io, call, r, st) \<Rightarrow> (case lets_in call r of Some (secret, user) \<Rightarrow> HashSecret env secret = h | None \<Rightarrow>
       r = Answered \<and> (case call of Org p (WithdrawInvite g' i') \<Rightarrow> g' = g \<and> i' = i | Org p (EraseOrg g' confirm) \<Rightarrow> g' = g | _ \<Rightarrow> False)))"

fun offered :: "login_env \<Rightarrow> acc_event list \<Rightarrow> string \<Rightarrow> (string \<times> string \<times> string \<times> time) option" where
  "offered env [] h = None"
| "offered env (e # tr) h = (case offers env e h of Some x \<Rightarrow> Some x
     | None \<Rightarrow> (case offered env tr h of None \<Rightarrow> None | Some (g, role, i, t) \<Rightarrow> if closes env e h g i then None else Some (g, role, i, t)))"

definition stands :: "login_env \<Rightarrow> acc_event list \<Rightarrow> invite \<Rightarrow> bool" where
  "stands env tr v \<longleftrightarrow> (\<exists>t. offered env tr (iv_Hash v) = Some (iv_OrgID v, iv_Role v, iv_ID v, t) \<and> iv_ExpiresAt v = msec (t + InviteTTL))"

definition invited :: "login_env \<Rightarrow> acc_event list \<Rightarrow> acc_db \<Rightarrow> bool" where
  "invited env tr d \<longleftrightarrow> distinct (map iv_Hash (db_invites d)) \<and> distinct (map iv_ID (db_invites d))
     \<and> (\<forall>v\<in>set (db_invites d). iv_UsedAt v = None \<longrightarrow> stands env tr v)"

lemma stands_later:
  "stands env tr v \<Longrightarrow> offers env e (iv_Hash v) = None \<Longrightarrow> \<not> closes env e (iv_Hash v) (iv_OrgID v) (iv_ID v) \<Longrightarrow> stands env (e # tr) v"
  by (auto simp: stands_def)

lemma invited_fewer:
  assumes "invited env tr d" "set (db_invites d') \<subseteq> set (db_invites d)" "distinct (map iv_Hash (db_invites d'))" "distinct (map iv_ID (db_invites d'))"
    and "\<And>h. offers env e h = None" "\<And>v. v \<in> set (db_invites d') \<Longrightarrow> iv_UsedAt v = None \<Longrightarrow> \<not> closes env e (iv_Hash v) (iv_OrgID v) (iv_ID v)"
  shows "invited env (e # tr) d'"
  using assms by (auto simp: invited_def intro!: stands_later)

lemma invited_same:
  assumes "invited env tr d" "db_invites d' = db_invites d" "\<And>h. offers env e h = None" "\<And>h g i. \<not> closes env e h g i"
  shows "invited env (e # tr) d'"
  using assms by (intro invited_fewer[OF assms(1)]) (auto simp: invited_def)

lemma UseInvite_invites:
  assumes "UseInvite fl h user now d = Inr (iv, d1)"
  obtains v where "v \<in> set (db_invites d)" "iv_Hash v = h" "iv_UsedAt v = None" "msec now < iv_ExpiresAt v" "iv = v\<lparr>iv_UsedAt := Some (msec now), iv_UsedBy := user\<rparr>"
    "db_invites d1 = map (\<lambda>w. if iv_ID w = iv_ID v \<and> iv_UsedAt w = None then w\<lparr>iv_UsedAt := Some (msec now), iv_UsedBy := user\<rparr> else w) (db_invites d)"
    "member_row (iv_OrgID v) user d = None" "db_members d1 = db_members d @ [\<lparr>mb_OrgID = iv_OrgID v, mb_UserID = user, mb_Role = iv_Role v,
               mb_CreatedAt = of_msec (msec now), mb_AddedBy = iv_CreatedBy v\<rparr>]"
proof -
  obtain v where f: "List.find (open_invite h now) (db_invites d) = Some v" using assms by (auto simp: UseInvite_def split: if_splits option.splits)
  then have "v \<in> set (db_invites d)" "open_invite h now v" by (auto simp: find_Some_iff)
  then show ?thesis using assms f by (intro that[of v]) (auto simp: UseInvite_def open_invite_def split: if_splits)
qed

lemma invited_used:
  assumes "invited env tr d" "UseInvite fl (HashSecret env secret) user now d = Inr (iv, d1)" "db_invites d' = db_invites d1"
    and "\<And>h. offers env e h = None" "\<And>h g i. closes env e h g i \<Longrightarrow> HashSecret env secret = h"
  shows "invited env (e # tr) d'"
proof -
  obtain v where v: "v \<in> set (db_invites d)" "iv_Hash v = HashSecret env secret"
    and d1: "db_invites d1 = map (\<lambda>w. if iv_ID w = iv_ID v \<and> iv_UsedAt w = None then w\<lparr>iv_UsedAt := Some (msec now), iv_UsedBy := user\<rparr> else w) (db_invites d)"
    by (rule UseInvite_invites[OF assms(2)])
  define f :: "invite \<Rightarrow> invite" where "f = (\<lambda>w. if iv_ID w = iv_ID v \<and> iv_UsedAt w = None then w\<lparr>iv_UsedAt := Some (msec now), iv_UsedBy := user\<rparr> else w)"
  have k: "iv_Hash (f w) = iv_Hash w" "iv_ID (f w) = iv_ID w" for w by (simp_all add: f_def)
  have "stands env (e # tr) w" if w: "w \<in> set (db_invites d')" "iv_UsedAt w = None" for w
  proof -
    obtain w0 where w0: "w0 \<in> set (db_invites d)" "w = f w0" using w(1) d1 assms(3) by (auto simp: f_def)
    then have "w = w0" "iv_ID w0 \<noteq> iv_ID v" using w(2) by (auto simp: f_def split: if_splits)
    moreover have "iv_Hash w0 \<noteq> iv_Hash v" using assms(1) v(1) w0(1) calculation(2) by (auto simp: invited_def distinct_map dest: inj_onD)
    ultimately show ?thesis using assms(1,4,5) w0(1) w(2) v(2) by (intro stands_later) (auto simp: invited_def)
  qed
  moreover have "map iv_Hash (db_invites d') = map iv_Hash (db_invites d)" "map iv_ID (db_invites d') = map iv_ID (db_invites d)"
    using k by (simp_all add: assms(3) d1 flip: f_def)
  ultimately show ?thesis using assms(1) by (auto simp: invited_def)
qed

lemma no_offers: "(\<forall>p g role label. call \<noteq> Org p (MakeInvite g role label)) \<or> r \<noteq> Answered \<Longrightarrow> offers env (io, call, r, st) h = None"
  by (auto simp: offers_def split: acc_call.splits org_call.splits acc_result.splits)

lemma view_invites: "org_view d' = org_view d \<Longrightarrow> db_invites d' = db_invites d"
  by (simp add: org_view_def)

lemma invites_kept:
  "CreateUser fl u d = Inr d1 \<Longrightarrow> db_invites d1 = db_invites d" "CreateOrgRow fl o' i d = Inr d1 \<Longrightarrow> db_invites d1 = db_invites d"
  "db_invites (DeleteUser fl i d) = db_invites d" "SetDisabled fl i t d = Inr d1 \<Longrightarrow> db_invites d1 = db_invites d"
  "SetMemberRoleRow fl g i role d = Inr d1 \<Longrightarrow> db_invites d1 = db_invites d" "RemoveMemberRow fl g i d = Inr d1 \<Longrightarrow> db_invites d1 = db_invites d"
  "RenameOrgRow fl g name d = Inr d1 \<Longrightarrow> db_invites d1 = db_invites d"
  by (auto simp: CreateUser_def CreateOrgRow_def DeleteUser_def SetDisabled_def update_user_def SetMemberRoleRow_def RemoveMemberRow_def RenameOrgRow_def
      split: if_splits)

lemma invited_cong: "db_invites d1 = db_invites d \<Longrightarrow> invited env tr d1 = invited env tr d"
  by (simp add: invited_def)

lemma unachieved:
  assumes "\<not> achieved call r"
  shows "offers env (io, call, r, st) h = None" "\<not> closes env (io, call, r, st) h g i"
proof -
  show "offers env (io, call, r, st) h = None" using assms by (intro no_offers) (auto simp: achieved_def)
  show "\<not> closes env (io, call, r, st) h g i"
  proof (cases call)
    case (SignUp name pw invite g')
    then show ?thesis using assms by (cases r) (auto simp: closes_def lets_in_def achieved_def)
  next
    case (Org p oc)
    then show ?thesis using assms by (cases oc) (auto simp: closes_def lets_in_def achieved_def)
  qed (simp_all add: closes_def lets_in_def)
qed

lemma moves_invited:
  assumes "moves env io call r d d'" "invited env tr d"
  shows "invited env ((io, call, r, st) # tr) d'"
  using assms
proof (induction rule: moves.induct)
  case (stays call r d' d)
  show ?case by (rule invited_same[OF stays.prems view_invites[OF stays.hyps(2)] unachieved(1)[OF stays.hyps(1)] unachieved(2)[OF stays.hyps(1)]])
next
  case (joins fl secret p d iv d1 d' r)
  show ?case
  proof (rule invited_used[OF joins.prems joins.hyps(1) view_invites[OF joins.hyps(2)]])
    show "offers env (io, Org p (TakeInvite secret), r, st) h = None" for h by (simp add: no_offers)
    show "HashSecret env secret = h" if "closes env (io, Org p (TakeInvite secret), r, st) h g i" for h g i
      using that by (simp add: closes_def lets_in_def split: if_splits)
  qed
next
  case (registers_invited fl u d d1 invite iv d2 d' name pw g r)
  have "invited env tr d1" using invited_cong[OF invites_kept(1)[OF registers_invited.hyps(1)]] registers_invited.prems by simp
  then show ?case
  proof (rule invited_used[OF _ registers_invited.hyps(3) view_invites[OF registers_invited.hyps(4)]])
    show "offers env (io, SignUp name pw invite g, r, st) h = None" for h by (simp add: no_offers)
    show "HashSecret env invite = h" if "closes env (io, SignUp name pw invite g, r, st) h k i" for h k i
      using that by (cases r) (simp_all add: closes_def lets_in_def split: if_splits)
  qed
next
  case (invites secret role p g label d d')
  let ?e = "(io, Org p (MakeInvite g role label), Answered, st)" and ?v = "made_invite env io secret p g role label"
  have d': "db_invites d' = db_invites d @ [?v]" and fresh: "\<And>w. w \<in> set (db_invites d) \<Longrightarrow> iv_ID w \<noteq> iv_ID ?v \<and> iv_Hash w \<noteq> iv_Hash ?v"
    using invites.hyps(4) by (auto simp: CreateInviteRow_def list_ex_iff split: if_splits)
  have "stands env (?e # tr) w" if "w \<in> set (db_invites d)" "iv_UsedAt w = None" for w
  proof (rule stands_later)
    show "stands env tr w" using invites.prems that by (simp add: invited_def)
    show "offers env ?e (iv_Hash w) = None" using fresh[OF that(1)] invites.hyps(1) by (auto simp: offers_def made_invite_def)
    show "\<not> closes env ?e (iv_Hash w) (iv_OrgID w) (iv_ID w)" by (simp add: closes_def lets_in_def)
  qed
  moreover have "stands env (?e # tr) ?v" using invites.hyps(1,3) by (auto simp: stands_def offers_def made_invite_def)
  ultimately show ?case using invites.prems fresh by (fastforce simp: invited_def d')
next
  case (withdraws fl g i d d' p)
  then have "db_invites d' = filter (\<lambda>v. \<not> (iv_OrgID v = g \<and> iv_ID v = i \<and> iv_UsedAt v = None)) (db_invites d)"
    by (auto simp: RevokeInviteRow_def split: if_splits)
  then show ?case using withdraws.prems by (intro invited_fewer[OF withdraws.prems]) (auto simp: invited_def distinct_map_filter no_offers closes_def lets_in_def)
next
  case (erases fl g d d' p confirm)
  then have "db_invites d' = filter (\<lambda>v. iv_OrgID v \<noteq> g) (db_invites d)" by (auto simp: DeleteOrgRows_def split: if_splits)
  then show ?case using erases.prems by (intro invited_fewer[OF erases.prems]) (auto simp: invited_def distinct_map_filter no_offers closes_def lets_in_def)
next
  case (bootstraps d fl u d1 d' pw r)
  have "db_invites d' = db_invites d" using bootstraps.hyps invites_kept(1,2) view_invites by metis
  then show ?case by (intro invited_same[OF bootstraps.prems]) (auto simp: no_offers closes_def lets_in_def)
next
  case (recovers_user d0 d fl i d1 d' name r)
  have "db_invites d' = db_invites d" using recovers_user.hyps invites_kept(4) view_invites by metis
  then show ?case by (intro invited_same[OF recovers_user.prems]) (auto simp: no_offers closes_def lets_in_def)
qed (rule invited_same, assumption, (metis invites_kept view_invites)[1], (simp add: no_offers)[1], (auto simp: closes_def lets_in_def achieved_def split: acc_result.splits)[1])+

lemma reach_invited: "acc_reach env c tr st \<Longrightarrow> invited env tr (ac_db st)"
proof (induction rule: acc_reach.induct)
  case reach_start
  show ?case by (simp add: newAuthState_def empty_db_def invited_def)
next
  case (reach_call tr st io call r st')
  then show ?case using moves_invited[OF step_moves] by blast
qed

lemma find_snoc: "List.find P xs = None \<Longrightarrow> List.find P (xs @ [x]) = (if P x then Some x else None)"
  by (induction xs) auto

lemma used_admits:
  assumes "invited env tr d" "UseInvite fl (HashSecret env secret) user now d1 = Inr (iv, d2)" "db_invites d1 = db_invites d" "db_members d1 = db_members d"
    and "db_members d' = db_members d2"
  shows "\<exists>g role i t m. offered env tr (HashSecret env secret) = Some (g, role, i, t) \<and> now < t + InviteTTL \<and> member_row g user d = None
     \<and> member_row g user d' = Some m \<and> mb_Role m = role"
proof -
  obtain v where v: "v \<in> set (db_invites d)" "iv_Hash v = HashSecret env secret" "iv_UsedAt v = None" "msec now < iv_ExpiresAt v" "member_row (iv_OrgID v) user d1 = None"
    and m: "db_members d2 = db_members d1 @ [\<lparr>mb_OrgID = iv_OrgID v, mb_UserID = user, mb_Role = iv_Role v, mb_CreatedAt = of_msec (msec now), mb_AddedBy = iv_CreatedBy v\<rparr>]"
    by (rule UseInvite_invites[OF assms(2)]) (use assms(3) in auto)
  obtain t where t: "offered env tr (HashSecret env secret) = Some (iv_OrgID v, iv_Role v, iv_ID v, t)" "iv_ExpiresAt v = msec (t + InviteTTL)"
    using assms(1) v(1-3) by (auto simp: invited_def stands_def)
  have "now < t + InviteTTL"
    using v(4) t(2) zdiv_mono1[of "t + InviteTTL" now 1000000] by (simp add: msec_def)
  moreover have "member_row (iv_OrgID v) user d = None" using v(5) assms(4) by (simp add: member_row_def)
  moreover have "\<exists>m. member_row (iv_OrgID v) user d' = Some m \<and> mb_Role m = iv_Role v"
    using v(5) by (auto simp: member_row_def assms(5) m find_snoc)
  ultimately show ?thesis using t(1) by blast
qed

lemma registered_ID: "Register env c io name pw invite g st = (Inr (s, u), st') \<Longrightarrow> us_ID u = new_id io"
  by (auto simp: Register_def Let_def split: prod.splits if_splits sum.splits option.splits)

lemma lets_in_cases:
  assumes "lets_in call r = Some (secret, user)"
  obtains p where "call = Org p (TakeInvite secret)" "r = Answered" "user = us_ID (pr_User p)"
  | name pw g s u where "call = SignUp name pw secret g" "r = Opened s u" "secret \<noteq> []" "user = us_ID u"
  using assms by (auto simp: lets_in_def split: acc_call.splits org_call.splits acc_result.splits if_splits)

inductive_cases moves_takeE: "moves env io (Org p (TakeInvite secret)) Answered d d'"
inductive_cases moves_signupE: "moves env io (SignUp name pw invite g) (Opened s u) d d'"

lemma signup_joins:
  "moves env io (SignUp name pw invite g) (Opened s u) d d' \<Longrightarrow> invite \<noteq> []
     \<Longrightarrow> \<exists>fl v d1 iv d2. CreateUser fl v d = Inr d1 \<and> UseInvite fl (HashSecret env invite) (new_id io) (io_now io) d1 = Inr (iv, d2) \<and> org_view d' = org_view d2"
  by (erule moves_signupE) (fastforce simp: achieved_def)+

lemma step_admits:
  assumes "invited env tr (ac_db st)" "acc_step env c io call st = (r, st')" "lets_in call r = Some (secret, user)"
  shows "\<exists>g role i t m. offered env tr (HashSecret env secret) = Some (g, role, i, t) \<and> io_now io < t + InviteTTL \<and> member_row g user (ac_db st) = None
     \<and> member_row g user (ac_db st') = Some m \<and> mb_Role m = role"
  using assms(3)
proof (cases rule: lets_in_cases)
  case (1 p)
  then have "moves env io (Org p (TakeInvite secret)) Answered (ac_db st) (ac_db st')" using step_moves[OF assms(2)] by simp
  then show ?thesis
  proof (rule moves_takeE)
    fix fl iv d1 assume u: "UseInvite fl (HashSecret env secret) (us_ID (pr_User p)) (io_now io) (ac_db st) = Inr (iv, d1)" "org_view (ac_db st') = org_view d1"
    then show ?thesis using 1(3) by (intro used_admits[OF assms(1), of fl _ _ _ "ac_db st" iv d1]) (simp_all add: org_view_def)
  qed (simp add: achieved_def)
next
  case (2 name pw g s u)
  then have "moves env io (SignUp name pw secret g) (Opened s u) (ac_db st) (ac_db st')" using step_moves[OF assms(2)] by simp
  moreover have "user = new_id io" using assms(2) 2 registered_ID by (auto simp: opened_by_def split: prod.splits sum.splits)
  ultimately obtain fl v d1 iv d2 where "CreateUser fl v (ac_db st) = Inr d1" "UseInvite fl (HashSecret env secret) user (io_now io) d1 = Inr (iv, d2)"
      "org_view (ac_db st') = org_view d2"
    using signup_joins[OF _ 2(3)] by metis
  then show ?thesis using CreateUser_view(1)[of fl v "ac_db st" d1] by (intro used_admits[OF assms(1), of fl _ _ _ d1 iv d2]) (simp_all add: org_view_def)
qed

text \<open>
  C9. Whatever calls were made since the database was empty: whoever is let in with an invitation, signed in or by registering, was not a member before and
  has the role of the invitation in its organisation afterwards; someone who may grant that role made the invitation less than seven days before, and until
  then nobody had been let in with it, it had not been withdrawn and its organisation had not been erased. After that it lets nobody in.
\<close>

theorem invitation_lets_in_once:
  assumes "acc_reach env c tr st" "acc_step env c io call st = (r, st')" "lets_in call r = Some (secret, user)"
  shows "\<exists>g role i t m. offered env tr (HashSecret env secret) = Some (g, role, i, t) \<and> io_now io < t + InviteTTL \<and> member_row g user (ac_db st) = None
     \<and> member_row g user (ac_db st') = Some m \<and> mb_Role m = role \<and> offered env ((io, call, r, st) # tr) (HashSecret env secret) = None"
proof -
  have "offers env (io, call, r, st) h = None" for h using assms(3) by (cases rule: lets_in_cases) (auto simp: offers_def)
  moreover have "closes env (io, call, r, st) (HashSecret env secret) g i" for g i using assms(3) by (simp add: closes_def)
  ultimately show ?thesis using step_admits[OF reach_invited[OF assms(1)] assms(2,3)] by fastforce
qed

subsection \<open>A first invitation\<close>

definition demo_guest :: "user \<Rightarrow> principal" where
  "demo_guest u = \<lparr>pr_User = u, pr_Org = [], pr_Role = [], pr_SessionHash = []\<rparr>"

definition demo_owner :: principal where
  "demo_owner = \<lparr>pr_User = demo_user, pr_Org = ''default'', pr_Role = ''owner'', pr_SessionHash = []\<rparr>"

definition demo_io2 :: call_io where "demo_io2 = demo_io 0\<lparr>io_id := ''b''\<rparr>"

definition demo_io3 :: call_io where "demo_io3 = demo_io 0\<lparr>io_rnd := Some (replicate 24 (CHR ''k''))\<rparr>"

definition demo_invite :: string where "demo_invite = invitePrefix @ encode64 (replicate 24 (CHR ''k''))"

lemma demo_second_account:
  "\<exists>st1 u. acc_step demo_env demo_cfg demo_io2 (Host (Recover ''bobby'')) demo_st = (Answered, st1) \<and> us_ID u = ''u-62''
     \<and> ac_db st1 = demo_db\<lparr>db_users := [demo_user, u]\<rparr> \<and> ac_regIP st1 = ac_regIP demo_st"
proof -
  obtain hash where h: "hashPassword demo_env demo_io2 pw = Inr (hash pw)" for pw
    by (intro that[of "\<lambda>pw. projr (hashPassword demo_env demo_io2 pw)"]) (simp add: hashPassword_def HashPassword_def demo_io2_def)
  have io: "io_fails demo_io2 = (\<lambda>_. False)" "io_rnd demo_io2 = Some demo_rnd" "io_id demo_io2 = ''b''" by (simp_all add: demo_io2_def)
  have n: "usernameProblem demo_env ''bobby'' = False" "to_lower ''bobby'' = ''bobby''" "hex ''b'' = ''62''" "to_lower ''admin'' = ''admin''"
    by (simp_all add: demo_env_def) code_simp+
  have d: "ac_db demo_st = demo_db" by (simp add: demo_st_def newAuthState_def)
  have r: "ac_regIP (auditUser io u a e ip st) = ac_regIP st" for io u a e ip st
    by (simp add: auditUser_def Let_def AuditOrg_def fold_keeps case_prod_unfold)
  show ?thesis
    by (simp add: RecoverPassword_def Let_def randomPassword_def io h GetUserByName_def d n demo_db_def demo_user_def CreateUser_def new_user_def r)
qed

definition demo_offer :: invite where
  "demo_offer = made_invite demo_env demo_io3 demo_invite demo_owner ''default'' ''viewer'' []"

lemma demo_offer_sel:
  "iv_Hash demo_offer = HashSecret demo_env demo_invite" "iv_UsedAt demo_offer = None" "iv_ExpiresAt demo_offer = msec InviteTTL" "iv_OrgID demo_offer = ''default''"
  by (simp_all add: demo_offer_def made_invite_def demo_io3_def)

lemma demo_invitation:
  assumes "ac_db st1 = demo_db\<lparr>db_users := us\<rparr>"
  shows "\<exists>st2. acc_step demo_env demo_cfg demo_io3 (Org demo_owner (MakeInvite ''default'' ''viewer'' [])) st1 = (Answered, st2)
     \<and> ac_db st2 = demo_db\<lparr>db_users := us, db_invites := [demo_offer]\<rparr> \<and> ac_regIP st2 = ac_regIP st1"
proof -
  have "validRole ''viewer''" "may_grant demo_owner ''viewer''" "trim_space [] = []" unfolding demo_owner_def may_grant_def by (simp_all add: demo_user_def) code_simp+
  moreover have "newInviteSecret (io_rnd demo_io3) = Some demo_invite" "io_fails demo_io3 = (\<lambda>_. False)" by (simp_all add: demo_io3_def newInviteSecret_def demo_invite_def)
  ultimately show ?thesis using assms
    by (simp add: CreateInvite_def Let_def audited_def CreateInviteRow_def answer_def demo_offer_sel flip: made_invite_def[where label = "[]", simplified])
      (simp add: demo_offer_def made_invite_def demo_db_def)
qed

lemma demo_accepts:
  assumes "ac_db st2 = demo_db\<lparr>db_users := [demo_user, u], db_invites := [demo_offer]\<rparr>" "us_ID u = ''u-62''" "ac_regIP st2 = NewLimiter 6 4"
  shows "fst (acc_step demo_env demo_cfg (demo_io second) (Org (demo_guest u) (TakeInvite demo_invite)) st2) = Answered"
proof -
  obtain l where l: "Allow ''inv|10.0.0.1'' second (NewLimiter 6 4) = (True, l)"
    using new_limiter_allows[of 4 "''inv|10.0.0.1''" second 6] by (cases "Allow ''inv|10.0.0.1'' second (NewLimiter 6 4)") auto
  have s: "looksLikeInvite demo_invite" by (simp add: looksLikeInvite_def demo_invite_def length_encode64)
  have o': "open_invite (HashSecret demo_env demo_invite) second demo_offer" 
    by (simp add: open_invite_def demo_offer_sel) code_simp
  show ?thesis using assms
    by (simp add: AcceptInvite_def allowReg_def l s answer_def UseInvite_def o' demo_guest_def member_row_def demo_db_def find_user_def demo_user_def demo_offer_sel GetOrg_def Let_def)
qed

theorem invitation_lets_in_once_witness:
  "\<exists>u tr st st' g role i t. us_ID u = ''u-62'' \<and> acc_reach demo_env demo_cfg tr st
     \<and> acc_step demo_env demo_cfg (demo_io second) (Org (demo_guest u) (TakeInvite demo_invite)) st = (Answered, st')
     \<and> offered demo_env tr (HashSecret demo_env demo_invite) = Some (g, role, i, t) \<and> second < t + InviteTTL \<and> member_row g ''u-62'' (ac_db st') \<noteq> None"
proof -
  obtain st1 u where 1: "acc_step demo_env demo_cfg demo_io2 (Host (Recover ''bobby'')) demo_st = (Answered, st1)" "us_ID u = ''u-62''"
    "ac_db st1 = demo_db\<lparr>db_users := [demo_user, u]\<rparr>" "ac_regIP st1 = ac_regIP demo_st"
    using demo_second_account by blast
  obtain st2 where 2: "acc_step demo_env demo_cfg demo_io3 (Org demo_owner (MakeInvite ''default'' ''viewer'' [])) st1 = (Answered, st2)"
    "ac_db st2 = demo_db\<lparr>db_users := [demo_user, u], db_invites := [demo_offer]\<rparr>" "ac_regIP st2 = ac_regIP st1"
    using demo_invitation[OF 1(3)] by blast
  have r: "ac_regIP demo_st = NewLimiter 6 4" by (simp add: demo_st_def AuditOrg_def newAuthState_def)
  obtain st3 where 3: "acc_step demo_env demo_cfg (demo_io second) (Org (demo_guest u) (TakeInvite demo_invite)) st2 = (Answered, st3)"
    using demo_accepts[OF 2(2) 1(2)] 2(3) 1(4) r by (metis prod.collapse)
  have l: "lets_in (Org (demo_guest u) (TakeInvite demo_invite)) Answered = Some (demo_invite, ''u-62'')" using 1(2) by (simp add: lets_in_def demo_guest_def)
  note reach = reach_call[OF reach_call[OF demo_reach 1(1)] 2(1)]
  from invitation_lets_in_once[OF reach 3 l] obtain g role i t m where
    "offered demo_env ((demo_io3, Org demo_owner (MakeInvite ''default'' ''viewer'' []), Answered, st1) # (demo_io2, Host (Recover ''bobby''), Answered, demo_st)
       # [(demo_io 0, Host (Bootstrap demo_pw), Answered, newAuthState empty_db)]) (HashSecret demo_env demo_invite) = Some (g, role, i, t)"
    "second < t + InviteTTL" "member_row g ''u-62'' (ac_db st3) = Some m" by auto
  then show ?thesis using reach 1(2) 3 by (intro exI conjI) (assumption | simp)+
qed

end
