(* ===== verification/Holders.thy ===== *)
theory Holders
  imports AuditTrail
begin

text \<open>
  Who a certificate was issued to (\<open>pki/identity.go\<close>), what the issuing functions of \<open>pki/pki.go\<close> write into one, and the names of the senders
  of an operator. A DER certificate is modelled by what \<open>x509.ParseCertificate\<close> reads from it; a public key by the bytes that identify it; a
  signature by the key that made it. \<open>net/url\<close> is Go's: \<open>url.PathEscape\<close>, \<open>url.PathUnescape\<close> and \<open>URL.EscapedPath\<close> are written out.
\<close>

subsection \<open>Escaping in paths\<close>

definition alnum :: "char \<Rightarrow> bool" where
  "alnum c = (let n = of_char c :: nat in 48 \<le> n \<and> n \<le> 57 \<or> 65 \<le> n \<and> n \<le> 90 \<or> 97 \<le> n \<and> n \<le> 122)"

text \<open>What \<open>shouldEscape\<close> answers for a path (\<open>encodePath\<close>) and for one segment of it (\<open>encodePathSegment\<close>).\<close>

definition escapes_path :: "char \<Rightarrow> bool" where
  "escapes_path c = (\<not> alnum c \<and> c \<notin> set ''-_.~$&+,/:;=@'')"

definition escapes_segment :: "char \<Rightarrow> bool" where
  "escapes_segment c = (\<not> alnum c \<and> c \<notin> set ''-_.~$&+:=@'')"

definition upper_hex :: "nat \<Rightarrow> char" where
  "upper_hex n = ''0123456789ABCDEF'' ! n"

definition escape :: "(char \<Rightarrow> bool) \<Rightarrow> string \<Rightarrow> string" where
  "escape esc s = concat (map (\<lambda>c. if esc c then CHR ''%'' # [upper_hex (of_char c div 16), upper_hex (of_char c mod 16)] else [c]) s)"

definition unhex :: "char \<Rightarrow> nat option" where
  "unhex c = (let n = of_char c :: nat in
     if 48 \<le> n \<and> n \<le> 57 then Some (n - 48) else if 97 \<le> n \<and> n \<le> 102 then Some (n - 87) else if 65 \<le> n \<and> n \<le> 70 then Some (n - 55) else None)"

text \<open>\<open>url.PathUnescape\<close>; \<open>None\<close> is an \<open>EscapeError\<close>.\<close>

fun PathUnescape :: "string \<Rightarrow> string option" where
  "PathUnescape [] = Some []"
| "PathUnescape (c # cs) =
     (if c \<noteq> CHR ''%'' then map_option ((#) c) (PathUnescape cs)
      else (case cs of a # b # r \<Rightarrow> (case (unhex a, unhex b) of (Some x, Some y) \<Rightarrow> map_option ((#) (char_of (16 * x + y))) (PathUnescape r) | _ \<Rightarrow> None)
            | _ \<Rightarrow> None))"

abbreviation PathEscape :: "string \<Rightarrow> string" where "PathEscape \<equiv> escape escapes_segment"

record url =
  ur_Scheme :: string
  ur_User :: bool
  ur_Host :: string
  ur_Path :: string
  ur_RawPath :: string
  ur_RawQuery :: string
  ur_Fragment :: string

text \<open>
  \<open>URL.EscapedPath\<close>. \<open>validEncoded\<close> also lets \<open>!\<close>, a quote, brackets and parentheses stand, and \<open>*\<close>.
\<close>

definition validEncoded :: "string \<Rightarrow> bool" where
  "validEncoded s = list_all (\<lambda>c. c \<in> set ''!$&()*+,;=:@[]%'' \<or> c = CHR 0x27 \<or> \<not> escapes_path c) s"

definition EscapedPath :: "url \<Rightarrow> string" where
  "EscapedPath u = (if ur_RawPath u \<noteq> [] \<and> validEncoded (ur_RawPath u) \<and> PathUnescape (ur_RawPath u) = Some (ur_Path u) then ur_RawPath u
     else if ur_Path u = ''*'' then ''*'' else escape escapes_path (ur_Path u))"

text \<open>
  What \<open>url.Parse\<close> makes of the text of a URL that has a scheme, a host of letters and a path that starts with a slash, no user, no query and no
  fragment: the path is unescaped, and kept as it was written when escaping it again would write it differently (\<open>setPath\<close>). Its text is the
  scheme, the host and \<open>EscapedPath\<close>. A certificate holds the text of its URI names, and reading it parses them.
\<close>

definition setPath :: "string \<Rightarrow> url \<Rightarrow> url option" where
  "setPath p u = (case PathUnescape p of None \<Rightarrow> None
     | Some path \<Rightarrow> Some (u\<lparr>ur_Path := path, ur_RawPath := (if escape escapes_path path = p then [] else p)\<rparr>))"

definition reread_url :: "url \<Rightarrow> url option" where
  "reread_url u = setPath (EscapedPath u) u"

subsection \<open>Certificates\<close>

datatype ext_usage = ClientAuth | ServerAuth | OtherUsage nat

record cert =
  ct_CN :: string
  ct_Orgs :: "string list"
  ct_URIs :: "url list"
  ct_Usage :: "ext_usage list"
  ct_NotBefore :: time
  ct_NotAfter :: time
  ct_Key :: string
  ct_SignedBy :: string

subsection \<open>Identities\<close>

datatype holder_kind = HolderAgent | HolderReceiver | HolderSender

record ident =
  id_Kind :: holder_kind
  id_Org :: string
  id_ID :: string

datatype pki_error = NeedsOrgAndID | BadOrgOrID | MoreThanOneURI | NotOurURI | MalformedURI | OrgDisagrees | NameDisagrees | UseDisagrees
  | StatesNone | OtherKind holder_kind holder_kind | NeedsAgentID | NeedsOperatorID | NotSigned | CAExpired | BadSize | MalformedCert | NotIssuedHere
  | MalformedRequest | BadRequestSignature | NotP256

definition TrustDomain :: string where "TrustDomain = ''ikhnos''"

definition URI :: "ident \<Rightarrow> pki_error + url" where
  "URI i = (if id_Org i = [] \<or> id_ID i = [] then Inl NeedsOrgAndID
     else if list_ex (\<lambda>c. c \<in> set ''/?#'' \<or> c = CHR 0x00) (id_Org i @ id_ID i) then Inl BadOrgOrID
     else let path = (case id_Kind i of
         HolderAgent \<Rightarrow> ''/org/'' @ PathEscape (id_Org i) @ ''/agent/'' @ PathEscape (id_ID i)
       | HolderReceiver \<Rightarrow> ''/org/'' @ PathEscape (id_Org i) @ ''/operator/'' @ PathEscape (id_ID i) @ ''/receiver''
       | HolderSender \<Rightarrow> ''/org/'' @ PathEscape (id_Org i) @ ''/operator/'' @ PathEscape (id_ID i) @ ''/sender'')
     in Inr \<lparr>ur_Scheme = ''spiffe'', ur_User = False, ur_Host = TrustDomain, ur_Path = path, ur_RawPath = [], ur_RawQuery = [], ur_Fragment = []\<rparr>)"

definition unesc :: "string \<Rightarrow> string option" where
  "unesc s = (case PathUnescape s of None \<Rightarrow> None | Some v \<Rightarrow> if v \<noteq> [] \<and> list_all (\<lambda>c. c \<noteq> CHR ''/'' \<and> c \<noteq> CHR 0x00) v then Some v else None)"

definition kind_of_parts :: "string list \<Rightarrow> holder_kind option" where
  "kind_of_parts ps = (if length ps = 4 \<and> ps ! 2 = ''agent'' then Some HolderAgent
     else if length ps = 5 \<and> ps ! 2 = ''operator'' \<and> ps ! 4 = ''receiver'' then Some HolderReceiver
     else if length ps = 5 \<and> ps ! 2 = ''operator'' \<and> ps ! 4 = ''sender'' then Some HolderSender else None)"

definition identity_of_url :: "url \<Rightarrow> pki_error + ident" where
  "identity_of_url u =
     (if ur_Scheme u \<noteq> ''spiffe'' \<or> ur_Host u \<noteq> TrustDomain \<or> ur_User u \<or> ur_RawQuery u \<noteq> [] \<or> ur_Fragment u \<noteq> [] then Inl NotOurURI
      else let p = EscapedPath u; ps = split_at (CHR ''/'') (if prefix ''/'' p then drop 1 p else p)
      in if length ps < 4 \<or> ps ! 0 \<noteq> ''org'' then Inl MalformedURI
      else case unesc (ps ! 1) of None \<Rightarrow> Inl MalformedURI | Some g \<Rightarrow>
      (case kind_of_parts ps of None \<Rightarrow> Inl MalformedURI | Some k \<Rightarrow>
      (case unesc (ps ! 3) of None \<Rightarrow> Inl MalformedURI | Some i \<Rightarrow> Inr \<lparr>id_Kind = k, id_Org = g, id_ID = i\<rparr>)))"

definition cert_agrees :: "ident \<Rightarrow> cert \<Rightarrow> pki_error option" where
  "cert_agrees i c =
     (if ct_Orgs c \<noteq> [id_Org i] then Some OrgDisagrees
      else if \<not> (if id_Kind i = HolderSender then ct_CN c = id_ID i @ ''-export'' \<or> prefix (id_ID i @ ''-export-'') (ct_CN c) else ct_CN c = id_ID i)
      then Some NameDisagrees
      else if ct_Usage c \<noteq> [if id_Kind i = HolderReceiver then ServerAuth else ClientAuth] then Some UseDisagrees else None)"

text \<open>\<open>Inr None\<close>: the certificate states no identity.\<close>

definition IdentityOf :: "cert \<Rightarrow> pki_error + ident option" where
  "IdentityOf c = (case ct_URIs c of [] \<Rightarrow> Inr None
     | [u] \<Rightarrow> (case identity_of_url u of Inl e \<Rightarrow> Inl e
         | Inr i \<Rightarrow> (case cert_agrees i c of Some e \<Rightarrow> Inl e | None \<Rightarrow> Inr (Some i)))
     | _ \<Rightarrow> Inl MoreThanOneURI)"

text \<open>\<open>req\<close> is \<open>RequireIdentityURI\<close>, set once when the server starts.\<close>

definition Holder :: "bool \<Rightarrow> cert \<Rightarrow> holder_kind \<Rightarrow> pki_error + ident option" where
  "Holder req c want = (case IdentityOf c of Inl e \<Rightarrow> Inl e
     | Inr None \<Rightarrow> if req then Inl StatesNone else Inr None
     | Inr (Some i) \<Rightarrow> if id_Kind i \<noteq> want then Inl (OtherKind (id_Kind i) want) else Inr (Some i))"

subsection \<open>Issuing\<close>

definition AgentCertTTL :: duration where "AgentCertTTL = 24 * hour"
definition OperatorTLSTTL :: duration where "OperatorTLSTTL = 30 * 24 * hour"
definition RejoinWindow :: duration where "RejoinWindow = 60 * 24 * hour"
definition clockSkew :: duration where "clockSkew = 5 * minute"

text \<open>
  A certificate's times have whole seconds. \<open>ok\<close> says whether \<open>x509.CreateCertificate\<close> signed; what it signed is read back with every URI name
  parsed from its text.
\<close>

definition whole :: "time \<Rightarrow> time" where "whole t = t div second * second"

definition CreateCertificate :: "bool \<Rightarrow> string \<Rightarrow> cert \<Rightarrow> pki_error + cert" where
  "CreateCertificate ok ca t = (if \<not> ok then Inl NotSigned
     else case those (map reread_url (ct_URIs t)) of None \<Rightarrow> Inl NotSigned
     | Some us \<Rightarrow> Inr (t\<lparr>ct_URIs := us, ct_NotBefore := whole (ct_NotBefore t), ct_NotAfter := whole (ct_NotAfter t), ct_SignedBy := ca\<rparr>))"

definition IssueAgent :: "bool \<Rightarrow> string \<Rightarrow> string \<Rightarrow> string \<Rightarrow> string \<Rightarrow> duration \<Rightarrow> time \<Rightarrow> pki_error + cert \<times> time" where
  "IssueAgent ok ca key agent g ttl now =
     (if agent = [] then Inl NeedsAgentID else
      let ttl = (if ttl \<le> 0 \<or> ttl > AgentCertTTL then AgentCertTTL else ttl)
      in case URI \<lparr>id_Kind = HolderAgent, id_Org = g, id_ID = agent\<rparr> of Inl e \<Rightarrow> Inl e | Inr u \<Rightarrow>
      let notAfter = now + ttl
      in case CreateCertificate ok ca \<lparr>ct_CN = agent, ct_Orgs = [g], ct_URIs = [u], ct_Usage = [ClientAuth], ct_NotBefore = now - clockSkew,
           ct_NotAfter = notAfter, ct_Key = key, ct_SignedBy = []\<rparr> of Inl e \<Rightarrow> Inl e | Inr c \<Rightarrow> Inr (c, notAfter))"

definition SignLeafAs :: "bool \<Rightarrow> string \<Rightarrow> time \<Rightarrow> string \<Rightarrow> string \<Rightarrow> string list \<Rightarrow> duration \<Rightarrow> ext_usage \<Rightarrow> ident option \<Rightarrow> time \<Rightarrow> pki_error + cert" where
  "SignLeafAs ok ca ca_until key cn gs ttl use holder now =
     (let left = ca_until - now in if left \<le> 0 then Inl CAExpired else
      let ttl = min ttl left;
        t = \<lparr>ct_CN = cn, ct_Orgs = gs, ct_URIs = [], ct_Usage = [use], ct_NotBefore = now - clockSkew, ct_NotAfter = now + ttl, ct_Key = key, ct_SignedBy = []\<rparr>
      in case holder of None \<Rightarrow> CreateCertificate ok ca t
      | Some i \<Rightarrow> (case URI i of Inl e \<Rightarrow> Inl e | Inr u \<Rightarrow> CreateCertificate ok ca (t\<lparr>ct_URIs := [u]\<rparr>)))"

text \<open>Names of senders. \<open>None\<close> is Go's panic on a slice with a negative end.\<close>

definition maxCommonName :: int where "maxCommonName = 64"

definition label_byte :: "char \<Rightarrow> bool" where "label_byte c = (alnum c \<or> c \<in> set ''._-'')"

definition label_tag :: "(string \<Rightarrow> string) \<Rightarrow> string \<Rightarrow> string" where
  "label_tag sha s = ''-'' @ hex (take 3 (sha s))"

definition senderLabel :: "(string \<Rightarrow> string) \<Rightarrow> string \<Rightarrow> int \<Rightarrow> string option" where
  "senderLabel sha sender m =
     (let clean = map (\<lambda>c. if label_byte c then c else CHR ''-'') sender
      in if list_all label_byte sender \<and> int (length clean) \<le> m then Some clean
      else let t = label_tag sha sender; n = m - int (length t)
      in if int (length clean) > n then (if n < 0 then None else Some (take (nat n) clean @ t)) else Some (clean @ t))"

definition OperatorClientCN :: "(string \<Rightarrow> string) \<Rightarrow> string \<Rightarrow> string \<Rightarrow> string option" where
  "OperatorClientCN sha operator sender =
     (let cn = operator @ ''-export''
      in if sender = [] then Some cn else map_option (\<lambda>l. cn @ ''-'' @ l) (senderLabel sha sender (maxCommonName - int (length cn) - 1)))"

definition IssueOperatorReceiverTLS :: "bool \<Rightarrow> string \<Rightarrow> time \<Rightarrow> string \<Rightarrow> string \<Rightarrow> string \<Rightarrow> time \<Rightarrow> pki_error + cert" where
  "IssueOperatorReceiverTLS ok ca ca_until key operator g now =
     (if operator = [] then Inl NeedsOperatorID
      else SignLeafAs ok ca ca_until key operator [g] OperatorTLSTTL ServerAuth (Some \<lparr>id_Kind = HolderReceiver, id_Org = g, id_ID = operator\<rparr>) now)"

definition IssueOperatorClientTLS :: "(string \<Rightarrow> string) \<Rightarrow> bool \<Rightarrow> string \<Rightarrow> time \<Rightarrow> string \<Rightarrow> string \<Rightarrow> string \<Rightarrow> string \<Rightarrow> time \<Rightarrow> (pki_error + cert) option" where
  "IssueOperatorClientTLS sha ok ca ca_until key operator g sender now =
     (if operator = [] then Some (Inl NeedsOperatorID)
      else map_option (\<lambda>cn. SignLeafAs ok ca ca_until key cn [g] OperatorTLSTTL ClientAuth (Some \<lparr>id_Kind = HolderSender, id_Org = g, id_ID = operator\<rparr>) now)
        (OperatorClientCN sha operator sender))"


subsection \<open>Escaping and reading back\<close>

lemma unhex_upper: "n < 16 \<Longrightarrow> unhex (upper_hex n) = Some n"
proof -
  have "\<forall>n \<in> {..<16}. unhex (upper_hex n) = Some n" unfolding lessThan_nat_numeral lessThan_Suc
    by (simp add: unhex_def upper_hex_def lessThan_Suc numeral_eq_Suc)
  then show "n < 16 \<Longrightarrow> ?thesis" by simp
qed

lemma escape_simps [simp]:
  "escape esc [] = []"
  "escape esc (c # s) = (if esc c then CHR ''%'' # [upper_hex (of_char c div 16), upper_hex (of_char c mod 16)] else [c]) @ escape esc s"
  by (simp_all add: escape_def)

lemma escape_app [simp]: "escape esc (a @ b) = escape esc a @ escape esc b"
  by (simp add: escape_def)

lemma escape_nil [simp]: "escape esc s = [] \<longleftrightarrow> s = []"
  by (cases s) auto

lemma byte_halves: "(of_char c :: nat) div 16 < 16" "(of_char c :: nat) mod 16 < 16"
proof -
  have "(of_char c :: nat) < 256" by (metis of_char_of mod_less_divisor of_char_mod_256 zero_less_numeral)
  then show "(of_char c :: nat) div 16 < 16" by (simp add: less_mult_imp_div_less)
qed simp

lemma unescape_escape: "esc CHR ''%'' \<Longrightarrow> PathUnescape (escape esc s) = Some s"
  by (induction s) (auto simp: unhex_upper byte_halves)

lemma plain_escape: "escape esc s = s \<longleftrightarrow> list_all (\<lambda>c. \<not> esc c) s"
proof
  have longer: "length s \<le> length (escape esc s)" for s by (induction s) auto
  assume "escape esc s = s"
  then have "length (escape esc s) = length s" by simp
  then show "list_all (\<lambda>c. \<not> esc c) s"
  proof (induction s)
    case (Cons c s)
    then show ?case using longer[of s] by (auto split: if_splits)
  qed simp
next
  show "list_all (\<lambda>c. \<not> esc c) s \<Longrightarrow> escape esc s = s" by (induction s) auto
qed

lemma upper_hex_plain: "n < 16 \<Longrightarrow> upper_hex n \<notin> set ''/?#%'' \<and> upper_hex n \<noteq> CHR 0x00"
proof -
  have "\<forall>n \<in> {..<16}. upper_hex n \<notin> set ''/?#%'' \<and> upper_hex n \<noteq> CHR 0x00"
    by (simp add: upper_hex_def lessThan_Suc numeral_eq_Suc)
  then show "n < 16 \<Longrightarrow> ?thesis" by simp
qed

lemma escape_avoids:
  assumes "x \<notin> set s \<or> esc x" and "x = CHR ''/'' \<or> x = CHR 0x00"
  shows "x \<notin> set (escape esc s)"
  using assms(1)
proof (induction s)
  case (Cons c s)
  then show ?case using upper_hex_plain[OF byte_halves(1)[of c]] upper_hex_plain[OF byte_halves(2)[of c]] assms(2) by auto
qed simp

lemma escapes_slash [simp]: "escapes_segment CHR ''/''" "\<not> escapes_path CHR ''/''" "escapes_segment CHR ''%''" "escapes_path CHR ''%''" "escapes_segment CHR 0x00"
  by (simp_all add: escapes_segment_def escapes_path_def alnum_def)

lemma segment_slash: "CHR ''/'' \<notin> set (escape escapes_path (PathEscape s))"
  by (simp add: escape_avoids)

lemma split_one: "x \<notin> set a \<Longrightarrow> split_at x a = [a]"
  by (induction a) auto

lemma split_more: "x \<notin> set a \<Longrightarrow> split_at x (a @ x # b) = a # split_at x b"
  by (induction a) auto


lemma segment_bytes: "list_all (\<lambda>c. c \<noteq> CHR ''/'' \<and> c \<noteq> CHR 0x00) (PathEscape s)"
proof -
  have "CHR ''/'' \<notin> set (PathEscape s)" "CHR 0x00 \<notin> set (PathEscape s)" by (rule escape_avoids; simp)+
  then show ?thesis by (auto simp: list_all_iff)
qed

lemma unesc_segment: "s \<noteq> [] \<Longrightarrow> unesc (escape escapes_path (PathEscape s)) = Some (PathEscape s)"
  using segment_bytes[of s] unescape_escape[of escapes_path "PathEscape s"] by (simp add: unesc_def)

lemma fixed_words:
  "escape escapes_path ''/org/'' = ''/org/''" "escape escapes_path ''/agent/'' = ''/agent/''" "escape escapes_path ''/operator/'' = ''/operator/''"
  "escape escapes_path ''/receiver'' = ''/receiver''" "escape escapes_path ''/sender'' = ''/sender''"
  unfolding plain_escape by (simp_all add: escapes_path_def alnum_def)

lemma split_paths:
  assumes "CHR ''/'' \<notin> set g" "CHR ''/'' \<notin> set a"
  shows "split_at CHR ''/'' (''org/'' @ g @ ''/agent/'' @ a) = [''org'', g, ''agent'', a]"
    "split_at CHR ''/'' (''org/'' @ g @ ''/operator/'' @ a @ ''/receiver'') = [''org'', g, ''operator'', a, ''receiver'']"
    "split_at CHR ''/'' (''org/'' @ g @ ''/operator/'' @ a @ ''/sender'') = [''org'', g, ''operator'', a, ''sender'']"
  using assms by (simp_all add: split_one split_more)

text \<open>What a URI name says after it was written into a certificate and read back: the names are escaped twice and unescaped once.\<close>

lemma reread_URI:
  assumes "URI i = Inr u"
  shows "reread_url u = Some u" "identity_of_url u = Inr (i\<lparr>id_Org := PathEscape (id_Org i), id_ID := PathEscape (id_ID i)\<rparr>)"
proof -
  let ?g = "PathEscape (id_Org i)" and ?a = "PathEscape (id_ID i)"
  have u: "ur_Scheme u = ''spiffe''" "\<not> ur_User u" "ur_Host u = TrustDomain" "ur_RawPath u = []" "ur_RawQuery u = []" "ur_Fragment u = []"
    and p: "ur_Path u = (case id_Kind i of HolderAgent \<Rightarrow> ''/org/'' @ ?g @ ''/agent/'' @ ?a
       | HolderReceiver \<Rightarrow> ''/org/'' @ ?g @ ''/operator/'' @ ?a @ ''/receiver'' | HolderSender \<Rightarrow> ''/org/'' @ ?g @ ''/operator/'' @ ?a @ ''/sender'')"
    and ne: "id_Org i \<noteq> []" "id_ID i \<noteq> []"
    using assms by (auto simp: URI_def Let_def split: if_splits)
  have ep: "EscapedPath u = escape escapes_path (ur_Path u)"
    using u p by (auto simp: EscapedPath_def split: holder_kind.splits)
  show "reread_url u = Some u" unfolding reread_url_def setPath_def ep using u by (simp add: unescape_escape)
  let ?G = "escape escapes_path ?g" and ?A = "escape escapes_path ?a"
  have "drop 1 (EscapedPath u) = (case id_Kind i of HolderAgent \<Rightarrow> ''org/'' @ ?G @ ''/agent/'' @ ?A
       | HolderReceiver \<Rightarrow> ''org/'' @ ?G @ ''/operator/'' @ ?A @ ''/receiver'' | HolderSender \<Rightarrow> ''org/'' @ ?G @ ''/operator/'' @ ?A @ ''/sender'')"
    and "prefix ''/'' (EscapedPath u)"
    unfolding ep p by (simp_all only: escape_app fixed_words split: holder_kind.split) simp_all
  then show "identity_of_url u = Inr (i\<lparr>id_Org := ?g, id_ID := ?a\<rparr>)"
    unfolding identity_of_url_def Let_def using u split_paths[OF segment_slash segment_slash, of "id_Org i" "id_ID i"] unesc_segment ne
    by (cases "id_Kind i") (simp_all add: kind_of_parts_def)
qed


subsection \<open>What an issued certificate states\<close>

definition plain_name :: "string \<Rightarrow> bool" where
  "plain_name s = list_all (\<lambda>c. \<not> escapes_segment c) s"

lemma created:
  assumes "CreateCertificate ok ca t = Inr c" "ct_URIs t = [u]" "URI i = Inr u"
  shows "c = t\<lparr>ct_NotBefore := whole (ct_NotBefore t), ct_NotAfter := whole (ct_NotAfter t), ct_SignedBy := ca\<rparr>"
  using assms reread_URI(1)[OF assms(3)] by (auto simp: CreateCertificate_def split: if_splits)

lemma IdentityOf_one:
  assumes "ct_URIs c = [u]" "URI i = Inr u"
  shows "IdentityOf c = (let j = i\<lparr>id_Org := PathEscape (id_Org i), id_ID := PathEscape (id_ID i)\<rparr>
    in case cert_agrees j c of Some e \<Rightarrow> Inl e | None \<Rightarrow> Inr (Some j))"
  using assms reread_URI(2)[OF assms(2)] by (simp add: IdentityOf_def Let_def)

lemma issued_agent:
  assumes "IssueAgent ok ca key agent g ttl now = Inr (c, t)"
  obtains u where "URI \<lparr>id_Kind = HolderAgent, id_Org = g, id_ID = agent\<rparr> = Inr u" "ct_URIs c = [u]" "ct_CN c = agent" "ct_Orgs c = [g]"
    "ct_Usage c = [ClientAuth]" "ct_Key c = key" "ct_SignedBy c = ca" "ct_NotAfter c = whole t" "t \<le> now + AgentCertTTL"
  using assms by (auto simp: IssueAgent_def Let_def dest!: created split: if_splits sum.splits)

lemma issued_reads:
  assumes "IssueAgent ok ca key agent g ttl now = Inr (c, t)"
  shows "IdentityOf c = (if \<not> plain_name g then Inl OrgDisagrees else if \<not> plain_name agent then Inl NameDisagrees
    else Inr (Some \<lparr>id_Kind = HolderAgent, id_Org = g, id_ID = agent\<rparr>))"
proof -
  obtain u where "URI \<lparr>id_Kind = HolderAgent, id_Org = g, id_ID = agent\<rparr> = Inr u" "ct_URIs c = [u]" "ct_CN c = agent" "ct_Orgs c = [g]"
    "ct_Usage c = [ClientAuth]" using issued_agent[OF assms] .
  then show ?thesis by (auto simp: IdentityOf_one cert_agrees_def plain_name_def Let_def eq_commute[of _ "PathEscape _"] simp flip: plain_escape)
qed

text \<open>
  C35. What the server writes into an agent's certificate it reads back from it exactly when neither the organisation's id nor the agent's needs
  escaping. Otherwise the certificate it has just issued is refused: \<open>Identity.URI\<close> escapes both, writing the URL escapes them again, and
  \<open>IdentityOf\<close> unescapes once.
\<close>

theorem agent_certificate_reads_back:
  assumes "IssueAgent ok ca key agent g ttl now = Inr (c, t)"
  shows "IdentityOf c = (if \<not> plain_name g then Inl OrgDisagrees else if \<not> plain_name agent then Inl NameDisagrees
    else Inr (Some \<lparr>id_Kind = HolderAgent, id_Org = g, id_ID = agent\<rparr>))"
  by (rule issued_reads[OF assms])

definition demo_cert :: cert where
  "demo_cert = \<lparr>ct_CN = ''ag-1'', ct_Orgs = [''main''], ct_URIs = [\<lparr>ur_Scheme = ''spiffe'', ur_User = False, ur_Host = ''ikhnos'',
     ur_Path = ''/org/main/agent/ag-1'', ur_RawPath = [], ur_RawQuery = [], ur_Fragment = []\<rparr>], ct_Usage = [ClientAuth],
     ct_NotBefore = - (300 * second), ct_NotAfter = 24 * hour, ct_Key = ''key'', ct_SignedBy = ''ca''\<rparr>"

lemma demo_issued: "IssueAgent True ''ca'' ''key'' ''ag-1'' ''main'' 0 0 = Inr (demo_cert, 24 * hour)"
  by code_simp

theorem agent_certificate_reads_back_witness:
  "IssueAgent True ''ca'' ''key'' ''ag-1'' ''main'' 0 0 = Inr (demo_cert, 24 * hour)
   \<and> IdentityOf demo_cert = Inr (Some \<lparr>id_Kind = HolderAgent, id_Org = ''main'', id_ID = ''ag-1''\<rparr>)"
proof -
  have "plain_name ''main''" "plain_name ''ag-1''" by code_simp+
  with agent_certificate_reads_back[OF demo_issued] show ?thesis by (simp add: demo_issued)
qed

text \<open>An organisation called \<open>my org\<close>: the certificate issued in it is refused.\<close>

lemma spaced_org_locked_out:
  "\<exists>c t. IssueAgent True ''ca'' ''key'' ''ag-1'' ''my org'' 0 0 = Inr (c, t) \<and> Holder req c HolderAgent = Inl OrgDisagrees"
proof -
  have "isl (URI \<lparr>id_Kind = HolderAgent, id_Org = ''my org'', id_ID = ''ag-1''\<rparr>) = False" by code_simp
  then obtain u where "URI \<lparr>id_Kind = HolderAgent, id_Org = ''my org'', id_ID = ''ag-1''\<rparr> = Inr u" by (auto simp: isl_def split: sum.splits) (metis sum.exhaust)
  then have "\<exists>p. IssueAgent True ''ca'' ''key'' ''ag-1'' ''my org'' 0 0 = Inr p"
    using reread_URI(1) by (simp add: IssueAgent_def CreateCertificate_def Let_def)
  then obtain c t where i: "IssueAgent True ''ca'' ''key'' ''ag-1'' ''my org'' 0 0 = Inr (c, t)" by auto
  have "\<not> plain_name ''my org''" by code_simp
  with issued_reads[OF i] have "Holder req c HolderAgent = Inl OrgDisagrees" by (simp add: Holder_def)
  with i show ?thesis by blast
qed

text \<open>A certificate issued to one kind of holder is refused wherever another kind is expected, whatever it is called.\<close>

theorem kinds_never_mix:
  assumes "SignLeafAs ok ca ca_until key cn gs ttl use (Some i) now = Inr c" "want \<noteq> id_Kind i"
  shows "\<exists>e. Holder req c want = Inl e"
proof -
  obtain u where "URI i = Inr u" "ct_URIs c = [u]"
    using assms(1) by (auto simp: SignLeafAs_def Let_def dest!: created split: if_splits sum.splits)
  then show ?thesis using assms(2) by (auto simp: Holder_def IdentityOf_one Let_def split: option.splits)
qed

text \<open>The name of a sender's certificate fits a common name, when the operator's id leaves room for the hash.\<close>

lemma hex_length: "length (hex s) = 2 * length s"
  by (induction s) (simp_all add: hex_def)

lemma client_name_fits:
  assumes "length operator \<le> 49" "3 \<le> length (sha sender)"
  shows "\<exists>cn. OperatorClientCN sha operator sender = Some cn \<and> length cn \<le> 64"
  using assms by (auto simp: OperatorClientCN_def senderLabel_def label_tag_def maxCommonName_def hex_length Let_def min_def)

text \<open>
  The label of a sender is the label of another sender whenever the other one is called by that label: what was changed to fit is itself a name that
  fits.
\<close>

lemma hex_digit_label: "n < 16 \<Longrightarrow> label_byte (hex_digit n)"
  by (simp add: label_byte_def alnum_def hex_digit_def Let_def)

lemma hex_label: "list_all label_byte (hex s)"
  using byte_halves by (induction s) (simp_all add: hex_def hex_digit_label)

lemma clean_label: "list_all label_byte s \<Longrightarrow> map (\<lambda>c. if label_byte c then c else CHR ''-'') s = s"
  by (induction s) auto

lemma label_safe:
  assumes "senderLabel sha s m = Some l"
  shows "list_all label_byte l \<and> int (length l) \<le> m"
proof -
  let ?clean = "map (\<lambda>c. if label_byte c then c else CHR ''-'') s"
  have hyphen: "label_byte CHR ''-''" by (simp add: label_byte_def)
  then have clean: "list_all label_byte ?clean" by (induction s) simp_all
  have taken: "list_all label_byte (take n ?clean)" for n using clean by (metis append_take_drop_id list_all_append)
  have tag: "list_all label_byte (label_tag sha s)" using hex_label hyphen by (simp add: label_tag_def)
  show ?thesis
  proof (cases "list_all label_byte s \<and> int (length s) \<le> m")
    case True
    then show ?thesis using assms by (simp add: senderLabel_def Let_def clean_label)
  next
    case False
    define n where "n = m - int (length (label_tag sha s))"
    have "l = take (nat n) ?clean @ label_tag sha s \<and> 0 \<le> n \<or> l = ?clean @ label_tag sha s \<and> int (length s) \<le> n"
      using assms False by (auto simp: senderLabel_def Let_def n_def split: if_splits)
    then show ?thesis using clean taken[of "nat n"] tag by (auto simp: n_def)
  qed
qed

lemma two_senders_one_label:
  assumes "senderLabel sha s m = Some l" "\<not> list_all label_byte s"
  shows "l \<noteq> s" "senderLabel sha l m = senderLabel sha s m"
proof -
  have l: "list_all label_byte l" "int (length l) \<le> m" using label_safe[OF assms(1)] by simp_all
  show "l \<noteq> s" using l(1) assms(2) by auto
  show "senderLabel sha l m = senderLabel sha s m" unfolding assms(1) using l clean_label[OF l(1)] by (simp add: senderLabel_def Let_def)
qed

end
