(* ===== verification/EnrolStore.thy ===== *)
theory EnrolStore
  imports Holders AccountStore Consent
begin

text \<open>
  The tables of enrolment tokens and agents and the statements over them (\<open>store/sqlite.go\<close>). A table is the list of its rows, in the order they were
  inserted. Any statement may fail: \<open>fl\<close> says which do. Times are stored in milliseconds; a row holds a time as it reads back. A column that is
  \<open>NULL\<close> is \<open>None\<close>. A leaf certificate is kept as what it reads as.
\<close>

subsection \<open>Rows\<close>

record token_row =
  tn_ID :: string
  tn_OrgID :: string
  tn_Hash :: string
  tn_Label :: string
  tn_AccessTier :: int
  tn_CreatedBy :: string
  tn_CreatedAt :: time
  tn_ExpiresAt :: time
  tn_UsedAt :: "time option"
  tn_UsedBy :: string
  tn_ExpectedFingerprint :: string

record agent_row = agent +
  ea_OrgID :: string
  ea_Fingerprint :: string
  ea_CSR :: string
  ea_PollSecretHash :: "string option"
  ea_TokenID :: string
  ea_ConnectingIP :: string
  ea_Leaf :: "cert option"
  ea_LeafNotAfter :: "time option"
  ea_ApprovalHash :: "string option"
  ea_ApprovalAttempts :: nat
  ea_ClockSkewMs :: int

record enrol_db =
  ed_tokens :: "token_row list"
  ed_agents :: "agent_row list"

definition StatusPending :: string where "StatusPending = ''pending''"
definition StatusApproved :: string where "StatusApproved = ''approved''"
definition StatusRevoked :: string where "StatusRevoked = ''revoked''"
definition StatusRejected :: string where "StatusRejected = ''rejected''"
definition StatusExpired :: string where "StatusExpired = ''expired''"

lemmas status_defs = StatusPending_def StatusApproved_def StatusRevoked_def StatusRejected_def StatusExpired_def

datatype enrol_query = XCreateToken | XDeleteToken | XEnroll | XAgentByToken | XResume | XCountAttempt | XExpirePending | XPurgeExpired
  | XFindAgent | XGetAgent | XApprove | XReject | XRevoke | XSetLeaf | XClearPoll | XSetAccessTier | XSetInstalledTier | XTouch | XAddEvents | XAudit | XDeleteOrg

datatype store_error = StNotFound | StTokenInvalid | StWrongCluster token_row | StBadState | StClusterEnrolled | StUnique | StFailed enrol_query

abbreviation whole_ms :: "time \<Rightarrow> time" where "whole_ms t \<equiv> of_msec (msec t)"

subsection \<open>Tokens\<close>

definition CreateTokenRow :: "(enrol_query \<Rightarrow> bool) \<Rightarrow> token_row \<Rightarrow> enrol_db \<Rightarrow> store_error + enrol_db" where
  "CreateTokenRow fl t d = (if fl XCreateToken then Inl (StFailed XCreateToken)
     else if list_ex (\<lambda>r. tn_ID r = tn_ID t \<or> tn_Hash r = tn_Hash t) (ed_tokens d) then Inl StUnique
     else Inr (d\<lparr>ed_tokens := ed_tokens d @ [t\<lparr>tn_CreatedAt := whole_ms (tn_CreatedAt t), tn_ExpiresAt := whole_ms (tn_ExpiresAt t)\<rparr>]\<rparr>))"

definition DeleteTokenRow :: "(enrol_query \<Rightarrow> bool) \<Rightarrow> string \<Rightarrow> string \<Rightarrow> enrol_db \<Rightarrow> store_error + enrol_db" where
  "DeleteTokenRow fl g i d = (if fl XDeleteToken then Inl (StFailed XDeleteToken)
     else let hit = (\<lambda>t. tn_ID t = i \<and> tn_OrgID t = g \<and> tn_UsedAt t = None)
     in if \<not> list_ex hit (ed_tokens d) then Inl StNotFound else Inr (d\<lparr>ed_tokens := filter (\<lambda>t. \<not> hit t) (ed_tokens d)\<rparr>))"

subsection \<open>Finding agents\<close>

definition find_agent :: "string \<Rightarrow> enrol_db \<Rightarrow> agent_row option" where
  "find_agent i d = List.find (\<lambda>a. ag_ID a = i) (ed_agents d)"

definition FindAgent :: "(enrol_query \<Rightarrow> bool) \<Rightarrow> string \<Rightarrow> enrol_db \<Rightarrow> store_error + agent_row" where
  "FindAgent fl i d = (if fl XFindAgent then Inl (StFailed XFindAgent) else case find_agent i d of None \<Rightarrow> Inl StNotFound | Some a \<Rightarrow> Inr a)"

definition GetAgent :: "(enrol_query \<Rightarrow> bool) \<Rightarrow> string \<Rightarrow> string \<Rightarrow> enrol_db \<Rightarrow> store_error + agent_row" where
  "GetAgent fl g i d = (if fl XGetAgent then Inl (StFailed XGetAgent)
     else case List.find (\<lambda>a. ag_ID a = i \<and> ea_OrgID a = g) (ed_agents d) of None \<Rightarrow> Inl StNotFound | Some a \<Rightarrow> Inr a)"

definition AgentByToken :: "(enrol_query \<Rightarrow> bool) \<Rightarrow> string \<Rightarrow> enrol_db \<Rightarrow> store_error + agent_row" where
  "AgentByToken fl hash d = (if fl XAgentByToken then Inl (StFailed XAgentByToken)
     else case List.find (\<lambda>t. tn_Hash t = hash \<and> tn_UsedAt t \<noteq> None) (ed_tokens d) of None \<Rightarrow> Inl StNotFound
     | Some t \<Rightarrow> (case find_agent (tn_UsedBy t) d of None \<Rightarrow> Inl StNotFound | Some a \<Rightarrow> Inr a))"

subsection \<open>Enrolling\<close>

definition usable :: "string \<Rightarrow> time \<Rightarrow> token_row \<Rightarrow> bool" where
  "usable hash now t \<longleftrightarrow> tn_Hash t = hash \<and> tn_UsedAt t = None \<and> msec (tn_ExpiresAt t) > msec now"

text \<open>The token is looked up, spent by an update under the same conditions, and the agent inserted, in one transaction.\<close>

definition EnrollAgent :: "(enrol_query \<Rightarrow> bool) \<Rightarrow> string \<Rightarrow> agent_row \<Rightarrow> time \<Rightarrow> enrol_db \<Rightarrow> store_error + token_row \<times> enrol_db" where
  "EnrollAgent fl hash a now d = (if fl XEnroll then Inl (StFailed XEnroll)
     else case List.find (usable hash now) (ed_tokens d) of None \<Rightarrow> Inl StTokenInvalid
     | Some t \<Rightarrow> if tn_ExpectedFingerprint t \<noteq> [] \<and> tn_ExpectedFingerprint t \<noteq> ea_Fingerprint a then Inl (StWrongCluster t)
     else if length (filter (usable hash now) (ed_tokens d)) \<noteq> 1 then Inl StTokenInvalid
     else if list_ex (\<lambda>r. ag_ID r = ag_ID a) (ed_agents d) then Inl StUnique
     else let spent = (\<lambda>t. t\<lparr>tn_UsedAt := Some (whole_ms now), tn_UsedBy := ag_ID a\<rparr>);
       row = a\<lparr>ea_OrgID := tn_OrgID t, ag_Name := tn_Label t, ea_TokenID := tn_ID t, ag_Status := StatusPending, ag_CreatedAt := Some (whole_ms now),
         ag_TierCap := tn_AccessTier t\<rparr>
     in Inr (t\<lparr>tn_UsedAt := Some now, tn_UsedBy := ag_ID a\<rparr>,
         d\<lparr>ed_tokens := map (\<lambda>t. if usable hash now t then spent t else t) (ed_tokens d), ed_agents := ed_agents d @ [row]\<rparr>))"

subsection \<open>Changing an agent's row\<close>

text \<open>
  An \<open>UPDATE agents SET \<dots> WHERE \<dots>\<close> that is followed by \<open>needOneIn\<close> or \<open>needOneAgent\<close>: when it changed no row, the row is either not there in this
  organisation or not in a state that allows the change. An update that would leave two approved agents of one cluster fails on the index
  \<open>agents_one_live_per_cluster\<close>.
\<close>

definition one_live :: "agent_row list \<Rightarrow> bool" where
  "one_live as \<longleftrightarrow> distinct (map (\<lambda>a. (ea_OrgID a, ea_Fingerprint a)) (filter (\<lambda>a. ag_Status a = StatusApproved) as))"

definition update_agents :: "(agent_row \<Rightarrow> bool) \<Rightarrow> (agent_row \<Rightarrow> agent_row) \<Rightarrow> enrol_db \<Rightarrow> enrol_db" where
  "update_agents hit f d = d\<lparr>ed_agents := map (\<lambda>a. if hit a then f a else a) (ed_agents d)\<rparr>"

definition change_agent :: "enrol_query \<Rightarrow> (enrol_query \<Rightarrow> bool) \<Rightarrow> string \<Rightarrow> string \<Rightarrow> (agent_row \<Rightarrow> bool) \<Rightarrow> (agent_row \<Rightarrow> agent_row) \<Rightarrow> enrol_db
    \<Rightarrow> store_error + enrol_db" where
  "change_agent q fl g i p f d = (if fl q then Inl (StFailed q)
     else let hit = (\<lambda>a. ag_ID a = i \<and> ea_OrgID a = g \<and> p a); d' = update_agents hit f d
     in if \<not> one_live (ed_agents d') then Inl StClusterEnrolled
     else if length (filter hit (ed_agents d)) = 1 then Inr d'
     else if list_ex (\<lambda>a. ag_ID a = i \<and> ea_OrgID a = g) (ed_agents d) then Inl StBadState else Inl StNotFound)"

record resume_row =
  rs_PollSecretHash :: string
  rs_ApprovalHash :: "string option"
  rs_CSR :: string
  rs_Version :: string
  rs_K8sVersion :: string
  rs_IP :: string

definition ResumeRow :: "(enrol_query \<Rightarrow> bool) \<Rightarrow> string \<Rightarrow> string \<Rightarrow> resume_row \<Rightarrow> bool \<Rightarrow> time \<Rightarrow> enrol_db \<Rightarrow> store_error + enrol_db" where
  "ResumeRow fl g i r reopen now d =
     (let seen = (\<lambda>a. a\<lparr>ea_PollSecretHash := Some (rs_PollSecretHash r), ag_Version := rs_Version r, ag_K8sVersion := rs_K8sVersion r, ea_ConnectingIP := rs_IP r\<rparr>)
      in if reopen then change_agent XResume fl g i (\<lambda>a. ag_Status a = StatusExpired)
          (\<lambda>a. (seen a)\<lparr>ag_Status := StatusPending, ea_ApprovalHash := rs_ApprovalHash r, ea_ApprovalAttempts := 0, ea_CSR := rs_CSR r,
             ag_CreatedAt := Some (whole_ms now), ag_Reason := [], ag_RevokedAt := None\<rparr>) d
      else change_agent XResume fl g i (\<lambda>a. ag_Status a = StatusPending \<or> ag_Status a = StatusApproved \<and> ea_PollSecretHash a \<noteq> None) seen d)"

definition CountApprovalAttempt :: "(enrol_query \<Rightarrow> bool) \<Rightarrow> string \<Rightarrow> string \<Rightarrow> enrol_db \<Rightarrow> store_error + nat \<times> enrol_db" where
  "CountApprovalAttempt fl g i d =
     (case change_agent XCountAttempt fl g i (\<lambda>a. ag_Status a = StatusPending) (\<lambda>a. a\<lparr>ea_ApprovalAttempts := ea_ApprovalAttempts a + 1\<rparr>) d of
        Inl e \<Rightarrow> Inl e
      | Inr d' \<Rightarrow> (case find_agent i d' of None \<Rightarrow> Inl (StFailed XCountAttempt) | Some a \<Rightarrow> Inr (ea_ApprovalAttempts a, d')))"

definition overdue :: "string \<Rightarrow> time \<Rightarrow> agent_row \<Rightarrow> bool" where
  "overdue g cutoff a \<longleftrightarrow> ea_OrgID a = g \<and> ag_Status a = StatusPending \<and> (case ag_CreatedAt a of None \<Rightarrow> True | Some t \<Rightarrow> msec t < msec cutoff)"

definition ExpirePendingRows :: "(enrol_query \<Rightarrow> bool) \<Rightarrow> string \<Rightarrow> time \<Rightarrow> enrol_db \<Rightarrow> store_error + agent_row list \<times> enrol_db" where
  "ExpirePendingRows fl g cutoff d = (if fl XExpirePending then Inl (StFailed XExpirePending)
     else let out = filter (overdue g cutoff) (ed_agents d); ids = map ag_ID out
     in Inr (map (\<lambda>a. a\<lparr>ag_Status := StatusExpired\<rparr>) out,
         update_agents (\<lambda>a. ag_ID a \<in> set ids \<and> ag_Status a = StatusPending)
           (\<lambda>a. a\<lparr>ag_Status := StatusExpired, ag_Reason := ''nobody approved it in time''\<rparr>) d))"

definition PurgeExpiredRows :: "(enrol_query \<Rightarrow> bool) \<Rightarrow> string \<Rightarrow> time \<Rightarrow> enrol_db \<Rightarrow> store_error + nat \<times> enrol_db" where
  "PurgeExpiredRows fl g cutoff d = (if fl XPurgeExpired then Inl (StFailed XPurgeExpired)
     else let gone = (\<lambda>a. ea_OrgID a = g \<and> ag_Status a = StatusExpired \<and> (case ag_CreatedAt a of None \<Rightarrow> True | Some t \<Rightarrow> msec t < msec cutoff))
     in Inr (length (filter gone (ed_agents d)), d\<lparr>ed_agents := filter (\<lambda>a. \<not> gone a) (ed_agents d)\<rparr>))"

definition ApproveRow :: "(enrol_query \<Rightarrow> bool) \<Rightarrow> string \<Rightarrow> string \<Rightarrow> int \<Rightarrow> string \<Rightarrow> string \<Rightarrow> cert \<Rightarrow> time \<Rightarrow> time \<Rightarrow> enrol_db \<Rightarrow> store_error + enrol_db" where
  "ApproveRow fl g i tier approver cluster leaf notAfter now =
     change_agent XApprove fl g i (\<lambda>a. ag_Status a = StatusPending)
       (\<lambda>a. a\<lparr>ag_Status := StatusApproved, ag_AccessTier := tier, ag_ApprovedBy := approver, ag_ApprovedAt := Some (whole_ms now),
          ag_ClusterID := cluster, ea_Leaf := Some leaf, ea_LeafNotAfter := Some (whole_ms notAfter), ag_Reason := []\<rparr>)"

definition RejectRow :: "(enrol_query \<Rightarrow> bool) \<Rightarrow> string \<Rightarrow> string \<Rightarrow> string \<Rightarrow> time \<Rightarrow> enrol_db \<Rightarrow> store_error + enrol_db" where
  "RejectRow fl g i reason now = change_agent XReject fl g i (\<lambda>a. ag_Status a = StatusPending)
     (\<lambda>a. a\<lparr>ag_Status := StatusRejected, ag_Reason := reason, ag_RevokedAt := Some (whole_ms now)\<rparr>)"

definition RevokeRow :: "(enrol_query \<Rightarrow> bool) \<Rightarrow> string \<Rightarrow> string \<Rightarrow> string \<Rightarrow> time \<Rightarrow> enrol_db \<Rightarrow> store_error + enrol_db" where
  "RevokeRow fl g i reason now = change_agent XRevoke fl g i (\<lambda>a. ag_Status a \<in> {StatusApproved, StatusPending})
     (\<lambda>a. a\<lparr>ag_Status := StatusRevoked, ag_Reason := reason, ag_RevokedAt := Some (whole_ms now), ea_Leaf := None\<rparr>)"

definition SetLeafRow :: "(enrol_query \<Rightarrow> bool) \<Rightarrow> string \<Rightarrow> string \<Rightarrow> cert \<Rightarrow> time \<Rightarrow> enrol_db \<Rightarrow> store_error + enrol_db" where
  "SetLeafRow fl g i leaf notAfter = change_agent XSetLeaf fl g i (\<lambda>a. ag_Status a = StatusApproved)
     (\<lambda>a. a\<lparr>ea_Leaf := Some leaf, ea_LeafNotAfter := Some (whole_ms notAfter)\<rparr>)"

definition SetAccessTierRow :: "(enrol_query \<Rightarrow> bool) \<Rightarrow> string \<Rightarrow> string \<Rightarrow> int \<Rightarrow> enrol_db \<Rightarrow> store_error + enrol_db" where
  "SetAccessTierRow fl g i tier = change_agent XSetAccessTier fl g i (\<lambda>a. ag_Status a = StatusApproved) (\<lambda>a. a\<lparr>ag_AccessTier := tier\<rparr>)"

definition SetInstalledTierRow :: "(enrol_query \<Rightarrow> bool) \<Rightarrow> string \<Rightarrow> string \<Rightarrow> int \<Rightarrow> enrol_db \<Rightarrow> store_error + enrol_db" where
  "SetInstalledTierRow fl g i tier d = (if fl XSetInstalledTier then Inl (StFailed XSetInstalledTier)
     else Inr (update_agents (\<lambda>a. ag_ID a = i \<and> ea_OrgID a = g) (\<lambda>a. a\<lparr>ag_InstalledTier := tier\<rparr>) d))"

definition ClearPollSecret :: "(enrol_query \<Rightarrow> bool) \<Rightarrow> string \<Rightarrow> string \<Rightarrow> enrol_db \<Rightarrow> enrol_db" where
  "ClearPollSecret fl g i d = (if fl XClearPoll then d else update_agents (\<lambda>a. ag_ID a = i \<and> ea_OrgID a = g) (\<lambda>a. a\<lparr>ea_PollSecretHash := None\<rparr>) d)"

definition or_kept :: "string \<Rightarrow> string \<Rightarrow> string" where "or_kept s old = (if s = [] then old else s)"

definition TouchRow :: "(enrol_query \<Rightarrow> bool) \<Rightarrow> string \<Rightarrow> string \<Rightarrow> string \<Rightarrow> string \<Rightarrow> string \<Rightarrow> time \<Rightarrow> enrol_db \<Rightarrow> enrol_db" where
  "TouchRow fl g i ip version k8s now d = (if fl XTouch then d else update_agents (\<lambda>a. ag_ID a = i \<and> ea_OrgID a = g)
     (\<lambda>a. a\<lparr>ag_LastSeen := Some (whole_ms now), ea_ConnectingIP := or_kept ip (ea_ConnectingIP a), ag_Version := or_kept version (ag_Version a),
        ag_K8sVersion := or_kept k8s (ag_K8sVersion a)\<rparr>) d)"

text \<open>What deleting an organisation (\<open>deleteOrgRows\<close>) does to the two tables, in one transaction.\<close>

definition DeleteOrgTables :: "(enrol_query \<Rightarrow> bool) \<Rightarrow> string \<Rightarrow> enrol_db \<Rightarrow> enrol_db" where
  "DeleteOrgTables fl g d = (if fl XDeleteOrg then d
     else d\<lparr>ed_agents := filter (\<lambda>a. ea_OrgID a \<noteq> g) (ed_agents d), ed_tokens := filter (\<lambda>t. tn_OrgID t \<noteq> g) (ed_tokens d)\<rparr>)"

end
