(* ===== verification/Approval.thy ===== *)
theory Approval
  imports Codec Password
begin

text \<open>
  The approval code of an enrolment (\<open>approval/approval.go\<close>): eight characters of Crockford's base 32, how they are written, what may be typed for
  them, and the hash that binds the code to a certificate request. SHA-256, argon2 and the parsing of a certificate request are parameters.
\<close>

subsection \<open>Writing and reading a code\<close>

definition approval_alphabet :: string where "approval_alphabet = ''0123456789ABCDEFGHJKMNPQRSTVWXYZ''"

definition CodeLength :: nat where "CodeLength = 8"
definition HashLen :: nat where "HashLen = 32"

definition FormatCode :: "string \<Rightarrow> string" where
  "FormatCode norm = (if length norm \<noteq> CodeLength then norm else take 4 norm @ ''-'' @ drop 4 norm)"

text \<open>\<open>approval.New\<close>: five random bytes are a number of 40 bits, written with eight digits.\<close>

definition NewCode :: "string option \<Rightarrow> string option" where
  "NewCode rnd = map_option (\<lambda>b. FormatCode (map (\<lambda>d. approval_alphabet ! d) (digits 32 CodeLength (number 256 (map of_char b))))) rnd"

text \<open>
  \<open>strings.ToUpper\<close>, as far as \<open>Normalize\<close> sees it: U+0131 becomes \<open>I\<close> and U+017F becomes \<open>S\<close>; any other character that is not ASCII stays one
  that is not, and is refused.
\<close>

fun upper_runes :: "string \<Rightarrow> string" where
  "upper_runes (c # d # r) =
     (if c = CHR 0xC4 \<and> d = CHR 0xB1 then CHR ''I'' # upper_runes r
      else if c = CHR 0xC5 \<and> d = CHR 0xBF then CHR ''S'' # upper_runes r else upper_byte c # upper_runes (d # r))"
| "upper_runes s = map upper_byte s"

definition separator :: "char \<Rightarrow> bool" where
  "separator c \<longleftrightarrow> c \<in> set '' -_'' \<or> c = CHR 0x09 \<or> c = CHR 0x0A \<or> c = CHR 0x0D"

definition read_rune :: "char \<Rightarrow> char" where
  "read_rune r = (if r = CHR ''O'' then CHR ''0'' else if r = CHR ''I'' \<or> r = CHR ''L'' then CHR ''1'' else r)"

fun norm_runes :: "string \<Rightarrow> string option" where
  "norm_runes [] = Some []"
| "norm_runes (r # s) = (if separator r then norm_runes s
     else if read_rune r \<notin> set approval_alphabet then None else map_option ((#) (read_rune r)) (norm_runes s))"

definition NormalizeCode :: "string \<Rightarrow> string option" where
  "NormalizeCode s = (case norm_runes (upper_runes s) of None \<Rightarrow> None | Some n \<Rightarrow> if length n \<noteq> CodeLength then None else Some n)"

subsection \<open>The hash\<close>

record csr =
  cs_Pub :: "string option"
  cs_SigOk :: bool
  cs_P256 :: bool

record code_world =
  cw_sha :: "string \<Rightarrow> string"
  cw_argon :: argon
  cw_csr :: "string \<Rightarrow> csr option"

definition KeyID :: "code_world \<Rightarrow> string \<Rightarrow> string option" where
  "KeyID w der = (case cw_csr w der of None \<Rightarrow> None | Some c \<Rightarrow> map_option (cw_sha w) (cs_Pub c))"

definition HashCode :: "code_world \<Rightarrow> string \<Rightarrow> string \<Rightarrow> string option" where
  "HashCode w code der = (case NormalizeCode code of None \<Rightarrow> None
     | Some norm \<Rightarrow> map_option (\<lambda>salt. cw_argon w (''ikhnos-approval-v1:'' @ norm) salt 2 (16 * 1024) 1 HashLen) (KeyID w der))"

definition MatchesCode :: "code_world \<Rightarrow> string \<Rightarrow> string \<Rightarrow> string option \<Rightarrow> bool" where
  "MatchesCode w typed der hash = (case hash of None \<Rightarrow> False
     | Some h \<Rightarrow> length h = HashLen \<and> (case HashCode w typed der of None \<Rightarrow> False | Some g \<Rightarrow> g = h))"

subsection \<open>What may be typed for a code\<close>

text \<open>
  How a person may write a code: either case, separators anywhere, \<open>O\<close> for \<open>0\<close>, \<open>I\<close> or \<open>L\<close> for \<open>1\<close>. Two characters outside ASCII
  have an upper case inside it, so they count too: the dotless i (U+0131, two bytes in UTF-8) as an \<open>I\<close>, and the long s (U+017F) as an \<open>S\<close>.
\<close>

definition looks_like :: "char \<Rightarrow> char \<Rightarrow> bool" where
  "looks_like c d \<longleftrightarrow> upper_byte d = c \<or> c = CHR ''0'' \<and> upper_byte d = CHR ''O'' \<or> c = CHR ''1'' \<and> upper_byte d \<in> {CHR ''I'', CHR ''L''}"

inductive reads_as :: "string \<Rightarrow> string \<Rightarrow> bool" where
  nothing: "reads_as [] []"
| skip: "separator d \<Longrightarrow> reads_as n t \<Longrightarrow> reads_as n (d # t)"
| char: "c \<in> set approval_alphabet \<Longrightarrow> looks_like c d \<Longrightarrow> reads_as n t \<Longrightarrow> reads_as (c # n) (d # t)"
| dotless_i: "reads_as n t \<Longrightarrow> reads_as (CHR ''1'' # n) (CHR 0xC4 # CHR 0xB1 # t)"
| long_s: "reads_as n t \<Longrightarrow> reads_as (CHR ''S'' # n) (CHR 0xC5 # CHR 0xBF # t)"

inductive_cases reads_as_ConsE: "reads_as n (d # t)"
inductive_simps reads_as_Nil [simp]: "reads_as n []"

lemma alphabet_facts:
  "list_all (\<lambda>c. \<not> separator c \<and> read_rune c = c \<and> upper_byte c = c \<and> of_char c < (128 :: nat)) approval_alphabet"
  "distinct approval_alphabet" "length approval_alphabet = 32"
  by code_simp+

lemma upper_byte_cases: "upper_byte d = d \<or> (97 \<le> (of_char d :: nat) \<and> of_char d \<le> (122 :: nat) \<and> of_char (upper_byte d) = of_char d - (32 :: nat))"
  by (auto simp: upper_byte_def Let_def)

lemma separator_codes: "separator c \<Longrightarrow> of_char c \<in> {32, 45, 95, 9, 10, 13 :: nat}"
  by (auto simp: separator_def)

lemma separator_upper [simp]: "separator (upper_byte d) \<longleftrightarrow> separator d"
  using upper_byte_cases[of d] separator_codes[of d] separator_codes[of "upper_byte d"] by auto

lemma looks_like_char:
  assumes "c \<in> set approval_alphabet"
  shows "looks_like c d \<longleftrightarrow> \<not> separator d \<and> read_rune (upper_byte d) = c"
proof -
  have c: "\<not> separator c" "read_rune c = c" using assms alphabet_facts(1) by (auto simp: list_all_iff)
  have "\<not> separator CHR ''O''" "\<not> separator CHR ''I''" "\<not> separator CHR ''L''" by (simp_all add: separator_def)
  then have "looks_like c d \<Longrightarrow> \<not> separator (upper_byte d)" using c by (auto simp: looks_like_def simp del: separator_upper)
  then show ?thesis using c by (auto simp: looks_like_def read_rune_def split: if_splits)
qed

text \<open>What a text reads as, by its first byte; the two characters outside ASCII begin with bytes that stand for nothing else.\<close>

definition two_bytes :: "string \<Rightarrow> bool" where
  "two_bytes s \<longleftrightarrow> take 2 s \<in> {[CHR 0xC4, CHR 0xB1], [CHR 0xC5, CHR 0xBF]}"

lemma reads_as_byte:
  assumes "\<not> two_bytes (d # t)"
  shows "reads_as n (d # t) \<longleftrightarrow> (if separator d then reads_as n t
    else read_rune (upper_byte d) \<in> set approval_alphabet \<and> (\<exists>m. n = read_rune (upper_byte d) # m \<and> reads_as m t))"
  using assms looks_like_char[of _ d] by (auto simp: two_bytes_def intro: skip char elim!: reads_as_ConsE)

lemma odd_bytes: "\<not> separator CHR 0xC4" "\<not> separator CHR 0xC5"
  "c \<in> set approval_alphabet \<Longrightarrow> \<not> looks_like c CHR 0xC4" "c \<in> set approval_alphabet \<Longrightarrow> \<not> looks_like c CHR 0xC5"
proof -
  show "\<not> separator CHR 0xC4" "\<not> separator CHR 0xC5" by (simp_all add: separator_def)
  have "list_all (\<lambda>c. \<not> looks_like c CHR 0xC4 \<and> \<not> looks_like c CHR 0xC5) approval_alphabet" by code_simp
  then show "c \<in> set approval_alphabet \<Longrightarrow> \<not> looks_like c CHR 0xC4" "c \<in> set approval_alphabet \<Longrightarrow> \<not> looks_like c CHR 0xC5"
    by (auto simp: list_all_iff)
qed

lemma reads_as_two_bytes:
  "reads_as n (CHR 0xC4 # CHR 0xB1 # t) \<longleftrightarrow> (\<exists>m. n = CHR ''1'' # m \<and> reads_as m t)"
  "reads_as n (CHR 0xC5 # CHR 0xBF # t) \<longleftrightarrow> (\<exists>m. n = CHR ''S'' # m \<and> reads_as m t)"
  using odd_bytes by (auto intro: dotless_i long_s elim!: reads_as_ConsE)

lemma norm_rune:
  "norm_runes (r # u) = Some n \<longleftrightarrow> (if separator r then norm_runes u = Some n
    else read_rune r \<in> set approval_alphabet \<and> (\<exists>m. n = read_rune r # m \<and> norm_runes u = Some m))"
  by auto

lemma norm_I: "norm_runes (CHR ''I'' # u) = Some n \<longleftrightarrow> (\<exists>m. n = CHR ''1'' # m \<and> norm_runes u = Some m)"
  and norm_S: "norm_runes (CHR ''S'' # u) = Some n \<longleftrightarrow> (\<exists>m. n = CHR ''S'' # m \<and> norm_runes u = Some m)"
  unfolding norm_rune by (simp_all add: separator_def read_rune_def approval_alphabet_def)

lemma norm_reads: "norm_runes (upper_runes t) = Some n \<longleftrightarrow> reads_as n t"
proof (induction t arbitrary: n rule: upper_runes.induct [case_names more nil one])
  case (more c d r)
  consider "c = CHR 0xC4" "d = CHR 0xB1" | "c = CHR 0xC5" "d = CHR 0xBF" | "\<not> two_bytes (c # d # r)"
    by (auto simp: two_bytes_def)
  then show ?case
  proof cases
    case 3
    then have up: "upper_runes (c # d # r) = upper_byte c # upper_runes (d # r)" by (auto simp: two_bytes_def)
    have "norm_runes (upper_runes (d # r)) = Some m \<longleftrightarrow> reads_as m (d # r)" for m
      using 3 by (intro more(3)) (auto simp: two_bytes_def)
    then show ?thesis unfolding up norm_rune reads_as_byte[OF 3] by simp
  next
    case 1
    then show ?thesis using more.IH(1) by (simp add: norm_I reads_as_two_bytes del: norm_runes.simps)
  next
    case 2
    then show ?thesis using more.IH(2) by (simp add: norm_S reads_as_two_bytes del: norm_runes.simps)
  qed
next
  case (one v)
  have "\<not> two_bytes [v]" by (simp add: two_bytes_def)
  from reads_as_byte[OF this, of n] show ?case by (auto simp: norm_rune simp del: norm_runes.simps(2))
qed auto

lemma Normalize_reads: "NormalizeCode t = Some n \<longleftrightarrow> length n = CodeLength \<and> reads_as n t"
  by (auto simp: NormalizeCode_def norm_reads[symmetric] split: option.splits)

lemma reads_self: "set n \<subseteq> set approval_alphabet \<Longrightarrow> reads_as n n"
  using alphabet_facts(1) by (induction n) (auto simp: looks_like_def list_all_iff intro: nothing char)

lemma reads_app: "reads_as n t \<Longrightarrow> reads_as m u \<Longrightarrow> reads_as (n @ m) (t @ u)"
  by (induction n t rule: reads_as.induct) (auto intro: skip char dotless_i long_s)

lemma nth_inj: "i < 32 \<Longrightarrow> j < 32 \<Longrightarrow> approval_alphabet ! i = approval_alphabet ! j \<longleftrightarrow> i = j"
  using alphabet_facts(2,3) by (simp add: nth_eq_iff_index_eq)

lemma code_digits:
  "set (map (\<lambda>d. approval_alphabet ! d) (digits 32 k v)) \<subseteq> set approval_alphabet"
  using digits_less[of 32 _ k v] alphabet_facts(3) by auto

lemma codes_differ:
  assumes "map (\<lambda>d. approval_alphabet ! d) (digits 32 8 v) = map (\<lambda>d. approval_alphabet ! d) (digits 32 8 v')" "v < 2 ^ 40" "v' < 2 ^ 40"
  shows "v = v'"
proof -
  have "inj_on (\<lambda>d. approval_alphabet ! d) (set (digits 32 8 v) \<union> set (digits 32 8 v'))"
    using digits_less[of 32 _ 8] nth_inj by (auto simp: inj_on_def)
  with assms(1) have "digits 32 8 v = digits 32 8 v'" by (simp add: inj_on_map_eq_map)
  then have "number 32 (digits 32 8 v) = number 32 (digits 32 8 v')" by simp
  then show ?thesis using assms(2,3) by (simp add: number_digits)
qed

lemma bytes_differ: "number 256 (map of_char b) = number 256 (map of_char b') \<Longrightarrow> length b = length b' \<Longrightarrow> b = b'"
proof -
  assume eq: "number 256 (map of_char b :: nat list) = number 256 (map of_char b')" and len: "length b = length b'"
  have bytes: "\<forall>d \<in> set (map of_char b :: nat list). d < 256" for b :: string by (auto simp: of_char_def) 
  have "digits 256 (length b) (number 256 (map of_char b)) = map of_char b" for b :: string using digits_number[OF bytes[of b]] by simp
  with eq len have "map of_char b = (map of_char b' :: nat list)" by metis
  then show "b = b'" by (simp add: inj_map_eq_map inj_on_def)
qed

text \<open>
  C36. An approval code is eight characters that stand for its forty random bits, no two codes alike, and what a person may type for it is exactly what
  reads as those characters: in either case, with blanks, dashes or underscores anywhere, with \<open>O\<close>, \<open>I\<close> or \<open>L\<close> for the digit they look like, and
  with the dotless i or the long s, whose upper case is an ASCII letter, for that letter; any other text, of any bytes, is not taken for the code.
\<close>

theorem approval_code_typed:
  assumes "NewCode (Some b) = Some code" "length b = 5"
  shows "\<exists>n. length n = 8 \<and> code = take 4 n @ ''-'' @ drop 4 n \<and> NormalizeCode code = Some n
    \<and> (\<forall>t. NormalizeCode t = Some n \<longleftrightarrow> reads_as n t)
    \<and> (\<forall>b'. length b' = 5 \<longrightarrow> NewCode (Some b') = Some code \<longrightarrow> b' = b)"
proof -
  define word where "word b = map (\<lambda>d. approval_alphabet ! d) (digits 32 8 (number 256 (map of_char b)))" for b :: string
  have len: "length (word b) = 8" and mem: "set (word b) \<subseteq> set approval_alphabet" for b using code_digits by (auto simp: word_def)
  have new: "NewCode (Some b) = Some (take 4 (word b) @ ''-'' @ drop 4 (word b))" for b
    by (simp add: NewCode_def FormatCode_def CodeLength_def word_def)
  have code: "code = take 4 (word b) @ ''-'' @ drop 4 (word b)" using assms(1) new by simp
  have parts: "reads_as (take 4 (word b)) (take 4 (word b))" "reads_as (drop 4 (word b)) (drop 4 (word b))"
    using mem[of b] by (auto intro!: reads_self dest: in_set_takeD in_set_dropD)
  have "reads_as (drop 4 (word b)) (''-'' @ drop 4 (word b))" using parts(2) by (simp add: skip separator_def)
  then have "reads_as (word b) code" unfolding code using reads_app[OF parts(1)] by fastforce
  then have "NormalizeCode code = Some (word b)" using len by (simp add: Normalize_reads CodeLength_def)
  moreover have "b' = b" if "length b' = 5" "NewCode (Some b') = Some code" for b'
  proof -
    have "word b' = word b"
    proof -
      have "take 4 (word b') @ ''-'' @ drop 4 (word b') = take 4 (word b) @ ''-'' @ drop 4 (word b)" using that(2) new[of b'] code by simp
      then have "take 4 (word b') = take 4 (word b) \<and> drop 4 (word b') = drop 4 (word b)" using len by (simp add: append_eq_append_conv)
      then show ?thesis by (metis append_take_drop_id)
    qed
    moreover have "number 256 (map of_char b :: nat list) < 2 ^ 40" if "length b = 5" for b :: string
      using number_less[of "map of_char b" 256] that by (auto simp: of_char_def)
    ultimately have "number 256 (map of_char b' :: nat list) = number 256 (map of_char b)"
      using codes_differ that(1) assms(2) unfolding word_def by blast
    then show ?thesis using bytes_differ that(1) assms(2) by simp
  qed
  ultimately show ?thesis using len code by (intro exI[of _ "word b"]) (auto simp: Normalize_reads CodeLength_def)
qed

lemma demo_code: "NewCode (Some ''hello'') = Some ''D1JP-RV3F''"
proof -
  have "rev [0..<8] = [7, 6, 5, 4, 3, 2, 1, 0 :: nat]" by (simp add: upt_rec)
  then show ?thesis by (simp add: NewCode_def FormatCode_def CodeLength_def number_def digits_def approval_alphabet_def)
qed

theorem approval_code_typed_witness:
  "\<exists>n. length n = 8 \<and> NormalizeCode ''D1JP-RV3F'' = Some n \<and> NormalizeCode ''d ijp_rv3f'' = Some ''D1JPRV3F''"
proof -
  have "NormalizeCode ''d ijp_rv3f'' = Some ''D1JPRV3F''" by code_simp
  moreover have "length ''hello'' = 5" by simp
  ultimately show ?thesis using approval_code_typed[OF demo_code] by blast
qed

end
