(* ===== verification/Enrol.thy ===== *)
theory Enrol
  imports EnrolStore Approval Limiter SignIn
begin

text \<open>
  The life of an agent's identity (\<open>agents/enroll.go\<close>, \<open>agents/agent_lifecycle.go\<close>, the identity check of \<open>agents/grpc.go\<close>): the token that enrols
  it, polling, the approval by a person who types its code, rejecting and revoking, the certificate it renews, and the rejoin of one whose
  certificate lapsed. The service is the Core of an organisation, \<open>g\<close>, or the platform's, with \<open>g = []\<close>.

  SHA-256, argon2, the reading of certificate requests, \<open>%q\<close>, the text of a time and of a duration and the grouping of addresses by network are
  parameters (\<open>enrol_env\<close>). What a call gets from outside is \<open>enrol_io\<close>: which statements fail, the time, the caller's address, random bytes, and
  whether a certificate could be signed.
\<close>

subsection \<open>The service\<close>

record enrol_env =
  en_w :: code_world
  en_limit_key :: "string \<Rightarrow> string"
  en_quote :: "string \<Rightarrow> string"
  en_rfc :: "time \<Rightarrow> string"
  en_dur :: "duration \<Rightarrow> string"
  en_ca :: string
  en_ca_valid :: "time \<Rightarrow> bool"
  en_require :: bool
  en_ttl :: duration
  en_poll_after :: duration
  en_on_revoke :: bool

record enrol_io =
  ei_fails :: "enrol_query \<Rightarrow> bool"
  ei_now :: time
  ei_ip :: string
  ei_id :: string
  ei_rnd :: "string option"
  ei_sign :: bool

record enrol_event =
  ee_At :: time
  ee_Kind :: string
  ee_TargetKind :: string
  ee_TargetID :: string
  ee_Name :: string
  ee_ClusterName :: string
  ee_Detail :: string
  ee_Cause :: string
  ee_Severity :: string

datatype told = ToGraph string string | EndedIntents string | DroppedStream string

record enrol_st =
  es_db :: enrol_db
  es_enrollRL :: limiter
  es_renewRL :: "limiter option"
  es_audit :: "audit_event list"
  es_events :: "(string \<times> enrol_event) list"
  es_told :: "told list"

datatype wrong_code = NotACode | TooManyCodes | NotTheCode | LastAttempt

datatype tier_error = ENotChangeable string | EBelowZero | EForbidden | ENotAvailable int | EOverInstall int | EOverToken int int

datatype caller_error = ENoCert | ENotClientCert | ENotAgentCert | ETwoNames | EGone string | EOtherOrg

datatype token_error = EBadExpected | EBadLabel | EBadTier | ENoSuchToken

datatype request_error = EBadFingerprint | EVersionTooLong | EBadHash | ETierRange | EOtherCluster | EOtherCode

datatype enrol_error = ERateLimited | EBadToken | ERequest request_error | EPki pki_error | ENoRandom | EStore store_error | EWrongSecret | ENoSuchAgent
  | EExpired | ENotPending string | EChanged | EWrongCode wrong_code int bool | ETierAbove int int int | EClusterTaken | EAuditNotWritten
  | EOnlyPending | ENotActive | ENotApproved | ECannotRejoin | OfToken token_error | OfTier tier_error | OfCaller caller_error

type_synonym 'a enrol_reply = "(enrol_error + 'a) \<times> enrol_st"

definition TokenTTL :: duration where "TokenTTL = hour"
definition PollIntervalSecond :: int where "PollIntervalSecond = 3"
definition MaxApprovalAttempts :: nat where "MaxApprovalAttempts = 5"
definition DefaultPendingTTL :: duration where "DefaultPendingTTL = 24 * hour"
definition ExpiredKeep :: duration where "ExpiredKeep = 7 * 24 * hour"

definition EffectivePendingTTL :: "enrol_env \<Rightarrow> duration" where
  "EffectivePendingTTL env = (if 0 < en_ttl env then en_ttl env else DefaultPendingTTL)"

definition pollAfter :: "enrol_env \<Rightarrow> int" where
  "pollAfter env = (if 0 < en_poll_after env then max (en_poll_after env div second) 1 else PollIntervalSecond)"

abbreviation esha :: "enrol_env \<Rightarrow> string \<Rightarrow> string" where "esha env \<equiv> cw_sha (en_w env)"

subsection \<open>Shapes\<close>

definition tokenPrefix :: string where "tokenPrefix = ''ikh_''"

definition LooksLikeToken :: "string \<Rightarrow> bool" where
  "LooksLikeToken s = (prefix tokenPrefix s \<and> length s = length tokenPrefix + 43 \<and> decode64 (drop (length tokenPrefix) s) \<noteq> None)"

definition lower_hex_byte :: "char \<Rightarrow> bool" where
  "lower_hex_byte c = (let n = of_char c :: nat in 48 \<le> n \<and> n \<le> 57 \<or> 97 \<le> n \<and> n \<le> 102)"

definition FingerprintRe :: "string \<Rightarrow> bool" where
  "FingerprintRe s = (length s = 36 \<and> list_all (\<lambda>(i, c). if i \<in> {8, 13, 18, 23} then c = CHR ''-'' else lower_hex_byte c) (enumerate 0 s))"

definition ShortFP :: "string \<Rightarrow> string" where "ShortFP fp = Cut fp 8"

definition ClusterIDFor :: "enrol_env \<Rightarrow> string \<Rightarrow> string \<Rightarrow> string" where
  "ClusterIDFor env g fp = ''cl-'' @ hex (take 5 (esha env (g @ [CHR 0x00] @ fp)))"

definition ParseCSR :: "enrol_env \<Rightarrow> string \<Rightarrow> pki_error + string" where
  "ParseCSR env der = (if der = [] \<or> length der > 4096 then Inl BadSize
     else case cw_csr (en_w env) der of None \<Rightarrow> Inl MalformedRequest
     | Some c \<Rightarrow> if \<not> cs_SigOk c then Inl BadRequestSignature else if \<not> cs_P256 c then Inl NotP256
       else (case cs_Pub c of None \<Rightarrow> Inl NotP256 | Some k \<Rightarrow> Inr k))"

definition agentActor :: "string \<Rightarrow> string" where "agentActor i = ''agent:'' @ i"

subsection \<open>Recording\<close>

definition AuditE :: "enrol_io \<Rightarrow> string \<Rightarrow> string \<Rightarrow> string \<Rightarrow> string \<Rightarrow> string \<Rightarrow> string \<Rightarrow> enrol_st \<Rightarrow> enrol_st" where
  "AuditE io g actor action kind i detail st =
     (if ei_fails io XAudit then st else st\<lparr>es_audit := es_audit st @ [AuditRow (ei_now io) g actor action kind i detail]\<rparr>)"

text \<open>A write that carries its own audit row, and \<open>AuditedWrite\<close>.\<close>

definition write_audited :: "enrol_io \<Rightarrow> audit_event \<Rightarrow> (store_error \<Rightarrow> enrol_error) \<Rightarrow> store_error + enrol_db \<Rightarrow> enrol_st \<Rightarrow> unit enrol_reply" where
  "write_audited io row err r st = (case r of Inl e \<Rightarrow> (Inl (err e), st)
     | Inr d \<Rightarrow> if ei_fails io XAudit then (Inl EAuditNotWritten, st) else (Inr (), st\<lparr>es_db := d, es_audit := es_audit st @ [row]\<rparr>))"

definition AgentInOrg :: "enrol_io \<Rightarrow> string \<Rightarrow> string \<Rightarrow> enrol_st \<Rightarrow> enrol_error + agent_row" where
  "AgentInOrg io g i st = (case GetAgent (ei_fails io) g i (es_db st) of
     Inl e \<Rightarrow> Inl (if e = StNotFound then ENoSuchAgent else EStore e) | Inr a \<Rightarrow> Inr a)"

definition RecordAgentGraph :: "enrol_io \<Rightarrow> string \<Rightarrow> string \<Rightarrow> string \<Rightarrow> enrol_st \<Rightarrow> enrol_st" where
  "RecordAgentGraph io g i kind st = (case AgentInOrg io g i st of Inl _ \<Rightarrow> st | Inr a \<Rightarrow> st\<lparr>es_told := es_told st @ [ToGraph (ag_ID a) kind]\<rparr>)"

subsection \<open>Expiry\<close>

definition note_expired :: "enrol_env \<Rightarrow> enrol_io \<Rightarrow> string \<Rightarrow> agent_row \<Rightarrow> enrol_st \<Rightarrow> enrol_st" where
  "note_expired env io g a st =
     (let ttl = en_dur env (EffectivePendingTTL env);
        st = AuditE io g ''system'' ''agent-enrollment-expired'' ''agent'' (ag_ID a) (en_quote env (ag_Name a) @ '' waited '' @ ttl
          @ '' for approval and expired. The agent enrolls again on its own and shows a new approval code'') st
      in if ei_fails io XAddEvents then st else st\<lparr>es_events := es_events st @ [(g, \<lparr>ee_At = ei_now io, ee_Kind = ''enrollment-expired'',
          ee_TargetKind = ''agent'', ee_TargetID = ag_ID a, ee_Name = ag_Name a, ee_ClusterName = ag_Name a,
          ee_Detail = ''The request from '' @ ag_Name a @ '' was not approved within '' @ ttl
            @ '' and was removed. The agent asks again by itself; look at its log for the new approval code.'',
          ee_Cause = ''nobody approved it in time'', ee_Severity = ''notice''\<rparr>)]\<rparr>)"

definition ExpirePending :: "enrol_env \<Rightarrow> enrol_io \<Rightarrow> string \<Rightarrow> enrol_st \<Rightarrow> nat \<times> enrol_st" where
  "ExpirePending env io g st = (case ExpirePendingRows (ei_fails io) g (ei_now io - EffectivePendingTTL env) (es_db st) of
     Inl _ \<Rightarrow> (0, st)
   | Inr (expired, d) \<Rightarrow>
       (let st = fold (note_expired env io g) expired (st\<lparr>es_db := d\<rparr>)
        in (length expired, case PurgeExpiredRows (ei_fails io) g (ei_now io - ExpiredKeep) (es_db st) of Inl _ \<Rightarrow> st | Inr (n, d) \<Rightarrow> st\<lparr>es_db := d\<rparr>)))"

definition waited_too_long :: "enrol_env \<Rightarrow> enrol_io \<Rightarrow> agent_row \<Rightarrow> bool" where
  "waited_too_long env io a = (ag_Status a = StatusPending
     \<and> (case ag_CreatedAt a of None \<Rightarrow> True | Some t \<Rightarrow> ei_now io - t > EffectivePendingTTL env))"


subsection \<open>Enrolling\<close>

record enrol_request =
  rq_Token :: string
  rq_Fingerprint :: string
  rq_CSR :: string
  rq_Version :: string
  rq_K8s :: string
  rq_CodeHash :: string
  rq_Tier :: int

record enrol_answer =
  an_AgentID :: string
  an_PollSecret :: string
  an_Interval :: int
  an_ServerTime :: int
  an_PendingTTL :: int

definition enrollResponse :: "enrol_env \<Rightarrow> enrol_io \<Rightarrow> string \<Rightarrow> string \<Rightarrow> enrol_answer" where
  "enrollResponse env io i secret = \<lparr>an_AgentID = i, an_PollSecret = secret, an_Interval = PollIntervalSecond,
     an_ServerTime = ei_now io div second, an_PendingTTL = EffectivePendingTTL env div second\<rparr>"

text \<open>What \<open>Enroll\<close> asks the store to insert; the store fills in the rest from the token.\<close>

definition fresh_agent :: "enrol_env \<Rightarrow> enrol_io \<Rightarrow> enrol_request \<Rightarrow> int \<Rightarrow> string \<Rightarrow> agent_row" where
  "fresh_agent env io req tier secret = \<lparr>ag_ID = ''ag-'' @ hex (ei_id io), ag_Name = [], ag_Status = [], ag_InstalledTier = tier, ag_TierCap = 0,
     ag_AccessTier = 0, ag_ClusterID = [], ag_Version = Printable (rq_Version req) 40, ag_K8sVersion = Printable (rq_K8s req) 40, ag_CreatedAt = None,
     ag_ApprovedAt = None, ag_ApprovedBy = [], ag_RevokedAt = None, ag_Reason = [], ag_LastSeen = None, ea_OrgID = [],
     ea_Fingerprint = rq_Fingerprint req, ea_CSR = rq_CSR req, ea_PollSecretHash = Some (esha env secret), ea_TokenID = [], ea_ConnectingIP = ei_ip io,
     ea_Leaf = None, ea_LeafNotAfter = None, ea_ApprovalHash = (if rq_CodeHash req = [] then None else Some (rq_CodeHash req)),
     ea_ApprovalAttempts = 0, ea_ClockSkewMs = 0\<rparr>"

definition same_enrolment :: "enrol_env \<Rightarrow> agent_row \<Rightarrow> enrol_request \<Rightarrow> bool" where
  "same_enrolment env prev req \<longleftrightarrow> KeyID (en_w env) (ea_CSR prev) \<noteq> None
     \<and> KeyID (en_w env) (ea_CSR prev) = KeyID (en_w env) (rq_CSR req) \<and> ea_Fingerprint prev = rq_Fingerprint req"

text \<open>\<open>resumeEnrollment\<close>; \<open>Inr None\<close>: the request is not a retry.\<close>

definition resume_store :: "enrol_env \<Rightarrow> enrol_io \<Rightarrow> enrol_request \<Rightarrow> agent_row \<Rightarrow> string \<Rightarrow> bool \<Rightarrow> enrol_st \<Rightarrow> enrol_answer option enrol_reply" where
  "resume_store env io req prev secret reopen st =
     (let r = \<lparr>rs_PollSecretHash = esha env secret, rs_ApprovalHash = (if rq_CodeHash req = [] then None else Some (rq_CodeHash req)), rs_CSR = rq_CSR req,
           rs_Version = Printable (rq_Version req) 40, rs_K8sVersion = Printable (rq_K8s req) 40, rs_IP = ei_ip io\<rparr>
      in case ResumeRow (ei_fails io) (ea_OrgID prev) (ag_ID prev) r reopen (ei_now io) (es_db st) of
           Inl e \<Rightarrow> (if e = StBadState then Inr None else Inl (EStore e), st)
         | Inr d \<Rightarrow> (Inr (Some (enrollResponse env io (ag_ID prev) secret)),
             AuditE io (ea_OrgID prev) (agentActor (ag_ID prev)) (if reopen then ''agent-enrollment-reopened'' else ''agent-enrollment-retried'') ''agent''
               (ag_ID prev) (en_quote env (ag_Name prev) @ '' from '' @ ei_ip io @
                  (if reopen then '' enrolled again after its request expired; it is waiting for approval with a new code''
                   else '' repeated its enrollment (same token and key): continuing the same agent'')) (st\<lparr>es_db := d\<rparr>)))"

definition resumeEnrollment :: "enrol_env \<Rightarrow> enrol_io \<Rightarrow> enrol_request \<Rightarrow> string \<Rightarrow> enrol_st \<Rightarrow> enrol_answer option enrol_reply" where
  "resumeEnrollment env io req secret st =
     (case AgentByToken (ei_fails io) (esha env (rq_Token req)) (es_db st) of
        Inl e \<Rightarrow> (if e = StNotFound then Inr None else Inl (EStore e), st)
      | Inr prev \<Rightarrow>
        if \<not> same_enrolment env prev req then (Inr None, st)
        else if ag_Status prev = StatusPending \<or> ag_Status prev = StatusApproved then
          (if ea_ApprovalHash prev \<noteq> Some (rq_CodeHash req) then (Inl (ERequest EOtherCode), st)
           else if waited_too_long env io prev then resume_store env io req prev secret True (snd (ExpirePending env io (ea_OrgID prev) st))
           else resume_store env io req prev secret False st)
        else if ag_Status prev = StatusExpired then resume_store env io req prev secret True st
        else (Inr None, st))"

text \<open>The part of \<open>Enroll\<close> from the token on.\<close>

definition enroll_store :: "enrol_env \<Rightarrow> enrol_io \<Rightarrow> enrol_request \<Rightarrow> int \<Rightarrow> string \<Rightarrow> enrol_st \<Rightarrow> enrol_answer enrol_reply" where
  "enroll_store env io req tier secret st =
     (let a = fresh_agent env io req tier secret
      in case EnrollAgent (ei_fails io) (esha env (rq_Token req)) a (ei_now io) (es_db st) of
        Inl (StWrongCluster tok) \<Rightarrow> (Inl (ERequest EOtherCluster), AuditE io (tn_OrgID tok) (agentActor ''unenrolled'') ''enrollment-refused'' ''token'' (tn_ID tok)
          (en_quote env (tn_Label tok) @ '': the token is for cluster '' @ ShortFP (tn_ExpectedFingerprint tok) @ '' but the agent reported cluster ''
            @ ShortFP (rq_Fingerprint req) @ '' (from '' @ ei_ip io @ '')'') st)
      | Inl StTokenInvalid \<Rightarrow> (case resumeEnrollment env io req secret st of
          (Inl e, st) \<Rightarrow> (Inl e, st) | (Inr (Some ans), st) \<Rightarrow> (Inr ans, st) | (Inr None, st) \<Rightarrow> (Inl EBadToken, st))
      | Inl e \<Rightarrow> (Inl (EStore e), st)
      | Inr (tok, d) \<Rightarrow> (Inr (enrollResponse env io (ag_ID a) secret),
          AuditE io (tn_OrgID tok) (agentActor (ag_ID a)) ''agent-enrolled'' ''agent'' (ag_ID a)
            (en_quote env (tn_Label tok) @ '' from '' @ ei_ip io @ '' waiting for approval (installed tier '' @ show_nat (nat tier) @ '', cluster ''
              @ ShortFP (rq_Fingerprint req) @ '')'') (st\<lparr>es_db := d\<rparr>)))"

definition Enroll :: "enrol_env \<Rightarrow> enrol_io \<Rightarrow> enrol_request \<Rightarrow> enrol_st \<Rightarrow> enrol_answer enrol_reply" where
  "Enroll env io req st =
     (case Allow (''enroll:'' @ en_limit_key env (ei_ip io)) (ei_now io) (es_enrollRL st) of (ok, l) \<Rightarrow>
      let st = st\<lparr>es_enrollRL := l\<rparr> in
      if \<not> ok then (Inl ERateLimited, st) else if \<not> LooksLikeToken (rq_Token req) then (Inl EBadToken, st) else
      if \<not> FingerprintRe (rq_Fingerprint req) then (Inl (ERequest EBadFingerprint), st) else
      case ParseCSR env (rq_CSR req) of Inl e \<Rightarrow> (Inl (EPki e), st) | Inr key \<Rightarrow>
      if length (rq_Version req) > 64 \<or> length (rq_K8s req) > 64 then (Inl (ERequest EVersionTooLong), st) else
      if length (rq_CodeHash req) \<noteq> HashLen then (Inl (ERequest EBadHash), st) else
      case ReportedTier (rq_Tier req) of (tier, inRange) \<Rightarrow>
      if \<not> inRange then (Inl (ERequest ETierRange), st) else
      case ei_rnd io of None \<Rightarrow> (Inl ENoRandom, st) | Some rnd \<Rightarrow> enroll_store env io req tier (encode64 rnd) st)"

subsection \<open>Polling\<close>

datatype poll_state = PollApproved "cert option" "time option" | PollRejected string | PollExpired string | PollPending int

definition poll_state_of :: "enrol_env \<Rightarrow> agent_row \<Rightarrow> poll_state" where
  "poll_state_of env a =
     (if ag_Status a = StatusApproved then PollApproved (ea_Leaf a) (ea_LeafNotAfter a)
      else if ag_Status a = StatusRejected \<or> ag_Status a = StatusRevoked then PollRejected (ag_Reason a)
      else if ag_Status a = StatusExpired then PollExpired (ag_Reason a) else PollPending (pollAfter env))"

definition Poll :: "enrol_env \<Rightarrow> enrol_io \<Rightarrow> string \<Rightarrow> string \<Rightarrow> enrol_st \<Rightarrow> poll_state enrol_reply" where
  "Poll env io i secret st =
     (case Allow (''poll:'' @ en_limit_key env (ei_ip io)) (ei_now io) (es_enrollRL st) of (ok, l) \<Rightarrow>
      let st = st\<lparr>es_enrollRL := l\<rparr> in
      if \<not> ok then (Inl ERateLimited, st) else
      case FindAgent (ei_fails io) i (es_db st) of Inl e \<Rightarrow> (Inl EWrongSecret, st) | Inr a \<Rightarrow>
      if ea_PollSecretHash a \<noteq> Some (esha env secret) \<or> ea_PollSecretHash a = Some [] then (Inl EWrongSecret, st) else
      if waited_too_long env io a then
        (let st = snd (ExpirePending env io (ea_OrgID a) st)
         in case GetAgent (ei_fails io) (ea_OrgID a) i (es_db st) of Inl e \<Rightarrow> (Inl EWrongSecret, st) | Inr a \<Rightarrow> (Inr (poll_state_of env a), st))
      else (Inr (poll_state_of env a), st))"


subsection \<open>Tokens\<close>

definition NewTokenSecret :: "string option \<Rightarrow> string option" where
  "NewTokenSecret rnd = map_option (\<lambda>b. tokenPrefix @ encode64 b) rnd"

definition CreateTokenFor :: "enrol_env \<Rightarrow> enrol_io \<Rightarrow> string \<Rightarrow> string \<Rightarrow> string \<Rightarrow> int \<Rightarrow> string \<Rightarrow> enrol_st \<Rightarrow> (string \<times> token_row) enrol_reply" where
  "CreateTokenFor env io g actor label tier expected st =
     (let expected = to_lower (trim_space expected) in
      if expected \<noteq> [] \<and> \<not> FingerprintRe expected then (Inl (OfToken EBadExpected), st) else
      let label = trim_space label in
      if label = [] \<or> length label > 80 then (Inl (OfToken EBadLabel), st) else
      if \<not> GrantableTier tier then (Inl (OfToken EBadTier), st) else
      case NewTokenSecret (ei_rnd io) of None \<Rightarrow> (Inl ENoRandom, st) | Some secret \<Rightarrow>
      let t = \<lparr>tn_ID = ''tk-'' @ hex (ei_id io), tn_OrgID = g, tn_Hash = esha env secret, tn_Label = label, tn_AccessTier = tier, tn_CreatedBy = actor,
            tn_CreatedAt = ei_now io, tn_ExpiresAt = ei_now io + TokenTTL, tn_UsedAt = None, tn_UsedBy = [], tn_ExpectedFingerprint = expected\<rparr>;
          detail = ''for '' @ en_quote env label @ '', up to tier '' @ show_nat (nat tier)
            @ (if expected \<noteq> [] then '', only for cluster '' @ ShortFP expected else [])
      in case write_audited io (AuditRow (ei_now io) g actor ''token-created'' ''token'' (tn_ID t) detail) EStore
            (CreateTokenRow (ei_fails io) t (es_db st)) st of
          (Inl e, st) \<Rightarrow> (Inl e, st) | (Inr _, st) \<Rightarrow> (Inr (secret, t), st))"

definition DeleteToken :: "enrol_io \<Rightarrow> string \<Rightarrow> string \<Rightarrow> string \<Rightarrow> enrol_st \<Rightarrow> unit enrol_reply" where
  "DeleteToken io g actor i st = write_audited io (AuditRow (ei_now io) g actor ''token-deleted'' ''token'' i [])
     (\<lambda>e. if e = StNotFound then OfToken ENoSuchToken else EStore e) (DeleteTokenRow (ei_fails io) g i (es_db st)) st"

subsection \<open>Approving\<close>

text \<open>
  \<open>Approve\<close> is three transactions on the store, and calls that overlap take turns between them: it reads the agent and the code that was typed, it
  counts the attempt, and it compares and decides.
\<close>

definition approve_look :: "enrol_env \<Rightarrow> enrol_io \<Rightarrow> string \<Rightarrow> string \<Rightarrow> string \<Rightarrow> enrol_st \<Rightarrow> (agent_row \<times> string) enrol_reply" where
  "approve_look env io g i proof st =
     (case AgentInOrg io g i st of Inl e \<Rightarrow> (Inl e, st) | Inr a \<Rightarrow>
      let late = waited_too_long env io a;
          st = (if late then snd (ExpirePending env io g st) else st);
          status = (if late then StatusExpired else ag_Status a)
      in if status = StatusExpired then (Inl EExpired, st) else if status \<noteq> StatusPending then (Inl (ENotPending status), st) else
      case NormalizeCode proof of
        None \<Rightarrow> (Inl (EWrongCode NotACode (max (int MaxApprovalAttempts - int (ea_ApprovalAttempts a)) 0) False), st)
      | Some typed \<Rightarrow> (Inr (a, typed), st))"

definition approve_count :: "enrol_io \<Rightarrow> agent_row \<Rightarrow> enrol_st \<Rightarrow> nat enrol_reply" where
  "approve_count io a st =
     (case CountApprovalAttempt (ei_fails io) (ea_OrgID a) (ag_ID a) (es_db st) of
        Inl e \<Rightarrow> (Inl (if e = StBadState then EChanged else EStore e), st)
      | Inr (n, d) \<Rightarrow> (let st = st\<lparr>es_db := d\<rparr>
          in if n > MaxApprovalAttempts then (Inl (EWrongCode TooManyCodes 0 True), st) else (Inr n, st)))"

definition refuse_code :: "enrol_env \<Rightarrow> enrol_io \<Rightarrow> string \<Rightarrow> string \<Rightarrow> agent_row \<Rightarrow> nat \<Rightarrow> enrol_st \<Rightarrow> unit enrol_reply" where
  "refuse_code env io g actor a n st =
     (let left = int MaxApprovalAttempts - int n in
      if left > 0 then (Inl (EWrongCode NotTheCode left False), AuditE io g actor ''approval-refused'' ''agent'' (ag_ID a)
        (''wrong approval code (attempt '' @ show_nat n @ '' of '' @ show_nat MaxApprovalAttempts @ '')'') st)
      else (Inl (EWrongCode LastAttempt 0 True), snd (write_audited io (AuditRow (ei_now io) g actor ''approval-locked'' ''agent'' (ag_ID a)
          (show_nat n @ '' wrong approval codes in a row: the request is rejected'')) EStore
          (RejectRow (ei_fails io) (ea_OrgID a) (ag_ID a) ''too many wrong approval codes'' (ei_now io) (es_db st)) st)))"

definition approve_decide :: "enrol_env \<Rightarrow> enrol_io \<Rightarrow> string \<Rightarrow> string \<Rightarrow> int \<Rightarrow> agent_row \<Rightarrow> string \<Rightarrow> nat \<Rightarrow> enrol_st \<Rightarrow> unit enrol_reply" where
  "approve_decide env io g actor tier a typed n st =
     (if \<not> MatchesCode (en_w env) typed (ea_CSR a) (ea_ApprovalHash a) then refuse_code env io g actor a n st else
      if CheckTier tier (ag_InstalledTier a) (ag_TierCap a) \<noteq> TierAllowed then (Inl (ETierAbove tier (ag_InstalledTier a) (ag_TierCap a)), st) else
      case ParseCSR env (ea_CSR a) of Inl e \<Rightarrow> (Inl (EPki e), st) | Inr key \<Rightarrow>
      case IssueAgent (ei_sign io) (en_ca env) key (ag_ID a) g AgentCertTTL (ei_now io) of Inl e \<Rightarrow> (Inl (EPki e), st) | Inr (leaf, notAfter) \<Rightarrow>
      case write_audited io (AuditRow (ei_now io) g actor ''agent-approved'' ''agent'' (ag_ID a)
             (en_quote env (ag_Name a) @ '' at tier '' @ show_nat (nat tier) @ '' (approval code confirmed)''))
           (\<lambda>e. if e = StClusterEnrolled then EClusterTaken else if e = StBadState then EChanged else EStore e)
           (ApproveRow (ei_fails io) (ea_OrgID a) (ag_ID a) tier actor (ClusterIDFor env g (ea_Fingerprint a)) leaf notAfter (ei_now io) (es_db st)) st of
        (Inl e, st) \<Rightarrow> (Inl e, st) | (Inr _, st) \<Rightarrow> (Inr (), RecordAgentGraph io g (ag_ID a) ''agent-approved'' st))"

definition Approve :: "enrol_env \<Rightarrow> enrol_io \<Rightarrow> string \<Rightarrow> string \<Rightarrow> string \<Rightarrow> string \<Rightarrow> int \<Rightarrow> enrol_st \<Rightarrow> unit enrol_reply" where
  "Approve env io g actor i proof tier st =
     (case approve_look env io g i proof st of (Inl e, st) \<Rightarrow> (Inl e, st) | (Inr (a, typed), st) \<Rightarrow>
      case approve_count io a st of (Inl e, st) \<Rightarrow> (Inl e, st) | (Inr n, st) \<Rightarrow> approve_decide env io g actor tier a typed n st)"

subsection \<open>Rejecting and revoking\<close>

definition MaxReason :: nat where "MaxReason = 200"

definition Reject :: "enrol_env \<Rightarrow> enrol_io \<Rightarrow> string \<Rightarrow> string \<Rightarrow> string \<Rightarrow> string \<Rightarrow> enrol_st \<Rightarrow> unit enrol_reply" where
  "Reject env io g actor i reason st =
     (case AgentInOrg io g i st of Inl e \<Rightarrow> (Inl e, st) | Inr _ \<Rightarrow>
      let reason = Printable reason MaxReason
      in case write_audited io (AuditRow (ei_now io) g actor ''agent-rejected'' ''agent'' i reason) (\<lambda>e. if e = StBadState then EOnlyPending else EStore e)
          (RejectRow (ei_fails io) g i reason (ei_now io) (es_db st)) st of
        (Inl e, st) \<Rightarrow> (Inl e, st) | (Inr _, st) \<Rightarrow> (Inr (), RecordAgentGraph io g i ''agent-rejected'' st))"

definition Revoke :: "enrol_env \<Rightarrow> enrol_io \<Rightarrow> string \<Rightarrow> string \<Rightarrow> string \<Rightarrow> string \<Rightarrow> enrol_st \<Rightarrow> unit enrol_reply" where
  "Revoke env io g actor i reason st =
     (case AgentInOrg io g i st of Inl e \<Rightarrow> (Inl e, st) | Inr _ \<Rightarrow>
      let reason = Printable reason MaxReason
      in case write_audited io (AuditRow (ei_now io) g actor ''agent-revoked'' ''agent'' i reason) (\<lambda>e. if e = StBadState then ENotActive else EStore e)
          (RevokeRow (ei_fails io) g i reason (ei_now io) (es_db st)) st of
        (Inl e, st) \<Rightarrow> (Inl e, st)
      | (Inr _, st) \<Rightarrow> (let st = RecordAgentGraph io g i ''agent-revoked'' st
          in (Inr (), st\<lparr>es_told := es_told st @ [EndedIntents i] @ (if en_on_revoke env then [DroppedStream i] else [])\<rparr>)))"

subsection \<open>Who calls\<close>

definition AuthorizeAgent :: "enrol_io \<Rightarrow> string \<Rightarrow> string \<Rightarrow> enrol_st \<Rightarrow> enrol_error + agent_row" where
  "AuthorizeAgent io g i st =
     (case (if g = [] then FindAgent (ei_fails io) i (es_db st) else GetAgent (ei_fails io) g i (es_db st)) of
        Inl e \<Rightarrow> Inl ENotApproved | Inr a \<Rightarrow> if ag_Status a \<noteq> StatusApproved then Inl ENotApproved else Inr a)"

definition holdsOrg :: "cert \<Rightarrow> ident option \<Rightarrow> string \<Rightarrow> bool" where
  "holdsOrg leaf stated g = (if ct_Orgs leaf \<noteq> [g] then False else case stated of None \<Rightarrow> True | Some h \<Rightarrow> id_Org h = g)"

text \<open>\<open>leaf\<close> is the certificate whose chain the TLS handshake verified, if there was one.\<close>

definition caller_identity :: "enrol_env \<Rightarrow> enrol_io \<Rightarrow> string \<Rightarrow> cert option \<Rightarrow> enrol_st \<Rightarrow> enrol_error + agent_row" where
  "caller_identity env io g presented st =
     (case presented of None \<Rightarrow> Inl (OfCaller ENoCert) | Some leaf \<Rightarrow>
      if ClientAuth \<notin> set (ct_Usage leaf) then Inl (OfCaller ENotClientCert) else
      case Holder (en_require env) leaf HolderAgent of Inl _ \<Rightarrow> Inl (OfCaller ENotAgentCert) | Inr stated \<Rightarrow>
      if (case stated of None \<Rightarrow> False | Some h \<Rightarrow> id_ID h \<noteq> ct_CN leaf) then Inl (OfCaller ETwoNames) else
      case AuthorizeAgent io g (ct_CN leaf) st of
        Inl e \<Rightarrow> (case FindAgent (ei_fails io) (ct_CN leaf) (es_db st) of
            Inr prev \<Rightarrow> if ag_Status prev = StatusRevoked \<or> ag_Status prev = StatusRejected then Inl (OfCaller (EGone (ag_Reason prev))) else Inl e
          | Inl _ \<Rightarrow> Inl e)
      | Inr a \<Rightarrow> if \<not> holdsOrg leaf stated (ea_OrgID a) then Inl (OfCaller EOtherOrg) else Inr a)"

subsection \<open>Certificates\<close>

definition allow_renew :: "enrol_io \<Rightarrow> string \<Rightarrow> enrol_st \<Rightarrow> bool \<times> enrol_st" where
  "allow_renew io i st = (case es_renewRL st of None \<Rightarrow> (True, st)
     | Some l \<Rightarrow> (case Allow (''renew:'' @ i) (ei_now io) l of (ok, l) \<Rightarrow> (ok, st\<lparr>es_renewRL := Some l\<rparr>)))"

definition Renew :: "enrol_env \<Rightarrow> enrol_io \<Rightarrow> string \<Rightarrow> string \<Rightarrow> string \<Rightarrow> enrol_st \<Rightarrow> (cert \<times> time) enrol_reply" where
  "Renew env io g i csr st =
     (case AuthorizeAgent io g i st of Inl e \<Rightarrow> (Inl e, st) | Inr a \<Rightarrow>
      case allow_renew io i st of (ok, st) \<Rightarrow> if \<not> ok then (Inl ERateLimited, st) else
      case ParseCSR env csr of Inl e \<Rightarrow> (Inl (EPki e), st) | Inr key \<Rightarrow>
      case IssueAgent (ei_sign io) (en_ca env) key i (ea_OrgID a) AgentCertTTL (ei_now io) of Inl e \<Rightarrow> (Inl (EPki e), st) | Inr (leaf, notAfter) \<Rightarrow>
      case SetLeafRow (ei_fails io) (ea_OrgID a) i leaf notAfter (es_db st) of Inl e \<Rightarrow> (Inl (EStore e), st) | Inr d \<Rightarrow>
      (Inr (leaf, notAfter), st\<lparr>es_db := ClearPollSecret (ei_fails io) (ea_OrgID a) i d\<rparr>))"

text \<open>
  \<open>VerifyExpired\<close>: the certificate verifies, one second before its end, under this CA for this use. A certificate with no permitted use is good for
  any.
\<close>

definition VerifyExpired :: "enrol_env \<Rightarrow> ext_usage \<Rightarrow> cert option \<Rightarrow> pki_error + cert" where
  "VerifyExpired env use presented = (case presented of None \<Rightarrow> Inl MalformedCert
     | Some c \<Rightarrow> if ct_SignedBy c \<noteq> en_ca env \<or> \<not> en_ca_valid env (ct_NotAfter c - second) \<or> ct_NotAfter c - second < ct_NotBefore c
           \<or> ct_Usage c \<noteq> [] \<and> use \<notin> set (ct_Usage c) then Inl NotIssuedHere else Inr c)"

definition Rejoin :: "enrol_env \<Rightarrow> enrol_io \<Rightarrow> string \<Rightarrow> cert option \<Rightarrow> string \<Rightarrow> enrol_st \<Rightarrow> (cert \<times> time) enrol_reply" where
  "Rejoin env io g expired csr st =
     (case Allow (''rejoin:'' @ en_limit_key env (ei_ip io)) (ei_now io) (es_enrollRL st) of (ok, l) \<Rightarrow>
      let st = st\<lparr>es_enrollRL := l\<rparr>; deny = Inl ECannotRejoin in
      if \<not> ok then (Inl ERateLimited, st) else
      case VerifyExpired env ClientAuth expired of Inl _ \<Rightarrow> (deny, st) | Inr leaf \<Rightarrow>
      if length (ct_Orgs leaf) \<noteq> 1 \<or> ei_now io < ct_NotBefore leaf \<or> ei_now io - ct_NotAfter leaf > RejoinWindow then (deny, st) else
      case Holder (en_require env) leaf HolderAgent of Inl _ \<Rightarrow> (deny, st) | Inr stated \<Rightarrow>
      if (case stated of None \<Rightarrow> False | Some h \<Rightarrow> id_ID h \<noteq> ct_CN leaf) then (deny, st) else
      case ParseCSR env csr of Inl e \<Rightarrow> (Inl (EPki e), st) | Inr key \<Rightarrow>
      if ct_Key leaf \<noteq> key then (deny, st) else
      let i = ct_CN leaf
      in case AuthorizeAgent io g i st of Inl _ \<Rightarrow> (deny, st) | Inr ag \<Rightarrow>
      if \<not> holdsOrg leaf stated (ea_OrgID ag) then (deny, st) else
      case allow_renew io i st of (ok, st) \<Rightarrow> if \<not> ok then (Inl ERateLimited, st) else
      case IssueAgent (ei_sign io) (en_ca env) key i (ea_OrgID ag) AgentCertTTL (ei_now io) of Inl e \<Rightarrow> (Inl (EPki e), st) | Inr (der, notAfter) \<Rightarrow>
      case SetLeafRow (ei_fails io) (ea_OrgID ag) i der notAfter (es_db st) of Inl e \<Rightarrow> (Inl (EStore e), st) | Inr d \<Rightarrow>
      (Inr (der, notAfter), AuditE io (ea_OrgID ag) (agentActor i) ''agent-rejoined'' ''agent'' i
         (''from '' @ ei_ip io @ '' after its certificate expired at '' @ en_rfc env (ct_NotAfter leaf)) (st\<lparr>es_db := d\<rparr>)))"

subsection \<open>Access tiers\<close>

text \<open>What the hub's \<open>SetAgentTier\<close> and \<open>NoteCeiling\<close> do to the agent's row; what they do to its view is in \<open>Hub\<close>.\<close>

definition TierName :: "int \<Rightarrow> string" where
  "TierName t = (if t = 0 then ''registered only'' else if t = 1 then ''infrastructure'' else if t = 2 then ''services''
     else ''tier '' @ (if t < 0 then CHR ''-'' # show_nat (nat (- t)) else show_nat (nat t)))"

definition change_tier :: "enrol_env \<Rightarrow> enrol_io \<Rightarrow> string \<Rightarrow> string \<Rightarrow> string \<Rightarrow> string \<Rightarrow> int \<Rightarrow> enrol_st \<Rightarrow> agent_row enrol_reply" where
  "change_tier env io g role actor i tier st =
     (case AgentInOrg io g i st of Inl e \<Rightarrow> (Inl e, st) | Inr a \<Rightarrow>
      if ag_Status a \<noteq> StatusApproved then (Inl (OfTier (ENotChangeable (ag_Status a))), st) else
      let verdict = CheckTier tier (ag_InstalledTier a) (ag_TierCap a) in
      if verdict = TierBelowZero then (Inl (OfTier EBelowZero), st) else if tier = ag_AccessTier a then (Inr a, st) else
      if \<not> de_Allowed (Decide role ActChangeAccess \<lparr>re_Role = [], re_Widening = ag_AccessTier a < tier\<rparr>) then (Inl (OfTier EForbidden), st) else
      if verdict = TierNotImplemented then (Inl (OfTier (ENotAvailable tier)), st) else
      if verdict = TierAboveInstall then (Inl (OfTier (EOverInstall (ag_InstalledTier a))), st) else
      if verdict = TierAboveToken then (Inl (OfTier (EOverToken tier (ag_TierCap a))), st) else
      case write_audited io (AuditRow (ei_now io) g actor ''agent-tier-changed'' ''agent'' (ag_ID a)
             (en_quote env (ag_Name a) @ '': access tier '' @ show_nat (nat (ag_AccessTier a)) @ '' ('' @ TierName (ag_AccessTier a) @ '') to ''
               @ show_nat (nat tier) @ '' ('' @ TierName tier @ ''); the agent's install allows up to '' @ show_nat (nat (ag_InstalledTier a))))
           (\<lambda>e. if e = StBadState then EChanged else EStore e) (SetAccessTierRow (ei_fails io) g (ag_ID a) tier (es_db st)) st of
        (Inl e, st) \<Rightarrow> (Inl e, st)
      | (Inr _, st) \<Rightarrow> (Inr (a\<lparr>ag_AccessTier := tier\<rparr>), st\<lparr>es_told := es_told st @ [ToGraph (ag_ID a) ''agent-tier-changed'']\<rparr>))"

text \<open>\<open>fresh\<close> is the agent as the store has it; \<open>says\<close> is \<open>reportsCeiling\<close>. An approved tier above the ceiling follows it down.\<close>

definition lower_access :: "enrol_env \<Rightarrow> enrol_io \<Rightarrow> string \<Rightarrow> agent_row \<Rightarrow> int \<Rightarrow> enrol_st \<Rightarrow> enrol_st" where
  "lower_access env io g fresh ceil st =
     (let i = ag_ID fresh in
      if ag_AccessTier fresh \<le> ceil then st else
      case write_audited io (AuditRow (ei_now io) g (agentActor i) ''agent-tier-changed'' ''agent'' i
             (en_quote env (ag_Name fresh) @ '': access tier '' @ show_nat (nat (ag_AccessTier fresh)) @ '' ('' @ TierName (ag_AccessTier fresh) @ '') to ''
               @ show_nat (nat ceil) @ '' ('' @ TierName ceil @ ''), because the agent's install (Helm access.tier) now allows at most '' @ show_nat (nat ceil)))
           EStore (SetAccessTierRow (ei_fails io) g i ceil (es_db st)) st of
        (Inl _, st) \<Rightarrow> st | (Inr _, st) \<Rightarrow> st\<lparr>es_told := es_told st @ [ToGraph i ''agent-tier-changed'']\<rparr>)"

definition note_ceiling :: "enrol_env \<Rightarrow> enrol_io \<Rightarrow> string \<Rightarrow> agent_row \<Rightarrow> int \<Rightarrow> bool \<Rightarrow> enrol_st \<Rightarrow> enrol_st" where
  "note_ceiling env io g fresh reported says st =
     (if reported \<le> 0 \<and> ag_InstalledTier fresh > 0 \<and> \<not> says then st else
      let ceil = fst (ReportedTier reported); i = ag_ID fresh in
      if ceil = ag_InstalledTier fresh then lower_access env io g fresh ceil st else
      case SetInstalledTierRow (ei_fails io) g i ceil (es_db st) of Inl _ \<Rightarrow> st
      | Inr d \<Rightarrow> (let st = AuditE io g (agentActor i) ''agent-ceiling-changed'' ''agent'' i
             (en_quote env (ag_Name fresh) @ '': the install now allows up to tier '' @ show_nat (nat ceil) @ '' ('' @ TierName ceil @ ''), was ''
               @ show_nat (nat (ag_InstalledTier fresh))) (st\<lparr>es_db := d\<rparr>)
          in lower_access env io g fresh ceil (st\<lparr>es_told := es_told st @ [ToGraph i ''agent-ceiling-changed'']\<rparr>)))"

definition agent_connects :: "enrol_io \<Rightarrow> string \<Rightarrow> string \<Rightarrow> string \<Rightarrow> string \<Rightarrow> enrol_st \<Rightarrow> enrol_st" where
  "agent_connects io g i version k8s st = st\<lparr>es_db := ClearPollSecret (ei_fails io) g i
     (TouchRow (ei_fails io) g i (ei_ip io) (Printable version 40) (Printable k8s 40) (ei_now io) (es_db st))\<rparr>"

end
