(* ===== verification/EnrolLife.thy ===== *)
theory EnrolLife
  imports Enrol
begin

text \<open>
  The enrolment service over time: a run of calls, in any order, in which approvals that overlap take turns between their transactions. What a call
  does to the tables is a sequence of moves, and the invariants of the tables are kept move by move. Deleting an organisation, with its agents and tokens,
  is a call of a run too; an agent in the middle of an approval may go this way as well.
\<close>

subsection \<open>Runs\<close>

text \<open>An approval in progress: it has read the agent and the code, or counted its attempt as well.\<close>

datatype flight = Looked string string int agent_row string | Counted string string int agent_row string nat

fun flight_row :: "flight \<Rightarrow> agent_row" where
  "flight_row (Looked g actor tier a typed) = a"
| "flight_row (Counted g actor tier a typed n) = a"

datatype enrol_call = MakeToken string string string int string | DropToken string string string | EnrollWith enrol_request | PollFor string string
  | LookAt string string string string int | CountIt nat | DecideIt nat | RejectIt string string string string | RevokeIt string string string string
  | SweepIt string | RenewIt string string string | RejoinIt string "cert option" string | RetierIt string string string string int
  | CeilingIt string string int bool | ConnectIt string string string string | DropOrg string

datatype enrol_result = Made string token_row | Enrolled enrol_answer | Polled poll_state | SawIt | Attempt string nat | Done | Issued cert time | Failed enrol_error
  | NotInFlight

definition answer_with :: "('a \<Rightarrow> enrol_result) \<Rightarrow> 'a enrol_reply \<Rightarrow> enrol_result \<times> enrol_st" where
  "answer_with f p = (case p of (Inl e, st) \<Rightarrow> (Failed e, st) | (Inr x, st) \<Rightarrow> (f x, st))"

type_synonym enrol_state = "flight list \<times> enrol_st"

definition with_flights :: "flight list \<Rightarrow> enrol_result \<times> enrol_st \<Rightarrow> enrol_result \<times> enrol_state" where
  "with_flights fs p = (fst p, fs, snd p)"

definition drop_nth :: "nat \<Rightarrow> 'a list \<Rightarrow> 'a list" where "drop_nth k xs = take k xs @ drop (Suc k) xs"

fun enrol_step :: "enrol_env \<Rightarrow> enrol_io \<Rightarrow> enrol_call \<Rightarrow> enrol_state \<Rightarrow> enrol_result \<times> enrol_state" where
  "enrol_step env io (MakeToken g actor label tier expected) (fs, st) =
     with_flights fs (answer_with (\<lambda>(s, t). Made s t) (CreateTokenFor env io g actor label tier expected st))"
| "enrol_step env io (DropToken g actor i) (fs, st) = with_flights fs (answer_with (\<lambda>_. Done) (DeleteToken io g actor i st))"
| "enrol_step env io (EnrollWith req) (fs, st) = with_flights fs (answer_with Enrolled (Enroll env io req st))"
| "enrol_step env io (PollFor i secret) (fs, st) = with_flights fs (answer_with Polled (Poll env io i secret st))"
| "enrol_step env io (LookAt g actor i proof tier) (fs, st) = (case approve_look env io g i proof st of
     (Inl e, st) \<Rightarrow> (Failed e, fs, st) | (Inr (a, typed), st) \<Rightarrow> (SawIt, Looked g actor tier a typed # fs, st))"
| "enrol_step env io (CountIt k) (fs, st) = (if length fs \<le> k then (NotInFlight, fs, st) else case fs ! k of
     Counted g actor tier a typed n \<Rightarrow> (NotInFlight, fs, st)
   | Looked g actor tier a typed \<Rightarrow> (case approve_count io a st of
       (Inl e, st) \<Rightarrow> (Failed e, drop_nth k fs, st) | (Inr n, st) \<Rightarrow> (Attempt (ag_ID a) n, fs[k := Counted g actor tier a typed n], st)))"
| "enrol_step env io (DecideIt k) (fs, st) = (if length fs \<le> k then (NotInFlight, fs, st) else case fs ! k of
     Looked g actor tier a typed \<Rightarrow> (NotInFlight, fs, st)
   | Counted g actor tier a typed n \<Rightarrow> with_flights (drop_nth k fs) (answer_with (\<lambda>_. Done) (approve_decide env io g actor tier a typed n st)))"
| "enrol_step env io (RejectIt g actor i reason) (fs, st) = with_flights fs (answer_with (\<lambda>_. Done) (Reject env io g actor i reason st))"
| "enrol_step env io (RevokeIt g actor i reason) (fs, st) = with_flights fs (answer_with (\<lambda>_. Done) (Revoke env io g actor i reason st))"
| "enrol_step env io (SweepIt g) (fs, st) = (Done, fs, snd (ExpirePending env io g st))"
| "enrol_step env io (RenewIt g i csr) (fs, st) = with_flights fs (answer_with (\<lambda>(c, t). Issued c t) (Renew env io g i csr st))"
| "enrol_step env io (RejoinIt g expired csr) (fs, st) = with_flights fs (answer_with (\<lambda>(c, t). Issued c t) (Rejoin env io g expired csr st))"
| "enrol_step env io (RetierIt g role actor i tier) (fs, st) = with_flights fs (answer_with (\<lambda>_. Done) (change_tier env io g role actor i tier st))"
| "enrol_step env io (CeilingIt g i reported says) (fs, st) = (Done, fs, case AgentInOrg io g i st of Inl _ \<Rightarrow> st
     | Inr a \<Rightarrow> if ag_Status a \<noteq> StatusApproved then st else note_ceiling env io g a reported says st)"
| "enrol_step env io (ConnectIt g i version k8s) (fs, st) = (Done, fs, agent_connects io g i version k8s st)"
| "enrol_step env io (DropOrg g) (fs, st) = (if ei_fails io XDeleteOrg then Failed (EStore (StFailed XDeleteOrg)) else Done, fs,
     st\<lparr>es_db := DeleteOrgTables (ei_fails io) g (es_db st)\<rparr>)"

lemma Approve_steps:
  "Approve env io g actor i proof tier st = (case approve_look env io g i proof st of (Inl e, st) \<Rightarrow> (Inl e, st) | (Inr (a, typed), st) \<Rightarrow>
     (case approve_count io a st of (Inl e, st) \<Rightarrow> (Inl e, st) | (Inr n, st) \<Rightarrow> approve_decide env io g actor tier a typed n st))"
  by (simp add: Approve_def)

definition start_db :: enrol_db where "start_db = \<lparr>ed_tokens = [], ed_agents = []\<rparr>"

definition start_st :: enrol_st where
  "start_st = \<lparr>es_db = start_db, es_enrollRL = NewLimiter 20 10, es_renewRL = Some (NewLimiter 1 5), es_audit = [], es_events = [], es_told = []\<rparr>"

type_synonym enrol_log = "(enrol_io \<times> enrol_call \<times> enrol_result \<times> enrol_st) list"

abbreviation new_agent :: "enrol_io \<Rightarrow> string" where "new_agent io \<equiv> ''ag-'' @ hex (ei_id io)"

text \<open>
  The log holds the latest call first, each with the state it found. The six random bytes of a new agent's id are not those of an agent an approval in
  progress is about.
\<close>

inductive enrol_reach :: "enrol_env \<Rightarrow> enrol_log \<Rightarrow> flight list \<Rightarrow> enrol_st \<Rightarrow> bool" for env where
  starts: "enrol_reach env [] [] start_st"
| steps: "enrol_reach env L fs st \<Longrightarrow> new_agent io \<notin> (\<lambda>f. ag_ID (flight_row f)) ` set fs \<Longrightarrow> enrol_step env io call (fs, st) = (r, fs', st')
    \<Longrightarrow> enrol_reach env ((io, call, r, st) # L) fs' st'"

subsection \<open>Moves\<close>

text \<open>
  What a statement of a call may do to the tables. \<open>fs\<close> are the approvals in progress, and \<open>en\<close> says whether the call is one that enrols.
\<close>

abbreviation find_in :: "string \<Rightarrow> string \<Rightarrow> enrol_db \<Rightarrow> agent_row option" where
  "find_in g i d \<equiv> List.find (\<lambda>a. ag_ID a = i \<and> ea_OrgID a = g) (ed_agents d)"

inductive move :: "enrol_env \<Rightarrow> enrol_io \<Rightarrow> flight list \<Rightarrow> bool \<Rightarrow> enrol_db \<Rightarrow> enrol_db \<Rightarrow> bool" for env io fs en where
  tokens_made: "CreateTokenRow (ei_fails io) t d = Inr d' \<Longrightarrow> tn_UsedAt t = None \<Longrightarrow> GrantableTier (tn_AccessTier t) \<Longrightarrow>
    tn_ExpectedFingerprint t = [] \<or> FingerprintRe (tn_ExpectedFingerprint t) \<Longrightarrow> move env io fs en d d'"
| tokens_dropped: "DeleteTokenRow (ei_fails io) g i d = Inr d' \<Longrightarrow> move env io fs en d d'"
| enrols: "en \<Longrightarrow> EnrollAgent (ei_fails io) hash (fresh_agent env io req tier secret) (ei_now io) d = Inr (t, d') \<Longrightarrow> 0 \<le> tier \<Longrightarrow> tier \<le> MaxTier
    \<Longrightarrow> FingerprintRe (rq_Fingerprint req) \<Longrightarrow> length (rq_CodeHash req) = HashLen \<Longrightarrow> move env io fs en d d'"
| resumes: "en \<Longrightarrow> ResumeRow (ei_fails io) g i r reopen (ei_now io) d = Inr d' \<Longrightarrow> (\<exists>h. rs_ApprovalHash r = Some h \<and> length h = HashLen) \<Longrightarrow> move env io fs en d d'"
| counts: "CountApprovalAttempt (ei_fails io) g i d = Inr (n, d') \<Longrightarrow> move env io fs en d d'"
| expires: "ExpirePendingRows (ei_fails io) g cutoff d = Inr (as, d') \<Longrightarrow> move env io fs en d d'"
| purges: "PurgeExpiredRows (ei_fails io) g cutoff d = Inr (n, d') \<Longrightarrow> move env io fs en d d'"
| approves: "Counted g actor tier a typed n \<in> set fs \<Longrightarrow> MatchesCode (en_w env) typed (ea_CSR a) (ea_ApprovalHash a)
    \<Longrightarrow> CheckTier tier (ag_InstalledTier a) (ag_TierCap a) = TierAllowed
    \<Longrightarrow> ApproveRow (ei_fails io) (ea_OrgID a) (ag_ID a) tier actor cluster leaf notAfter (ei_now io) d = Inr d' \<Longrightarrow> move env io fs en d d'"
| rejects: "RejectRow (ei_fails io) g i reason (ei_now io) d = Inr d' \<Longrightarrow> move env io fs en d d'"
| revokes: "RevokeRow (ei_fails io) g i reason (ei_now io) d = Inr d' \<Longrightarrow> move env io fs en d d'"
| leaves: "SetLeafRow (ei_fails io) g i leaf notAfter d = Inr d' \<Longrightarrow> move env io fs en d d'"
| tiers: "SetAccessTierRow (ei_fails io) g i tier d = Inr d' \<Longrightarrow> find_in g i d = Some a \<Longrightarrow> 0 \<le> tier
    \<Longrightarrow> CheckTier tier (ag_InstalledTier a) (ag_TierCap a) = TierAllowed \<or> tier < ag_AccessTier a \<Longrightarrow> move env io fs en d d'"
| ceilings: "SetInstalledTierRow (ei_fails io) g i tier d = Inr d' \<Longrightarrow> 0 \<le> tier \<Longrightarrow> tier \<le> MaxTier \<Longrightarrow> move env io fs en d d'"
| clears: "move env io fs en d (ClearPollSecret fl g i d)"
| touches: "move env io fs en d (TouchRow fl g i ip version k8s now d)"

abbreviation moves :: "enrol_env \<Rightarrow> enrol_io \<Rightarrow> flight list \<Rightarrow> bool \<Rightarrow> enrol_db \<Rightarrow> enrol_db \<Rightarrow> bool" where
  "moves env io fs en \<equiv> (move env io fs en)\<^sup>*\<^sup>*"

lemmas moved = r_into_rtranclp[where r = "move env io fs en" for env io fs en]

lemma tables_kept [simp]:
  "es_db (AuditE io g a b k i e st) = es_db st" "es_db (note_expired env io g r st) = es_db st" "es_db (RecordAgentGraph io g i k st) = es_db st"
  by (simp_all add: AuditE_def note_expired_def RecordAgentGraph_def Let_def split: sum.split)

lemma fold_expired [simp]: "es_db (fold (note_expired env io g) rs st) = es_db st"
  by (induction rs arbitrary: st) simp_all

lemma write_moves:
  assumes "write_audited io row err r st = (a, st')" "\<And>d. r = Inr d \<Longrightarrow> move env io fs en (es_db st) d"
  shows "moves env io fs en (es_db st) (es_db st')"
  using assms by (auto simp: write_audited_def split: sum.splits if_splits)

lemma expire_moves: "moves env io fs en (es_db st) (es_db (snd (ExpirePending env io g st)))"
proof (cases "ExpirePendingRows (ei_fails io) g (ei_now io - EffectivePendingTTL env) (es_db st)")
  case (Inr p)
  then obtain rs d where e: "ExpirePendingRows (ei_fails io) g (ei_now io - EffectivePendingTTL env) (es_db st) = Inr (rs, d)" by (cases p) auto
  then have "moves env io fs en (es_db st) d" by (intro moved expires)
  moreover have "moves env io fs en d d'" if "PurgeExpiredRows (ei_fails io) g (ei_now io - ExpiredKeep) d = Inr (n, d')" for n d'
    using that by (intro moved purges)
  ultimately show ?thesis using e by (auto simp: ExpirePending_def Let_def split: sum.split intro: rtranclp_trans)
qed (simp add: ExpirePending_def)

lemmas expire_then = rtranclp_trans[OF expire_moves]

lemma resume_store_moves:
  assumes "resume_store env io req prev secret reopen st = (r, st')" "length (rq_CodeHash req) = HashLen"
  shows "moves env io fs True (es_db st) (es_db st')"
  using assms by (auto simp: resume_store_def HashLen_def Let_def split: sum.splits if_splits intro!: moved resumes)

lemma resume_moves:
  assumes "resumeEnrollment env io req secret st = (r, st')" "length (rq_CodeHash req) = HashLen"
  shows "moves env io fs True (es_db st) (es_db st')"
  using assms
  by (auto simp: resumeEnrollment_def split: sum.splits if_splits intro: expire_then resume_store_moves)

lemma spend_moves:
  assumes "enroll_store env io req tier secret st = (r, st')" "length (rq_CodeHash req) = HashLen" "FingerprintRe (rq_Fingerprint req)" "0 \<le> tier" "tier \<le> MaxTier"
  shows "moves env io fs True (es_db st) (es_db st')"
proof (cases "EnrollAgent (ei_fails io) (esha env (rq_Token req)) (fresh_agent env io req tier secret) (ei_now io) (es_db st)")
  case (Inl e)
  then show ?thesis using assms(1,2)
    by (cases e) (auto simp: enroll_store_def split: prod.splits sum.splits option.splits dest!: resume_moves)
next
  case (Inr p)
  then obtain t d where e: "EnrollAgent (ei_fails io) (esha env (rq_Token req)) (fresh_agent env io req tier secret) (ei_now io) (es_db st) = Inr (t, d)"
    by (cases p) auto
  then have "move env io fs True (es_db st) d" using assms by (auto intro: enrols)
  then show ?thesis using assms(1) e by (auto simp: enroll_store_def Let_def)
qed

lemma Enroll_cases:
  assumes "Enroll env io req st = (r, st')"
  obtains "es_db st' = es_db st" "\<forall>ans. r \<noteq> Inr ans"
  | l rnd where "enroll_store env io req (rq_Tier req) (encode64 rnd) (st\<lparr>es_enrollRL := l\<rparr>) = (r, st')" "length (rq_CodeHash req) = HashLen"
      "FingerprintRe (rq_Fingerprint req)" "0 \<le> rq_Tier req" "rq_Tier req \<le> MaxTier"
  using assms by (auto simp: Enroll_def ReportedTier_def MaxTier_def Let_def split: prod.splits sum.splits if_splits option.splits)

lemma Enroll_moves: "Enroll env io req st = (r, st') \<Longrightarrow> moves env io fs True (es_db st) (es_db st')"
  by (erule Enroll_cases) (auto dest: spend_moves)

lemma Poll_moves: "Poll env io i secret st = (r, st') \<Longrightarrow> moves env io fs en (es_db st) (es_db st')"
  using expire_moves[of env io fs en "st\<lparr>es_enrollRL := l\<rparr>" for l]
  by (auto simp: Poll_def Let_def split: prod.splits sum.splits if_splits)

lemma look_moves: "approve_look env io g i proof st = (r, st') \<Longrightarrow> moves env io fs en (es_db st) (es_db st')"
  using expire_moves[of env io fs en st g] by (auto simp: approve_look_def Let_def split: sum.splits if_splits option.splits)

lemma count_moves: "approve_count io a st = (r, st') \<Longrightarrow> moves env io fs en (es_db st) (es_db st')"
  by (auto simp: approve_count_def Let_def split: sum.splits if_splits intro!: moved counts)

lemma refuse_moves: "refuse_code env io g actor a n st = (r, st') \<Longrightarrow> moves env io fs en (es_db st) (es_db st')"
  by (auto simp: refuse_code_def Let_def split: if_splits intro!: write_moves[OF surjective_pairing] rejects)

lemma decide_moves:
  assumes "approve_decide env io g actor tier a typed n st = (r, st')" "Counted g actor tier a typed n \<in> set fs"
  shows "moves env io fs en (es_db st) (es_db st')"
  using assms by (auto simp: approve_decide_def split: if_splits sum.splits prod.splits intro: refuse_moves dest!: write_moves intro!: approves)


lemma AgentInOrg_found: "AgentInOrg io g i st = Inr a \<Longrightarrow> find_in g i (es_db st) = Some a \<and> ag_ID a = i \<and> ea_OrgID a = g"
  by (auto simp: AgentInOrg_def GetAgent_def find_Some_iff split: if_splits option.splits sum.splits)

lemma find_map_keep: "(\<And>a. P (f a) = P a) \<Longrightarrow> List.find P (map f xs) = map_option f (List.find P xs)"
  by (induction xs) auto

lemma make_moves: "CreateTokenFor env io g actor label tier expected st = (r, st') \<Longrightarrow> moves env io fs en (es_db st) (es_db st')"
  by (auto simp: CreateTokenFor_def Let_def split: if_splits option.splits prod.splits sum.splits dest!: write_moves intro!: tokens_made)

lemma drop_moves: "DeleteToken io g actor i st = (r, st') \<Longrightarrow> moves env io fs en (es_db st) (es_db st')"
  unfolding DeleteToken_def by (erule write_moves) (rule tokens_dropped)

lemma reject_moves: "Reject env io g actor i reason st = (r, st') \<Longrightarrow> moves env io fs en (es_db st) (es_db st')"
  by (auto simp: Reject_def Let_def split: sum.splits prod.splits dest!: write_moves intro!: rejects)

lemma revoke_moves: "Revoke env io g actor i reason st = (r, st') \<Longrightarrow> moves env io fs en (es_db st) (es_db st')"
  by (auto simp: Revoke_def Let_def split: sum.splits prod.splits dest!: write_moves intro!: revokes)

lemma allow_renew_db [simp]: "allow_renew io i st = (ok, st') \<Longrightarrow> es_db st' = es_db st"
  by (auto simp: allow_renew_def split: option.splits prod.splits)

lemmas leaf_moves = moved[OF leaves]

lemma leaf_then_clear: "SetLeafRow (ei_fails io) g i leaf t d = Inr d' \<Longrightarrow> moves env io fs en d (ClearPollSecret fl g i d')"
  by (rule rtranclp_trans[OF moved[OF leaves] moved[OF clears]])

lemma Renew_moves: "Renew env io g i csr st = (r, st') \<Longrightarrow> moves env io fs en (es_db st) (es_db st')"
  by (auto simp: Renew_def split: sum.splits prod.splits if_splits dest!: allow_renew_db intro: leaf_then_clear)

lemma Rejoin_moves: "Rejoin env io g expired csr st = (r, st') \<Longrightarrow> moves env io fs en (es_db st) (es_db st')"
  by (auto simp: Rejoin_def Let_def split: sum.splits prod.splits if_splits dest!: allow_renew_db intro: leaf_moves)

lemma verdict_cases:
  "CheckTier t i c \<noteq> TierBelowZero \<Longrightarrow> CheckTier t i c \<noteq> TierNotImplemented \<Longrightarrow> CheckTier t i c \<noteq> TierAboveInstall
    \<Longrightarrow> CheckTier t i c \<noteq> TierAboveToken \<Longrightarrow> CheckTier t i c = TierAllowed"
  using tier_verdict.exhaust by blast

lemma retier_moves: "change_tier env io g role actor i tier st = (r, st') \<Longrightarrow> moves env io fs en (es_db st) (es_db st')"
  by (auto simp: change_tier_def Let_def dest!: AgentInOrg_found verdict_cases split: sum.splits prod.splits if_splits dest!: write_moves
      intro!: tiers) (auto simp: CheckTier_allowed)


lemma reported_range: "0 \<le> fst (ReportedTier t)" "fst (ReportedTier t) \<le> MaxTier"
  by (simp_all add: ReportedTier_def MaxTier_def Let_def)

lemma lower_moves:
  assumes "find_in g (ag_ID fresh) (es_db st) = Some a" "ag_AccessTier a = ag_AccessTier fresh" "0 \<le> ceil"
  shows "moves env io fs en (es_db st) (es_db (lower_access env io g fresh ceil st))"
proof (cases "ag_AccessTier fresh \<le> ceil")
  case True
  then show ?thesis by (simp add: lower_access_def)
next
  case False
  have tier: "move env io fs en (es_db st) d" if "SetAccessTierRow (ei_fails io) g (ag_ID fresh) ceil (es_db st) = Inr d" for d
    using assms False by (intro tiers[OF that assms(1)]) auto
  have "moves env io fs en (es_db st) (es_db st')" if "write_audited io row EStore (SetAccessTierRow (ei_fails io) g (ag_ID fresh) ceil (es_db st)) st = (r, st')"
    for row r st' using write_moves[OF that] tier by blast
  then show ?thesis using False by (simp add: lower_access_def Let_def split: prod.split sum.split)
qed

lemma ceiling_moves:
  assumes "find_in g (ag_ID fresh) (es_db st) = Some fresh"
  shows "moves env io fs en (es_db st) (es_db (note_ceiling env io g fresh reported says st))"
proof -
  define ceil where "ceil = fst (ReportedTier reported)"
  have c: "0 \<le> ceil" "ceil \<le> MaxTier" by (auto simp: ceil_def ReportedTier_def MaxTier_def Let_def)
  show ?thesis
  proof (cases "SetInstalledTierRow (ei_fails io) g (ag_ID fresh) ceil (es_db st)")
    case (Inl e)
    then show ?thesis using lower_moves[OF assms refl c(1)] by (auto simp: note_ceiling_def Let_def ceil_def[symmetric])
  next
    case (Inr d)
    have f: "find_in g (ag_ID fresh) d = Some (fresh\<lparr>ag_InstalledTier := ceil\<rparr>)" using Inr assms
      by (auto simp: SetInstalledTierRow_def update_agents_def find_map_keep find_Some_iff split: if_splits)
    have m: "moves env io fs en (es_db st) d" using Inr c by (intro moved ceilings)
    have "moves env io fs en d (es_db (lower_access env io g fresh ceil st1))" if "es_db st1 = d" for st1
      using lower_moves[where st = st1 and a = "fresh\<lparr>ag_InstalledTier := ceil\<rparr>"] f c that by simp
    then show ?thesis using Inr lower_moves[OF assms refl c(1)] rtranclp_trans[OF m]
      by (auto simp: note_ceiling_def Let_def ceil_def[symmetric])
  qed
qed

lemma connect_moves: "moves env io fs en (es_db st) (es_db (agent_connects io g i version k8s st))"
  unfolding agent_connects_def by simp (rule rtranclp_trans[OF moved[OF touches] moved[OF clears]])

lemma decide_at: "\<not> length fs \<le> k \<Longrightarrow> fs ! k = Counted g actor tier a typed n \<Longrightarrow> approve_decide env io g actor tier a typed n st = (r, st')
    \<Longrightarrow> moves env io fs en (es_db st) (es_db st')"
  by (metis decide_moves nth_mem not_le)

fun enrolling :: "enrol_call \<Rightarrow> bool" where
  "enrolling (EnrollWith req) = True"
| "enrolling call = False"

lemma enrol_moves:
  assumes "enrol_step env io call (fs, st) = (r, fs', st')" "\<And>g. call \<noteq> DropOrg g"
  shows "moves env io fs (enrolling call) (es_db st) (es_db st')"
proof (cases call)
  case (CeilingIt g i reported says)
  then show ?thesis using assms(1) ceiling_moves by (auto split: sum.splits dest!: AgentInOrg_found)
qed (use assms in \<open>auto simp: with_flights_def answer_with_def connect_moves expire_moves split: prod.splits sum.splits if_splits flight.splits
    intro: make_moves drop_moves Enroll_moves Poll_moves look_moves count_moves reject_moves revoke_moves Renew_moves Rejoin_moves retier_moves
      decide_at\<close>)

end
