(* ===== verification/EnrolSafe.thy ===== *)
theory EnrolSafe
  imports EnrolLife
begin

text \<open>
  What holds of the tables of enrolment in every run: the rows are well typed, an agent is approved only by the code its own cluster printed, five codes
  are tried for a request at most, and an agent that was rejected or revoked stays so.
\<close>

subsection \<open>What a move does to one row\<close>

inductive row_step :: "enrol_env \<Rightarrow> enrol_io \<Rightarrow> flight list \<Rightarrow> bool \<Rightarrow> agent_row \<Rightarrow> agent_row \<Rightarrow> bool" for env io fs en a where
  r_same: "row_step env io fs en a a"
| r_count: "ag_Status a = StatusPending \<Longrightarrow> row_step env io fs en a (a\<lparr>ea_ApprovalAttempts := Suc (ea_ApprovalAttempts a)\<rparr>)"
| r_resume: "ag_Status a = StatusPending \<or> ag_Status a = StatusApproved \<Longrightarrow>
    row_step env io fs en a (a\<lparr>ea_PollSecretHash := h, ag_Version := v, ag_K8sVersion := k, ea_ConnectingIP := ip\<rparr>)"
| r_reopen: "en \<Longrightarrow> ag_Status a = StatusExpired \<Longrightarrow> length c = HashLen \<Longrightarrow>
    row_step env io fs en a (a\<lparr>ea_PollSecretHash := h, ag_Version := v, ag_K8sVersion := k, ea_ConnectingIP := ip, ag_Status := StatusPending,
      ea_ApprovalHash := Some c, ea_ApprovalAttempts := 0, ea_CSR := q, ag_CreatedAt := Some t, ag_Reason := [], ag_RevokedAt := None\<rparr>)"
| r_expire: "ag_Status a = StatusPending \<Longrightarrow> row_step env io fs en a (a\<lparr>ag_Status := StatusExpired, ag_Reason := why\<rparr>)"
| r_approve: "ag_Status a = StatusPending \<Longrightarrow> Counted g actor tier b typed n \<in> set fs \<Longrightarrow> ag_ID b = ag_ID a \<Longrightarrow> ea_OrgID b = ea_OrgID a
    \<Longrightarrow> MatchesCode (en_w env) typed (ea_CSR b) (ea_ApprovalHash b) \<Longrightarrow> CheckTier tier (ag_InstalledTier b) (ag_TierCap b) = TierAllowed \<Longrightarrow>
    row_step env io fs en a (a\<lparr>ag_Status := StatusApproved, ag_AccessTier := tier, ag_ApprovedBy := actor, ag_ApprovedAt := Some t,
      ag_ClusterID := cl, ea_Leaf := Some leaf, ea_LeafNotAfter := na, ag_Reason := []\<rparr>)"
| r_reject: "ag_Status a = StatusPending \<Longrightarrow> row_step env io fs en a (a\<lparr>ag_Status := StatusRejected, ag_Reason := why, ag_RevokedAt := Some t\<rparr>)"
| r_revoke: "ag_Status a = StatusPending \<or> ag_Status a = StatusApproved \<Longrightarrow>
    row_step env io fs en a (a\<lparr>ag_Status := StatusRevoked, ag_Reason := why, ag_RevokedAt := Some t, ea_Leaf := None\<rparr>)"
| r_leaf: "ag_Status a = StatusApproved \<Longrightarrow> row_step env io fs en a (a\<lparr>ea_Leaf := Some leaf, ea_LeafNotAfter := na\<rparr>)"
| r_tier: "ag_Status a = StatusApproved \<Longrightarrow> 0 \<le> tier \<Longrightarrow> CheckTier tier (ag_InstalledTier a) (ag_TierCap a) = TierAllowed \<or> tier < ag_AccessTier a
    \<Longrightarrow> row_step env io fs en a (a\<lparr>ag_AccessTier := tier\<rparr>)"
| r_install: "0 \<le> tier \<Longrightarrow> tier \<le> MaxTier \<Longrightarrow> row_step env io fs en a (a\<lparr>ag_InstalledTier := tier\<rparr>)"
| r_clear: "row_step env io fs en a (a\<lparr>ea_PollSecretHash := None\<rparr>)"
| r_touch: "row_step env io fs en a (a\<lparr>ag_LastSeen := seen, ea_ConnectingIP := ip, ag_Version := v, ag_K8sVersion := k\<rparr>)"

inductive shape :: "enrol_env \<Rightarrow> enrol_io \<Rightarrow> flight list \<Rightarrow> bool \<Rightarrow> enrol_db \<Rightarrow> enrol_db \<Rightarrow> bool" for env io fs en d where
  rows: "\<forall>a \<in> set (ed_agents d). row_step env io fs en a (F a) \<Longrightarrow> one_live (map F (ed_agents d)) \<Longrightarrow> shape env io fs en d (d\<lparr>ed_agents := map F (ed_agents d)\<rparr>)"
| token: "CreateTokenRow (ei_fails io) t d = Inr d' \<Longrightarrow> tn_UsedAt t = None \<Longrightarrow> GrantableTier (tn_AccessTier t) \<Longrightarrow> shape env io fs en d d'"
| untoken: "\<forall>t. \<not> p t \<longrightarrow> tn_UsedAt t = None \<Longrightarrow> shape env io fs en d (d\<lparr>ed_tokens := filter p (ed_tokens d)\<rparr>)"
| joins: "en \<Longrightarrow> EnrollAgent (ei_fails io) hash (fresh_agent env io req tier secret) (ei_now io) d = Inr (t, d') \<Longrightarrow> 0 \<le> tier \<Longrightarrow> tier \<le> MaxTier
    \<Longrightarrow> FingerprintRe (rq_Fingerprint req) \<Longrightarrow> length (rq_CodeHash req) = HashLen \<Longrightarrow> shape env io fs en d d'"
| purged: "\<forall>a \<in> set (ed_agents d). \<not> p a \<longrightarrow> ag_Status a = StatusExpired \<Longrightarrow> shape env io fs en d (d\<lparr>ed_agents := filter p (ed_agents d)\<rparr>)"

lemma filter_live:
  assumes "distinct (map k (filter P xs))" "\<forall>x \<in> set xs. Q (f x) \<longrightarrow> P x" "\<forall>x \<in> set xs. k (f x) = k x"
  shows "distinct (map k (filter Q (map f xs)))"
  using assms
proof (induction xs)
  case (Cons a xs)
  then show ?case by (cases "P a"; cases "Q (f a)") (auto simp: image_iff, blast?)
qed simp

definition same_keys :: "agent_row \<Rightarrow> agent_row \<Rightarrow> bool" where
  "same_keys a b \<longleftrightarrow> ag_ID b = ag_ID a \<and> ea_OrgID b = ea_OrgID a \<and> ea_Fingerprint b = ea_Fingerprint a \<and> ag_TierCap b = ag_TierCap a
     \<and> ea_TokenID b = ea_TokenID a \<and> ag_Name b = ag_Name a"

lemma row_keys: "row_step env io fs en a b \<Longrightarrow> same_keys a b"
  by (induction rule: row_step.induct) (simp_all add: same_keys_def)

lemma still_live:
  assumes "one_live as" "\<And>a. a \<in> set as \<Longrightarrow> same_keys a (f a) \<and> (ag_Status (f a) = StatusApproved \<longrightarrow> ag_Status a = StatusApproved)"
  shows "one_live (map f as)"
  using assms(1) unfolding one_live_def by (rule filter_live) (use assms(2) in \<open>auto simp: same_keys_def\<close>)

lemma change_shape:
  assumes "change_agent q fl g i p f d = Inr d'" "\<And>a. a \<in> set (ed_agents d) \<Longrightarrow> ag_ID a = i \<Longrightarrow> ea_OrgID a = g \<Longrightarrow> p a \<Longrightarrow> row_step env io fs en a (f a)"
  shows "shape env io fs en d d'"
proof -
  let ?F = "\<lambda>a. if ag_ID a = i \<and> ea_OrgID a = g \<and> p a then f a else a"
  have "d' = d\<lparr>ed_agents := map ?F (ed_agents d)\<rparr>" "one_live (map ?F (ed_agents d))"
    using assms(1) by (auto simp: change_agent_def update_agents_def Let_def split: if_splits)
  then show ?thesis using assms(2) by (auto intro!: rows simp: r_same)
qed

lemma update_shape:
  assumes "one_live (ed_agents d)" "\<And>a. a \<in> set (ed_agents d) \<Longrightarrow> hit a \<Longrightarrow> row_step env io fs en a (f a) \<and> (ag_Status (f a) = StatusApproved \<longrightarrow> ag_Status a = StatusApproved)"
  shows "shape env io fs en d (update_agents hit f d)"
  unfolding update_agents_def
proof (rule rows)
  show "\<forall>a \<in> set (ed_agents d). row_step env io fs en a (if hit a then f a else a)" using assms(2) by (simp add: r_same)
  then show "one_live (map (\<lambda>a. if hit a then f a else a) (ed_agents d))"
    using assms by (intro still_live) (auto dest!: row_keys split: if_splits)
qed

lemma move_shape:
  assumes "move env io fs en d d'" "one_live (ed_agents d)" "distinct (map ag_ID (ed_agents d))"
  shows "shape env io fs en d d'"
  using assms(1)
proof cases
  case (tokens_made t)
  then show ?thesis by (intro token)
next
  case (tokens_dropped g i)
  then show ?thesis by (auto simp: DeleteTokenRow_def Let_def split: if_splits intro!: untoken)
next
  case (enrols hash req tier secret t)
  then show ?thesis by (intro joins)
next
  case (resumes g i r reopen)
  then show ?thesis by (auto simp: ResumeRow_def Let_def split: if_splits elim!: change_shape intro!: r_resume r_reopen)
next
  case (counts g i n)
  then show ?thesis by (auto simp: CountApprovalAttempt_def split: sum.splits option.splits elim!: change_shape intro!: r_count)
next
  case (expires g cutoff as)
  then show ?thesis using assms(2)
    by (auto simp: ExpirePendingRows_def Let_def status_defs split: if_splits intro!: update_shape r_expire[unfolded status_defs])
next
  case (purges g cutoff n)
  then show ?thesis by (auto simp: PurgeExpiredRows_def Let_def split: if_splits intro!: purged)
next
  case (approves g actor tier a typed n cluster leaf notAfter)
  then show ?thesis by (auto simp: ApproveRow_def elim!: change_shape intro!: r_approve)
next
  case (rejects g i reason)
  then show ?thesis by (auto simp: RejectRow_def elim!: change_shape intro!: r_reject)
next
  case (revokes g i reason)
  then show ?thesis by (auto simp: RevokeRow_def elim!: change_shape intro!: r_revoke)
next
  case (leaves g i leaf notAfter)
  then show ?thesis by (auto simp: SetLeafRow_def elim!: change_shape intro!: r_leaf)
next
  case (tiers g i tier a)
  then have "b = a" if "b \<in> set (ed_agents d)" "ag_ID b = i" for b
    using that assms(3) by (auto simp: find_Some_iff distinct_map inj_on_def)
  then show ?thesis using tiers by (auto simp: SetAccessTierRow_def elim!: change_shape intro!: r_tier)
next
  case (ceilings g i tier)
  then show ?thesis using assms(2) by (auto simp: SetInstalledTierRow_def split: if_splits intro!: update_shape r_install)
next
  case (clears fl g i)
  then show ?thesis using assms(2) rows[of d env io fs en id] by (auto simp: ClearPollSecret_def r_same intro!: update_shape r_clear)
next
  case (touches fl g i ip version k8s now)
  then show ?thesis using assms(2) rows[of d env io fs en id] by (auto simp: TouchRow_def r_same intro!: update_shape r_touch)
qed


subsection \<open>Well-typed tables\<close>

definition agent_states :: "string set" where
  "agent_states = {StatusPending, StatusApproved, StatusRevoked, StatusRejected, StatusExpired}"

definition row_ok :: "agent_row \<Rightarrow> bool" where
  "row_ok a \<longleftrightarrow> ag_Status a \<in> agent_states \<and> 0 \<le> ag_InstalledTier a \<and> ag_InstalledTier a \<le> MaxTier \<and> GrantableTier (ag_TierCap a)
     \<and> FingerprintRe (ea_Fingerprint a) \<and> (\<exists>h. ea_ApprovalHash a = Some h \<and> length h = HashLen) \<and> ag_CreatedAt a \<noteq> None
     \<and> (ea_Leaf a \<noteq> None \<longleftrightarrow> ag_Status a = StatusApproved)
     \<and> (ag_Status a = StatusApproved \<longrightarrow> 0 \<le> ag_AccessTier a \<and> ag_AccessTier a \<le> ag_TierCap a \<and> ag_ApprovedAt a \<noteq> None)
     \<and> (ag_Status a \<in> {StatusRevoked, StatusRejected} \<longrightarrow> ag_RevokedAt a \<noteq> None)"

text \<open>The token a row was enrolled with: it stays, spent on this agent, and the row has its organisation, its label and its tier.\<close>

definition enrolled_with :: "agent_row \<Rightarrow> token_row \<Rightarrow> bool" where
  "enrolled_with a t \<longleftrightarrow> tn_ID t = ea_TokenID a \<and> tn_UsedAt t \<noteq> None \<and> tn_UsedBy t = ag_ID a \<and> tn_OrgID t = ea_OrgID a \<and> tn_AccessTier t = ag_TierCap a
     \<and> tn_Label t = ag_Name a \<and> (tn_ExpectedFingerprint t = [] \<or> tn_ExpectedFingerprint t = ea_Fingerprint a)"

definition tables_ok :: "enrol_db \<Rightarrow> bool" where
  "tables_ok d \<longleftrightarrow> distinct (map tn_ID (ed_tokens d)) \<and> distinct (map tn_Hash (ed_tokens d)) \<and> distinct (map ag_ID (ed_agents d))
     \<and> one_live (ed_agents d) \<and> (\<forall>t \<in> set (ed_tokens d). GrantableTier (tn_AccessTier t))
     \<and> (\<forall>a \<in> set (ed_agents d). row_ok a \<and> (\<exists>t \<in> set (ed_tokens d). enrolled_with a t))"

text \<open>An approval in progress is about an agent that, if its row is still there, is the one it read.\<close>

definition flights_ok :: "flight list \<Rightarrow> enrol_db \<Rightarrow> bool" where
  "flights_ok fs d \<longleftrightarrow> (\<forall>f \<in> set fs. \<forall>a \<in> set (ed_agents d). ag_ID a = ag_ID (flight_row f) \<longrightarrow> same_keys (flight_row f) a)"

lemma states_differ [simp]:
  "StatusPending \<noteq> StatusApproved" "StatusApproved \<noteq> StatusPending" "StatusPending \<noteq> StatusRevoked" "StatusRevoked \<noteq> StatusPending"
  "StatusPending \<noteq> StatusRejected" "StatusRejected \<noteq> StatusPending" "StatusPending \<noteq> StatusExpired" "StatusExpired \<noteq> StatusPending"
  "StatusApproved \<noteq> StatusRevoked" "StatusRevoked \<noteq> StatusApproved" "StatusApproved \<noteq> StatusRejected" "StatusRejected \<noteq> StatusApproved"
  "StatusApproved \<noteq> StatusExpired" "StatusExpired \<noteq> StatusApproved" "StatusRevoked \<noteq> StatusRejected" "StatusRejected \<noteq> StatusRevoked"
  "StatusRevoked \<noteq> StatusExpired" "StatusExpired \<noteq> StatusRevoked" "StatusRejected \<noteq> StatusExpired" "StatusExpired \<noteq> StatusRejected"
  by (simp_all add: status_defs)

lemma row_step_ok:
  assumes "row_step env io fs en a b" "row_ok a" "\<forall>f \<in> set fs. ag_ID a = ag_ID (flight_row f) \<longrightarrow> same_keys (flight_row f) a"
  shows "row_ok b"
  using assms
proof cases
  case (r_approve g actor tier b' typed n t cl leaf na)
  then have "same_keys b' a" using assms(3) by force
  then show ?thesis using r_approve assms(2) by (auto simp: row_ok_def agent_states_def CheckTier_allowed same_keys_def)
next
  case (r_tier tier)
  then show ?thesis using assms(2) by (auto simp: row_ok_def CheckTier_allowed)
qed (auto simp: row_ok_def agent_states_def)

lemma enrolled_keys: "same_keys a b \<Longrightarrow> enrolled_with a t \<Longrightarrow> enrolled_with b t"
  by (simp add: same_keys_def enrolled_with_def)

lemma usable_one:
  assumes "distinct (map tn_Hash ts)" "List.find (usable h now) ts = Some t"
  shows "t \<in> set ts" "usable h now t" "\<And>u. u \<in> set ts \<Longrightarrow> usable h now u \<Longrightarrow> u = t"
  using assms by (auto simp: find_Some_iff usable_def distinct_map inj_on_def)


lemma EnrollAgent_D:
  assumes "EnrollAgent fl h a now d = Inr (t, d')" "distinct (map tn_Hash (ed_tokens d))"
  obtains u where "u \<in> set (ed_tokens d)" "usable h now u" "tn_ExpectedFingerprint u = [] \<or> tn_ExpectedFingerprint u = ea_Fingerprint a"
    "\<forall>r \<in> set (ed_agents d). ag_ID r \<noteq> ag_ID a"
    "d' = d\<lparr>ed_tokens := map (\<lambda>v. if v = u then u\<lparr>tn_UsedAt := Some (whole_ms now), tn_UsedBy := ag_ID a\<rparr> else v) (ed_tokens d),
       ed_agents := ed_agents d @ [a\<lparr>ea_OrgID := tn_OrgID u, ag_Name := tn_Label u, ea_TokenID := tn_ID u, ag_Status := StatusPending,
         ag_CreatedAt := Some (whole_ms now), ag_TierCap := tn_AccessTier u\<rparr>]\<rparr>"
proof -
  obtain u where u: "List.find (usable h now) (ed_tokens d) = Some u" and rest: "tn_ExpectedFingerprint u = [] \<or> tn_ExpectedFingerprint u = ea_Fingerprint a"
    "\<forall>r \<in> set (ed_agents d). ag_ID r \<noteq> ag_ID a"
    and d': "d' = d\<lparr>ed_tokens := map (\<lambda>t. if usable h now t then t\<lparr>tn_UsedAt := Some (whole_ms now), tn_UsedBy := ag_ID a\<rparr> else t) (ed_tokens d),
       ed_agents := ed_agents d @ [a\<lparr>ea_OrgID := tn_OrgID u, ag_Name := tn_Label u, ea_TokenID := tn_ID u, ag_Status := StatusPending,
         ag_CreatedAt := Some (whole_ms now), ag_TierCap := tn_AccessTier u\<rparr>]\<rparr>"
    using assms(1) by (auto simp: EnrollAgent_def Let_def list_ex_iff split: if_splits option.splits)
  have one: "usable h now v \<longleftrightarrow> v = u" if "v \<in> set (ed_tokens d)" for v using usable_one[OF assms(2) u] that by blast
  have maps: "map (\<lambda>t. if usable h now t then t\<lparr>tn_UsedAt := Some (whole_ms now), tn_UsedBy := ag_ID a\<rparr> else t) (ed_tokens d) =
    map (\<lambda>v. if v = u then u\<lparr>tn_UsedAt := Some (whole_ms now), tn_UsedBy := ag_ID a\<rparr> else v) (ed_tokens d)" by (intro map_cong) (auto simp: one)
  show thesis by (rule that[of u]) (use rest usable_one(1,2)[OF assms(2) u] d' in \<open>simp_all add: maps\<close>)
qed

lemma fresh_agent_fields [simp]:
  "ag_ID (fresh_agent env io req tier secret) = new_agent io" "ea_Fingerprint (fresh_agent env io req tier secret) = rq_Fingerprint req"
  "ag_InstalledTier (fresh_agent env io req tier secret) = tier" "ea_Leaf (fresh_agent env io req tier secret) = None"
  "ea_ApprovalAttempts (fresh_agent env io req tier secret) = 0"
  "length (rq_CodeHash req) = HashLen \<Longrightarrow> ea_ApprovalHash (fresh_agent env io req tier secret) = Some (rq_CodeHash req)"
  by (auto simp: fresh_agent_def HashLen_def)

lemma live_app: "ag_Status a \<noteq> StatusApproved \<Longrightarrow> one_live (as @ [a]) = one_live as"
  by (simp add: one_live_def)

lemma live_filter: "one_live as \<Longrightarrow> one_live (filter p as)"
proof -
  assume "one_live as"
  then show ?thesis unfolding one_live_def
    by (induction as) (auto simp: image_iff)
qed

lemma tables_okD:
  "tables_ok d \<Longrightarrow> a \<in> set (ed_agents d) \<Longrightarrow> row_ok a"
  "tables_ok d \<Longrightarrow> a \<in> set (ed_agents d) \<Longrightarrow> \<exists>t \<in> set (ed_tokens d). enrolled_with a t"
  "tables_ok d \<Longrightarrow> one_live (ed_agents d)" "tables_ok d \<Longrightarrow> distinct (map ag_ID (ed_agents d))"
  by (simp_all add: tables_ok_def)

lemma shape_ok:
  assumes "shape env io fs en d d'" "tables_ok d" "flights_ok fs d"
  shows "tables_ok d'"
  using assms(1)
proof cases
  case (rows F)
  have keys: "same_keys a (F a)" if "a \<in> set (ed_agents d)" for a using rows that row_keys by blast
  have "map (ag_ID \<circ> F) (ed_agents d) = map ag_ID (ed_agents d)" using keys by (simp add: same_keys_def)
  then have "distinct (map (ag_ID \<circ> F) (ed_agents d))" using assms(2) by (simp only: tables_ok_def)
  moreover have "row_ok (F a) \<and> (\<exists>t \<in> set (ed_tokens d). enrolled_with (F a) t)" if "a \<in> set (ed_agents d)" for a
  proof
    have "row_ok a" "\<forall>f \<in> set fs. ag_ID a = ag_ID (flight_row f) \<longrightarrow> same_keys (flight_row f) a"
      using that assms(2,3) by (simp_all add: tables_ok_def flights_ok_def)
    then show "row_ok (F a)" using rows that row_step_ok by blast
    show "\<exists>t \<in> set (ed_tokens d). enrolled_with (F a) t" using that assms(2) keys enrolled_keys by (force simp: tables_ok_def)
  qed
  ultimately show ?thesis using rows assms(2) by (simp add: tables_ok_def)
next
  case (token t)
  then show ?thesis using assms(2) by (fastforce simp: tables_ok_def CreateTokenRow_def list_ex_iff enrolled_with_def split: if_splits)
next
  case (untoken p)
  then show ?thesis using assms(2) by (fastforce simp: tables_ok_def enrolled_with_def distinct_map_filter)
next
  case (joins hash req tier secret t)
  let ?a = "fresh_agent env io req tier secret"
  obtain u where u: "u \<in> set (ed_tokens d)" "usable hash (ei_now io) u" "tn_ExpectedFingerprint u = [] \<or> tn_ExpectedFingerprint u = ea_Fingerprint ?a"
    "\<forall>r \<in> set (ed_agents d). ag_ID r \<noteq> ag_ID ?a" and
    d': "d' = d\<lparr>ed_tokens := map (\<lambda>v. if v = u then u\<lparr>tn_UsedAt := Some (whole_ms (ei_now io)), tn_UsedBy := ag_ID ?a\<rparr> else v) (ed_tokens d),
       ed_agents := ed_agents d @ [?a\<lparr>ea_OrgID := tn_OrgID u, ag_Name := tn_Label u, ea_TokenID := tn_ID u, ag_Status := StatusPending,
         ag_CreatedAt := Some (whole_ms (ei_now io)), ag_TierCap := tn_AccessTier u\<rparr>]\<rparr>"
    using EnrollAgent_D[OF joins(2)] assms(2) unfolding tables_ok_def by blast
  define spent where "spent = u\<lparr>tn_UsedAt := Some (whole_ms (ei_now io)), tn_UsedBy := ag_ID ?a\<rparr>"
  define n where "n = ?a\<lparr>ea_OrgID := tn_OrgID u, ag_Name := tn_Label u, ea_TokenID := tn_ID u, ag_Status := StatusPending,
         ag_CreatedAt := Some (whole_ms (ei_now io)), ag_TierCap := tn_AccessTier u\<rparr>"
  define ts where "ts = map (\<lambda>v. if v = u then spent else v) (ed_tokens d)"
  have db: "ed_tokens d' = ts" "ed_agents d' = ed_agents d @ [n]" by (simp_all add: d' ts_def spent_def n_def)
  have ids: "map tn_ID ts = map tn_ID (ed_tokens d)" "map tn_Hash ts = map tn_Hash (ed_tokens d)" by (auto simp: ts_def spent_def)
  have spent: "spent \<in> set ts" "\<And>t. t \<in> set (ed_tokens d) \<Longrightarrow> t \<noteq> u \<Longrightarrow> t \<in> set ts" using u(1) by (force simp: ts_def)+
  have grant: "GrantableTier (tn_AccessTier u)" "\<forall>t \<in> set ts. GrantableTier (tn_AccessTier t)"
    using assms(2) u(1) by (auto simp: tables_ok_def ts_def spent_def)
  have new: "row_ok n" "enrolled_with n spent" "ag_ID n = ag_ID ?a" "ag_Status n \<noteq> StatusApproved"
    using joins(3-6) u grant(1) by (auto simp: row_ok_def agent_states_def enrolled_with_def n_def spent_def)
  have old: "\<exists>t \<in> set ts. enrolled_with r t" if r: "r \<in> set (ed_agents d)" for r
  proof -
    obtain t where t: "t \<in> set (ed_tokens d)" "enrolled_with r t" using tables_okD(2)[OF assms(2) r] by (elim bexE)
    then have "t \<noteq> u" using u(2) by (auto simp: usable_def enrolled_with_def)
    with t spent(2) show ?thesis by blast
  qed
  have "distinct (map ag_ID (ed_agents d @ [n]))" using assms(2) u(4) new(3) by (auto simp: tables_ok_def)
  moreover have "one_live (ed_agents d @ [n])" using assms(2) new(4) by (simp add: live_app tables_ok_def)
  moreover have "\<forall>r \<in> set (ed_agents d @ [n]). row_ok r \<and> (\<exists>t \<in> set ts. enrolled_with r t)"
  proof
    fix r assume "r \<in> set (ed_agents d @ [n])"
    then consider "r \<in> set (ed_agents d)" | "r = n" by auto
    then show "row_ok r \<and> (\<exists>t \<in> set ts. enrolled_with r t)"
    proof cases
      case 1
      then show ?thesis using old tables_okD(1)[OF assms(2)] by simp
    next
      case 2
      then show ?thesis using new(1,2) spent(1) by blast
    qed
  qed
  ultimately show ?thesis using grant(2) ids assms(2) by (simp add: tables_ok_def db)
next
  case (purged p)
  then show ?thesis using assms(2) by (auto simp: tables_ok_def live_filter distinct_map_filter)
qed


lemma keys_trans: "same_keys a b \<Longrightarrow> same_keys b c \<Longrightarrow> same_keys a c" and keys_refl [simp]: "same_keys a a"
  by (simp_all add: same_keys_def)

lemma shape_agents:
  assumes "shape env io fs en d d'" "tables_ok d" "b \<in> set (ed_agents d')"
  obtains a where "a \<in> set (ed_agents d)" "row_step env io fs en a b" | "ag_ID b = new_agent io" "ag_Status b = StatusPending" "ea_ApprovalAttempts b = 0"
  using assms(1)
proof cases
  case (joins hash req tier secret t)
  have h: "distinct (map tn_Hash (ed_tokens d))" using assms(2) by (simp add: tables_ok_def)
  show thesis by (rule EnrollAgent_D[OF joins(2) h]) (use that assms(3) r_same in auto)
next
  case (token t)
  then show thesis using that(1)[OF _ r_same] assms(3) by (auto simp: CreateTokenRow_def split: if_splits)
qed (use that r_same assms(3) in auto)

lemma shape_flights:
  assumes "shape env io fs en d d'" "tables_ok d" "flights_ok fs d" "new_agent io \<notin> (\<lambda>f. ag_ID (flight_row f)) ` set fs"
  shows "flights_ok fs d'"
  unfolding flights_ok_def
proof (intro ballI impI)
  fix f b assume f: "f \<in> set fs" and b: "b \<in> set (ed_agents d')" "ag_ID b = ag_ID (flight_row f)"
  from assms(1,2) b(1) show "same_keys (flight_row f) b"
  proof (rule shape_agents)
    fix a assume a: "a \<in> set (ed_agents d)" "row_step env io fs en a b"
    have k: "same_keys a b" using a(2) by (rule row_keys)
    then have "same_keys (flight_row f) a" using assms(3) f a(1) b(2) by (simp add: flights_ok_def same_keys_def)
    then show ?thesis using k keys_trans by blast
  next
    assume "ag_ID b = new_agent io"
    then show ?thesis using assms(4) f b(2) by (metis image_eqI)
  qed
qed

definition safe :: "flight list \<Rightarrow> enrol_db \<Rightarrow> bool" where "safe fs d \<longleftrightarrow> tables_ok d \<and> flights_ok fs d"

lemma safe_shape: "safe fs d \<Longrightarrow> move env io fs en d d' \<Longrightarrow> shape env io fs en d d'"
  by (simp add: safe_def tables_okD move_shape)

text \<open>An invariant of the tables that every shape of a move keeps is kept by whole calls.\<close>

lemma moves_keep:
  assumes "moves env io fs en d d'" "safe fs d" "new_agent io \<notin> (\<lambda>f. ag_ID (flight_row f)) ` set fs" "P d"
    and "\<And>d1 d2. safe fs d1 \<Longrightarrow> P d1 \<Longrightarrow> shape env io fs en d1 d2 \<Longrightarrow> P d2"
  shows "safe fs d' \<and> P d'"
  using assms(1)
proof (induction rule: rtranclp_induct)
  case base
  then show ?case using assms(2,4) by simp
next
  case (step d1 d2)
  then have sh: "shape env io fs en d1 d2" by (simp add: safe_shape)
  then have "safe fs d2" using step.IH shape_ok shape_flights assms(3) by (auto simp: safe_def)
  then show ?case using assms(5)[OF _ _ sh] step.IH by blast
qed

lemma drop_org_agents: "a \<in> set (ed_agents (DeleteOrgTables fl g d)) \<Longrightarrow> a \<in> set (ed_agents d)"
  by (auto simp: DeleteOrgTables_def split: if_splits)

lemma drop_org_safe:
  assumes "safe fs d"
  shows "safe fs (DeleteOrgTables fl g d)"
proof -
  let ?as = "filter (\<lambda>a. ea_OrgID a \<noteq> g) (ed_agents d)" and ?ts = "filter (\<lambda>t. tn_OrgID t \<noteq> g) (ed_tokens d)"
  have t: "tables_ok d" and f: "flights_ok fs d" using assms by (simp_all add: safe_def)
  have "\<exists>u \<in> set ?ts. enrolled_with a u" if "a \<in> set ?as" for a
  proof -
    have "a \<in> set (ed_agents d)" using that by simp
    from tables_okD(2)[OF t this] obtain u where "u \<in> set (ed_tokens d)" "enrolled_with a u" by (elim bexE)
    then show ?thesis using that by (intro bexI[of _ u]) (auto simp: enrolled_with_def)
  qed
  then have "tables_ok (d\<lparr>ed_agents := ?as, ed_tokens := ?ts\<rparr>)"
    using t by (simp add: tables_ok_def live_filter distinct_map_filter)
  then show ?thesis using t f by (auto simp: DeleteOrgTables_def safe_def flights_ok_def)
qed

text \<open>What a whole call keeps: an invariant that every shape of a move keeps, and the deletion of an organisation too if the call is one.\<close>

lemma step_keeps:
  assumes "enrol_step env io call (fs, st) = (r, fs', st')" "safe fs (es_db st)" "new_agent io \<notin> (\<lambda>f. ag_ID (flight_row f)) ` set fs" "P (es_db st)"
    and "\<And>d1 d2. safe fs d1 \<Longrightarrow> P d1 \<Longrightarrow> shape env io fs (enrolling call) d1 d2 \<Longrightarrow> P d2"
    and "\<And>g d. call = DropOrg g \<Longrightarrow> safe fs d \<Longrightarrow> P d \<Longrightarrow> P (DeleteOrgTables (ei_fails io) g d)"
  shows "safe fs (es_db st') \<and> P (es_db st')"
proof (cases "\<exists>g. call = DropOrg g")
  case True
  then show ?thesis using assms(1,2,4,6) drop_org_safe by auto
next
  case False
  show ?thesis by (rule moves_keep[where P = P, OF enrol_moves[OF assms(1)] assms(2-5)]) (use False in auto)
qed

subsection \<open>Approvals in progress\<close>

text \<open>Where an approval in progress comes from: the call that read the agent and the code that was typed.\<close>

definition came_from :: "enrol_log \<Rightarrow> flight \<Rightarrow> bool" where
  "came_from L f \<longleftrightarrow> (\<exists>g actor tier a typed io code st. (f = Looked g actor tier a typed \<or> (\<exists>n. f = Counted g actor tier a typed n))
     \<and> (io, LookAt g actor (ag_ID a) code tier, SawIt, st) \<in> set L \<and> find_in g (ag_ID a) (es_db st) = Some a \<and> ag_Status a = StatusPending
     \<and> NormalizeCode code = Some typed)"

lemma came_from_more: "came_from L f \<Longrightarrow> came_from (e # L) f"
  unfolding came_from_def by (simp only: list.set insert_iff) blast

lemma drop_nth_set: "set (drop_nth k xs) \<subseteq> set xs"
  by (auto simp: drop_nth_def dest: in_set_takeD in_set_dropD)

lemma look_ok:
  assumes "approve_look env io g i code st = (Inr (a, typed), st')"
  shows "st' = st" "find_in g i (es_db st) = Some a" "ag_ID a = i" "ea_OrgID a = g" "ag_Status a = StatusPending" "NormalizeCode code = Some typed"
proof -
  obtain b where b: "AgentInOrg io g i st = Inr b" using assms by (cases "AgentInOrg io g i st") (simp_all add: approve_look_def)
  have "\<not> waited_too_long env io b" using assms b by (auto simp: approve_look_def Let_def)
  then have "ag_Status b = StatusPending" "NormalizeCode code = Some typed" "st' = st" "a = b"
    using assms b by (auto simp: approve_look_def Let_def split: if_splits option.splits)
  then show "st' = st" "find_in g i (es_db st) = Some a" "ag_ID a = i" "ea_OrgID a = g" "ag_Status a = StatusPending" "NormalizeCode code = Some typed"
    using AgentInOrg_found[OF b] by simp_all
qed

lemma step_flights:
  assumes "enrol_step env io call (fs, st) = (r, fs', st')" "f \<in> set fs'"
  obtains "f \<in> set fs"
  | g actor i code tier a typed where "call = LookAt g actor i code tier" "r = SawIt" "f = Looked g actor tier a typed"
      "approve_look env io g i code st = (Inr (a, typed), st)"
  | k g actor tier a typed n where "call = CountIt k" "r = Attempt (ag_ID a) n" "Looked g actor tier a typed \<in> set fs" "f = Counted g actor tier a typed n"
proof (cases call)
  case (LookAt g actor i code tier)
  then show thesis using assms that(1,2) by (fastforce split: sum.splits prod.splits dest: look_ok(1))
next
  case (CountIt k)
  then show thesis using assms that(1,3) drop_nth_set[of k fs]
    by (auto split: sum.splits prod.splits flight.splits if_splits dest!: set_update_subset_insert[THEN subsetD]) (metis linorder_not_less nth_mem)
next
  case (DecideIt k)
  then show thesis using assms that(1) drop_nth_set[of k fs] by (auto simp: with_flights_def split: flight.splits if_splits)
qed (use assms that(1) in \<open>auto simp: with_flights_def\<close>)


lemma steps_safe:
  assumes "enrol_step env io call (fs, st) = (r, fs', st')" "safe fs (es_db st)" "new_agent io \<notin> (\<lambda>f. ag_ID (flight_row f)) ` set fs"
  shows "safe fs' (es_db st')"
proof -
  have s: "safe fs (es_db st')" using step_keeps[OF assms, of "\<lambda>_. True"] by simp
  have "\<forall>a \<in> set (ed_agents (es_db st')). ag_ID a = ag_ID (flight_row f) \<longrightarrow> same_keys (flight_row f) a" if f: "f \<in> set fs'" for f
    using assms(1) f
  proof (rule step_flights)
    assume "f \<in> set fs"
    then show ?thesis using s by (simp add: safe_def flights_ok_def)
  next
    fix g actor i code tier a typed
    assume c: "call = LookAt g actor i code tier" "r = SawIt" "f = Looked g actor tier a typed" "approve_look env io g i code st = (Inr (a, typed), st)"
    then have "st' = st" using assms(1) by simp
    moreover have "a \<in> set (ed_agents (es_db st))" using look_ok(2)[OF c(4)] by (auto simp: find_Some_iff)
    moreover have "b = a" if "b \<in> set (ed_agents (es_db st))" "ag_ID b = ag_ID a" for b
      using that \<open>a \<in> set (ed_agents (es_db st))\<close> assms(2) by (auto simp: safe_def tables_ok_def distinct_map inj_on_def)
    ultimately show ?thesis using c(3) by (metis flight_row.simps(1) keys_refl)
  next
    fix k g actor tier a typed n
    assume "Looked g actor tier a typed \<in> set fs" "f = Counted g actor tier a typed n"
    then show ?thesis using s by (force simp: safe_def flights_ok_def)
  qed
  then show ?thesis using s by (simp add: safe_def flights_ok_def)
qed

lemma start_safe: "safe [] (es_db start_st)"
  by (simp add: safe_def tables_ok_def flights_ok_def start_st_def start_db_def one_live_def)

lemma reach_safe: "enrol_reach env L fs st \<Longrightarrow> safe fs (es_db st)"
  by (induction rule: enrol_reach.induct) (blast intro: start_safe steps_safe)+

lemma reach_came: "enrol_reach env L fs st \<Longrightarrow> f \<in> set fs \<Longrightarrow> came_from L f"
proof (induction arbitrary: f rule: enrol_reach.induct)
  case (steps L fs st io call r fs' st')
  from steps.hyps(3) steps.prems show ?case
  proof (rule step_flights)
    assume "f \<in> set fs"
    then show ?thesis using steps.IH came_from_more by blast
  next
    fix g actor i code tier a typed
    assume c: "call = LookAt g actor i code tier" "r = SawIt" "f = Looked g actor tier a typed" "approve_look env io g i code st = (Inr (a, typed), st)"
    have "(io, LookAt g actor (ag_ID a) code tier, SawIt, st) \<in> set ((io, call, r, st) # L)" using look_ok(3)[OF c(4)] c(1,2) by simp
    with look_ok[OF c(4)] show ?thesis unfolding came_from_def c(3) by blast
  next
    fix k g actor tier a typed n
    assume c: "Looked g actor tier a typed \<in> set fs" "f = Counted g actor tier a typed n"
    then have "came_from L f" using steps.IH[OF c(1)] by (auto simp: came_from_def)
    then show ?thesis by (rule came_from_more)
  qed
qed simp

text \<open>
  C12. In every state a run reaches the tables are well typed: every agent has one of the five statuses, tiers in their ranges, an approval hash of
  thirty-two bytes, and a certificate exactly while it is approved; an approved agent's tier is no more than its token allowed; every agent was enrolled
  with one spent token of its own, whose organisation, name and tier it has and whose cluster it is if the token names one; and at most one agent of a
  cluster is approved.
\<close>

theorem enrolment_well_typed:
  assumes "enrol_reach env L fs st"
  shows "tables_ok (es_db st)"
  using reach_safe[OF assms] by (simp add: safe_def)

text \<open>
  C10. A token lets one agent in: two agents enrolled with the same token are the same agent, in every state a run reaches.
\<close>

theorem token_enrols_one:
  assumes "enrol_reach env L fs st" "a \<in> set (ed_agents (es_db st))" "b \<in> set (ed_agents (es_db st))" "ea_TokenID a = ea_TokenID b"
  shows "a = b"
proof -
  have ok: "tables_ok (es_db st)" using reach_safe[OF assms(1)] by (simp add: safe_def)
  obtain t u where t: "t \<in> set (ed_tokens (es_db st))" "enrolled_with a t" and u: "u \<in> set (ed_tokens (es_db st))" "enrolled_with b u"
    using tables_okD(2)[OF ok] assms(2,3) by meson
  have "tn_ID t = tn_ID u" using t u assms(4) by (simp add: enrolled_with_def)
  then have "t = u" using t(1) u(1) ok by (auto simp: tables_ok_def distinct_map inj_on_def)
  then have "ag_ID a = ag_ID b" using t u by (simp add: enrolled_with_def)
  then show ?thesis using assms(2,3) tables_okD(4)[OF ok] by (auto simp: distinct_map inj_on_def)
qed


subsection \<open>Only the code of its own cluster approves an agent\<close>

definition justified :: "enrol_env \<Rightarrow> enrol_log \<Rightarrow> agent_row \<Rightarrow> bool" where
  "justified env L a \<longleftrightarrow> (\<exists>io code tier st b. (io, LookAt (ea_OrgID a) (ag_ApprovedBy a) (ag_ID a) code tier, SawIt, st) \<in> set L
     \<and> find_in (ea_OrgID a) (ag_ID a) (es_db st) = Some b \<and> ag_Status b = StatusPending \<and> same_keys b a
     \<and> MatchesCode (en_w env) code (ea_CSR b) (ea_ApprovalHash b) \<and> CheckTier tier (ag_InstalledTier b) (ag_TierCap b) = TierAllowed)"

lemma norm_alphabet: "norm_runes s = Some n \<Longrightarrow> set n \<subseteq> set approval_alphabet"
  by (induction s arbitrary: n) (auto split: if_splits)

lemma Normalize_again: "NormalizeCode s = Some n \<Longrightarrow> NormalizeCode n = Some n"
proof -
  assume "NormalizeCode s = Some n"
  then have n: "set n \<subseteq> set approval_alphabet" "length n = CodeLength" using norm_alphabet by (auto simp: NormalizeCode_def split: option.splits if_splits)
  then show ?thesis using reads_self by (simp add: Normalize_reads)
qed

lemma Matches_normal: "NormalizeCode code = Some typed \<Longrightarrow> MatchesCode w code q h = MatchesCode w typed q h"
  by (cases h) (simp_all add: MatchesCode_def HashCode_def Normalize_again)

lemma justified_more: "justified env L a \<Longrightarrow> justified env (e # L) a"
  unfolding justified_def by (simp only: list.set insert_iff) blast

lemma step_justified:
  assumes "row_step env io fs en a b" "ag_Status b = StatusApproved" "ag_Status a = StatusApproved \<longrightarrow> justified env L a"
    "\<forall>f \<in> set fs. came_from L f \<and> (ag_ID a = ag_ID (flight_row f) \<longrightarrow> same_keys (flight_row f) a)"
  shows "justified env L b"
  using assms(1)
proof cases
  case (r_approve g actor tier c typed n t cl leaf na)
  then have c: "came_from L (Counted g actor tier c typed n)" "same_keys c a" using assms(4) by force+
  then obtain io code st where l: "(io, LookAt g actor (ag_ID c) code tier, SawIt, st) \<in> set L" "find_in g (ag_ID c) (es_db st) = Some c"
    "ag_Status c = StatusPending" "NormalizeCode code = Some typed" by (auto simp: came_from_def)
  have "g = ea_OrgID c" using l(2) by (auto simp: find_Some_iff)
  moreover have "same_keys c b" using c(2) row_keys[OF assms(1)] keys_trans by blast
  moreover have "ag_ApprovedBy b = actor" using r_approve by simp
  ultimately show ?thesis unfolding justified_def
    using l r_approve(6,7) Matches_normal[OF l(4)] by (intro exI[of _ io] exI[of _ code] exI[of _ tier] exI[of _ st] exI[of _ c]) (auto simp: same_keys_def)
qed (use assms(2,3) in \<open>auto simp: justified_def same_keys_def\<close>)

text \<open>
  C2. An agent is approved only because a person of its organisation typed the code its own cluster printed: whenever a run has an approved agent, an
  approval of it by the person its row names read, while it was pending, a request whose code is the one that was typed, for the same cluster and token,
  and a tier the install, the token and the release allow. This holds however approvals overlap with each other and with every other call.
\<close>

theorem approval_needs_code:
  assumes "enrol_reach env L fs st" "a \<in> set (ed_agents (es_db st))" "ag_Status a = StatusApproved"
  shows "justified env L a"
  using assms
proof (induction arbitrary: a rule: enrol_reach.induct)
  case starts
  then show ?case by (simp add: start_st_def start_db_def)
next
  case (steps L fs st io call r fs' st')
  let ?P = "\<lambda>d. \<forall>a \<in> set (ed_agents d). ag_Status a = StatusApproved \<longrightarrow> justified env L a"
  have came: "\<forall>f \<in> set fs. came_from L f" using reach_came[OF steps.hyps(1)] by blast
  have "safe fs (es_db st') \<and> ?P (es_db st')"
  proof (rule step_keeps[OF steps.hyps(3) reach_safe[OF steps.hyps(1)] steps.hyps(2)])
    show "?P (es_db st)" using steps.IH by blast
  next
    show "?P (DeleteOrgTables (ei_fails io) g d)" if "?P d" for g d using that drop_org_agents by blast
  next
    fix d1 d2 assume d: "safe fs d1" "?P d1" "shape env io fs (enrolling call) d1 d2"
    show "?P d2"
    proof (intro ballI impI)
      fix b assume b: "b \<in> set (ed_agents d2)" "ag_Status b = StatusApproved"
      have t: "tables_ok d1" using d(1) by (simp add: safe_def)
      from d(3) t b(1) show "justified env L b"
      proof (rule shape_agents)
        fix c assume c: "c \<in> set (ed_agents d1)" "row_step env io fs (enrolling call) c b"
        show ?thesis by (rule step_justified[OF c(2) b(2)]) (use c(1) d(1,2) came in \<open>auto simp: safe_def flights_ok_def\<close>)
      next
        assume "ag_Status b = StatusPending"
        then show ?thesis using b(2) by simp
      qed
    qed
  qed
  then show ?case using steps.prems justified_more by blast
qed

definition ended :: "enrol_db \<Rightarrow> string \<Rightarrow> string \<Rightarrow> string \<Rightarrow> bool" where
  "ended d g i s \<longleftrightarrow> (\<exists>a \<in> set (ed_agents d). ag_ID a = i \<and> ea_OrgID a = g \<and> ag_Status a = s)"

inductive later :: "enrol_env \<Rightarrow> enrol_log \<times> enrol_state \<Rightarrow> enrol_log \<times> enrol_state \<Rightarrow> bool" for env s where
  now: "later env s s"
| then_call: "later env s (L, fs, st) \<Longrightarrow> new_agent io \<notin> (\<lambda>f. ag_ID (flight_row f)) ` set fs \<Longrightarrow> enrol_step env io call (fs, st) = (r, fs', st')
    \<Longrightarrow> later env s ((io, call, r, st) # L, fs', st')"

lemma later_reach: "later env s s' \<Longrightarrow> enrol_reach env (fst s) (fst (snd s)) (snd (snd s)) \<Longrightarrow> enrol_reach env (fst s') (fst (snd s')) (snd (snd s'))"
  by (induction rule: later.induct) (auto intro: enrol_reach.steps)

lemma shape_ended:
  assumes "shape env io fs en d d'" "ended d g i s" "s \<in> {StatusRejected, StatusRevoked}" "tables_ok d"
  shows "ended d' g i s"
proof -
  obtain a where a: "a \<in> set (ed_agents d)" "ag_ID a = i" "ea_OrgID a = g" "ag_Status a = s" using assms(2) by (auto simp: ended_def)
  have keep: "ag_ID b = i \<and> ea_OrgID b = g \<and> ag_Status b = s" if "row_step env io fs en a b" for b
    using that a(2-4) assms(3) by cases auto
  show ?thesis using assms(1)
  proof cases
    case (rows F)
    then show ?thesis using a keep unfolding ended_def by auto
  next
    case (joins hash req tier secret t)
    have h: "distinct (map tn_Hash (ed_tokens d))" using assms(4) by (simp add: tables_ok_def)
    show ?thesis by (rule EnrollAgent_D[OF joins(2) h]) (use a in \<open>auto simp: ended_def\<close>)
  qed (use a assms(3) in \<open>auto simp: ended_def CreateTokenRow_def split: if_splits\<close>)
qed

text \<open>
  C11. An agent that was rejected or revoked stays so: as long as its organisation is not deleted, its row is never dropped and never leaves that
  status, whatever is called later, its own retries and renewals and the deletion of other organisations included.
\<close>

theorem ended_for_good:
  assumes "enrol_reach env L fs st" "ended (es_db st) g i s" "s \<in> {StatusRejected, StatusRevoked}" "later env (L, fs, st) (L', fs', st')"
  shows "\<exists>K. L' = K @ L \<and> ((\<exists>io r q. (io, DropOrg g, r, q) \<in> set K) \<or> ended (es_db st') g i s)"
proof -
  let ?Q = "\<lambda>L' d. \<exists>K. L' = K @ L \<and> ((\<exists>io r q. (io, DropOrg g, r, q) \<in> set K) \<or> ended d g i s)"
  have "?Q (fst s') (es_db (snd (snd s')))" if "later env (L, fs, st) s'" for s' using that
  proof (induction rule: later.induct)
    case (then_call L1 fs1 st1 io call r fs2 st2)
    then obtain K where K: "L1 = K @ L" "(\<exists>io r q. (io, DropOrg g, r, q) \<in> set K) \<or> ended (es_db st1) g i s" by auto
    have r: "enrol_reach env L1 fs1 st1" using later_reach[OF then_call.hyps(1)] assms(1) by simp
    have "(\<exists>x y q. (x, DropOrg g, y, q) \<in> set ((io, call, r, st1) # K)) \<or> ended (es_db st2) g i s"
    proof (cases "call = DropOrg g \<or> (\<exists>io r q. (io, DropOrg g, r, q) \<in> set K)")
      case False
      have "safe fs1 (es_db st2) \<and> ended (es_db st2) g i s"
      proof (rule step_keeps[OF then_call.hyps(3) reach_safe[OF r] then_call.hyps(2)])
        show "ended (es_db st1) g i s" using K(2) False by simp
        show "ended d2 g i s" if "safe fs1 d1" "ended d1 g i s" "shape env io fs1 (enrolling call) d1 d2" for d1 d2
          using that shape_ended assms(3) by (auto simp: safe_def)
        show "ended (DeleteOrgTables (ei_fails io) h d) g i s" if "call = DropOrg h" "ended d g i s" for h d
          using that False by (auto simp: ended_def DeleteOrgTables_def)
      qed
      then show ?thesis by simp
    next
      case True
      then show ?thesis unfolding list.set by blast
    qed
    then show ?case unfolding fst_conv snd_conv K(1)
      by (intro exI[of _ "(io, call, r, st1) # K"] conjI) (rule append_Cons[symmetric], assumption)
  qed (use assms(2) in simp)
  from this[OF assms(4)] show ?thesis by simp
qed

end
