(* ===== verification/EnrolCodes.thy ===== *)
theory EnrolCodes
  imports EnrolSafe
begin

text \<open>
  How many codes may be tried for one request to enrol, and that an enrolment that is approved with its code succeeds.
\<close>

subsection \<open>Attempts that count\<close>

text \<open>
  A call opens a request when the agent it answers with was not there, had expired or had waited too long: the code is a new one then. A retry that
  continues a pending request or an approved agent opens nothing.
\<close>

definition opens :: "enrol_env \<Rightarrow> enrol_io \<Rightarrow> string \<Rightarrow> enrol_result \<Rightarrow> enrol_st \<Rightarrow> bool" where
  "opens env io i r st = ((case r of Enrolled ans \<Rightarrow> an_AgentID ans = i | _ \<Rightarrow> False)
     \<and> \<not> list_ex (\<lambda>b. ag_ID b = i \<and> (ag_Status b = StatusApproved \<or> ag_Status b = StatusPending \<and> \<not> waited_too_long env io b)) (ed_agents (es_db st)))"

text \<open>The codes that were let through to the comparison since the request was last opened.\<close>

fun tries :: "enrol_env \<Rightarrow> string \<Rightarrow> enrol_log \<Rightarrow> nat" where
  "tries env i [] = 0"
| "tries env i ((io, call, r, st) # L) =
     (if opens env io i r st then 0 else (case r of Attempt j n \<Rightarrow> if j = i then 1 else 0 | _ \<Rightarrow> 0) + tries env i L)"

definition grows :: "enrol_db \<Rightarrow> enrol_db \<Rightarrow> string \<Rightarrow> bool" where
  "grows d d' i \<longleftrightarrow> (\<forall>b \<in> set (ed_agents d'). ag_ID b = i \<longrightarrow> (\<exists>a \<in> set (ed_agents d). ag_ID a = i \<and> ea_ApprovalAttempts a \<le> ea_ApprovalAttempts b))"

lemma grows_refl [simp]: "grows d d i"
  by (auto simp: grows_def)

lemma grows_trans: "grows d d1 i \<Longrightarrow> grows d1 d2 i \<Longrightarrow> grows d d2 i"
  unfolding grows_def by (meson le_trans)

lemma step_grows: "row_step env io fs False a b \<Longrightarrow> ea_ApprovalAttempts a \<le> ea_ApprovalAttempts b"
  by (induction rule: row_step.induct) simp_all

lemma shape_grows: "shape env io fs False d d' \<Longrightarrow> grows d d' i"
proof (induction rule: shape.induct)
  case (rows F)
  then show ?case using step_grows row_keys by (fastforce simp: grows_def same_keys_def)
next
  case (token t d')
  then show ?case by (auto simp: CreateTokenRow_def grows_def split: if_splits)
qed (auto simp: grows_def)

lemma moves_grow:
  assumes "moves env io fs False d d'" "safe fs d" "new_agent io \<notin> (\<lambda>f. ag_ID (flight_row f)) ` set fs"
  shows "grows d d' i"
  using moves_keep[OF assms, of "\<lambda>d'. grows d d' i"] shape_grows grows_trans by (metis grows_refl)

lemma changed:
  "change_agent q fl g i p f d = Inr d' \<Longrightarrow> ed_agents d' = map (\<lambda>a. if ag_ID a = i \<and> ea_OrgID a = g \<and> p a then f a else a) (ed_agents d)"
  by (auto simp: change_agent_def update_agents_def Let_def split: if_splits)

lemma resumed:
  assumes "ResumeRow fl g j r reopen now d = Inr d'"
  shows "\<exists>F. ed_agents d' = map F (ed_agents d) \<and> (\<forall>a. ag_ID (F a) = ag_ID a \<and> (ag_ID a \<noteq> j \<or> \<not> reopen \<longrightarrow> ea_ApprovalAttempts (F a) = ea_ApprovalAttempts a))"
  using assms unfolding ResumeRow_def Let_def by (auto split: if_splits dest!: changed)

lemma resumed_grows:
  assumes "ResumeRow fl g j r reopen now d = Inr d'" "i \<noteq> j \<or> \<not> reopen"
  shows "grows d d' i"
proof -
  obtain F where F: "ed_agents d' = map F (ed_agents d)" "\<And>a. ag_ID (F a) = ag_ID a"
    "\<And>a. ag_ID a \<noteq> j \<or> \<not> reopen \<Longrightarrow> ea_ApprovalAttempts (F a) = ea_ApprovalAttempts a" using resumed[OF assms(1)] by blast
  show ?thesis unfolding grows_def F(1)
  proof (intro ballI impI)
    fix b assume "b \<in> set (map F (ed_agents d))" "ag_ID b = i"
    then obtain a where a: "a \<in> set (ed_agents d)" "b = F a" by auto
    moreover have "ag_ID a = i" using \<open>ag_ID b = i\<close> F(2)[of a] a(2) by simp
    ultimately show "\<exists>a \<in> set (ed_agents d). ag_ID a = i \<and> ea_ApprovalAttempts a \<le> ea_ApprovalAttempts b"
      using F(3)[of a] assms(2) by (intro bexI[of _ a]) auto
  qed
qed

lemma resume_row_grows:
  assumes "resume_store env io req prev secret reopen st = (r, st')"
  shows "grows (es_db st) (es_db st') i \<or> reopen \<and> i = ag_ID prev \<and> (\<exists>ans. r = Inr (Some ans) \<and> an_AgentID ans = i)"
proof -
  define row where "row = \<lparr>rs_PollSecretHash = esha env secret, rs_ApprovalHash = (if rq_CodeHash req = [] then None else Some (rq_CodeHash req)),
    rs_CSR = rq_CSR req, rs_Version = Printable (rq_Version req) 40, rs_K8sVersion = Printable (rq_K8s req) 40, rs_IP = ei_ip io\<rparr>"
  show ?thesis
  proof (cases "ResumeRow (ei_fails io) (ea_OrgID prev) (ag_ID prev) row reopen (ei_now io) (es_db st)")
    case (Inl e)
    then show ?thesis using assms by (simp add: resume_store_def row_def)
  next
    case (Inr d)
    then have "grows (es_db st) d i \<or> reopen \<and> i = ag_ID prev" using resumed_grows by blast
    then show ?thesis using assms Inr by (auto simp: resume_store_def row_def[symmetric] enrollResponse_def Let_def)
  qed
qed

lemma AgentByToken_found: "AgentByToken fl h d = Inr prev \<Longrightarrow> prev \<in> set (ed_agents d)"
  by (auto simp: AgentByToken_def find_agent_def find_Some_iff split: if_splits option.splits)

definition not_waiting :: "enrol_env \<Rightarrow> enrol_io \<Rightarrow> enrol_db \<Rightarrow> string \<Rightarrow> bool" where
  "not_waiting env io d i \<longleftrightarrow> (\<forall>b \<in> set (ed_agents d). ag_ID b = i \<longrightarrow> ag_Status b \<noteq> StatusApproved \<and> (ag_Status b = StatusPending \<longrightarrow> waited_too_long env io b))"

lemma resume_grows:
  assumes "resumeEnrollment env io req secret st = (r, st')" "safe fs (es_db st)" "new_agent io \<notin> (\<lambda>f. ag_ID (flight_row f)) ` set fs"
  shows "grows (es_db st) (es_db st') i \<or> not_waiting env io (es_db st) i \<and> (\<exists>ans. r = Inr (Some ans) \<and> an_AgentID ans = i)"
proof (cases "AgentByToken (ei_fails io) (esha env (rq_Token req)) (es_db st)")
  case (Inl e)
  then show ?thesis using assms(1) by (simp add: resumeEnrollment_def)
next
  case (Inr prev)
  let ?late = "snd (ExpirePending env io (ea_OrgID prev) st)"
  have in_st: "prev \<in> set (ed_agents (es_db st))" using Inr by (rule AgentByToken_found)
  have only: "b = prev" if "b \<in> set (ed_agents (es_db st))" "ag_ID b = ag_ID prev" for b
    using that in_st assms(2) by (auto simp: safe_def tables_ok_def distinct_map inj_on_def)
  have expired: "grows (es_db st) (es_db ?late) i" by (rule moves_grow[OF expire_moves assms(2,3)])
  consider (same) "st' = st"
    | (late) "waited_too_long env io prev" "resume_store env io req prev secret True ?late = (r, st')"
    | (retry) "resume_store env io req prev secret False st = (r, st')"
    | (again) "ag_Status prev = StatusExpired" "resume_store env io req prev secret True st = (r, st')"
    using assms(1) Inr by (auto simp: resumeEnrollment_def split: if_splits)
  then show ?thesis
  proof cases
    case late
    have "ag_Status prev = StatusPending" using late(1) by (simp add: waited_too_long_def)
    then have "not_waiting env io (es_db st) (ag_ID prev)" using only late(1) unfolding not_waiting_def by (metis states_differ(2))
    with resume_row_grows[OF late(2), of i] grows_trans[OF expired] show ?thesis by blast
  next
    case retry
    with resume_row_grows[of env io req prev secret False st r st' i] show ?thesis by blast
  next
    case again
    have "not_waiting env io (es_db st) (ag_ID prev)" using only again(1) unfolding not_waiting_def by (metis states_differ(8,14))
    with resume_row_grows[OF again(2), of i] show ?thesis by blast
  qed simp
qed

lemma Enroll_grows:
  assumes "Enroll env io req st = (r, st')" "safe fs (es_db st)" "new_agent io \<notin> (\<lambda>f. ag_ID (flight_row f)) ` set fs"
  shows "grows (es_db st) (es_db st') i \<or> not_waiting env io (es_db st) i \<and> (\<exists>ans. r = Inr ans \<and> an_AgentID ans = i)"
  using assms(1)
proof (rule Enroll_cases)
  assume "es_db st' = es_db st"
  then show ?thesis by simp
next
  fix l rnd
  assume e: "enroll_store env io req (rq_Tier req) (encode64 rnd) (st\<lparr>es_enrollRL := l\<rparr>) = (r, st')"
  let ?a = "fresh_agent env io req (rq_Tier req) (encode64 rnd)"
  show ?thesis
  proof (cases "EnrollAgent (ei_fails io) (esha env (rq_Token req)) ?a (ei_now io) (es_db st)")
    case (Inl x)
    show ?thesis
    proof (cases "x = StTokenInvalid")
      case True
      obtain q st2 where q: "resumeEnrollment env io req (encode64 rnd) (st\<lparr>es_enrollRL := l\<rparr>) = (q, st2)" by fastforce
      have s: "safe fs (es_db (st\<lparr>es_enrollRL := l\<rparr>))" using assms(2) by simp
      show ?thesis using resume_grows[OF q s assms(3), of i] e Inl True q
        by (auto simp: enroll_store_def split: sum.splits option.splits)
    next
      case False
      then show ?thesis using e Inl by (cases x) (auto simp: enroll_store_def)
    qed
  next
    case (Inr p)
    then obtain t d where p: "EnrollAgent (ei_fails io) (esha env (rq_Token req)) ?a (ei_now io) (es_db st) = Inr (t, d)" by (cases p) auto
    have h: "distinct (map tn_Hash (ed_tokens (es_db st)))" using assms(2) by (simp add: safe_def tables_ok_def)
    have r: "r = Inr (enrollResponse env io (ag_ID ?a) (encode64 rnd))" "es_db st' = d" using e p by (auto simp: enroll_store_def Let_def)
    obtain u n where d: "ed_agents d = ed_agents (es_db st) @ [n]" "ag_ID n = ag_ID ?a" and new: "\<forall>b \<in> set (ed_agents (es_db st)). ag_ID b \<noteq> ag_ID ?a"
      by (rule EnrollAgent_D[OF p h]) auto
    show ?thesis
    proof (cases "i = ag_ID ?a")
      case True
      then show ?thesis using new r(1) by (simp add: not_waiting_def enrollResponse_def)
    next
      case False
      then show ?thesis using d r(2) by (auto simp: grows_def)
    qed
  qed
qed


lemma opens_when:
  "not_waiting env io (es_db st) i \<Longrightarrow> an_AgentID ans = i \<Longrightarrow> opens env io i (Enrolled ans) st"
  by (auto simp: opens_def not_waiting_def list_ex_iff)

text \<open>What a counted attempt does: the row was there, it counts one more, and no row of that agent has more than what was answered.\<close>

lemma count_grows:
  assumes "approve_count io a st = (Inr n, st')" "safe fs (es_db st)"
  shows "n \<le> MaxApprovalAttempts" "\<exists>b \<in> set (ed_agents (es_db st)). ag_ID b = ag_ID a \<and> ea_ApprovalAttempts b < n"
    "\<forall>b \<in> set (ed_agents (es_db st')). ag_ID b = ag_ID a \<longrightarrow> ea_ApprovalAttempts b = n"
proof -
  obtain d where c: "CountApprovalAttempt (ei_fails io) (ea_OrgID a) (ag_ID a) (es_db st) = Inr (n, d)" and le: "n \<le> MaxApprovalAttempts"
    and st': "es_db st' = d" using assms(1) by (auto simp: approve_count_def Let_def split: sum.splits if_splits)
  let ?hit = "\<lambda>b. ag_ID b = ag_ID a \<and> ea_OrgID b = ea_OrgID a \<and> ag_Status b = StatusPending"
  let ?F = "\<lambda>b. if ?hit b then b\<lparr>ea_ApprovalAttempts := ea_ApprovalAttempts b + 1\<rparr> else b"
  obtain c where d: "change_agent XCountAttempt (ei_fails io) (ea_OrgID a) (ag_ID a) (\<lambda>b. ag_Status b = StatusPending)
      (\<lambda>b. b\<lparr>ea_ApprovalAttempts := ea_ApprovalAttempts b + 1\<rparr>) (es_db st) = Inr d" and f: "find_agent (ag_ID a) d = Some c" "n = ea_ApprovalAttempts c"
    using c by (auto simp: CountApprovalAttempt_def split: sum.splits option.splits)
  have agents: "ed_agents d = map ?F (ed_agents (es_db st))" using changed[OF d] by simp
  have "length (filter ?hit (ed_agents (es_db st))) = 1" using d by (auto simp: change_agent_def Let_def split: if_splits)
  then have "filter ?hit (ed_agents (es_db st)) \<noteq> []" by (metis list.size(3) zero_neq_one)
  then obtain b where b: "b \<in> set (ed_agents (es_db st))" "?hit b" by (auto simp: filter_empty_conv)
  have only: "x = b" if "x \<in> set (ed_agents (es_db st))" "ag_ID x = ag_ID a" for x
    using that b assms(2) by (auto simp: safe_def tables_ok_def distinct_map inj_on_def)
  have all: "ea_ApprovalAttempts y = ea_ApprovalAttempts b + 1" if y: "y \<in> set (ed_agents d)" "ag_ID y = ag_ID a" for y
  proof -
    from y(1) have "y \<in> ?F ` set (ed_agents (es_db st))" unfolding agents set_map .
    then obtain x where x: "y = ?F x" "x \<in> set (ed_agents (es_db st))" by (rule imageE)
    then have "ag_ID x = ag_ID a" using y(2) by (auto split: if_splits)
    then have "x = b" using only x(2) by blast
    then show ?thesis using x(1) b(2) by simp
  qed
  have "c \<in> set (ed_agents d)" "ag_ID c = ag_ID a" using f(1) by (auto simp: find_agent_def find_Some_iff)
  then have n: "n = ea_ApprovalAttempts b + 1" using all f(2) by simp
  show "n \<le> MaxApprovalAttempts" by (rule le)
  show "\<exists>b \<in> set (ed_agents (es_db st)). ag_ID b = ag_ID a \<and> ea_ApprovalAttempts b < n" using b n by auto
  show "\<forall>b \<in> set (ed_agents (es_db st')). ag_ID b = ag_ID a \<longrightarrow> ea_ApprovalAttempts b = n" using all n st' by simp
qed

text \<open>The answer to one attempt too many says that the request is locked, which stands for rejected; the request is still pending.\<close>

lemma locked_but_pending:
  assumes "approve_count io a st = (Inl (EWrongCode TooManyCodes 0 True), st')"
  shows "\<exists>b \<in> set (ed_agents (es_db st')). ag_ID b = ag_ID a \<and> ag_Status b = StatusPending"
proof -
  obtain n d where c: "CountApprovalAttempt (ei_fails io) (ea_OrgID a) (ag_ID a) (es_db st) = Inr (n, d)" "es_db st' = d"
    using assms by (auto simp: approve_count_def Let_def split: sum.splits if_splits)
  let ?hit = "\<lambda>b. ag_ID b = ag_ID a \<and> ea_OrgID b = ea_OrgID a \<and> ag_Status b = StatusPending"
  let ?f = "\<lambda>b. b\<lparr>ea_ApprovalAttempts := ea_ApprovalAttempts b + 1\<rparr>"
  have d: "change_agent XCountAttempt (ei_fails io) (ea_OrgID a) (ag_ID a) (\<lambda>b. ag_Status b = StatusPending) ?f (es_db st) = Inr d"
    using c(1) by (auto simp: CountApprovalAttempt_def split: sum.splits option.splits)
  then have "length (filter ?hit (ed_agents (es_db st))) = 1" by (auto simp: change_agent_def Let_def split: if_splits)
  then have "filter ?hit (ed_agents (es_db st)) \<noteq> []" by (metis list.size(3) zero_neq_one)
  then obtain b where b: "b \<in> set (ed_agents (es_db st))" "?hit b" by (auto simp: filter_empty_conv)
  have "?f b \<in> set (ed_agents d)" unfolding changed[OF d] set_map using b by (intro image_eqI[of _ _ b]) simp_all
  then show ?thesis using b(2) c(2) by (intro bexI[of _ "?f b"]) simp_all
qed

definition counted_right :: "enrol_env \<Rightarrow> enrol_log \<Rightarrow> enrol_db \<Rightarrow> string \<Rightarrow> bool" where
  "counted_right env L d i \<longleftrightarrow> tries env i L \<le> MaxApprovalAttempts \<and> (\<forall>b \<in> set (ed_agents d). ag_ID b = i \<longrightarrow> tries env i L \<le> ea_ApprovalAttempts b)"

lemma counted_grows: "counted_right env L d i \<Longrightarrow> grows d d' i \<Longrightarrow> tries env i L' \<le> tries env i L \<Longrightarrow> counted_right env L' d' i"
  unfolding counted_right_def grows_def by (meson le_trans)

lemma step_answers:
  assumes "enrol_step env io call (fs, st) = (r, fs', st')"
  shows "r = Attempt i n \<Longrightarrow> \<exists>k g actor tier a typed. call = CountIt k \<and> Looked g actor tier a typed \<in> set fs \<and> ag_ID a = i \<and> approve_count io a st = (Inr n, st')"
    "r = Enrolled ans \<Longrightarrow> \<exists>req. call = EnrollWith req"
proof -
  show "\<exists>k g actor tier a typed. call = CountIt k \<and> Looked g actor tier a typed \<in> set fs \<and> ag_ID a = i \<and> approve_count io a st = (Inr n, st')" if "r = Attempt i n"
  proof (cases call)
    case (CountIt k)
    then show ?thesis using assms that by (auto split: sum.splits prod.splits flight.splits if_splits) (metis linorder_not_less nth_mem)
  qed (use assms that in \<open>auto simp: with_flights_def answer_with_def split: sum.splits prod.splits flight.splits if_splits\<close>)
  show "\<exists>req. call = EnrollWith req" if "r = Enrolled ans"
    using assms that by (cases call) (auto simp: with_flights_def answer_with_def split: sum.splits prod.splits flight.splits if_splits)
qed

lemma reach_counted: "enrol_reach env L fs st \<Longrightarrow> counted_right env L (es_db st) i"
proof (induction rule: enrol_reach.induct)
  case starts
  then show ?case by (simp add: counted_right_def start_st_def start_db_def)
next
  case (steps L fs st io call r fs' st')
  note safe = reach_safe[OF steps.hyps(1)]
  let ?L = "(io, call, r, st) # L"
  show ?case
  proof (cases "enrolling call")
    case True
    then obtain req where call: "call = EnrollWith req" by (cases call) simp_all
    obtain q where e: "Enroll env io req st = (q, st')" and r: "r = (case q of Inl e \<Rightarrow> Failed e | Inr ans \<Rightarrow> Enrolled ans)"
      using steps.hyps(3) call by (auto simp: with_flights_def answer_with_def split: prod.splits sum.splits)
    from Enroll_grows[OF e safe steps.hyps(2), of i] show ?thesis
    proof
      assume g: "grows (es_db st) (es_db st') i"
      show ?thesis by (rule counted_grows[OF steps.IH g]) (simp add: r split: sum.split)
    next
      assume "not_waiting env io (es_db st) i \<and> (\<exists>ans. q = Inr ans \<and> an_AgentID ans = i)"
      then have "opens env io i r st" using opens_when r by auto
      then show ?thesis by (simp add: counted_right_def)
    qed
  next
    case False
    have g: "grows (es_db st) (es_db st') i"
    proof (cases "\<exists>g. call = DropOrg g")
      case True
      then have "\<forall>b \<in> set (ed_agents (es_db st')). b \<in> set (ed_agents (es_db st))" using steps.hyps(3) drop_org_agents by auto
      then show ?thesis unfolding grows_def by blast
    next
      case other: False
      have "moves env io fs False (es_db st) (es_db st')" using enrol_moves[OF steps.hyps(3)] False other by simp
      then show ?thesis by (rule moves_grow[OF _ safe steps.hyps(2)])
    qed
    show ?thesis
    proof (cases "\<exists>n. r = Attempt i n")
      case True
      then obtain n where n: "r = Attempt i n" by blast
      obtain k g actor tier a typed where a: "ag_ID a = i" "approve_count io a st = (Inr n, st')" using step_answers(1)[OF steps.hyps(3) n] by blast
      obtain b where b: "b \<in> set (ed_agents (es_db st))" "ag_ID b = i" "ea_ApprovalAttempts b < n" using count_grows(2)[OF a(2) safe] a(1) by blast
      have "tries env i L \<le> ea_ApprovalAttempts b" using steps.IH b(1,2) by (simp add: counted_right_def)
      then have "tries env i L < n" using b(3) by simp
      moreover have "tries env i ?L \<le> Suc (tries env i L)" using n by simp
      ultimately show ?thesis using count_grows(1,3)[OF a(2) safe] a(1) unfolding counted_right_def by auto
    next
      case none: False
      have "\<not> opens env io i r st" using step_answers(2)[OF steps.hyps(3)] False by (auto simp: opens_def split: enrol_result.splits)
      then have "tries env i ?L \<le> tries env i L" using none by (auto split: enrol_result.split)
      then show ?thesis by (rule counted_grows[OF steps.IH g])
    qed
  qed
qed

text \<open>
  C6. At most five codes are let through to the comparison for one request to enrol, however approvals of it overlap: counting from the call that opened
  the request, the attempts that were counted and let through are never more than \<open>MaxApprovalAttempts\<close>.
\<close>

theorem five_codes_at_most:
  assumes "enrol_reach env L fs st"
  shows "tries env i L \<le> MaxApprovalAttempts"
  using reach_counted[OF assms] by (simp add: counted_right_def)

end
