(* ===== verification/EnrolGrant.thy ===== *)
theory EnrolGrant
  imports EnrolCodes
begin

text \<open>
  That enrolling works: when no statement fails and what is sent is well formed, a token is made, the agent enrols with it, the person who types its
  code approves it, and the certificate it then collects is let in.
\<close>

subsection \<open>Calls that succeed\<close>

definition working :: "enrol_io \<Rightarrow> bool" where
  "working io \<longleftrightarrow> ei_fails io = (\<lambda>_. False) \<and> ei_sign io"

lemma write_works: "working io \<Longrightarrow> write_audited io row err (Inr d) st = (Inr (), st\<lparr>es_db := d, es_audit := es_audit st @ [row]\<rparr>)"
  by (simp add: write_audited_def working_def)

abbreviation new_token :: "enrol_io \<Rightarrow> string" where "new_token io \<equiv> ''tk-'' @ hex (ei_id io)"

text \<open>The token a person makes, as its row is kept.\<close>

definition token_of :: "enrol_env \<Rightarrow> enrol_io \<Rightarrow> string \<Rightarrow> string \<Rightarrow> string \<Rightarrow> int \<Rightarrow> string \<Rightarrow> string \<Rightarrow> token_row" where
  "token_of env io g actor label tier expected secret = \<lparr>tn_ID = new_token io, tn_OrgID = g, tn_Hash = esha env secret, tn_Label = label,
     tn_AccessTier = tier, tn_CreatedBy = actor, tn_CreatedAt = whole_ms (ei_now io), tn_ExpiresAt = whole_ms (ei_now io + TokenTTL), tn_UsedAt = None,
     tn_UsedBy = [], tn_ExpectedFingerprint = expected\<rparr>"

lemma make_works:
  assumes "working io" "ei_rnd io = Some rnd" "trim_space label = label" "label \<noteq> []" "length label \<le> 80" "GrantableTier tier"
    "to_lower (trim_space expected) = expected" "expected = [] \<or> FingerprintRe expected"
    "\<forall>r \<in> set (ed_tokens (es_db st)). tn_ID r \<noteq> new_token io \<and> tn_Hash r \<noteq> esha env (tokenPrefix @ encode64 rnd)"
  obtains t st' where "CreateTokenFor env io g actor label tier expected st = (Inr (tokenPrefix @ encode64 rnd, t), st')"
    "es_db st' = (es_db st)\<lparr>ed_tokens := ed_tokens (es_db st) @ [token_of env io g actor label tier expected (tokenPrefix @ encode64 rnd)]\<rparr>"
    "es_enrollRL st' = es_enrollRL st" "tn_Hash t = esha env (tokenPrefix @ encode64 rnd)"
proof -
  have fl: "ei_fails io = (\<lambda>_. False)" using assms(1) by (simp add: working_def)
  have none: "\<not> list_ex (\<lambda>r. tn_ID r = new_token io \<or> tn_Hash r = esha env (tokenPrefix @ encode64 rnd)) (ed_tokens (es_db st))"
    using assms(9) by (auto simp: list_ex_iff)
  let ?t = "(token_of env io g actor label tier expected (tokenPrefix @ encode64 rnd))\<lparr>tn_CreatedAt := ei_now io, tn_ExpiresAt := ei_now io + TokenTTL\<rparr>"
  show thesis
    by (rule that[of ?t "snd (CreateTokenFor env io g actor label tier expected st)"])
      (use assms(2-8) none in \<open>simp_all add: CreateTokenFor_def NewTokenSecret_def Let_def CreateTokenRow_def fl write_works[OF assms(1)] token_of_def\<close>)
qed

text \<open>A request to enrol that is well formed.\<close>

definition good_request :: "enrol_env \<Rightarrow> enrol_request \<Rightarrow> bool" where
  "good_request env req \<longleftrightarrow> LooksLikeToken (rq_Token req) \<and> FingerprintRe (rq_Fingerprint req) \<and> (\<exists>k. ParseCSR env (rq_CSR req) = Inr k)
     \<and> length (rq_Version req) \<le> 64 \<and> length (rq_K8s req) \<le> 64 \<and> length (rq_CodeHash req) = HashLen \<and> 0 \<le> rq_Tier req \<and> rq_Tier req \<le> MaxTier"

lemma token_looks_right: "length rnd = 32 \<Longrightarrow> LooksLikeToken (tokenPrefix @ encode64 rnd)"
  by (simp add: LooksLikeToken_def tokenPrefix_def decode64_encode64 length_encode64)

definition row_of :: "enrol_env \<Rightarrow> enrol_io \<Rightarrow> enrol_request \<Rightarrow> string \<Rightarrow> token_row \<Rightarrow> agent_row" where
  "row_of env io req secret t = (fresh_agent env io req (rq_Tier req) secret)\<lparr>ea_OrgID := tn_OrgID t, ag_Name := tn_Label t, ea_TokenID := tn_ID t,
     ag_Status := StatusPending, ag_CreatedAt := Some (whole_ms (ei_now io)), ag_TierCap := tn_AccessTier t\<rparr>"

lemma fresh_fields [simp]:
  "ag_ID (fresh_agent env io req tier secret) = new_agent io" "ea_Fingerprint (fresh_agent env io req tier secret) = rq_Fingerprint req"
  by (simp_all add: fresh_agent_def)

lemma enroll_works:
  assumes "working io" "ei_rnd io = Some rnd" "good_request env req"
    "Allow (''enroll:'' @ en_limit_key env (ei_ip io)) (ei_now io) (es_enrollRL st) = (True, l)"
    "ed_tokens (es_db st) = ts @ [t]" "\<forall>r \<in> set ts. tn_Hash r \<noteq> esha env (rq_Token req)"
    "tn_Hash t = esha env (rq_Token req)" "tn_UsedAt t = None" "msec (ei_now io) < msec (tn_ExpiresAt t)"
    "tn_ExpectedFingerprint t = [] \<or> tn_ExpectedFingerprint t = rq_Fingerprint req"
    "\<forall>b \<in> set (ed_agents (es_db st)). ag_ID b \<noteq> new_agent io"
  obtains st' where "Enroll env io req st = (Inr (enrollResponse env io (new_agent io) (encode64 rnd)), st')"
    "ed_agents (es_db st') = ed_agents (es_db st) @ [row_of env io req (encode64 rnd) t]" "es_enrollRL st' = l"
proof -
  have fl: "ei_fails io = (\<lambda>_. False)" using assms(1) by (simp add: working_def)
  let ?u = "usable (esha env (rq_Token req)) (ei_now io)"
  have "List.find ?u ts = None" using assms(6) by (auto simp: find_None_iff usable_def)
  moreover have u: "?u t" using assms(7-9) by (simp add: usable_def)
  ultimately have f: "List.find ?u (ed_tokens (es_db st)) = Some t" unfolding assms(5) by (induction ts) (auto split: if_splits)
  have "filter ?u ts = []" using assms(6) by (auto simp: filter_empty_conv usable_def)
  then have one: "length (filter ?u (ed_tokens (es_db st))) = 1" using u by (simp add: assms(5))
  have new: "\<not> list_ex (\<lambda>r. ag_ID r = new_agent io) (ed_agents (es_db st))" using assms(11) by (auto simp: list_ex_iff)
  have r: "ReportedTier (rq_Tier req) = (rq_Tier req, True)" using assms(3) by (simp add: good_request_def ReportedTier_def)
  obtain k where k: "ParseCSR env (rq_CSR req) = Inr k" using assms(3) by (auto simp: good_request_def)
  show thesis
    by (rule that[of "snd (Enroll env io req st)"])
      (use assms(2-4,10) f one new k in \<open>simp_all add: Enroll_def good_request_def r Let_def enroll_store_def EnrollAgent_def fl AuditE_def row_of_def\<close>)
qed

subsection \<open>Approving\<close>

lemma one_live_app: "one_live (as @ [a]) \<longleftrightarrow> one_live as \<and> (ag_Status a = StatusApproved \<longrightarrow>
    (\<forall>b \<in> set as. ag_Status b = StatusApproved \<longrightarrow> (ea_OrgID b, ea_Fingerprint b) \<noteq> (ea_OrgID a, ea_Fingerprint a)))"
  by (auto simp: one_live_def image_iff; metis)

lemma change_last:
  assumes "ed_agents d = as @ [a]" "\<forall>b \<in> set as. ag_ID b \<noteq> ag_ID a" "p a" "one_live (as @ [f a])"
  shows "change_agent q (\<lambda>_. False) (ea_OrgID a) (ag_ID a) p f d = Inr (d\<lparr>ed_agents := as @ [f a]\<rparr>)"
proof -
  have "map (\<lambda>b. if ag_ID b = ag_ID a \<and> ea_OrgID b = ea_OrgID a \<and> p b then f b else b) as = as" using assms(2) by (intro map_idI) auto
  moreover have "filter (\<lambda>b. ag_ID b = ag_ID a \<and> ea_OrgID b = ea_OrgID a \<and> p b) as = []" using assms(2) by (auto simp: filter_empty_conv)
  ultimately show ?thesis using assms(1,3,4) by (simp add: change_agent_def update_agents_def Let_def)
qed

lemma find_last: "\<forall>b \<in> set as. \<not> P b \<Longrightarrow> P a \<Longrightarrow> List.find P (as @ [a]) = Some a"
  by (induction as) auto

lemma issue_works:
  assumes "plain_name g" "g \<noteq> []" "plain_name i" "i \<noteq> []"
  obtains c t where "IssueAgent True ca key i g AgentCertTTL now = Inr (c, t)"
proof -
  have "list_all (\<lambda>c. c \<notin> set ''/?#'' \<and> c \<noteq> CHR 0x00) s" if "plain_name s" for s
    using that unfolding plain_name_def by (rule list.pred_mono_strong) (auto simp: escapes_segment_def alnum_def)
  then have "\<not> list_ex (\<lambda>c. c \<in> set ''/?#'' \<or> c = CHR 0x00) (g @ i)" using assms(1,3) by (auto simp: list_ex_iff list_all_iff)
  then obtain u where u: "URI \<lparr>id_Kind = HolderAgent, id_Org = g, id_ID = i\<rparr> = Inr u" using assms(2,4) unfolding URI_def Let_def by simp
  then show thesis using assms(4) reread_URI(1)[OF u] by (intro that) (simp add: IssueAgent_def CreateCertificate_def Let_def)
qed

lemma plain_hex: "plain_name (hex s)"
proof -
  have "plain_name [hex_digit n]" if "n < 16" for n using that by (simp add: plain_name_def escapes_segment_def alnum_def hex_digit_def Let_def)
  then show ?thesis using byte_halves by (induction s) (simp_all add: hex_def plain_name_def)
qed

lemma plain_agent: "plain_name (new_agent io)"
  using plain_hex by (simp add: plain_name_def escapes_segment_def alnum_def)

definition approved_row :: "enrol_env \<Rightarrow> enrol_io \<Rightarrow> string \<Rightarrow> int \<Rightarrow> cert \<Rightarrow> time \<Rightarrow> agent_row \<Rightarrow> agent_row" where
  "approved_row env io actor tier leaf until a = a\<lparr>ea_ApprovalAttempts := ea_ApprovalAttempts a + 1, ag_Status := StatusApproved, ag_AccessTier := tier,
     ag_ApprovedBy := actor, ag_ApprovedAt := Some (whole_ms (ei_now io)), ag_ClusterID := ClusterIDFor env (ea_OrgID a) (ea_Fingerprint a),
     ea_Leaf := Some leaf, ea_LeafNotAfter := Some (whole_ms until), ag_Reason := []\<rparr>"

lemma look_works:
  assumes "working io" "ed_agents (es_db st) = as @ [a]" "\<forall>b \<in> set as. ag_ID b \<noteq> ag_ID a" "ag_Status a = StatusPending" "\<not> waited_too_long env io a"
    "NormalizeCode code = Some typed"
  shows "approve_look env io (ea_OrgID a) (ag_ID a) code st = (Inr (a, typed), st)"
proof -
  have "List.find (\<lambda>b. ag_ID b = ag_ID a \<and> ea_OrgID b = ea_OrgID a) (as @ [a]) = Some a" by (rule find_last) (use assms(3) in auto)
  then show ?thesis using assms by (simp add: approve_look_def AgentInOrg_def GetAgent_def working_def Let_def)
qed

lemma count_works:
  assumes "working io" "ed_agents (es_db st) = as @ [a]" "\<forall>b \<in> set as. ag_ID b \<noteq> ag_ID a" "ag_Status a = StatusPending" "one_live as"
    "ea_ApprovalAttempts a < MaxApprovalAttempts"
  shows "approve_count io a st = (Inr (ea_ApprovalAttempts a + 1),
    st\<lparr>es_db := (es_db st)\<lparr>ed_agents := as @ [a\<lparr>ea_ApprovalAttempts := ea_ApprovalAttempts a + 1\<rparr>]\<rparr>\<rparr>)"
proof -
  let ?f = "\<lambda>a. a\<lparr>ea_ApprovalAttempts := ea_ApprovalAttempts a + 1\<rparr>"
  have "change_agent XCountAttempt (\<lambda>_. False) (ea_OrgID a) (ag_ID a) (\<lambda>a. ag_Status a = StatusPending) ?f (es_db st)
      = Inr ((es_db st)\<lparr>ed_agents := as @ [?f a]\<rparr>)"
    by (rule change_last) (use assms in \<open>simp_all add: one_live_app\<close>)
  moreover have "List.find (\<lambda>b. ag_ID b = ag_ID a) (as @ [?f a]) = Some (?f a)" by (rule find_last) (use assms(3) in auto)
  ultimately show ?thesis using assms(1,6) by (simp add: approve_count_def CountApprovalAttempt_def find_agent_def working_def)
qed

lemma decide_works:
  assumes "working io" "ed_agents (es_db st) = as @ [a\<lparr>ea_ApprovalAttempts := ea_ApprovalAttempts a + 1\<rparr>]" "\<forall>b \<in> set as. ag_ID b \<noteq> ag_ID a"
    "ag_Status a = StatusPending" "one_live as"
    "\<forall>b \<in> set as. ag_Status b = StatusApproved \<longrightarrow> (ea_OrgID b, ea_Fingerprint b) \<noteq> (ea_OrgID a, ea_Fingerprint a)"
    "MatchesCode (en_w env) typed (ea_CSR a) (ea_ApprovalHash a)" "CheckTier tier (ag_InstalledTier a) (ag_TierCap a) = TierAllowed"
    "ParseCSR env (ea_CSR a) = Inr key" "plain_name (ea_OrgID a)" "ea_OrgID a \<noteq> []" "plain_name (ag_ID a)" "ag_ID a \<noteq> []"
  obtains leaf until st' where "approve_decide env io (ea_OrgID a) actor tier a typed n st = (Inr (), st')"
    "IssueAgent True (en_ca env) key (ag_ID a) (ea_OrgID a) AgentCertTTL (ei_now io) = Inr (leaf, until)"
    "es_db st' = (es_db st)\<lparr>ed_agents := as @ [approved_row env io actor tier leaf until a]\<rparr>" "es_enrollRL st' = es_enrollRL st"
proof -
  obtain leaf until where i: "IssueAgent True (en_ca env) key (ag_ID a) (ea_OrgID a) AgentCertTTL (ei_now io) = Inr (leaf, until)"
    by (rule issue_works[OF assms(10-13), where now = "ei_now io" and ca = "en_ca env" and key = key])
  let ?a = "a\<lparr>ea_ApprovalAttempts := ea_ApprovalAttempts a + 1\<rparr>"
  have w: "ei_fails io = (\<lambda>_. False)" "ei_sign io" using assms(1) by (simp_all add: working_def)
  have row: "ApproveRow (\<lambda>_. False) (ea_OrgID a) (ag_ID a) tier actor (ClusterIDFor env (ea_OrgID a) (ea_Fingerprint a)) leaf until (ei_now io) (es_db st)
      = Inr ((es_db st)\<lparr>ed_agents := as @ [approved_row env io actor tier leaf until a]\<rparr>)"
    using change_last[OF assms(2), of "\<lambda>a. ag_Status a = StatusPending"] assms(3-6)
    by (simp add: ApproveRow_def one_live_app approved_row_def)
  show thesis
    by (rule that[OF _ i, where st' = "snd (approve_decide env io (ea_OrgID a) actor tier a typed n st)"])
      (use assms(7-9) in \<open>simp_all add: approve_decide_def w i row write_works[OF assms(1)] RecordAgentGraph_def split: sum.split\<close>)
qed


subsection \<open>From the token to the stream\<close>

lemma Poll_works:
  assumes "working io" "Allow (''poll:'' @ en_limit_key env (ei_ip io)) (ei_now io) (es_enrollRL st) = (True, l)"
    "ed_agents (es_db st) = as @ [a]" "\<forall>b \<in> set as. ag_ID b \<noteq> ag_ID a" "ag_Status a = StatusApproved" "ea_PollSecretHash a = Some (esha env secret)"
    "esha env secret \<noteq> []"
  shows "Poll env io (ag_ID a) secret st = (Inr (PollApproved (ea_Leaf a) (ea_LeafNotAfter a)), st\<lparr>es_enrollRL := l\<rparr>)"
proof -
  have "List.find (\<lambda>b. ag_ID b = ag_ID a) (as @ [a]) = Some a" by (rule find_last) (use assms(4) in auto)
  then show ?thesis using assms by (simp add: Poll_def FindAgent_def find_agent_def working_def waited_too_long_def poll_state_of_def)
qed

lemma caller_works:
  assumes "working io" "ed_agents (es_db st) = as @ [a]" "\<forall>b \<in> set as. ag_ID b \<noteq> ag_ID a" "ag_Status a = StatusApproved" "g \<in> {[], ea_OrgID a}"
    "IssueAgent True ca key (ag_ID a) (ea_OrgID a) ttl now = Inr (leaf, until)" "plain_name (ea_OrgID a)" "plain_name (ag_ID a)"
  shows "caller_identity env io g (Some leaf) st = Inr a"
proof -
  have "List.find (\<lambda>b. ag_ID b = ag_ID a \<and> ea_OrgID b = ea_OrgID a) (as @ [a]) = Some a" "List.find (\<lambda>b. ag_ID b = ag_ID a) (as @ [a]) = Some a"
    by (rule find_last; use assms(3) in auto)+
  then have auth: "AuthorizeAgent io g (ag_ID a) st = Inr a"
    using assms(1,2,4,5) by (auto simp: AuthorizeAgent_def FindAgent_def GetAgent_def find_agent_def working_def)
  have "IdentityOf leaf = Inr (Some \<lparr>id_Kind = HolderAgent, id_Org = ea_OrgID a, id_ID = ag_ID a\<rparr>)"
    using issued_reads[OF assms(6)] assms(7,8) by simp
  then have h: "Holder (en_require env) leaf HolderAgent = Inr (Some \<lparr>id_Kind = HolderAgent, id_Org = ea_OrgID a, id_ID = ag_ID a\<rparr>)"
    by (simp add: Holder_def)
  obtain u where "ct_CN leaf = ag_ID a" "ct_Orgs leaf = [ea_OrgID a]" "ct_Usage leaf = [ClientAuth]" using issued_agent[OF assms(6)] by metis
  then show ?thesis using auth h by (simp add: caller_identity_def holdsOrg_def)
qed

text \<open>What a person grants: a token for this cluster, a code that matches, a tier the install and the token allow, in time.\<close>

definition granted :: "enrol_env \<Rightarrow> enrol_io \<Rightarrow> enrol_io \<Rightarrow> string \<Rightarrow> int \<Rightarrow> string \<Rightarrow> enrol_request \<Rightarrow> string \<Rightarrow> int \<Rightarrow> bool" where
  "granted env made asked label cap expected req code tier \<longleftrightarrow> trim_space label = label \<and> label \<noteq> [] \<and> length label \<le> 80 \<and> GrantableTier cap
     \<and> to_lower (trim_space expected) = expected \<and> (expected = [] \<or> expected = rq_Fingerprint req) \<and> msec (ei_now asked) < msec (ei_now made + TokenTTL)
     \<and> NormalizeCode code \<noteq> None \<and> MatchesCode (en_w env) code (rq_CSR req) (Some (rq_CodeHash req)) \<and> CheckTier tier (rq_Tier req) cap = TierAllowed"

text \<open>The rows that are there do not stand in the way: new ids, and no approved agent of this cluster.\<close>

definition no_obstacle :: "enrol_env \<Rightarrow> enrol_io \<Rightarrow> enrol_io \<Rightarrow> string \<Rightarrow> string \<Rightarrow> string \<Rightarrow> enrol_db \<Rightarrow> bool" where
  "no_obstacle env made asked g fp secret d \<longleftrightarrow> (\<forall>r \<in> set (ed_tokens d). tn_ID r \<noteq> new_token made \<and> tn_Hash r \<noteq> esha env secret)
     \<and> (\<forall>b \<in> set (ed_agents d). ag_ID b \<noteq> new_agent asked \<and> \<not> (ag_Status b = StatusApproved \<and> ea_OrgID b = g \<and> ea_Fingerprint b = fp))"


lemma approved_fields [simp]:
  "ag_ID (approved_row env io actor tier leaf until a) = ag_ID a" "ag_Status (approved_row env io actor tier leaf until a) = StatusApproved"
  "ea_OrgID (approved_row env io actor tier leaf until a) = ea_OrgID a" "ag_Name (approved_row env io actor tier leaf until a) = ag_Name a"
  "ag_AccessTier (approved_row env io actor tier leaf until a) = tier" "ea_Leaf (approved_row env io actor tier leaf until a) = Some leaf"
  "ea_LeafNotAfter (approved_row env io actor tier leaf until a) = Some (whole_ms until)"
  "ea_PollSecretHash (approved_row env io actor tier leaf until a) = ea_PollSecretHash a"
  by (simp_all add: approved_row_def)

lemma row_fields [simp]:
  "ag_ID (row_of env io req secret t) = new_agent io" "ag_Status (row_of env io req secret t) = StatusPending" "ea_OrgID (row_of env io req secret t) = tn_OrgID t"
  "ag_Name (row_of env io req secret t) = tn_Label t" "ea_Fingerprint (row_of env io req secret t) = rq_Fingerprint req"
  "ea_CSR (row_of env io req secret t) = rq_CSR req" "ag_InstalledTier (row_of env io req secret t) = rq_Tier req" "ag_TierCap (row_of env io req secret t) = tn_AccessTier t"
  "ea_PollSecretHash (row_of env io req secret t) = Some (esha env secret)" "ea_ApprovalAttempts (row_of env io req secret t) = 0"
  "ag_CreatedAt (row_of env io req secret t) = Some (whole_ms (ei_now io))"
  "ea_ApprovalHash (row_of env io req secret t) = (if rq_CodeHash req = [] then None else Some (rq_CodeHash req))"
  by (simp_all add: row_of_def fresh_agent_def)

lemma token_fields [simp]:
  "tn_OrgID (token_of env io g actor label tier expected secret) = g" "tn_Label (token_of env io g actor label tier expected secret) = label"
  "tn_AccessTier (token_of env io g actor label tier expected secret) = tier" "tn_UsedAt (token_of env io g actor label tier expected secret) = None"
  "tn_Hash (token_of env io g actor label tier expected secret) = esha env secret"
  "tn_ExpectedFingerprint (token_of env io g actor label tier expected secret) = expected"
  "msec (tn_ExpiresAt (token_of env io g actor label tier expected secret)) = msec (ei_now io + TokenTTL)"
  by (simp_all add: token_of_def msec_def of_msec_def)

text \<open>The approval of a request whose row is the last of the table.\<close>

lemma Approve_works:
  assumes "working io" "ed_agents (es_db st) = as @ [a]" "\<forall>b \<in> set as. ag_ID b \<noteq> ag_ID a" "ag_Status a = StatusPending" "one_live as"
    "\<not> waited_too_long env io a" "ea_ApprovalAttempts a = 0"
    "\<forall>b \<in> set as. ag_Status b = StatusApproved \<longrightarrow> (ea_OrgID b, ea_Fingerprint b) \<noteq> (ea_OrgID a, ea_Fingerprint a)"
    "NormalizeCode code = Some typed" "MatchesCode (en_w env) code (ea_CSR a) (ea_ApprovalHash a)"
    "CheckTier tier (ag_InstalledTier a) (ag_TierCap a) = TierAllowed" "ParseCSR env (ea_CSR a) = Inr key" "plain_name (ea_OrgID a)" "ea_OrgID a \<noteq> []"
    "plain_name (ag_ID a)" "ag_ID a \<noteq> []"
  obtains leaf until st' where "Approve env io (ea_OrgID a) actor (ag_ID a) code tier st = (Inr (), st')"
    "IssueAgent True (en_ca env) key (ag_ID a) (ea_OrgID a) AgentCertTTL (ei_now io) = Inr (leaf, until)"
    "ed_agents (es_db st') = as @ [approved_row env io actor tier leaf until a]" "es_enrollRL st' = es_enrollRL st"
proof -
  let ?st = "st\<lparr>es_db := (es_db st)\<lparr>ed_agents := as @ [a\<lparr>ea_ApprovalAttempts := ea_ApprovalAttempts a + 1\<rparr>]\<rparr>\<rparr>"
  have "ed_agents (es_db ?st) = as @ [a\<lparr>ea_ApprovalAttempts := ea_ApprovalAttempts a + 1\<rparr>]" by simp
  moreover have "MatchesCode (en_w env) typed (ea_CSR a) (ea_ApprovalHash a)" using Matches_normal[OF assms(9)] assms(10) by simp
  ultimately obtain leaf until st' where d: "approve_decide env io (ea_OrgID a) actor tier a typed (ea_ApprovalAttempts a + 1) ?st = (Inr (), st')"
    "IssueAgent True (en_ca env) key (ag_ID a) (ea_OrgID a) AgentCertTTL (ei_now io) = Inr (leaf, until)"
    "es_db st' = (es_db ?st)\<lparr>ed_agents := as @ [approved_row env io actor tier leaf until a]\<rparr>" "es_enrollRL st' = es_enrollRL ?st"
    by (rule decide_works[OF assms(1) _ assms(3-5,8) _ assms(11-16)])
  have "Approve env io (ea_OrgID a) actor (ag_ID a) code tier st = (Inr (), st')"
    using look_works[OF assms(1-4,6,9)] count_works[OF assms(1-5)] assms(7) d(1) by (simp add: Approve_def MaxApprovalAttempts_def)
  then show thesis by (rule that[of st' leaf until]) (use d in simp_all)
qed

text \<open>
  C7. Enrolling works: in any state a run reaches, a person who may make a token makes one, a cluster that sends a well-formed request with it is enrolled,
  the person who types the code it printed approves it, it collects its certificate with the secret it was given, and with that certificate it is let in
  as the agent the person named, at the tier they granted. This needs that no statement fails, that the random numbers are new, that the
  calls are made in time and within the limits, that no agent of this cluster is approved, and that the id of the organisation needs no escaping.
\<close>

theorem enrolled_agent_gets_in:
  assumes "enrol_reach env L fs st" "\<forall>io \<in> {made, asked, judged, polled, calls}. working io"
    "ei_rnd made = Some rnd" "length rnd = 32" "ei_rnd asked = Some rnd'" "rq_Token req = tokenPrefix @ encode64 rnd" "good_request env req"
    "granted env made asked label cap expected req code tier" "no_obstacle env made asked g (rq_Fingerprint req) (rq_Token req) (es_db st)"
    "Allow (''enroll:'' @ en_limit_key env (ei_ip asked)) (ei_now asked) (es_enrollRL st) = (True, l)"
    "Allow (''poll:'' @ en_limit_key env (ei_ip polled)) (ei_now polled) l = (True, l')"
    "ei_now judged - whole_ms (ei_now asked) \<le> EffectivePendingTTL env" "plain_name g" "g \<noteq> []" "esha env (encode64 rnd') \<noteq> []" "g' \<in> {[], g}"
  shows "\<exists>st1 st2 st3 st4 t ans leaf until a. CreateTokenFor env made g maker label cap expected st = (Inr (rq_Token req, t), st1)
    \<and> Enroll env asked req st1 = (Inr ans, st2) \<and> Approve env judged g person (an_AgentID ans) code tier st2 = (Inr (), st3)
    \<and> Poll env polled (an_AgentID ans) (an_PollSecret ans) st3 = (Inr (PollApproved (Some leaf) (Some until)), st4)
    \<and> caller_identity env calls g' (Some leaf) st4 = Inr a \<and> ag_ID a = an_AgentID ans \<and> ag_Name a = label \<and> ag_AccessTier a = tier"
proof -
  let ?t = "token_of env made g maker label cap expected (rq_Token req)" and ?as = "ed_agents (es_db st)"
  let ?a = "row_of env asked req (encode64 rnd') ?t"
  have w: "working made" "working asked" "working judged" "working polled" "working calls" using assms(2) by simp_all
  note gr = assms(8)[unfolded granted_def] and no = assms(9)[unfolded no_obstacle_def] and rq = assms(7)[unfolded good_request_def]
  have live: "one_live ?as" using reach_safe[OF assms(1)] by (simp add: safe_def tables_ok_def)
  obtain key where key: "ParseCSR env (rq_CSR req) = Inr key" using rq by blast
  obtain typed where typed: "NormalizeCode code = Some typed" using gr by blast
  have hash: "rq_CodeHash req \<noteq> []" using rq by (auto simp: HashLen_def)
  obtain t st1 where st1: "CreateTokenFor env made g maker label cap expected st = (Inr (rq_Token req, t), st1)"
    "es_db st1 = (es_db st)\<lparr>ed_tokens := ed_tokens (es_db st) @ [?t]\<rparr>" "es_enrollRL st1 = es_enrollRL st"
    by (rule make_works[OF w(1) assms(3), where st = st and env = env and g = g and actor = maker and label = label and tier = cap and expected = expected,
          folded assms(6)]) (use gr no rq in auto)
  have agents: "ed_agents (es_db st1) = ?as" "ed_tokens (es_db st1) = ed_tokens (es_db st) @ [?t]" using st1(2) by simp_all
  obtain st2 where st2: "Enroll env asked req st1 = (Inr (enrollResponse env asked (new_agent asked) (encode64 rnd')), st2)"
    "ed_agents (es_db st2) = ?as @ [?a]" "es_enrollRL st2 = l"
    by (rule enroll_works[OF w(2) assms(5,7) _ agents(2)]) (use st1(3) assms(10) gr no agents(1) in auto)
  have new: "\<forall>b \<in> set ?as. ag_ID b \<noteq> ag_ID ?a" using no by simp
  have late: "\<not> waited_too_long env judged ?a" using assms(12) by (simp add: waited_too_long_def)
  obtain leaf until st3 where st3: "Approve env judged (ea_OrgID ?a) person (ag_ID ?a) code tier st2 = (Inr (), st3)"
    "IssueAgent True (en_ca env) key (ag_ID ?a) (ea_OrgID ?a) AgentCertTTL (ei_now judged) = Inr (leaf, until)"
    "ed_agents (es_db st3) = ?as @ [approved_row env judged person tier leaf until ?a]" "es_enrollRL st3 = es_enrollRL st2"
    by (rule Approve_works[OF w(3) st2(2) new _ live late _ _ typed, where tier = tier and key = key and actor = person])
      (use gr no key hash assms(13,14) plain_agent in auto)
  let ?b = "approved_row env judged person tier leaf until ?a"
  have poll: "Poll env polled (ag_ID ?b) (encode64 rnd') st3 = (Inr (PollApproved (ea_Leaf ?b) (ea_LeafNotAfter ?b)), st3\<lparr>es_enrollRL := l'\<rparr>)"
    by (rule Poll_works[OF w(4) _ st3(3)]) (use assms(11,15) st3(4) st2(3) new in auto)
  have "caller_identity env calls g' (Some leaf) (st3\<lparr>es_enrollRL := l'\<rparr>) = Inr ?b"
    by (rule caller_works[OF w(5), where as = ?as and key = key and until = until]) (use st3 new assms(13,16) plain_agent in auto)
  then show ?thesis using st1(1) st2(1) st3(1) poll
    by (intro exI[of _ st1] exI[of _ st2] exI[of _ st3] exI[of _ "st3\<lparr>es_enrollRL := l'\<rparr>"] exI[of _ t]
        exI[of _ "enrollResponse env asked (new_agent asked) (encode64 rnd')"] exI[of _ leaf] exI[of _ "whole_ms until"] exI[of _ ?b])
      (simp add: enrollResponse_def)
qed


subsection \<open>A run\<close>

definition demo_env :: enrol_env where
  "demo_env = \<lparr>en_w = \<lparr>cw_sha = (\<lambda>s. s), cw_argon = (\<lambda>p s t m h n. replicate 32 CHR ''h''),
     cw_csr = (\<lambda>_. Some \<lparr>cs_Pub = Some ''key'', cs_SigOk = True, cs_P256 = True\<rparr>)\<rparr>, en_limit_key = (\<lambda>s. s), en_quote = (\<lambda>s. s),
     en_rfc = (\<lambda>_. []), en_dur = (\<lambda>_. []), en_ca = ''ca'', en_ca_valid = (\<lambda>_. True), en_require = True, en_ttl = 0, en_poll_after = 0,
     en_on_revoke = False\<rparr>"

definition demo_io :: "string \<Rightarrow> enrol_io" where
  "demo_io i = \<lparr>ei_fails = (\<lambda>_. False), ei_now = 0, ei_ip = ''10.0.0.1'', ei_id = i, ei_rnd = Some (replicate 32 CHR ''r''), ei_sign = True\<rparr>"

definition demo_secret :: string where "demo_secret = tokenPrefix @ encode64 (replicate 32 CHR ''r'')"

definition demo_req :: enrol_request where
  "demo_req = \<lparr>rq_Token = demo_secret, rq_Fingerprint = ''3f2b6c1e-9a4d-4e7b-8c55-0d1e2f3a4b5c'', rq_CSR = ''csr'', rq_Version = ''1'', rq_K8s = ''1.30'',
     rq_CodeHash = replicate 32 CHR ''h'', rq_Tier = 2\<rparr>"

lemma demo_working [simp]: "working (demo_io i)"
  by (simp add: working_def demo_io_def)

lemma demo_fields [simp]:
  "ei_now (demo_io i) = 0" "ei_ip (demo_io i) = ''10.0.0.1''" "ei_rnd (demo_io i) = Some (replicate 32 CHR ''r'')" "en_limit_key demo_env s = s"
  "rq_Token demo_req = demo_secret"
  by (simp_all add: demo_io_def demo_env_def demo_req_def)

lemma demo_good: "good_request demo_env demo_req"
proof -
  have "LooksLikeToken demo_secret" unfolding demo_secret_def by (rule token_looks_right) simp
  moreover have "FingerprintRe (rq_Fingerprint demo_req)" by (simp add: FingerprintRe_def demo_req_def lower_hex_byte_def)
  moreover have "ParseCSR demo_env (rq_CSR demo_req) = Inr ''key''" by (simp add: ParseCSR_def demo_env_def demo_req_def)
  ultimately show ?thesis by (simp add: good_request_def demo_req_def HashLen_def MaxTier_def)
qed

lemma demo_granted: "granted demo_env (demo_io i) (demo_io j) ''site'' 2 [] demo_req ''d1jp-rv3f'' 1"
proof -
  have "trim_space ''site'' = ''site''" "GrantableTier 2" "to_lower (trim_space []) = []" "msec 0 < msec (0 + TokenTTL)" "CheckTier 1 2 2 = TierAllowed"
    by code_simp+
  moreover have n: "NormalizeCode ''d1jp-rv3f'' = Some ''D1JPRV3F''" by code_simp
  moreover have "MatchesCode (en_w demo_env) ''d1jp-rv3f'' (rq_CSR demo_req) (Some (rq_CodeHash demo_req))"
    by (simp add: MatchesCode_def HashCode_def n KeyID_def demo_env_def demo_req_def HashLen_def)
  ultimately show ?thesis by (simp add: granted_def demo_req_def demo_io_def)
qed

lemma demo_allows:
  "\<exists>l l'. Allow (''enroll:'' @ ''10.0.0.1'') 0 (es_enrollRL start_st) = (True, l) \<and> Allow (''poll:'' @ ''10.0.0.1'') 0 l = (True, l')"
  by (simp add: start_st_def NewLimiter_def Allow_def sweep_def sweep_back.simps make_room.simps maxBuckets_def refilled_def to_front_def Let_def)


theorem enrolled_agent_gets_in_witness:
  "\<exists>st1 st2 st3 st4 t ans leaf until a. CreateTokenFor demo_env (demo_io ''a'') ''main'' ''alice'' ''site'' 2 [] start_st = (Inr (rq_Token demo_req, t), st1)
    \<and> Enroll demo_env (demo_io ''b'') demo_req st1 = (Inr ans, st2)
    \<and> Approve demo_env (demo_io ''c'') ''main'' ''bob'' (an_AgentID ans) ''d1jp-rv3f'' 1 st2 = (Inr (), st3)
    \<and> Poll demo_env (demo_io ''d'') (an_AgentID ans) (an_PollSecret ans) st3 = (Inr (PollApproved (Some leaf) (Some until)), st4)
    \<and> caller_identity demo_env (demo_io ''e'') [] (Some leaf) st4 = Inr a \<and> ag_ID a = an_AgentID ans \<and> ag_Name a = ''site'' \<and> ag_AccessTier a = 1"
proof -
  obtain l l' where al: "Allow (''enroll:'' @ ''10.0.0.1'') 0 (es_enrollRL start_st) = (True, l)" "Allow (''poll:'' @ ''10.0.0.1'') 0 l = (True, l')"
    using demo_allows by blast
  have plain: "plain_name ''main''" by code_simp
  have none: "no_obstacle demo_env (demo_io ''a'') (demo_io ''b'') ''main'' (rq_Fingerprint demo_req) (rq_Token demo_req) (es_db start_st)"
    by (simp add: no_obstacle_def start_st_def start_db_def)
  have ttl: "0 - whole_ms 0 \<le> EffectivePendingTTL demo_env" by code_simp
  have long: "encode64 (replicate 32 CHR ''r'') \<noteq> []" using length_encode64[of "replicate 32 CHR ''r''"] by auto
  show ?thesis
    by (rule enrolled_agent_gets_in[OF enrol_reach.starts, where rnd = "replicate 32 CHR ''r''" and rnd' = "replicate 32 CHR ''r''" and l = l and l' = l',
          OF _ _ _ _ _ demo_good demo_granted none _ _ _ plain])
      (use al ttl long in \<open>simp_all add: demo_io_def demo_env_def demo_req_def demo_secret_def working_def\<close>)
qed

text \<open>The same run call by call, and one that ends with a rejection.\<close>

abbreviation demo_agent :: string where "demo_agent \<equiv> new_agent (demo_io ''b'')"

definition demo_row :: agent_row where
  "demo_row = row_of demo_env (demo_io ''b'') demo_req (encode64 (replicate 32 CHR ''r'')) (token_of demo_env (demo_io ''a'') ''main'' ''alice'' ''site'' 2 [] demo_secret)"

lemma demo_enrolled:
  obtains L ans st where "enrol_reach demo_env L [] st" "ed_agents (es_db st) = [demo_row]" "tries demo_env demo_agent L = 0"
proof -
  let ?io = "demo_io ''a''" and ?io' = "demo_io ''b''" and ?rnd = "replicate 32 CHR ''r''"
  obtain l l' where al: "Allow (''enroll:'' @ ''10.0.0.1'') 0 (es_enrollRL start_st) = (True, l)" "Allow (''poll:'' @ ''10.0.0.1'') 0 l = (True, l')"
    using demo_allows by blast
  note gr = demo_granted[of "''a''" "''b''", unfolded granted_def]
  obtain t st1 where st1: "CreateTokenFor demo_env ?io ''main'' ''alice'' ''site'' 2 [] start_st = (Inr (demo_secret, t), st1)"
    "es_db st1 = (es_db start_st)\<lparr>ed_tokens := ed_tokens (es_db start_st) @ [token_of demo_env ?io ''main'' ''alice'' ''site'' 2 [] demo_secret]\<rparr>"
    "es_enrollRL st1 = es_enrollRL start_st"
    by (rule make_works[OF demo_working demo_fields(3)[of "''a''"], where st = start_st and env = demo_env and g = "''main''" and actor = "''alice''" and label = "''site''" and tier = 2
          and expected = "[]", folded demo_secret_def]) (use gr in \<open>auto simp: start_st_def start_db_def\<close>)
  have s1: "enrol_step demo_env ?io (MakeToken ''main'' ''alice'' ''site'' 2 []) ([], start_st) = (Made demo_secret t, [], st1)"
    using st1(1) by (simp add: with_flights_def answer_with_def)
  have db: "ed_agents (es_db st1) = []" "ed_tokens (es_db st1) = [] @ [token_of demo_env ?io ''main'' ''alice'' ''site'' 2 [] demo_secret]"
    using st1(2) by (simp_all add: start_st_def start_db_def)
  obtain st2 where st2: "Enroll demo_env ?io' demo_req st1 = (Inr (enrollResponse demo_env ?io' demo_agent (encode64 ?rnd)), st2)"
    "ed_agents (es_db st2) = ed_agents (es_db st1) @ [demo_row]"
    by (rule enroll_works[OF demo_working demo_fields(3)[of "''b''"] demo_good _ db(2), folded demo_row_def]) (use st1(3) al gr db(1) in auto)
  have s2: "enrol_step demo_env ?io' (EnrollWith demo_req) ([], st1) = (Enrolled (enrollResponse demo_env ?io' demo_agent (encode64 ?rnd)), [], st2)"
    using st2(1) by (simp add: with_flights_def answer_with_def)
  have "enrol_reach demo_env [(?io', EnrollWith demo_req, Enrolled (enrollResponse demo_env ?io' demo_agent (encode64 ?rnd)), st1),
      (?io, MakeToken ''main'' ''alice'' ''site'' 2 [], Made demo_secret t, start_st)] [] st2"
    by (rule enrol_reach.steps[OF enrol_reach.steps[OF enrol_reach.starts _ s1] _ s2]) simp_all
  then show thesis by (rule that) (use st2(2) db(1) in \<open>simp_all add: opens_def enrollResponse_def\<close>)
qed


lemma demo_rows:
  "ag_ID demo_row = demo_agent" "ea_OrgID demo_row = ''main''" "ag_Status demo_row = StatusPending" "ea_ApprovalAttempts demo_row = 0"
  "\<not> waited_too_long demo_env (demo_io i) demo_row" "ea_CSR demo_row = ''csr''" "ea_ApprovalHash demo_row = Some (replicate 32 CHR ''h'')"
  "ag_InstalledTier demo_row = 2" "ag_TierCap demo_row = 2"
proof -
  have "0 - whole_ms 0 \<le> EffectivePendingTTL demo_env" by code_simp
  then show "\<not> waited_too_long demo_env (demo_io i) demo_row" by (simp add: demo_row_def waited_too_long_def)
qed (simp_all add: demo_row_def, simp_all add: demo_req_def)

lemma demo_approved:
  obtains L a st where "enrol_reach demo_env L [] st" "ed_agents (es_db st) = [a]" "ag_ID a = demo_agent" "ag_Status a = StatusApproved"
    "tries demo_env demo_agent L = 1"
proof -
  let ?typed = "''D1JPRV3F''" and ?code = "''d1jp-rv3f''"
  obtain L2 st2 where r2: "enrol_reach demo_env L2 [] st2" "ed_agents (es_db st2) = [] @ [demo_row]" "tries demo_env demo_agent L2 = 0"
    using demo_enrolled by (metis append_Nil)
  note gr = demo_granted[of "''a''" "''b''", unfolded granted_def]
  have code: "NormalizeCode ?code = Some ?typed" by code_simp
  have key: "ParseCSR demo_env (ea_CSR demo_row) = Inr ''key''" by (simp add: ParseCSR_def demo_env_def demo_rows)
  have live: "one_live []" by (simp add: one_live_def)
  have look: "approve_look demo_env (demo_io ''c'') ''main'' demo_agent ?code st2 = (Inr (demo_row, ?typed), st2)"
    using look_works[OF demo_working r2(2) _ demo_rows(3,5) code] by (simp add: demo_rows)
  have s3: "enrol_step demo_env (demo_io ''c'') (LookAt ''main'' ''bob'' demo_agent ?code 1) ([], st2) = (SawIt, [Looked ''main'' ''bob'' 1 demo_row ?typed], st2)"
    using look by simp
  let ?st3 = "st2\<lparr>es_db := (es_db st2)\<lparr>ed_agents := [] @ [demo_row\<lparr>ea_ApprovalAttempts := ea_ApprovalAttempts demo_row + 1\<rparr>]\<rparr>\<rparr>"
  have "approve_count (demo_io ''d'') demo_row st2 = (Inr (ea_ApprovalAttempts demo_row + 1), ?st3)"
    by (rule count_works[OF demo_working r2(2)]) (simp_all add: demo_rows live MaxApprovalAttempts_def)
  then have s4: "enrol_step demo_env (demo_io ''d'') (CountIt 0) ([Looked ''main'' ''bob'' 1 demo_row ?typed], st2)
      = (Attempt demo_agent 1, [Counted ''main'' ''bob'' 1 demo_row ?typed 1], ?st3)"
    by (simp add: demo_rows)
  have matches: "MatchesCode (en_w demo_env) ?typed (ea_CSR demo_row) (ea_ApprovalHash demo_row)"
    using Matches_normal[OF code] gr by (simp add: demo_rows) (simp add: demo_req_def)
  have tier: "CheckTier 1 (ag_InstalledTier demo_row) (ag_TierCap demo_row) = TierAllowed" unfolding demo_rows by code_simp
  have plain: "plain_name (ea_OrgID demo_row)" "plain_name (ag_ID demo_row)" using plain_agent by (simp_all only: demo_rows) code_simp
  have agents: "ed_agents (es_db ?st3) = [] @ [demo_row\<lparr>ea_ApprovalAttempts := ea_ApprovalAttempts demo_row + 1\<rparr>]" by simp
  obtain leaf until st5 where d: "approve_decide demo_env (demo_io ''e'') (ea_OrgID demo_row) ''bob'' 1 demo_row ?typed 1 ?st3 = (Inr (), st5)"
    "es_db st5 = (es_db ?st3)\<lparr>ed_agents := [] @ [approved_row demo_env (demo_io ''e'') ''bob'' 1 leaf until demo_row]\<rparr>"
    by (rule decide_works[OF demo_working[of "''e''"] agents _ demo_rows(3) live _ matches tier key plain(1) _ plain(2), where actor = "''bob''" and n = 1]) (auto simp: demo_rows)
  have s5: "enrol_step demo_env (demo_io ''e'') (DecideIt 0) ([Counted ''main'' ''bob'' 1 demo_row ?typed 1], ?st3) = (Done, [], st5)"
    using d(1) unfolding demo_rows by (simp add: with_flights_def answer_with_def drop_nth_def)
  have other: "new_agent (demo_io ''d'') \<noteq> demo_agent" "new_agent (demo_io ''e'') \<noteq> demo_agent" by (simp_all add: demo_io_def hex_def hex_digit_def)
  note r3 = enrol_reach.steps[OF r2(1) _ s3]
  note r5 = enrol_reach.steps[OF enrol_reach.steps[OF r3 _ s4] _ s5]
  show thesis by (rule that[OF r5, where a = "approved_row demo_env (demo_io ''e'') ''bob'' 1 leaf until demo_row"]) (use d(2) r2(3) other in \<open>simp_all add: demo_rows opens_def\<close>)
qed


lemma demo_rejected:
  obtains L st where "enrol_reach demo_env L [] st" "ended (es_db st) ''main'' demo_agent StatusRejected"
proof -
  obtain L st where r: "enrol_reach demo_env L [] st" "ed_agents (es_db st) = [] @ [demo_row]" using demo_enrolled by (metis append_Nil)
  let ?io = "demo_io ''c''"
  have w: "ei_fails ?io = (\<lambda>_. False)" by (simp add: demo_io_def)
  obtain d where d: "RejectRow (\<lambda>_. False) ''main'' demo_agent (Printable ''no'' MaxReason) 0 (es_db st) = Inr d" "ended d ''main'' demo_agent StatusRejected"
    using change_last[OF r(2), of "\<lambda>a. ag_Status a = StatusPending"] by (auto simp: RejectRow_def demo_rows one_live_def ended_def)
  have "ed_agents (es_db st) = [demo_row]" using r(2) by simp
  then have "AgentInOrg ?io ''main'' demo_agent st = Inr demo_row" by (simp add: AgentInOrg_def GetAgent_def w demo_rows)
  then obtain q st' where q: "Reject demo_env ?io ''main'' ''bob'' demo_agent ''no'' st = (q, st')" "es_db st' = d"
    using d(1) by (auto simp: Reject_def w write_works[OF demo_working] Let_def)
  then obtain x where "enrol_step demo_env ?io (RejectIt ''main'' ''bob'' demo_agent ''no'') ([], st) = (x, [], st')"
    by (cases q) (auto simp: with_flights_def answer_with_def)
  from enrol_reach.steps[OF r(1) _ this] show thesis using that d(2) q(2) by simp
qed

subsection \<open>Where the properties of runs apply\<close>

theorem enrolment_well_typed_witness:
  "\<exists>L st a. enrol_reach demo_env L [] st \<and> ed_agents (es_db st) = [a] \<and> ag_Status a = StatusApproved \<and> tables_ok (es_db st)"
  using demo_approved enrolment_well_typed by metis

theorem token_enrols_one_witness:
  "\<exists>L st a. enrol_reach demo_env L [] st \<and> ed_agents (es_db st) = [a] \<and> (\<forall>b. b \<in> set (ed_agents (es_db st)) \<and> ea_TokenID b = ea_TokenID a \<longrightarrow> b = a)"
proof -
  obtain L st a where r: "enrol_reach demo_env L [] st" "ed_agents (es_db st) = [a]" using demo_approved by metis
  then have "\<forall>b. b \<in> set (ed_agents (es_db st)) \<and> ea_TokenID b = ea_TokenID a \<longrightarrow> b = a"
    using token_enrols_one[OF r(1), of _ a] by (metis list.set_intros(1))
  with r show ?thesis by blast
qed

theorem approval_needs_code_witness:
  "\<exists>L st a. enrol_reach demo_env L [] st \<and> ed_agents (es_db st) = [a] \<and> ag_Status a = StatusApproved \<and> justified demo_env L a"
proof -
  obtain L st a where r: "enrol_reach demo_env L [] st" "ed_agents (es_db st) = [a]" "ag_Status a = StatusApproved" using demo_approved by metis
  moreover have "justified demo_env L a" by (rule approval_needs_code[OF r(1) _ r(3)]) (simp add: r(2))
  ultimately show ?thesis by blast
qed

theorem five_codes_at_most_witness:
  "\<exists>L st. enrol_reach demo_env L [] st \<and> tries demo_env demo_agent L = 1 \<and> 1 \<le> MaxApprovalAttempts"
proof -
  obtain L st a where r: "enrol_reach demo_env L [] st" "tries demo_env demo_agent L = 1" using demo_approved by metis
  with five_codes_at_most[OF r(1), of demo_agent] show ?thesis by auto
qed

theorem ended_for_good_witness:
  "\<exists>L st r fs st'. enrol_reach demo_env L [] st \<and> ended (es_db st) ''main'' demo_agent StatusRejected
     \<and> enrol_step demo_env (demo_io ''d'') (EnrollWith demo_req) ([], st) = (r, fs, st') \<and> ended (es_db st') ''main'' demo_agent StatusRejected"
proof -
  obtain L st where r: "enrol_reach demo_env L [] st" "ended (es_db st) ''main'' demo_agent StatusRejected" using demo_rejected by metis
  obtain x fs st' where s: "enrol_step demo_env (demo_io ''d'') (EnrollWith demo_req) ([], st) = (x, fs, st')" by (metis prod.collapse)
  obtain K where "(demo_io ''d'', EnrollWith demo_req, x, st) # L = K @ L"
    "(\<exists>io q p. (io, DropOrg ''main'', q, p) \<in> set K) \<or> ended (es_db st') ''main'' demo_agent StatusRejected"
    using ended_for_good[OF r _ later.then_call[OF later.now _ s]] by auto
  moreover from this(1) have "K = [(demo_io ''d'', EnrollWith demo_req, x, st)]" by (metis append_Cons append_Nil append_same_eq)
  ultimately have "ended (es_db st') ''main'' demo_agent StatusRejected" by (simp)
  with r s show ?thesis by blast
qed

end
